(* ===== verification/Svn_Prelude.thy ===== *)
theory Svn_Prelude
  imports Main "HOL-Library.AList" "HOL-Library.Word"
begin

text \<open>
  Shared vocabulary of the development: the error codes and the result type of
  functions returning \<open>svn_error_t *\<close>, the sequencing that \<open>SVN_ERR\<close> gives, loops
  over the entries of a hash, and generic list lemmas.

  An \<open>svn_error_t *\<close> result is \<open>svn_err + 'a\<close>: \<open>Inr\<close> for \<open>SVN_NO_ERROR\<close>
  with the values of the output parameters, \<open>Inl\<close> with the error code otherwise.
  Messages are not modelled, except where the code reads them back.
\<close>

named_theorems rl_simps \<open>facts that evaluate range and rangelist operations\<close>

datatype svn_err =
    Mergeinfo_parse_error
  | Revnum_parse_failure
  | Assertion_fail
  | Svndiff_invalid_header
  | Svndiff_corrupt_window
  | Svndiff_backward_view
  | Svndiff_invalid_ops
  | Svndiff_unexpected_end
  | Svndiff_invalid_compressed_data
  | Zlib_error int
  | Incomplete_data
  | Consumer_error
  | Fs_path_syntax
  | Bad_url
  | Bad_filename
  | Ra_illegal_url
  | Apr_error int

type_synonym 'a svn_result = "svn_err + 'a"

text \<open>\<open>SVN_ERR(expr)\<close>: return the error of \<open>expr\<close> at once, go on otherwise.\<close>

fun svn_try :: "'e + 'a \<Rightarrow> ('a \<Rightarrow> 'e + 'b) \<Rightarrow> 'e + 'b" where
  "svn_try (Inl e) f = Inl e"
| "svn_try (Inr x) f = f x"

text \<open>\<open>SVN_ERR_ASSERT(cond)\<close>.\<close>

definition svn_assert :: "bool \<Rightarrow> unit svn_result" where
  "svn_assert b = (if b then Inr () else Inl Assertion_fail)"

lemma svn_try_Inr_iff [simp]: "svn_try m f = Inr y \<longleftrightarrow> (\<exists>x. m = Inr x \<and> f x = Inr y)"
  by (cases m) auto

lemma svn_try_Inl_iff: "svn_try m f = Inl e \<longleftrightarrow> m = Inl e \<or> (\<exists>x. m = Inr x \<and> f x = Inl e)"
  by (cases m) auto

lemma svn_try_cong [fundef_cong]:
  assumes "m = m'" and "\<And>x. m' = Inr x \<Longrightarrow> f x = f' x"
  shows "svn_try m f = svn_try m' f'"
  using assms by (cases m') auto

lemma svn_assert_simps [simp]:
  "svn_assert True = Inr ()"
  "svn_assert False = Inl Assertion_fail"
  "svn_assert b = Inr u \<longleftrightarrow> b"
  "svn_assert b = Inl e \<longleftrightarrow> \<not> b \<and> e = Assertion_fail"
  by (auto simp: svn_assert_def)

text \<open>A loop over hash entries or array elements whose body may return an error.\<close>

fun traverse :: "('a \<Rightarrow> 'e + 'b) \<Rightarrow> 'a list \<Rightarrow> 'e + 'b list" where
  "traverse f [] = Inr []"
| "traverse f (x # xs) = svn_try (f x) (\<lambda>y. svn_try (traverse f xs) (\<lambda>ys. Inr (y # ys)))"

fun fold_result :: "('a \<Rightarrow> 's \<Rightarrow> 'e + 's) \<Rightarrow> 'a list \<Rightarrow> 's \<Rightarrow> 'e + 's" where
  "fold_result f [] s = Inr s"
| "fold_result f (x # xs) s = svn_try (f x s) (fold_result f xs)"

text \<open>The same when the body may also fail to return.\<close>

fun fold_partial :: "('a \<Rightarrow> 's \<Rightarrow> ('e + 's) option) \<Rightarrow> 'a list \<Rightarrow> 's \<Rightarrow> ('e + 's) option" where
  "fold_partial f [] s = Some (Inr s)"
| "fold_partial f (x # xs) s = (case f x s of None \<Rightarrow> None | Some (Inl e) \<Rightarrow> Some (Inl e)
     | Some (Inr s') \<Rightarrow> fold_partial f xs s')"

definition svn_try_partial :: "('e + 'a) option \<Rightarrow> ('a \<Rightarrow> ('e + 'b) option) \<Rightarrow> ('e + 'b) option" where
  "svn_try_partial m f = (case m of None \<Rightarrow> None | Some (Inl e) \<Rightarrow> Some (Inl e) | Some (Inr x) \<Rightarrow> f x)"

lemma svn_try_partial_simps [simp]:
  "svn_try_partial None f = None" "svn_try_partial (Some (Inl e)) f = Some (Inl e)"
  "svn_try_partial (Some (Inr x)) f = f x"
  by (simp_all add: svn_try_partial_def)

lemma svn_try_partial_Inr [simp]:
  "svn_try_partial m f = Some (Inr y) \<longleftrightarrow> (\<exists>x. m = Some (Inr x) \<and> f x = Some (Inr y))"
  by (auto simp: svn_try_partial_def split: option.splits sum.splits)

lemma svn_try_partial_Inl:
  "svn_try_partial m f = Some (Inl e) \<longleftrightarrow> m = Some (Inl e) \<or> (\<exists>x. m = Some (Inr x) \<and> f x = Some (Inl e))"
  by (auto simp: svn_try_partial_def split: option.splits sum.splits)

lemma svn_try_partial_cong [fundef_cong]:
  assumes "m = m'" and "\<And>x. m' = Some (Inr x) \<Longrightarrow> f x = f' x"
  shows "svn_try_partial m f = svn_try_partial m' f'"
  using assms by (auto simp: svn_try_partial_def split: option.splits sum.splits)

lemma traverse_length: "traverse f xs = Inr ys \<Longrightarrow> length ys = length xs"
  by (induction xs arbitrary: ys) auto

lemma fold_result_append:
  "fold_result f (xs @ ys) s = svn_try (fold_result f xs s) (fold_result f ys)"
proof (induction xs arbitrary: s)
  case (Cons x xs)
  then show ?case by (cases "f x s") auto
qed simp

lemma fold_result_Inr: "fold_result (\<lambda>x s. Inr (f x s)) xs s = Inr (fold f xs s)"
  by (induction xs arbitrary: s) auto

text \<open>Arrays updated and read by index.\<close>

lemma drop_Cons_nth: "i < length xs \<Longrightarrow> drop i xs = xs ! i # drop (Suc i) xs"
  by (rule Cons_nth_drop_Suc [symmetric])

lemma list_split_at:
  assumes "i < length xs"
  obtains ys x zs where "xs = ys @ x # zs" and "length ys = i"
  using assms id_take_nth_drop [OF assms] by (metis length_take min.absorb4)

end
