(* ===== verification/Svn_Sorts.thy ===== *)
theory Svn_Sorts
  imports Svn_Prelude "HOL-Library.Multiset"
begin

text \<open>
  \<open>libsvn_subr/sorts.c\<close>: comparison functions, the sorted view of a hash, the binary
  search for an insertion position, and insertion, deletion and reversal in an APR array.
  Comparators are the interface between the sorting code and its clients: the locale
  \<open>comparator\<close> states what \<open>qsort\<close> and \<open>bsearch\<close> need of them.
\<close>

section \<open>Merge ranges and their order\<close>

text \<open>
  \<open>svn_merge_range_t\<close> (\<open>include/svn_types.h\<close>). Revision numbers are \<open>long\<close>; they are
  \<open>int\<close> here, the code only adds or subtracts one from revisions it has bounded.
\<close>

record merge_range =
  mr_start :: int
  mr_end :: int
  mr_inheritable :: bool

abbreviation mrange :: "int \<Rightarrow> int \<Rightarrow> bool \<Rightarrow> merge_range" where
  "mrange s e h \<equiv> \<lparr>mr_start = s, mr_end = e, mr_inheritable = h\<rparr>"

type_synonym rangelist = "merge_range list"

definition svn_sort_compare_ranges :: "merge_range \<Rightarrow> merge_range \<Rightarrow> int" where
  "svn_sort_compare_ranges item1 item2 =
     (if mr_start item1 = mr_start item2 \<and> mr_end item1 = mr_end item2 then 0
      else if mr_start item1 = mr_start item2
           then (if mr_end item1 < mr_end item2 then -1 else 1)
      else (if mr_start item1 < mr_start item2 then -1 else 1))"

definition svn_sort_compare_revisions :: "int \<Rightarrow> int \<Rightarrow> int" where
  "svn_sort_compare_revisions a_rev b_rev =
     (if a_rev = b_rev then 0 else if a_rev < b_rev then 1 else -1)"

section \<open>Array operations\<close>

text \<open>
  \<open>svn_sort__array_insert\<close>: the \<open>assert\<close> on the index is an error result, since going
  past it would write outside the array.
\<close>

definition svn_sort_array_insert :: "'a \<Rightarrow> 'a list \<Rightarrow> nat \<Rightarrow> 'a list svn_result" where
  "svn_sort_array_insert new_element arr insert_index =
     (if insert_index \<le> length arr
      then Inr (take insert_index arr @ new_element # drop insert_index arr)
      else Inl Assertion_fail)"

definition svn_sort_array_delete :: "'a list \<Rightarrow> int \<Rightarrow> int \<Rightarrow> 'a list" where
  "svn_sort_array_delete arr delete_index elements_to_delete =
     (if 0 \<le> delete_index \<and> delete_index < int (length arr) \<and> 0 < elements_to_delete
         \<and> elements_to_delete + delete_index \<le> int (length arr)
      then take (nat delete_index) arr @ drop (nat (delete_index + elements_to_delete)) arr
      else arr)"

text \<open>\<open>svn_sort__array_reverse\<close> swaps element \<open>i\<close> with its mirror for every \<open>i\<close> of the
  first half, in place.\<close>

abbreviation swap_index :: "'a list \<Rightarrow> nat \<Rightarrow> nat" where
  "swap_index arr i \<equiv> length arr - i - 1"

function array_reverse_from :: "nat \<Rightarrow> 'a list \<Rightarrow> 'a list" where
  "array_reverse_from i arr =
     (if i < length arr div 2
      then array_reverse_from (Suc i)
             ((arr[i := arr ! swap_index arr i])[swap_index arr i := arr ! i])
      else arr)"
  by pat_completeness auto
termination
  by (relation "measure (\<lambda>(i, arr). length arr div 2 - i)") auto

declare array_reverse_from.simps [simp del]

definition svn_sort_array_reverse :: "'a list \<Rightarrow> 'a list" where
  "svn_sort_array_reverse arr = array_reverse_from 0 arr"

lemma array_insert_Inr:
  "svn_sort_array_insert x (pre @ post) (length pre) = Inr (pre @ x # post)"
  by (simp add: svn_sort_array_insert_def)

lemma array_insert_end [simp]:
  "svn_sort_array_insert x arr (length arr) = Inr (arr @ [x])"
  by (simp add: svn_sort_array_insert_def)

lemma array_delete_mid:
  "mid \<noteq> [] \<Longrightarrow>
   svn_sort_array_delete (pre @ mid @ post) (int (length pre)) (int (length mid)) = pre @ post"
  by (auto simp: svn_sort_array_delete_def nat_add_distrib add_pos_nonneg)

lemma length_array_reverse_from [simp]: "length (array_reverse_from i arr) = length arr"
proof (induction i arr rule: array_reverse_from.induct)
  case (1 i arr)
  then show ?case by (simp add: array_reverse_from.simps [of i arr])
qed

text \<open>Iteration \<open>i\<close> leaves the first and last \<open>i\<close> elements alone and mirrors the rest.\<close>

lemma array_reverse_from_nth:
  "k < length arr \<Longrightarrow> array_reverse_from i arr ! k =
    (if i \<le> k \<and> k < length arr - i then arr ! (length arr - 1 - k) else arr ! k)"
proof (induction i arr rule: array_reverse_from.induct)
  case (1 i arr)
  define n where "n = length arr"
  show ?case
  proof (cases "i < n div 2")
    case True
    define j where "j = n - i - 1"
    define arr' where "arr' = (arr[i := arr ! j])[j := arr ! i]"
    have ij: "i < j" "j < n" "Suc (i + j) = n"
      using True by (auto simp: j_def)
    have eq: "array_reverse_from i arr = array_reverse_from (Suc i) arr'"
      using True by (simp add: array_reverse_from.simps [of i arr] arr'_def j_def n_def)
    have IH: "array_reverse_from (Suc i) arr' ! k =
        (if Suc i \<le> k \<and> k < n - Suc i then arr' ! (n - 1 - k) else arr' ! k)"
      using "1.IH" "1.prems" True by (simp add: arr'_def j_def n_def)
    have *: "k = i \<or> k = j \<or> (Suc i \<le> k \<and> k < n - Suc i) \<or> k < i \<or> n - i \<le> k"
      using ij by linarith
    have k: "k < n" using "1.prems" by (simp add: n_def)
    have at: "arr' ! m = (if m = j then arr ! i else if m = i then arr ! j else arr ! m)"
      if "m < n" for m
      using that ij by (auto simp: arr'_def n_def nth_list_update)
    show ?thesis
      unfolding eq IH using * k ij by (auto simp: at n_def [symmetric])
  next
    case False
    then have i: "\<not> i < length arr div 2" by (simp add: n_def)
    then have eq: "array_reverse_from i arr = arr"
      by (simp add: array_reverse_from.simps [of i arr])
    have "length arr - 1 - k = k" if "i \<le> k" "k < length arr - i"
    proof -
      have "length arr < 2 * i + 2" using i by linarith
      then show ?thesis using that by linarith
    qed
    then show ?thesis unfolding eq by (metis (full_types))
  qed
qed

lemma array_reverse_rev [rl_simps]: "svn_sort_array_reverse arr = rev arr"
  by (rule nth_equalityI)
    (auto simp: svn_sort_array_reverse_def array_reverse_from_nth rev_nth)


section \<open>Binary search\<close>

function bsearch_loop :: "('a \<Rightarrow> 'k \<Rightarrow> int) \<Rightarrow> 'k \<Rightarrow> 'a list \<Rightarrow> int \<Rightarrow> int \<Rightarrow> int" where
  "bsearch_loop compare_func key base lower upper =
     (if lower \<le> upper
      then if compare_func (base ! nat (lower + (upper - lower) div 2)) key < 0
           then bsearch_loop compare_func key base (lower + (upper - lower) div 2 + 1) upper
           else bsearch_loop compare_func key base lower (lower + (upper - lower) div 2 - 1)
      else lower)"
  by pat_completeness auto
termination
  by (relation "measure (\<lambda>(c, k, b, lower, upper). nat (upper - lower + 1))") auto

declare bsearch_loop.simps [simp del]

definition bsearch_lower_bound :: "('a \<Rightarrow> 'k \<Rightarrow> int) \<Rightarrow> 'k \<Rightarrow> 'a list \<Rightarrow> int" where
  "bsearch_lower_bound compare_func key base =
     bsearch_loop compare_func key base 0 (int (length base) - 1)"

lemma bsearch_loop_partition:
  assumes "0 \<le> lower" and "lower \<le> upper + 1" and "upper < int (length base)"
    and "\<And>i. i < nat lower \<Longrightarrow> cmp (base ! i) key < 0"
    and "\<And>i. nat (upper + 1) \<le> i \<Longrightarrow> i < length base \<Longrightarrow> 0 \<le> cmp (base ! i) key"
    and mono: "\<And>i j. i \<le> j \<Longrightarrow> j < length base \<Longrightarrow> cmp (base ! j) key < 0 \<Longrightarrow> cmp (base ! i) key < 0"
  shows "0 \<le> bsearch_loop cmp key base lower upper
    \<and> bsearch_loop cmp key base lower upper \<le> int (length base)
    \<and> (\<forall>i < length base. cmp (base ! i) key < 0 \<longleftrightarrow> int i < bsearch_loop cmp key base lower upper)"
  using assms(1-5)
proof (induction "nat (upper - lower + 1)" arbitrary: lower upper rule: less_induct)
  case less
  show ?case
  proof (cases "lower \<le> upper")
    case False
    then have "upper + 1 = lower" using less.prems by simp
    moreover have "cmp (base ! i) key < 0 \<longleftrightarrow> int i < lower" if "i < length base" for i
      using less.prems(4)[of i] less.prems(5)[of i] that \<open>upper + 1 = lower\<close>
      by (cases "i < nat lower") auto
    ultimately show ?thesis
      using less.prems by (simp add: bsearch_loop.simps [of cmp key base lower upper])
  next
    case True
    define t where "t = lower + (upper - lower) div 2"
    have t: "lower \<le> t" "t \<le> upper" using True by (auto simp: t_def)
    show ?thesis
    proof (cases "cmp (base ! nat t) key < 0")
      case lt: True
      have "bsearch_loop cmp key base lower upper = bsearch_loop cmp key base (t + 1) upper"
        using True lt by (simp add: bsearch_loop.simps [of cmp key base lower upper] t_def)
      moreover have "cmp (base ! i) key < 0" if "i < nat (t + 1)" for i
        using that t less.prems by (intro mono [of i "nat t"] lt) auto
      ultimately show ?thesis
        using less.hyps [of upper "t + 1"] less.prems t by auto
    next
      case ge: False
      have "bsearch_loop cmp key base lower upper = bsearch_loop cmp key base lower (t - 1)"
        using True ge by (simp add: bsearch_loop.simps [of cmp key base lower upper] t_def)
      moreover have "0 \<le> cmp (base ! i) key" if "nat (t - 1 + 1) \<le> i" "i < length base" for i
        using mono [of "nat t" i] that ge by force
      ultimately show ?thesis
        using less.hyps [of "t - 1" lower] less.prems t by auto
    qed
  qed
qed

section \<open>Comparators, sorting, and the sorted view of a hash\<close>

text \<open>
  What sorting and searching need of a comparison function, on the elements \<open>ok\<close>
  accepts (for paths: strings without a NUL character).
\<close>

locale comparator =
  fixes cmp :: "'a \<Rightarrow> 'a \<Rightarrow> int" and ok :: "'a \<Rightarrow> bool"
  assumes cmp_anti: "ok x \<Longrightarrow> ok y \<Longrightarrow> cmp x y < 0 \<longleftrightarrow> 0 < cmp y x"
    and cmp_trans: "ok x \<Longrightarrow> ok y \<Longrightarrow> ok z \<Longrightarrow> cmp x y \<le> 0 \<Longrightarrow> cmp y z \<le> 0 \<Longrightarrow> cmp x z \<le> 0"

text \<open>
  \<open>qsort\<close> of the C library, as a stable sort: elements the comparator does not tell
  apart keep their order.
\<close>

fun qsort_insert :: "('a \<Rightarrow> 'a \<Rightarrow> int) \<Rightarrow> 'a \<Rightarrow> 'a list \<Rightarrow> 'a list" where
  "qsort_insert cmp x [] = [x]"
| "qsort_insert cmp x (y # ys) = (if cmp x y \<le> 0 then x # y # ys else y # qsort_insert cmp x ys)"

fun qsort :: "('a \<Rightarrow> 'a \<Rightarrow> int) \<Rightarrow> 'a list \<Rightarrow> 'a list" where
  "qsort cmp [] = []"
| "qsort cmp (x # xs) = qsort_insert cmp x (qsort cmp xs)"

text \<open>
  The entries of a hash, in its iteration order, are an association list. The scan keeps
  the previous item and whether every item so far was greater than the one before it.
\<close>

fun sort_hash_scan :: "('a \<Rightarrow> 'a \<Rightarrow> int) \<Rightarrow> 'a option \<Rightarrow> bool \<Rightarrow> 'a list \<Rightarrow> bool" where
  "sort_hash_scan comparison_func prev_item sorted_p [] = sorted_p"
| "sort_hash_scan comparison_func None sorted_p (item # items) =
     sort_hash_scan comparison_func (Some item) sorted_p items"
| "sort_hash_scan comparison_func (Some prev) sorted_p (item # items) =
     (if sorted_p
      then sort_hash_scan comparison_func (Some item) (comparison_func prev item < 0) items
      else sort_hash_scan comparison_func (Some prev) sorted_p items)"

definition svn_sort_hash ::
    "('item \<Rightarrow> 'item \<Rightarrow> int) \<Rightarrow> 'item list \<Rightarrow> 'item list" where
  "svn_sort_hash comparison_func ht =
     (if sort_hash_scan comparison_func None True ht then ht else qsort comparison_func ht)"

lemma mset_qsort_insert [simp]: "mset (qsort_insert cmp x ys) = add_mset x (mset ys)"
  by (induction ys) auto

lemma mset_qsort [simp]: "mset (qsort cmp xs) = mset xs"
  by (induction xs) auto

lemma set_qsort [simp]: "set (qsort cmp xs) = set xs"
  by (metis mset_qsort set_mset_mset)

lemma length_qsort [simp]: "length (qsort cmp xs) = length xs"
  by (metis mset_qsort size_mset)

lemma set_qsort_insert [simp]: "set (qsort_insert cmp x ys) = insert x (set ys)"
  by (induction ys) auto

lemma mset_svn_sort_hash [simp]: "mset (svn_sort_hash cmp ht) = mset ht"
  by (simp add: svn_sort_hash_def)

lemma sort_hash_scan_False [simp]: "\<not> sort_hash_scan cmp p False xs"
  by (induction cmp p False xs rule: sort_hash_scan.induct) auto

context comparator begin

lemma cmp_refl: "ok x \<Longrightarrow> cmp x x = 0"
  using cmp_anti [of x x] by (cases "cmp x x < 0") auto

lemma cmp_total: "ok x \<Longrightarrow> ok y \<Longrightarrow> \<not> cmp x y \<le> 0 \<Longrightarrow> cmp y x \<le> 0"
  using cmp_anti [of y x] by simp

lemma qsort_insert_sorted:
  assumes "sorted_wrt (\<lambda>x y. cmp x y \<le> 0) ys" and "ok x" and "\<forall>y\<in>set ys. ok y"
  shows "sorted_wrt (\<lambda>x y. cmp x y \<le> 0) (qsort_insert cmp x ys)"
  using assms
proof (induction ys)
  case (Cons y ys)
  then show ?case
    by (auto intro: cmp_trans [of x y] dest: cmp_total [of x y])
qed simp

lemma qsort_sorted:
  "\<forall>x\<in>set xs. ok x \<Longrightarrow> sorted_wrt (\<lambda>x y. cmp x y \<le> 0) (qsort cmp xs)"
  by (induction xs) (auto intro!: qsort_insert_sorted)

lemma sort_hash_scan_sorted:
  assumes "sort_hash_scan cmp (Some p) True xs" and "ok p" and "\<forall>x\<in>set xs. ok x"
  shows "sorted_wrt (\<lambda>x y. cmp x y \<le> 0) (p # xs)"
  using assms
proof (induction xs arbitrary: p)
  case (Cons x xs)
  have lt: "cmp p x < 0" using Cons.prems(1) by (cases "cmp p x < 0") auto
  with Cons have "sorted_wrt (\<lambda>x y. cmp x y \<le> 0) (x # xs)" by auto
  moreover have "cmp p y \<le> 0" if "y \<in> set xs" for y
    using that lt Cons.prems calculation by (auto intro: cmp_trans [of p x y])
  ultimately show ?case using lt by auto
qed simp

lemma qsort_strict_id:
  "sorted_wrt (\<lambda>x y. cmp x y \<le> 0) xs \<Longrightarrow> qsort cmp xs = xs"
proof (induction xs)
  case (Cons x xs)
  then show ?case by (cases xs) auto
qed simp

lemma svn_sort_hash_sorted:
  assumes "\<forall>x\<in>set ht. ok x"
  shows "sorted_wrt (\<lambda>x y. cmp x y \<le> 0) (svn_sort_hash cmp ht)"
proof (cases "sort_hash_scan cmp None True ht")
  case True
  with assms sort_hash_scan_sorted show ?thesis
    by (cases ht) (auto simp: svn_sort_hash_def)
next
  case False
  with qsort_sorted [OF assms] show ?thesis by (simp add: svn_sort_hash_def)
qed

end

text \<open>The order on merge ranges is a comparator on all ranges.\<close>

interpretation range_cmp: comparator svn_sort_compare_ranges "\<lambda>_. True"
  by unfold_locales (auto simp: svn_sort_compare_ranges_def split: if_splits)

end
