(* ===== verification/Rangelist.thy ===== *)
theory Rangelist
  imports Svn_Sorts
begin

text \<open>
  Rangelists (\<open>libsvn_subr/mergeinfo.c\<close>): combination of two ranges, normalization,
  reversal, intersection and removal. Ranges are values here: the code shares no range
  between two rangelists in these functions, so updating \<open>*lastrange\<close> in place is
  replacing the last element of the list.
\<close>

section \<open>Single ranges\<close>

definition IS_VALID_REVNUM :: "int \<Rightarrow> bool" where
  "IS_VALID_REVNUM n \<longleftrightarrow> 0 \<le> n"

definition IS_VALID_FORWARD_RANGE :: "merge_range \<Rightarrow> bool" where
  "IS_VALID_FORWARD_RANGE r \<longleftrightarrow> IS_VALID_REVNUM (mr_start r) \<and> mr_start r < mr_end r"

text \<open>\<open>Some output\<close> where the code sets \<open>*output\<close> and returns TRUE.\<close>

definition combine_ranges :: "merge_range \<Rightarrow> merge_range \<Rightarrow> bool \<Rightarrow> merge_range option" where
  "combine_ranges in1 in2 consider_inheritance =
     (if mr_start in1 \<le> mr_end in2 \<and> mr_start in2 \<le> mr_end in1
         \<and> (\<not> consider_inheritance
             \<or> (consider_inheritance \<and> mr_inheritable in1 = mr_inheritable in2))
      then Some (mrange (min (mr_start in1) (mr_start in2)) (max (mr_end in1) (mr_end in2))
                   (mr_inheritable in1 \<or> mr_inheritable in2))
      else None)"

datatype intersection_type =
    No_intersection
  | Equal_intersection
  | Adjoining_intersection
  | Overlapping_intersection
  | Proper_subset_intersection

definition get_type_of_intersection ::
    "merge_range \<Rightarrow> merge_range \<Rightarrow> intersection_type svn_result" where
  "get_type_of_intersection r1 r2 =
     svn_try (svn_assert (IS_VALID_FORWARD_RANGE r1)) (\<lambda>_.
     svn_try (svn_assert (IS_VALID_FORWARD_RANGE r2)) (\<lambda>_. Inr
       (if \<not> (mr_start r1 \<le> mr_end r2 \<and> mr_start r2 \<le> mr_end r1) then No_intersection
        else if mr_start r1 = mr_start r2 \<and> mr_end r1 = mr_end r2 then Equal_intersection
        else if mr_end r1 = mr_start r2 \<or> mr_end r2 = mr_start r1 then Adjoining_intersection
        else if mr_start r1 \<le> mr_start r2 \<and> mr_end r2 \<le> mr_end r1
             then Proper_subset_intersection
        else if mr_start r2 \<le> mr_start r1 \<and> mr_end r1 \<le> mr_end r2
             then Proper_subset_intersection
        else Overlapping_intersection)))"

text \<open>The assertions that both ranges are valid stand in the callers below.\<close>

definition range_intersect :: "merge_range \<Rightarrow> merge_range \<Rightarrow> bool \<Rightarrow> bool" where
  "range_intersect first second consider_inheritance \<longleftrightarrow>
     mr_start first + 1 \<le> mr_end second \<and> mr_start second + 1 \<le> mr_end first
     \<and> (\<not> consider_inheritance \<or> mr_inheritable first = mr_inheritable second)"

definition range_contains :: "merge_range \<Rightarrow> merge_range \<Rightarrow> bool \<Rightarrow> bool" where
  "range_contains first second consider_inheritance \<longleftrightarrow>
     mr_start first \<le> mr_start second \<and> mr_end second \<le> mr_end first
     \<and> (\<not> consider_inheritance \<or> mr_inheritable first = mr_inheritable second)"

definition range_swap_endpoints :: "merge_range \<Rightarrow> merge_range" where
  "range_swap_endpoints rng = rng\<lparr>mr_start := mr_end rng, mr_end := mr_start rng\<rparr>"

definition svn_merge_range_contains_rev :: "merge_range \<Rightarrow> int \<Rightarrow> bool svn_result" where
  "svn_merge_range_contains_rev rng revnum =
     svn_try (svn_assert (IS_VALID_REVNUM (mr_start rng))) (\<lambda>_.
     svn_try (svn_assert (IS_VALID_REVNUM (mr_end rng))) (\<lambda>_.
     svn_try (svn_assert (mr_start rng \<noteq> mr_end rng)) (\<lambda>_.
       Inr (if mr_start rng < mr_end rng
            then mr_start rng < revnum \<and> revnum \<le> mr_end rng
            else mr_end rng < revnum \<and> revnum \<le> mr_start rng))))"

text \<open>The revisions a forward range describes: the start is exclusive, the end inclusive.\<close>

definition rev_set :: "merge_range \<Rightarrow> int set" where
  "rev_set r = {mr_start r <.. mr_end r}"

definition rl_revs :: "rangelist \<Rightarrow> int set" where
  "rl_revs rl = (\<Union>r\<in>set rl. rev_set r)"

definition rl_inh :: "rangelist \<Rightarrow> int set" where
  "rl_inh rl = (\<Union>r\<in>{r\<in>set rl. mr_inheritable r}. rev_set r)"

definition rl_ninh :: "rangelist \<Rightarrow> int set" where
  "rl_ninh rl = (\<Union>r\<in>{r\<in>set rl. \<not> mr_inheritable r}. rev_set r)"

text \<open>
  Sorted, forward and non-overlapping, as \<open>svn_mergeinfo.h\<close> asks of every rangelist;
  \<open>rl_canonical\<close> adds that adjoining ranges differ in inheritability.
\<close>

definition rl_wf :: "rangelist \<Rightarrow> bool" where
  "rl_wf rl \<longleftrightarrow> (\<forall>r\<in>set rl. IS_VALID_FORWARD_RANGE r)
     \<and> sorted_wrt (\<lambda>x y. mr_end x \<le> mr_start y) rl"

fun rl_canonical_adj :: "rangelist \<Rightarrow> bool" where
  "rl_canonical_adj (x # y # rl) \<longleftrightarrow>
     (mr_end x = mr_start y \<longrightarrow> mr_inheritable x \<noteq> mr_inheritable y) \<and> rl_canonical_adj (y # rl)"
| "rl_canonical_adj rl \<longleftrightarrow> True"

definition rl_canonical :: "rangelist \<Rightarrow> bool" where
  "rl_canonical rl \<longleftrightarrow> rl_wf rl \<and> rl_canonical_adj rl"

lemma rl_sets_simps [simp]:
  "rl_revs [] = {}" "rl_revs (r # rl) = rev_set r \<union> rl_revs rl"
  "rl_revs (rl @ rl') = rl_revs rl \<union> rl_revs rl'"
  "rl_inh [] = {}" "rl_inh (rl @ rl') = rl_inh rl \<union> rl_inh rl'"
  "rl_ninh [] = {}" "rl_ninh (rl @ rl') = rl_ninh rl \<union> rl_ninh rl'"
  by (auto simp: rl_revs_def rl_inh_def rl_ninh_def)

lemma rl_inh_Cons [simp]:
  "rl_inh (r # rl) = (if mr_inheritable r then rev_set r else {}) \<union> rl_inh rl"
  by (auto simp: rl_inh_def)

lemma rl_ninh_Cons [simp]:
  "rl_ninh (r # rl) = (if mr_inheritable r then {} else rev_set r) \<union> rl_ninh rl"
  by (auto simp: rl_ninh_def)

lemma rl_revs_split: "rl_revs rl = rl_inh rl \<union> rl_ninh rl"
  by (auto simp: rl_revs_def rl_inh_def rl_ninh_def)

lemma rl_wf_simps [simp]:
  "rl_wf []"
  "rl_wf (r # rl) \<longleftrightarrow> IS_VALID_FORWARD_RANGE r \<and> (\<forall>x\<in>set rl. mr_end r \<le> mr_start x) \<and> rl_wf rl"
  "rl_wf (rl @ rl') \<longleftrightarrow> rl_wf rl \<and> rl_wf rl' \<and> (\<forall>x\<in>set rl. \<forall>y\<in>set rl'. mr_end x \<le> mr_start y)"
  by (auto simp: rl_wf_def sorted_wrt_append)

lemma rl_wf_validD: "rl_wf rl \<Longrightarrow> r \<in> set rl \<Longrightarrow> IS_VALID_FORWARD_RANGE r"
  by (simp add: rl_wf_def)

lemma valid_range_iff:
  "IS_VALID_FORWARD_RANGE r \<longleftrightarrow> 0 \<le> mr_start r \<and> mr_start r < mr_end r"
  by (simp add: IS_VALID_FORWARD_RANGE_def IS_VALID_REVNUM_def)

lemma contains_rev_iff:
  "IS_VALID_FORWARD_RANGE r \<Longrightarrow> svn_merge_range_contains_rev r n = Inr (n \<in> rev_set r)"
  by (simp add: svn_merge_range_contains_rev_def valid_range_iff rev_set_def IS_VALID_REVNUM_def)

text \<open>Combining touching ranges loses and adds no revision.\<close>

lemma combine_ranges_Some:
  assumes "combine_ranges a b c = Some out"
    and "IS_VALID_FORWARD_RANGE a" and "IS_VALID_FORWARD_RANGE b"
  shows "rev_set out = rev_set a \<union> rev_set b" and "IS_VALID_FORWARD_RANGE out"
    and "mr_start out = min (mr_start a) (mr_start b)" and "mr_end out = max (mr_end a) (mr_end b)"
    and "mr_inheritable out = (mr_inheritable a \<or> mr_inheritable b)"
  using assms
  by (auto simp: combine_ranges_def rev_set_def valid_range_iff split: if_splits)

lemma combine_ranges_None:
  assumes "combine_ranges a b False = None"
  shows "mr_end b < mr_start a \<or> mr_end a < mr_start b"
  using assms by (auto simp: combine_ranges_def split: if_splits)

section \<open>Appending a range to a rangelist\<close>

text \<open>
  \<open>combine_with_lastrange\<close>: the two cases of its \<open>switch\<close> that build several ranges
  first. Both return the ranges pushed in place of \<open>lastrange\<close> and the flag
  \<open>sorted\<close> (whether each compares greater than the one before it).
\<close>

definition combine_overlapping :: "merge_range \<Rightarrow> merge_range \<Rightarrow> rangelist \<times> bool" where
  "combine_overlapping lastrange new_range =
     (let (r1, r2) = (if mr_start new_range < mr_start lastrange
                      then (new_range, lastrange) else (lastrange, new_range));
          (r1, r2) = (if mr_inheritable r1 then (r1, r2\<lparr>mr_start := mr_end r1\<rparr>)
                      else (r1\<lparr>mr_end := mr_start r2\<rparr>, r2))
      in ([r1, r2], svn_sort_compare_ranges lastrange r1 < 0 \<and> svn_sort_compare_ranges r1 r2 < 0))"

definition combine_proper_subset :: "merge_range \<Rightarrow> merge_range \<Rightarrow> rangelist \<times> bool" where
  "combine_proper_subset lastrange new_range =
     (let (r1, r2) = (if mr_start new_range < mr_start lastrange \<or> mr_end lastrange < mr_end new_range
                      then (new_range, lastrange) else (lastrange, new_range));
          pushed =
            (if mr_inheritable r1
             then [r1\<lparr>mr_start := min (mr_start r1) (mr_start r2),
                      mr_end := max (mr_end r1) (mr_end r2)\<rparr>]
             else if mr_start r1 = mr_start r2
             then [r1\<lparr>mr_end := mr_end r2, mr_inheritable := True\<rparr>,
                   r2\<lparr>mr_inheritable := mr_inheritable r1, mr_start := mr_end r2,
                      mr_end := mr_end r1\<rparr>]
             else if mr_end r1 = mr_end r2
             then [r1\<lparr>mr_end := mr_start r2\<rparr>, r2\<lparr>mr_inheritable := True\<rparr>]
             else [r1\<lparr>mr_end := mr_start r2\<rparr>, r2\<lparr>mr_inheritable := True\<rparr>,
                   mrange (mr_end r2) (mr_end r1) (mr_inheritable r1)])
      in (pushed,
          svn_sort_compare_ranges lastrange (hd pushed) < 0
          \<and> successively (\<lambda>a b. svn_sort_compare_ranges a b < 0) pushed))"

definition combine_considering_inheritance ::
    "merge_range \<Rightarrow> merge_range \<Rightarrow> (rangelist \<times> bool) svn_result" where
  "combine_considering_inheritance lastrange new_range =
     svn_try (get_type_of_intersection new_range lastrange) (\<lambda>intersection_type. Inr
       (case intersection_type of
          No_intersection \<Rightarrow>
            ([lastrange, new_range], svn_sort_compare_ranges lastrange new_range < 0)
        | Equal_intersection \<Rightarrow> ([lastrange\<lparr>mr_inheritable := True\<rparr>], True)
        | Adjoining_intersection \<Rightarrow>
            ([lastrange, new_range], svn_sort_compare_ranges lastrange new_range < 0)
        | Overlapping_intersection \<Rightarrow> combine_overlapping lastrange new_range
        | Proper_subset_intersection \<Rightarrow> combine_proper_subset lastrange new_range))"

definition combine_with_lastrange ::
    "merge_range \<Rightarrow> rangelist \<Rightarrow> bool \<Rightarrow> rangelist svn_result" where
  "combine_with_lastrange new_range rangelist consider_inheritance =
     (if rangelist = [] then Inr [new_range]
      else let lastrange = last rangelist; older = butlast rangelist in
        (if \<not> consider_inheritance
         then (case combine_ranges lastrange new_range False of
                 Some combined_range \<Rightarrow> Inr (older @ [combined_range])
               | None \<Rightarrow> Inr (rangelist @ [new_range]))
         else (case combine_ranges lastrange new_range True of
                 Some combined_range \<Rightarrow> Inr (older @ [combined_range])
               | None \<Rightarrow>
                   svn_try (combine_considering_inheritance lastrange new_range)
                     (\<lambda>(pushed, sorted_p). Inr
                        (if sorted_p then older @ pushed
                         else qsort svn_sort_compare_ranges (older @ pushed))))))"

section \<open>Intersection and removal\<close>

text \<open>
  The loop of \<open>rangelist_intersect_or_remove\<close>. The arrays are read left to right, so
  the indices \<open>i1\<close> and \<open>i2\<close> are the suffixes still to read; the head of the second
  suffix is \<open>working_elt2\<close>, the copy that replaces the current element of
  \<open>rangelist2\<close> once it has been truncated. The result is \<open>*output\<close> and what is left
  of \<open>rangelist2\<close>. \<open>range_contains\<close> and \<open>range_intersect\<close> assert that both
  elements are forward ranges.
\<close>

definition iorr_push_untouched ::
    "bool \<Rightarrow> bool \<Rightarrow> merge_range \<Rightarrow> rangelist \<Rightarrow> rangelist" where
  "iorr_push_untouched do_remove consider_inheritance elt2 output =
     (if \<not> do_remove then output
      else if output = [] then [elt2]
      else case combine_ranges (last output) elt2 consider_inheritance of
             Some lastrange \<Rightarrow> butlast output @ [lastrange]
           | None \<Rightarrow> output @ [elt2])"

definition iorr_left_part :: "bool \<Rightarrow> merge_range \<Rightarrow> merge_range \<Rightarrow> merge_range" where
  "iorr_left_part do_remove elt1 elt2 =
     (if do_remove then mrange (mr_start elt2) (mr_start elt1) (mr_inheritable elt2)
      else mrange (mr_start elt1) (min (mr_end elt2) (mr_end elt1))
             (mr_inheritable elt2 \<or> mr_inheritable elt1))"

function iorr_loop ::
    "bool \<Rightarrow> bool \<Rightarrow> rangelist \<Rightarrow> rangelist \<Rightarrow> rangelist \<Rightarrow> (rangelist \<times> rangelist) svn_result"
where
  "iorr_loop do_remove ci [] rl2 output = Inr (output, rl2)"
| "iorr_loop do_remove ci (elt1 # rl1) [] output = Inr (output, [])"
| "iorr_loop do_remove ci (elt1 # rl1) (elt2 # rl2) output =
     (if \<not> (IS_VALID_FORWARD_RANGE elt1 \<and> IS_VALID_FORWARD_RANGE elt2) then Inl Assertion_fail
      else if range_contains elt1 elt2 ci
      then svn_try
             (if \<not> do_remove
              then combine_with_lastrange
                     (mrange (mr_start elt2) (mr_end elt2)
                        (mr_inheritable elt2 \<or> mr_inheritable elt1)) output ci
              else Inr output)
             (\<lambda>output.
               if mr_start elt2 = mr_start elt1 \<and> mr_end elt2 = mr_end elt1
               then iorr_loop do_remove ci rl1 rl2 output
               else iorr_loop do_remove ci (elt1 # rl1) rl2 output)
      else if range_intersect elt1 elt2 ci
      then svn_try
             (if mr_start elt2 < mr_start elt1
              then combine_with_lastrange (iorr_left_part do_remove elt1 elt2) output ci
              else Inr output)
             (\<lambda>output.
               if mr_end elt1 < mr_end elt2
               then svn_try
                      (if \<not> do_remove
                       then combine_with_lastrange
                              (mrange (max (mr_start elt2) (mr_start elt1)) (mr_end elt1)
                                 (mr_inheritable elt2 \<or> mr_inheritable elt1)) output ci
                       else Inr output)
                      (\<lambda>output. iorr_loop do_remove ci (elt1 # rl1)
                                  (elt2\<lparr>mr_start := mr_end elt1\<rparr> # rl2) output)
               else iorr_loop do_remove ci (elt1 # rl1) rl2 output)
      else if svn_sort_compare_ranges elt1 elt2 < 0
      then iorr_loop do_remove ci rl1 (elt2 # rl2) output
      else iorr_loop do_remove ci (elt1 # rl1) rl2
             (iorr_push_untouched do_remove ci elt2 output))"
  by pat_completeness auto
termination
  by (relation "measures [\<lambda>(_, _, rl1, rl2, _). length rl1 + length rl2,
        \<lambda>(_, _, _, rl2, _). case rl2 of [] \<Rightarrow> 0 | r # _ \<Rightarrow> nat (mr_end r - mr_start r)]")
    (auto simp: range_intersect_def valid_range_iff)

definition rangelist_intersect_or_remove ::
    "rangelist \<Rightarrow> rangelist \<Rightarrow> bool \<Rightarrow> bool \<Rightarrow> rangelist svn_result" where
  "rangelist_intersect_or_remove rangelist1 rangelist2 do_remove consider_inheritance =
     svn_try (iorr_loop do_remove consider_inheritance rangelist1 rangelist2 [])
       (\<lambda>(output, rest).
         if do_remove
         then fold_result (\<lambda>elt output. combine_with_lastrange elt output consider_inheritance)
                rest output
         else Inr output)"

definition svn_rangelist_intersect ::
    "rangelist \<Rightarrow> rangelist \<Rightarrow> bool \<Rightarrow> rangelist svn_result" where
  "svn_rangelist_intersect rangelist1 rangelist2 consider_inheritance =
     rangelist_intersect_or_remove rangelist1 rangelist2 False consider_inheritance"

definition svn_rangelist_remove ::
    "rangelist \<Rightarrow> rangelist \<Rightarrow> bool \<Rightarrow> rangelist svn_result" where
  "svn_rangelist_remove eraser whiteboard consider_inheritance =
     rangelist_intersect_or_remove eraser whiteboard True consider_inheritance"

text \<open>\<open>svn_rangelist_diff\<close> returns \<open>(deleted, added)\<close>.\<close>

definition svn_rangelist_diff ::
    "rangelist \<Rightarrow> rangelist \<Rightarrow> bool \<Rightarrow> (rangelist \<times> rangelist) svn_result" where
  "svn_rangelist_diff from_rl to_rl consider_inheritance =
     svn_try (svn_rangelist_remove to_rl from_rl consider_inheritance) (\<lambda>deleted.
     svn_try (svn_rangelist_remove from_rl to_rl consider_inheritance) (\<lambda>added.
       Inr (deleted, added)))"

section \<open>Correctness of intersection and removal\<close>

text \<open>
  Without regard to inheritance the loop computes the set operation on revisions. Its
  output is normalized in the sense of \<open>is_rangelist_normalized\<close>: successive ranges
  neither overlap nor adjoin. \<open>ends_by\<close> bounds what has been output so far by the
  position the loop has reached.
\<close>

definition rl_norm :: "rangelist \<Rightarrow> bool" where
  "rl_norm rl \<longleftrightarrow> (\<forall>r\<in>set rl. IS_VALID_FORWARD_RANGE r)
     \<and> sorted_wrt (\<lambda>x y. mr_end x < mr_start y) rl"

lemma rl_norm_simps [simp]:
  "rl_norm []"
  "rl_norm (r # rl) \<longleftrightarrow> IS_VALID_FORWARD_RANGE r \<and> (\<forall>x\<in>set rl. mr_end r < mr_start x) \<and> rl_norm rl"
  "rl_norm (rl @ rl') \<longleftrightarrow> rl_norm rl \<and> rl_norm rl' \<and> (\<forall>x\<in>set rl. \<forall>y\<in>set rl'. mr_end x < mr_start y)"
  by (auto simp: rl_norm_def sorted_wrt_append)

lemma rl_norm_wf: "rl_norm rl \<Longrightarrow> rl_wf rl"
  by (induction rl) (auto intro: less_imp_le)

definition ends_by :: "rangelist \<Rightarrow> int \<Rightarrow> bool" where
  "ends_by rl n \<longleftrightarrow> (\<forall>x\<in>set rl. mr_end x \<le> n)"

lemma ends_by_mono: "ends_by out a \<Longrightarrow> a \<le> b \<Longrightarrow> ends_by out b"
  by (auto simp: ends_by_def)

lemma push_untouched_spec:
  assumes "rl_norm out" and "IS_VALID_FORWARD_RANGE new" and "ends_by out (mr_start new)"
  defines "out' \<equiv> iorr_push_untouched True False new out"
  shows "combine_with_lastrange new out False = Inr out'"
    and "rl_norm out'" and "rl_revs out' = rl_revs out \<union> rev_set new" and "ends_by out' (mr_end new)"
proof -
  consider "out = []" | older lst where "out = older @ [lst]"
    by (cases out rule: rev_cases) auto
  then have "combine_with_lastrange new out False = Inr out' \<and>
    rl_norm out' \<and> rl_revs out' = rl_revs out \<union> rev_set new \<and> ends_by out' (mr_end new)"
  proof cases
    case 1
    then show ?thesis
      using assms by (simp add: combine_with_lastrange_def iorr_push_untouched_def ends_by_def)
  next
    case 2
    note valid = assms(1-3) [unfolded 2 valid_range_iff, simplified]
    show ?thesis
    proof (cases "combine_ranges lst new False")
      case None
      then have "mr_end lst < mr_start new"
        using valid by (auto dest!: combine_ranges_None simp: valid_range_iff ends_by_def)
      then show ?thesis
        using assms None 2
        by (auto simp: combine_with_lastrange_def iorr_push_untouched_def ends_by_def valid_range_iff)
    next
      case (Some c)
      note c = combine_ranges_Some [OF Some]
      show ?thesis
        using assms Some 2 c
        by (auto simp: combine_with_lastrange_def iorr_push_untouched_def ends_by_def valid_range_iff)
    qed
  qed
  then show "combine_with_lastrange new out False = Inr out'"
    and "rl_norm out'" and "rl_revs out' = rl_revs out \<union> rev_set new" and "ends_by out' (mr_end new)"
    by auto
qed

lemma rev_set_empty_iff: "IS_VALID_FORWARD_RANGE r \<Longrightarrow> rev_set r \<noteq> {}"
  by (auto simp: valid_range_iff rev_set_def)

lemma rl_revs_lower: "rl_wf rl \<Longrightarrow> \<forall>x\<in>set rl. n \<le> mr_start x \<Longrightarrow> v \<in> rl_revs rl \<Longrightarrow> n < v"
  by (fastforce simp: rl_revs_def rev_set_def)

text \<open>The revisions the loop still has to produce from the two suffixes.\<close>

definition iorr_todo :: "bool \<Rightarrow> rangelist \<Rightarrow> rangelist \<Rightarrow> int set" where
  "iorr_todo do_remove rl1 rl2 =
     (if do_remove then rl_revs rl2 - rl_revs rl1 else rl_revs rl2 \<inter> rl_revs rl1)"

definition iorr_post :: "bool \<Rightarrow> int set \<Rightarrow> (rangelist \<times> rangelist) svn_result \<Rightarrow> bool" where
  "iorr_post do_remove revs res \<longleftrightarrow> (\<exists>out rest. res = Inr (out, rest) \<and> rl_norm out \<and> rl_wf rest
     \<and> (\<forall>y\<in>set rest. ends_by out (mr_start y))
     \<and> rl_revs out \<union> (if do_remove then rl_revs rest else {}) = revs)"

definition iorr_part :: "bool \<Rightarrow> rangelist \<Rightarrow> int set \<Rightarrow> int set" where
  "iorr_part do_remove rl1 piece = (if do_remove then piece - rl_revs rl1 else piece \<inter> rl_revs rl1)"

lemma iorr_todo_Cons2:
  "iorr_todo rem rl1 (e2 # rl2) = iorr_part rem rl1 (rev_set e2) \<union> iorr_todo rem rl1 rl2"
  by (auto simp: iorr_todo_def iorr_part_def)

lemma iorr_part_Un: "iorr_part rem rl1 (p \<union> q) = iorr_part rem rl1 p \<union> iorr_part rem rl1 q"
  by (auto simp: iorr_part_def)

lemma iorr_todo_drop1:
  assumes "rl_wf rl2" and "\<forall>y\<in>set rl2. mr_end e1 \<le> mr_start y"
  shows "iorr_todo rem (e1 # rl1) rl2 = iorr_todo rem rl1 rl2"
proof -
  have "rl_revs rl2 \<inter> rev_set e1 = {}"
    using rl_revs_lower [OF assms] by (force simp: rev_set_def)
  then show ?thesis by (auto simp: iorr_todo_def)
qed

lemma iorr_part_head:
  assumes "rl_wf (e1 # rl1)" and "piece \<subseteq> {..mr_end e1}"
  shows "iorr_part rem (e1 # rl1) piece = (if rem then piece - rev_set e1 else piece \<inter> rev_set e1)"
proof -
  have "piece \<inter> rl_revs rl1 = {}"
    using rl_revs_lower [of rl1 "mr_end e1"] assms by force
  then show ?thesis by (auto simp: iorr_part_def)
qed

lemma iorr_part_outside:
  assumes "rl_wf (e1 # rl1)" and "piece \<subseteq> {..mr_start e1}"
  shows "iorr_part rem (e1 # rl1) piece = (if rem then piece else {})"
proof -
  have "piece \<inter> rl_revs (e1 # rl1) = {}"
    using rl_revs_lower [of "e1 # rl1" "mr_start e1"] assms by (force simp: valid_range_iff)
  then show ?thesis by (auto simp: iorr_part_def)
qed

text \<open>One appended piece: what \<open>combine_with_lastrange\<close> does to the invariant.\<close>

lemma append_piece:
  assumes "rl_norm out" and "ends_by out n" and "n \<le> a" and "0 \<le> a" and "a < b"
  obtains out' where "combine_with_lastrange (mrange a b h) out False = Inr out'"
    and "rl_norm out'" and "rl_revs out' = rl_revs out \<union> {a<..b}" and "ends_by out' b"
    and "out' \<noteq> []" and "mr_start (last out') \<le> a" and "mr_end (last out') = b"
proof
  let ?r = "mrange a b h" and ?out' = "iorr_push_untouched True False (mrange a b h) out"
  have *: "IS_VALID_FORWARD_RANGE ?r" "ends_by out (mr_start ?r)"
    using assms by (auto simp: valid_range_iff ends_by_def)
  note spec = push_untouched_spec [OF assms(1) *]
  show "combine_with_lastrange ?r out False = Inr ?out'" "rl_norm ?out'" "ends_by ?out' b"
    "rl_revs ?out' = rl_revs out \<union> {a<..b}"
    using spec by (simp_all add: rev_set_def)
  have "mr_end (last out) \<le> a" if "out \<noteq> []"
    using *(2) that by (auto simp: ends_by_def)
  then show "?out' \<noteq> []" "mr_start (last ?out') \<le> a" "mr_end (last ?out') = b"
    using assms(5) by (auto simp: iorr_push_untouched_def combine_ranges_def)
qed

lemma append_covered:
  assumes "rl_norm out" and "ends_by out b" and "out \<noteq> []"
    and "mr_start (last out) \<le> a" and "mr_end (last out) = b" and "a < b"
  obtains out' where "combine_with_lastrange (mrange a b h) out False = Inr out'"
    and "rl_norm out'" and "rl_revs out' = rl_revs out" and "ends_by out' b"
proof -
  obtain older lst where out: "out = older @ [lst]"
    using assms(3) by (cases out rule: rev_cases) auto
  show thesis
    using assms
    by (intro that [of "older @ [lst\<lparr>mr_inheritable := mr_inheritable lst \<or> h\<rparr>]"])
      (auto simp: out combine_with_lastrange_def combine_ranges_def valid_range_iff
        ends_by_def rev_set_def)
qed

text \<open>The pieces one iteration appends, for each of its three branches.\<close>

abbreviation iorr_common :: "merge_range \<Rightarrow> merge_range \<Rightarrow> int set" where
  "iorr_common e1 e2 \<equiv> {max (mr_start e2) (mr_start e1) <.. min (mr_end e2) (mr_end e1)}"

abbreviation (input) valid_pair :: "merge_range \<Rightarrow> merge_range \<Rightarrow> bool" where
  "valid_pair e1 e2 \<equiv> IS_VALID_FORWARD_RANGE e1 \<and> IS_VALID_FORWARD_RANGE e2"

lemma iorr_contains_step:
  assumes "rl_norm out" and "ends_by out (mr_start e2)" and "valid_pair e1 e2"
  obtains out' where "(if \<not> rem then combine_with_lastrange
      (mrange (mr_start e2) (mr_end e2) (mr_inheritable e2 \<or> mr_inheritable e1)) out False
      else Inr out) = Inr out'"
    and "rl_norm out'" and "ends_by out' (mr_end e2)"
    and "rl_revs out' = rl_revs out \<union> (if rem then {} else rev_set e2)"
proof (cases rem)
  case True
  with assms show ?thesis
    by (intro that [of out]) (auto simp: ends_by_def valid_range_iff)
next
  case False
  from assms have "0 \<le> mr_start e2" "mr_start e2 < mr_end e2" by (auto simp: valid_range_iff)
  then obtain out' where "combine_with_lastrange
      (mrange (mr_start e2) (mr_end e2) (mr_inheritable e2 \<or> mr_inheritable e1)) out False = Inr out'"
    "rl_norm out'" "rl_revs out' = rl_revs out \<union> {mr_start e2<..mr_end e2}" "ends_by out' (mr_end e2)"
    by (rule append_piece [OF assms(1,2) order.refl])
  with False that [of out'] show ?thesis by (auto simp: rev_set_def)
qed

lemma iorr_left_step:
  assumes "rl_norm out" and "ends_by out (mr_start e2)" and "valid_pair e1 e2"
    and "mr_start e1 < mr_end e2" and "mr_start e2 < mr_end e1"
  obtains out1 where "(if mr_start e2 < mr_start e1
       then combine_with_lastrange (iorr_left_part rem e1 e2) out False else Inr out) = Inr out1"
    and "rl_norm out1" and "ends_by out1 (min (mr_end e2) (mr_end e1))"
    and "rl_revs out1 = rl_revs out \<union> (if rem then {mr_start e2 <.. mr_start e1}
            else if mr_start e2 < mr_start e1 then iorr_common e1 e2 else {})"
    and "\<not> rem \<and> mr_start e2 < mr_start e1 \<longrightarrow> out1 \<noteq> [] \<and> mr_start (last out1) \<le> mr_start e1
            \<and> mr_end (last out1) = min (mr_end e2) (mr_end e1)"
    and "\<not> mr_start e2 < mr_start e1 \<longrightarrow> ends_by out1 (mr_start e2)"
proof (cases "mr_start e2 < mr_start e1")
  case left: True
  have vi: "0 \<le> mr_start e1" "0 \<le> mr_start e2" "mr_start e1 < mr_end e1"
    using assms(3) by (auto simp: valid_range_iff)
  show ?thesis
  proof (cases rem)
    case True
    obtain out' where "combine_with_lastrange
        (mrange (mr_start e2) (mr_start e1) (mr_inheritable e2)) out False = Inr out'"
      "rl_norm out'" "rl_revs out' = rl_revs out \<union> {mr_start e2<..mr_start e1}"
      "ends_by out' (mr_start e1)"
      using append_piece [OF assms(1,2) order.refl vi(2) left] by metis
    moreover from this(4) have "ends_by out' (min (mr_end e2) (mr_end e1))"
      by (rule ends_by_mono) (use assms(4) vi in simp)
    ultimately show ?thesis
      using True left that [of out'] by (auto simp: iorr_left_part_def)
  next
    case False
    have "mr_start e1 < min (mr_end e2) (mr_end e1)" using assms(4) vi by simp
    then obtain out' where "combine_with_lastrange (mrange (mr_start e1)
        (min (mr_end e2) (mr_end e1)) (mr_inheritable e2 \<or> mr_inheritable e1)) out False = Inr out'"
      "rl_norm out'" "rl_revs out' = rl_revs out \<union> {mr_start e1<..min (mr_end e2) (mr_end e1)}"
      "ends_by out' (min (mr_end e2) (mr_end e1))" "out' \<noteq> []" "mr_start (last out') \<le> mr_start e1"
      "mr_end (last out') = min (mr_end e2) (mr_end e1)"
      using append_piece [OF assms(1,2) less_imp_le [OF left] vi(1)] by metis
    with False left that [of out'] show ?thesis
      by (auto simp: iorr_left_part_def max_def)
  qed
next
  case False
  moreover have "ends_by out (min (mr_end e2) (mr_end e1))"
    using assms(2) by (rule ends_by_mono) (use assms(3,5) in \<open>auto simp: valid_range_iff\<close>)
  ultimately show ?thesis using assms that [of out] by (cases rem) auto
qed

lemma iorr_right_step:
  assumes "rl_norm out1" and "ends_by out1 (mr_end e1)" and "valid_pair e1 e2"
    and "mr_start e2 < mr_end e1" and "mr_end e1 < mr_end e2"
    and left: "\<not> rem \<Longrightarrow> mr_start e2 < mr_start e1 \<Longrightarrow> out1 \<noteq> [] \<and> mr_start (last out1) \<le> mr_start e1
            \<and> mr_end (last out1) = mr_end e1 \<and> iorr_common e1 e2 \<subseteq> rl_revs out1"
    and nleft: "\<not> mr_start e2 < mr_start e1 \<Longrightarrow> ends_by out1 (mr_start e2)"
  obtains out3 where "(if \<not> rem then combine_with_lastrange
             (mrange (max (mr_start e2) (mr_start e1)) (mr_end e1)
                (mr_inheritable e2 \<or> mr_inheritable e1)) out1 False else Inr out1) = Inr out3"
    and "rl_norm out3" and "ends_by out3 (mr_end e1)"
    and "rl_revs out3 = rl_revs out1 \<union> (if rem then {} else iorr_common e1 e2)"
proof (cases rem)
  case True
  with assms that [of out1] show ?thesis by auto
next
  case False
  let ?a = "max (mr_start e2) (mr_start e1)" and ?h = "mr_inheritable e2 \<or> mr_inheritable e1"
  have vi: "0 \<le> mr_start e1" "0 \<le> mr_start e2" "mr_start e1 < mr_end e1"
    using assms(3) by (auto simp: valid_range_iff)
  show ?thesis
  proof (cases "mr_start e2 < mr_start e1")
    case True
    have "out1 \<noteq> []" "mr_start (last out1) \<le> ?a" "mr_end (last out1) = mr_end e1" "?a < mr_end e1"
      using left [OF False True] True vi by auto
    then obtain out' where "combine_with_lastrange (mrange ?a (mr_end e1) ?h) out1 False = Inr out'"
      "rl_norm out'" "rl_revs out' = rl_revs out1" "ends_by out' (mr_end e1)"
      using append_covered [OF assms(1,2)] by metis
    with False left [OF False True] that [of out'] show ?thesis by auto
  next
    case nl: False
    have "ends_by out1 ?a" "0 \<le> ?a" "?a < mr_end e1"
      using nleft nl assms(4) vi by (auto simp: max_def)
    then obtain out' where "combine_with_lastrange (mrange ?a (mr_end e1) ?h) out1 False = Inr out'"
      "rl_norm out'" "rl_revs out' = rl_revs out1 \<union> {?a<..mr_end e1}" "ends_by out' (mr_end e1)"
      using append_piece [OF assms(1) _ order.refl] by metis
    with False assms(5) that [of out'] show ?thesis by auto
  qed
qed

lemma iorr_part_overlap:
  assumes "rl_wf (e1 # rl1)" and "mr_start e1 < mr_end e2" and "mr_start e2 < mr_end e1"
  shows "iorr_part rem (e1 # rl1) {mr_start e2 <.. min (mr_end e2) (mr_end e1)} =
     (if rem then {mr_start e2 <.. mr_start e1} else iorr_common e1 e2)"
  by (subst iorr_part_head [OF assms(1)]) (use assms in \<open>auto simp: rev_set_def valid_range_iff\<close>)

lemma iorr_loop_post:
  assumes "rl_wf rl1" and "rl_wf rl2" and "rl_norm out"
    and "\<forall>y\<in>set rl2. ends_by out (mr_start y)"
  shows "iorr_post rem (rl_revs out \<union> iorr_todo rem rl1 rl2) (iorr_loop rem False rl1 rl2 out)"
  using assms
proof (induction rem "False" rl1 rl2 out rule: iorr_loop.induct)
  case (1 rem rl2 out)
  then show ?case by (auto simp: iorr_post_def iorr_todo_def)
next
  case (2 rem e1 rl1 out)
  then show ?case by (auto simp: iorr_post_def iorr_todo_def)
next
  case (3 rem e1 rl1 e2 rl2 out)
  note prems = "3.prems"
  have v: "valid_pair e1 e2" and wf: "rl_wf rl1" "rl_wf rl2" "rl_wf (e1 # rl1)"
    and out2: "ends_by out (mr_start e2)" using prems by auto
  from v have vi: "mr_start e1 < mr_end e1" "mr_start e2 < mr_end e2"
    by (auto simp: valid_range_iff)
  have after2: "ends_by out' (mr_start y)" if "ends_by out' (mr_end e2)" "y \<in> set rl2" for out' y
    using that prems by (auto simp: ends_by_def intro: order_trans)
  consider (cont) "range_contains e1 e2 False"
    | (inter) "\<not> range_contains e1 e2 False" "range_intersect e1 e2 False"
    | (before) "\<not> range_contains e1 e2 False" "\<not> range_intersect e1 e2 False"
        "svn_sort_compare_ranges e1 e2 < 0"
    | (behind) "\<not> range_contains e1 e2 False" "\<not> range_intersect e1 e2 False"
        "\<not> svn_sort_compare_ranges e1 e2 < 0"
    by blast
  then show ?case
  proof cases
    case cont
    then have sub: "mr_start e1 \<le> mr_start e2" "mr_end e2 \<le> mr_end e1"
      by (auto simp: range_contains_def)
    have part: "iorr_part rem (e1 # rl1) (rev_set e2) = (if rem then {} else rev_set e2)"
      by (subst iorr_part_head [OF wf(3)]) (use sub in \<open>auto simp: rev_set_def\<close>)
    obtain out' where out': "(if \<not> rem then combine_with_lastrange
          (mrange (mr_start e2) (mr_end e2) (mr_inheritable e2 \<or> mr_inheritable e1)) out False
          else Inr out) = Inr out'"
      and *: "rl_norm out'" "ends_by out' (mr_end e2)"
        "rl_revs out' = rl_revs out \<union> (if rem then {} else rev_set e2)"
      by (rule iorr_contains_step [OF prems(3) out2 v, of rem])
    show ?thesis
    proof (cases "mr_start e2 = mr_start e1 \<and> mr_end e2 = mr_end e1")
      case True
      have "iorr_post rem (rl_revs out' \<union> iorr_todo rem rl1 rl2) (iorr_loop rem False rl1 rl2 out')"
        using v cont out' True * wf after2 by (intro "3.hyps"(1)) auto
      moreover have "iorr_todo rem (e1 # rl1) rl2 = iorr_todo rem rl1 rl2"
        using prems True by (intro iorr_todo_drop1) auto
      ultimately show ?thesis
        using v cont out' True * part by (simp add: iorr_todo_Cons2 Un_assoc)
    next
      case False
      have "iorr_post rem (rl_revs out' \<union> iorr_todo rem (e1 # rl1) rl2)
          (iorr_loop rem False (e1 # rl1) rl2 out')"
        using v cont out' False * wf after2 by (intro "3.hyps"(2)) auto
      then show ?thesis
        using v cont out' False * part by (auto simp: iorr_todo_Cons2 Un_assoc)
    qed
  next
    case inter
    then have ov: "mr_start e1 < mr_end e2" "mr_start e2 < mr_end e1"
      by (auto simp: range_intersect_def)
    obtain out1 where out1: "(if mr_start e2 < mr_start e1
          then combine_with_lastrange (iorr_left_part rem e1 e2) out False else Inr out) = Inr out1"
      and o1: "rl_norm out1" "ends_by out1 (min (mr_end e2) (mr_end e1))"
        "rl_revs out1 = rl_revs out \<union> (if rem then {mr_start e2 <.. mr_start e1}
            else if mr_start e2 < mr_start e1 then iorr_common e1 e2 else {})"
        "\<not> rem \<and> mr_start e2 < mr_start e1 \<longrightarrow> out1 \<noteq> [] \<and> mr_start (last out1) \<le> mr_start e1
            \<and> mr_end (last out1) = min (mr_end e2) (mr_end e1)"
        "\<not> mr_start e2 < mr_start e1 \<longrightarrow> ends_by out1 (mr_start e2)"
      by (rule iorr_left_step [OF prems(3) out2 v ov, of rem])
    show ?thesis
    proof (cases "mr_end e1 < mr_end e2")
      case True
      let ?e2' = "e2\<lparr>mr_start := mr_end e1\<rparr>"
      from True have min: "min (mr_end e2) (mr_end e1) = mr_end e1" by simp
      note part = iorr_part_overlap [OF wf(3) ov, unfolded min]
      obtain out3 where out3: "(if \<not> rem then combine_with_lastrange
             (mrange (max (mr_start e2) (mr_start e1)) (mr_end e1)
                (mr_inheritable e2 \<or> mr_inheritable e1)) out1 False else Inr out1) = Inr out3"
        and o3: "rl_norm out3" "ends_by out3 (mr_end e1)"
          "rl_revs out3 = rl_revs out1 \<union> (if rem then {} else iorr_common e1 e2)"
      proof (rule iorr_right_step [OF o1(1) o1(2) [unfolded min] v ov(2) True, of rem])
        show "out1 \<noteq> [] \<and> mr_start (last out1) \<le> mr_start e1
            \<and> mr_end (last out1) = mr_end e1 \<and> iorr_common e1 e2 \<subseteq> rl_revs out1"
          if "\<not> rem" "mr_start e2 < mr_start e1"
          using o1(3,4) that min by auto
      qed (use o1(5) in simp)
      have "rl_wf (?e2' # rl2)" "\<forall>y\<in>set (?e2' # rl2). ends_by out3 (mr_start y)"
        using o3(2) prems(2) True vi v by (fastforce simp: valid_range_iff ends_by_def)+
      then have "iorr_post rem (rl_revs out3 \<union> iorr_todo rem (e1 # rl1) (?e2' # rl2))
          (iorr_loop rem False (e1 # rl1) (?e2' # rl2) out3)"
        using v inter out1 out3 True o3 wf by (intro "3.hyps"(3)) auto
      moreover have "rev_set e2 = {mr_start e2<..mr_end e1} \<union> rev_set ?e2'"
        using True ov by (auto simp: rev_set_def)
      then have "iorr_todo rem (e1 # rl1) (e2 # rl2) =
          (if rem then {mr_start e2 <.. mr_start e1} else iorr_common e1 e2)
            \<union> iorr_todo rem (e1 # rl1) (?e2' # rl2)"
        using part min by (simp add: iorr_todo_Cons2 iorr_part_Un Un_assoc)
      then have "rl_revs out \<union> iorr_todo rem (e1 # rl1) (e2 # rl2) =
          rl_revs out3 \<union> iorr_todo rem (e1 # rl1) (?e2' # rl2)"
        unfolding o3(3) o1(3) by (simp add: Un_assoc)
      ultimately show ?thesis
        using v inter out1 out3 True by simp
    next
      case False
      with inter have lt: "mr_start e2 < mr_start e1" by (auto simp: range_contains_def)
      have "ends_by out1 (mr_end e2)" using o1(2) by (auto simp: ends_by_def)
      then have "iorr_post rem (rl_revs out1 \<union> iorr_todo rem (e1 # rl1) rl2)
          (iorr_loop rem False (e1 # rl1) rl2 out1)"
        using v inter out1 False o1 wf after2 by (intro "3.hyps"(4)) auto
      moreover have "iorr_part rem (e1 # rl1) (rev_set e2) =
          (if rem then {mr_start e2 <.. mr_start e1} else iorr_common e1 e2)"
        using iorr_part_overlap [OF wf(3) ov] False by (simp add: rev_set_def min_def split: if_splits)
      ultimately show ?thesis
        using v inter out1 False o1(3) lt by (cases rem) (auto simp: iorr_todo_Cons2 Un_assoc)
    qed
  next
    case before
    then have "mr_end e1 \<le> mr_start e2"
      using vi by (auto simp: range_intersect_def svn_sort_compare_ranges_def split: if_splits)
    then have "iorr_todo rem (e1 # rl1) (e2 # rl2) = iorr_todo rem rl1 (e2 # rl2)"
      using prems(2) vi by (intro iorr_todo_drop1) auto
    moreover have "iorr_post rem (rl_revs out \<union> iorr_todo rem rl1 (e2 # rl2))
        (iorr_loop rem False rl1 (e2 # rl2) out)"
      using v before prems by (intro "3.hyps"(5)) auto
    ultimately show ?thesis using v before by simp
  next
    case behind
    then have le: "mr_end e2 \<le> mr_start e1"
      using vi by (auto simp: range_intersect_def svn_sort_compare_ranges_def split: if_splits)
    have part: "iorr_part rem (e1 # rl1) (rev_set e2) = (if rem then rev_set e2 else {})"
      by (subst iorr_part_outside [OF wf(3)]) (use le in \<open>auto simp: rev_set_def\<close>)
    define out' where "out' = iorr_push_untouched rem False e2 out"
    have *: "rl_norm out' \<and> rl_revs out' = rl_revs out \<union> iorr_part rem (e1 # rl1) (rev_set e2)
        \<and> ends_by out' (mr_end e2)"
    proof (cases rem)
      case True
      then show ?thesis
        unfolding part
        using push_untouched_spec [OF prems(3) conjunct2 [OF v] out2] by (simp add: out'_def)
    next
      case False
      then show ?thesis
        unfolding part using prems(3) ends_by_mono [OF out2] vi
        by (simp add: out'_def iorr_push_untouched_def)
    qed
    have "iorr_post rem (rl_revs out' \<union> iorr_todo rem (e1 # rl1) rl2)
        (iorr_loop rem False (e1 # rl1) rl2 out')"
      using v behind * wf after2 unfolding out'_def by (intro "3.hyps"(6)) auto
    then show ?thesis
      using v behind * by (simp add: iorr_todo_Cons2 Un_assoc out'_def)
  qed
qed

lemma fold_combine_spec:
  assumes "rl_wf rest" and "rl_norm out" and "\<forall>y\<in>set rest. ends_by out (mr_start y)"
  obtains out' where "fold_result (\<lambda>elt output. combine_with_lastrange elt output False) rest out = Inr out'"
    and "rl_norm out'" and "rl_revs out' = rl_revs out \<union> rl_revs rest"
  using assms
proof (induction rest arbitrary: out thesis)
  case (Cons r rest)
  then have r: "IS_VALID_FORWARD_RANGE r" "ends_by out (mr_start r)" by auto
  note spec = push_untouched_spec [OF Cons.prems(3) r]
  from Cons.prems spec have "\<forall>y\<in>set rest. ends_by (iorr_push_untouched True False r out) (mr_start y)"
    by (auto simp: ends_by_def intro: order_trans)
  with spec(2) obtain out' where
    "fold_result (\<lambda>elt output. combine_with_lastrange elt output False) rest
       (iorr_push_untouched True False r out) = Inr out'"
    "rl_norm out'" "rl_revs out' = rl_revs (iorr_push_untouched True False r out) \<union> rl_revs rest"
    using Cons.IH Cons.prems(2) by (metis rl_wf_simps(2))
  with spec show ?case by (intro Cons.prems(1) [of out']) (auto simp: Un_assoc)
qed auto

lemma intersect_or_remove_spec:
  assumes "rl_wf rl1" and "rl_wf rl2"
  obtains out where "rangelist_intersect_or_remove rl1 rl2 rem False = Inr out"
    and "rl_norm out" and "rl_revs out = iorr_todo rem rl1 rl2"
proof -
  obtain out rest where *: "iorr_loop rem False rl1 rl2 [] = Inr (out, rest)" "rl_norm out" "rl_wf rest"
    "\<forall>y\<in>set rest. ends_by out (mr_start y)"
    "rl_revs out \<union> (if rem then rl_revs rest else {}) = iorr_todo rem rl1 rl2"
    using iorr_loop_post [OF assms, of "[]" rem] by (auto simp: iorr_post_def ends_by_def)
  show thesis
  proof (cases rem)
    case True
    with * fold_combine_spec [OF *(3,2,4)] that show ?thesis
      by (auto simp: rangelist_intersect_or_remove_def)
  next
    case False
    with * that show ?thesis by (auto simp: rangelist_intersect_or_remove_def)
  qed
qed


lemma remove_spec:
  assumes "rl_wf eraser" and "rl_wf whiteboard"
  obtains out where "svn_rangelist_remove eraser whiteboard False = Inr out" and "rl_norm out"
    and "rl_revs out = rl_revs whiteboard - rl_revs eraser"
  using intersect_or_remove_spec [OF assms, of True] that
  by (auto simp: svn_rangelist_remove_def iorr_todo_def)

lemma intersect_spec:
  assumes "rl_wf rl1" and "rl_wf rl2"
  obtains out where "svn_rangelist_intersect rl1 rl2 False = Inr out" and "rl_norm out"
    and "rl_revs out = rl_revs rl1 \<inter> rl_revs rl2"
  using intersect_or_remove_spec [OF assms, of False] that
  by (auto simp: svn_rangelist_intersect_def iorr_todo_def Int_commute)

lemma diff_spec:
  assumes "rl_wf from_rl" and "rl_wf to_rl"
  obtains deleted added where "svn_rangelist_diff from_rl to_rl False = Inr (deleted, added)"
    and "rl_norm deleted" and "rl_norm added"
    and "rl_revs deleted = rl_revs from_rl - rl_revs to_rl"
    and "rl_revs added = rl_revs to_rl - rl_revs from_rl"
proof -
  obtain d where d: "svn_rangelist_remove to_rl from_rl False = Inr d" "rl_norm d"
      "rl_revs d = rl_revs from_rl - rl_revs to_rl"
    by (rule remove_spec [OF assms(2,1)])
  obtain a where a: "svn_rangelist_remove from_rl to_rl False = Inr a" "rl_norm a"
      "rl_revs a = rl_revs to_rl - rl_revs from_rl"
    by (rule remove_spec [OF assms])
  show thesis by (rule that [of d a]) (use d a in \<open>simp_all add: svn_rangelist_diff_def\<close>)
qed

lemma rl_revs_empty_iff: "rl_wf rl \<Longrightarrow> rl_revs rl = {} \<longleftrightarrow> rl = []"
  by (cases rl) (auto dest: rev_set_empty_iff)

section \<open>Normalization\<close>

definition is_rangelist_normalized :: "rangelist \<Rightarrow> bool" where
  "is_rangelist_normalized rangelist \<longleftrightarrow>
     (\<forall>i < length rangelist - 1. \<not> mr_end (rangelist ! i) \<ge> mr_start (rangelist ! (i + 1)))"

text \<open>
  The loop of \<open>svn_rangelist__combine_adjacent_ranges\<close> from \<open>lastrange\<close>, over the
  elements after it. Deleting the element at \<open>i\<close> and stepping back leaves the loop at the
  widened \<open>lastrange\<close>.
\<close>

fun combine_adjacent_from :: "merge_range \<Rightarrow> rangelist \<Rightarrow> rangelist svn_result" where
  "combine_adjacent_from lastrange [] = Inr [lastrange]"
| "combine_adjacent_from lastrange (rng # rl) =
     (if mr_start lastrange \<le> mr_end rng \<and> mr_start rng \<le> mr_end lastrange
      then if mr_start rng < mr_end lastrange \<and> mr_inheritable rng \<noteq> mr_inheritable lastrange
           then Inl Mergeinfo_parse_error
           else if mr_inheritable lastrange = mr_inheritable rng
           then combine_adjacent_from (lastrange\<lparr>mr_end := max (mr_end rng) (mr_end lastrange)\<rparr>) rl
           else svn_try (combine_adjacent_from rng rl) (\<lambda>rest. Inr (lastrange # rest))
      else svn_try (combine_adjacent_from rng rl) (\<lambda>rest. Inr (lastrange # rest)))"

fun svn_rangelist_combine_adjacent_ranges :: "rangelist \<Rightarrow> rangelist svn_result" where
  "svn_rangelist_combine_adjacent_ranges [] = Inr []"
| "svn_rangelist_combine_adjacent_ranges (lastrange # rl) = combine_adjacent_from lastrange rl"

definition svn_rangelist_canonicalize :: "rangelist \<Rightarrow> rangelist svn_result" where
  "svn_rangelist_canonicalize rangelist =
     (if \<not> is_rangelist_normalized rangelist
      then svn_rangelist_combine_adjacent_ranges (qsort svn_sort_compare_ranges rangelist)
      else Inr rangelist)"

section \<open>Whole-list operations\<close>

definition svn_rangelist_reverse :: "rangelist \<Rightarrow> rangelist" where
  "svn_rangelist_reverse rangelist = map range_swap_endpoints (svn_sort_array_reverse rangelist)"

definition svn_rangelist_set_inheritance :: "rangelist \<Rightarrow> bool \<Rightarrow> rangelist" where
  "svn_rangelist_set_inheritance rangelist inheritable =
     map (\<lambda>rng. rng\<lparr>mr_inheritable := inheritable\<rparr>) rangelist"

definition svn_rangelist_initialize :: "int \<Rightarrow> int \<Rightarrow> bool \<Rightarrow> rangelist" where
  "svn_rangelist_initialize start_rev end_rev inheritable = [mrange start_rev end_rev inheritable]"

text \<open>
  \<open>svn_rangelist_inheritable2\<close>. In the unbounded case the code fills in a copy with
  \<open>inheritable = TRUE\<close> and then pushes the original range: the copy is not used.
\<close>

definition svn_rangelist_inheritable2 ::
    "rangelist \<Rightarrow> int \<Rightarrow> int \<Rightarrow> bool \<Rightarrow> rangelist svn_result" where
  "svn_rangelist_inheritable2 rangelist start_rev end_rev inheritable =
     (if rangelist = [] then Inr []
      else if \<not> IS_VALID_REVNUM start_rev \<or> \<not> IS_VALID_REVNUM end_rev \<or> end_rev < start_rev
      then Inr (filter (\<lambda>rng. mr_inheritable rng = inheritable) rangelist)
      else svn_rangelist_remove (svn_rangelist_initialize start_rev end_rev inheritable)
             rangelist True)"

section \<open>Correctness of normalization\<close>

lemma normalized_successively:
  "is_rangelist_normalized rl \<longleftrightarrow> successively (\<lambda>x y. mr_end x < mr_start y) rl"
  by (auto simp: is_rangelist_normalized_def successively_conv_nth not_le less_diff_conv)

lemma normalized_iff:
  assumes "\<forall>r\<in>set rl. IS_VALID_FORWARD_RANGE r"
  shows "is_rangelist_normalized rl \<longleftrightarrow> rl_norm rl"
  using assms
proof (induction rl)
  case (Cons r rl)
  show ?case
  proof (cases rl)
    case (Cons s rl')
    have "mr_end r < mr_start s \<and> rl_norm rl \<longrightarrow> (\<forall>x\<in>set rl. mr_end r < mr_start x)"
      using Cons by (fastforce simp: valid_range_iff)
    then show ?thesis
      using Cons.IH Cons.prems Cons by (auto simp: normalized_successively)
  qed (use Cons.prems in \<open>simp add: normalized_successively\<close>)
qed (simp add: is_rangelist_normalized_def)

text \<open>Two ranges overlap and differ in inheritability: the case the parser rejects.\<close>

definition conflicting :: "merge_range \<Rightarrow> merge_range \<Rightarrow> bool" where
  "conflicting x y \<longleftrightarrow> rev_set x \<inter> rev_set y \<noteq> {} \<and> mr_inheritable x \<noteq> mr_inheritable y"

abbreviation sorted_ranges :: "rangelist \<Rightarrow> bool" where
  "sorted_ranges rl \<equiv> sorted_wrt (\<lambda>x y. svn_sort_compare_ranges x y \<le> 0) rl"

lemma compare_start: "svn_sort_compare_ranges x y \<le> 0 \<Longrightarrow> mr_start x \<le> mr_start y"
  by (auto simp: svn_sort_compare_ranges_def split: if_splits)

lemma sorted_starts: "sorted_ranges rl \<Longrightarrow> sorted_wrt (\<lambda>x y. mr_start x \<le> mr_start y) rl"
  by (erule sorted_wrt_mono_rel [rotated]) (rule compare_start)

lemma canonical_Cons:
  "rl_canonical (x # y # rl) \<longleftrightarrow> IS_VALID_FORWARD_RANGE x \<and> mr_end x \<le> mr_start y
     \<and> (mr_end x = mr_start y \<longrightarrow> mr_inheritable x \<noteq> mr_inheritable y) \<and> rl_canonical (y # rl)"
  by (force simp: rl_canonical_def valid_range_iff)

text \<open>
  From \<open>lastrange\<close> on: an \<open>Inr\<close> result is canonical and keeps the revisions, all of them
  and the inheritable ones.
\<close>

lemma combine_adjacent_Inr:
  assumes "combine_adjacent_from lst rl = Inr out"
    and "\<forall>r\<in>set (lst # rl). IS_VALID_FORWARD_RANGE r"
    and "sorted_wrt (\<lambda>x y. mr_start x \<le> mr_start y) (lst # rl)"
  shows "rl_canonical out \<and> rl_revs out = rl_revs (lst # rl) \<and> rl_inh out = rl_inh (lst # rl) \<and> rl_ninh out = rl_ninh (lst # rl)
    \<and> (\<exists>out'. out = hd out # out' \<and> mr_start (hd out) = mr_start lst
          \<and> mr_inheritable (hd out) = mr_inheritable lst)"
  using assms
proof (induction lst rl arbitrary: out rule: combine_adjacent_from.induct)
  case (1 lst)
  then have "out = [lst]" by simp
  with 1 show ?case by (simp add: rl_canonical_def)
next
  case (2 lst rng rl)
  have v: "mr_start lst < mr_end lst" "mr_start rng < mr_end rng" "mr_start lst \<le> mr_start rng"
    "0 \<le> mr_start lst"
    using "2.prems" by (auto simp: valid_range_iff)
  show ?case
  proof (cases "mr_start rng \<le> mr_end lst \<and> mr_inheritable lst = mr_inheritable rng")
    case True
    let ?w = "lst\<lparr>mr_end := max (mr_end rng) (mr_end lst)\<rparr>"
    have "combine_adjacent_from ?w rl = Inr out" using "2.prems"(1) v True by (auto split: if_splits)
    moreover have "\<forall>r\<in>set (?w # rl). IS_VALID_FORWARD_RANGE r"
       "sorted_wrt (\<lambda>x y. mr_start x \<le> mr_start y) (?w # rl)"
      using "2.prems"(2,3) v by (auto simp: valid_range_iff)
    moreover have "rev_set ?w = rev_set lst \<union> rev_set rng"
      using True v by (auto simp: rev_set_def)
    ultimately show ?thesis
      using "2.IH"(1) [of out] True v "2.prems"(1) by (auto split: if_splits)
  next
    case False
    obtain rest where rest: "combine_adjacent_from rng rl = Inr rest" "out = lst # rest"
      and gap: "mr_end lst \<le> mr_start rng" "mr_end lst = mr_start rng \<longrightarrow> mr_inheritable lst \<noteq> mr_inheritable rng"
      using "2.prems"(1) v False by (auto split: if_splits)
    have IH: "rl_canonical rest \<and> rl_revs rest = rl_revs (rng # rl) \<and> rl_inh rest = rl_inh (rng # rl) \<and> rl_ninh rest = rl_ninh (rng # rl)
    \<and> (\<exists>out'. rest = hd rest # out' \<and> mr_start (hd rest) = mr_start rng
          \<and> mr_inheritable (hd rest) = mr_inheritable rng)"
    proof (cases "mr_start rng \<le> mr_end lst")
      case True
      then show ?thesis
        using "2.IH"(2) [of rest] rest(1) "2.prems"(2,3) v False gap by auto
    next
      case nle: False
      then show ?thesis
        using "2.IH"(3) [of rest] rest(1) "2.prems"(2,3) by auto
    qed
    then obtain r0 out' where r0: "rest = r0 # out'" "mr_start r0 = mr_start rng" "mr_inheritable r0 = mr_inheritable rng"
      by auto
    then show ?thesis
      using IH rest gap "2.prems"(2) by (auto simp: canonical_Cons)
  qed
qed


lemma combine_adjacent_no_conflict:
  assumes "\<forall>r\<in>set (lst # rl). IS_VALID_FORWARD_RANGE r"
    and "sorted_wrt (\<lambda>x y. mr_start x \<le> mr_start y) (lst # rl)"
    and "\<forall>x\<in>set (lst # rl). \<forall>y\<in>set (lst # rl). \<not> conflicting x y"
  shows "\<exists>out. combine_adjacent_from lst rl = Inr out"
  using assms
proof (induction lst rl rule: combine_adjacent_from.induct)
  case (2 lst rng rl)
  have v: "mr_start lst < mr_end lst" "mr_start rng < mr_end rng" "mr_start lst \<le> mr_start rng"
    "0 \<le> mr_start lst"
    using "2.prems" by (auto simp: valid_range_iff)
  have no: "mr_inheritable rng = mr_inheritable lst" if "mr_start rng < mr_end lst"
  proof -
    have "mr_start rng + 1 \<in> rev_set lst \<inter> rev_set rng"
      using that v by (auto simp: rev_set_def)
    then show ?thesis using "2.prems"(3) by (auto simp: conflicting_def)
  qed
  show ?case
  proof (cases "mr_start rng \<le> mr_end lst \<and> mr_inheritable lst = mr_inheritable rng")
    case True
    let ?w = "lst\<lparr>mr_end := max (mr_end rng) (mr_end lst)\<rparr>"
    have w: "rev_set ?w = rev_set lst \<union> rev_set rng" "mr_inheritable ?w = mr_inheritable lst"
      using True v by (auto simp: rev_set_def)
    have "conflicting x ?w \<longleftrightarrow> conflicting x lst \<or> conflicting x rng"
      "conflicting ?w x \<longleftrightarrow> conflicting lst x \<or> conflicting rng x" for x
      using True w by (auto simp: conflicting_def)
    then have "\<forall>x\<in>set (?w # rl). \<forall>y\<in>set (?w # rl). \<not> conflicting x y"
      using "2.prems"(3) by auto
    moreover have "\<forall>r\<in>set (?w # rl). IS_VALID_FORWARD_RANGE r"
       "sorted_wrt (\<lambda>x y. mr_start x \<le> mr_start y) (?w # rl)"
      using "2.prems"(1,2) v by (auto simp: valid_range_iff)
    ultimately show ?thesis using "2.IH"(1) True v by auto
  next
    case False
    have "\<exists>out. combine_adjacent_from rng rl = Inr out"
    proof (cases "mr_start rng \<le> mr_end lst")
      case True
      with no False have "mr_start rng = mr_end lst" by force
      with True show ?thesis using "2.IH"(2) "2.prems" v False by auto
    next
      case nle: False
      then show ?thesis using "2.IH"(3) "2.prems" by auto
    qed
    then show ?thesis using v False no by auto
  qed
qed simp

lemma rl_wf_disjoint: "rl_wf rl \<Longrightarrow> rl_inh rl \<inter> rl_ninh rl = {}"
proof (induction rl)
  case (Cons r rl)
  have "v \<notin> rev_set r" if "v \<in> rl_revs rl" for v
    using rl_revs_lower [of rl "mr_end r" v] Cons.prems that by (auto simp: rev_set_def)
  with Cons show ?case using rl_revs_split [of rl] by auto
qed simp

lemma rl_norm_canonical: "rl_norm rl \<Longrightarrow> rl_canonical rl"
proof (induction rl rule: rl_canonical_adj.induct)
  case (1 x y rl)
  then show ?case by (auto simp: canonical_Cons)
qed (auto simp: rl_canonical_def)

lemma rl_sets_mset:
  assumes "mset rl = mset rl'"
  shows "rl_revs rl = rl_revs rl' \<and> rl_inh rl = rl_inh rl' \<and> rl_ninh rl = rl_ninh rl'"
  using mset_eq_setD [OF assms] by (simp add: rl_revs_def rl_inh_def rl_ninh_def)

lemma canonicalize_Inr:
  assumes "svn_rangelist_canonicalize rl = Inr out" and "\<forall>r\<in>set rl. IS_VALID_FORWARD_RANGE r"
  shows "rl_canonical out \<and> rl_revs out = rl_revs rl \<and> rl_inh out = rl_inh rl \<and> rl_ninh out = rl_ninh rl"
proof (cases "is_rangelist_normalized rl")
  case True
  with assms show ?thesis
    by (auto simp: svn_rangelist_canonicalize_def normalized_iff intro: rl_norm_canonical)
next
  case False
  then have rl: "rl \<noteq> []" by (auto simp: is_rangelist_normalized_def)
  obtain lst rest where q: "qsort svn_sort_compare_ranges rl = lst # rest"
    using rl by (metis length_greater_0_conv length_qsort list.exhaust)
  have mset: "mset (lst # rest) = mset rl" by (metis q mset_qsort)
  have "combine_adjacent_from lst rest = Inr out"
    using assms(1) False q by (simp add: svn_rangelist_canonicalize_def)
  moreover have "\<forall>r\<in>set (lst # rest). IS_VALID_FORWARD_RANGE r"
    using assms(2) by (simp only: mset_eq_setD [OF mset])
  moreover have "sorted_wrt (\<lambda>x y. mr_start x \<le> mr_start y) (lst # rest)"
    using range_cmp.qsort_sorted [of rl] unfolding q by (intro sorted_starts) simp
  ultimately show ?thesis
    using combine_adjacent_Inr rl_sets_mset [OF mset] by metis
qed

lemma canonicalize_error_iff:
  assumes "\<forall>r\<in>set rl. IS_VALID_FORWARD_RANGE r"
  shows "(\<exists>e. svn_rangelist_canonicalize rl = Inl e) \<longleftrightarrow> (\<exists>x\<in>set rl. \<exists>y\<in>set rl. conflicting x y)"
proof
  assume "\<exists>x\<in>set rl. \<exists>y\<in>set rl. conflicting x y"
  then have "rl_inh rl \<inter> rl_ninh rl \<noteq> {}"
    by (force simp: conflicting_def rl_inh_def rl_ninh_def)
  then show "\<exists>e. svn_rangelist_canonicalize rl = Inl e"
    using canonicalize_Inr [OF _ assms] rl_wf_disjoint
    by (cases "svn_rangelist_canonicalize rl") (metis, metis rl_canonical_def)
next
  assume err: "\<exists>e. svn_rangelist_canonicalize rl = Inl e"
  show "\<exists>x\<in>set rl. \<exists>y\<in>set rl. conflicting x y"
  proof (rule ccontr)
    assume no: "\<not> ?thesis"
    obtain lst rest where q: "qsort svn_sort_compare_ranges rl = lst # rest"
      using err by (metis svn_rangelist_canonicalize_def Inl_Inr_False list.exhaust
          svn_rangelist_combine_adjacent_ranges.simps(1))
    have "mset (lst # rest) = mset rl" by (metis q mset_qsort)
    note set_eq = mset_eq_setD [OF this]
    have "\<exists>out. combine_adjacent_from lst rest = Inr out"
    proof (rule combine_adjacent_no_conflict)
      show "sorted_wrt (\<lambda>x y. mr_start x \<le> mr_start y) (lst # rest)"
        using range_cmp.qsort_sorted [of rl] unfolding q by (intro sorted_starts) simp
    qed (use assms no in \<open>simp_all only: set_eq, auto\<close>)
    with err q show False by (auto simp: svn_rangelist_canonicalize_def split: if_splits)
  qed
qed

lemma combine_adjacent_error: "combine_adjacent_from lst rl = Inl e \<Longrightarrow> e = Mergeinfo_parse_error"
  by (induction lst rl rule: combine_adjacent_from.induct) (auto simp: svn_try_Inl_iff split: if_splits)

lemma canonicalize_parse_error:
  "svn_rangelist_canonicalize rl = Inl e \<Longrightarrow> e = Mergeinfo_parse_error"
  by (cases "qsort svn_sort_compare_ranges rl")
    (auto simp: svn_rangelist_canonicalize_def dest: combine_adjacent_error split: if_splits)

section \<open>The contract of a rangelist operation\<close>

text \<open>
  What the functions on mergeinfo rely on: an operation that never fails on sorted,
  non-overlapping rangelists and computes a set operation on their revisions.
\<close>

locale rangelist_op =
  fixes rop :: "rangelist \<Rightarrow> rangelist \<Rightarrow> rangelist svn_result"
    and sem :: "int set \<Rightarrow> int set \<Rightarrow> int set"
  assumes rop_ok: "rl_wf a \<Longrightarrow> rl_wf b \<Longrightarrow>
    \<exists>out. rop a b = Inr out \<and> rl_norm out \<and> rl_revs out = sem (rl_revs a) (rl_revs b)"

interpretation rl_remove: rangelist_op "\<lambda>e w. svn_rangelist_remove e w False" "\<lambda>e w. w - e"
  by unfold_locales (metis remove_spec)

interpretation rl_intersect: rangelist_op "\<lambda>a b. svn_rangelist_intersect a b False" "\<lambda>a b. a \<inter> b"
  by unfold_locales (metis intersect_spec)

section \<open>Properties\<close>

text \<open>C13. Removing a rangelist from another one without regard to inheritance never
  fails on sorted, non-overlapping rangelists, and leaves exactly the revisions of the
  whiteboard that the eraser does not have; the output is normalized.\<close>

theorem rangelist_remove_exact:
  assumes "rl_wf eraser" and "rl_wf whiteboard"
  shows "\<exists>out. svn_rangelist_remove eraser whiteboard False = Inr out \<and> rl_norm out
    \<and> rl_revs out = rl_revs whiteboard - rl_revs eraser"
  using remove_spec [OF assms] by metis

theorem rangelist_remove_exact_witness:
  "\<exists>out. svn_rangelist_remove [mrange 2 5 True, mrange 5 6 False]
       [mrange 1 4 False, mrange 4 9 True] False = Inr out \<and> rl_norm out
     \<and> rl_revs out = rl_revs [mrange 1 4 False, mrange 4 9 True]
         - rl_revs [mrange 2 5 True, mrange 5 6 False]"
  by (rule rangelist_remove_exact) (simp_all add: valid_range_iff)

text \<open>C21. The intersection of two sorted, non-overlapping rangelists without regard to
  inheritance holds exactly the revisions both have, in normalized form.\<close>

theorem rangelist_intersect_exact:
  assumes "rl_wf rl1" and "rl_wf rl2"
  shows "\<exists>out. svn_rangelist_intersect rl1 rl2 False = Inr out \<and> rl_norm out
    \<and> rl_revs out = rl_revs rl1 \<inter> rl_revs rl2"
  using intersect_spec [OF assms] by metis

theorem rangelist_intersect_exact_witness:
  "\<exists>out. svn_rangelist_intersect [mrange 2 5 True, mrange 7 12 False]
       [mrange 1 4 False, mrange 4 9 True] False = Inr out \<and> rl_norm out
     \<and> rl_revs out = rl_revs [mrange 2 5 True, mrange 7 12 False]
         \<inter> rl_revs [mrange 1 4 False, mrange 4 9 True]"
  by (rule rangelist_intersect_exact) (simp_all add: valid_range_iff)

text \<open>C32. Without regard to inheritance (\<open>consider_inheritance\<close> is \<open>FALSE\<close>) the two rangelists
  \<open>svn_rangelist_diff\<close> returns for sorted, non-overlapping rangelists are what was deleted and what
  was added: removing the first from \<open>from\<close> and adding the second gives the revisions of
  \<open>to\<close>, nothing is both deleted and added, and both are empty exactly when the two
  rangelists hold the same revisions.\<close>

theorem rangelist_diff_exact:
  assumes "rl_wf from_rl" and "rl_wf to_rl"
  shows "\<exists>deleted added. svn_rangelist_diff from_rl to_rl False = Inr (deleted, added)
    \<and> rl_norm deleted \<and> rl_norm added
    \<and> rl_revs to_rl = (rl_revs from_rl - rl_revs deleted) \<union> rl_revs added
    \<and> rl_revs deleted \<subseteq> rl_revs from_rl \<and> rl_revs deleted \<inter> rl_revs added = {}
    \<and> (deleted = [] \<and> added = [] \<longleftrightarrow> rl_revs from_rl = rl_revs to_rl)"
proof -
  obtain deleted added where d: "svn_rangelist_diff from_rl to_rl False = Inr (deleted, added)"
    "rl_norm deleted" "rl_norm added" "rl_revs deleted = rl_revs from_rl - rl_revs to_rl"
    "rl_revs added = rl_revs to_rl - rl_revs from_rl"
    by (rule diff_spec [OF assms])
  have "deleted = [] \<and> added = [] \<longleftrightarrow> rl_revs from_rl = rl_revs to_rl"
    using d rl_revs_empty_iff [OF rl_norm_wf [OF d(2)]] rl_revs_empty_iff [OF rl_norm_wf [OF d(3)]]
    by auto
  moreover have "rl_revs to_rl = (rl_revs from_rl - rl_revs deleted) \<union> rl_revs added"
    "rl_revs deleted \<subseteq> rl_revs from_rl \<and> rl_revs deleted \<inter> rl_revs added = {}"
    unfolding d(4,5) by blast+
  ultimately show ?thesis using d(1-3) by blast
qed

theorem rangelist_diff_exact_witness:
  "\<exists>deleted added. svn_rangelist_diff [mrange 1 6 True] [mrange 3 9 False] False = Inr (deleted, added)
    \<and> rl_norm deleted \<and> rl_norm added
    \<and> rl_revs [mrange 3 9 False] = (rl_revs [mrange 1 6 True] - rl_revs deleted) \<union> rl_revs added
    \<and> rl_revs deleted \<subseteq> rl_revs [mrange 1 6 True] \<and> rl_revs deleted \<inter> rl_revs added = {}
    \<and> (deleted = [] \<and> added = [] \<longleftrightarrow> rl_revs [mrange 1 6 True] = rl_revs [mrange 3 9 False])"
  by (rule rangelist_diff_exact) (simp_all add: valid_range_iff)

text \<open>C17. Canonicalizing forward ranges given in any order fails, with the parse error, exactly
  when two of them overlap and differ in inheritability; otherwise the result is sorted,
  its ranges do not overlap and no two adjoining ranges could be joined, and it holds the
  same inheritable and the same non-inheritable revisions.\<close>

theorem rangelist_canonicalize_correct:
  assumes "\<forall>r\<in>set rl. IS_VALID_FORWARD_RANGE r"
  shows "case svn_rangelist_canonicalize rl of
      Inl e \<Rightarrow> e = Mergeinfo_parse_error \<and> (\<exists>x\<in>set rl. \<exists>y\<in>set rl. conflicting x y)
    | Inr out \<Rightarrow> (\<forall>x\<in>set rl. \<forall>y\<in>set rl. \<not> conflicting x y) \<and> rl_canonical out
        \<and> rl_inh out = rl_inh rl \<and> rl_ninh out = rl_ninh rl"
proof (cases "svn_rangelist_canonicalize rl")
  case (Inl e)
  then have "\<exists>x\<in>set rl. \<exists>y\<in>set rl. conflicting x y"
    using canonicalize_error_iff [OF assms] by blast
  with Inl canonicalize_parse_error [OF Inl] show ?thesis by simp
next
  case (Inr out)
  then have "\<forall>x\<in>set rl. \<forall>y\<in>set rl. \<not> conflicting x y"
    using canonicalize_error_iff [OF assms] by auto
  with Inr canonicalize_Inr [OF Inr assms] show ?thesis by simp
qed

theorem rangelist_canonicalize_correct_witness:
  "case svn_rangelist_canonicalize [mrange 5 8 True, mrange 1 3 False, mrange 3 5 True] of
      Inl e \<Rightarrow> e = Mergeinfo_parse_error
        \<and> (\<exists>x\<in>set [mrange 5 8 True, mrange 1 3 False, mrange 3 5 True].
             \<exists>y\<in>set [mrange 5 8 True, mrange 1 3 False, mrange 3 5 True]. conflicting x y)
    | Inr out \<Rightarrow> (\<forall>x\<in>set [mrange 5 8 True, mrange 1 3 False, mrange 3 5 True].
             \<forall>y\<in>set [mrange 5 8 True, mrange 1 3 False, mrange 3 5 True]. \<not> conflicting x y)
        \<and> rl_canonical out
        \<and> rl_inh out = rl_inh [mrange 5 8 True, mrange 1 3 False, mrange 3 5 True]
        \<and> rl_ninh out = rl_ninh [mrange 5 8 True, mrange 1 3 False, mrange 3 5 True]"
  by (rule rangelist_canonicalize_correct) (simp add: valid_range_iff)

text \<open>Reversing a rangelist puts the ranges in the opposite order and exchanges the ends
  of each, inheritability unchanged; a second reversal restores it.\<close>

theorem rangelist_reverse_spec:
  "map (\<lambda>r. (mr_start r, mr_end r, mr_inheritable r)) (svn_rangelist_reverse rl)
     = rev (map (\<lambda>r. (mr_end r, mr_start r, mr_inheritable r)) rl)
   \<and> svn_rangelist_reverse (svn_rangelist_reverse rl) = rl"
  by (simp add: svn_rangelist_reverse_def array_reverse_rev range_swap_endpoints_def rev_map comp_def)

text \<open>\<open>svn_merge_range_contains_rev\<close> fails on the ranges it asserts against and no others;
  for forward and reverse ranges alike it counts the younger end and not the older one.\<close>

theorem contains_rev_total:
  "svn_merge_range_contains_rev r n =
     (if 0 \<le> mr_start r \<and> 0 \<le> mr_end r \<and> mr_start r \<noteq> mr_end r
      then Inr (min (mr_start r) (mr_end r) < n \<and> n \<le> max (mr_start r) (mr_end r))
      else Inl Assertion_fail)"
  by (auto simp: svn_merge_range_contains_rev_def IS_VALID_REVNUM_def svn_assert_def)

text \<open>With \<open>consider_inheritance\<close>, removal does not erase every revision the eraser
  and the whiteboard share with the same inheritability: past a range of the whiteboard
  that differs in inheritability, it goes on to the next range of the eraser, although
  the current one still reaches further ranges of the whiteboard.\<close>

theorem remove_ci_keeps_erased_range:
  "svn_rangelist_remove [mrange 0 10 True] [mrange 1 3 False, mrange 5 8 True] True
     = Inr [mrange 1 3 False, mrange 5 8 True]
   \<and> svn_rangelist_remove [mrange 0 10 True] [mrange 5 8 True] True = Inr []"
  by (simp add: svn_rangelist_remove_def rangelist_intersect_or_remove_def range_contains_def
      range_intersect_def svn_sort_compare_ranges_def iorr_push_untouched_def iorr_left_part_def
      combine_with_lastrange_def combine_ranges_def combine_considering_inheritance_def
      get_type_of_intersection_def IS_VALID_FORWARD_RANGE_def IS_VALID_REVNUM_def)

text \<open>\<open>svn_rangelist_inheritable2\<close> bounded to revisions 2 to 3 and asked for the
  inheritable ranges takes revision 3 out of an inheritable range and keeps it in a
  non-inheritable one, the opposite of what it does without bounds.\<close>

theorem inheritable2_bounded_removes_inheritable:
  "svn_rangelist_inheritable2 [mrange 0 5 True] 2 3 True = Inr [mrange 0 2 True, mrange 3 5 True]
   \<and> svn_rangelist_inheritable2 [mrange 0 5 False] 2 3 True = Inr [mrange 0 5 False]
   \<and> svn_rangelist_inheritable2 [mrange 0 5 True] (-1) (-1) True = Inr [mrange 0 5 True]
   \<and> svn_rangelist_inheritable2 [mrange 0 5 False] (-1) (-1) True = Inr []"
  by (simp add: svn_rangelist_inheritable2_def svn_rangelist_initialize_def svn_rangelist_remove_def
      rangelist_intersect_or_remove_def range_contains_def range_intersect_def
      svn_sort_compare_ranges_def iorr_push_untouched_def iorr_left_part_def
      combine_with_lastrange_def combine_ranges_def combine_considering_inheritance_def
      get_type_of_intersection_def IS_VALID_FORWARD_RANGE_def IS_VALID_REVNUM_def)

end
