(* ===== verification/Rangelist_Merge.thy ===== *)
theory Rangelist_Merge
  imports Rangelist
begin

text \<open>
  \<open>svn_rangelist_merge2\<close> and its helper \<open>adjust_remaining_ranges\<close>
  (\<open>libsvn_subr/mergeinfo.c\<close>): merging the ranges of one rangelist into another, in
  place. The array is a list, the cursors are indices into it.
\<close>

section \<open>Adjusting the ranges after a modified one\<close>

text \<open>
  \<open>adjust_loop rl m i del\<close> is the loop of \<open>adjust_remaining_ranges\<close>: \<open>m\<close> is the
  index of \<open>modified_range\<close>, \<open>i\<close> the index of \<open>next_range\<close>, \<open>del\<close> is
  \<open>elements_to_delete\<close>. The result holds the array, \<open>*range_index\<close> and
  \<open>elements_to_delete\<close>. The loop inserts the younger part of a split range at
  \<open>*range_index + 2\<close>, as the code does, also when \<open>i\<close> is not \<open>*range_index + 1\<close>.
\<close>

function (sequential)
  adjust_loop :: "rangelist \<Rightarrow> nat \<Rightarrow> nat \<Rightarrow> nat \<Rightarrow> (rangelist \<times> nat \<times> nat) svn_result"
and
  adjust_remaining_ranges :: "rangelist \<Rightarrow> nat \<Rightarrow> (rangelist \<times> nat) svn_result"
where
  "adjust_loop rangelist m i elements_to_delete =
     (if i < length rangelist
      then if mr_end (rangelist ! m) < mr_start (rangelist ! i)
           then Inr (rangelist, m, elements_to_delete)
           else if mr_end (rangelist ! m) = mr_start (rangelist ! i)
           then if mr_inheritable (rangelist ! m) = mr_inheritable (rangelist ! i)
                then Inr (rangelist[m := (rangelist ! m)\<lparr>mr_end := mr_end (rangelist ! i)\<rparr>], m,
                       Suc elements_to_delete)
                else Inr (rangelist, Suc m, elements_to_delete)
           else if mr_end (rangelist ! m) > mr_end (rangelist ! i)
           then if mr_inheritable (rangelist ! m)
                   \<or> mr_inheritable (rangelist ! m) = mr_inheritable (rangelist ! i)
                then adjust_loop rangelist m (Suc i) (Suc elements_to_delete)
                else svn_try
                       (svn_sort_array_insert
                          (mrange (mr_end (rangelist ! i)) (mr_end (rangelist ! m)) False)
                          (rangelist[m := (rangelist ! m)\<lparr>mr_end := mr_start (rangelist ! i)\<rparr>])
                          (m + 2))
                       (\<lambda>rangelist'.
                         svn_try (adjust_remaining_ranges rangelist' (m + 2))
                           (\<lambda>(rangelist'', range_index).
                             Inr (rangelist'', range_index, elements_to_delete)))
           else if mr_end (rangelist ! m) = mr_end (rangelist ! i)
           then if mr_inheritable (rangelist ! m)
                   \<or> mr_inheritable (rangelist ! m) = mr_inheritable (rangelist ! i)
                then Inr (rangelist, m, Suc elements_to_delete)
                else Inr (rangelist[m := (rangelist ! m)\<lparr>mr_end := mr_start (rangelist ! i)\<rparr>],
                       Suc m, elements_to_delete)
           else if mr_inheritable (rangelist ! m) = mr_inheritable (rangelist ! i)
           then Inr (rangelist[m := (rangelist ! m)\<lparr>mr_end := mr_end (rangelist ! i)\<rparr>], m,
                  Suc elements_to_delete)
           else if mr_inheritable (rangelist ! m)
           then Inr (rangelist[i := (rangelist ! i)\<lparr>mr_start := mr_end (rangelist ! m)\<rparr>],
                  Suc m, elements_to_delete)
           else Inr (rangelist[m := (rangelist ! m)\<lparr>mr_end := mr_start (rangelist ! i)\<rparr>],
                  Suc m, elements_to_delete)
      else Inr (rangelist, m, elements_to_delete))"
| "adjust_remaining_ranges rangelist range_index =
     (if range_index \<ge> length rangelist then Inr (rangelist, range_index)
      else svn_try (adjust_loop rangelist range_index (Suc range_index) 0)
             (\<lambda>(rangelist', range_index', elements_to_delete).
               Inr (if elements_to_delete > 0
                    then svn_sort_array_delete rangelist' (int (Suc range_index))
                           (int elements_to_delete)
                    else rangelist', range_index')))"
  by pat_completeness auto
termination
  by (relation "measures
        [\<lambda>x. case x of Inl (rl, m, _, _) \<Rightarrow> length rl - m | Inr (rl, m) \<Rightarrow> length rl - m,
         \<lambda>x. case x of Inl _ \<Rightarrow> 0 | Inr _ \<Rightarrow> 1,
         \<lambda>x. case x of Inl (rl, _, i, _) \<Rightarrow> length rl - i | Inr _ \<Rightarrow> 0]")
    (auto simp: svn_sort_array_insert_def split: if_splits)

declare adjust_loop.simps [simp del] adjust_remaining_ranges.simps [simp del]

section \<open>The merge loop\<close>

text \<open>
  One iteration, for \<open>range = rangelist[i]\<close> and the current \<open>change\<close>; \<open>rest\<close> are the
  changes after it. The result is the array, \<open>i\<close> and the changes still to merge, with
  \<open>change\<close> in its possibly truncated form at their head while \<open>j\<close> stays.
\<close>

definition merge2_younger ::
    "rangelist \<Rightarrow> nat \<Rightarrow> merge_range \<Rightarrow> rangelist \<Rightarrow> (rangelist \<times> nat \<times> rangelist) svn_result" where
  "merge2_younger rangelist i change rest =
     (let rng = rangelist ! i in
      if mr_end rng < mr_start change
      then Inr (rangelist, Suc i, change # rest)
      else if mr_end rng = mr_start change
      then if mr_inheritable rng = mr_inheritable change
           then svn_try (adjust_remaining_ranges (rangelist[i := rng\<lparr>mr_end := mr_end change\<rparr>]) i)
                  (\<lambda>(rangelist', i'). Inr (rangelist', i', rest))
           else Inr (rangelist, Suc i, change # rest)
      else if mr_inheritable rng = mr_inheritable change \<or> mr_inheritable rng
      then if mr_end rng \<ge> mr_end change
           then Inr (rangelist, i, rest)
           else Inr (rangelist, i, change\<lparr>mr_start := mr_end rng\<rparr> # rest)
      else if mr_start rng < mr_start change
      then svn_try (svn_sort_array_insert (rng\<lparr>mr_end := mr_start change\<rparr>)
                      (rangelist[i := rng\<lparr>mr_start := mr_start change\<rparr>]) i)
             (\<lambda>rangelist'. Inr (rangelist', Suc i, change # rest))
      else Inr (rangelist[i := rng\<lparr>mr_inheritable := True\<rparr>], i,
                change\<lparr>mr_start := mr_end rng\<rparr> # rest))"

text \<open>The case of an older, inheritable \<open>change\<close> that overlaps a non-inheritable range.\<close>

definition merge2_older_split ::
    "rangelist \<Rightarrow> nat \<Rightarrow> merge_range \<Rightarrow> rangelist \<Rightarrow> (rangelist \<times> nat \<times> rangelist) svn_result" where
  "merge2_older_split rangelist i change rest =
     (let rng = rangelist ! i in
      if mr_start change < mr_start rng
      then if mr_end change = mr_end rng
           then Inr (rangelist[i := rng\<lparr>mr_start := mr_start change, mr_inheritable := True\<rparr>], i, rest)
           else if mr_end change > mr_end rng
           then Inr (rangelist[i := rng\<lparr>mr_start := mr_start change, mr_inheritable := True\<rparr>], i,
                     change\<lparr>mr_start := mr_end rng\<rparr> # rest)
           else svn_try (svn_sort_array_insert (rng\<lparr>mr_start := mr_end change\<rparr>)
                           (rangelist[i := mrange (mr_start change) (mr_end change) True]) (Suc i))
                  (\<lambda>rangelist'. Inr (rangelist', Suc i, rest))
      else svn_try (svn_sort_array_insert (rng\<lparr>mr_end := mr_end change, mr_inheritable := True\<rparr>)
                      (rangelist[i := rng\<lparr>mr_start := mr_end change\<rparr>]) i)
             (\<lambda>rangelist'. Inr (rangelist', Suc i, rest)))"

definition merge2_older ::
    "rangelist \<Rightarrow> nat \<Rightarrow> merge_range \<Rightarrow> rangelist \<Rightarrow> (rangelist \<times> nat \<times> rangelist) svn_result" where
  "merge2_older rangelist i change rest =
     (let rng = rangelist ! i in
      if mr_end change < mr_start rng
      then svn_try (svn_sort_array_insert change rangelist i)
             (\<lambda>rangelist'. Inr (rangelist', Suc i, rest))
      else if mr_end change = mr_start rng
      then if mr_inheritable rng = mr_inheritable change
           then Inr (rangelist[i := rng\<lparr>mr_start := mr_start change\<rparr>], i, rest)
           else svn_try (svn_sort_array_insert change rangelist i)
                  (\<lambda>rangelist'. Inr (rangelist', i, rest))
      else if mr_inheritable rng = mr_inheritable change
      then if mr_end rng < mr_end change
           then svn_try (adjust_remaining_ranges
                  (rangelist[i := rng\<lparr>mr_start := mr_start change, mr_end := mr_end change\<rparr>]) i)
                  (\<lambda>(rangelist', i'). Inr (rangelist', i', rest))
           else Inr (rangelist[i := rng\<lparr>mr_start := mr_start change\<rparr>], i, rest)
      else if mr_inheritable rng
      then if mr_start change < mr_start rng
           then svn_try (svn_sort_array_insert (change\<lparr>mr_end := mr_start rng\<rparr>) rangelist i)
                  (\<lambda>rangelist'. Inr (rangelist', Suc i, change\<lparr>mr_start := mr_start rng\<rparr> # rest))
           else Inr (rangelist, i, rest)
      else merge2_older_split rangelist i change rest)"

definition merge2_step ::
    "rangelist \<Rightarrow> nat \<Rightarrow> merge_range \<Rightarrow> rangelist \<Rightarrow> (rangelist \<times> nat \<times> rangelist) svn_result" where
  "merge2_step rangelist i change rest =
     (let res = svn_sort_compare_ranges (rangelist ! i) change in
      if res = 0
      then Inr (if mr_inheritable (rangelist ! i) \<or> mr_inheritable change
                then rangelist[i := (rangelist ! i)\<lparr>mr_inheritable := True\<rparr>] else rangelist,
                Suc i, rest)
      else if res < 0 then merge2_younger rangelist i change rest
      else merge2_older rangelist i change rest)"

text \<open>
  The \<open>while\<close> loop. It may run for ever on ranges that are not forward, so not returning
  is \<open>None\<close>. The remaining changes are appended one by one at the end of the array.
\<close>

partial_function (option) merge2_loop ::
    "rangelist \<Rightarrow> nat \<Rightarrow> rangelist \<Rightarrow> rangelist svn_result option" where
  "merge2_loop rangelist i changes =
     (if i < length rangelist
      then (case changes of
              [] \<Rightarrow> Some (Inr rangelist)
            | change # rest \<Rightarrow>
                (case merge2_step rangelist i change rest of
                   Inl e \<Rightarrow> Some (Inl e)
                 | Inr (rangelist', i', changes') \<Rightarrow> merge2_loop rangelist' i' changes'))
      else Some (Inr (rangelist @ changes)))"

definition svn_rangelist_merge2 :: "rangelist \<Rightarrow> rangelist \<Rightarrow> rangelist svn_result option" where
  "svn_rangelist_merge2 rangelist changes = merge2_loop rangelist 0 changes"

lemma array_insert_at [simp]:
  "i = length xs \<Longrightarrow> svn_sort_array_insert x (xs @ ys) i = Inr (xs @ x # ys)"
  by (simp add: svn_sort_array_insert_def)

lemma ex4I: "P a b c d \<Longrightarrow> \<exists>a b c d. P a b c d"
  by blast

section \<open>Correctness of the merge\<close>

text \<open>
  An inheritable \<open>modified_range\<close> swallows what it covers of the ranges after it. The
  elements \<open>gone\<close> are the ones the loop has passed and that are deleted afterwards.
\<close>

lemma adjust_loop_ok:
  assumes "mr_inheritable md" and "rl_wf (pre @ [md])" and "rl_wf post"
    and "\<forall>x\<in>set post. mr_start md \<le> mr_start x"
  shows "\<exists>md' gone' post' m'.
    adjust_loop (pre @ md # gone @ post) (length pre) (Suc (length pre + length gone)) (length gone)
      = Inr (pre @ md' # gone' @ post', m', length gone')
    \<and> mr_inheritable md' \<and> rl_wf (pre @ md' # post')
    \<and> (m' = length pre \<or> m' = Suc (length pre) \<and> md' = md)
    \<and> rev_set md' \<union> rl_inh post' = rev_set md \<union> rl_inh post
    \<and> rev_set md' \<union> rl_revs post' = rev_set md \<union> rl_revs post"
  using assms(3,4)
proof (induction post arbitrary: gone)
  case Nil
  then show ?case using assms(1,2)
    by (intro ex4I [of _ md gone "[]" "length pre"]) (simp add: adjust_loop.simps)
next
  case (Cons nx post)
  let ?rl = "pre @ md # gone @ nx # post"
  let ?i = "Suc (length pre + length gone)"
  have nth: "?rl ! length pre = md" "?rl ! ?i = nx" "?i < length ?rl"
    by (simp_all add: nth_append)
  have upd: "?rl[length pre := x] = pre @ x # gone @ nx # post"
    "?rl[?i := x] = pre @ md # gone @ x # post" for x
    by (simp_all add: list_update_append)
  note step = adjust_loop.simps [of ?rl "length pre" ?i "length gone", unfolded nth(1,2) upd if_P [OF nth(3)]]
  have v: "mr_start md < mr_end md" "0 \<le> mr_start md" "mr_start nx < mr_end nx" "mr_start md \<le> mr_start nx"
    using assms(2) Cons.prems by (auto simp: valid_range_iff)
  have pp: "\<forall>x\<in>set pre. \<forall>y\<in>set post. mr_end x \<le> mr_start y"
    and chain: "c \<le> mr_end nx \<Longrightarrow> \<forall>y\<in>set post. c \<le> mr_start y" for c
    using assms(2) Cons.prems by (auto intro: order_trans)
  consider "mr_end md < mr_start nx" | "mr_end md = mr_start nx \<and> mr_inheritable nx"
    | "mr_end md = mr_start nx \<and> \<not> mr_inheritable nx"
    | "mr_end md > mr_end nx" | "mr_end md = mr_end nx"
    | "mr_start nx < mr_end md \<and> mr_end md < mr_end nx \<and> mr_inheritable nx"
    | "mr_start nx < mr_end md \<and> mr_end md < mr_end nx \<and> \<not> mr_inheritable nx"
    by linarith
  then show ?case
  proof cases
    case 1
    then show ?thesis using assms(1,2) Cons.prems v step pp chain [of "mr_end md"]
      by (intro ex4I [of _ md gone "nx # post"]) (auto simp: valid_range_iff)
  next
    case 2
    then show ?thesis using assms(1,2) Cons.prems v step pp chain [of "mr_end md"]
      by (intro ex4I [of _ "md\<lparr>mr_end := mr_end nx\<rparr>" "gone @ [nx]" post])
        (auto simp: valid_range_iff rev_set_def)
  next
    case 3
    then show ?thesis using assms(1,2) Cons.prems v step pp chain [of "mr_end md"]
      by (intro ex4I [of _ md gone "nx # post"]) (auto simp: valid_range_iff)
  next
    case 4
    then have "rev_set nx \<subseteq> rev_set md" using v by (auto simp: rev_set_def)
    moreover have "adjust_loop ?rl (length pre) ?i (length gone)
       = adjust_loop (pre @ md # (gone @ [nx]) @ post) (length pre)
           (Suc (length pre + length (gone @ [nx]))) (length (gone @ [nx]))"
      using step 4 v assms(1) by simp
    ultimately show ?thesis using Cons.IH [of "gone @ [nx]"] Cons.prems
      by (smt (verit) Un_absorb2 Un_assoc rl_inh_Cons rl_sets_simps(2) rl_wf_simps(2) list.set_intros(2) Un_empty_left)
  next
    case 5
    then have "rev_set nx \<subseteq> rev_set md" using v by (auto simp: rev_set_def)
    with 5 show ?thesis using assms(1,2) Cons.prems v step pp chain [of "mr_end md"]
      by (intro ex4I [of _ md "gone @ [nx]" post]) (auto simp: valid_range_iff)
  next
    case 6
    then show ?thesis using assms(1,2) Cons.prems v step pp chain [of "mr_end md"]
      by (intro ex4I [of _ "md\<lparr>mr_end := mr_end nx\<rparr>" "gone @ [nx]" post])
        (auto simp: valid_range_iff rev_set_def)
  next
    case 7
    then show ?thesis using assms(1,2) Cons.prems v step pp chain [of "mr_end md"]
      by (intro ex4I [of _ md gone "nx\<lparr>mr_start := mr_end md\<rparr> # post"])
        (auto simp: valid_range_iff rev_set_def)
  qed
qed

lemma adjust_ok:
  assumes "mr_inheritable md" and "rl_wf (pre @ [md])" and "rl_wf post"
    and "\<forall>x\<in>set post. mr_start md \<le> mr_start x"
  obtains md' post' m' where
    "adjust_remaining_ranges (pre @ md # post) (length pre) = Inr (pre @ md' # post', m')"
    and "mr_inheritable md'" and "rl_wf (pre @ md' # post')"
    and "m' = length pre \<or> m' = Suc (length pre) \<and> md' = md"
    and "rev_set md' \<union> rl_inh post' = rev_set md \<union> rl_inh post"
    and "rev_set md' \<union> rl_revs post' = rev_set md \<union> rl_revs post"
proof -
  obtain md' gone' post' m' where *: "adjust_loop (pre @ md # post) (length pre) (Suc (length pre)) 0
      = Inr (pre @ md' # gone' @ post', m', length gone')"
    and rest: "mr_inheritable md'" "rl_wf (pre @ md' # post')"
      "m' = length pre \<or> m' = Suc (length pre) \<and> md' = md"
      "rev_set md' \<union> rl_inh post' = rev_set md \<union> rl_inh post"
      "rev_set md' \<union> rl_revs post' = rev_set md \<union> rl_revs post"
    using adjust_loop_ok [OF assms, of "[]"] by auto
  have "svn_sort_array_delete ((pre @ [md']) @ gone' @ post') (int (length (pre @ [md']))) (int (length gone'))
      = (pre @ [md']) @ post'" if "gone' \<noteq> []"
    using that by (intro array_delete_mid) auto
  then have "adjust_remaining_ranges (pre @ md # post) (length pre) = Inr (pre @ md' # post', m')"
    using * by (simp add: adjust_remaining_ranges.simps [of "pre @ md # post"])
  with rest show thesis by (intro that) 
qed

definition merge_inv :: "rangelist \<Rightarrow> nat \<Rightarrow> rangelist \<Rightarrow> bool" where
  "merge_inv rl i cs \<longleftrightarrow> rl_wf rl \<and> rl_wf (take i rl @ cs) \<and> (\<forall>c\<in>set cs. mr_inheritable c)"

definition merge_phase :: "rangelist \<Rightarrow> nat \<Rightarrow> rangelist \<Rightarrow> nat" where
  "merge_phase rl i cs =
     (if i < length rl \<and> cs \<noteq> [] \<and> mr_start (hd cs) < mr_end (rl ! i)
      then if mr_start (rl ! i) < mr_start (hd cs) then 2 else 1 else 0)"

definition merge_measure :: "(rangelist \<times> nat \<times> rangelist) rel" where
  "merge_measure = measures [\<lambda>(_, _, cs). length cs, \<lambda>(rl, i, _). length rl - i,
     \<lambda>(rl, i, cs). merge_phase rl i cs]"

definition merge_keeps :: "rangelist \<Rightarrow> rangelist \<Rightarrow> rangelist \<Rightarrow> rangelist \<Rightarrow> bool" where
  "merge_keeps rl cs rl' cs' \<longleftrightarrow> rl_inh rl' \<union> rl_revs cs' = rl_inh rl \<union> rl_revs cs
     \<and> rl_revs rl' \<union> rl_revs cs' = rl_revs rl \<union> rl_revs cs"

definition merge_progress ::
    "rangelist \<Rightarrow> nat \<Rightarrow> rangelist \<Rightarrow> (rangelist \<times> nat \<times> rangelist) svn_result \<Rightarrow> bool" where
  "merge_progress rl i cs res \<longleftrightarrow> (\<exists>rl' i' cs'. res = Inr (rl', i', cs') \<and> merge_inv rl' i' cs'
     \<and> merge_keeps rl cs rl' cs' \<and> ((rl', i', cs'), (rl, i, cs)) \<in> merge_measure)"

lemma merge_inv_split:
  "merge_inv (pre @ post) (length pre) cs \<longleftrightarrow> rl_wf (pre @ post) \<and> rl_wf (pre @ cs)
     \<and> (\<forall>c\<in>set cs. mr_inheritable c)"
  by (simp add: merge_inv_def)

lemma merge_progressI:
  assumes "res = Inr (pre' @ post', length pre', cs')"
    and "rl_wf (pre' @ post')" and "rl_wf (pre' @ cs')" and "\<forall>c\<in>set cs'. mr_inheritable c"
    and "rl_inh (pre' @ post') \<union> rl_revs cs' = rl_inh rl \<union> rl_revs cs"
    and "rl_revs (pre' @ post') \<union> rl_revs cs' = rl_revs rl \<union> rl_revs cs"
    and "length cs' < length cs \<or> length cs' = length cs \<and>
      (length post' < length rl - i \<or> length post' = length rl - i \<and>
        merge_phase (pre' @ post') (length pre') cs' < merge_phase rl i cs)"
  shows "merge_progress rl i cs res"
  unfolding merge_progress_def assms(1) merge_keeps_def
  using assms(2-7)
  by (intro exI [of _ "pre' @ post'"] exI [of _ "length pre'"] exI [of _ cs'])
    (auto simp: merge_inv_split merge_measure_def)

text \<open>A change absorbed by the range it extends.\<close>

lemma merge_absorb_progress:
  assumes inv: "merge_inv (pre @ rng # post) (length pre) (c # cs)"
    and "mr_inheritable md" and "IS_VALID_FORWARD_RANGE md"
    and "mr_start md = min (mr_start rng) (mr_start c)" and "mr_end md = mr_end c"
    and "mr_end rng \<le> mr_end c" and "mr_inheritable rng" and "rev_set md = rev_set rng \<union> rev_set c"
  shows "merge_progress (pre @ rng # post) (length pre) (c # cs)
    (svn_try (adjust_remaining_ranges (pre @ md # post) (length pre))
      (\<lambda>(rangelist', i'). Inr (rangelist', i', cs)))"
proof -
  have wf: "rl_wf (pre @ [rng] @ post)" "rl_wf (pre @ [c] @ cs)" "\<forall>c\<in>set cs. mr_inheritable c"
    and c: "mr_inheritable c"
    using inv merge_inv_split [of pre "rng # post" "c # cs"] by auto
  have pre: "rl_wf (pre @ [md])" "rl_wf post" "\<forall>x\<in>set post. mr_start md \<le> mr_start x"
    using assms wf by (fastforce simp: valid_range_iff)+
  obtain md' post' m' where adj: "adjust_remaining_ranges (pre @ md # post) (length pre)
      = Inr (pre @ md' # post', m')"
    "mr_inheritable md'" "rl_wf (pre @ md' # post')"
    "m' = length pre \<or> m' = Suc (length pre) \<and> md' = md"
    "rev_set md' \<union> rl_inh post' = rev_set md \<union> rl_inh post"
    "rev_set md' \<union> rl_revs post' = rev_set md \<union> rl_revs post"
    by (rule adjust_ok [OF assms(2) pre])
  have eqs: "rl_inh (pre @ md' # post') \<union> rl_revs cs = rl_inh (pre @ rng # post) \<union> rl_revs (c # cs)"
     "rl_revs (pre @ md' # post') \<union> rl_revs cs = rl_revs (pre @ rng # post) \<union> rl_revs (c # cs)"
    using adj(2,5,6) assms(7,8) by auto
  consider "m' = length pre" | "m' = Suc (length pre)" "md' = md" using adj(4) by blast
  then show ?thesis
  proof cases
    case 1
    with adj(1) show ?thesis
      by (intro merge_progressI [of _ pre "md' # post'"]) (use adj(3) eqs wf in auto)
  next
    case 2
    with adj(1) show ?thesis
      by (intro merge_progressI [of _ "pre @ [md]" post']) (use adj(3) eqs wf assms(5) in auto)
  qed
qed

lemma rl_inh_all: "\<forall>c\<in>set cs. mr_inheritable c \<Longrightarrow> rl_inh cs = rl_revs cs"
  by (auto simp: rl_inh_def rl_revs_def)

lemma younger_progress:
  assumes inv: "merge_inv (pre @ rng # post) (length pre) (c # cs)"
    and lt: "svn_sort_compare_ranges rng c < 0"
  shows "merge_progress (pre @ rng # post) (length pre) (c # cs)
           (merge2_younger (pre @ rng # post) (length pre) c cs)"
proof -
  let ?rl = "pre @ rng # post" and ?i = "length pre"
  have wf: "rl_wf (pre @ [rng] @ post)" "rl_wf (pre @ [c] @ cs)" "\<forall>c\<in>set cs. mr_inheritable c"
    and c: "mr_inheritable c"
    using inv merge_inv_split [of pre "rng # post" "c # cs"] by auto
  have cmp: "mr_start rng < mr_start c \<or> mr_start rng = mr_start c \<and> mr_end rng < mr_end c"
    using lt by (auto simp: svn_sort_compare_ranges_def split: if_splits)
  note def = merge2_younger_def [of ?rl ?i c cs, simplified]
  consider "mr_end rng < mr_start c \<or> mr_end rng = mr_start c \<and> \<not> mr_inheritable rng"
    | "mr_end rng = mr_start c \<and> mr_inheritable rng"
    | "mr_start c < mr_end rng \<and> mr_inheritable rng \<and> mr_end c \<le> mr_end rng"
    | "mr_start c < mr_end rng \<and> mr_inheritable rng \<and> mr_end rng < mr_end c"
    | "mr_start c < mr_end rng \<and> \<not> mr_inheritable rng \<and> mr_start rng < mr_start c"
    | "mr_start c < mr_end rng \<and> \<not> mr_inheritable rng \<and> mr_start rng = mr_start c"
    using cmp by linarith
  then show ?thesis
  proof cases
    case 1
    then have "merge2_younger ?rl ?i c cs = Inr ((pre @ [rng]) @ post, length (pre @ [rng]), c # cs)"
      using c def by (auto simp: Let_def)
    then show ?thesis
      by (rule merge_progressI) (use 1 wf c in \<open>auto simp: merge_phase_def valid_range_iff\<close>)
  next
    case 2
    let ?md = "rng\<lparr>mr_end := mr_end c\<rparr>"
    have "rev_set ?md = rev_set rng \<union> rev_set c"
      using wf 2 cmp by (auto simp: rev_set_def valid_range_iff)
    then have "merge_progress ?rl ?i (c # cs) (svn_try (adjust_remaining_ranges (pre @ ?md # post) ?i)
        (\<lambda>(rangelist', i'). Inr (rangelist', i', cs)))"
      using wf 2 by (intro merge_absorb_progress [OF inv]) (auto simp: valid_range_iff)
    then show ?thesis using 2 c def by (simp add: Let_def)
  next
    case 3
    then have "merge2_younger ?rl ?i c cs = Inr (pre @ rng # post, length pre, cs)"
      using c def by (auto simp: Let_def)
    moreover have "rev_set c \<subseteq> rev_set rng" using 3 cmp by (auto simp: rev_set_def)
    ultimately show ?thesis
      by (intro merge_progressI [of _ pre "rng # post"]) (use 3 wf in auto)
  next
    case 4
    let ?b = "c\<lparr>mr_start := mr_end rng\<rparr>"
    show ?thesis
    proof (rule merge_progressI [of _ pre "rng # post" "?b # cs"])
      show "merge2_younger ?rl ?i c cs = Inr (pre @ rng # post, length pre, ?b # cs)"
        using 4 c def by (auto simp: Let_def)
      show "rl_wf (pre @ ?b # cs)" using wf 4 by (fastforce simp: valid_range_iff)
    qed (use 4 wf c cmp in \<open>auto simp: merge_phase_def rev_set_def\<close>)
  next
    case 5
    let ?a = "rng\<lparr>mr_end := mr_start c\<rparr>" and ?b = "rng\<lparr>mr_start := mr_start c\<rparr>"
    show ?thesis
    proof (rule merge_progressI [of _ "pre @ [?a]" "?b # post" "c # cs"])
      show "merge2_younger ?rl ?i c cs = Inr ((pre @ [?a]) @ ?b # post, length (pre @ [?a]), c # cs)"
        using 5 c def by (auto simp: Let_def list_update_append)
      show "rl_wf ((pre @ [?a]) @ ?b # post)" "rl_wf ((pre @ [?a]) @ c # cs)"
        using wf 5 by (fastforce simp: valid_range_iff)+
    qed (use 5 wf c cmp in \<open>auto simp: merge_phase_def rev_set_def nth_append\<close>)
  next
    case 6
    let ?a = "rng\<lparr>mr_inheritable := True\<rparr>" and ?b = "c\<lparr>mr_start := mr_end rng\<rparr>"
    show ?thesis
    proof (rule merge_progressI [of _ pre "?a # post" "?b # cs"])
      show "merge2_younger ?rl ?i c cs = Inr (pre @ ?a # post, length pre, ?b # cs)"
        using 6 c def by (auto simp: Let_def list_update_append)
      show "rl_wf (pre @ ?b # cs)" "rl_wf (pre @ ?a # post)"
        using wf 6 cmp by (fastforce simp: valid_range_iff)+
    qed (use 6 wf c cmp in \<open>auto simp: merge_phase_def rev_set_def valid_range_iff\<close>)
  qed
qed


lemma older_split_progress:
  assumes inv: "merge_inv (pre @ rng # post) (length pre) (c # cs)"
    and cmp: "mr_start c < mr_start rng \<or> mr_start rng = mr_start c \<and> mr_end c < mr_end rng"
    and meet: "mr_start rng < mr_end c" and ninh: "\<not> mr_inheritable rng"
  shows "merge_progress (pre @ rng # post) (length pre) (c # cs)
           (merge2_older_split (pre @ rng # post) (length pre) c cs)"
proof -
  let ?rl = "pre @ rng # post" and ?i = "length pre"
  have wf: "rl_wf (pre @ [rng] @ post)" "rl_wf (pre @ [c] @ cs)" "\<forall>c\<in>set cs. mr_inheritable c"
    and c: "mr_inheritable c"
    using inv merge_inv_split [of pre "rng # post" "c # cs"] by auto
  note def = merge2_older_split_def [of ?rl ?i c cs, simplified]
  consider "mr_start c < mr_start rng \<and> mr_end c = mr_end rng"
    | "mr_start c < mr_start rng \<and> mr_end rng < mr_end c"
    | "mr_start c < mr_start rng \<and> mr_end c < mr_end rng"
    | "mr_start c = mr_start rng \<and> mr_end c < mr_end rng"
    using cmp by linarith
  then show ?thesis
  proof cases
    case 1
    let ?a = "rng\<lparr>mr_start := mr_start c, mr_inheritable := True\<rparr>"
    show ?thesis
    proof (rule merge_progressI [of _ pre "?a # post" cs])
      show "merge2_older_split ?rl ?i c cs = Inr (pre @ ?a # post, length pre, cs)"
        using 1 def by (auto simp: Let_def list_update_append)
      show "rl_wf (pre @ ?a # post)" using wf 1 by (fastforce simp: valid_range_iff)
    qed (use 1 wf c ninh meet in \<open>auto simp: rev_set_def\<close>)
  next
    case 2
    let ?a = "rng\<lparr>mr_start := mr_start c, mr_inheritable := True\<rparr>"
    let ?b = "c\<lparr>mr_start := mr_end rng\<rparr>"
    show ?thesis
    proof (rule merge_progressI [of _ pre "?a # post" "?b # cs"])
      show "merge2_older_split ?rl ?i c cs = Inr (pre @ ?a # post, length pre, ?b # cs)"
        using 2 def by (auto simp: Let_def list_update_append)
      show "rl_wf (pre @ ?a # post)" "rl_wf (pre @ ?b # cs)"
        using wf 2 by (fastforce simp: valid_range_iff)+
    qed (use 2 wf c ninh meet in \<open>auto simp: rev_set_def merge_phase_def valid_range_iff\<close>)
  next
    case 3
    let ?a = "mrange (mr_start c) (mr_end c) True" and ?b = "rng\<lparr>mr_start := mr_end c\<rparr>"
    show ?thesis
    proof (rule merge_progressI [of _ "pre @ [?a]" "?b # post" cs])
      have "svn_sort_array_insert ?b ((pre @ [?a]) @ post) (Suc ?i) = Inr ((pre @ [?a]) @ ?b # post)"
        by (rule array_insert_at) simp
      then show "merge2_older_split ?rl ?i c cs
          = Inr ((pre @ [?a]) @ ?b # post, length (pre @ [?a]), cs)"
        using 3 def by (auto simp: Let_def list_update_append)
      show "rl_wf ((pre @ [?a]) @ ?b # post)" "rl_wf ((pre @ [?a]) @ cs)"
        using wf 3 by (fastforce simp: valid_range_iff)+
    qed (use 3 wf c ninh meet in \<open>auto simp: rev_set_def\<close>)
  next
    case 4
    let ?a = "rng\<lparr>mr_end := mr_end c, mr_inheritable := True\<rparr>" and ?b = "rng\<lparr>mr_start := mr_end c\<rparr>"
    show ?thesis
    proof (rule merge_progressI [of _ "pre @ [?a]" "?b # post" cs])
      show "merge2_older_split ?rl ?i c cs
          = Inr ((pre @ [?a]) @ ?b # post, length (pre @ [?a]), cs)"
        using 4 def by (auto simp: Let_def list_update_append)
      show "rl_wf ((pre @ [?a]) @ ?b # post)" "rl_wf ((pre @ [?a]) @ cs)"
        using wf 4 by (fastforce simp: valid_range_iff)+
    qed (use 4 wf c ninh meet in \<open>auto simp: rev_set_def\<close>)
  qed
qed

lemma older_progress:
  assumes inv: "merge_inv (pre @ rng # post) (length pre) (c # cs)"
    and gt: "svn_sort_compare_ranges rng c > 0"
  shows "merge_progress (pre @ rng # post) (length pre) (c # cs)
           (merge2_older (pre @ rng # post) (length pre) c cs)"
proof -
  let ?rl = "pre @ rng # post" and ?i = "length pre"
  have wf: "rl_wf (pre @ [rng] @ post)" "rl_wf (pre @ [c] @ cs)" "\<forall>c\<in>set cs. mr_inheritable c"
    and c: "mr_inheritable c"
    using inv merge_inv_split [of pre "rng # post" "c # cs"] by auto
  have cmp: "mr_start c < mr_start rng \<or> mr_start rng = mr_start c \<and> mr_end c < mr_end rng"
    using gt by (auto simp: svn_sort_compare_ranges_def split: if_splits)
  note def = merge2_older_def [of ?rl ?i c cs, simplified]
  let ?down = "rng\<lparr>mr_start := mr_start c\<rparr>"
  consider "mr_end c < mr_start rng"
    | "mr_end c = mr_start rng \<and> mr_inheritable rng"
    | "mr_end c = mr_start rng \<and> \<not> mr_inheritable rng"
    | "mr_start rng < mr_end c \<and> mr_inheritable rng \<and> mr_end rng < mr_end c"
    | "mr_start rng < mr_end c \<and> mr_inheritable rng \<and> mr_end c \<le> mr_end rng"
    | "mr_start rng < mr_end c \<and> \<not> mr_inheritable rng"
    by linarith
  then show ?thesis
  proof cases
    case 1
    show ?thesis
    proof (rule merge_progressI [of _ "pre @ [c]" "rng # post" cs])
      show "merge2_older ?rl ?i c cs = Inr ((pre @ [c]) @ rng # post, length (pre @ [c]), cs)"
        using 1 def by (auto simp: Let_def)
      show "rl_wf ((pre @ [c]) @ rng # post)" "rl_wf ((pre @ [c]) @ cs)"
        using wf 1 by (fastforce simp: valid_range_iff)+
    qed (use wf c in auto)
  next
    case 2
    show ?thesis
    proof (rule merge_progressI [of _ pre "?down # post" cs])
      show "merge2_older ?rl ?i c cs = Inr (pre @ ?down # post, length pre, cs)"
        using 2 c def by (auto simp: Let_def)
      show "rl_wf (pre @ ?down # post)" using wf 2 by (fastforce simp: valid_range_iff)
    qed (use 2 wf in \<open>auto simp: rev_set_def valid_range_iff\<close>)
  next
    case 3
    show ?thesis
    proof (rule merge_progressI [of _ pre "c # rng # post" cs])
      show "merge2_older ?rl ?i c cs = Inr (pre @ c # rng # post, length pre, cs)"
        using 3 c def by (auto simp: Let_def)
      show "rl_wf (pre @ c # rng # post)" using wf 3 by (fastforce simp: valid_range_iff)
    qed (use wf c in auto)
  next
    case 4
    let ?md = "rng\<lparr>mr_start := mr_start c, mr_end := mr_end c\<rparr>"
    have "merge_progress ?rl ?i (c # cs) (svn_try (adjust_remaining_ranges (pre @ ?md # post) ?i)
        (\<lambda>(rangelist', i'). Inr (rangelist', i', cs)))"
      using wf 4 cmp by (intro merge_absorb_progress [OF inv]) (auto simp: valid_range_iff rev_set_def)
    then show ?thesis using 4 c def by (simp add: Let_def)
  next
    case 5
    show ?thesis
    proof (rule merge_progressI [of _ pre "?down # post" cs])
      show "merge2_older ?rl ?i c cs = Inr (pre @ ?down # post, length pre, cs)"
        using 5 c def by (auto simp: Let_def)
      show "rl_wf (pre @ ?down # post)" using wf 5 cmp by (fastforce simp: valid_range_iff)
    qed (use 5 wf cmp in \<open>auto simp: rev_set_def valid_range_iff\<close>)
  next
    case 6
    then show ?thesis using older_split_progress [OF inv cmp] c def by (auto simp: Let_def)
  qed
qed

lemma equal_progress:
  assumes inv: "merge_inv (pre @ rng # post) (length pre) (c # cs)"
    and eq: "svn_sort_compare_ranges rng c = 0"
  shows "merge_progress (pre @ rng # post) (length pre) (c # cs)
           (merge2_step (pre @ rng # post) (length pre) c cs)"
proof -
  have wf: "rl_wf (pre @ [rng] @ post)" "rl_wf (pre @ [c] @ cs)" "\<forall>c\<in>set cs. mr_inheritable c"
    and c: "mr_inheritable c"
    using inv merge_inv_split [of pre "rng # post" "c # cs"] by auto
  have same: "mr_start rng = mr_start c" "mr_end rng = mr_end c"
    using eq by (auto simp: svn_sort_compare_ranges_def split: if_splits)
  let ?a = "rng\<lparr>mr_inheritable := True\<rparr>"
  show ?thesis
  proof (rule merge_progressI [of _ "pre @ [?a]" post cs])
    show "merge2_step (pre @ rng # post) (length pre) c cs
        = Inr ((pre @ [?a]) @ post, length (pre @ [?a]), cs)"
      using eq c by (simp add: merge2_step_def)
  qed (use wf c same in \<open>auto simp: rev_set_def valid_range_iff\<close>)
qed

lemma merge2_step_progress:
  assumes "merge_inv rl i (c # cs)" and "i < length rl"
  shows "merge_progress rl i (c # cs) (merge2_step rl i c cs)"
proof -
  obtain pre rng post where rl: "rl = pre @ rng # post" "length pre = i"
    using assms(2) by (rule list_split_at)
  have inv: "merge_inv (pre @ rng # post) (length pre) (c # cs)" using assms(1) rl by simp
  have "svn_sort_compare_ranges rng c = 0 \<or> svn_sort_compare_ranges rng c < 0
    \<or> svn_sort_compare_ranges rng c > 0"
    by linarith
  then show ?thesis
    using equal_progress [OF inv] younger_progress [OF inv] older_progress [OF inv] rl
    by (auto simp: merge2_step_def)
qed

lemma merge2_loop_ok:
  assumes "merge_inv rl i cs"
  shows "\<exists>out. merge2_loop rl i cs = Some (Inr out) \<and> rl_wf out
    \<and> rl_inh out = rl_inh rl \<union> rl_revs cs \<and> rl_revs out = rl_revs rl \<union> rl_revs cs"
proof -
  have "wf merge_measure" by (simp add: merge_measure_def)
  then show ?thesis using assms
  proof (induction "(rl, i, cs)" arbitrary: rl i cs rule: wf_induct_rule)
    case less
    show ?case
    proof (cases "i < length rl \<and> cs \<noteq> []")
      case True
      then obtain c rest where cs: "cs = c # rest" by (cases cs) auto
      obtain rl' i' cs' where "merge2_step rl i c rest = Inr (rl', i', cs')"
        and "merge_inv rl' i' cs'" and "merge_keeps rl cs rl' cs'"
        and "((rl', i', cs'), (rl, i, cs)) \<in> merge_measure"
        using merge2_step_progress [of rl i c rest] less.prems True unfolding cs merge_progress_def
        by blast
      with less.hyps [of rl' i' cs'] True cs show ?thesis
        by (simp add: merge2_loop.simps [of rl] merge_keeps_def)
    next
      case False
      with less.prems show ?thesis
        by (cases cs)
          (auto simp: merge2_loop.simps [of rl] merge_inv_def rl_inh_all)
    qed
  qed
qed

lemma merge2_spec:
  assumes "rl_wf rl" and "rl_wf changes" and "\<forall>c\<in>set changes. mr_inheritable c"
  shows "\<exists>out. svn_rangelist_merge2 rl changes = Some (Inr out) \<and> rl_wf out
    \<and> rl_inh out = rl_inh rl \<union> rl_revs changes \<and> rl_ninh out = rl_ninh rl - rl_revs changes"
proof -
  obtain out where out: "merge2_loop rl 0 changes = Some (Inr out)" "rl_wf out"
    "rl_inh out = rl_inh rl \<union> rl_revs changes" "rl_revs out = rl_revs rl \<union> rl_revs changes"
    using merge2_loop_ok [of rl 0 changes] assms by (auto simp: merge_inv_def)
  have "rl_ninh out = rl_revs out - rl_inh out"
    using rl_wf_disjoint [OF out(2)] rl_revs_split [of out] by blast
  moreover have "rl_ninh rl = rl_revs rl - rl_inh rl"
    using rl_wf_disjoint [OF assms(1)] rl_revs_split [of rl] by blast
  ultimately show ?thesis using out by (auto simp: svn_rangelist_merge2_def)
qed

section \<open>Properties\<close>

text \<open>Unfolding of the merge, for concrete rangelists.\<close>

lemmas merge2_eval = svn_rangelist_merge2_def merge2_loop.simps merge2_step_def merge2_younger_def
  merge2_older_def merge2_older_split_def adjust_loop.simps adjust_remaining_ranges.simps
  svn_sort_compare_ranges_def svn_sort_array_insert_def svn_sort_array_delete_def Let_def

text \<open>C4. Merging inheritable changes into any rangelist: the loop ends, no array index is out
  of bounds, the result is sorted without overlaps, its inheritable revisions are those of
  the rangelist and of the changes, and exactly the non-inheritable revisions that no change
  covers stay non-inheritable.\<close>

theorem rangelist_merge2_correct:
  assumes "rl_wf rl" and "rl_wf changes" and "\<forall>c\<in>set changes. mr_inheritable c"
  shows "\<exists>out. svn_rangelist_merge2 rl changes = Some (Inr out) \<and> rl_wf out
    \<and> rl_inh out = rl_inh rl \<union> rl_revs changes \<and> rl_ninh out = rl_ninh rl - rl_revs changes"
  by (rule merge2_spec [OF assms])

theorem rangelist_merge2_correct_witness:
  "\<exists>out. svn_rangelist_merge2 [mrange 2 5 False, mrange 7 9 True] [mrange 3 8 True] = Some (Inr out)
    \<and> rl_wf out
    \<and> rl_inh out = rl_inh [mrange 2 5 False, mrange 7 9 True] \<union> rl_revs [mrange 3 8 True]
    \<and> rl_ninh out = rl_ninh [mrange 2 5 False, mrange 7 9 True] - rl_revs [mrange 3 8 True]"
  by (rule rangelist_merge2_correct) (simp_all add: valid_range_iff)

text \<open>Merging a non-inheritable change can corrupt the rangelist: when the extended range
  has swallowed a range before it reaches an inheritable one, the younger part of the split
  is inserted at a fixed distance, one place too early, and a range whose start is younger
  than its end results.\<close>

theorem merge2_noninheritable_corrupts:
  "svn_rangelist_merge2 [mrange 4 10 False, mrange 11 13 False, mrange 14 16 True] [mrange 4 20 False]
     = Some (Inr [mrange 4 14 False, mrange 16 14 False, mrange 14 16 True, mrange 16 20 False])
   \<and> rl_canonical [mrange 4 10 False, mrange 11 13 False, mrange 14 16 True]
   \<and> \<not> rl_wf [mrange 4 14 False, mrange 16 14 False, mrange 14 16 True, mrange 16 20 False]"
  by (simp add: merge2_eval rl_canonical_def valid_range_iff)

text \<open>The merge of two rangelists that cannot be shortened need not be the shortest one:
  a change that makes a range inheritable leaves it beside the inheritable range it adjoins.\<close>

theorem merge2_not_compacted:
  "svn_rangelist_merge2 [mrange 1 3 False, mrange 3 5 True] [mrange 1 3 True]
     = Some (Inr [mrange 1 3 True, mrange 3 5 True])
   \<and> rl_canonical [mrange 1 3 False, mrange 3 5 True]
   \<and> \<not> rl_canonical [mrange 1 3 True, mrange 3 5 True]"
  by (simp add: merge2_eval rl_canonical_def valid_range_iff)

end
