(* ===== verification/Svn_Paths.thy ===== *)
theory Svn_Paths
  imports Svn_Sorts "HOL-Library.List_Lexorder" "HOL-Library.Sublist"
begin

text \<open>
  Paths: the order \<open>svn_path_compare_paths\<close> (\<open>libsvn_subr/path.c\<close>) and the relpath, dirent
  and fspath functions of \<open>libsvn_subr/dirent_uri.c\<close>, in the configuration without
  \<open>SVN_USE_DOS_PATHS\<close>. A C string is the list of its characters before the terminating NUL,
  a pointer into it the suffix it points at; a substring returned with its own
  terminator is a list. \<open>assert\<close> statements are no branches of the code, the lemmas name
  what they ask for.
\<close>

abbreviation slash :: char where "slash \<equiv> CHR 0x2F"
abbreviation dot :: char where "dot \<equiv> CHR 0x2E"
abbreviation NUL :: char where "NUL \<equiv> CHR 0x00"

type_synonym cstring = string

definition no_nul :: "cstring \<Rightarrow> bool" where "no_nul p \<longleftrightarrow> NUL \<notin> set p"

text \<open>\<open>p[i]\<close>, which is NUL at the end of the string.\<close>

definition char_at :: "cstring \<Rightarrow> nat \<Rightarrow> char" where
  "char_at p i = (if i < length p then p ! i else NUL)"

lemma char_at_simps [simp]:
  "char_at [] i = NUL" "char_at (c # p) 0 = c" "char_at (c # p) (Suc i) = char_at p i"
  by (simp_all add: char_at_def)

section \<open>Comparison\<close>

text \<open>The common prefix is skipped by recursion; the arguments are \<open>path1 + i\<close> and \<open>path2 + i\<close>.\<close>

fun svn_path_compare_paths :: "cstring \<Rightarrow> cstring \<Rightarrow> int" where
  "svn_path_compare_paths path1 path2 =
     (if path1 \<noteq> [] \<and> path2 \<noteq> [] \<and> char_at path1 0 = char_at path2 0
      then svn_path_compare_paths (tl path1) (tl path2)
      else if path1 = [] \<and> path2 = [] then 0
      else if char_at path1 0 = slash \<and> char_at path2 0 = NUL then 1
      else if char_at path2 0 = slash \<and> char_at path1 0 = NUL then -1
      else if char_at path1 0 = slash then -1
      else if char_at path2 0 = slash then 1
      else if (of_char (char_at path1 0) :: nat) < of_char (char_at path2 0) then -1 else 1)"

declare svn_path_compare_paths.simps [simp del]

text \<open>Entries of a hash compared by key, for \<open>svn_sort__hash\<close>.\<close>

definition svn_sort_compare_items_as_paths :: "cstring \<times> 'v \<Rightarrow> cstring \<times> 'v \<Rightarrow> int" where
  "svn_sort_compare_items_as_paths a b = svn_path_compare_paths (fst a) (fst b)"

definition svn_sort_compare_paths :: "cstring \<Rightarrow> cstring \<Rightarrow> int" where
  "svn_sort_compare_paths item1 item2 = svn_path_compare_paths item1 item2"

text \<open>\<open>memcmp\<close> of the shorter length, then the lengths: the order of \<open>strcmp\<close>.\<close>

fun memcmp :: "cstring \<Rightarrow> cstring \<Rightarrow> int" where
  "memcmp (c # p) (d # q) =
     (if c = d then memcmp p q else if (of_char c :: nat) < of_char d then -1 else 1)"
| "memcmp p q = 0"

definition svn_sort_compare_items_lexically :: "cstring \<times> 'v \<Rightarrow> cstring \<times> 'v \<Rightarrow> int" where
  "svn_sort_compare_items_lexically a b =
     (let val = memcmp (fst a) (fst b) in
      if val \<noteq> 0 then val
      else if length (fst a) < length (fst b) then -1
      else if length (fst b) < length (fst a) then 1 else 0)"

text \<open>The position of a character in the order: the end, the slash, then the byte values.\<close>

definition path_rank :: "char \<Rightarrow> nat" where
  "path_rank c = (if c = slash then 0 else Suc (of_char c))"

lemma path_rank_inj [simp]: "path_rank c = path_rank d \<longleftrightarrow> c = d"
  by (auto simp: path_rank_def)

lemma path_rank_slash [simp]: "path_rank slash = 0" "path_rank c = 0 \<longleftrightarrow> c = slash"
  by (auto simp: path_rank_def)

lemma of_char_0 [simp]: "(of_char c :: nat) = 0 \<longleftrightarrow> c = NUL"
proof -
  have "(of_char NUL :: nat) = 0" by simp
  then show ?thesis by (metis of_char_eq_iff)
qed

lemma compare_paths_same [simp]:
  "svn_path_compare_paths (c # p) (c # q) = svn_path_compare_paths p q"
  by (simp add: svn_path_compare_paths.simps [of "c # p"])

lemma compare_paths_rank:
  assumes "no_nul p" and "no_nul q"
  shows "(svn_path_compare_paths p q < 0 \<longleftrightarrow> map path_rank p < map path_rank q)
    \<and> (svn_path_compare_paths p q = 0 \<longleftrightarrow> p = q)"
  using assms
proof (induction p arbitrary: q)
  case Nil
  then show ?case
    by (cases q) (auto simp: svn_path_compare_paths.simps [of "[]"] no_nul_def Let_def)
next
  case (Cons c p)
  show ?case
  proof (cases q)
    case Nil
    with Cons.prems show ?thesis
      by (auto simp: svn_path_compare_paths.simps [of "c # p"] no_nul_def)
  next
    case (Cons d q')
    have n: "c \<noteq> NUL" "d \<noteq> NUL" "no_nul p" "no_nul q'"
      using Cons.prems Cons by (auto simp: no_nul_def)
    show ?thesis
    proof (cases "c = d")
      case True
      then show ?thesis using Cons.IH [OF n(3,4)] Cons by simp
    next
      case False
      then have "(of_char c :: nat) \<noteq> of_char d" by simp
      with False n Cons show ?thesis
        by (auto simp: svn_path_compare_paths.simps [of "c # p"] path_rank_def)
    qed
  qed
qed

lemmas compare_paths_less = compare_paths_rank [THEN conjunct1]
lemmas compare_paths_eq = compare_paths_rank [THEN conjunct2]

lemma compare_paths_le:
  assumes "no_nul p" and "no_nul q"
  shows "svn_path_compare_paths p q \<le> 0 \<longleftrightarrow> map path_rank p \<le> map path_rank q"
proof -
  have "map path_rank p = map path_rank q \<longleftrightarrow> p = q"
    by (rule inj_map_eq_map) (auto simp: inj_def)
  then show ?thesis
    using compare_paths_rank [OF assms] by (auto simp: le_less)
qed

interpretation path_cmp: comparator svn_path_compare_paths no_nul
proof
  fix x y z
  show "svn_path_compare_paths x y < 0 \<longleftrightarrow> 0 < svn_path_compare_paths y x"
    if "no_nul x" "no_nul y"
    using that compare_paths_less [of x y] compare_paths_le [of y x] by (simp add: not_le [symmetric])
  show "svn_path_compare_paths x z \<le> 0"
    if "no_nul x" "no_nul y" "no_nul z" "svn_path_compare_paths x y \<le> 0" "svn_path_compare_paths y z \<le> 0"
    using that by (simp add: compare_paths_le)
qed

interpretation item_cmp: comparator svn_sort_compare_items_as_paths "\<lambda>item. no_nul (fst item)"
  by unfold_locales
    (auto simp: svn_sort_compare_items_as_paths_def path_cmp.cmp_anti intro: path_cmp.cmp_trans)

section \<open>Canonicalization\<close>

datatype path_type = Type_uri | Type_dirent | Type_relpath

definition canonicalize_to_lower :: "char \<Rightarrow> char" where
  "canonicalize_to_lower c =
     (if (of_char c :: nat) < 0x41 \<or> of_char c > (0x5A :: nat) then c
      else char_of (of_char c - 0x41 + 0x61 :: nat))"

definition canonicalize_to_upper :: "char \<Rightarrow> char" where
  "canonicalize_to_upper c =
     (if (of_char c :: nat) < 0x61 \<or> of_char c > (0x7A :: nat) then c
      else char_of (of_char c - 0x61 + 0x41 :: nat))"

text \<open>\<open>*next\<close> ends a segment: the end of the string, a slash or, in a URI, \<open>%2F\<close>.\<close>

definition at_separator :: "path_type \<Rightarrow> cstring \<Rightarrow> bool" where
  "at_separator ty nxt \<longleftrightarrow> char_at nxt 0 = slash
     \<or> ty = Type_uri \<and> char_at nxt 0 = CHR ''%'' \<and> char_at nxt 1 = CHR ''2''
       \<and> canonicalize_to_upper (char_at nxt 2) = CHR ''F''"

fun next_segment :: "path_type \<Rightarrow> cstring \<Rightarrow> cstring \<times> cstring" where
  "next_segment ty [] = ([], [])"
| "next_segment ty (c # src) =
     (if at_separator ty (c # src) then ([], c # src)
      else let (seg, nxt) = next_segment ty src in (c # seg, nxt))"

definition slash_len :: "path_type \<Rightarrow> cstring \<Rightarrow> nat" where
  "slash_len ty nxt = (if char_at nxt 0 = slash then 1
     else if ty = Type_uri \<and> char_at nxt 0 = CHR ''%'' then 3 else 0)"

definition noop_segment :: "path_type \<Rightarrow> cstring \<Rightarrow> bool" where
  "noop_segment ty seg \<longleftrightarrow> length seg = 0 \<or> length seg = 1 \<and> char_at seg 0 = dot
     \<or> ty = Type_uri \<and> length seg = 3 \<and> char_at seg 0 = CHR ''%'' \<and> char_at seg 1 = CHR ''2''
       \<and> canonicalize_to_upper (char_at seg 2) = CHR ''E''"

lemma next_segment_append: "next_segment ty src = (seg, nxt) \<Longrightarrow> src = seg @ nxt"
  by (induction src arbitrary: seg) (auto split: if_splits prod.splits)

lemma next_segment_rest:
  "next_segment ty src = (seg, nxt) \<Longrightarrow> nxt \<noteq> [] \<Longrightarrow> at_separator ty nxt"
  by (induction src arbitrary: seg) (auto split: if_splits prod.splits)

lemma segment_shorter:
  assumes "(seg, nxt) = next_segment ty src" and "src \<noteq> []"
  shows "length nxt - slash_len ty nxt < length src"
proof (cases "nxt = []")
  case False
  then have "0 < slash_len ty nxt"
    using next_segment_rest [OF assms(1) [symmetric]] by (auto simp: slash_len_def at_separator_def)
  with False next_segment_append [OF assms(1) [symmetric]] show ?thesis by (cases nxt) auto
qed (use assms in simp)

function canon_segments ::
    "path_type \<Rightarrow> cstring \<Rightarrow> cstring \<Rightarrow> nat \<Rightarrow> cstring \<times> nat" where
  "canon_segments ty src dst n =
     (if src = [] then (dst, n)
      else let (seg, nxt) = next_segment ty src; slen = slash_len ty nxt in
        if noop_segment ty seg then canon_segments ty (drop slen nxt) dst n
        else canon_segments ty (drop slen nxt)
               (dst @ seg @ (if slen > 0 then [slash] else [])) (Suc n))"
  by pat_completeness auto
termination
  by (relation "measure (\<lambda>(ty, src, dst, n). length src)") (auto intro: segment_shorter)

declare canon_segments.simps [simp del]

text \<open>
  The scheme, user, host and port of a URI: what is left of \<open>src\<close>, \<open>dst\<close> so far,
  \<open>schemelen\<close> and the offset of \<open>schema_data\<close> in \<open>dst\<close>. \<open>None\<close> when the path does not
  start with a scheme.
\<close>

definition is_prefix :: "cstring \<Rightarrow> cstring \<Rightarrow> bool" where
  "is_prefix p s \<longleftrightarrow> take (length p) s = p"

definition hex_or_colon :: "char \<Rightarrow> bool" where
  "hex_or_colon c \<longleftrightarrow> c \<in> set ''0123456789abcdefABCDEF:''"

definition canon_host :: "cstring \<Rightarrow> cstring \<Rightarrow> cstring \<times> cstring" where
  "canon_host src dst =
     (if char_at src 0 = CHR ''[''
      then let inner = takeWhile hex_or_colon (tl src); rest = dropWhile hex_or_colon (tl src);
               dst = dst @ CHR ''['' # map canonicalize_to_lower inner
           in if char_at rest 0 = CHR '']'' then (tl rest, dst @ '']'') else (rest, dst)
      else let P = (\<lambda>c. c \<noteq> slash \<and> c \<noteq> CHR '':'')
           in (dropWhile P src, dst @ map canonicalize_to_lower (takeWhile P src)))"

definition canon_port :: "cstring \<Rightarrow> cstring \<Rightarrow> cstring \<times> cstring" where
  "canon_port src dst =
     (if char_at src 0 = CHR '':''
      then let src =
             (if is_prefix '':80'' src \<and> char_at src 3 \<in> {slash, NUL} \<and> is_prefix ''http:'' dst
              then drop 3 src
              else if is_prefix '':443'' src \<and> char_at src 4 \<in> {slash, NUL} \<and> is_prefix ''https:'' dst
              then drop 4 src
              else if is_prefix '':3690'' src \<and> char_at src 5 \<in> {slash, NUL} \<and> is_prefix ''svn:'' dst
              then drop 5 src
              else if char_at src 1 \<in> {slash, NUL} then drop 1 src else src)
           in (dropWhile (\<lambda>c. c \<noteq> slash) src,
               dst @ map canonicalize_to_lower (takeWhile (\<lambda>c. c \<noteq> slash) src))
      else (src, dst))"

definition canon_uri_head :: "cstring \<Rightarrow> (cstring \<times> cstring \<times> nat \<times> nat option) option" where
  "canon_uri_head path =
     (let P = (\<lambda>c. c \<noteq> slash \<and> c \<noteq> CHR '':'');
          scheme = takeWhile P path; src = dropWhile P path
      in if is_prefix ''://'' src
         then let dst = map canonicalize_to_lower scheme @ ''://''; schemelen = length dst;
                  src = drop 3 src;
                  Q = (\<lambda>c. c \<noteq> slash \<and> c \<noteq> CHR ''@''); user = takeWhile Q src; rest = dropWhile Q src;
                  (src, dst) = (if char_at rest 0 = CHR ''@'' then (tl rest, dst @ user @ ''@'')
                                else (src, dst));
                  (src, dst) = canon_host src dst;
                  (src, dst) = canon_port src dst
              in Some (if src = [] then ([], dst, schemelen, None)
                       else (tl src, dst @ [hd src], schemelen, Some (Suc (length dst))))
         else None)"

text \<open>\<open>svn_uri__char_validity\<close>, as the list of the characters with entry 1.\<close>

definition svn_uri_char_validity :: "char \<Rightarrow> bool" where
  "svn_uri_char_validity c \<longleftrightarrow> c \<in> set (''!$&'' @ [CHR 0x27] @ ''()*+,-./0123456789:=@''
     @ ''ABCDEFGHIJKLMNOPQRSTUVWXYZ_abcdefghijklmnopqrstuvwxyz~'')"

definition svn_ctype_isxdigit :: "char \<Rightarrow> bool" where
  "svn_ctype_isxdigit c \<longleftrightarrow> c \<in> set ''0123456789abcdefABCDEF''"

text \<open>The value of one digit in \<open>strtol (digitz, NULL, 16)\<close>, and the digits of \<open>%02X\<close>.\<close>

definition hex_value :: "char \<Rightarrow> nat" where
  "hex_value c = (let n = of_char c in
     if n \<le> 0x39 then n - 0x30 else if n \<le> 0x46 then n - 0x41 + 10 else n - 0x61 + 10)"

definition hex_char :: "nat \<Rightarrow> char" where
  "hex_char n = char_of (if n < 10 then n + 0x30 else n - 10 + 0x41)"

definition percent_hex :: "char \<Rightarrow> cstring" where
  "percent_hex c = [CHR ''%'', hex_char (of_char c div 16), hex_char (of_char c mod 16)]"

definition hex_pair :: "char \<Rightarrow> char \<Rightarrow> char" where
  "hex_pair a b = char_of (hex_value a * 16 + hex_value b)"

text \<open>The characters from \<open>schema_data\<close> on.\<close>

fun normalize_uri_chars :: "cstring \<Rightarrow> cstring" where
  "normalize_uri_chars [] = []"
| "normalize_uri_chars (c # src) =
     (if c = slash then slash # normalize_uri_chars src
      else if c = CHR ''%''
      then if \<not> svn_ctype_isxdigit (char_at src 0) \<or> \<not> svn_ctype_isxdigit (char_at src 1)
           then ''%25'' @ normalize_uri_chars src
           else (let v = hex_pair (char_at src 0) (char_at src 1) in
             if svn_uri_char_validity v then v # normalize_uri_chars (drop 2 src)
             else [CHR ''%'', canonicalize_to_upper (char_at src 0),
                   canonicalize_to_upper (char_at src 1)] @ normalize_uri_chars (drop 2 src))
      else if \<not> svn_uri_char_validity c then percent_hex c @ normalize_uri_chars src
      else c # normalize_uri_chars src)"

text \<open>
  \<open>canonicalize\<close>. \<open>None\<close> is the assertion that an empty path is no URI, and the one that
  a URI does not begin with a slash.
\<close>

definition canonicalize :: "path_type \<Rightarrow> cstring \<Rightarrow> cstring option" where
  "canonicalize ty path =
     (if path = [] then (if ty = Type_uri then None else Some [])
      else if ty = Type_uri \<and> hd path = slash then None
      else let head = (if ty = Type_uri then canon_uri_head path else None);
        (src, dst, schemelen, schema_data, n) =
          (case head of
             Some (src, dst, schemelen, schema_data) \<Rightarrow> (src, dst, schemelen, schema_data, 1)
           | None \<Rightarrow> if ty \<noteq> Type_relpath \<and> hd path = slash
                     then (tl path, [slash], 0, None, 0) else (path, [], 0, None, 0));
        (dst, n) = canon_segments ty src dst n;
        dst = (if n > 0 \<and> dst \<noteq> [] \<and> last dst = slash \<and> \<not> (head \<noteq> None \<and> char_at path schemelen = NUL)
               then butlast dst else dst)
      in Some (case schema_data of None \<Rightarrow> dst
               | Some k \<Rightarrow> take k dst @ normalize_uri_chars (drop k dst)))"

definition svn_relpath_canonicalize :: "cstring \<Rightarrow> cstring" where
  "svn_relpath_canonicalize relpath = the (canonicalize Type_relpath relpath)"

definition svn_dirent_canonicalize :: "cstring \<Rightarrow> cstring" where
  "svn_dirent_canonicalize dirent = the (canonicalize Type_dirent dirent)"

definition svn_fspath_canonicalize :: "cstring \<Rightarrow> cstring" where
  "svn_fspath_canonicalize fspath =
     (if char_at fspath 0 = slash \<and> char_at fspath 1 = NUL then [slash]
      else slash # svn_relpath_canonicalize fspath)"

text \<open>
  The loop of \<open>relpath_is_canonical\<close>, over \<open>ptr\<close> and the segment from \<open>seg\<close> to it. At the
  end of the string \<open>ptr[-1]\<close> is a slash exactly if that segment is empty.
\<close>

function relpath_canonical_loop :: "cstring \<Rightarrow> cstring \<Rightarrow> bool" where
  "relpath_canonical_loop seg ptr =
     (if length seg = 1 \<and> char_at seg 0 = dot then False
      else if char_at ptr 0 = slash \<and> char_at ptr 1 = slash then False
      else if ptr = [] then seg \<noteq> []
      else let ptr' = (if hd ptr = slash then tl ptr else ptr)
           in relpath_canonical_loop (takeWhile (\<lambda>c. c \<noteq> slash) ptr') (dropWhile (\<lambda>c. c \<noteq> slash) ptr'))"
  by pat_completeness auto
termination
proof (relation "measure (\<lambda>(seg, ptr). length ptr)"; clarsimp)
  fix ptr :: cstring
  assume "ptr \<noteq> []"
  then show "(hd ptr = slash \<longrightarrow> length (dropWhile (\<lambda>c. c \<noteq> slash) (tl ptr)) < length ptr)
    \<and> (hd ptr \<noteq> slash \<longrightarrow> length (dropWhile (\<lambda>c. c \<noteq> slash) ptr) < length ptr)"
    by (cases ptr) (auto simp: less_Suc_eq_le length_dropWhile_le)
qed

declare relpath_canonical_loop.simps [simp del]

definition relpath_is_canonical :: "cstring \<Rightarrow> bool" where
  "relpath_is_canonical relpath \<longleftrightarrow>
     (if relpath = [] then True else if hd relpath = slash then False
      else relpath_canonical_loop [] relpath)"

definition svn_dirent_is_canonical :: "cstring \<Rightarrow> bool" where
  "svn_dirent_is_canonical dirent \<longleftrightarrow>
     relpath_is_canonical (if char_at dirent 0 = slash then tl dirent else dirent)"

definition svn_fspath_is_canonical :: "cstring \<Rightarrow> bool" where
  "svn_fspath_is_canonical fspath \<longleftrightarrow> char_at fspath 0 = slash \<and> relpath_is_canonical (tl fspath)"

section \<open>Paths as lists of segments\<close>

text \<open>
  The abstract value of a canonical relpath is the list of its segments; \<open>path_of\<close> puts the
  slashes between them, \<open>segs\<close> splits any string at its slashes.
\<close>

definition ok_seg :: "cstring \<Rightarrow> bool" where
  "ok_seg s \<longleftrightarrow> s \<noteq> [] \<and> s \<noteq> [dot] \<and> slash \<notin> set s"

fun path_of :: "cstring list \<Rightarrow> cstring" where
  "path_of [] = []"
| "path_of [s] = s"
| "path_of (s # ss) = s @ slash # path_of ss"

fun segs :: "cstring \<Rightarrow> cstring list" where
  "segs [] = [[]]"
| "segs (c # p) = (if c = slash then [] # segs p else (c # hd (segs p)) # tl (segs p))"

abbreviation unslash :: "char \<Rightarrow> bool" where "unslash c \<equiv> c \<noteq> slash"

lemma segs_nonempty [simp]: "segs p \<noteq> []"
  by (cases p) auto

lemma segs_last: "slash \<notin> set p \<Longrightarrow> segs p = [p]"
  by (induction p) auto

lemma segs_first: "slash \<notin> set s \<Longrightarrow> segs (s @ slash # r) = s # segs r"
  by (induction s) auto

lemma string_cases [case_names one more]:
  obtains "slash \<notin> set p" | s r where "p = s @ slash # r" and "slash \<notin> set s"
  using split_list_first [of slash p] by blast

lemma segs_induct [case_names one more]:
  assumes "\<And>p. slash \<notin> set p \<Longrightarrow> P p"
    and "\<And>s r. slash \<notin> set s \<Longrightarrow> P r \<Longrightarrow> P (s @ slash # r)"
  shows "P p"
proof (induction "length p" arbitrary: p rule: less_induct)
  case less
  show ?case
    by (cases p rule: string_cases) (use assms less in auto)
qed

lemma unslash_split [simp]:
  assumes "slash \<notin> set s"
  shows "takeWhile unslash s = s" "dropWhile unslash s = []"
    "takeWhile unslash (s @ slash # r) = s" "dropWhile unslash (s @ slash # r) = slash # r"
  using assms by (induction s) auto

lemma path_of_Cons: "ss \<noteq> [] \<Longrightarrow> path_of (s # ss) = s @ slash # path_of ss"
  by (cases ss) auto

lemma path_of_append:
  "ss \<noteq> [] \<Longrightarrow> ts \<noteq> [] \<Longrightarrow> path_of (ss @ ts) = path_of ss @ slash # path_of ts"
proof (induction ss)
  case (Cons s ss)
  then show ?case by (cases "ss = []") (auto simp: path_of_Cons)
qed simp

lemma segs_path_of: "\<forall>s\<in>set ss. slash \<notin> set s \<Longrightarrow> ss \<noteq> [] \<Longrightarrow> segs (path_of ss) = ss"
proof (induction ss)
  case (Cons s ss)
  then show ?case by (cases "ss = []") (auto simp: path_of_Cons segs_last segs_first)
qed simp

lemma segs_noslash: "s \<in> set (segs p) \<Longrightarrow> slash \<notin> set s"
  by (induction p rule: segs_induct) (auto simp: segs_last segs_first)

lemma path_of_segs: "path_of (segs p) = p"
  by (induction p rule: segs_induct) (simp_all add: segs_last segs_first path_of_Cons)

lemma path_of_nonempty: "list_all ok_seg ss \<Longrightarrow> ss \<noteq> [] \<Longrightarrow> path_of ss \<noteq> []"
  by (cases ss rule: path_of.cases) (auto simp: ok_seg_def)

lemma segs_of_ok: "list_all ok_seg ss \<Longrightarrow> ss \<noteq> [] \<Longrightarrow> segs (path_of ss) = ss"
  by (rule segs_path_of) (auto simp: list_all_iff ok_seg_def)

lemma path_of_inj:
  assumes "list_all ok_seg ss" and "list_all ok_seg ts" and "path_of ss = path_of ts"
  shows "ss = ts"
  using assms segs_of_ok path_of_nonempty by (cases "ss = []"; cases "ts = []") (fastforce, fastforce, fastforce, metis)

lemma next_segment_relpath:
  "ty \<noteq> Type_uri \<Longrightarrow> next_segment ty p = (takeWhile unslash p, dropWhile unslash p)"
  by (induction p) (auto simp: at_separator_def)

lemma noop_relpath: "ty \<noteq> Type_uri \<Longrightarrow> noop_segment ty s \<longleftrightarrow> s = [] \<or> s = [dot]"
  by (auto simp: noop_segment_def length_Suc_conv)

lemma canon_segments_relpath:
  assumes "ty \<noteq> Type_uri"
  defines "good \<equiv> \<lambda>src. filter ok_seg (segs src)"
  shows "\<exists>trail. canon_segments ty src dst n
      = (dst @ path_of (good src) @ trail, n + length (good src))
    \<and> (trail = [] \<or> trail = [slash] \<and> good src \<noteq> [])"
proof (induction src arbitrary: dst n rule: segs_induct)
  case (one src)
  have nx: "next_segment ty src = (src, [])"
    using one by (simp add: next_segment_relpath [OF assms(1)])
  have ok: "ok_seg src \<longleftrightarrow> \<not> noop_segment ty src"
    using one by (auto simp: ok_seg_def noop_relpath [OF assms(1)])
  have "good src = (if ok_seg src then [src] else [])"
    by (simp add: good_def segs_last [OF one])
  then show ?case
    using canon_segments.simps [of ty src dst n] ok
    by (auto simp: nx slash_len_def canon_segments.simps [of ty "[]"] noop_relpath [OF assms(1)])
next
  case (more seg r)
  let ?src = "seg @ slash # r"
  have nx: "next_segment ty ?src = (seg, slash # r)"
    using more by (simp add: next_segment_relpath [OF assms(1)])
  have ok: "ok_seg seg \<longleftrightarrow> \<not> noop_segment ty seg"
    using more by (auto simp: ok_seg_def noop_relpath [OF assms(1)])
  have good: "good ?src = (if ok_seg seg then seg # good r else good r)"
    by (simp add: good_def segs_first [OF more(1)])
  have step: "canon_segments ty ?src dst n = (if ok_seg seg
      then canon_segments ty r (dst @ seg @ [slash]) (Suc n) else canon_segments ty r dst n)"
    using canon_segments.simps [of ty ?src dst n] ok by (simp add: nx slash_len_def)
  show ?case
  proof (cases "ok_seg seg")
    case False
    then show ?thesis using more(2) [of dst n] step good by simp
  next
    case True
    obtain trail where "canon_segments ty r (dst @ seg @ [slash]) (Suc n)
        = ((dst @ seg @ [slash]) @ path_of (good r) @ trail, Suc n + length (good r))"
      "trail = [] \<or> trail = [slash] \<and> good r \<noteq> []"
      using more(2) by blast
    then show ?thesis
      using step True good by (cases "good r = []") (auto simp: path_of_Cons)
  qed
qed

lemma last_path_of: "list_all ok_seg ss \<Longrightarrow> ss \<noteq> [] \<Longrightarrow> last (path_of ss) \<noteq> slash"
proof (induction ss)
  case (Cons t ss)
  show ?case
  proof (cases "ss = []")
    case True
    with Cons.prems show ?thesis by (auto simp: ok_seg_def dest: last_in_set)
  next
    case False
    with Cons show ?thesis by (simp add: path_of_Cons path_of_nonempty)
  qed
qed simp

lemma filter_ok [simp]: "list_all ok_seg (filter ok_seg ss)"
  by (simp add: list_all_iff)

lemma canonicalize_spec:
  assumes "ty \<noteq> Type_uri"
  shows "canonicalize ty path = Some (if ty = Type_dirent \<and> char_at path 0 = slash
    then slash # path_of (filter ok_seg (segs (tl path))) else path_of (filter ok_seg (segs path)))"
proof (cases "path = []")
  case True
  with assms show ?thesis by (simp add: canonicalize_def ok_seg_def)
next
  case False
  define rooted where "rooted \<longleftrightarrow> ty = Type_dirent \<and> char_at path 0 = slash"
  define src where "src = (if rooted then tl path else path)"
  define dst where "dst = (if rooted then [slash] else [])"
  let ?good = "filter ok_seg (segs src)"
  have root: "ty \<noteq> Type_relpath \<and> hd path = slash \<longleftrightarrow> rooted"
    using assms False by (cases ty; cases path) (auto simp: rooted_def)
  obtain trail where c: "canon_segments ty src dst 0 = (dst @ path_of ?good @ trail, length ?good)"
    and trail: "trail = [] \<or> trail = [slash] \<and> ?good \<noteq> []"
    using canon_segments_relpath [OF assms, of src dst 0] by auto
  have strip: "(if length ?good > 0 \<and> dst @ path_of ?good @ trail \<noteq> []
        \<and> last (dst @ path_of ?good @ trail) = slash
      then butlast (dst @ path_of ?good @ trail) else dst @ path_of ?good @ trail)
      = dst @ path_of ?good"
  proof (cases "?good = []")
    case False
    then have "path_of ?good \<noteq> []" "last (path_of ?good) \<noteq> slash"
      by (simp_all add: path_of_nonempty last_path_of del: filter_empty_conv)
    with trail False show ?thesis by (auto simp: butlast_append)
  qed (use trail in simp)
  have "canonicalize ty path = Some (let (d, n) = canon_segments ty src dst 0 in
      if n > 0 \<and> d \<noteq> [] \<and> last d = slash then butlast d else d)"
    using False assms by (simp add: canonicalize_def root src_def dst_def Let_def split: prod.splits)
  then have "canonicalize ty path = Some (dst @ path_of ?good)"
    unfolding c Let_def prod.case strip .
  then show ?thesis by (auto simp: rooted_def src_def dst_def)
qed

lemma relpath_loop_end:
  "relpath_canonical_loop seg [] \<longleftrightarrow> seg \<noteq> [] \<and> seg \<noteq> [dot]"
  by (auto simp: relpath_canonical_loop.simps [of seg "[]"] length_Suc_conv)

lemma relpath_loop_slash:
  "relpath_canonical_loop seg (slash # r) \<longleftrightarrow> seg \<noteq> [dot] \<and> r \<noteq> [] \<and> hd r \<noteq> slash
     \<and> relpath_canonical_loop (takeWhile unslash r) (dropWhile unslash r)"
proof -
  note step = relpath_canonical_loop.simps [of seg "slash # r"]
  have "length seg = 1 \<and> char_at seg 0 = dot \<longleftrightarrow> seg = [dot]" by (auto simp: length_Suc_conv)
  then show ?thesis
    using step by (cases r) (auto simp: relpath_loop_end)
qed

lemma canonical_loop_segs:
  "relpath_canonical_loop (takeWhile unslash p) (dropWhile unslash p)
     \<longleftrightarrow> list_all ok_seg (segs p) \<or> p \<noteq> [] \<and> hd p = slash
       \<and> list_all ok_seg (segs (tl p))"
proof (induction p rule: segs_induct)
  case (one p)
  then show ?case by (cases p) (auto simp: relpath_loop_end segs_last ok_seg_def)
next
  case (more s r)
  have "ok_seg s \<longleftrightarrow> s \<noteq> [] \<and> s \<noteq> [dot]" using more(1) by (simp add: ok_seg_def)
  moreover have "r \<noteq> [] \<and> hd r \<noteq> slash" if "list_all ok_seg (segs r)"
    using that by (cases r) (auto simp: ok_seg_def)
  ultimately show ?case using more
    by (cases s) (auto simp: relpath_loop_slash segs_first)
qed

lemma relpath_is_canonical_iff:
  "relpath_is_canonical p \<longleftrightarrow> p = [] \<or> list_all ok_seg (segs p)"
proof (cases "p = [] \<or> hd p = slash")
  case True
  then show ?thesis by (cases p) (auto simp: relpath_is_canonical_def ok_seg_def)
next
  case False
  then have "relpath_canonical_loop [] p
      \<longleftrightarrow> relpath_canonical_loop (takeWhile unslash p) (dropWhile unslash p)"
    by (cases p) (auto simp: relpath_canonical_loop.simps [of "[]"])
  with False canonical_loop_segs [of p] show ?thesis by (simp add: relpath_is_canonical_def)
qed

text \<open>A relpath is canonical exactly if it is \<open>path_of\<close> of proper segments.\<close>

lemma canonical_relpath_cases:
  assumes "relpath_is_canonical p"
  obtains ss where "p = path_of ss" and "list_all ok_seg ss"
  using assms path_of_segs [of p] that [of "segs p"] that [of "[]"]
  by (auto simp: relpath_is_canonical_iff)

lemma canonical_path_of: "list_all ok_seg ss \<Longrightarrow> relpath_is_canonical (path_of ss)"
  by (cases "ss = []") (simp_all add: relpath_is_canonical_iff segs_of_ok)

lemma relpath_canonicalize_eq: "svn_relpath_canonicalize p = path_of (filter ok_seg (segs p))"
  by (simp add: svn_relpath_canonicalize_def canonicalize_spec)

lemma relpath_canonicalize_id:
  "relpath_is_canonical p \<Longrightarrow> svn_relpath_canonicalize p = p"
  by (auto simp: relpath_canonicalize_eq relpath_is_canonical_iff list_all_iff path_of_segs ok_seg_def
      filter_id_conv)

lemma canonicalize_total: "ty \<noteq> Type_uri \<Longrightarrow> canonicalize ty p \<noteq> None"
  by (simp add: canonicalize_spec)

section \<open>Joining, splitting and comparing ancestry\<close>

text \<open>Relpaths.\<close>

definition svn_relpath_join :: "cstring \<Rightarrow> cstring \<Rightarrow> cstring" where
  "svn_relpath_join base component =
     (if length base = 0 then component else if length component = 0 then base
      else base @ [slash] @ component)"

fun previous_segment_loop :: "cstring \<Rightarrow> nat \<Rightarrow> nat" where
  "previous_segment_loop path 0 = 0"
| "previous_segment_loop path (Suc len) =
     (if char_at path (Suc len) \<noteq> slash then previous_segment_loop path len else Suc len)"

definition relpath_previous_segment :: "cstring \<Rightarrow> nat \<Rightarrow> nat" where
  "relpath_previous_segment relpath len =
     (if len = 0 then 0 else previous_segment_loop relpath (len - 1))"

fun basename_start :: "cstring \<Rightarrow> nat \<Rightarrow> nat" where
  "basename_start path 0 = 0"
| "basename_start path (Suc start) =
     (if char_at path start \<noteq> slash then basename_start path start else Suc start)"

definition svn_relpath_dirname :: "cstring \<Rightarrow> cstring" where
  "svn_relpath_dirname relpath = take (relpath_previous_segment relpath (length relpath)) relpath"

definition svn_relpath_basename :: "cstring \<Rightarrow> cstring" where
  "svn_relpath_basename relpath = drop (basename_start relpath (length relpath)) relpath"

definition svn_relpath_split :: "cstring \<Rightarrow> cstring \<times> cstring" where
  "svn_relpath_split relpath = (svn_relpath_dirname relpath, svn_relpath_basename relpath)"

definition svn_relpath_skip_ancestor :: "cstring \<Rightarrow> cstring \<Rightarrow> cstring option" where
  "svn_relpath_skip_ancestor parent_relpath child_relpath =
     (let len = length parent_relpath in
      if len = 0 then Some child_relpath
      else if \<not> is_prefix parent_relpath child_relpath then None
      else if char_at child_relpath len = NUL then Some []
      else if char_at child_relpath len = slash then Some (drop (len + 1) child_relpath)
      else None)"

text \<open>
  \<open>get_longest_ancestor_length\<close>: the loop runs over the suffixes at \<open>i\<close>, and returns \<open>i\<close> and
  \<open>last_dirsep\<close>.
\<close>

fun longest_ancestor_loop :: "cstring \<Rightarrow> cstring \<Rightarrow> nat \<Rightarrow> nat \<Rightarrow> nat \<times> nat" where
  "longest_ancestor_loop (c # p) (d # q) i last_dirsep =
     (if c = d
      then let last_dirsep = (if c = slash then i else last_dirsep) in
        if p = [] \<or> q = [] then (i + 1, last_dirsep)
        else longest_ancestor_loop p q (i + 1) last_dirsep
      else (i, last_dirsep))"
| "longest_ancestor_loop p q i last_dirsep = (i, last_dirsep)"

definition get_longest_ancestor_length :: "path_type \<Rightarrow> cstring \<Rightarrow> cstring \<Rightarrow> nat" where
  "get_longest_ancestor_length types path1 path2 =
     (if path1 = [] \<or> path2 = [] then 0
      else let (i, last_dirsep) = longest_ancestor_loop path1 path2 0 0 in
        if i = 1 \<and> char_at path1 0 = slash \<and> char_at path2 0 = slash then 1
        else if types = Type_dirent \<and> i = 0 then 0
        else if i = length path1 \<and> char_at path2 i = slash
                \<or> i = length path2 \<and> char_at path1 i = slash
                \<or> i = length path1 \<and> i = length path2 then i
        else if last_dirsep = 0 \<and> char_at path1 0 = slash \<and> char_at path2 0 = slash then 1
        else last_dirsep)"

definition svn_relpath_get_longest_ancestor :: "cstring \<Rightarrow> cstring \<Rightarrow> cstring" where
  "svn_relpath_get_longest_ancestor relpath1 relpath2 =
     take (get_longest_ancestor_length Type_relpath relpath1 relpath2) relpath1"

text \<open>Paths within a filesystem: a slash and a relpath.\<close>

definition svn_fspath_is_root :: "cstring \<Rightarrow> nat \<Rightarrow> bool" where
  "svn_fspath_is_root fspath len \<longleftrightarrow> len = 1 \<and> char_at fspath 0 = slash"

definition svn_fspath_skip_ancestor :: "cstring \<Rightarrow> cstring \<Rightarrow> cstring option" where
  "svn_fspath_skip_ancestor parent_fspath child_fspath =
     svn_relpath_skip_ancestor (tl parent_fspath) (tl child_fspath)"

definition svn_fspath_dirname :: "cstring \<Rightarrow> cstring" where
  "svn_fspath_dirname fspath =
     (if char_at fspath 0 = slash \<and> char_at fspath 1 = NUL then fspath
      else slash # svn_relpath_dirname (tl fspath))"

definition svn_fspath_basename :: "cstring \<Rightarrow> cstring" where
  "svn_fspath_basename fspath = svn_relpath_basename (tl fspath)"

definition svn_fspath_split :: "cstring \<Rightarrow> cstring \<times> cstring" where
  "svn_fspath_split fspath = (svn_fspath_dirname fspath, svn_fspath_basename fspath)"

definition svn_fspath_join :: "cstring \<Rightarrow> cstring \<Rightarrow> cstring" where
  "svn_fspath_join fspath relpath =
     (if char_at relpath 0 = NUL then fspath
      else if char_at fspath 1 = NUL then slash # relpath
      else fspath @ [slash] @ relpath)"

definition svn_fspath_get_longest_ancestor :: "cstring \<Rightarrow> cstring \<Rightarrow> cstring" where
  "svn_fspath_get_longest_ancestor fspath1 fspath2 =
     slash # svn_relpath_get_longest_ancestor (tl fspath1) (tl fspath2)"

section \<open>The relpath functions on segments\<close>

lemma relpath_join_path_of:
  assumes "list_all ok_seg ss" and "list_all ok_seg ts"
  shows "svn_relpath_join (path_of ss) (path_of ts) = path_of (ss @ ts)"
  using assms path_of_nonempty
  by (cases "ss = []"; cases "ts = []") (auto simp: svn_relpath_join_def path_of_append)

lemma nth_unslash: "slash \<notin> set s \<Longrightarrow> n < length s \<Longrightarrow> s ! n \<noteq> slash"
  by (metis nth_mem)

lemma previous_segment_loop_none:
  "slash \<notin> set s \<Longrightarrow> n < length s \<Longrightarrow> previous_segment_loop s n = 0"
proof (induction n)
  case (Suc n)
  then show ?case by (simp add: char_at_def nth_unslash)
qed simp

lemma basename_start_last:
  "slash \<notin> set s \<Longrightarrow> n \<le> length s \<Longrightarrow>
   basename_start (pre @ slash # s) (Suc (length pre + n)) = Suc (length pre)"
proof (induction n)
  case (Suc n)
  then show ?case by (simp add: char_at_def nth_append nth_unslash)
qed (simp add: char_at_def)

lemma basename_start_none:
  "slash \<notin> set s \<Longrightarrow> n \<le> length s \<Longrightarrow> basename_start s n = 0"
proof (induction n)
  case (Suc n)
  then show ?case by (simp add: char_at_def nth_unslash)
qed simp

lemma previous_at_slash: "previous_segment_loop (pre @ slash # s) (length pre) = length pre"
  by (cases pre rule: rev_cases) (auto simp: char_at_def nth_append)

lemma previous_segment_loop_last:
  "slash \<notin> set s \<Longrightarrow> n \<le> length s \<Longrightarrow>
   previous_segment_loop (pre @ slash # s) (length pre + n) = length pre"
proof (induction n)
  case (Suc n)
  then show ?case by (simp add: char_at_def nth_append nth_unslash)
qed (simp add: previous_at_slash)

lemma relpath_dirname_basename:
  assumes "list_all ok_seg ss"
  shows "svn_relpath_dirname (path_of ss) = path_of (butlast ss)"
    and "svn_relpath_basename (path_of ss) = (if ss = [] then [] else last ss)"
proof -
  have "svn_relpath_dirname (path_of ss) = path_of (butlast ss)
    \<and> svn_relpath_basename (path_of ss) = (if ss = [] then [] else last ss)"
  proof (cases ss rule: rev_cases)
    case Nil
    then show ?thesis
      by (simp add: svn_relpath_dirname_def svn_relpath_basename_def relpath_previous_segment_def)
  next
    case (snoc pre s)
    then have s: "slash \<notin> set s" "s \<noteq> []" "list_all ok_seg pre"
      using assms by (auto simp: ok_seg_def)
    show ?thesis
    proof (cases "pre = []")
      case True
      then show ?thesis using s snoc
        by (simp add: svn_relpath_dirname_def svn_relpath_basename_def relpath_previous_segment_def
            previous_segment_loop_none basename_start_none)
    next
      case False
      then have p: "path_of ss = path_of pre @ slash # s"
        using snoc by (simp add: path_of_append)
      have "previous_segment_loop (path_of ss) (length (path_of pre) + length s) = length (path_of pre)"
        unfolding p by (rule previous_segment_loop_last [OF s(1)]) simp
      moreover have "basename_start (path_of ss) (Suc (length (path_of pre) + length s))
          = Suc (length (path_of pre))"
        unfolding p by (rule basename_start_last [OF s(1)]) simp
      moreover have "length (path_of ss) = Suc (length (path_of pre) + length s)" by (simp add: p)
      ultimately show ?thesis using snoc p
        by (simp add: svn_relpath_dirname_def svn_relpath_basename_def relpath_previous_segment_def
            del: basename_start.simps)
    qed
  qed
  then show "svn_relpath_dirname (path_of ss) = path_of (butlast ss)"
    and "svn_relpath_basename (path_of ss) = (if ss = [] then [] else last ss)" by auto
qed

lemma is_prefix_iff: "is_prefix p s \<longleftrightarrow> (\<exists>r. s = p @ r)"
  by (metis append_take_drop_id append_eq_conv_conj is_prefix_def)

lemma segs_append: "segs (p @ slash # r) = segs p @ segs r"
  by (induction p) auto

text \<open>Prefixes of canonical paths at a slash are prefixes of the segments.\<close>

lemma path_of_split:
  assumes "list_all ok_seg ss" and "list_all ok_seg ts" and "ss \<noteq> []"
    and "path_of ts = path_of ss @ slash # r"
  shows "ts = ss @ segs r" and "path_of (segs r) = r"
proof -
  have "ts \<noteq> []" using assms(4) by auto
  then show "ts = ss @ segs r"
    using assms segs_of_ok segs_append by metis
  show "path_of (segs r) = r" by (rule path_of_segs)
qed

lemma no_nul_path_of: "no_nul (path_of ss) \<longleftrightarrow> (\<forall>s\<in>set ss. no_nul s)"
  by (induction ss rule: path_of.induct) (auto simp: no_nul_def)

lemma relpath_skip_ancestor_path_of:
  assumes ss: "list_all ok_seg ss" and ts: "list_all ok_seg ts" and "no_nul (path_of ts)"
  shows "svn_relpath_skip_ancestor (path_of ss) (path_of ts)
    = (if prefix ss ts then Some (path_of (drop (length ss) ts)) else None)"
proof (cases "ss = []")
  case True
  then show ?thesis by (simp add: svn_relpath_skip_ancestor_def)
next
  case ne: False
  then have ne': "path_of ss \<noteq> []" using path_of_nonempty ss by blast
  show ?thesis
  proof (cases "prefix ss ts")
    case True
    then obtain us where us: "ts = ss @ us" by (auto simp: prefix_def)
    then show ?thesis
      using ne ne' by (cases "us = []")
        (auto simp: svn_relpath_skip_ancestor_def path_of_append is_prefix_iff char_at_def nth_append)
  next
    case False
    have "svn_relpath_skip_ancestor (path_of ss) (path_of ts) = None"
    proof (cases "is_prefix (path_of ss) (path_of ts)")
      case True
      then obtain r where r: "path_of ts = path_of ss @ r" by (auto simp: is_prefix_iff)
      have "r \<noteq> []" using r False path_of_inj [OF ts ss] by auto
      then obtain c r' where cr: "r = c # r'" by (cases r) auto
      have "c \<noteq> slash" using path_of_split [OF ss ts ne] False r cr by (auto simp: prefix_def)
      moreover have "c \<noteq> NUL" using assms(3) r cr by (auto simp: no_nul_def)
      ultimately show ?thesis using ne' r cr
        by (simp add: svn_relpath_skip_ancestor_def char_at_def nth_append Let_def)
    qed (use ne' in \<open>simp add: svn_relpath_skip_ancestor_def\<close>)
    with False show ?thesis by simp
  qed
qed

text \<open>Filesystem paths are a slash and a canonical relpath.\<close>

definition fspath_of :: "cstring list \<Rightarrow> cstring" where
  "fspath_of ss = slash # path_of ss"

lemma fspath_is_canonical_iff:
  "svn_fspath_is_canonical p \<longleftrightarrow> (\<exists>ss. list_all ok_seg ss \<and> p = fspath_of ss)"
proof
  assume "svn_fspath_is_canonical p"
  then have "p = slash # tl p" "relpath_is_canonical (tl p)"
    by (cases p; simp add: svn_fspath_is_canonical_def)+
  then show "\<exists>ss. list_all ok_seg ss \<and> p = fspath_of ss"
    by (metis canonical_relpath_cases fspath_of_def)
next
  assume "\<exists>ss. list_all ok_seg ss \<and> p = fspath_of ss"
  then show "svn_fspath_is_canonical p"
    by (auto simp: svn_fspath_is_canonical_def fspath_of_def canonical_path_of)
qed

lemma fspath_canonicalize_eq:
  assumes "no_nul p"
  shows "svn_fspath_canonicalize p = fspath_of (filter ok_seg (segs p))"
proof -
  have "char_at p 0 = slash \<and> char_at p 1 = NUL \<longleftrightarrow> p = [slash]"
    using assms by (cases p; cases "tl p") (auto simp: no_nul_def)
  then show ?thesis
    by (auto simp: svn_fspath_canonicalize_def relpath_canonicalize_eq fspath_of_def ok_seg_def)
qed

lemma fspath_canonicalize_id:
  assumes "svn_fspath_is_canonical p" and "no_nul p"
  shows "svn_fspath_canonicalize p = p"
proof -
  obtain ss where ss: "list_all ok_seg ss" "p = fspath_of ss"
    using assms(1) by (auto simp: fspath_is_canonical_iff)
  have "filter ok_seg (segs p) = ss"
    using ss segs_of_ok [OF ss(1)] by (cases "ss = []")
      (auto simp: fspath_of_def ok_seg_def list_all_iff filter_id_conv)
  then show ?thesis using fspath_canonicalize_eq [OF assms(2)] ss(2) by simp
qed

lemma fspath_join_of:
  assumes "list_all ok_seg ss" and "list_all ok_seg ts" and "no_nul (path_of ss)" and "no_nul (path_of ts)"
  shows "svn_fspath_join (fspath_of ss) (path_of ts) = fspath_of (ss @ ts)"
proof -
  have *: "char_at (path_of us) 0 = NUL \<longleftrightarrow> us = []"
    if "list_all ok_seg us" "no_nul (path_of us)" for us
    using that path_of_nonempty [of us] by (cases "path_of us") (auto simp: no_nul_def)
  show ?thesis
    using * [OF assms(1,3)] * [OF assms(2,4)]
    by (cases "ss = []"; cases "ts = []")
      (auto simp: svn_fspath_join_def fspath_of_def path_of_append)
qed

lemma fspath_skip_ancestor_of:
  assumes "list_all ok_seg ss" and "list_all ok_seg ts" and "no_nul (path_of ts)"
  shows "svn_fspath_skip_ancestor (fspath_of ss) (fspath_of ts)
    = (if prefix ss ts then Some (path_of (drop (length ss) ts)) else None)"
  using relpath_skip_ancestor_path_of [OF assms]
  by (simp add: svn_fspath_skip_ancestor_def fspath_of_def)

lemma fspath_dirname_basename_of:
  assumes "list_all ok_seg ss" and "no_nul (path_of ss)"
  shows "svn_fspath_dirname (fspath_of ss) = fspath_of (butlast ss)"
    and "svn_fspath_basename (fspath_of ss) = (if ss = [] then [] else last ss)"
  using assms path_of_nonempty [OF assms(1)] relpath_dirname_basename [OF assms(1)]
  by (cases "path_of ss"; cases "ss = []";
      auto simp: svn_fspath_dirname_def svn_fspath_basename_def fspath_of_def no_nul_def)+

text \<open>
  Keys under which paths are stored in a mergeinfo hash: canonical filesystem paths.
\<close>

definition ok_path :: "cstring \<Rightarrow> bool" where
  "ok_path p \<longleftrightarrow> svn_fspath_is_canonical p \<and> no_nul p"

lemma ok_path_cases:
  assumes "ok_path p"
  obtains ss where "p = fspath_of ss" and "list_all ok_seg ss" and "no_nul (path_of ss)"
  using assms by (auto simp: ok_path_def fspath_is_canonical_iff fspath_of_def no_nul_def)

lemma ok_pathI: "list_all ok_seg ss \<Longrightarrow> no_nul (path_of ss) \<Longrightarrow> ok_path (fspath_of ss)"
  by (auto simp: ok_path_def fspath_is_canonical_iff fspath_of_def no_nul_def)

lemma fspath_of_inj:
  "list_all ok_seg ss \<Longrightarrow> list_all ok_seg ts \<Longrightarrow> fspath_of ss = fspath_of ts \<longleftrightarrow> ss = ts"
  using path_of_inj by (auto simp: fspath_of_def)

section \<open>Properties\<close>

text \<open>\<open>svn_path_compare_paths\<close> is a strict total order on strings: exactly one of less,
  equal and greater holds, it is antisymmetric and transitive, and only equal paths compare
  equal.\<close>

theorem compare_paths_total_order:
  assumes "no_nul p" and "no_nul q" and "no_nul r"
  shows "(svn_path_compare_paths p q = 0 \<longleftrightarrow> p = q)
    \<and> (svn_path_compare_paths p q < 0 \<longleftrightarrow> 0 < svn_path_compare_paths q p)
    \<and> (svn_path_compare_paths p q < 0 \<and> svn_path_compare_paths q r < 0
         \<longrightarrow> svn_path_compare_paths p r < 0)"
  using assms compare_paths_eq [of p q] path_cmp.cmp_anti [of p q]
    compare_paths_less [of p q] compare_paths_less [of q r] compare_paths_less [of p r]
  by (auto dest: order_less_trans)

theorem compare_paths_total_order_witness:
  "(svn_path_compare_paths ''/a'' ''/a/b'' = 0 \<longleftrightarrow> ''/a'' = ''/a/b'')
    \<and> (svn_path_compare_paths ''/a'' ''/a/b'' < 0 \<longleftrightarrow> 0 < svn_path_compare_paths ''/a/b'' ''/a'')
    \<and> svn_path_compare_paths ''/a'' ''/a-b'' < 0"
proof -
  have "svn_path_compare_paths ''/a'' ''/a/b'' < 0" "svn_path_compare_paths ''/a/b'' ''/a-b'' < 0"
    by code_simp+
  then show ?thesis
    using compare_paths_total_order [of "''/a''" "''/a/b''" "''/a-b''"] by (simp add: no_nul_def)
qed

text \<open>A path comes before its children, and everything below it comes before any greater
  path that is not below it: sorting by \<open>svn_path_compare_paths\<close> keeps subtrees together.\<close>

theorem compare_paths_subtree:
  assumes "no_nul (p @ slash # x)" and "no_nul q" and "svn_path_compare_paths p q < 0"
    and "\<forall>y. q \<noteq> p @ slash # y"
  shows "svn_path_compare_paths p (p @ slash # x) < 0 \<and> svn_path_compare_paths (p @ slash # x) q < 0"
proof -
  have n: "no_nul p" using assms(1) by (simp add: no_nul_def)
  have "map path_rank (p @ slash # x) < map path_rank q"
    using compare_paths_less [OF n assms(2)] assms(3,4)
  proof (induction p arbitrary: q)
    case Nil
    then show ?case by (cases q) (auto simp: path_rank_def)
  next
    case (Cons c p)
    then show ?case by (cases q) auto
  qed
  moreover have "map path_rank p < map path_rank (p @ slash # x)"
    by (induction p) auto
  ultimately show ?thesis
    using compare_paths_less [OF n assms(1)] compare_paths_less [OF assms(1,2)] by simp
qed

theorem compare_paths_subtree_witness:
  "svn_path_compare_paths ''/a'' (''/a'' @ slash # ''b'') < 0
   \<and> svn_path_compare_paths (''/a'' @ slash # ''b'') ''/a-b'' < 0"
proof (rule compare_paths_subtree)
  show "svn_path_compare_paths ''/a'' ''/a-b'' < 0"
    by (simp add: svn_path_compare_paths.simps)
qed (simp_all add: no_nul_def)

text \<open>C39. Canonicalizing a relpath or filesystem path gives a canonical one, is idempotent and
  leaves canonical paths alone; both keep exactly the segments of the path other than the empty ones
  and the dots, in order.\<close>

theorem canonicalize_paths:
  assumes "no_nul p"
  shows "relpath_is_canonical (svn_relpath_canonicalize p)
    \<and> svn_relpath_canonicalize p = path_of (filter ok_seg (segs p))
    \<and> (relpath_is_canonical p \<longrightarrow> svn_relpath_canonicalize p = p)
    \<and> svn_fspath_is_canonical (svn_fspath_canonicalize p)
    \<and> svn_fspath_canonicalize p = slash # path_of (filter ok_seg (segs p))
    \<and> (svn_fspath_is_canonical p \<longrightarrow> svn_fspath_canonicalize p = p)"
proof (intro conjI impI)
  show "relpath_is_canonical (svn_relpath_canonicalize p)"
    by (simp add: relpath_canonicalize_eq canonical_path_of)
  show "svn_fspath_is_canonical (svn_fspath_canonicalize p)"
    unfolding fspath_canonicalize_eq [OF assms] fspath_is_canonical_iff
    using filter_ok by blast
qed (use assms in \<open>simp_all add: relpath_canonicalize_id fspath_canonicalize_id,
    simp_all add: relpath_canonicalize_eq fspath_canonicalize_eq fspath_of_def\<close>)

theorem canonicalize_paths_witness:
  "relpath_is_canonical (svn_relpath_canonicalize ''/trunk//./lib/'')
    \<and> svn_relpath_canonicalize ''/trunk//./lib/'' = path_of (filter ok_seg (segs ''/trunk//./lib/''))
    \<and> svn_relpath_canonicalize ''trunk/lib'' = ''trunk/lib''
    \<and> svn_fspath_is_canonical (svn_fspath_canonicalize ''/trunk//./lib/'')
    \<and> svn_fspath_canonicalize ''/trunk//./lib/'' = slash # path_of (filter ok_seg (segs ''/trunk//./lib/''))
    \<and> svn_fspath_canonicalize ''/trunk/lib'' = ''/trunk/lib''"
proof -
  have c: "relpath_is_canonical ''trunk/lib''" "svn_fspath_is_canonical ''/trunk/lib''" by code_simp+
  have n: "no_nul ''/trunk//./lib/''" "no_nul ''trunk/lib''" "no_nul ''/trunk/lib''"
    by (simp_all add: no_nul_def)
  show ?thesis
    using canonicalize_paths [OF n(1)] canonicalize_paths [OF n(2)] canonicalize_paths [OF n(3)] c by blast
qed

text \<open>Joining a relpath to a filesystem path and skipping the ancestor again gives the
  relpath back; conversely, when an ancestor can be skipped, joining what is left to it
  gives the path.\<close>

theorem fspath_join_skip_ancestor:
  assumes "ok_path p" and "relpath_is_canonical r" and "no_nul r" and "ok_path q"
  shows "ok_path (svn_fspath_join p r)
    \<and> svn_fspath_skip_ancestor p (svn_fspath_join p r) = Some r
    \<and> (\<forall>x. svn_fspath_skip_ancestor p q = Some x \<longrightarrow> svn_fspath_join p x = q)"
proof -
  obtain ss where ss: "p = fspath_of ss" "list_all ok_seg ss" "no_nul (path_of ss)"
    using assms(1) by (rule ok_path_cases)
  obtain qs where qs: "q = fspath_of qs" "list_all ok_seg qs" "no_nul (path_of qs)"
    using assms(4) by (rule ok_path_cases)
  obtain ts where ts: "r = path_of ts" "list_all ok_seg ts"
    using assms(2) by (rule canonical_relpath_cases)
  have both: "no_nul (path_of (ss @ ts))" using ss(3) assms(3) ts(1) by (auto simp: no_nul_path_of)
  have join: "svn_fspath_join p r = fspath_of (ss @ ts)"
    using fspath_join_of [OF ss(2) ts(2) ss(3)] assms(3) ss(1) ts(1) by simp
  have "svn_fspath_join p x = q" if "svn_fspath_skip_ancestor p q = Some x" for x
  proof -
    have "prefix ss qs" "x = path_of (drop (length ss) qs)"
      using that fspath_skip_ancestor_of [OF ss(2) qs(2,3)] ss(1) qs(1) by (auto split: if_splits)
    then obtain us where us: "qs = ss @ us" "x = path_of us" by (auto simp: prefix_def)
    then show ?thesis
      using fspath_join_of [OF ss(2), of us] ss qs by (auto simp: no_nul_path_of)
  qed
  with join both ss ts fspath_skip_ancestor_of [OF ss(2), of "ss @ ts"] show ?thesis
    by (simp add: ok_pathI)
qed

theorem fspath_join_skip_ancestor_witness:
  "ok_path (svn_fspath_join ''/trunk'' ''lib/a.c'')
    \<and> svn_fspath_skip_ancestor ''/trunk'' (svn_fspath_join ''/trunk'' ''lib/a.c'') = Some ''lib/a.c''
    \<and> svn_fspath_join ''/trunk'' ''x'' = ''/trunk/x''"
proof -
  have "svn_fspath_skip_ancestor ''/trunk'' ''/trunk/x'' = Some ''x''" by code_simp
  then show ?thesis
    using fspath_join_skip_ancestor [of "''/trunk''" "''lib/a.c''" "''/trunk/x''"]
    by (simp add: ok_path_def svn_fspath_is_canonical_def relpath_is_canonical_iff ok_seg_def no_nul_def)
qed

text \<open>Splitting a filesystem path other than the root into directory and base name and
  joining them gives it back; the base name has no slash, the directory is a canonical
  filesystem path, and the root is its own directory with an empty base name.\<close>

theorem fspath_split_join:
  assumes "ok_path p"
  shows "case svn_fspath_split p of (dir, base) \<Rightarrow> svn_fspath_join dir base = p
    \<and> ok_path dir \<and> slash \<notin> set base
    \<and> (svn_fspath_is_root p (length p) \<longleftrightarrow> base = []) \<and> (base = [] \<longrightarrow> dir = p)"
proof -
  obtain ss where ss: "p = fspath_of ss" "list_all ok_seg ss" "no_nul (path_of ss)"
    using assms by (rule ok_path_cases)
  note of_ss = fspath_dirname_basename_of [OF ss(2,3)]
  show ?thesis
  proof (cases ss rule: rev_cases)
    case Nil
    then show ?thesis using ss of_ss assms
      by (simp add: svn_fspath_split_def svn_fspath_is_root_def svn_fspath_join_def fspath_of_def)
  next
    case (snoc us s)
    have us: "list_all ok_seg us" "list_all ok_seg [s]" "no_nul (path_of us)" "no_nul (path_of [s])"
      using ss snoc by (auto simp: no_nul_path_of)
    have "svn_fspath_join (fspath_of us) s = p"
      using fspath_join_of [OF us] ss(1) snoc by simp
    moreover have "\<not> svn_fspath_is_root p (length p)"
      using path_of_nonempty [OF ss(2)] snoc
      by (simp add: ss(1) svn_fspath_is_root_def fspath_of_def)
    ultimately show ?thesis
      using of_ss snoc us ss(1) by (simp add: svn_fspath_split_def ok_pathI ok_seg_def)
  qed
qed

theorem fspath_split_join_witness:
  "case svn_fspath_split ''/trunk/lib/a.c'' of (dir, base) \<Rightarrow>
    svn_fspath_join dir base = ''/trunk/lib/a.c''
    \<and> ok_path dir \<and> slash \<notin> set base
    \<and> (svn_fspath_is_root ''/trunk/lib/a.c'' (length ''/trunk/lib/a.c'') \<longleftrightarrow> base = [])
    \<and> (base = [] \<longrightarrow> dir = ''/trunk/lib/a.c'')"
  by (rule fspath_split_join)
    (simp_all add: ok_path_def svn_fspath_is_canonical_def relpath_is_canonical_iff ok_seg_def no_nul_def)

end
