(* ===== verification/Rangelist_Text.thy ===== *)
theory Rangelist_Text
  imports Rangelist Svn_Paths
begin

text \<open>
  The text form of rangelists (\<open>libsvn_subr/mergeinfo.c\<close>): \<open>range_to_string\<close>,
  \<open>svn_rangelist_to_string\<close>, \<open>parse_rangelist\<close> and the number parsing they rest on
  (\<open>svn_revnum_parse\<close> of \<open>types.c\<close> over \<open>strtol\<close>). A cursor into the input is the suffix
  it points at; \<open>end\<close> is the end of the string, where the code reads the terminating NUL.
\<close>

section \<open>Numbers\<close>

definition newline :: char where "newline = CHR 0x0A"

definition is_digit :: "char \<Rightarrow> bool" where
  "is_digit c \<longleftrightarrow> 48 \<le> (of_char c :: nat) \<and> of_char c \<le> (57 :: nat)"

text \<open>\<open>isspace\<close> of the C locale.\<close>

definition is_space :: "char \<Rightarrow> bool" where
  "is_space c \<longleftrightarrow> of_char c = (32 :: nat) \<or> 9 \<le> (of_char c :: nat) \<and> of_char c \<le> (13 :: nat)"

definition LONG_MAX :: int where "LONG_MAX = 2 ^ 63 - 1"

fun digits_value :: "nat \<Rightarrow> cstring \<Rightarrow> nat" where
  "digits_value acc [] = acc"
| "digits_value acc (c # s) = digits_value (10 * acc + (of_char c - 48)) s"

text \<open>
  \<open>strtol (str, &end, 10)\<close> with a 64-bit \<open>long\<close>: white space, an optional sign, digits; the
  value is clamped to the range of \<open>long\<close>. \<open>None\<close> when there is no digit, where
  \<open>end = str\<close>; otherwise the value and the rest of the string.
\<close>

definition strtol10 :: "cstring \<Rightarrow> (int \<times> cstring) option" where
  "strtol10 str =
     (let s = dropWhile is_space str;
          neg = (char_at s 0 = CHR ''-'');
          s = (if char_at s 0 = CHR ''-'' \<or> char_at s 0 = CHR ''+'' then tl s else s);
          ds = takeWhile is_digit s;
          v = int (digits_value 0 ds)
      in if ds = [] then None
         else Some (if neg then max (- LONG_MAX - 1) (- v) else min LONG_MAX v, dropWhile is_digit s))"

text \<open>\<open>svn_revnum_parse\<close>: the revision and \<open>*endptr\<close>.\<close>

definition svn_revnum_parse :: "cstring \<Rightarrow> (int \<times> cstring) svn_result" where
  "svn_revnum_parse str =
     (case strtol10 str of
        None \<Rightarrow> Inl Revnum_parse_failure
      | Some (result, endptr) \<Rightarrow>
          if result < 0 then Inl Revnum_parse_failure else Inr (result, endptr))"

text \<open>\<open>%ld\<close>.\<close>

fun decimal :: "nat \<Rightarrow> cstring" where
  "decimal n = (if n < 10 then [char_of (48 + n)] else decimal (n div 10) @ [char_of (48 + n mod 10)])"

declare decimal.simps [simp del]

definition printf_ld :: "int \<Rightarrow> cstring" where
  "printf_ld n = (if n < 0 then CHR ''-'' # decimal (nat (- n)) else decimal (nat n))"

section \<open>Printing\<close>

definition range_to_string :: "merge_range \<Rightarrow> cstring" where
  "range_to_string rng =
     (let mark = (if mr_inheritable rng then [] else ''*'') in
      if mr_start rng = mr_end rng - 1 then printf_ld (mr_end rng) @ mark
      else if mr_start rng - 1 = mr_end rng then CHR ''-'' # printf_ld (mr_start rng) @ mark
      else if mr_start rng < mr_end rng
      then printf_ld (mr_start rng + 1) @ ''-'' @ printf_ld (mr_end rng) @ mark
      else printf_ld (mr_start rng) @ ''-'' @ printf_ld (mr_end rng + 1) @ mark)"

fun svn_rangelist_to_string :: "rangelist \<Rightarrow> cstring" where
  "svn_rangelist_to_string [] = []"
| "svn_rangelist_to_string [rng] = range_to_string rng"
| "svn_rangelist_to_string (rng # rangelist) =
     range_to_string rng @ '','' @ svn_rangelist_to_string rangelist"

section \<open>Parsing\<close>

text \<open>
  One revision or revision range, up to the character after it: the first half of the loop
  body of \<open>parse_rangelist\<close>.
\<close>

definition parse_revision_element :: "cstring \<Rightarrow> (merge_range \<times> cstring) svn_result" where
  "parse_revision_element cur =
     svn_try (svn_revnum_parse cur) (\<lambda>(firstrev, cur).
       if cur \<noteq> [] \<and> char_at cur 0 \<notin> {CHR ''-'', newline, CHR '','', CHR ''*''}
       then Inl Mergeinfo_parse_error
       else if firstrev = 0 then Inl Mergeinfo_parse_error
       else if char_at cur 0 = CHR ''-''
       then svn_try (svn_revnum_parse (tl cur)) (\<lambda>(secondrev, cur).
              if firstrev > secondrev then Inl Mergeinfo_parse_error
              else if firstrev = secondrev then Inl Mergeinfo_parse_error
              else Inr (mrange (firstrev - 1) secondrev True, cur))
       else Inr (mrange (firstrev - 1) firstrev True, cur))"

lemma strtol10_shorter:
  assumes "strtol10 s = Some (v, r)"
  shows "length r < length s"
proof -
  define t where "t = dropWhile is_space s"
  define u where "u = (if char_at t 0 = CHR ''-'' \<or> char_at t 0 = CHR ''+'' then tl t else t)"
  have r: "r = dropWhile is_digit u" "takeWhile is_digit u \<noteq> []"
    using assms by (auto simp: strtol10_def Let_def t_def u_def split: if_splits)
  have "length r < length u"
    using r takeWhile_dropWhile_id [of is_digit u]
    by (metis add.commute length_append length_greater_0_conv less_add_same_cancel1)
  moreover have "length u \<le> length t" by (auto simp: u_def)
  moreover have "length t \<le> length s" by (simp add: t_def length_dropWhile_le)
  ultimately show ?thesis by simp
qed

lemma revnum_parse_shorter: "svn_revnum_parse s = Inr (v, r) \<Longrightarrow> length r < length s"
  by (auto simp: svn_revnum_parse_def split: option.splits if_splits dest: strtol10_shorter)

lemma parse_element_shorter:
  assumes "parse_revision_element s = Inr (rng, r)"
  shows "length r < length s"
  using assms
  by (auto simp: parse_revision_element_def split: if_splits prod.splits
      dest!: revnum_parse_shorter)

function parse_ranges :: "cstring \<Rightarrow> rangelist \<Rightarrow> (rangelist \<times> cstring) svn_result" where
  "parse_ranges cur rangelist =
     (if cur = [] then Inl Mergeinfo_parse_error
      else if hd cur = newline then Inr (rangelist, cur)
      else svn_try (parse_revision_element cur) (\<lambda>(rng, cur).
        if cur = [] \<or> char_at cur 0 = newline then Inr (rangelist @ [rng], cur)
        else if char_at cur 0 = CHR '','' then parse_ranges (tl cur) (rangelist @ [rng])
        else if char_at cur 0 = CHR ''*''
        then let rng = rng\<lparr>mr_inheritable := False\<rparr>; cur = tl cur in
             if char_at cur 0 = CHR '','' then parse_ranges (tl cur) (rangelist @ [rng])
             else if cur = [] \<or> char_at cur 0 = newline then Inr (rangelist @ [rng], cur)
             else Inl Mergeinfo_parse_error
        else Inl Mergeinfo_parse_error))"
  by pat_completeness auto
termination
  by (relation "measure (\<lambda>(cur, rangelist). length cur)")
    (auto dest!: parse_element_shorter)

declare parse_ranges.simps [simp del]

text \<open>\<open>parse_rangelist\<close> appends to an array its callers have just made.\<close>

definition parse_rangelist :: "cstring \<Rightarrow> (rangelist \<times> cstring) svn_result" where
  "parse_rangelist input =
     (let cur = dropWhile (\<lambda>c. c \<noteq> newline \<and> is_space c) input in
      if char_at cur 0 = newline \<or> cur = [] then Inr ([], cur)
      else parse_ranges cur [])"

definition svn_rangelist_parse :: "cstring \<Rightarrow> rangelist svn_result" where
  "svn_rangelist_parse str = svn_try (parse_rangelist str) (\<lambda>(rangelist, s). Inr rangelist)"

section \<open>The printed form is parsed back\<close>

lemma is_digit_char_of: "n < 10 \<Longrightarrow> is_digit (char_of (48 + n :: nat))"
  by (simp add: is_digit_def)

lemma decimal_digits: "\<forall>c\<in>set (decimal n). is_digit c"
proof (induction n rule: decimal.induct)
  case (1 n)
  then show ?case
    by (simp add: decimal.simps [of n] is_digit_char_of)
qed

lemma decimal_nonempty [simp]: "decimal n \<noteq> []"
  by (simp add: decimal.simps [of n])

lemma digits_value_append: "digits_value acc (s @ t) = digits_value (digits_value acc s) t"
  by (induction acc s rule: digits_value.induct) auto

lemma digits_value_decimal [simp]: "digits_value 0 (decimal n) = n"
proof (induction n rule: decimal.induct)
  case (1 n)
  then show ?case
    by (simp add: decimal.simps [of n] digits_value_append)
qed

text \<open>What may follow a number without being taken as a part of it.\<close>

definition stops :: "cstring \<Rightarrow> bool" where
  "stops r \<longleftrightarrow> r = [] \<or> \<not> is_digit (hd r)"

lemma stops_simps [simp]:
  "stops []" "stops (c # r) \<longleftrightarrow> \<not> is_digit c"
  by (simp_all add: stops_def)

lemma not_digits [simp]:
  "\<not> is_digit CHR ''-''" "\<not> is_digit CHR '',''" "\<not> is_digit CHR ''*''" "\<not> is_digit newline"
  "\<not> is_digit CHR ''+''" "\<not> is_digit CHR '':''"
  by (simp_all add: is_digit_def newline_def)

lemma digit_not_space: "is_digit c \<Longrightarrow> \<not> is_space c"
  by (auto simp: is_digit_def is_space_def)

lemma strtol10_printf:
  assumes "0 \<le> n" and "n \<le> LONG_MAX" and "stops r"
  shows "strtol10 (printf_ld n @ r) = Some (n, r)"
proof -
  let ?d = "decimal (nat n)"
  obtain c s where d: "?d = c # s" by (cases ?d) auto
  have digits: "takeWhile is_digit (?d @ r) = ?d" "dropWhile is_digit (?d @ r) = r"
    using decimal_digits [of "nat n"] assms(3)
    by (cases r; simp add: takeWhile_append2 dropWhile_append2)+
  have c: "is_digit c" using decimal_digits [of "nat n"] d by auto
  then have "\<not> is_space c" "c \<noteq> CHR ''-''" "c \<noteq> CHR ''+''"
    using digit_not_space by auto
  then have first: "dropWhile is_space (?d @ r) = ?d @ r" "char_at (?d @ r) 0 \<noteq> CHR ''-''"
    "char_at (?d @ r) 0 \<noteq> CHR ''+''"
    using d by auto
  show ?thesis
    using assms(1,2) first digits by (simp add: strtol10_def printf_ld_def)
qed

lemma revnum_parse_printf:
  "0 \<le> n \<Longrightarrow> n \<le> LONG_MAX \<Longrightarrow> stops r \<Longrightarrow> svn_revnum_parse (printf_ld n @ r) = Inr (n, r)"
  by (simp add: svn_revnum_parse_def strtol10_printf)

definition printable :: "merge_range \<Rightarrow> bool" where
  "printable rng \<longleftrightarrow> IS_VALID_FORWARD_RANGE rng \<and> mr_end rng \<le> LONG_MAX"

definition mark_of :: "merge_range \<Rightarrow> cstring" where
  "mark_of rng = (if mr_inheritable rng then [] else ''*'')"

definition revs_to_string :: "merge_range \<Rightarrow> cstring" where
  "revs_to_string rng = (if mr_start rng = mr_end rng - 1 then printf_ld (mr_end rng)
     else printf_ld (mr_start rng + 1) @ ''-'' @ printf_ld (mr_end rng))"

lemma range_to_string_forward:
  "printable rng \<Longrightarrow> range_to_string rng = revs_to_string rng @ mark_of rng"
  by (simp add: range_to_string_def revs_to_string_def mark_of_def printable_def valid_range_iff)

lemma parse_element_printed:
  assumes "printable rng" and "r = [] \<or> hd r \<in> {newline, CHR '','', CHR ''*''}"
  shows "parse_revision_element (revs_to_string rng @ r)
    = Inr (mrange (mr_start rng) (mr_end rng) True, r)"
proof -
  have v: "0 \<le> mr_start rng" "mr_start rng < mr_end rng" "mr_end rng \<le> LONG_MAX"
    using assms(1) by (auto simp: printable_def valid_range_iff)
  have r: "stops r" "r = [] \<or> char_at r 0 \<in> {newline, CHR '','', CHR ''*''}"
    using assms(2) by (cases r; auto)+
  have nodash: "char_at r 0 \<noteq> CHR ''-''" using r(2) by (cases r) (auto simp: newline_def)
  show ?thesis
  proof (cases "mr_start rng = mr_end rng - 1")
    case True
    then show ?thesis
      using v r nodash revnum_parse_printf [of "mr_end rng" r]
      by (auto simp: parse_revision_element_def revs_to_string_def)
  next
    case False
    then show ?thesis
      using v r revnum_parse_printf [of "mr_end rng" r]
        revnum_parse_printf [of "mr_start rng + 1" "CHR ''-'' # printf_ld (mr_end rng) @ r"]
      by (simp add: parse_revision_element_def revs_to_string_def)
  qed
qed

lemma range_string_first:
  assumes "printable rng"
  obtains c s where "range_to_string rng = c # s" and "is_digit c"
proof -
  define n where "n = (if mr_start rng = mr_end rng - 1 then mr_end rng else mr_start rng + 1)"
  have n: "0 \<le> n" using assms by (auto simp: n_def printable_def valid_range_iff)
  obtain x where x: "range_to_string rng = decimal (nat n) @ x"
    using n by (simp add: range_to_string_forward [OF assms] revs_to_string_def printf_ld_def n_def
        split: if_splits)
  obtain c s where d: "decimal (nat n) = c # s" by (cases "decimal (nat n)") auto
  then have "is_digit c" using decimal_digits [of "nat n"] by auto
  then show thesis using that [of c "s @ x"] x d by simp
qed

lemma rangelist_string_first:
  assumes "printable rng"
  shows "\<exists>c s. svn_rangelist_to_string (rng # rl) = c # s \<and> is_digit c"
proof -
  obtain c s where "range_to_string rng = c # s" "is_digit c" by (rule range_string_first [OF assms])
  then show ?thesis by (cases rl) auto
qed

lemma parse_ranges_step:
  assumes "printable rng" and "rest = [] \<or> hd rest = newline \<or> hd rest = CHR '',''"
  shows "parse_ranges (range_to_string rng @ rest) acc
    = (if rest = [] \<or> hd rest = newline then Inr (acc @ [rng], rest)
       else parse_ranges (tl rest) (acc @ [rng]))"
proof -
  obtain c s where cs: "range_to_string rng = c # s" "is_digit c" by (rule range_string_first [OF assms(1)])
  then have "hd (range_to_string rng @ rest) \<noteq> newline" "range_to_string rng @ rest \<noteq> []"
    by auto
  moreover have "parse_revision_element (range_to_string rng @ rest)
      = Inr (mrange (mr_start rng) (mr_end rng) True, mark_of rng @ rest)"
    using parse_element_printed [OF assms(1), of "mark_of rng @ rest"] assms
    by (cases rest) (auto simp: range_to_string_forward mark_of_def)
  moreover obtain a b h where "rng = mrange a b h" by (cases rng) auto
  ultimately show ?thesis
    using parse_ranges.simps [of "range_to_string rng @ rest" acc] assms(2)
    by (cases rest; cases h) (auto simp: mark_of_def newline_def)
qed

lemma parse_ranges_printed:
  assumes "\<forall>rng\<in>set (rng # rl). printable rng" and "rest = [] \<or> hd rest = newline"
  shows "parse_ranges (svn_rangelist_to_string (rng # rl) @ rest) acc = Inr (acc @ rng # rl, rest)"
  using assms(1)
proof (induction rl arbitrary: rng acc)
  case Nil
  then show ?case using parse_ranges_step [of rng rest acc] assms(2) by auto
next
  case (Cons r rl)
  have "parse_ranges (svn_rangelist_to_string (rng # r # rl) @ rest) acc
      = parse_ranges (svn_rangelist_to_string (r # rl) @ rest) (acc @ [rng])"
    using parse_ranges_step [of rng "CHR '','' # svn_rangelist_to_string (r # rl) @ rest" acc] Cons.prems
    by (simp add: newline_def)
  then show ?case using Cons by simp
qed

lemma parse_rangelist_printed:
  assumes "\<forall>rng\<in>set rl. printable rng" and "rest = [] \<or> hd rest = newline"
  shows "parse_rangelist (svn_rangelist_to_string rl @ rest) = Inr (rl, rest)"
proof (cases rl)
  case Nil
  then show ?thesis using assms(2) by (cases rest) (auto simp: parse_rangelist_def)
next
  case (Cons rng rl')
  obtain c s where cs: "svn_rangelist_to_string (rng # rl') = c # s" "is_digit c"
    using assms(1) Cons rangelist_string_first [of rng rl'] by auto
  then have "c \<noteq> newline" "\<not> is_space c" using digit_not_space by auto
  then show ?thesis
    using parse_ranges_printed [of rng rl' rest "[]"] assms Cons cs
    by (simp add: parse_rangelist_def)
qed

text \<open>What the parser accepts describes forward ranges within \<open>long\<close>.\<close>

lemma revnum_parse_bounds:
  assumes "svn_revnum_parse s = Inr (n, r)"
  shows "0 \<le> n \<and> n \<le> LONG_MAX"
  using assms
  by (auto simp: svn_revnum_parse_def strtol10_def Let_def LONG_MAX_def split: option.splits if_splits)

lemma parse_element_printable:
  assumes "parse_revision_element s = Inr (rng, r)"
  shows "printable rng \<and> mr_inheritable rng"
  using assms
  by (auto simp: parse_revision_element_def printable_def valid_range_iff
      split: if_splits prod.splits dest!: revnum_parse_bounds)

lemma parse_ranges_printable:
  assumes "parse_ranges s acc = Inr (rl, r)" and "\<forall>rng\<in>set acc. printable rng"
  shows "(\<forall>rng\<in>set rl. printable rng) \<and> (r = [] \<or> hd r = newline)"
  using assms
proof (induction s acc rule: parse_ranges.induct)
  case (1 s acc)
  show ?case
  proof (cases "s = [] \<or> hd s = newline")
    case True
    then show ?thesis using "1.prems" parse_ranges.simps [of s acc] by (auto split: if_splits)
  next
    case False
    then obtain rng t where el: "parse_revision_element s = Inr (rng, t)"
      using "1.prems"(1) parse_ranges.simps [of s acc]
      by (cases "parse_revision_element s") (auto split: if_splits)
    let ?n = "rng\<lparr>mr_inheritable := False\<rparr>"
    have s: "s \<noteq> []" "hd s \<noteq> newline" using False by auto
    have p: "printable rng" "printable ?n"
      using parse_element_printable [OF el] by (auto simp: printable_def valid_range_iff)
    have res: "(if t = [] \<or> char_at t 0 = newline then Inr (acc @ [rng], t)
        else if char_at t 0 = CHR '','' then parse_ranges (tl t) (acc @ [rng])
        else if char_at t 0 = CHR ''*''
        then if char_at (tl t) 0 = CHR '','' then parse_ranges (tl (tl t)) (acc @ [?n])
             else if tl t = [] \<or> char_at (tl t) 0 = newline then Inr (acc @ [?n], tl t)
             else Inl Mergeinfo_parse_error
        else Inl Mergeinfo_parse_error) = Inr (rl, r)"
      using "1.prems"(1) s
      by (simp only: parse_ranges.simps [of s acc] if_False el svn_try.simps prod.case Let_def)
    have nl: "char_at u 0 = newline \<longleftrightarrow> u \<noteq> [] \<and> hd u = newline" for u
      by (cases u) (auto simp: newline_def)
    have acc: "\<forall>r\<in>set (acc @ [rng]). printable r" "\<forall>r\<in>set (acc @ [?n]). printable r"
      using p "1.prems"(2) by auto
    show ?thesis
    proof (cases "t = [] \<or> char_at t 0 = newline")
      case True
      then show ?thesis using res acc(1) nl [of t] by auto
    next
      case end_t: False
      show ?thesis
      proof (cases "char_at t 0 = CHR '',''")
        case True
        with res end_t have "parse_ranges (tl t) (acc @ [rng]) = Inr (rl, r)" by simp
        then show ?thesis by (rule "1.IH"(1) [OF s el refl end_t True _ acc(1)])
      next
        case no_comma: False
        show ?thesis
        proof (cases "char_at t 0 = CHR ''*'' \<and> char_at (tl t) 0 = CHR '',''")
          case True
          with res end_t have "parse_ranges (tl (tl t)) (acc @ [?n]) = Inr (rl, r)" by simp
          then show ?thesis
            by (rule "1.IH"(2) [OF s el refl end_t no_comma conjunct1 [OF True] refl refl
                  conjunct2 [OF True] _ acc(2)])
        next
          case False
          then have "rl = acc @ [?n]" "r = tl t" "tl t = [] \<or> char_at (tl t) 0 = newline"
            using res end_t no_comma by (simp_all split: if_splits)
          then show ?thesis using acc(2) nl [of "tl t"] by auto
        qed
      qed
    qed
  qed
qed

lemma parse_rangelist_printable:
  assumes "parse_rangelist s = Inr (rl, r)"
  shows "(\<forall>rng\<in>set rl. printable rng) \<and> (r = [] \<or> hd r = newline)"
proof -
  have nl: "char_at u 0 = newline \<longleftrightarrow> u \<noteq> [] \<and> hd u = newline" for u
    by (cases u) (auto simp: newline_def)
  show ?thesis
    using assms nl parse_ranges_printable [of _ "[]" rl r]
    by (auto simp: parse_rangelist_def Let_def split: if_splits)
qed

lemma printable_rangelist:
  "\<forall>rng\<in>set rl. printable rng \<Longrightarrow> \<forall>rng\<in>set rl. IS_VALID_FORWARD_RANGE rng"
  by (simp add: printable_def)

section \<open>Properties\<close>

text \<open>Printing a rangelist of forward ranges within \<open>long\<close> and parsing the text gives the
  rangelist back, also when the text is followed by a further line.\<close>

theorem rangelist_text_roundtrip:
  assumes "\<forall>rng\<in>set rl. IS_VALID_FORWARD_RANGE rng \<and> mr_end rng \<le> LONG_MAX"
  shows "svn_rangelist_parse (svn_rangelist_to_string rl) = Inr rl
    \<and> parse_rangelist (svn_rangelist_to_string rl @ newline # line) = Inr (rl, newline # line)"
proof -
  have "\<forall>rng\<in>set rl. printable rng" using assms by (simp add: printable_def)
  then show ?thesis
    using parse_rangelist_printed [of rl "[]"] parse_rangelist_printed [of rl "newline # line"]
    by (simp add: svn_rangelist_parse_def)
qed

theorem rangelist_text_roundtrip_witness:
  "svn_rangelist_parse (svn_rangelist_to_string [mrange 4 5 True, mrange 9 12 False])
     = Inr [mrange 4 5 True, mrange 9 12 False]
   \<and> parse_rangelist (svn_rangelist_to_string [mrange 4 5 True, mrange 9 12 False]
        @ newline # ''/b:1'') = Inr ([mrange 4 5 True, mrange 9 12 False], newline # ''/b:1'')"
  by (rule rangelist_text_roundtrip) (simp add: valid_range_iff LONG_MAX_def)

text \<open>Whatever text \<open>C31. parse_rangelist\<close> accepts, it returns forward ranges within \<open>long\<close> and
  stops at the end of the input or at a newline; so printing what was parsed and parsing it
  again changes nothing.\<close>

theorem parse_rangelist_sound:
  assumes "parse_rangelist s = Inr (rl, rest)"
  shows "(\<forall>rng\<in>set rl. IS_VALID_FORWARD_RANGE rng \<and> mr_end rng \<le> LONG_MAX)
    \<and> (rest = [] \<or> hd rest = newline)
    \<and> svn_rangelist_parse (svn_rangelist_to_string rl) = Inr rl"
  using parse_rangelist_printable [OF assms] parse_rangelist_printed [of rl "[]"]
  by (auto simp: printable_def svn_rangelist_parse_def)

theorem parse_rangelist_sound_witness:
  "IS_VALID_FORWARD_RANGE (mrange 4 7 False) \<and> 7 \<le> LONG_MAX \<and> hd [newline] = newline
    \<and> svn_rangelist_parse (svn_rangelist_to_string [mrange 4 7 False]) = Inr [mrange 4 7 False]"
proof -
  have "parse_rangelist ('' 5-7*'' @ [newline]) = Inr ([mrange 4 7 False], [newline])"
    by code_simp
  from parse_rangelist_sound [OF this] show ?thesis by simp
qed

text \<open>A range may run over a line break: \<open>strtol\<close> skips the newline after the hyphen, so two
  lines are read as one range, although the parser is to read only as far as a newline.\<close>

theorem parse_range_across_lines:
  "parse_rangelist (''5-'' @ newline # ''7'') = Inr ([mrange 4 7 True], [])
   \<and> parse_rangelist (''5'' @ newline # ''-7'') = Inr ([mrange 4 5 True], newline # ''-7'')"
  by code_simp

end
