(* ===== verification/Svn_Hash.thy ===== *)
theory Svn_Hash
  imports Svn_Paths
begin

text \<open>
  Hash tables keyed by strings: an \<open>apr_hash_t\<close> is the association list of its entries in
  iteration order, with distinct keys, and a \<open>NULL\<close> hash is \<open>None\<close>. The iteration order of APR
  is not specified, so the properties speak of lookups only. \<open>svn_hash_diff\<close>
  (\<open>libsvn_subr/hash.c\<close>) is a fold of its callback over the keys of both tables.
\<close>

type_synonym 'v hash = "(cstring \<times> 'v) list"

abbreviation hash_ok :: "'v hash \<Rightarrow> bool" where
  "hash_ok ht \<equiv> distinct (map fst ht)"

abbreviation apr_hash_get :: "'v hash \<Rightarrow> cstring \<Rightarrow> 'v option" where
  "apr_hash_get ht key \<equiv> map_of ht key"

text \<open>\<open>apr_hash_set\<close> with a value, and with \<open>NULL\<close>.\<close>

abbreviation apr_hash_set :: "'v hash \<Rightarrow> cstring \<Rightarrow> 'v \<Rightarrow> 'v hash" where
  "apr_hash_set ht key val \<equiv> AList.update key val ht"

abbreviation apr_hash_unset :: "'v hash \<Rightarrow> cstring \<Rightarrow> 'v hash" where
  "apr_hash_unset ht key \<equiv> AList.delete key ht"

datatype svn_hash_diff_key_status = Key_both | Key_a | Key_b

definition svn_hash_diff ::
    "'v hash option \<Rightarrow> 'w hash option \<Rightarrow> (cstring \<Rightarrow> svn_hash_diff_key_status \<Rightarrow> 's \<Rightarrow> 's svn_result)
      \<Rightarrow> 's \<Rightarrow> 's svn_result" where
  "svn_hash_diff hash_a hash_b diff_func baton =
     (svn_try
           (fold_result (\<lambda>key. diff_func key
              (if (case hash_b of None \<Rightarrow> False | Some ht \<Rightarrow> apr_hash_get ht key \<noteq> None)
               then Key_both else Key_a))
              (case hash_a of None \<Rightarrow> [] | Some ht \<Rightarrow> map fst ht) baton)
           (fold_result (\<lambda>key baton.
              if \<not> (case hash_a of None \<Rightarrow> False | Some ht \<Rightarrow> apr_hash_get ht key \<noteq> None)
              then diff_func key Key_b baton else Inr baton)
              (case hash_b of None \<Rightarrow> [] | Some ht \<Rightarrow> map fst ht)))"

section \<open>Loops that fill a new table\<close>

text \<open>
  The loop most functions on mergeinfo have: compute something for each entry, and store
  it under the same key unless there is nothing to store.
\<close>

definition hash_collect ::
    "(cstring \<Rightarrow> 'v \<Rightarrow> 'w option svn_result) \<Rightarrow> 'v hash \<Rightarrow> 'w hash \<Rightarrow> 'w hash svn_result" where
  "hash_collect f ht out = fold_result (\<lambda>(key, val) out.
     svn_try (f key val) (\<lambda>r. case r of None \<Rightarrow> Inr out | Some w \<Rightarrow> Inr (apr_hash_set out key w))) ht out"

lemma hash_collect_Inr:
  assumes "hash_ok ht" and "\<And>key val. (key, val) \<in> set ht \<Longrightarrow> f key val = Inr (g key val)"
    and "hash_ok out0" and "\<forall>key\<in>fst ` set ht. map_of out0 key = None"
  shows "\<exists>out. hash_collect f ht out0 = Inr out \<and> hash_ok out
    \<and> (\<forall>key. map_of out key = (case map_of ht key of None \<Rightarrow> map_of out0 key | Some val \<Rightarrow> g key val))"
  using assms
proof (induction ht arbitrary: out0)
  case Nil
  then show ?case by (simp add: hash_collect_def)
next
  case (Cons entry ht)
  obtain k v where e: "entry = (k, v)" by fastforce
  let ?out = "case g k v of None \<Rightarrow> out0 | Some w \<Rightarrow> apr_hash_set out0 k w"
  have step: "hash_collect f (entry # ht) out0 = hash_collect f ht ?out"
    using Cons.prems(2) [of k v] e by (simp add: hash_collect_def split: option.splits)
  have "hash_ok ?out" using Cons.prems(3) by (auto simp: distinct_update split: option.splits)
  moreover have m: "map_of ?out = (if g k v = None then map_of out0 else (map_of out0)(k := g k v))"
    by (auto simp: update_conv split: option.splits)
  moreover have "\<forall>key\<in>fst ` set ht. map_of ?out key = None"
    using Cons.prems(1,4) e m by auto
  ultimately obtain out where "hash_collect f ht ?out = Inr out" "hash_ok out"
    "\<forall>key. map_of out key = (case map_of ht key of None \<Rightarrow> map_of ?out key | Some val \<Rightarrow> g key val)"
    using Cons.IH [of ?out] Cons.prems(1,2) by auto
  moreover have "map_of ht k = None" "map_of out0 k = None"
    using Cons.prems(1,4) e by (auto simp: map_of_eq_None_iff)
  ultimately show ?case using step m e by (auto split: option.splits)
qed

lemma hash_collect_empty:
  assumes "hash_ok ht" and "\<And>key val. (key, val) \<in> set ht \<Longrightarrow> f key val = Inr (g key val)"
  shows "\<exists>out. hash_collect f ht [] = Inr out \<and> hash_ok out
    \<and> (\<forall>key. map_of out key = (case map_of ht key of None \<Rightarrow> None | Some val \<Rightarrow> g key val))"
proof -
  have "\<exists>out. hash_collect f ht [] = Inr out \<and> hash_ok out
    \<and> (\<forall>key. map_of out key = (case map_of ht key of None \<Rightarrow> map_of [] key | Some val \<Rightarrow> g key val))"
    by (rule hash_collect_Inr) (use assms in auto)
  then show ?thesis unfolding map_of.simps .
qed

text \<open>\<open>svn_hash_diff\<close> calls the callback once for each key of either table.\<close>

lemma hash_diff_fold:
  "svn_hash_diff (Some ht_a) (Some ht_b) diff_func baton
    = fold_result (\<lambda>(key, status). diff_func key status)
        (map (\<lambda>key. (key, if map_of ht_b key \<noteq> None then Key_both else Key_a)) (map fst ht_a)
         @ map (\<lambda>key. (key, Key_b)) (filter (\<lambda>key. map_of ht_a key = None) (map fst ht_b))) baton"
proof -
  have a: "fold_result (\<lambda>key. diff_func key (if map_of ht_b key \<noteq> None then Key_both else Key_a)) ks s
      = fold_result (\<lambda>(key, status). diff_func key status)
          (map (\<lambda>key. (key, if map_of ht_b key \<noteq> None then Key_both else Key_a)) ks) s" for ks s
    by (induction ks arbitrary: s) (auto intro: svn_try_cong)
  have b: "fold_result (\<lambda>key baton. if map_of ht_a key = None then diff_func key Key_b baton else Inr baton) ks s
      = fold_result (\<lambda>(key, status). diff_func key status)
          (map (\<lambda>key. (key, Key_b)) (filter (\<lambda>key. map_of ht_a key = None) ks)) s" for ks s
    by (induction ks arbitrary: s) (auto intro: svn_try_cong)
  show ?thesis
    by (simp add: svn_hash_diff_def fold_result_append a [unfolded not_None_eq] b cong: svn_try_cong)
qed

end
