(* ===== verification/Mergeinfo.thy ===== *)
theory Mergeinfo
  imports Rangelist_Merge Rangelist_Text Svn_Hash
begin

text \<open>
  Mergeinfo (\<open>libsvn_subr/mergeinfo.c\<close>): hashes from paths to rangelists, catalogs of them,
  their text form and the operations that walk them. Copies (\<open>svn_mergeinfo_dup\<close> and the
  like) are identities on values; that \<open>svn_mergeinfo_merge2\<close> stores rangelists of
  \<open>changes\<close> in \<open>mergeinfo\<close> without copying them is visible only to a caller who goes on
  using \<open>changes\<close>.
\<close>

type_synonym mergeinfo = "rangelist hash"
type_synonym mergeinfo_catalog = "mergeinfo hash"

section \<open>Text form\<close>

fun last_colon_loop :: "cstring \<Rightarrow> nat \<Rightarrow> nat option \<Rightarrow> nat option" where
  "last_colon_loop [] i last_colon = last_colon"
| "last_colon_loop (c # cur) i last_colon =
     (if c = newline then last_colon
      else last_colon_loop cur (Suc i) (if c = CHR '':'' then Some i else last_colon))"

text \<open>The pathname and the input from the colon on.\<close>

definition parse_pathname :: "cstring \<Rightarrow> (cstring \<times> cstring) svn_result" where
  "parse_pathname input =
     (case last_colon_loop input 0 None of
        None \<Rightarrow> Inl Mergeinfo_parse_error
      | Some last_colon \<Rightarrow>
          if last_colon = 0 then Inl Mergeinfo_parse_error
          else Inr (svn_fspath_canonicalize (take last_colon input), drop last_colon input))"

definition parse_revision_line ::
    "cstring \<Rightarrow> mergeinfo \<Rightarrow> (cstring \<times> mergeinfo) svn_result option" where
  "parse_revision_line input hash =
     svn_try_partial (Some (parse_pathname input)) (\<lambda>(pathname, input).
     if char_at input 0 \<noteq> CHR '':'' then Some (Inl Mergeinfo_parse_error)
     else svn_try_partial (Some (parse_rangelist (tl input))) (\<lambda>(rangelist, input).
       if rangelist = [] then Some (Inl Mergeinfo_parse_error)
       else if input \<noteq> [] \<and> char_at input 0 \<noteq> newline then Some (Inl Mergeinfo_parse_error)
       else let input = (if input \<noteq> [] then tl input else input) in
         svn_try_partial (Some (svn_rangelist_canonicalize rangelist)) (\<lambda>rangelist.
         svn_try_partial
           (case apr_hash_get hash pathname of
              Some existing_rangelist \<Rightarrow> svn_rangelist_merge2 rangelist existing_rangelist
            | None \<Rightarrow> Some (Inr rangelist))
           (\<lambda>rangelist. Some (Inr (input, apr_hash_set hash pathname rangelist))))))"

lemma parse_pathname_length:
  "parse_pathname s = Inr (p, r) \<Longrightarrow> length r \<le> length s"
  by (auto simp: parse_pathname_def split: option.splits if_splits)

lemma parse_rangelist_length:
  assumes "parse_rangelist s = Inr (rl, r)"
  shows "length r \<le> length s"
proof -
  have *: "length r \<le> length s" if "parse_ranges s acc = Inr (rl, r)" for s acc
    using that
  proof (induction s acc rule: parse_ranges.induct)
    case (1 s acc)
    show ?case
    proof (cases "s = [] \<or> hd s = newline")
      case True
      then show ?thesis using "1.prems" parse_ranges.simps [of s acc] by (auto split: if_splits)
    next
      case False
      then obtain rng t where el: "parse_revision_element s = Inr (rng, t)"
        using "1.prems"(1) parse_ranges.simps [of s acc]
        by (cases "parse_revision_element s") (auto split: if_splits)
      have s: "s \<noteq> []" "hd s \<noteq> newline" using False by auto
      show ?thesis
        using "1.prems" "1.IH"(1) [OF s el refl] "1.IH"(2) [OF s el refl _ _ _ refl refl]
          parse_element_shorter [OF el] s el
        by (auto simp: parse_ranges.simps [of s acc] Let_def split: if_splits)
    qed
  qed
  have "length (dropWhile (\<lambda>c. c \<noteq> newline \<and> is_space c) s) \<le> length s"
    by (rule length_dropWhile_le)
  with assms * show ?thesis
    by (auto simp: parse_rangelist_def Let_def split: if_splits intro: order_trans)
qed

lemma parse_revision_line_shorter:
  assumes "parse_revision_line s hash = Some (Inr (r, hash'))"
  shows "length r < length s"
proof -
  obtain p t rl u where t: "parse_pathname s = Inr (p, t)" "char_at t 0 = CHR '':''"
    "parse_rangelist (tl t) = Inr (rl, u)" "r = (if u \<noteq> [] then tl u else u)"
    using assms by (auto simp: parse_revision_line_def Let_def split: if_splits)
  have "t \<noteq> []" using t(2) by auto
  then show ?thesis
    using parse_pathname_length [OF t(1)] parse_rangelist_length [OF t(3)] t(4)
    by (cases t) (auto split: if_splits)
qed

function parse_top :: "cstring \<Rightarrow> mergeinfo \<Rightarrow> mergeinfo svn_result option" where
  "parse_top input hash =
     (if input \<noteq> []
      then svn_try_partial (parse_revision_line input hash) (\<lambda>(input, hash). parse_top input hash)
      else Some (Inr hash))"
  by pat_completeness auto
termination
  by (relation "measure (\<lambda>(input, hash). length input)") (auto dest: parse_revision_line_shorter)

declare parse_top.simps [simp del]

definition svn_mergeinfo_parse :: "cstring \<Rightarrow> mergeinfo svn_result option" where
  "svn_mergeinfo_parse input =
     (case parse_top input [] of
        Some (Inl err) \<Rightarrow> Some (Inl (if err \<noteq> Mergeinfo_parse_error then Mergeinfo_parse_error else err))
      | res \<Rightarrow> res)"

fun mergeinfo_lines :: "cstring \<Rightarrow> (cstring \<times> rangelist) list \<Rightarrow> cstring" where
  "mergeinfo_lines prfx [] = []"
| "mergeinfo_lines prfx ((key, rangelist) # elts) =
     prfx @ (if char_at key 0 = slash then [] else [slash]) @ key @ '':''
       @ svn_rangelist_to_string rangelist @ (if elts = [] then [] else [newline])
       @ mergeinfo_lines prfx elts"

definition mergeinfo_to_stringbuf :: "mergeinfo \<Rightarrow> cstring option \<Rightarrow> cstring" where
  "mergeinfo_to_stringbuf input prfx =
     (if length input > 0
      then mergeinfo_lines (case prfx of None \<Rightarrow> [] | Some p \<Rightarrow> p)
             (svn_sort_hash svn_sort_compare_items_as_paths input)
      else [])"

definition svn_mergeinfo_to_string :: "mergeinfo \<Rightarrow> cstring" where
  "svn_mergeinfo_to_string input = mergeinfo_to_stringbuf input None"

fun catalog_lines :: "cstring option \<Rightarrow> cstring option \<Rightarrow> (cstring \<times> mergeinfo) list \<Rightarrow> cstring" where
  "catalog_lines key_prefix val_prefix [] = []"
| "catalog_lines key_prefix val_prefix ((path1, mergeinfo) # elts) =
     (case key_prefix of None \<Rightarrow> [] | Some p \<Rightarrow> p) @ path1 @ [newline]
       @ mergeinfo_to_stringbuf mergeinfo (Some (case val_prefix of None \<Rightarrow> [] | Some p \<Rightarrow> p))
       @ [newline] @ catalog_lines key_prefix val_prefix elts"

definition svn_mergeinfo_catalog_to_formatted_string ::
    "mergeinfo_catalog option \<Rightarrow> cstring option \<Rightarrow> cstring option \<Rightarrow> cstring" where
  "svn_mergeinfo_catalog_to_formatted_string catalog key_prefix val_prefix =
     (case catalog of
        Some cat \<Rightarrow> if length cat > 0
          then catalog_lines key_prefix val_prefix
                 (svn_sort_hash svn_sort_compare_items_as_paths cat)
          else [newline]
      | None \<Rightarrow> [newline])"

section \<open>Difference, comparison, intersection\<close>

text \<open>
  \<open>mergeinfo_hash_diff_cb\<close>: the baton holds \<open>deleted\<close> and \<open>added\<close>, \<open>None\<close> for a table that
  is not asked for.
\<close>

definition mergeinfo_hash_diff_cb ::
    "mergeinfo \<Rightarrow> mergeinfo \<Rightarrow> bool \<Rightarrow> cstring \<Rightarrow> svn_hash_diff_key_status
      \<Rightarrow> mergeinfo option \<times> mergeinfo option \<Rightarrow> (mergeinfo option \<times> mergeinfo option) svn_result"
where
  "mergeinfo_hash_diff_cb from_mi to_mi consider_inheritance path status baton =
     (case baton of (deleted, added) \<Rightarrow>
      if status = Key_both
      then svn_try (svn_rangelist_diff (the (apr_hash_get from_mi path)) (the (apr_hash_get to_mi path))
                      consider_inheritance) (\<lambda>(deleted_rangelist, added_rangelist). Inr
             (if length deleted_rangelist > 0
              then map_option (\<lambda>ht. apr_hash_set ht path deleted_rangelist) deleted else deleted,
              if length added_rangelist > 0
              then map_option (\<lambda>ht. apr_hash_set ht path added_rangelist) added else added))
      else if status = Key_a \<and> deleted \<noteq> None
      then Inr (map_option (\<lambda>ht. apr_hash_set ht path (the (apr_hash_get from_mi path))) deleted, added)
      else if status = Key_b \<and> added \<noteq> None
      then Inr (deleted, map_option (\<lambda>ht. apr_hash_set ht path (the (apr_hash_get to_mi path))) added)
      else Inr (deleted, added))"

definition walk_mergeinfo_hash_for_diff ::
    "mergeinfo \<Rightarrow> mergeinfo \<Rightarrow> mergeinfo option \<Rightarrow> mergeinfo option \<Rightarrow> bool
      \<Rightarrow> (mergeinfo option \<times> mergeinfo option) svn_result" where
  "walk_mergeinfo_hash_for_diff from_mi to_mi deleted added consider_inheritance =
     svn_hash_diff (Some from_mi) (Some to_mi)
       (mergeinfo_hash_diff_cb from_mi to_mi consider_inheritance) (deleted, added)"

definition svn_mergeinfo_diff2 ::
    "mergeinfo option \<Rightarrow> mergeinfo option \<Rightarrow> bool \<Rightarrow> (mergeinfo \<times> mergeinfo) svn_result" where
  "svn_mergeinfo_diff2 from_opt to_opt consider_inheritance =
     (case (from_opt, to_opt) of
        (Some from_mi, None) \<Rightarrow> Inr (from_mi, [])
      | (None, Some to_mi) \<Rightarrow> Inr ([], to_mi)
      | (None, None) \<Rightarrow> Inr ([], [])
      | (Some from_mi, Some to_mi) \<Rightarrow>
          svn_try (walk_mergeinfo_hash_for_diff from_mi to_mi (Some []) (Some []) consider_inheritance)
            (\<lambda>(deleted, added). Inr (the deleted, the added)))"

definition svn_mergeinfo_remove2 ::
    "mergeinfo \<Rightarrow> mergeinfo \<Rightarrow> bool \<Rightarrow> mergeinfo svn_result" where
  "svn_mergeinfo_remove2 eraser whiteboard consider_inheritance =
     svn_try (walk_mergeinfo_hash_for_diff whiteboard eraser (Some []) None consider_inheritance)
       (\<lambda>(mergeinfo, _). Inr (the mergeinfo))"

text \<open>
  The quick comparison of two rangelists of the same length: \<open>Some True\<close> when all ranges
  match, \<open>Some False\<close> when the inheritance of one differs, \<open>None\<close> when a full comparison
  is needed.
\<close>

fun quick_compare :: "bool \<Rightarrow> rangelist \<Rightarrow> rangelist \<Rightarrow> bool option" where
  "quick_compare consider_inheritance (lrange # lhs) (rrange # rhs) =
     (if mr_start lrange \<noteq> mr_start rrange \<or> mr_end lrange \<noteq> mr_end rrange then None
      else if consider_inheritance \<and> mr_inheritable lrange \<noteq> mr_inheritable rrange
      then Some False
      else quick_compare consider_inheritance lhs rhs)"
| "quick_compare consider_inheritance [] [] = Some True"
| "quick_compare consider_inheritance lhs rhs = None"

definition full_compare :: "bool \<Rightarrow> rangelist \<Rightarrow> rangelist \<Rightarrow> bool svn_result" where
  "full_compare consider_inheritance lhs rhs =
     svn_try (svn_rangelist_diff lhs rhs consider_inheritance)
       (\<lambda>(deleted, added). Inr (\<not> (length deleted > 0 \<or> length added > 0)))"

text \<open>The loop over \<open>info1\<close>; \<open>return\<close> inside it ends the loop with the answer so far.\<close>

fun equals_loop :: "bool \<Rightarrow> mergeinfo \<Rightarrow> mergeinfo \<Rightarrow> bool svn_result" where
  "equals_loop consider_inheritance info2 [] = Inr True"
| "equals_loop consider_inheritance info2 ((key, lhs) # entries) =
     (case apr_hash_get info2 key of
        None \<Rightarrow> Inr False
      | Some rhs \<Rightarrow>
          (case (if length lhs = length rhs then quick_compare consider_inheritance lhs rhs else None) of
             Some True \<Rightarrow> equals_loop consider_inheritance info2 entries
           | Some False \<Rightarrow> Inr False
           | None \<Rightarrow> svn_try (full_compare consider_inheritance lhs rhs) (\<lambda>same.
               if same then equals_loop consider_inheritance info2 entries else Inr False)))"

definition svn_mergeinfo_equals ::
    "mergeinfo option \<Rightarrow> mergeinfo option \<Rightarrow> bool \<Rightarrow> bool svn_result" where
  "svn_mergeinfo_equals info1 info2 consider_inheritance =
     (case (info1, info2) of
        (None, None) \<Rightarrow> Inr True
      | (Some i1, Some i2) \<Rightarrow>
          if length i1 \<noteq> length i2 then Inr False else equals_loop consider_inheritance i2 i1
      | _ \<Rightarrow> Inr False)"

text \<open>A result that is stored only if it is not empty.\<close>

definition unless_empty :: "rangelist \<Rightarrow> rangelist option" where
  "unless_empty rangelist = (if length rangelist > 0 then Some rangelist else None)"

definition svn_mergeinfo_intersect2 ::
    "mergeinfo \<Rightarrow> mergeinfo \<Rightarrow> bool \<Rightarrow> mergeinfo svn_result" where
  "svn_mergeinfo_intersect2 mergeinfo1 mergeinfo2 consider_inheritance =
     hash_collect (\<lambda>path rangelist1.
       case apr_hash_get mergeinfo2 path of
         None \<Rightarrow> Inr None
       | Some rangelist2 \<Rightarrow>
           svn_try (svn_rangelist_intersect rangelist1 rangelist2 consider_inheritance)
             (\<lambda>rangelist2. Inr (unless_empty rangelist2))) mergeinfo1 []"

section \<open>Merging\<close>

definition svn_mergeinfo_merge2 :: "mergeinfo \<Rightarrow> mergeinfo \<Rightarrow> mergeinfo svn_result option" where
  "svn_mergeinfo_merge2 mergeinfo changes =
     (if length changes = 0 then Some (Inr mergeinfo)
      else fold_partial (\<lambda>(key, to_insert) mergeinfo.
        case apr_hash_get mergeinfo key of
          Some target \<Rightarrow>
            svn_try_partial (svn_rangelist_merge2 target to_insert)
              (\<lambda>target. Some (Inr (apr_hash_set mergeinfo key target)))
        | None \<Rightarrow> Some (Inr (apr_hash_set mergeinfo key to_insert))) changes mergeinfo)"

text \<open>
  The merge of two sorted catalogs; what is left of \<open>sorted_cat\<close> and \<open>sorted_changes\<close> stands
  for \<open>i\<close> and \<open>j\<close>.
\<close>

fun catalog_merge_loop ::
    "(cstring \<times> mergeinfo) list \<Rightarrow> (cstring \<times> mergeinfo) list \<Rightarrow> mergeinfo_catalog
      \<Rightarrow> mergeinfo_catalog svn_result option" where
  "catalog_merge_loop (cat_elt # sorted_cat) (change_elt # sorted_changes) mergeinfo_cat =
     (let res = svn_sort_compare_items_as_paths cat_elt change_elt in
      if res = 0
      then svn_try_partial (svn_mergeinfo_merge2 (snd cat_elt) (snd change_elt)) (\<lambda>mergeinfo.
             catalog_merge_loop sorted_cat sorted_changes
               (apr_hash_set mergeinfo_cat (fst cat_elt) mergeinfo))
      else if res < 0
      then catalog_merge_loop sorted_cat (change_elt # sorted_changes) mergeinfo_cat
      else catalog_merge_loop (cat_elt # sorted_cat) sorted_changes
             (apr_hash_set mergeinfo_cat (fst change_elt) (snd change_elt)))"
| "catalog_merge_loop sorted_cat sorted_changes mergeinfo_cat =
     Some (Inr (fold (\<lambda>elt mergeinfo_cat. apr_hash_set mergeinfo_cat (fst elt) (snd elt))
       sorted_changes mergeinfo_cat))"

definition svn_mergeinfo_catalog_merge ::
    "mergeinfo_catalog \<Rightarrow> mergeinfo_catalog \<Rightarrow> mergeinfo_catalog svn_result option" where
  "svn_mergeinfo_catalog_merge mergeinfo_cat changes_cat =
     catalog_merge_loop (svn_sort_hash svn_sort_compare_items_as_paths mergeinfo_cat)
       (svn_sort_hash svn_sort_compare_items_as_paths changes_cat) mergeinfo_cat"

definition svn_rangelist_merge_many :: "rangelist \<Rightarrow> mergeinfo \<Rightarrow> rangelist svn_result option" where
  "svn_rangelist_merge_many merged_rangelist merge_history =
     (if length merge_history > 0
      then fold_partial (\<lambda>(_, subtree_rangelist) merged_rangelist.
             svn_rangelist_merge2 merged_rangelist subtree_rangelist) merge_history merged_rangelist
      else Some (Inr merged_rangelist))"

section \<open>Whole-hash operations\<close>

definition svn_mergeinfo_sort :: "mergeinfo \<Rightarrow> mergeinfo" where
  "svn_mergeinfo_sort input = map (\<lambda>(path, rl). (path, qsort svn_sort_compare_ranges rl)) input"

definition svn_mergeinfo_canonicalize_ranges :: "mergeinfo \<Rightarrow> mergeinfo svn_result" where
  "svn_mergeinfo_canonicalize_ranges mergeinfo =
     traverse (\<lambda>(path, rl). svn_try (svn_rangelist_canonicalize rl) (\<lambda>rl. Inr (path, rl))) mergeinfo"

definition svn_mergeinfo_set_inheritance :: "mergeinfo \<Rightarrow> bool \<Rightarrow> mergeinfo" where
  "svn_mergeinfo_set_inheritance mergeinfo inheritable =
     map (\<lambda>(path, rl). (path, svn_rangelist_set_inheritance rl inheritable)) mergeinfo"

definition svn_mergeinfo_inheritable2 ::
    "mergeinfo \<Rightarrow> cstring option \<Rightarrow> int \<Rightarrow> int \<Rightarrow> bool \<Rightarrow> mergeinfo svn_result" where
  "svn_mergeinfo_inheritable2 mergeinfo path start_rev end_rev inheritable =
     hash_collect (\<lambda>key rangelist.
       svn_try
         (if (case path of None \<Rightarrow> True | Some p \<Rightarrow> svn_path_compare_paths p key = 0)
          then svn_rangelist_inheritable2 rangelist start_rev end_rev inheritable
          else Inr rangelist)
         (\<lambda>inheritable_rangelist. Inr (unless_empty inheritable_rangelist))) mergeinfo []"

definition svn_mergeinfo_remove_empty_rangelists :: "mergeinfo option \<Rightarrow> mergeinfo option \<times> bool" where
  "svn_mergeinfo_remove_empty_rangelists mergeinfo =
     (case mergeinfo of
        None \<Rightarrow> (None, False)
      | Some mi \<Rightarrow> (case fold (\<lambda>(path, rangelist) (mi, removed_some_ranges).
            if length rangelist = 0 then (apr_hash_unset mi path, True)
            else (mi, removed_some_ranges)) mi (mi, False) of (mi, removed) \<Rightarrow> (Some mi, removed)))"

definition svn_mergeinfo_is_noninheritable :: "mergeinfo option \<Rightarrow> bool" where
  "svn_mergeinfo_is_noninheritable mergeinfo =
     (case mergeinfo of None \<Rightarrow> False
      | Some mi \<Rightarrow> list_ex (\<lambda>(path, rangelist). list_ex (\<lambda>rng. \<not> mr_inheritable rng) rangelist) mi)"

definition svn_mergeinfo_get_range_endpoints :: "mergeinfo option \<Rightarrow> int \<times> int" where
  "svn_mergeinfo_get_range_endpoints mergeinfo =
     (case mergeinfo of None \<Rightarrow> (-1, -1)
      | Some mi \<Rightarrow> fold (\<lambda>(path, rangelist) (youngest_rev, oldest_rev).
          if length rangelist > 0
          then (if \<not> IS_VALID_REVNUM youngest_rev \<or> mr_end (last rangelist) > youngest_rev
                then mr_end (last rangelist) else youngest_rev,
                if \<not> IS_VALID_REVNUM oldest_rev \<or> mr_start (hd rangelist) < oldest_rev
                then mr_start (hd rangelist) else oldest_rev)
          else (youngest_rev, oldest_rev)) mi (-1, -1))"

definition svn_mergeinfo_filter_mergeinfo_by_ranges ::
    "mergeinfo option \<Rightarrow> int \<Rightarrow> int \<Rightarrow> bool \<Rightarrow> mergeinfo svn_result" where
  "svn_mergeinfo_filter_mergeinfo_by_ranges mergeinfo youngest_rev oldest_rev include_range =
     svn_try (svn_assert (IS_VALID_REVNUM youngest_rev)) (\<lambda>_.
     svn_try (svn_assert (IS_VALID_REVNUM oldest_rev)) (\<lambda>_.
     svn_try (svn_assert (oldest_rev < youngest_rev)) (\<lambda>_.
       case mergeinfo of None \<Rightarrow> Inr []
       | Some mi \<Rightarrow>
          hash_collect (\<lambda>path rangelist.
            if length rangelist > 0
            then svn_try (rangelist_intersect_or_remove
                     (svn_rangelist_initialize oldest_rev youngest_rev True) rangelist
                     (\<not> include_range) False)
                   (\<lambda>new_rangelist. Inr (unless_empty new_rangelist))
            else Inr None) mi [])))"

definition svn_mergeinfo_filter_catalog_by_ranges ::
    "mergeinfo_catalog \<Rightarrow> int \<Rightarrow> int \<Rightarrow> bool \<Rightarrow> mergeinfo_catalog svn_result" where
  "svn_mergeinfo_filter_catalog_by_ranges catalog youngest_rev oldest_rev include_range =
     hash_collect (\<lambda>path mergeinfo.
       svn_try (svn_mergeinfo_filter_mergeinfo_by_ranges (Some mergeinfo) youngest_rev oldest_rev
                  include_range)
         (\<lambda>filtered. Inr (if length filtered > 0 then Some filtered else None))) catalog []"

text \<open>The ranges of one rangelist that \<open>svn_mergeinfo__adjust_mergeinfo_rangelists\<close> keeps.\<close>

definition adjust_range :: "int \<Rightarrow> merge_range \<Rightarrow> merge_range option" where
  "adjust_range offset rng =
     (if mr_start rng + offset > 0 \<and> mr_end rng + offset > 0
      then Some (rng\<lparr>mr_start := (if mr_start rng + offset < 0 then 0 else mr_start rng + offset),
                     mr_end := (if mr_end rng + offset < 0 then 0 else mr_end rng + offset)\<rparr>)
      else None)"

definition svn_mergeinfo_adjust_mergeinfo_rangelists ::
    "mergeinfo option \<Rightarrow> int \<Rightarrow> mergeinfo svn_result" where
  "svn_mergeinfo_adjust_mergeinfo_rangelists mergeinfo offset =
     (case mergeinfo of None \<Rightarrow> Inr []
      | Some mi \<Rightarrow> hash_collect (\<lambda>path rangelist.
          Inr (unless_empty (List.map_filter (adjust_range offset) rangelist))) mi [])"

definition svn_mergeinfo_remove_prefix_from_catalog ::
    "mergeinfo_catalog \<Rightarrow> cstring \<Rightarrow> mergeinfo_catalog svn_result" where
  "svn_mergeinfo_remove_prefix_from_catalog in_catalog prefix_path =
     svn_try (svn_assert (char_at prefix_path 0 = slash)) (\<lambda>_.
       fold_result (\<lambda>(original_path, val) out_catalog.
         case svn_fspath_skip_ancestor prefix_path original_path of
           None \<Rightarrow> Inl Assertion_fail
         | Some new_path \<Rightarrow> Inr (apr_hash_set out_catalog new_path val)) in_catalog [])"

definition svn_mergeinfo_add_suffix_to_mergeinfo ::
    "mergeinfo \<Rightarrow> cstring \<Rightarrow> mergeinfo svn_result" where
  "svn_mergeinfo_add_suffix_to_mergeinfo mergeinfo suffix_relpath =
     svn_try (svn_assert (relpath_is_canonical suffix_relpath)) (\<lambda>_.
       Inr (fold (\<lambda>(fspath, rangelist) out. apr_hash_set out (svn_fspath_join fspath suffix_relpath) rangelist)
         mergeinfo []))"

text \<open>A location segment: its path, or \<open>None\<close> for a gap, and the range of its revisions.\<close>

record location_segment =
  seg_range_start :: int
  seg_range_end :: int
  seg_path :: "cstring option"

definition svn_mergeinfo_from_segments :: "location_segment list \<Rightarrow> mergeinfo" where
  "svn_mergeinfo_from_segments segments =
     fold (\<lambda>segment mergeinfo.
       case seg_path segment of
         None \<Rightarrow> mergeinfo
       | Some path \<Rightarrow>
           let source_path = slash # path;
               path_ranges = (case apr_hash_get mergeinfo source_path of None \<Rightarrow> [] | Some rl \<Rightarrow> rl)
           in if seg_range_start segment = 0 \<and> seg_range_end segment = 0 then mergeinfo
              else apr_hash_set mergeinfo source_path
                (path_ranges @ [mrange (max (seg_range_start segment - 1) 0) (seg_range_end segment) True]))
       segments []"

datatype mergeinfo_inheritance =
  Mergeinfo_explicit | Mergeinfo_inherited | Mergeinfo_nearest_ancestor

definition svn_inheritance_to_word :: "mergeinfo_inheritance \<Rightarrow> cstring" where
  "svn_inheritance_to_word inherit =
     (case inherit of Mergeinfo_inherited \<Rightarrow> ''inherited''
      | Mergeinfo_nearest_ancestor \<Rightarrow> ''nearest-ancestor''
      | _ \<Rightarrow> ''explicit'')"

definition svn_inheritance_from_word :: "cstring \<Rightarrow> mergeinfo_inheritance" where
  "svn_inheritance_from_word word =
     (if word = ''inherited'' then Mergeinfo_inherited
      else if word = ''nearest-ancestor'' then Mergeinfo_nearest_ancestor
      else Mergeinfo_explicit)"

section \<open>What a mergeinfo describes\<close>

text \<open>
  The revisions recorded for each path; a path that is missing and one with an empty
  rangelist describe the same. \<open>mi_ok\<close>: a hash of sorted, non-overlapping rangelists.
\<close>

definition opt_revs :: "rangelist option \<Rightarrow> int set" where
  "opt_revs rl = (case rl of None \<Rightarrow> {} | Some rl \<Rightarrow> rl_revs rl)"

definition mi_revs :: "mergeinfo \<Rightarrow> cstring \<Rightarrow> int set" where
  "mi_revs mi path = opt_revs (map_of mi path)"

definition mi_ok :: "mergeinfo \<Rightarrow> bool" where
  "mi_ok mi \<longleftrightarrow> hash_ok mi \<and> (\<forall>rl\<in>snd ` set mi. rl_wf rl)"

lemma mi_ok_get: "mi_ok mi \<Longrightarrow> map_of mi path = Some rl \<Longrightarrow> rl_wf rl"
  by (force simp: mi_ok_def dest: map_of_SomeD)

lemma mi_okI: "hash_ok mi \<Longrightarrow> (\<And>path rl. map_of mi path = Some rl \<Longrightarrow> rl_wf rl) \<Longrightarrow> mi_ok mi"
  by (auto simp: mi_ok_def)

lemma opt_revs_simps [simp]: "opt_revs None = {}" "opt_revs (Some rl) = rl_revs rl"
  by (simp_all add: opt_revs_def)

lemma unless_empty_revs [simp]: "opt_revs (unless_empty rl) = rl_revs rl"
  by (simp add: unless_empty_def)

lemma unless_empty_Some: "unless_empty rl = Some rl' \<longleftrightarrow> rl = rl' \<and> rl \<noteq> []"
  by (auto simp: unless_empty_def)

text \<open>
  A loop that applies a rangelist operation to the operands \<open>sel\<close> chooses for an entry
  describes the set operation, path by path, and stores no empty rangelist.
\<close>

context rangelist_op begin

lemma collect_op:
  assumes "mi_ok mi"
    and sel: "\<forall>path rl a b. map_of mi path = Some rl \<longrightarrow> sel path rl = Some (a, b) \<longrightarrow> rl_wf a \<and> rl_wf b"
    and f: "\<forall>path rl. f path rl = (case sel path rl of None \<Rightarrow> Inr None
        | Some (a, b) \<Rightarrow> svn_try (rop a b) (\<lambda>out. Inr (unless_empty out)))"
  shows "\<exists>out. hash_collect f mi [] = Inr out \<and> mi_ok out \<and> [] \<notin> snd ` set out
    \<and> (\<forall>path. mi_revs out path = (case map_of mi path of None \<Rightarrow> {}
         | Some rl \<Rightarrow> (case sel path rl of None \<Rightarrow> {} | Some (a, b) \<Rightarrow> sem (rl_revs a) (rl_revs b))))"
proof -
  define g where "g path rl = (case f path rl of Inr out \<Rightarrow> out | Inl _ \<Rightarrow> None)" for path rl
  have entry: "f path rl = Inr (g path rl)
      \<and> opt_revs (g path rl) = (case sel path rl of None \<Rightarrow> {} | Some (a, b) \<Rightarrow> sem (rl_revs a) (rl_revs b))
      \<and> (\<forall>out. g path rl = Some out \<longrightarrow> rl_wf out \<and> out \<noteq> [])"
    if "map_of mi path = Some rl" for path rl
  proof (cases "sel path rl")
    case None
    then show ?thesis by (simp add: f g_def)
  next
    case (Some ab)
    obtain a b where ab: "ab = (a, b)" by fastforce
    then have "rl_wf a" "rl_wf b" using sel that Some by auto
    then obtain out where "rop a b = Inr out" "rl_norm out" "rl_revs out = sem (rl_revs a) (rl_revs b)"
      using rop_ok by blast
    then show ?thesis using Some ab rl_norm_wf by (auto simp: f g_def unless_empty_Some)
  qed
  have ok: "hash_ok mi" using assms(1) by (simp add: mi_ok_def)
  obtain out where out: "hash_collect f mi [] = Inr out" "hash_ok out"
    "\<forall>key. map_of out key = (case map_of mi key of None \<Rightarrow> None | Some val \<Rightarrow> g key val)"
    using hash_collect_empty [OF ok, of f g] entry ok by auto
  have vals: "rl_wf rl \<and> rl \<noteq> []" if "map_of out path = Some rl" for path rl
    using that out(3) entry by (auto split: option.splits)
  have "[] \<notin> snd ` set out"
  proof
    assume "[] \<in> snd ` set out"
    then obtain path where "(path, []) \<in> set out" by auto
    then have "map_of out path = Some []" using out(2) by simp
    with vals show False by blast
  qed
  moreover have "mi_ok out" using vals by (intro mi_okI [OF out(2)]) blast
  moreover have "mi_revs out path = (case map_of mi path of None \<Rightarrow> {}
         | Some rl \<Rightarrow> (case sel path rl of None \<Rightarrow> {} | Some (a, b) \<Rightarrow> sem (rl_revs a) (rl_revs b)))" for path
    using out(3) entry by (auto simp: mi_revs_def split: option.splits)
  ultimately show ?thesis using out(1) by blast
qed

end

section \<open>Intersection and filtering\<close>

lemma intersect2_spec:
  assumes "mi_ok mi1" and "mi_ok mi2"
  shows "\<exists>out. svn_mergeinfo_intersect2 mi1 mi2 False = Inr out \<and> mi_ok out \<and> [] \<notin> snd ` set out
    \<and> (\<forall>path. mi_revs out path = mi_revs mi1 path \<inter> mi_revs mi2 path)"
proof -
  define sel where "sel path rl1 = map_option (\<lambda>rl2. (rl1, rl2)) (map_of mi2 path)"
    for path and rl1 :: rangelist
  let ?f = "\<lambda>path rl1. case map_of mi2 path of None \<Rightarrow> Inr None
    | Some rl2 \<Rightarrow> svn_try (svn_rangelist_intersect rl1 rl2 False) (\<lambda>out. Inr (unless_empty out))"
  have sel: "\<forall>path rl a b. map_of mi1 path = Some rl \<longrightarrow> sel path rl = Some (a, b)
      \<longrightarrow> rl_wf a \<and> rl_wf b"
    using mi_ok_get [OF assms(1)] mi_ok_get [OF assms(2)] by (auto simp: sel_def)
  have f: "\<forall>path rl. ?f path rl = (case sel path rl of None \<Rightarrow> Inr None
      | Some (a, b) \<Rightarrow> svn_try (svn_rangelist_intersect a b False) (\<lambda>out. Inr (unless_empty out)))"
    by (simp add: sel_def split: option.splits)
  obtain out where out: "hash_collect ?f mi1 [] = Inr out" "mi_ok out" "[] \<notin> snd ` set out"
    "\<forall>path. mi_revs out path = (case map_of mi1 path of None \<Rightarrow> {}
         | Some rl \<Rightarrow> (case sel path rl of None \<Rightarrow> {} | Some (a, b) \<Rightarrow> rl_revs a \<inter> rl_revs b))"
    using rl_intersect.collect_op [where sel = sel and f = "?f", OF assms(1) sel f] by blast
  then have "mi_revs out path = mi_revs mi1 path \<inter> mi_revs mi2 path" for path
    by (auto simp: mi_revs_def sel_def split: option.splits)
  with out show ?thesis by (auto simp: svn_mergeinfo_intersect2_def)
qed

lemma filter_mergeinfo_spec:
  assumes "mi_ok mi" and "0 \<le> oldest" and "oldest < youngest"
  shows "\<exists>out. svn_mergeinfo_filter_mergeinfo_by_ranges (Some mi) youngest oldest incl = Inr out
    \<and> mi_ok out \<and> [] \<notin> snd ` set out
    \<and> (\<forall>path. mi_revs out path = (if incl then mi_revs mi path \<inter> {oldest<..youngest}
         else mi_revs mi path - {oldest<..youngest}))"
proof -
  let ?window = "svn_rangelist_initialize oldest youngest True"
  have window: "rl_wf ?window" "rl_revs ?window = {oldest<..youngest}"
    using assms(2,3) by (auto simp: svn_rangelist_initialize_def valid_range_iff rev_set_def)
  define sel where "sel path rl = (if length rl > 0 then Some (?window, rl) else None)"
    for path :: cstring and rl :: rangelist
  let ?f = "\<lambda>path rl. if length rl > 0
    then svn_try (rangelist_intersect_or_remove ?window rl (\<not> incl) False) (\<lambda>out. Inr (unless_empty out))
    else Inr None"
  have unfold: "svn_mergeinfo_filter_mergeinfo_by_ranges (Some mi) youngest oldest incl
      = hash_collect ?f mi []"
    using assms(2,3) by (simp add: svn_mergeinfo_filter_mergeinfo_by_ranges_def IS_VALID_REVNUM_def)
  have sel: "\<forall>path rl a b. map_of mi path = Some rl \<longrightarrow> sel path rl = Some (a, b)
      \<longrightarrow> rl_wf a \<and> rl_wf b"
    using window mi_ok_get [OF assms(1)] by (auto simp: sel_def split: if_splits)
  show ?thesis
  proof (cases incl)
    case True
    have f: "\<forall>path rl. ?f path rl = (case sel path rl of None \<Rightarrow> Inr None
        | Some (a, b) \<Rightarrow> svn_try (svn_rangelist_intersect a b False) (\<lambda>out. Inr (unless_empty out)))"
      using True by (simp add: sel_def svn_rangelist_intersect_def)
    obtain out where out: "hash_collect ?f mi [] = Inr out" "mi_ok out" "[] \<notin> snd ` set out"
      "\<forall>path. mi_revs out path = (case map_of mi path of None \<Rightarrow> {}
         | Some rl \<Rightarrow> (case sel path rl of None \<Rightarrow> {} | Some (a, b) \<Rightarrow> rl_revs a \<inter> rl_revs b))"
      using rl_intersect.collect_op [where sel = sel and f = "?f", OF assms(1) sel f] by blast
    then have "mi_revs out path = mi_revs mi path \<inter> {oldest<..youngest}" for path
      using window by (auto simp: mi_revs_def sel_def split: option.splits)
    with out unfold True show ?thesis by auto
  next
    case False
    have f: "\<forall>path rl. ?f path rl = (case sel path rl of None \<Rightarrow> Inr None
        | Some (a, b) \<Rightarrow> svn_try (svn_rangelist_remove a b False) (\<lambda>out. Inr (unless_empty out)))"
      using False by (simp add: sel_def svn_rangelist_remove_def)
    obtain out where out: "hash_collect ?f mi [] = Inr out" "mi_ok out" "[] \<notin> snd ` set out"
      "\<forall>path. mi_revs out path = (case map_of mi path of None \<Rightarrow> {}
         | Some rl \<Rightarrow> (case sel path rl of None \<Rightarrow> {} | Some (a, b) \<Rightarrow> rl_revs b - rl_revs a))"
      using rl_remove.collect_op [where sel = sel and f = "?f", OF assms(1) sel f] by blast
    then have "mi_revs out path = mi_revs mi path - {oldest<..youngest}" for path
      using window by (auto simp: mi_revs_def sel_def split: option.splits)
    with out unfold False show ?thesis by auto
  qed
qed

section \<open>Differences\<close>

text \<open>What the callback stores for a path in \<open>deleted\<close> and \<open>added\<close>, if anything.\<close>

definition diff_entry :: "mergeinfo \<Rightarrow> mergeinfo \<Rightarrow> cstring \<Rightarrow> rangelist option \<times> rangelist option" where
  "diff_entry mi_a mi_b path =
     (case (map_of mi_a path, map_of mi_b path) of
        (Some a, Some b) \<Rightarrow> (case svn_rangelist_diff a b False of
            Inr (d, ad) \<Rightarrow> (unless_empty d, unless_empty ad) | Inl _ \<Rightarrow> (None, None))
      | (a, b) \<Rightarrow> (a, b))"

definition store_entry :: "mergeinfo \<Rightarrow> cstring \<Rightarrow> rangelist option \<Rightarrow> mergeinfo" where
  "store_entry ht path entry = (case entry of None \<Rightarrow> ht | Some rl \<Rightarrow> apr_hash_set ht path rl)"

lemma diff_entry_revs:
  assumes "mi_ok mi_a" and "mi_ok mi_b"
  shows "opt_revs (fst (diff_entry mi_a mi_b path)) = mi_revs mi_a path - mi_revs mi_b path
    \<and> opt_revs (snd (diff_entry mi_a mi_b path)) = mi_revs mi_b path - mi_revs mi_a path
    \<and> (\<forall>rl. fst (diff_entry mi_a mi_b path) = Some rl \<longrightarrow> rl_wf rl)
    \<and> (\<forall>rl. snd (diff_entry mi_a mi_b path) = Some rl \<longrightarrow> rl_wf rl)"
proof (cases "map_of mi_a path = None \<or> map_of mi_b path = None")
  case True
  then show ?thesis using mi_ok_get [OF assms(1)] mi_ok_get [OF assms(2)]
    by (auto simp: diff_entry_def mi_revs_def split: option.splits)
next
  case False
  then obtain a b where ab: "map_of mi_a path = Some a" "map_of mi_b path = Some b" by auto
  obtain d ad where d: "svn_rangelist_diff a b False = Inr (d, ad)" "rl_norm d" "rl_norm ad"
    "rl_revs d = rl_revs a - rl_revs b" "rl_revs ad = rl_revs b - rl_revs a"
    by (rule diff_spec [OF mi_ok_get [OF assms(1) ab(1)] mi_ok_get [OF assms(2) ab(2)]])
  have "diff_entry mi_a mi_b path = (unless_empty d, unless_empty ad)"
    using ab d(1) by (simp add: diff_entry_def)
  then show ?thesis using ab d rl_norm_wf by (auto simp: mi_revs_def unless_empty_Some)
qed

lemma diff_cb_stores:
  assumes "mi_ok mi_a" and "mi_ok mi_b" and "map_of mi_a path \<noteq> None \<or> map_of mi_b path \<noteq> None"
    and status: "status = (if map_of mi_a path = None then Key_b
       else if map_of mi_b path \<noteq> None then Key_both else Key_a)"
  shows "mergeinfo_hash_diff_cb mi_a mi_b False path status (del, add)
    = Inr (map_option (\<lambda>ht. store_entry ht path (fst (diff_entry mi_a mi_b path))) del,
           map_option (\<lambda>ht. store_entry ht path (snd (diff_entry mi_a mi_b path))) add)"
proof (cases "map_of mi_a path")
  case None
  then obtain b where "map_of mi_b path = Some b" using assms(3) by auto
  then show ?thesis using None status
    by (cases add) (simp_all add: mergeinfo_hash_diff_cb_def diff_entry_def store_entry_def option.map_ident)
next
  case (Some a)
  show ?thesis
  proof (cases "map_of mi_b path")
    case None
    then show ?thesis using Some status
      by (cases del) (simp_all add: mergeinfo_hash_diff_cb_def diff_entry_def store_entry_def option.map_ident)
  next
    case b: (Some b)
    obtain d ad where d: "svn_rangelist_diff a b False = Inr (d, ad)"
      using diff_spec [OF mi_ok_get [OF assms(1) Some] mi_ok_get [OF assms(2) b]] by metis
    then have "diff_entry mi_a mi_b path = (unless_empty d, unless_empty ad)"
      using Some b by (simp add: diff_entry_def)
    with d show ?thesis using Some b status
      by (simp add: mergeinfo_hash_diff_cb_def store_entry_def unless_empty_def option.map_ident)
  qed
qed

definition store_all :: "(cstring \<Rightarrow> rangelist option) \<Rightarrow> cstring list \<Rightarrow> mergeinfo \<Rightarrow> mergeinfo" where
  "store_all e ks ht = fold (\<lambda>k ht. store_entry ht k (e k)) ks ht"

lemma store_all_get:
  assumes "hash_ok ht"
  shows "hash_ok (store_all e ks ht)"
    and "map_of (store_all e ks ht) path
      = (if path \<in> set ks \<and> e path \<noteq> None then e path else map_of ht path)"
proof -
  have "hash_ok (store_all e ks ht) \<and> map_of (store_all e ks ht) path
      = (if path \<in> set ks \<and> e path \<noteq> None then e path else map_of ht path)"
    using assms
  proof (induction ks arbitrary: ht)
    case (Cons k ks)
    have "hash_ok (store_entry ht k (e k))"
      using Cons.prems by (auto simp: store_entry_def distinct_update split: option.splits)
    note IH = Cons.IH [OF this]
    have "store_all e (k # ks) ht = store_all e ks (store_entry ht k (e k))"
      by (simp add: store_all_def)
    moreover have "map_of (store_entry ht k (e k)) path
        = (if path = k \<and> e k \<noteq> None then e k else map_of ht path)"
      by (simp add: store_entry_def update_conv split: option.splits)
    ultimately show ?case using IH by (cases "path = k"; cases "e path") auto
  qed (simp add: store_all_def)
  then show "hash_ok (store_all e ks ht)"
    and "map_of (store_all e ks ht) path
      = (if path \<in> set ks \<and> e path \<noteq> None then e path else map_of ht path)" by auto
qed

lemma fold_diff_cb:
  assumes "mi_ok mi_a" and "mi_ok mi_b"
    and "\<forall>(path, status)\<in>set ks. (map_of mi_a path \<noteq> None \<or> map_of mi_b path \<noteq> None)
      \<and> status = (if map_of mi_a path = None then Key_b
           else if map_of mi_b path \<noteq> None then Key_both else Key_a)"
  shows "fold_result (\<lambda>(path, status). mergeinfo_hash_diff_cb mi_a mi_b False path status) ks (del, add)
    = Inr (map_option (store_all (\<lambda>p. fst (diff_entry mi_a mi_b p)) (map fst ks)) del,
           map_option (store_all (\<lambda>p. snd (diff_entry mi_a mi_b p)) (map fst ks)) add)"
  using assms(3)
proof (induction ks arbitrary: del add)
  case Nil
  then show ?case by (simp add: store_all_def option.map_ident)
next
  case (Cons k ks)
  obtain path status where k: "k = (path, status)" by fastforce
  have "mergeinfo_hash_diff_cb mi_a mi_b False path status (del, add)
    = Inr (map_option (\<lambda>ht. store_entry ht path (fst (diff_entry mi_a mi_b path))) del,
           map_option (\<lambda>ht. store_entry ht path (snd (diff_entry mi_a mi_b path))) add)"
    by (rule diff_cb_stores [OF assms(1,2)]) (use Cons.prems k in auto)
  with Cons k show ?case
    by (simp add: store_all_def option.map_comp comp_def)
qed

lemma walk_diff_spec:
  assumes "mi_ok mi_a" and "mi_ok mi_b"
  shows "\<exists>del add. (\<forall>del0 add0. walk_mergeinfo_hash_for_diff mi_a mi_b (map_option (\<lambda>_. []) del0)
        (map_option (\<lambda>_. []) add0) False = Inr (map_option (\<lambda>_. del) (del0 :: unit option),
          map_option (\<lambda>_. add) (add0 :: unit option)))
    \<and> mi_ok del \<and> mi_ok add \<and> (\<forall>path. mi_revs del path = mi_revs mi_a path - mi_revs mi_b path
         \<and> mi_revs add path = mi_revs mi_b path - mi_revs mi_a path)"
proof -
  define ks where "ks = map (\<lambda>key. (key, if map_of mi_b key \<noteq> None then Key_both else Key_a)) (map fst mi_a)
         @ map (\<lambda>key. (key, Key_b)) (filter (\<lambda>key. map_of mi_a key = None) (map fst mi_b))"
  have ks: "\<forall>(path, status)\<in>set ks. (map_of mi_a path \<noteq> None \<or> map_of mi_b path \<noteq> None)
      \<and> status = (if map_of mi_a path = None then Key_b
           else if map_of mi_b path \<noteq> None then Key_both else Key_a)"
    by (auto simp: ks_def map_of_eq_None_iff) (metis fst_conv image_eqI)
  have dom: "path \<in> set (map fst ks) \<longleftrightarrow> map_of mi_a path \<noteq> None \<or> map_of mi_b path \<noteq> None" for path
    by (auto simp: ks_def map_of_eq_None_iff image_iff)
  let ?D = "\<lambda>p. fst (diff_entry mi_a mi_b p)" and ?A = "\<lambda>p. snd (diff_entry mi_a mi_b p)"
  let ?del = "store_all ?D (map fst ks) []" and ?add = "store_all ?A (map fst ks) []"
  have none: "?D p = None \<and> ?A p = None" if "p \<notin> set (map fst ks)" for p
    using that dom [of p] by (simp add: diff_entry_def)
  have "map_of ?del p = ?D p" "map_of ?add p = ?A p" for p
    using none [of p] store_all_get(2) [of "[]" ?D "map fst ks" p] store_all_get(2) [of "[]" ?A "map fst ks" p]
    by auto
  note get = this
  have "mi_ok ?del" "mi_ok ?add"
    using get diff_entry_revs [OF assms] store_all_get(1) [of "[]"] by (auto intro!: mi_okI)
  moreover have "mi_revs ?del p = mi_revs mi_a p - mi_revs mi_b p"
    "mi_revs ?add p = mi_revs mi_b p - mi_revs mi_a p" for p
    using get [of p] diff_entry_revs [OF assms, of p] by (simp_all only: mi_revs_def [of ?del] mi_revs_def [of ?add])
  moreover have "walk_mergeinfo_hash_for_diff mi_a mi_b (map_option (\<lambda>_. []) del0)
        (map_option (\<lambda>_. []) add0) False = Inr (map_option (\<lambda>_. ?del) del0, map_option (\<lambda>_. ?add) add0)"
    for del0 add0 :: "unit option"
    unfolding walk_mergeinfo_hash_for_diff_def hash_diff_fold ks_def [symmetric] fold_diff_cb [OF assms ks]
    by (simp add: option.map_comp comp_def)
  ultimately show ?thesis by blast
qed

lemma diff2_spec:
  assumes "mi_ok mi_a" and "mi_ok mi_b"
  shows "\<exists>del add. svn_mergeinfo_diff2 (Some mi_a) (Some mi_b) False = Inr (del, add)
    \<and> mi_ok del \<and> mi_ok add \<and> (\<forall>path. mi_revs del path = mi_revs mi_a path - mi_revs mi_b path
         \<and> mi_revs add path = mi_revs mi_b path - mi_revs mi_a path)"
proof -
  obtain del add where walk: "\<forall>del0 add0. walk_mergeinfo_hash_for_diff mi_a mi_b (map_option (\<lambda>_. []) del0)
        (map_option (\<lambda>_. []) add0) False = Inr (map_option (\<lambda>_. del) (del0 :: unit option),
          map_option (\<lambda>_. add) (add0 :: unit option))"
    "mi_ok del" "mi_ok add" "\<forall>path. mi_revs del path = mi_revs mi_a path - mi_revs mi_b path
         \<and> mi_revs add path = mi_revs mi_b path - mi_revs mi_a path"
    using walk_diff_spec [OF assms] by blast
  then show ?thesis
    using spec [OF spec [OF walk(1)], of "Some ()" "Some ()"] by (simp add: svn_mergeinfo_diff2_def)
qed

lemma remove2_spec:
  assumes "mi_ok eraser" and "mi_ok whiteboard"
  shows "\<exists>out. svn_mergeinfo_remove2 eraser whiteboard False = Inr out \<and> mi_ok out
    \<and> (\<forall>path. mi_revs out path = mi_revs whiteboard path - mi_revs eraser path)"
proof -
  obtain del add where walk: "\<forall>del0 add0. walk_mergeinfo_hash_for_diff whiteboard eraser (map_option (\<lambda>_. []) del0)
        (map_option (\<lambda>_. []) add0) False = Inr (map_option (\<lambda>_. del) (del0 :: unit option),
          map_option (\<lambda>_. add) (add0 :: unit option))"
    "mi_ok del" "\<forall>path. mi_revs del path = mi_revs whiteboard path - mi_revs eraser path"
    using walk_diff_spec [OF assms(2,1)] by blast
  then show ?thesis
    using spec [OF spec [OF walk(1)], of "Some ()" None] by (simp add: svn_mergeinfo_remove2_def)
qed

section \<open>Properties\<close>

text \<open>C22. Without regard to inheritance (\<open>consider_inheritance\<close> is \<open>FALSE\<close>) the difference of two
  mergeinfos, neither of them \<open>NULL\<close>, is exact for every path: \<open>deleted\<close> describes what only \<open>from\<close>
  records, \<open>added\<close> what only \<open>to\<close> records, and neither fails nor leaves an ill-formed rangelist,
  whatever the iteration order of the two hashes.\<close>

theorem mergeinfo_diff_exact:
  assumes "mi_ok mi_from" and "mi_ok mi_to"
  shows "\<exists>deleted added. svn_mergeinfo_diff2 (Some mi_from) (Some mi_to) False = Inr (deleted, added)
    \<and> mi_ok deleted \<and> mi_ok added
    \<and> (\<forall>path. mi_revs deleted path = mi_revs mi_from path - mi_revs mi_to path
         \<and> mi_revs added path = mi_revs mi_to path - mi_revs mi_from path)"
  by (rule diff2_spec [OF assms])

theorem mergeinfo_diff_exact_witness:
  "\<exists>deleted added. svn_mergeinfo_diff2 (Some [(''/a'', [mrange 1 5 True]), (''/b'', [mrange 2 3 True])])
      (Some [(''/a'', [mrange 3 8 False])]) False = Inr (deleted, added)
    \<and> mi_ok deleted \<and> mi_ok added
    \<and> (\<forall>path. mi_revs deleted path = mi_revs [(''/a'', [mrange 1 5 True]), (''/b'', [mrange 2 3 True])] path
           - mi_revs [(''/a'', [mrange 3 8 False])] path
         \<and> mi_revs added path = mi_revs [(''/a'', [mrange 3 8 False])] path
           - mi_revs [(''/a'', [mrange 1 5 True]), (''/b'', [mrange 2 3 True])] path)"
  by (rule mergeinfo_diff_exact) (simp_all add: mi_ok_def valid_range_iff)

text \<open>Removing an eraser from a mergeinfo leaves, for every path, exactly the revisions the
  eraser does not record there.\<close>

theorem mergeinfo_remove_exact:
  assumes "mi_ok eraser" and "mi_ok whiteboard"
  shows "\<exists>out. svn_mergeinfo_remove2 eraser whiteboard False = Inr out \<and> mi_ok out
    \<and> (\<forall>path. mi_revs out path = mi_revs whiteboard path - mi_revs eraser path)"
  by (rule remove2_spec [OF assms])

theorem mergeinfo_remove_exact_witness:
  "\<exists>out. svn_mergeinfo_remove2 [(''/a'', [mrange 3 8 False])] [(''/a'', [mrange 1 5 True])] False = Inr out
    \<and> mi_ok out \<and> (\<forall>path. mi_revs out path = mi_revs [(''/a'', [mrange 1 5 True])] path
        - mi_revs [(''/a'', [mrange 3 8 False])] path)"
  by (rule mergeinfo_remove_exact) (simp_all add: mi_ok_def valid_range_iff)

text \<open>C33. Without regard to inheritance (\<open>consider_inheritance\<close> is \<open>FALSE\<close>) the intersection of two
  mergeinfos is exact for every path, and no path is left with an empty rangelist.\<close>

theorem mergeinfo_intersect_exact:
  assumes "mi_ok mi1" and "mi_ok mi2"
  shows "\<exists>out. svn_mergeinfo_intersect2 mi1 mi2 False = Inr out \<and> mi_ok out \<and> [] \<notin> snd ` set out
    \<and> (\<forall>path. mi_revs out path = mi_revs mi1 path \<inter> mi_revs mi2 path)"
  by (rule intersect2_spec [OF assms])

theorem mergeinfo_intersect_exact_witness:
  "\<exists>out. svn_mergeinfo_intersect2 [(''/a'', [mrange 3 8 False])] [(''/a'', [mrange 1 5 True])] False = Inr out
    \<and> mi_ok out \<and> [] \<notin> snd ` set out
    \<and> (\<forall>path. mi_revs out path = mi_revs [(''/a'', [mrange 3 8 False])] path
        \<inter> mi_revs [(''/a'', [mrange 1 5 True])] path)"
  by (rule mergeinfo_intersect_exact) (simp_all add: mi_ok_def valid_range_iff)

text \<open>Filtering a mergeinfo by a revision window keeps, with \<open>include_range\<close>, exactly the
  revisions inside \<open>(oldest, youngest]\<close>, without it exactly those outside, and drops the paths
  that have none.\<close>

theorem filter_mergeinfo_exact:
  assumes "mi_ok mi" and "0 \<le> oldest" and "oldest < youngest"
  shows "\<exists>out. svn_mergeinfo_filter_mergeinfo_by_ranges (Some mi) youngest oldest incl = Inr out
    \<and> mi_ok out \<and> [] \<notin> snd ` set out
    \<and> (\<forall>path. mi_revs out path = (if incl then mi_revs mi path \<inter> {oldest<..youngest}
         else mi_revs mi path - {oldest<..youngest}))"
  by (rule filter_mergeinfo_spec [OF assms])

theorem filter_mergeinfo_exact_witness:
  "\<exists>out. svn_mergeinfo_filter_mergeinfo_by_ranges (Some [(''/a'', [mrange 1 5 True])]) 4 2 True = Inr out
    \<and> mi_ok out \<and> [] \<notin> snd ` set out
    \<and> (\<forall>path. mi_revs out path = (if True then mi_revs [(''/a'', [mrange 1 5 True])] path \<inter> {2<..4}
         else mi_revs [(''/a'', [mrange 1 5 True])] path - {2<..4}))"
  by (rule filter_mergeinfo_exact) (simp_all add: mi_ok_def valid_range_iff)

end
