(* ===== verification/Mergeinfo_Merge.thy ===== *)
theory Mergeinfo_Merge
  imports Mergeinfo
begin

text \<open>
  Comparing and merging mergeinfos and catalogs, the endpoints of a mergeinfo, its adjustment
  by an offset and the mergeinfo of a history: what the operations of \<open>Mergeinfo\<close> do to the
  sets of revisions recorded for each path.
\<close>

section \<open>Comparison\<close>

lemma quick_compare_False:
  "quick_compare False lhs rhs = None \<or> quick_compare False lhs rhs = Some True \<and> rl_revs lhs = rl_revs rhs"
  by (induction "False" lhs rhs rule: quick_compare.induct) (auto simp: rev_set_def)

lemma full_compare_False:
  assumes "rl_wf lhs" and "rl_wf rhs"
  shows "full_compare False lhs rhs = Inr (rl_revs lhs = rl_revs rhs)"
proof -
  obtain d ad where d: "svn_rangelist_diff lhs rhs False = Inr (d, ad)" "rl_norm d" "rl_norm ad"
    "rl_revs d = rl_revs lhs - rl_revs rhs" "rl_revs ad = rl_revs rhs - rl_revs lhs"
    by (rule diff_spec [OF assms])
  have "d = [] \<longleftrightarrow> rl_revs lhs \<subseteq> rl_revs rhs" "ad = [] \<longleftrightarrow> rl_revs rhs \<subseteq> rl_revs lhs"
    using d rl_revs_empty_iff rl_norm_wf by (metis Diff_eq_empty_iff)+
  with d(1) show ?thesis by (auto simp: full_compare_def)
qed

lemma equals_loop_False:
  assumes "\<forall>rl\<in>snd ` set entries. rl_wf rl" and "mi_ok info2"
  shows "equals_loop False info2 entries
    = Inr (\<forall>(key, lhs)\<in>set entries. \<exists>rhs. map_of info2 key = Some rhs \<and> rl_revs lhs = rl_revs rhs)"
  using assms(1)
proof (induction entries)
  case (Cons entry entries)
  obtain key lhs where e: "entry = (key, lhs)" by fastforce
  show ?case
  proof (cases "map_of info2 key")
    case (Some rhs)
    have "full_compare False lhs rhs = Inr (rl_revs lhs = rl_revs rhs)"
      using Cons.prems e mi_ok_get [OF assms(2) Some] by (intro full_compare_False) auto
    then show ?thesis
      using Cons e Some quick_compare_False [of lhs rhs] by (auto split: option.splits)
  qed (use e in simp)
qed simp

lemma equals_spec:
  assumes "mi_ok mi1" and "mi_ok mi2"
  shows "svn_mergeinfo_equals (Some mi1) (Some mi2) False
    = Inr (fst ` set mi1 = fst ` set mi2 \<and> (\<forall>path. mi_revs mi1 path = mi_revs mi2 path))"
proof -
  let ?all = "\<forall>(key, lhs)\<in>set mi1. \<exists>rhs. map_of mi2 key = Some rhs \<and> rl_revs lhs = rl_revs rhs"
  have d: "hash_ok mi1" "hash_ok mi2" using assms by (auto simp: mi_ok_def)
  have len: "length mi1 = card (fst ` set mi1)" "length mi2 = card (fst ` set mi2)"
    using d by (metis distinct_card length_map list.set_map)+
  have in1: "(key, lhs) \<in> set mi1 \<longleftrightarrow> map_of mi1 key = Some lhs" for key lhs using d(1) by simp
  have loop: "equals_loop False mi2 mi1 = Inr ?all"
    using assms(1) by (intro equals_loop_False [OF _ assms(2)]) (simp add: mi_ok_def)
  have "length mi1 = length mi2 \<and> ?all
    \<longleftrightarrow> fst ` set mi1 = fst ` set mi2 \<and> (\<forall>path. mi_revs mi1 path = mi_revs mi2 path)" (is "?L \<longleftrightarrow> ?R")
  proof
    assume L: ?L
    have sub: "fst ` set mi1 \<subseteq> fst ` set mi2"
    proof (clarify)
      fix key lhs assume "(key, lhs) \<in> set mi1"
      with L obtain rhs where "map_of mi2 key = Some rhs" by auto
      then show "fst (key, lhs) \<in> fst ` set mi2" by (metis fst_conv image_eqI map_of_SomeD)
    qed
    then have keys: "fst ` set mi1 = fst ` set mi2"
      using L len by (intro card_subset_eq) auto
    moreover have "mi_revs mi1 path = mi_revs mi2 path" for path
    proof (cases "map_of mi1 path")
      case None
      then have "map_of mi2 path = None" using keys by (simp add: map_of_eq_None_iff)
      with None show ?thesis by (simp add: mi_revs_def)
    next
      case (Some lhs)
      then have "(path, lhs) \<in> set mi1" using in1 by simp
      with L obtain rhs where "map_of mi2 path = Some rhs" "rl_revs lhs = rl_revs rhs" by auto
      with Some show ?thesis by (simp add: mi_revs_def)
    qed
    ultimately show ?R by blast
  next
    assume R: ?R
    have ?all
    proof (clarify)
      fix key lhs assume kl: "(key, lhs) \<in> set mi1"
      have k: "map_of mi1 key = Some lhs" using kl in1 by simp
      have "key \<in> fst ` set mi1" using kl by (metis fst_conv image_eqI)
      then have "key \<in> fst ` set mi2" using R by simp
      then obtain rhs where "map_of mi2 key = Some rhs" by (metis map_of_eq_None_iff option.exhaust)
      moreover have "mi_revs mi1 key = mi_revs mi2 key" using R by blast
      ultimately show "\<exists>rhs. map_of mi2 key = Some rhs \<and> rl_revs lhs = rl_revs rhs"
        using k by (simp add: mi_revs_def)
    qed
    with R len show ?L by simp
  qed
  with loop show ?thesis by (auto simp: svn_mergeinfo_equals_def)
qed

section \<open>Merging\<close>

definition mi_inh :: "mergeinfo \<Rightarrow> cstring \<Rightarrow> int set" where
  "mi_inh mi path = (case map_of mi path of None \<Rightarrow> {} | Some rl \<Rightarrow> rl_inh rl)"

definition mi_ninh :: "mergeinfo \<Rightarrow> cstring \<Rightarrow> int set" where
  "mi_ninh mi path = (case map_of mi path of None \<Rightarrow> {} | Some rl \<Rightarrow> rl_ninh rl)"

definition mi_inheritable :: "mergeinfo \<Rightarrow> bool" where
  "mi_inheritable mi \<longleftrightarrow> (\<forall>rl\<in>snd ` set mi. \<forall>rng\<in>set rl. mr_inheritable rng)"

lemma mi_ok_set: "mi_ok mi \<Longrightarrow> rl_wf rl \<Longrightarrow> mi_ok (apr_hash_set mi key rl)"
proof (rule mi_okI)
  assume ok: "mi_ok mi" "rl_wf rl"
  then show "hash_ok (apr_hash_set mi key rl)" by (simp add: mi_ok_def distinct_update)
  show "rl_wf rl'" if "map_of (apr_hash_set mi key rl) path = Some rl'" for path rl'
    using that ok mi_ok_get [OF ok(1), of path rl'] by (simp add: update_conv split: if_splits)
qed

lemma inheritable_inh: "\<forall>rng\<in>set rl. mr_inheritable rng \<Longrightarrow> rl_inh rl = rl_revs rl"
  and inheritable_ninh: "\<forall>rng\<in>set rl. mr_inheritable rng \<Longrightarrow> rl_ninh rl = {}"
  by (auto simp: rl_inh_def rl_revs_def rl_ninh_def)

lemma mi_merge2_fold:
  assumes "mi_ok mi" and "mi_ok changes" and "mi_inheritable changes"
  shows "\<exists>out. fold_partial (\<lambda>(key, to_insert) mergeinfo.
        case apr_hash_get mergeinfo key of
          Some target \<Rightarrow>
            svn_try_partial (svn_rangelist_merge2 target to_insert)
              (\<lambda>target. Some (Inr (apr_hash_set mergeinfo key target)))
        | None \<Rightarrow> Some (Inr (apr_hash_set mergeinfo key to_insert))) changes mi = Some (Inr out)
    \<and> mi_ok out
    \<and> (\<forall>path. mi_inh out path = mi_inh mi path \<union> mi_revs changes path
         \<and> mi_ninh out path = mi_ninh mi path - mi_revs changes path)"
  using assms
proof (induction changes arbitrary: mi)
  case Nil
  then show ?case by (auto simp: mi_revs_def)
next
  case (Cons change changes)
  obtain k c where c: "change = (k, c)" by fastforce
  have wf: "rl_wf c" "\<forall>rng\<in>set c. mr_inheritable rng" "mi_ok changes" "mi_inheritable changes"
    "map_of changes k = None"
    using Cons.prems(2,3) c by (auto simp: mi_ok_def mi_inheritable_def map_of_eq_None_iff)
  obtain tgt where tgt: "(case map_of mi k of
        Some target \<Rightarrow> svn_try_partial (svn_rangelist_merge2 target c)
              (\<lambda>target. Some (Inr (apr_hash_set mi k target)))
      | None \<Rightarrow> Some (Inr (apr_hash_set mi k c))) = Some (Inr (apr_hash_set mi k tgt))"
    "rl_wf tgt" "rl_inh tgt = mi_inh mi k \<union> rl_revs c" "rl_ninh tgt = mi_ninh mi k - rl_revs c"
  proof (cases "map_of mi k")
    case None
    show thesis
      by (rule that [of c]) (use None wf(1) in \<open>simp_all add: mi_inh_def mi_ninh_def
          inheritable_inh [OF wf(2)] inheritable_ninh [OF wf(2)]\<close>)
  next
    case (Some target)
    then obtain out where "svn_rangelist_merge2 target c = Some (Inr out)" "rl_wf out"
      "rl_inh out = rl_inh target \<union> rl_revs c" "rl_ninh out = rl_ninh target - rl_revs c"
      using merge2_spec [OF mi_ok_get [OF Cons.prems(1) Some] wf(1,2)] by blast
    then show thesis
      using Some by (intro that [of out]) (auto simp: mi_inh_def mi_ninh_def)
  qed
  let ?mi = "apr_hash_set mi k tgt"
  have get: "map_of ?mi path = (if path = k then Some tgt else map_of mi path)" for path
    by (simp add: update_conv)
  have ok: "mi_ok ?mi" by (rule mi_ok_set [OF Cons.prems(1) tgt(2)])
  obtain out where out: "fold_partial (\<lambda>(key, to_insert) mergeinfo.
        case apr_hash_get mergeinfo key of
          Some target \<Rightarrow>
            svn_try_partial (svn_rangelist_merge2 target to_insert)
              (\<lambda>target. Some (Inr (apr_hash_set mergeinfo key target)))
        | None \<Rightarrow> Some (Inr (apr_hash_set mergeinfo key to_insert))) changes ?mi = Some (Inr out)"
    "mi_ok out" "\<forall>path. mi_inh out path = mi_inh ?mi path \<union> mi_revs changes path
         \<and> mi_ninh out path = mi_ninh ?mi path - mi_revs changes path"
    using Cons.IH [OF ok wf(3,4)] by blast
  have "mi_inh out path = mi_inh mi path \<union> mi_revs (change # changes) path
         \<and> mi_ninh out path = mi_ninh mi path - mi_revs (change # changes) path" for path
    using out(3) tgt(3,4) wf(5) c get [of path]
    by (cases "path = k") (auto simp: mi_inh_def mi_ninh_def mi_revs_def)
  with out(1,2) tgt(1) c show ?case by (auto split: option.splits)
qed

lemma mi_merge2_spec:
  assumes "mi_ok mi" and "mi_ok changes" and "mi_inheritable changes"
  shows "\<exists>out. svn_mergeinfo_merge2 mi changes = Some (Inr out) \<and> mi_ok out
    \<and> (\<forall>path. mi_inh out path = mi_inh mi path \<union> mi_revs changes path
         \<and> mi_ninh out path = mi_ninh mi path - mi_revs changes path)"
proof (cases "changes = []")
  case True
  with assms(1) show ?thesis by (auto simp: svn_mergeinfo_merge2_def mi_revs_def)
next
  case False
  then show ?thesis using mi_merge2_fold [OF assms] by (simp add: svn_mergeinfo_merge2_def)
qed

section \<open>Merging catalogs\<close>

lemma fold_set_get:
  assumes "distinct (map fst entries)"
  shows "map_of (fold (\<lambda>elt ht. apr_hash_set ht (fst elt) (snd elt)) entries ht) key
    = (case map_of entries key of None \<Rightarrow> map_of ht key | Some v \<Rightarrow> Some v)"
  using assms
proof (induction entries arbitrary: ht)
  case (Cons e entries)
  then have "map_of entries (fst e) = None" by (simp add: map_of_eq_None_iff)
  with Cons show ?case by (cases e) (auto simp: update_conv split: option.splits)
qed simp

abbreviation items_less :: "(cstring \<times> 'v) list \<Rightarrow> bool" where
  "items_less entries \<equiv> sorted_wrt (\<lambda>x y. svn_sort_compare_items_as_paths x y < 0) entries"

lemma items_less_new:
  assumes "items_less (e # entries)" and "\<forall>x\<in>set (f # e # entries). no_nul (fst x)"
    and "svn_sort_compare_items_as_paths f e < 0"
  shows "map_of (e # entries) (fst f) = None"
proof -
  have "fst x \<noteq> fst f" if "x \<in> set (e # entries)" for x
  proof -
    have "svn_path_compare_paths (fst e) (fst x) \<le> 0"
      using that assms(1,2) path_cmp.cmp_refl by (fastforce simp: svn_sort_compare_items_as_paths_def)
    moreover have "svn_path_compare_paths (fst f) (fst e) < 0"
      using assms(3) by (simp add: svn_sort_compare_items_as_paths_def)
    moreover have "no_nul (fst x)" "no_nul (fst e)" "no_nul (fst f)" using that assms(2) by auto
    ultimately show ?thesis
      using compare_paths_less [of "fst f" "fst e"] compare_paths_le [of "fst e" "fst x"] by auto
  qed
  then have "fst f \<notin> fst ` set (e # entries)" by (metis imageE)
  then show ?thesis by (simp only: map_of_eq_None_iff not_False_eq_True)
qed

lemma items_less_distinct:
  assumes "items_less entries" and "\<forall>x\<in>set entries. no_nul (fst x)"
  shows "distinct (map fst entries)"
  using assms
proof (induction entries)
  case (Cons e entries)
  have "fst x \<noteq> fst e" if "x \<in> set entries" for x
    using that Cons.prems path_cmp.cmp_refl [of "fst e"]
    by (fastforce simp: svn_sort_compare_items_as_paths_def)
  then have "fst e \<notin> fst ` set entries" by (metis imageE)
  with Cons show ?case by simp
qed simp

lemma items_less_strict:
  assumes "sorted_wrt (\<lambda>x y. svn_sort_compare_items_as_paths x y \<le> 0) entries"
    and "distinct (map fst entries)" and "\<forall>x\<in>set entries. no_nul (fst x)"
  shows "items_less entries"
  using assms
proof (induction entries)
  case (Cons e entries)
  have "svn_sort_compare_items_as_paths e x < 0" if "x \<in> set entries" for x
  proof -
    have "fst e \<noteq> fst x" "no_nul (fst e)" "no_nul (fst x)" using that Cons.prems(2,3) by auto
    moreover have "svn_sort_compare_items_as_paths e x \<le> 0" using that Cons.prems(1) by simp
    ultimately show ?thesis
      using compare_paths_eq [of "fst e" "fst x"] by (auto simp: svn_sort_compare_items_as_paths_def)
  qed
  with Cons show ?case by auto
qed simp

lemma svn_sort_hash_items:
  assumes "hash_ok ht" and "\<forall>x\<in>set ht. no_nul (fst x)"
  shows "items_less (svn_sort_hash svn_sort_compare_items_as_paths ht)"
    and "map_of (svn_sort_hash svn_sort_compare_items_as_paths ht) = map_of ht"
    and "set (svn_sort_hash svn_sort_compare_items_as_paths ht) = set ht"
proof -
  let ?s = "svn_sort_hash svn_sort_compare_items_as_paths ht"
  have m: "mset ?s = mset ht" by simp
  have d: "distinct (map fst ?s)"
    using assms(1) mset_eq_imp_distinct_iff [of "map fst ?s" "map fst ht"] by (simp add: m)
  show s: "set ?s = set ht" using mset_eq_setD [OF m] .
  show "items_less ?s"
    using item_cmp.svn_sort_hash_sorted [OF assms(2)] d assms(2) s by (intro items_less_strict) auto
  show "map_of ?s = map_of ht" using map_of_inject_set d assms(1) s by metis
qed

lemma catalog_merge_loop_get:
  assumes "items_less cs" and "items_less chs" and "\<forall>x\<in>set cs. no_nul (fst x)"
    and "\<forall>x\<in>set chs. no_nul (fst x)"
    and "\<forall>a\<in>snd ` set cs. \<forall>b\<in>snd ` set chs. svn_mergeinfo_merge2 a b = Some (Inr (g a b))"
  shows "\<exists>out. catalog_merge_loop cs chs cat = Some (Inr out)
    \<and> (\<forall>path. map_of out path = (case map_of chs path of None \<Rightarrow> map_of cat path
         | Some b \<Rightarrow> (case map_of cs path of None \<Rightarrow> Some b | Some a \<Rightarrow> Some (g a b))))"
  using assms
proof (induction cs chs cat rule: catalog_merge_loop.induct)
  case (1 c cs d ds cat)
  let ?r = "svn_sort_compare_items_as_paths c d"
  have nul: "no_nul (fst c)" "no_nul (fst d)" using "1.prems"(3,4) by auto
  have new: "map_of cs (fst c) = None" "map_of ds (fst d) = None"
    using items_less_distinct [OF "1.prems"(1,3)] items_less_distinct [OF "1.prems"(2,4)]
    by (auto simp: map_of_eq_None_iff)
  consider (eq) "?r = 0" | (less) "?r < 0" | (greater) "?r > 0" by linarith
  then show ?case
  proof cases
    case eq
    then have k: "fst d = fst c"
      using compare_paths_eq [OF nul] by (simp add: svn_sort_compare_items_as_paths_def)
    let ?m = "g (snd c) (snd d)"
    have g: "svn_mergeinfo_merge2 (snd c) (snd d) = Some (Inr ?m)" using "1.prems"(5) by simp
    have step: "catalog_merge_loop (c # cs) (d # ds) cat
        = catalog_merge_loop cs ds (apr_hash_set cat (fst c) ?m)"
      using eq g by simp
    have "\<exists>out. catalog_merge_loop cs ds (apr_hash_set cat (fst c) ?m) = Some (Inr out) \<and>
      (\<forall>path. map_of out path = (case map_of ds path of None \<Rightarrow> map_of (apr_hash_set cat (fst c) ?m) path
         | Some b \<Rightarrow> (case map_of cs path of None \<Rightarrow> Some b | Some a \<Rightarrow> Some (g a b))))"
      by (rule "1.IH"(1) [OF refl eq g]) (use "1.prems" in auto)
    then obtain out where "catalog_merge_loop cs ds (apr_hash_set cat (fst c) ?m) = Some (Inr out)"
      "\<forall>path. map_of out path = (case map_of ds path of None \<Rightarrow> map_of (apr_hash_set cat (fst c) ?m) path
         | Some b \<Rightarrow> (case map_of cs path of None \<Rightarrow> Some b | Some a \<Rightarrow> Some (g a b)))" by blast
    then show ?thesis unfolding step using new k by (auto simp: update_conv split: option.splits)
  next
    case less
    then have step: "catalog_merge_loop (c # cs) (d # ds) cat = catalog_merge_loop cs (d # ds) cat" by simp
    have "\<exists>out. catalog_merge_loop cs (d # ds) cat = Some (Inr out) \<and>
      (\<forall>path. map_of out path = (case map_of (d # ds) path of None \<Rightarrow> map_of cat path
         | Some b \<Rightarrow> (case map_of cs path of None \<Rightarrow> Some b | Some a \<Rightarrow> Some (g a b))))"
      by (rule "1.IH"(2) [OF refl _ less]) (use less "1.prems" in auto)
    then obtain out where out: "catalog_merge_loop cs (d # ds) cat = Some (Inr out)"
      "\<forall>path. map_of out path = (case map_of (d # ds) path of None \<Rightarrow> map_of cat path
         | Some b \<Rightarrow> (case map_of cs path of None \<Rightarrow> Some b | Some a \<Rightarrow> Some (g a b)))" by blast
    have no: "map_of (d # ds) (fst c) = None"
      by (rule items_less_new [OF "1.prems"(2) _ less]) (use "1.prems"(3,4) in auto)
    have "(case map_of cs path of None \<Rightarrow> Some b | Some a \<Rightarrow> Some (g a b))
        = (case map_of (c # cs) path of None \<Rightarrow> Some b | Some a \<Rightarrow> Some (g a b))"
      if "map_of (d # ds) path = Some b" for path b using that no by (cases "path = fst c") auto
    then show ?thesis unfolding step using out by (auto simp del: map_of.simps split: option.split)
  next
    case greater
    let ?cat = "apr_hash_set cat (fst d) (snd d)"
    have step: "catalog_merge_loop (c # cs) (d # ds) cat = catalog_merge_loop (c # cs) ds ?cat"
      using greater by simp
    have "\<exists>out. catalog_merge_loop (c # cs) ds ?cat = Some (Inr out) \<and>
      (\<forall>path. map_of out path = (case map_of ds path of None \<Rightarrow> map_of ?cat path
         | Some b \<Rightarrow> (case map_of (c # cs) path of None \<Rightarrow> Some b | Some a \<Rightarrow> Some (g a b))))"
      by (rule "1.IH"(3) [OF refl]) (use greater "1.prems" in auto)
    then obtain out where out: "catalog_merge_loop (c # cs) ds ?cat = Some (Inr out)"
      "\<forall>path. map_of out path = (case map_of ds path of None \<Rightarrow> map_of ?cat path
         | Some b \<Rightarrow> (case map_of (c # cs) path of None \<Rightarrow> Some b | Some a \<Rightarrow> Some (g a b)))" by blast
    have "svn_sort_compare_items_as_paths d c < 0"
      using greater item_cmp.cmp_anti [of d c] nul by simp
    then have "map_of (c # cs) (fst d) = None"
      by (intro items_less_new [OF "1.prems"(1)]) (use "1.prems"(3,4) in auto)
    then show ?thesis unfolding step using out new by (auto simp: update_conv split: option.splits)
  qed
next
  case "2_1"
  then show ?case using fold_set_get [OF items_less_distinct [OF "2_1.prems"(2,4)]]
    by (simp split: option.splits)
next
  case "2_2"
  then show ?case by auto
qed

definition cat_ok :: "mergeinfo_catalog \<Rightarrow> bool" where
  "cat_ok cat \<longleftrightarrow> hash_ok cat \<and> (\<forall>(path, mi)\<in>set cat. no_nul path \<and> mi_ok mi)"

definition cat_inh :: "mergeinfo_catalog \<Rightarrow> cstring \<Rightarrow> cstring \<Rightarrow> int set" where
  "cat_inh cat path source = (case map_of cat path of None \<Rightarrow> {} | Some mi \<Rightarrow> mi_inh mi source)"

definition cat_ninh :: "mergeinfo_catalog \<Rightarrow> cstring \<Rightarrow> cstring \<Rightarrow> int set" where
  "cat_ninh cat path source = (case map_of cat path of None \<Rightarrow> {} | Some mi \<Rightarrow> mi_ninh mi source)"

lemma mi_inh_inheritable:
  assumes "mi_inheritable mi"
  shows "mi_inh mi = mi_revs mi" and "mi_ninh mi path = {}"
  using assms inheritable_inh inheritable_ninh
  by (auto simp: mi_inheritable_def mi_inh_def mi_ninh_def mi_revs_def fun_eq_iff split: option.splits
      dest!: map_of_SomeD)

lemma catalog_merge_spec:
  assumes "cat_ok cat" and "cat_ok changes" and "\<forall>mi\<in>snd ` set changes. mi_inheritable mi"
  shows "\<exists>out. svn_mergeinfo_catalog_merge cat changes = Some (Inr out)
    \<and> (\<forall>path source. cat_inh out path source = cat_inh cat path source \<union> cat_inh changes path source
         \<and> cat_ninh out path source = cat_ninh cat path source - cat_inh changes path source)"
proof -
  let ?s = "svn_sort_hash svn_sort_compare_items_as_paths"
  have ok: "hash_ok cat" "hash_ok changes" "\<forall>x\<in>set cat. no_nul (fst x)" "\<forall>x\<in>set changes. no_nul (fst x)"
    using assms(1,2) by (auto simp: cat_ok_def)
  define P where "P a b m \<longleftrightarrow> svn_mergeinfo_merge2 a b = Some (Inr m)
      \<and> (\<forall>p. mi_inh m p = mi_inh a p \<union> mi_revs b p \<and> mi_ninh m p = mi_ninh a p - mi_revs b p)" for a b m
  have "\<forall>a\<in>snd ` set cat. \<forall>b\<in>snd ` set changes. \<exists>m. P a b m"
  proof (intro ballI)
    fix a b assume "a \<in> snd ` set cat" "b \<in> snd ` set changes"
    then have "mi_ok a" "mi_ok b" "mi_inheritable b" using assms by (auto simp: cat_ok_def)
    then show "\<exists>m. P a b m" using mi_merge2_spec [of a b] by (auto simp: P_def)
  qed
  then obtain g where g: "P a b (g a b)" if "a \<in> snd ` set cat" "b \<in> snd ` set changes" for a b
    by metis
  have merge: "\<forall>a\<in>snd ` set cat. \<forall>b\<in>snd ` set changes. svn_mergeinfo_merge2 a b = Some (Inr (g a b))"
    using g by (auto simp: P_def)
  note sorted = svn_sort_hash_items [OF ok(1,3)] svn_sort_hash_items [OF ok(2,4)]
  obtain out where out: "svn_mergeinfo_catalog_merge cat changes = Some (Inr out)"
    "\<forall>path. map_of out path = (case map_of changes path of None \<Rightarrow> map_of cat path
         | Some b \<Rightarrow> (case map_of cat path of None \<Rightarrow> Some b | Some a \<Rightarrow> Some (g a b)))"
    using catalog_merge_loop_get [of "?s cat" "?s changes" g cat, unfolded sorted(2,3,5,6),
        OF sorted(1,4) ok(3,4) merge]
    unfolding svn_mergeinfo_catalog_merge_def by blast
  have "cat_inh out path source = cat_inh cat path source \<union> cat_inh changes path source
     \<and> cat_ninh out path source = cat_ninh cat path source - cat_inh changes path source" for path source
  proof (cases "map_of changes path")
    case None
    then show ?thesis using out(2) by (simp add: cat_inh_def cat_ninh_def)
  next
    case (Some b)
    then have b: "b \<in> snd ` set changes" by (metis image_eqI map_of_SomeD snd_conv)
    then have inh: "mi_inh b source = mi_revs b source" "mi_ninh b source = {}"
      using assms(3) mi_inh_inheritable by auto
    show ?thesis
    proof (cases "map_of cat path")
      case None
      then show ?thesis using out(2) Some inh by (simp add: cat_inh_def cat_ninh_def)
    next
      case a: (Some a)
      then have "a \<in> snd ` set cat" by (metis image_eqI map_of_SomeD snd_conv)
      then have "P a b (g a b)" using g b by blast
      then show ?thesis using out(2) Some a inh by (simp add: cat_inh_def cat_ninh_def P_def)
    qed
  qed
  with out(1) show ?thesis by blast
qed

section \<open>Endpoints and offsets\<close>

lemma rl_revs_endpoints:
  assumes "rl_wf rl" and "rl \<noteq> []"
  shows "rl_revs rl \<subseteq> {mr_start (hd rl)<..mr_end (last rl)} \<and> mr_end (last rl) \<in> rl_revs rl
    \<and> mr_start (hd rl) + 1 \<in> rl_revs rl \<and> 0 \<le> mr_start (hd rl)"
  using assms
proof (induction rl)
  case (Cons r rl)
  show ?case
  proof (cases "rl = []")
    case True
    then show ?thesis using Cons.prems by (auto simp: valid_range_iff rev_set_def)
  next
    case False
    then have le: "mr_end r \<le> mr_start (hd rl)" using Cons.prems by simp
    have IH: "rl_revs rl \<subseteq> {mr_start (hd rl)<..mr_end (last rl)}" "mr_end (last rl) \<in> rl_revs rl"
      using Cons False by auto
    then have "mr_start (hd rl) < mr_end (last rl)" by auto
    then have "rev_set r \<subseteq> {mr_start r<..mr_end (last rl)}"
      using le by (auto simp: rev_set_def)
    moreover have "rl_revs rl \<subseteq> {mr_start r<..mr_end (last rl)}"
      by (rule order_trans [OF IH(1)]) (use le Cons.prems in \<open>auto simp: valid_range_iff\<close>)
    moreover have "mr_start r + 1 \<in> rev_set r \<and> 0 \<le> mr_start r"
      using Cons.prems by (auto simp: valid_range_iff rev_set_def)
    ultimately show ?thesis using IH(2) False by simp
  qed
qed simp

text \<open>The endpoints found so far, for the revisions \<open>R\<close> seen so far.\<close>

definition endpoints_of :: "int set \<Rightarrow> int \<times> int \<Rightarrow> bool" where
  "endpoints_of R yo \<longleftrightarrow> (case yo of (youngest, oldest) \<Rightarrow>
     if R = {} then youngest = -1 \<and> oldest = -1
     else R \<subseteq> {oldest<..youngest} \<and> youngest \<in> R \<and> oldest + 1 \<in> R \<and> 0 \<le> oldest)"

lemma endpoints_fold:
  assumes "\<forall>rl\<in>snd ` set mi. rl_wf rl" and "endpoints_of R yo"
  shows "endpoints_of (R \<union> (\<Union>rl\<in>snd ` set mi. rl_revs rl))
    (fold (\<lambda>(path, rangelist) (youngest_rev, oldest_rev).
          if length rangelist > 0
          then (if \<not> IS_VALID_REVNUM youngest_rev \<or> mr_end (last rangelist) > youngest_rev
                then mr_end (last rangelist) else youngest_rev,
                if \<not> IS_VALID_REVNUM oldest_rev \<or> mr_start (hd rangelist) < oldest_rev
                then mr_start (hd rangelist) else oldest_rev)
          else (youngest_rev, oldest_rev)) mi yo)"
  using assms
proof (induction mi arbitrary: R yo)
  case (Cons e mi)
  obtain p rl y old where e: "e = (p, rl)" "yo = (y, old)" by fastforce
  let ?yo = "if length rl > 0
          then (if \<not> IS_VALID_REVNUM y \<or> mr_end (last rl) > y then mr_end (last rl) else y,
                if \<not> IS_VALID_REVNUM old \<or> mr_start (hd rl) < old then mr_start (hd rl) else old)
          else (y, old)"
  have "endpoints_of (R \<union> rl_revs rl) ?yo"
  proof (cases "rl = []")
    case True
    then show ?thesis using Cons.prems(2) e by simp
  next
    case False
    have ends: "rl_revs rl \<subseteq> {mr_start (hd rl)<..mr_end (last rl)}" "mr_end (last rl) \<in> rl_revs rl"
      "mr_start (hd rl) + 1 \<in> rl_revs rl" "0 \<le> mr_start (hd rl)"
      using rl_revs_endpoints [OF _ False] Cons.prems(1) e by auto
    show ?thesis
    proof (cases "R = {}")
      case True
      then show ?thesis using ends False Cons.prems(2) e by (auto simp: endpoints_of_def IS_VALID_REVNUM_def)
    next
      case R: False
      then have "R \<subseteq> {old<..y}" "y \<in> R" "old + 1 \<in> R" "0 \<le> old"
        using Cons.prems(2) e by (auto simp: endpoints_of_def)
      moreover from this have "IS_VALID_REVNUM y" "IS_VALID_REVNUM old" by (auto simp: IS_VALID_REVNUM_def)
      ultimately show ?thesis using ends False by (fastforce simp: endpoints_of_def)
    qed
  qed
  then show ?case using Cons.IH [of "R \<union> rl_revs rl" ?yo] Cons.prems(1) e by (simp add: Un_assoc)
qed simp

lemma mi_revs_Union:
  assumes "hash_ok mi"
  shows "(\<Union>path. mi_revs mi path) = (\<Union>rl\<in>snd ` set mi. rl_revs rl)"
proof (intro equalityI subsetI)
  fix v assume "v \<in> (\<Union>path. mi_revs mi path)"
  then obtain path rl where "map_of mi path = Some rl" "v \<in> rl_revs rl"
    by (auto simp: mi_revs_def opt_revs_def split: option.splits)
  then show "v \<in> (\<Union>rl\<in>snd ` set mi. rl_revs rl)"
    by (intro UN_I [of rl]) (auto intro!: image_eqI [of _ _ "(path, rl)"] dest: map_of_SomeD)
next
  fix v assume "v \<in> (\<Union>rl\<in>snd ` set mi. rl_revs rl)"
  then obtain path rl where "(path, rl) \<in> set mi" "v \<in> rl_revs rl" by auto
  with assms show "v \<in> (\<Union>path. mi_revs mi path)"
    by (intro UN_I [of path]) (simp_all add: mi_revs_def)
qed

lemma get_range_endpoints_spec:
  assumes "mi_ok mi"
  shows "endpoints_of (\<Union>path. mi_revs mi path) (svn_mergeinfo_get_range_endpoints (Some mi))"
  using endpoints_fold [of mi "{}" "(-1, -1)"] assms
  by (simp add: svn_mergeinfo_get_range_endpoints_def mi_ok_def mi_revs_Union)
    (simp add: endpoints_of_def)

lemma adjust_ranges_revs:
  assumes "\<forall>rng\<in>set rl. IS_VALID_FORWARD_RANGE rng"
  shows "rl_revs (List.map_filter (adjust_range offset) rl)
    = (\<lambda>r. r + offset) ` (\<Union>rng\<in>{rng\<in>set rl. 0 < mr_start rng + offset}. rev_set rng)"
proof -
  have shift: "rev_set (rng\<lparr>mr_start := mr_start rng + offset, mr_end := mr_end rng + offset\<rparr>)
      = (\<lambda>r. r + offset) ` rev_set rng" for rng
  proof -
    have "v \<in> (\<lambda>r. r + offset) ` {mr_start rng<..mr_end rng}" if "v \<in> {mr_start rng + offset<..mr_end rng + offset}"
      for v using that by (intro image_eqI [of _ _ "v - offset"]) auto
    then show ?thesis by (auto simp: rev_set_def)
  qed
  show ?thesis
    using assms
  proof (induction rl)
    case (Cons rng rl)
    have v: "mr_start rng < mr_end rng" using Cons.prems by (simp add: valid_range_iff)
    have e: "adjust_range offset rng = (if 0 < mr_start rng + offset
        then Some (rng\<lparr>mr_start := mr_start rng + offset, mr_end := mr_end rng + offset\<rparr>) else None)"
      using v by (simp add: adjust_range_def)
    have IH: "rl_revs (List.map_filter (adjust_range offset) rl)
        = (\<lambda>r. r + offset) ` (\<Union>rng\<in>{rng\<in>set rl. 0 < mr_start rng + offset}. rev_set rng)"
      using Cons by simp
    have S: "{r \<in> set (rng # rl). 0 < mr_start r + offset}
        = (if 0 < mr_start rng + offset then {rng} else {}) \<union> {r \<in> set rl. 0 < mr_start r + offset}" by auto
    show ?case
      unfolding S using IH e shift [of rng] by (simp add: List.map_filter_simps image_Un)
  qed (simp add: List.map_filter_simps)
qed

lemma adjust_spec:
  assumes "mi_ok mi"
  shows "\<exists>out. svn_mergeinfo_adjust_mergeinfo_rangelists (Some mi) offset = Inr out \<and> hash_ok out
    \<and> (\<forall>path. mi_revs out path = (case map_of mi path of None \<Rightarrow> {}
         | Some rl \<Rightarrow> (\<lambda>r. r + offset) ` (\<Union>rng\<in>{rng\<in>set rl. 0 < mr_start rng + offset}. rev_set rng)))"
proof -
  let ?g = "\<lambda>path rl. unless_empty (List.map_filter (adjust_range offset) rl)"
  obtain out where out: "hash_collect (\<lambda>path rl. Inr (?g path rl)) mi [] = Inr out" "hash_ok out"
    "\<forall>key. map_of out key = (case map_of mi key of None \<Rightarrow> None | Some val \<Rightarrow> ?g key val)"
    using hash_collect_empty [of mi "\<lambda>path rl. Inr (?g path rl)" ?g] assms by (auto simp: mi_ok_def)
  have "mi_revs out path = (case map_of mi path of None \<Rightarrow> {}
         | Some rl \<Rightarrow> (\<lambda>r. r + offset) ` (\<Union>rng\<in>{rng\<in>set rl. 0 < mr_start rng + offset}. rev_set rng))" for path
  proof (cases "map_of mi path")
    case (Some rl)
    then have "\<forall>rng\<in>set rl. IS_VALID_FORWARD_RANGE rng" using mi_ok_get [OF assms] rl_wf_validD by blast
    then show ?thesis using Some out(3) adjust_ranges_revs by (simp add: mi_revs_def)
  qed (use out(3) in \<open>simp add: mi_revs_def\<close>)
  with out show ?thesis by (auto simp: svn_mergeinfo_adjust_mergeinfo_rangelists_def)
qed

section \<open>History as mergeinfo\<close>

lemma segment_step_revs:
  assumes "seg_path segment = Some path" and "0 \<le> seg_range_start segment"
  shows "mi_revs (let source_path = slash # path;
               path_ranges = (case apr_hash_get mi source_path of None \<Rightarrow> [] | Some rl \<Rightarrow> rl)
           in if seg_range_start segment = 0 \<and> seg_range_end segment = 0 then mi
              else apr_hash_set mi source_path
                (path_ranges @ [mrange (max (seg_range_start segment - 1) 0) (seg_range_end segment) True])) p
    = mi_revs mi p \<union> (if p = slash # path
        then {max 1 (seg_range_start segment)..seg_range_end segment} else {})"
  using assms
  by (auto simp: Let_def mi_revs_def opt_revs_def update_conv rev_set_def split: option.splits)

lemma from_segments_spec:
  assumes "\<forall>segment\<in>set segments. 0 \<le> seg_range_start segment"
  shows "mi_revs (svn_mergeinfo_from_segments segments) p
    = (\<Union>segment\<in>{s\<in>set segments. map_option ((#) slash) (seg_path s) = Some p}.
         {max 1 (seg_range_start segment)..seg_range_end segment})"
proof -
  let ?step = "\<lambda>segment mergeinfo.
       case seg_path segment of
         None \<Rightarrow> mergeinfo
       | Some path \<Rightarrow>
           let source_path = slash # path;
               path_ranges = (case apr_hash_get mergeinfo source_path of None \<Rightarrow> [] | Some rl \<Rightarrow> rl)
           in if seg_range_start segment = 0 \<and> seg_range_end segment = 0 then mergeinfo
              else apr_hash_set mergeinfo source_path
                (path_ranges @ [mrange (max (seg_range_start segment - 1) 0) (seg_range_end segment) True])"
  have "mi_revs (fold ?step segments mi) p = mi_revs mi p
    \<union> (\<Union>segment\<in>{s\<in>set segments. map_option ((#) slash) (seg_path s) = Some p}.
         {max 1 (seg_range_start segment)..seg_range_end segment})" for mi
    using assms
  proof (induction segments arbitrary: mi)
    case (Cons s segments)
    have S: "{x \<in> set (s # segments). map_option ((#) slash) (seg_path x) = Some p}
        = (if map_option ((#) slash) (seg_path s) = Some p then {s} else {})
          \<union> {x \<in> set segments. map_option ((#) slash) (seg_path x) = Some p}" by auto
    have step: "mi_revs (?step s mi) p = mi_revs mi p \<union> (if map_option ((#) slash) (seg_path s) = Some p
        then {max 1 (seg_range_start s)..seg_range_end s} else {})"
    proof (cases "seg_path s")
      case (Some path)
      have "0 \<le> seg_range_start s" using Cons.prems by simp
      from segment_step_revs [OF Some this, of mi p] Some show ?thesis by auto
    qed simp
    have "mi_revs (fold ?step (s # segments) mi) p = mi_revs (fold ?step segments (?step s mi)) p" by simp
    also have "\<dots> = mi_revs (?step s mi) p
      \<union> (\<Union>segment\<in>{s\<in>set segments. map_option ((#) slash) (seg_path s) = Some p}.
         {max 1 (seg_range_start segment)..seg_range_end segment})"
      by (rule Cons.IH) (use Cons.prems in simp)
    finally show ?case unfolding step S by auto
  qed simp
  from this [of "[]"] show ?thesis by (simp add: svn_mergeinfo_from_segments_def mi_revs_def)
qed

section \<open>Properties\<close>

text \<open>C14. Merging inheritable changes into a mergeinfo ends without an error; for every path the
  inheritable revisions are those of both, and the non-inheritable ones are those no change
  covers.\<close>

theorem mergeinfo_merge_correct:
  assumes "mi_ok mi" and "mi_ok changes" and "mi_inheritable changes"
  shows "\<exists>out. svn_mergeinfo_merge2 mi changes = Some (Inr out) \<and> mi_ok out
    \<and> (\<forall>path. mi_inh out path = mi_inh mi path \<union> mi_revs changes path
         \<and> mi_ninh out path = mi_ninh mi path - mi_revs changes path)"
  by (rule mi_merge2_spec [OF assms])

theorem mergeinfo_merge_correct_witness:
  "\<exists>out. svn_mergeinfo_merge2 [(''/a'', [mrange 1 5 False])] [(''/a'', [mrange 3 8 True]), (''/b'', [mrange 0 1 True])]
      = Some (Inr out) \<and> mi_ok out
    \<and> (\<forall>path. mi_inh out path = mi_inh [(''/a'', [mrange 1 5 False])] path
          \<union> mi_revs [(''/a'', [mrange 3 8 True]), (''/b'', [mrange 0 1 True])] path
         \<and> mi_ninh out path = mi_ninh [(''/a'', [mrange 1 5 False])] path
          - mi_revs [(''/a'', [mrange 3 8 True]), (''/b'', [mrange 0 1 True])] path)"
  by (rule mergeinfo_merge_correct) (simp_all add: mi_ok_def mi_inheritable_def valid_range_iff)

text \<open>C31. When every range of the changes is inheritable, two catalogs merge path by path: the walk over
  both sorted catalogs meets every path of either, merges the mergeinfos of a common path (inheritable
  revisions are the union, non-inheritable ones those no change covers) and takes over the others.\<close>

theorem catalog_merge_correct:
  assumes "cat_ok cat" and "cat_ok changes" and "\<forall>mi\<in>snd ` set changes. mi_inheritable mi"
  shows "\<exists>out. svn_mergeinfo_catalog_merge cat changes = Some (Inr out)
    \<and> (\<forall>path source. cat_inh out path source = cat_inh cat path source \<union> cat_inh changes path source
         \<and> cat_ninh out path source = cat_ninh cat path source - cat_inh changes path source)"
  by (rule catalog_merge_spec [OF assms])

theorem catalog_merge_correct_witness:
  "\<exists>out. svn_mergeinfo_catalog_merge [(''b'', [(''/t'', [mrange 1 5 False])])]
        [(''c'', [(''/t'', [mrange 7 8 True])]), (''b'', [(''/t'', [mrange 2 3 True])])] = Some (Inr out)
    \<and> (\<forall>path source. cat_inh out path source = cat_inh [(''b'', [(''/t'', [mrange 1 5 False])])] path source
          \<union> cat_inh [(''c'', [(''/t'', [mrange 7 8 True])]), (''b'', [(''/t'', [mrange 2 3 True])])] path source
         \<and> cat_ninh out path source = cat_ninh [(''b'', [(''/t'', [mrange 1 5 False])])] path source
          - cat_inh [(''c'', [(''/t'', [mrange 7 8 True])]), (''b'', [(''/t'', [mrange 2 3 True])])] path source)"
  by (rule catalog_merge_correct)
    (simp_all add: cat_ok_def mi_ok_def mi_inheritable_def valid_range_iff no_nul_def)

text \<open>Without regard to inheritance, \<open>svn_mergeinfo__equals\<close> answers whether both mergeinfos
  have the same paths and record the same revisions for each, by the quick comparison and by the
  full one alike.\<close>

theorem mergeinfo_equals_exact:
  assumes "mi_ok mi1" and "mi_ok mi2"
  shows "svn_mergeinfo_equals (Some mi1) (Some mi2) False
    = Inr (fst ` set mi1 = fst ` set mi2 \<and> (\<forall>path. mi_revs mi1 path = mi_revs mi2 path))"
  by (rule equals_spec [OF assms])

theorem mergeinfo_equals_exact_witness:
  "svn_mergeinfo_equals (Some [(''/a'', [mrange 1 3 True, mrange 3 5 False])])
      (Some [(''/a'', [mrange 1 5 True])]) False
    = Inr (fst ` set [(''/a'', [mrange 1 3 True, mrange 3 5 False])] = fst ` set [(''/a'', [mrange 1 5 True])]
        \<and> (\<forall>path. mi_revs [(''/a'', [mrange 1 3 True, mrange 3 5 False])] path
              = mi_revs [(''/a'', [mrange 1 5 True])] path))"
  by (rule mergeinfo_equals_exact) (simp_all add: mi_ok_def valid_range_iff)

text \<open>The endpoints of a mergeinfo are the youngest revision it records and the one before the
  oldest, over all paths, or \<open>SVN_INVALID_REVNUM\<close> twice when it records none.\<close>

theorem range_endpoints_exact:
  assumes "mi_ok mi"
  shows "\<exists>youngest oldest. svn_mergeinfo_get_range_endpoints (Some mi) = (youngest, oldest)
    \<and> (if (\<Union>path. mi_revs mi path) = {} then youngest = -1 \<and> oldest = -1
       else (\<Union>path. mi_revs mi path) \<subseteq> {oldest<..youngest} \<and> youngest \<in> (\<Union>path. mi_revs mi path)
         \<and> oldest + 1 \<in> (\<Union>path. mi_revs mi path))"
  using get_range_endpoints_spec [OF assms]
  by (cases "svn_mergeinfo_get_range_endpoints (Some mi)") (simp add: endpoints_of_def split: if_splits)

theorem range_endpoints_exact_witness:
  "\<exists>youngest oldest. svn_mergeinfo_get_range_endpoints
        (Some [(''/a'', [mrange 4 5 True]), (''/b'', [mrange 1 2 True])]) = (youngest, oldest)
    \<and> (if (\<Union>path. mi_revs [(''/a'', [mrange 4 5 True]), (''/b'', [mrange 1 2 True])] path) = {}
       then youngest = -1 \<and> oldest = -1
       else (\<Union>path. mi_revs [(''/a'', [mrange 4 5 True]), (''/b'', [mrange 1 2 True])] path) \<subseteq> {oldest<..youngest}
         \<and> youngest \<in> (\<Union>path. mi_revs [(''/a'', [mrange 4 5 True]), (''/b'', [mrange 1 2 True])] path)
         \<and> oldest + 1 \<in> (\<Union>path. mi_revs [(''/a'', [mrange 4 5 True]), (''/b'', [mrange 1 2 True])] path))"
  by (rule range_endpoints_exact) (simp add: mi_ok_def valid_range_iff)

text \<open>The mergeinfo of a history records, for each path of a segment, exactly the revisions of
  its segments, without revision 0; gaps add nothing.\<close>

theorem from_segments_exact:
  assumes "\<forall>segment\<in>set segments. 0 \<le> seg_range_start segment"
  shows "mi_revs (svn_mergeinfo_from_segments segments) path
    = (\<Union>segment\<in>{s\<in>set segments. map_option ((#) slash) (seg_path s) = Some path}.
         {max 1 (seg_range_start segment)..seg_range_end segment})"
  by (rule from_segments_spec [OF assms])

theorem from_segments_exact_witness:
  "mi_revs (svn_mergeinfo_from_segments [\<lparr>seg_range_start = 0, seg_range_end = 3, seg_path = Some ''t''\<rparr>,
        \<lparr>seg_range_start = 4, seg_range_end = 6, seg_path = None\<rparr>]) ''/t''
    = (\<Union>segment\<in>{s\<in>set [\<lparr>seg_range_start = 0, seg_range_end = 3, seg_path = Some ''t''\<rparr>,
          \<lparr>seg_range_start = 4, seg_range_end = 6, seg_path = None\<rparr>].
            map_option ((#) slash) (seg_path s) = Some ''/t''}.
         {max 1 (seg_range_start segment)..seg_range_end segment})"
  by (rule from_segments_exact) simp

text \<open>Adjusting a mergeinfo by an offset shifts the revisions of the ranges whose start stays
  positive and drops every other range as a whole.\<close>

theorem adjust_mergeinfo_exact:
  assumes "mi_ok mi"
  shows "\<exists>out. svn_mergeinfo_adjust_mergeinfo_rangelists (Some mi) offset = Inr out \<and> hash_ok out
    \<and> (\<forall>path. mi_revs out path = (case map_of mi path of None \<Rightarrow> {}
         | Some rl \<Rightarrow> (\<lambda>r. r + offset) ` (\<Union>rng\<in>{rng\<in>set rl. 0 < mr_start rng + offset}. rev_set rng)))"
  by (rule adjust_spec [OF assms])

theorem adjust_mergeinfo_exact_witness:
  "\<exists>out. svn_mergeinfo_adjust_mergeinfo_rangelists (Some [(''/a'', [mrange 1 5 True, mrange 6 8 True])]) (-2) = Inr out
    \<and> hash_ok out
    \<and> (\<forall>path. mi_revs out path = (case map_of [(''/a'', [mrange 1 5 True, mrange 6 8 True])] path of None \<Rightarrow> {}
         | Some rl \<Rightarrow> (\<lambda>r. r + (-2)) ` (\<Union>rng\<in>{rng\<in>set rl. 0 < mr_start rng + (-2)}. rev_set rng)))"
  by (rule adjust_mergeinfo_exact) (simp add: mi_ok_def valid_range_iff)

text \<open>Adjusting \<open>/t:4-10\<close> by -3 drops the path, although all its revisions stay positive: the
  range is \<open>(3, 10]\<close>, and its exclusive start becomes 0.\<close>

theorem adjust_drops_positive_revisions:
  "svn_mergeinfo_adjust_mergeinfo_rangelists (Some [(''/t'', [mrange 3 10 True])]) (-3) = Inr []
   \<and> (\<lambda>r. r + (-3)) ` mi_revs [(''/t'', [mrange 3 10 True])] ''/t'' = {1..7}"
proof -
  have "(\<lambda>r. r + (-3)) ` {3<..10::int} = {1..7}"
    by (auto intro!: image_eqI [of v _ "v + 3" for v])
  then show ?thesis
    by (simp add: svn_mergeinfo_adjust_mergeinfo_rangelists_def hash_collect_def unless_empty_def
        List.map_filter_simps adjust_range_def mi_revs_def rev_set_def)
qed

end
