(* ===== verification/Mergeinfo_Text.thy ===== *)
theory Mergeinfo_Text
  imports Mergeinfo_Merge
begin

text \<open>
  The text form of mergeinfo: what \<open>svn_mergeinfo_to_string\<close> prints is parsed back, and text
  without non-inheritable ranges is always parsed to an end.
\<close>

section \<open>The text form is parsed back\<close>

lemma combine_adjacent_canonical: "rl_canonical (r # rl) \<Longrightarrow> combine_adjacent_from r rl = Inr (r # rl)"
proof (induction rl arbitrary: r)
  case (Cons s rl)
  then have "rl_canonical (s # rl)" by (simp add: rl_canonical_def)
  with Cons show ?case by (auto simp: rl_canonical_def)
qed simp

lemma canonicalize_id:
  assumes "rl_canonical rl"
  shows "svn_rangelist_canonicalize rl = Inr rl"
proof -
  have "sorted_wrt (\<lambda>x y. svn_sort_compare_ranges x y \<le> 0) rl"
    by (rule sorted_wrt_mono_rel [of rl "\<lambda>x y. mr_end x \<le> mr_start y"])
      (use assms in \<open>fastforce simp: rl_canonical_def rl_wf_def valid_range_iff svn_sort_compare_ranges_def\<close>)+
  then have "qsort svn_sort_compare_ranges rl = rl" by (rule range_cmp.qsort_strict_id)
  then show ?thesis
    using combine_adjacent_canonical assms by (cases rl) (auto simp: svn_rangelist_canonicalize_def)
qed

lemma rangelist_string_chars:
  "c \<in> set (svn_rangelist_to_string rl) \<Longrightarrow> is_digit c \<or> c \<in> {CHR ''-'', CHR '','', CHR ''*''}"
  by (induction rl rule: svn_rangelist_to_string.induct)
    (auto simp: range_to_string_def printf_ld_def Let_def split: if_splits dest: decimal_digits [rule_format])

lemma last_colon_skip:
  "newline \<notin> set s \<Longrightarrow> CHR '':'' \<notin> set s \<Longrightarrow> rest = [] \<or> hd rest = newline
   \<Longrightarrow> last_colon_loop (s @ rest) i l = l"
  by (induction s arbitrary: i) (cases rest, auto)

lemma last_colon_key:
  assumes "newline \<notin> set key" and "newline \<notin> set s" and "CHR '':'' \<notin> set s"
    and "rest = [] \<or> hd rest = newline"
  shows "last_colon_loop (key @ CHR '':'' # s @ rest) i l = Some (i + length key)"
  using assms(1)
proof (induction key arbitrary: i l)
  case Nil
  then show ?case using last_colon_skip [OF assms(2-4)] by (simp add: newline_def)
qed auto

text \<open>A path and a rangelist whose line the parser reads back.\<close>

definition line_ok :: "cstring \<Rightarrow> rangelist \<Rightarrow> bool" where
  "line_ok key rl \<longleftrightarrow> svn_fspath_is_canonical key \<and> no_nul key \<and> newline \<notin> set key
     \<and> rl \<noteq> [] \<and> rl_canonical rl \<and> (\<forall>rng\<in>set rl. mr_end rng \<le> LONG_MAX)"

lemma parse_line_printed:
  assumes "line_ok key rl" and "map_of hash key = None" and "rest = [] \<or> hd rest = newline"
  shows "parse_revision_line (key @ '':'' @ svn_rangelist_to_string rl @ rest) hash
    = Some (Inr (tl rest, hash @ [(key, rl)]))"
proof -
  let ?s = "svn_rangelist_to_string rl"
  have s: "newline \<notin> set ?s" "CHR '':'' \<notin> set ?s"
    using rangelist_string_chars [of newline rl] rangelist_string_chars [of "CHR '':''" rl]
    by (auto simp: newline_def is_digit_def)
  have key: "key \<noteq> []" "svn_fspath_canonicalize key = key"
    using assms(1) fspath_canonicalize_id by (auto simp: line_ok_def svn_fspath_is_canonical_def)
  have "last_colon_loop (key @ CHR '':'' # ?s @ rest) 0 None = Some (length key)"
    using last_colon_key [OF _ s assms(3), of key 0] assms(1) by (simp add: line_ok_def)
  then have p: "parse_pathname (key @ '':'' @ ?s @ rest) = Inr (key, CHR '':'' # ?s @ rest)"
    using key by (simp add: parse_pathname_def)
  have "printable rng" if "rng \<in> set rl" for rng
    using that assms(1) by (auto simp: line_ok_def rl_canonical_def printable_def dest: rl_wf_validD)
  then have r: "parse_rangelist (?s @ rest) = Inr (rl, rest)"
    using parse_rangelist_printed [of rl rest] assms(3) by blast
  have "rl \<noteq> []" "svn_rangelist_canonicalize rl = Inr rl"
    using assms(1) canonicalize_id by (auto simp: line_ok_def)
  moreover have "rest = [] \<or> char_at rest 0 = newline" using assms(3) by (cases rest) auto
  moreover have "apr_hash_set hash key rl = hash @ [(key, rl)]"
    using assms(2) by (induction hash) (auto split: if_splits)
  ultimately show ?thesis
    using r assms(2) p by (cases rest) (simp_all add: parse_revision_line_def del: svn_try_partial_Inr)
qed

lemma parse_top_printed:
  assumes "\<forall>(key, rl)\<in>set elts. line_ok key rl" and "distinct (map fst (hash @ elts))"
  shows "parse_top (mergeinfo_lines [] elts) hash = Some (Inr (hash @ elts))"
  using assms
proof (induction elts arbitrary: hash)
  case Nil
  then show ?case by (simp add: parse_top.simps)
next
  case (Cons elt elts)
  obtain key rl where e: "elt = (key, rl)" by fastforce
  have ok: "line_ok key rl" using Cons.prems e by auto
  obtain k where k: "key = slash # k"
    using ok by (cases key) (simp_all add: line_ok_def svn_fspath_is_canonical_def)
  have new: "map_of hash key = None" using Cons.prems(2) e by (auto simp: map_of_eq_None_iff)
  let ?rest = "if elts = [] then [] else newline # mergeinfo_lines [] elts"
  have lines: "mergeinfo_lines [] (elt # elts) = key @ '':'' @ svn_rangelist_to_string rl @ ?rest"
    using e k by simp
  have "parse_revision_line (mergeinfo_lines [] (elt # elts)) hash = Some (Inr (tl ?rest, hash @ [elt]))"
    unfolding lines using parse_line_printed [OF ok new, of ?rest] e by simp
  moreover have "tl ?rest = mergeinfo_lines [] elts" by simp
  moreover have "mergeinfo_lines [] (elt # elts) \<noteq> []" using lines k by simp
  ultimately have "parse_top (mergeinfo_lines [] (elt # elts)) hash
      = parse_top (mergeinfo_lines [] elts) (hash @ [elt])"
    by (simp add: parse_top.simps [of "mergeinfo_lines [] (elt # elts)"] del: mergeinfo_lines.simps)
  with Cons.IH [of "hash @ [elt]"] Cons.prems show ?case by auto
qed

lemma text_roundtrip:
  assumes "hash_ok mi" and "\<forall>(key, rl)\<in>set mi. line_ok key rl"
  shows "svn_mergeinfo_parse (svn_mergeinfo_to_string mi)
    = Some (Inr (svn_sort_hash svn_sort_compare_items_as_paths mi))"
proof (cases "mi = []")
  case True
  then show ?thesis
    by (simp add: svn_mergeinfo_parse_def svn_mergeinfo_to_string_def mergeinfo_to_stringbuf_def
        parse_top.simps svn_sort_hash_def)
next
  case False
  let ?elts = "svn_sort_hash svn_sort_compare_items_as_paths mi"
  have m: "mset ?elts = mset mi" by simp
  have "distinct (map fst ?elts)"
    using assms(1) mset_eq_imp_distinct_iff [of "map fst ?elts" "map fst mi"] by (simp add: m)
  moreover have "\<forall>(key, rl)\<in>set ?elts. line_ok key rl" using assms(2) mset_eq_setD [OF m] by simp
  ultimately have "parse_top (mergeinfo_lines [] ?elts) [] = Some (Inr ?elts)"
    using parse_top_printed [of ?elts "[]"] by simp
  with False show ?thesis
    by (simp add: svn_mergeinfo_parse_def svn_mergeinfo_to_string_def mergeinfo_to_stringbuf_def)
qed

section \<open>Inheritable text is always parsed to an end\<close>

lemma set_tl_subset: "set (tl xs) \<subseteq> set xs"
  by (cases xs) auto

lemma set_dropWhile_subset: "set (dropWhile P xs) \<subseteq> set xs"
  by (auto dest: set_dropWhileD)

lemma strtol10_rest: "strtol10 s = Some (n, r) \<Longrightarrow> set r \<subseteq> set s"
proof -
  have "set (dropWhile is_digit (tl (dropWhile is_space s))) \<subseteq> set s"
    "set (dropWhile is_digit (dropWhile is_space s)) \<subseteq> set s"
    by (meson order_trans set_dropWhile_subset set_tl_subset)+
  then show "strtol10 s = Some (n, r) \<Longrightarrow> set r \<subseteq> set s"
    by (auto simp: strtol10_def Let_def split: if_splits)
qed

lemma revnum_parse_rest: "svn_revnum_parse s = Inr (n, r) \<Longrightarrow> set r \<subseteq> set s"
  using strtol10_rest by (fastforce simp: svn_revnum_parse_def split: option.splits if_splits)

lemma parse_element_rest:
  assumes "parse_revision_element s = Inr (rng, r)"
  shows "set r \<subseteq> set s"
proof -
  obtain n u where u: "svn_revnum_parse s = Inr (n, u)"
    "r = u \<or> (\<exists>m. svn_revnum_parse (tl u) = Inr (m, r))"
    using assms by (auto simp: parse_revision_element_def split: if_splits)
  show ?thesis using u revnum_parse_rest [OF u(1)] set_tl_subset [of u] revnum_parse_rest [of "tl u" _ r]
    by blast
qed

lemma parse_ranges_inheritable:
  assumes "parse_ranges s acc = Inr (rl, r)" and "CHR ''*'' \<notin> set s" and "\<forall>rng\<in>set acc. mr_inheritable rng"
  shows "(\<forall>rng\<in>set rl. mr_inheritable rng) \<and> set r \<subseteq> set s"
  using assms
proof (induction s acc rule: parse_ranges.induct)
  case (1 s acc)
  show ?case
  proof (cases "s = [] \<or> hd s = newline")
    case True
    then show ?thesis using "1.prems" parse_ranges.simps [of s acc] by (auto split: if_splits)
  next
    case False
    then obtain rng t where el: "parse_revision_element s = Inr (rng, t)"
      using "1.prems"(1) parse_ranges.simps [of s acc]
      by (cases "parse_revision_element s") (auto split: if_splits)
    have s: "s \<noteq> []" "hd s \<noteq> newline" using False by auto
    have t: "set t \<subseteq> set s" "mr_inheritable rng"
      using parse_element_rest [OF el] parse_element_printable [OF el] by auto
    then have "char_at t 0 \<noteq> CHR ''*''" using "1.prems"(2) by (cases t) auto
    then have *: "(t = [] \<or> char_at t 0 = newline) \<and> rl = acc @ [rng] \<and> r = t
      \<or> \<not> (t = [] \<or> char_at t 0 = newline) \<and> char_at t 0 = CHR '','' \<and> parse_ranges (tl t) (acc @ [rng]) = Inr (rl, r)"
      using "1.prems"(1) s el parse_ranges.simps [of s acc] by (auto split: if_splits)
    show ?thesis
    proof (cases "t = [] \<or> char_at t 0 = newline")
      case True
      with * t "1.prems"(3) show ?thesis by auto
    next
      case more: False
      have "CHR ''*'' \<notin> set (tl t)" "set (tl t) \<subseteq> set s" using t(1) "1.prems"(2) set_tl_subset [of t] by auto
      then show ?thesis
        using "1.IH"(1) [OF s el refl more] * more t(2) "1.prems"(3) by auto
    qed
  qed
qed

lemma parse_rangelist_inheritable:
  assumes "parse_rangelist s = Inr (rl, r)" and "CHR ''*'' \<notin> set s"
  shows "(\<forall>rng\<in>set rl. mr_inheritable rng) \<and> set r \<subseteq> set s"
proof -
  have "set (dropWhile P s) \<subseteq> set s" for P by (rule set_dropWhile_subset)
  then show ?thesis
    using assms parse_ranges_inheritable [of _ "[]" rl r]
    by (auto simp: parse_rangelist_def Let_def split: if_splits)
      (meson subsetD)+
qed

lemma wf_inheritable: "rl_wf rl \<Longrightarrow> rl_ninh rl = {} \<Longrightarrow> rng \<in> set rl \<Longrightarrow> mr_inheritable rng"
  by (induction rl) (auto simp: valid_range_iff rev_set_def split: if_splits)

text \<open>What the parser keeps of the hash it fills.\<close>

definition parsed_inh :: "mergeinfo \<Rightarrow> bool" where
  "parsed_inh mi \<longleftrightarrow> mi_ok mi \<and> (\<forall>path rl. map_of mi path = Some rl \<longrightarrow> (\<forall>rng\<in>set rl. mr_inheritable rng))"

lemma parse_line_inheritable:
  assumes "CHR ''*'' \<notin> set s" and "parsed_inh hash"
  shows "(\<exists>e. parse_revision_line s hash = Some (Inl e))
    \<or> (\<exists>r hash'. parse_revision_line s hash = Some (Inr (r, hash')) \<and> set r \<subseteq> set s \<and> parsed_inh hash')"
proof (cases "\<exists>e. parse_revision_line s hash = Some (Inl e)")
  case False
  then obtain p t where p: "parse_pathname s = Inr (p, t)" "char_at t 0 = CHR '':''"
    by (cases "parse_pathname s") (auto simp: parse_revision_line_def split: if_splits)
  have t: "set t \<subseteq> set s" using p(1) set_drop_subset [of _ s]
    by (auto simp: parse_pathname_def split: option.splits if_splits)
  obtain rl u where rl: "parse_rangelist (tl t) = Inr (rl, u)" "rl \<noteq> []" "u = [] \<or> char_at u 0 = newline"
    using False p by (cases "parse_rangelist (tl t)") (auto simp: parse_revision_line_def split: if_splits)
  have "CHR ''*'' \<notin> set (tl t)" using t assms(1) set_tl_subset [of t] by auto
  then have inh: "\<forall>rng\<in>set rl. mr_inheritable rng" "set u \<subseteq> set s"
    using parse_rangelist_inheritable [OF rl(1)] t set_tl_subset [of t] by auto
  obtain rl' where c: "svn_rangelist_canonicalize rl = Inr rl'"
    using False p rl by (cases "svn_rangelist_canonicalize rl") (auto simp: parse_revision_line_def)
  have rl': "rl_wf rl'" "\<forall>rng\<in>set rl'. mr_inheritable rng"
    using canonicalize_Inr [OF c] parse_rangelist_printable [OF rl(1)] inheritable_ninh [OF inh(1)]
      wf_inheritable [of rl'] by (auto simp: printable_def rl_canonical_def)
  obtain tgt where m: "(case map_of hash p of Some existing \<Rightarrow> svn_rangelist_merge2 rl' existing
      | None \<Rightarrow> Some (Inr rl')) = Some (Inr tgt)" "rl_wf tgt" "\<forall>rng\<in>set tgt. mr_inheritable rng"
  proof (cases "map_of hash p")
    case None
    with rl' that show thesis by simp
  next
    case (Some ex)
    then have ex: "rl_wf ex" "\<forall>rng\<in>set ex. mr_inheritable rng"
      using assms(2) mi_ok_get by (auto simp: parsed_inh_def)
    obtain out where "svn_rangelist_merge2 rl' ex = Some (Inr out)" "rl_wf out"
      "rl_ninh out = rl_ninh rl' - rl_revs ex"
      using merge2_spec [OF rl'(1) ex] by blast
    with Some that [of out] inheritable_ninh [OF rl'(2)] wf_inheritable [of out] show thesis by auto
  qed
  have "parse_revision_line s hash = Some (Inr (if u \<noteq> [] then tl u else u, apr_hash_set hash p tgt))"
    using p rl c m(1) by (auto simp: parse_revision_line_def Let_def)
  moreover have "parsed_inh (apr_hash_set hash p tgt)"
    using assms(2) m(2,3) mi_ok_set [of hash tgt p] by (auto simp: parsed_inh_def update_conv split: if_splits)
  ultimately show ?thesis using inh(2) set_tl_subset [of u] by (auto split: if_splits)
qed simp

lemma parse_top_inheritable:
  assumes "CHR ''*'' \<notin> set s" and "parsed_inh hash"
  shows "(\<exists>e. parse_top s hash = Some (Inl e)) \<or> (\<exists>mi. parse_top s hash = Some (Inr mi) \<and> parsed_inh mi)"
  using assms
proof (induction "length s" arbitrary: s hash rule: less_induct)
  case less
  show ?case
  proof (cases "s = []")
    case True
    with less.prems show ?thesis by (simp add: parse_top.simps)
  next
    case False
    then have eq: "parse_top s hash
        = svn_try_partial (parse_revision_line s hash) (\<lambda>(input, hash). parse_top input hash)"
      by (simp add: parse_top.simps [of s hash])
    show ?thesis
      using parse_line_inheritable [OF less.prems]
    proof (elim disjE exE conjE)
      fix r hash' assume r: "parse_revision_line s hash = Some (Inr (r, hash'))" "set r \<subseteq> set s" "parsed_inh hash'"
      then show ?thesis
        using less.hyps [OF parse_revision_line_shorter [OF r(1)]] less.prems(1) eq by auto
    qed (simp add: eq)
  qed
qed

section \<open>Properties\<close>



text \<open>C19. Text without an asterisk is always parsed to an end: the answer is a parse error or a
  mergeinfo with distinct paths and sorted, non-overlapping, inheritable rangelists, even where
  lines repeat a path.\<close>

theorem mergeinfo_parse_inheritable:
  assumes "CHR ''*'' \<notin> set s"
  shows "svn_mergeinfo_parse s = Some (Inl Mergeinfo_parse_error)
    \<or> (\<exists>mi. svn_mergeinfo_parse s = Some (Inr mi) \<and> mi_ok mi \<and> mi_inheritable mi)"
proof -
  have empty: "parsed_inh []" by (simp add: parsed_inh_def mi_ok_def)
  have "mi_ok mi \<and> mi_inheritable mi" if "parsed_inh mi" for mi
  proof -
    have "\<forall>(path, rl)\<in>set mi. \<forall>rng\<in>set rl. mr_inheritable rng"
      using that by (auto simp: parsed_inh_def mi_ok_def)
    then show ?thesis using that by (auto simp: parsed_inh_def mi_inheritable_def)
  qed
  then show ?thesis
    using parse_top_inheritable [OF assms empty] by (auto simp: svn_mergeinfo_parse_def)
qed

theorem mergeinfo_parse_inheritable_witness:
  "svn_mergeinfo_parse (''/a:1-3'' @ newline # ''/a:2-5'') = Some (Inl Mergeinfo_parse_error)
    \<or> (\<exists>mi. svn_mergeinfo_parse (''/a:1-3'' @ newline # ''/a:2-5'') = Some (Inr mi)
         \<and> mi_ok mi \<and> mi_inheritable mi)"
  by (rule mergeinfo_parse_inheritable) (simp add: newline_def)

end
