(* ===== verification/Delta_Window.thy ===== *)
theory Delta_Window
  imports Svn_Prelude
begin

text \<open>
  Text delta windows (\<open>include/svn_delta.h\<close>), the operation builder and the instruction
  interpreter of \<open>libsvn_delta/text_delta.c\<close>.

  A byte is an \<open>8 word\<close>, a buffer the list of its bytes. Sizes and positions are \<open>nat\<close>: they
  are bounded by buffers in memory; where the code guards against wrap-around of \<open>apr_size_t\<close>
  the arithmetic is written out modulo \<open>2 ^ 64\<close> (\<open>Svndiff\<close>). Every access of the interpreter
  to a buffer is checked: \<open>None\<close> is an access outside the buffer or a failed \<open>assert\<close>.
\<close>

type_synonym byte = "8 word"
type_synonym bytes = "byte list"

datatype svn_delta_action = Delta_source | Delta_target | Delta_new

record txdelta_op =
  op_action :: svn_delta_action
  op_offset :: nat
  op_length :: nat

abbreviation dop :: "svn_delta_action \<Rightarrow> nat \<Rightarrow> nat \<Rightarrow> txdelta_op" where
  "dop action offset len \<equiv> \<lparr>op_action = action, op_offset = offset, op_length = len\<rparr>"

text \<open>\<open>svn_txdelta_window_t\<close>; \<open>num_ops\<close> is the length of \<open>win_ops\<close>.\<close>

record txdelta_window =
  sview_offset :: int
  sview_len :: nat
  tview_len :: nat
  src_ops :: nat
  win_ops :: "txdelta_op list"
  new_data :: bytes

definition SVN_DELTA_WINDOW_SIZE :: nat where "SVN_DELTA_WINDOW_SIZE = 102400"

section \<open>Building a window\<close>

text \<open>\<open>svn_txdelta__ops_baton_t\<close>; the allocated size of the array is not modelled.\<close>

record ops_baton =
  ob_src_ops :: nat
  ob_ops :: "txdelta_op list"
  ob_new_data :: bytes

definition empty_baton :: ops_baton where
  "empty_baton = \<lparr>ob_src_ops = 0, ob_ops = [], ob_new_data = []\<rparr>"

text \<open>The first \<open>len\<close> bytes at \<open>new_data\<close> are inserted.\<close>

definition svn_txdelta_insert_op ::
    "ops_baton \<Rightarrow> svn_delta_action \<Rightarrow> nat \<Rightarrow> nat \<Rightarrow> bytes \<Rightarrow> ops_baton" where
  "svn_txdelta_insert_op b opcode offset len data =
     (if ob_ops b \<noteq> [] \<and> op_action (last (ob_ops b)) = opcode
         \<and> (opcode = Delta_new
            \<or> op_offset (last (ob_ops b)) + op_length (last (ob_ops b)) = offset)
      then b\<lparr>ob_ops := butlast (ob_ops b) @ [last (ob_ops b)\<lparr>op_length := op_length (last (ob_ops b)) + len\<rparr>],
             ob_new_data := (if opcode = Delta_new then ob_new_data b @ take len data else ob_new_data b)\<rparr>
      else case opcode of
             Delta_source \<Rightarrow> b\<lparr>ob_src_ops := Suc (ob_src_ops b), ob_ops := ob_ops b @ [dop opcode offset len]\<rparr>
           | Delta_target \<Rightarrow> b\<lparr>ob_ops := ob_ops b @ [dop opcode offset len]\<rparr>
           | Delta_new \<Rightarrow> b\<lparr>ob_ops := ob_ops b @ [dop opcode (length (ob_new_data b)) len],
                          ob_new_data := ob_new_data b @ take len data\<rparr>)"

text \<open>
  The loop of \<open>svn_txdelta__remove_copy\<close>, over the operations from the last one on; the value is
  the remaining operations, last one first, the length of the new data and the bytes removed.
\<close>

fun remove_copy_loop :: "nat \<Rightarrow> txdelta_op list \<Rightarrow> nat \<Rightarrow> nat \<Rightarrow> txdelta_op list \<times> nat \<times> nat" where
  "remove_copy_loop max_len [] new_len len = ([], new_len, len)"
| "remove_copy_loop max_len (dlt # ops) new_len len =
     (if op_action dlt = Delta_target then (dlt # ops, new_len, len)
      else if op_length dlt + len > max_len
      then (if op_action dlt = Delta_new
            then (dlt\<lparr>op_length := op_length dlt - (max_len - len)\<rparr> # ops, new_len - (max_len - len), max_len)
            else (dlt # ops, new_len, len))
      else remove_copy_loop max_len ops
             (if op_action dlt = Delta_new then new_len - op_length dlt else new_len) (len + op_length dlt))"

definition svn_txdelta_remove_copy :: "ops_baton \<Rightarrow> nat \<Rightarrow> ops_baton \<times> nat" where
  "svn_txdelta_remove_copy b max_len =
     (case remove_copy_loop max_len (rev (ob_ops b)) (length (ob_new_data b)) 0 of
        (rops, new_len, len) \<Rightarrow>
          (b\<lparr>ob_ops := rev rops, ob_new_data := take new_len (ob_new_data b)\<rparr>, len))"

definition svn_txdelta_make_window :: "ops_baton \<Rightarrow> txdelta_window" where
  "svn_txdelta_make_window b =
     \<lparr>sview_offset = 0, sview_len = 0, tview_len = 0, src_ops = ob_src_ops b,
      win_ops = ob_ops b, new_data = ob_new_data b\<rparr>"

definition svn_txdelta_window_dup :: "txdelta_window \<Rightarrow> txdelta_window" where
  "svn_txdelta_window_dup w =
     (svn_txdelta_make_window \<lparr>ob_src_ops = src_ops w, ob_ops = win_ops w, ob_new_data = new_data w\<rparr>)
       \<lparr>sview_offset := sview_offset w, sview_len := sview_len w, tview_len := tview_len w\<rparr>"

lemma window_dup [simp]: "svn_txdelta_window_dup w = w"
  by (cases w) (simp add: svn_txdelta_window_dup_def svn_txdelta_make_window_def)

section \<open>Copying\<close>

definition mem_read :: "bytes \<Rightarrow> nat \<Rightarrow> nat \<Rightarrow> bytes option" where
  "mem_read buf pos n = (if pos + n \<le> length buf then Some (take n (drop pos buf)) else None)"

definition mem_write :: "bytes \<Rightarrow> nat \<Rightarrow> bytes \<Rightarrow> bytes option" where
  "mem_write buf pos bs =
     (if pos + length bs \<le> length buf then Some (take pos buf @ bs @ drop (pos + length bs) buf) else None)"

fun copy_bytes :: "bytes \<Rightarrow> nat \<Rightarrow> bytes \<Rightarrow> nat \<Rightarrow> nat \<Rightarrow> bytes option" where
  "copy_bytes tgt t src s 0 = Some tgt"
| "copy_bytes tgt t src s (Suc n) =
     (if s < length src \<and> t < length tgt
      then copy_bytes (tgt[t := src ! s]) (Suc t) src (Suc s) n else None)"

definition fast_memcpy :: "bytes \<Rightarrow> nat \<Rightarrow> bytes \<Rightarrow> nat \<Rightarrow> nat \<Rightarrow> bytes option" where
  "fast_memcpy tgt t src s len =
     (if len > 7 then Option.bind (mem_read src s len) (mem_write tgt t)
      else copy_bytes tgt t src s len)"

text \<open>
  \<open>patterning_copy\<close> within one buffer. \<open>unaligned\<close> is \<open>SVN_UNALIGNED_ACCESS_IS_OK\<close>; the chunks
  are \<open>apr_uint32_t\<close>. The positions after the chunk loop are returned with the buffer.
\<close>

fun pattern_bytes :: "bytes \<Rightarrow> nat \<Rightarrow> nat \<Rightarrow> nat \<Rightarrow> bytes option" where
  "pattern_bytes buf t s 0 = Some buf"
| "pattern_bytes buf t s (Suc n) =
     (if s < length buf \<and> t < length buf
      then pattern_bytes (buf[t := buf ! s]) (Suc t) (Suc s) n else None)"

function pattern_chunks :: "bytes \<Rightarrow> nat \<Rightarrow> nat \<Rightarrow> nat \<Rightarrow> (bytes \<times> nat \<times> nat) option" where
  "pattern_chunks buf t s end_pos =
     (if s + 4 \<le> end_pos
      then Option.bind (mem_read buf s 4) (\<lambda>chunk. Option.bind (mem_write buf t chunk) (\<lambda>buf.
             pattern_chunks buf (t + 4) (s + 4) end_pos))
      else Some (buf, t, s))"
  by pat_completeness auto
termination
  by (relation "measure (\<lambda>(buf, t, s, end_pos). end_pos - s)") auto

declare pattern_chunks.simps [simp del]

definition patterning_copy :: "bool \<Rightarrow> bytes \<Rightarrow> nat \<Rightarrow> nat \<Rightarrow> nat \<Rightarrow> bytes option" where
  "patterning_copy unaligned buf t s len =
     (let end_pos = s + len in
      Option.bind (if unaligned \<and> end_pos + 4 \<le> t then pattern_chunks buf t s end_pos else Some (buf, t, s))
        (\<lambda>(buf, t, s). pattern_bytes buf t s (end_pos - s)))"

section \<open>Applying the instructions of a window\<close>

text \<open>The source buffer is a list, which stands for a pointer that is not \<open>NULL\<close> (\<open>assert(sbuf)\<close>).\<close>

definition assert_opt :: "bool \<Rightarrow> unit option" where
  "assert_opt b = (if b then Some () else None)"

fun apply_ops ::
    "bool \<Rightarrow> txdelta_window \<Rightarrow> bytes \<Rightarrow> nat \<Rightarrow> txdelta_op list \<Rightarrow> nat \<Rightarrow> bytes \<Rightarrow> (bytes \<times> nat) option" where
  "apply_ops unaligned w sbuf tlen [] tpos tbuf =
     Option.bind (assert_opt (tpos = tview_len w)) (\<lambda>_. Some (tbuf, tpos))"
| "apply_ops unaligned w sbuf tlen (dlt # ops) tpos tbuf =
     (let buf_len = (if op_length dlt < tlen - tpos then op_length dlt else tlen - tpos) in
      Option.bind (assert_opt (tpos + op_length dlt \<le> tview_len w)) (\<lambda>_.
      Option.bind
        (case op_action dlt of
           Delta_source \<Rightarrow> Option.bind (assert_opt (op_offset dlt + op_length dlt \<le> sview_len w)) (\<lambda>_.
             fast_memcpy tbuf tpos sbuf (op_offset dlt) buf_len)
         | Delta_target \<Rightarrow> Option.bind (assert_opt (op_offset dlt < tpos)) (\<lambda>_.
             patterning_copy unaligned tbuf tpos (op_offset dlt) buf_len)
         | Delta_new \<Rightarrow> Option.bind (assert_opt (op_offset dlt + op_length dlt \<le> length (new_data w))) (\<lambda>_.
             fast_memcpy tbuf tpos (new_data w) (op_offset dlt) buf_len))
        (\<lambda>tbuf. if tpos + op_length dlt \<ge> tlen then Some (tbuf, tlen)
                else apply_ops unaligned w sbuf tlen ops (tpos + op_length dlt) tbuf)))"

text \<open>The target buffer and \<open>*tlen\<close> afterwards.\<close>

definition svn_txdelta_apply_instructions ::
    "bool \<Rightarrow> txdelta_window \<Rightarrow> bytes \<Rightarrow> bytes \<Rightarrow> nat \<Rightarrow> (bytes \<times> nat) option" where
  "svn_txdelta_apply_instructions unaligned w sbuf tbuf tlen =
     apply_ops unaligned w sbuf tlen (win_ops w) 0 tbuf"

section \<open>What a window denotes\<close>

text \<open>
  The abstract value of a window is a function from source views to target views. A copy from
  the target appends one byte after the other, reading what it has appended.
\<close>

fun extend_copy :: "bytes \<Rightarrow> nat \<Rightarrow> nat \<Rightarrow> bytes" where
  "extend_copy t off 0 = t"
| "extend_copy t off (Suc n) = extend_copy (t @ [t ! off]) (Suc off) n"

definition op_target :: "bytes \<Rightarrow> bytes \<Rightarrow> txdelta_op \<Rightarrow> bytes \<Rightarrow> bytes" where
  "op_target src nd dlt t =
     (case op_action dlt of
        Delta_source \<Rightarrow> t @ take (op_length dlt) (drop (op_offset dlt) src)
      | Delta_target \<Rightarrow> extend_copy t (op_offset dlt) (op_length dlt)
      | Delta_new \<Rightarrow> t @ take (op_length dlt) (drop (op_offset dlt) nd))"

definition ops_target :: "bytes \<Rightarrow> bytes \<Rightarrow> txdelta_op list \<Rightarrow> bytes \<Rightarrow> bytes" where
  "ops_target src nd ops t = fold (op_target src nd) ops t"

definition window_target :: "txdelta_window \<Rightarrow> bytes \<Rightarrow> bytes" where
  "window_target w src = ops_target src (new_data w) (win_ops w) []"

text \<open>The operations stay inside the source view, the new data and the target so far, from \<open>tpos\<close> on.\<close>

definition op_ok :: "nat \<Rightarrow> nat \<Rightarrow> nat \<Rightarrow> txdelta_op \<Rightarrow> bool" where
  "op_ok sl nl tpos dlt \<longleftrightarrow>
     (case op_action dlt of
        Delta_source \<Rightarrow> op_offset dlt + op_length dlt \<le> sl
      | Delta_target \<Rightarrow> op_offset dlt < tpos
      | Delta_new \<Rightarrow> op_offset dlt + op_length dlt \<le> nl)"

fun ops_ok :: "nat \<Rightarrow> nat \<Rightarrow> nat \<Rightarrow> nat \<Rightarrow> txdelta_op list \<Rightarrow> bool" where
  "ops_ok sl nl tv tpos [] \<longleftrightarrow> tpos = tv"
| "ops_ok sl nl tv tpos (dlt # ops) \<longleftrightarrow> op_ok sl nl tpos dlt \<and> ops_ok sl nl tv (tpos + op_length dlt) ops"

definition window_ok :: "txdelta_window \<Rightarrow> bool" where
  "window_ok w \<longleftrightarrow> ops_ok (sview_len w) (length (new_data w)) (tview_len w) 0 (win_ops w)"

text \<open>The insertions take the new data from front to back; \<open>nl\<close> bytes when all is done.\<close>

fun news_seq :: "nat \<Rightarrow> txdelta_op list \<Rightarrow> nat \<Rightarrow> bool" where
  "news_seq npos [] nl \<longleftrightarrow> npos = nl"
| "news_seq npos (dlt # ops) nl \<longleftrightarrow>
     (if op_action dlt = Delta_new then op_offset dlt = npos \<and> news_seq (npos + op_length dlt) ops nl
      else news_seq npos ops nl)"

definition count_src :: "txdelta_op list \<Rightarrow> nat" where
  "count_src ops = length (filter (\<lambda>dlt. op_action dlt = Delta_source) ops)"

lemma length_extend [simp]: "length (extend_copy t off n) = length t + n"
  by (induction t off n rule: extend_copy.induct) auto

lemma extend_prefix: "\<exists>u. extend_copy t off n = t @ u \<and> length u = n"
proof (induction t off n rule: extend_copy.induct)
  case (2 t off n)
  then show ?case by fastforce
qed simp

lemma take_extend: "m \<le> n \<Longrightarrow> take (length t + m) (extend_copy t off n) = extend_copy t off m"
proof (induction t off n arbitrary: m rule: extend_copy.induct)
  case (2 t off n)
  obtain u where u: "extend_copy (t @ [t ! off]) (Suc off) n = (t @ [t ! off]) @ u"
    using extend_prefix by blast
  show ?case
  proof (cases m)
    case 0
    then show ?thesis by (simp add: u)
  next
    case (Suc k)
    then show ?thesis using "2.IH" [of k] "2.prems" by simp
  qed
qed simp

lemma length_op_target:
  "op_ok (length src) (length nd) (length t) dlt \<Longrightarrow> length (op_target src nd dlt t) = length t + op_length dlt"
  by (auto simp: op_ok_def op_target_def split: svn_delta_action.splits)

lemma ops_target_Cons: "ops_target src nd (dlt # ops) t = ops_target src nd ops (op_target src nd dlt t)"
  by (simp add: ops_target_def)

lemma op_target_prefix: "\<exists>u. op_target src nd dlt t = t @ u"
  using extend_prefix by (auto simp: op_target_def split: svn_delta_action.splits) blast

lemma ops_target_prefix: "\<exists>u. ops_target src nd ops t = t @ u"
proof (induction ops arbitrary: t)
  case (Cons dlt ops)
  then show ?case using op_target_prefix [of src nd dlt t] by (simp add: ops_target_Cons) (metis append.assoc)
qed (simp add: ops_target_def)

lemma length_ops_target:
  "ops_ok (length src) (length nd) tv (length t) ops \<Longrightarrow> length (ops_target src nd ops t) = tv"
  by (induction ops arbitrary: t) (simp_all add: ops_target_Cons length_op_target, simp add: ops_target_def)

lemma ops_ok_le: "ops_ok sl nl tv tpos ops \<Longrightarrow> tpos \<le> tv"
  by (induction ops arbitrary: tpos) fastforce+

lemma news_seq_le: "news_seq npos ops nl \<Longrightarrow> npos \<le> nl"
  by (induction ops arbitrary: npos) (fastforce split: if_splits)+

lemma news_seq_bound:
  "news_seq npos ops nl \<Longrightarrow> ops_ok sl nl' tv tpos ops \<Longrightarrow> nl + tpos \<le> npos + tv"
proof (induction ops arbitrary: npos tpos)
  case (Cons dlt ops)
  show ?case
  proof (cases "op_action dlt = Delta_new")
    case True
    then show ?thesis using Cons.IH [of "npos + op_length dlt" "tpos + op_length dlt"] Cons.prems by simp
  next
    case False
    then show ?thesis using Cons.IH [of npos "tpos + op_length dlt"] Cons.prems by simp
  qed
qed simp

section \<open>The copy routines\<close>

lemma bind_Some_iff [simp]: "Option.bind m f = Some y \<longleftrightarrow> (\<exists>x. m = Some x \<and> f x = Some y)"
  by (cases m) auto

lemma assert_opt_simps [simp]: "assert_opt True = Some ()" "assert_opt b = Some u \<longleftrightarrow> b"
  by (auto simp: assert_opt_def)

lemma mem_write_spec:
  "pos + length bs \<le> length buf \<Longrightarrow>
   mem_write buf pos bs = Some (take pos buf @ bs @ drop (pos + length bs) buf)"
  by (simp add: mem_write_def)

lemma list_update_split: "t < length buf \<Longrightarrow> buf[t := x] = take t buf @ [x] @ drop (Suc t) buf"
  by (simp add: upd_conv_take_nth_drop)

lemma copy_bytes_spec:
  "t + n \<le> length tgt \<Longrightarrow> s + n \<le> length src \<Longrightarrow>
   copy_bytes tgt t src s n = Some (take t tgt @ take n (drop s src) @ drop (t + n) tgt)"
proof (induction tgt t src s n rule: copy_bytes.induct)
  case (2 tgt t src s n)
  have "take (Suc n) (drop s src) = src ! s # take n (drop (Suc s) src)"
    using "2.prems" by (simp add: drop_Cons_nth)
  moreover have "take (Suc t) (tgt[t := src ! s]) = take t tgt @ [src ! s]"
    using "2.prems" by (simp add: list_update_split)
  ultimately show ?case using "2.IH" "2.prems" by simp
qed simp

lemma fast_memcpy_spec:
  "t + n \<le> length tgt \<Longrightarrow> s + n \<le> length src \<Longrightarrow>
   fast_memcpy tgt t src s n = Some (take t tgt @ take n (drop s src) @ drop (t + n) tgt)"
  by (simp add: fast_memcpy_def copy_bytes_spec mem_read_def mem_write_def)

lemma pattern_bytes_spec:
  "s < t \<Longrightarrow> t + n \<le> length buf \<Longrightarrow>
   pattern_bytes buf t s n = Some (extend_copy (take t buf) s n @ drop (t + n) buf)"
proof (induction buf t s n rule: pattern_bytes.induct)
  case (2 buf t s n)
  have "take (Suc t) (buf[t := buf ! s]) = take t buf @ [take t buf ! s]"
    using "2.prems" by (simp add: list_update_split)
  then show ?case using "2.IH" "2.prems" by simp
qed simp

lemma take_drop_prefix:
  "s + k \<le> t \<Longrightarrow> t \<le> length buf \<Longrightarrow> take k (drop s (take t buf @ rest)) = take k (drop s buf)"
  "s + k \<le> t \<Longrightarrow> take k (drop s (take t buf)) = take k (drop s buf)"
  by (simp_all add: take_drop min_absorb1)

text \<open>The chunk loop copies whole chunks, as long as the source range ends before the target.\<close>

lemma pattern_chunks_spec:
  assumes "s \<le> e" and "e \<le> t" and "t + (e - s) \<le> length buf"
  shows "\<exists>k. pattern_chunks buf t s e
      = Some (take t buf @ take k (drop s buf) @ drop (t + k) buf, t + k, s + k) \<and> s + k \<le> e"
  using assms
proof (induction buf t s e rule: pattern_chunks.induct)
  case (1 buf t s e)
  show ?case
  proof (cases "s + 4 \<le> e")
    case False
    then show ?thesis by (intro exI [of _ 0]) (simp add: pattern_chunks.simps [of buf t s e] "1.prems")
  next
    case True
    let ?buf = "take t buf @ take 4 (drop s buf) @ drop (t + 4) buf"
    have len: "length ?buf = length buf" using True "1.prems" by simp
    have rd: "mem_read buf s 4 = Some (take 4 (drop s buf))" using True "1.prems" by (simp add: mem_read_def)
    have wr: "mem_write buf t (take 4 (drop s buf)) = Some ?buf"
      using True "1.prems" by (simp add: mem_write_def)
    have step: "pattern_chunks buf t s e = pattern_chunks ?buf (t + 4) (s + 4) e"
      using True rd wr by (simp add: pattern_chunks.simps [of buf t s e])
    have "\<exists>k. pattern_chunks ?buf (t + 4) (s + 4) e
        = Some (take (t + 4) ?buf @ take k (drop (s + 4) ?buf) @ drop (t + 4 + k) ?buf, t + 4 + k, s + 4 + k)
      \<and> s + 4 + k \<le> e"
      by (rule "1.IH" [OF True rd wr]) (use "1.prems" len True in linarith)+
    then obtain k where k: "pattern_chunks ?buf (t + 4) (s + 4) e
        = Some (take (t + 4) ?buf @ take k (drop (s + 4) ?buf) @ drop (t + 4 + k) ?buf, t + 4 + k, s + 4 + k)"
      "s + 4 + k \<le> e" by blast
    have "take k (drop (s + 4) ?buf) = take k (drop (s + 4) buf)"
      by (rule take_drop_prefix) (use k(2) "1.prems" in auto)
    moreover have "take (t + 4) ?buf = take t buf @ take 4 (drop s buf)" using True "1.prems" by simp
    moreover have "drop (t + 4 + k) ?buf = drop (t + 4 + k) buf" using True "1.prems" by (simp add: ac_simps)
    moreover have "take (4 + k) (drop s buf) = take 4 (drop s buf) @ take k (drop (s + 4) buf)"
      by (simp only: take_add drop_drop add.commute [of s 4])
    ultimately have "pattern_chunks buf t s e
        = Some (take t buf @ take (4 + k) (drop s buf) @ drop (t + (4 + k)) buf, t + (4 + k), s + (4 + k))"
      unfolding step k(1) by (simp add: ac_simps)
    with k(2) show ?thesis by (intro exI [of _ "4 + k"]) (simp add: ac_simps)
  qed
qed

lemma extend_no_overlap: "off + n \<le> length t \<Longrightarrow> extend_copy t off n = t @ take n (drop off t)"
proof (induction t off n rule: extend_copy.induct)
  case (2 t off n)
  then show ?case by (simp add: drop_Cons_nth)
qed simp

lemma extend_add: "extend_copy t off (m + n) = extend_copy (extend_copy t off m) (off + m) n"
  by (induction t off m rule: extend_copy.induct) auto

lemma patterning_copy_spec:
  assumes "s < t" and "t + n \<le> length buf"
  shows "patterning_copy unaligned buf t s n = Some (extend_copy (take t buf) s n @ drop (t + n) buf)"
proof (cases "unaligned \<and> s + n + 4 \<le> t")
  case False
  then show ?thesis using pattern_bytes_spec [OF assms] by (auto simp: patterning_copy_def Let_def)
next
  case True
  obtain k where k: "pattern_chunks buf t s (s + n)
      = Some (take t buf @ take k (drop s buf) @ drop (t + k) buf, t + k, s + k)" "s + k \<le> s + n"
    using pattern_chunks_spec [of s "s + n" t buf] True assms by auto
  let ?buf = "take t buf @ take k (drop s buf) @ drop (t + k) buf"
  have len: "length ?buf = length buf" using k(2) assms by simp
  have ks: "s + k \<le> t" "t + k \<le> length buf" using True k(2) assms by auto
  have "extend_copy (take t buf) s k = take t buf @ take k (drop s buf)"
    using extend_no_overlap [of s k "take t buf"] take_drop_prefix(2) [OF ks(1), of buf] ks by simp
  moreover have "take (t + k) ?buf = take t buf @ take k (drop s buf)" using ks by simp
  ultimately have "take (t + k) ?buf = extend_copy (take t buf) s k" by simp
  moreover have "drop (t + k + (n - k)) ?buf = drop (t + n) buf" using k(2) assms by (simp add: ac_simps)
  moreover have "pattern_bytes ?buf (t + k) (s + k) (n - k)
      = Some (extend_copy (take (t + k) ?buf) (s + k) (n - k) @ drop (t + k + (n - k)) ?buf)"
    by (rule pattern_bytes_spec) (use assms k(2) len in auto)
  ultimately have "pattern_bytes ?buf (t + k) (s + k) (n - k)
      = Some (extend_copy (extend_copy (take t buf) s k) (s + k) (n - k) @ drop (t + n) buf)" by simp
  with True k show ?thesis
    by (simp add: patterning_copy_def Let_def extend_add [symmetric])
qed

section \<open>The interpreter computes what the window denotes\<close>

text \<open>One instruction, cut off at \<open>tlen\<close>: \<open>n\<close> bytes are written at \<open>tpos\<close>.\<close>

lemma op_copy_spec:
  assumes "op_ok sl (length (new_data w)) tpos dlt" and "sl \<le> length sbuf" and "n \<le> op_length dlt"
    and "sl = sview_len w" and "tpos + n \<le> length tbuf"
  shows "(case op_action dlt of
           Delta_source \<Rightarrow> Option.bind (assert_opt (op_offset dlt + op_length dlt \<le> sview_len w)) (\<lambda>_.
             fast_memcpy tbuf tpos sbuf (op_offset dlt) n)
         | Delta_target \<Rightarrow> Option.bind (assert_opt (op_offset dlt < tpos)) (\<lambda>_.
             patterning_copy unaligned tbuf tpos (op_offset dlt) n)
         | Delta_new \<Rightarrow> Option.bind (assert_opt (op_offset dlt + op_length dlt \<le> length (new_data w))) (\<lambda>_.
             fast_memcpy tbuf tpos (new_data w) (op_offset dlt) n))
    = Some (take (tpos + n) (op_target sbuf (new_data w) dlt (take tpos tbuf)) @ drop (tpos + n) tbuf)"
proof (cases "op_action dlt")
  case Delta_target
  have "take (tpos + n) (extend_copy (take tpos tbuf) (op_offset dlt) (op_length dlt))
      = extend_copy (take tpos tbuf) (op_offset dlt) n"
    using take_extend [OF assms(3), of "take tpos tbuf" "op_offset dlt"] assms(5) by simp
  then show ?thesis
    using Delta_target assms patterning_copy_spec [of "op_offset dlt" tpos n tbuf unaligned]
    by (simp add: op_ok_def op_target_def)
qed (use assms in \<open>simp_all add: op_ok_def op_target_def fast_memcpy_spec min_absorb1 min_absorb2\<close>)

lemma apply_ops_spec:
  assumes "ops_ok (sview_len w) (length (new_data w)) (tview_len w) tpos ops"
    and "sview_len w \<le> length sbuf" and "tpos \<le> tlen" and "tlen \<le> length tbuf"
  shows "\<exists>tbuf'. apply_ops unaligned w sbuf tlen ops tpos tbuf = Some (tbuf', min tlen (tview_len w))
    \<and> tbuf' = take tlen (ops_target sbuf (new_data w) ops (take tpos tbuf))
        @ drop (min tlen (tview_len w)) tbuf"
  using assms(1,3,4)
proof (induction ops arbitrary: tpos tbuf)
  case Nil
  then show ?case by (simp add: ops_target_def min_absorb2)
next
  case (Cons dlt ops)
  define n where "n = (if op_length dlt < tlen - tpos then op_length dlt else tlen - tpos)"
  have ok: "op_ok (sview_len w) (length (new_data w)) tpos dlt"
    "ops_ok (sview_len w) (length (new_data w)) (tview_len w) (tpos + op_length dlt) ops"
    using Cons.prems(1) by auto
  have le: "tpos + op_length dlt \<le> tview_len w" by (rule ops_ok_le [OF ok(2)])
  have n: "n \<le> op_length dlt" "tpos + n \<le> tlen" using Cons.prems(2) by (auto simp: n_def)
  let ?t = "op_target sbuf (new_data w) dlt (take tpos tbuf)"
  let ?buf = "take (tpos + n) ?t @ drop (tpos + n) tbuf"
  have lt: "length ?t = tpos + op_length dlt"
    using length_op_target [of sbuf "new_data w" "take tpos tbuf" dlt] ok(1) assms(2) Cons.prems(2,3)
    by (auto simp: op_ok_def split: svn_delta_action.splits)
  have copy: "(case op_action dlt of
           Delta_source \<Rightarrow> Option.bind (assert_opt (op_offset dlt + op_length dlt \<le> sview_len w)) (\<lambda>_.
             fast_memcpy tbuf tpos sbuf (op_offset dlt) n)
         | Delta_target \<Rightarrow> Option.bind (assert_opt (op_offset dlt < tpos)) (\<lambda>_.
             patterning_copy unaligned tbuf tpos (op_offset dlt) n)
         | Delta_new \<Rightarrow> Option.bind (assert_opt (op_offset dlt + op_length dlt \<le> length (new_data w))) (\<lambda>_.
             fast_memcpy tbuf tpos (new_data w) (op_offset dlt) n)) = Some ?buf"
    using op_copy_spec [OF ok(1) assms(2) n(1) refl, of tbuf unaligned] n(2) Cons.prems(3) by simp
  have step: "apply_ops unaligned w sbuf tlen (dlt # ops) tpos tbuf
      = (if tpos + op_length dlt \<ge> tlen then Some (?buf, tlen)
         else apply_ops unaligned w sbuf tlen ops (tpos + op_length dlt) ?buf)"
    using le unfolding apply_ops.simps n_def [symmetric] Let_def copy by simp
  have T: "ops_target sbuf (new_data w) (dlt # ops) (take tpos tbuf) = ops_target sbuf (new_data w) ops ?t"
    by (simp add: ops_target_Cons)
  show ?case
  proof (cases "tpos + op_length dlt \<ge> tlen")
    case True
    then have tn: "tpos + n = tlen" "min tlen (tview_len w) = tlen" using Cons.prems(2) le by (auto simp: n_def)
    obtain u where "ops_target sbuf (new_data w) ops ?t = ?t @ u" using ops_target_prefix by blast
    then have "take tlen (ops_target sbuf (new_data w) ops ?t) = take tlen ?t" using True lt by simp
    then show ?thesis using True unfolding step T by (simp add: tn)
  next
    case False
    then have "op_length dlt < tlen - tpos" by linarith
    then have nn: "n = op_length dlt" by (simp add: n_def)
    have len: "length ?buf = length tbuf" using lt nn n(2) Cons.prems(3) by simp
    have tk: "take (tpos + op_length dlt) ?buf = ?t" using lt nn by simp
    have dr: "drop (min tlen (tview_len w)) ?buf = drop (min tlen (tview_len w)) tbuf"
      using lt nn False le by (simp add: min_def)
    obtain tbuf' where "apply_ops unaligned w sbuf tlen ops (tpos + op_length dlt) ?buf
        = Some (tbuf', min tlen (tview_len w))"
      "tbuf' = take tlen (ops_target sbuf (new_data w) ops (take (tpos + op_length dlt) ?buf))
        @ drop (min tlen (tview_len w)) ?buf"
      using Cons.IH [OF ok(2), of ?buf] False len Cons.prems(3) by auto
    then show ?thesis using False unfolding step T tk dr by simp
  qed
qed

lemma length_window_target:
  "window_ok w \<Longrightarrow> length src = sview_len w \<Longrightarrow> length (window_target w src) = tview_len w"
  using length_ops_target [of src "new_data w" "tview_len w" "[]" "win_ops w"]
  by (simp add: window_ok_def window_target_def)

text \<open>Only the source view is read.\<close>

lemma ops_target_view:
  "ops_ok sl nl tv tpos ops \<Longrightarrow> ops_target (take sl src) nd ops t = ops_target src nd ops t"
proof (induction ops arbitrary: tpos t)
  case (Cons dlt ops)
  have "op_target (take sl src) nd dlt t = op_target src nd dlt t"
    using Cons.prems take_drop_prefix(2) [of "op_offset dlt" "op_length dlt" sl src]
    by (auto simp: op_target_def op_ok_def split: svn_delta_action.splits)
  with Cons.prems Cons.IH [of "tpos + op_length dlt"] show ?case by (simp add: ops_target_Cons)
qed (simp add: ops_target_def)

lemma window_target_view:
  "window_ok w \<Longrightarrow> window_target w (take (sview_len w) src) = window_target w src"
  by (simp add: window_ok_def window_target_def ops_target_view)

lemma apply_instructions_spec:
  assumes "window_ok w" and "sview_len w \<le> length sbuf" and "tlen \<le> length tbuf"
  shows "svn_txdelta_apply_instructions unaligned w sbuf tbuf tlen
    = Some (take tlen (window_target w (take (sview_len w) sbuf)) @ drop (min tlen (tview_len w)) tbuf,
        min tlen (tview_len w))"
  using apply_ops_spec [of w 0 "win_ops w" sbuf tlen tbuf unaligned] assms
  by (simp add: window_ok_def svn_txdelta_apply_instructions_def window_target_def ops_target_view)

lemma extend_nth:
  "off < length t \<Longrightarrow> i < n \<Longrightarrow> extend_copy t off n ! (length t + i) = t ! (off + i mod (length t - off))"
proof (induction t off n arbitrary: i rule: extend_copy.induct)
  case (2 t off n)
  let ?t = "t @ [t ! off]" and ?p = "length t - off"
  obtain u where u: "extend_copy ?t (Suc off) n = ?t @ u" using extend_prefix by blast
  show ?case
  proof (cases i)
    case 0
    then show ?thesis using "2.prems" u by (simp add: nth_append)
  next
    case (Suc j)
    have "extend_copy ?t (Suc off) n ! (length ?t + j) = ?t ! (Suc off + j mod (length ?t - Suc off))"
      by (rule "2.IH") (use "2.prems" Suc in auto)
    then have *: "extend_copy t off (Suc n) ! (length t + i) = ?t ! (Suc off + j mod ?p)" using Suc by simp
    show ?thesis
    proof (cases "Suc (j mod ?p) = ?p")
      case True
      then have "i mod ?p = 0" "Suc off + j mod ?p = length t" using Suc "2.prems" by (auto simp: mod_Suc)
      with * show ?thesis by simp
    next
      case False
      have "j mod ?p < ?p" using "2.prems" by simp
      then have "Suc off + j mod ?p < length t" using False by linarith
      moreover have "i mod ?p = Suc (j mod ?p)" using False Suc by (simp add: mod_Suc)
      ultimately show ?thesis using * by (simp add: nth_append)
    qed
  qed
qed simp

section \<open>Properties\<close>

text \<open>C15. On a valid window the interpreter stays inside the source, target and new-data buffers,
  fails no assertion, writes exactly the first \<open>min tlen tview_len\<close> bytes of the target buffer,
  and these are the target view the window denotes, cut off at \<open>tlen\<close>.\<close>

theorem apply_instructions_correct:
  assumes "window_ok w" and "sview_len w \<le> length sbuf" and "tlen \<le> length tbuf"
  shows "svn_txdelta_apply_instructions unaligned w sbuf tbuf tlen
    = Some (take tlen (window_target w (take (sview_len w) sbuf)) @ drop (min tlen (tview_len w)) tbuf,
        min tlen (tview_len w))
    \<and> length (window_target w (take (sview_len w) sbuf)) = tview_len w"
  using apply_instructions_spec [OF assms] length_window_target [OF assms(1), of "take (sview_len w) sbuf"]
    assms(2) by simp

theorem apply_instructions_correct_witness:
  "\<exists>w. svn_txdelta_apply_instructions True w [1, 2, 3] (replicate 9 0) 8
      = Some ([2, 3, 7, 2, 3, 7, 2, 0, 0], 7) \<and> tview_len w = 7"
proof -
  let ?w = "\<lparr>sview_offset = 0, sview_len = 3, tview_len = 7, src_ops = 1,
    win_ops = [dop Delta_source 1 2, dop Delta_new 0 1, dop Delta_target 0 4], new_data = [7]\<rparr>"
  have "svn_txdelta_apply_instructions True ?w [1, 2, 3] (replicate 9 0) 8
      = Some (take 8 (window_target ?w (take (sview_len ?w) [1, 2, 3]))
          @ drop (min 8 (tview_len ?w)) (replicate 9 0), min 8 (tview_len ?w))"
    using apply_instructions_correct [of ?w "[1, 2, 3]" 8 "replicate 9 0" True]
    by (simp add: window_ok_def op_ok_def)
  then show ?thesis
    by (intro exI [of _ ?w])
      (simp add: window_target_def ops_target_def op_target_def numeral_eq_Suc)
qed

text \<open>The target copy in machine words equals the copy byte by byte, and repeats the pattern
  between its source and target position.\<close>

theorem patterning_copy_correct:
  assumes "s < t" and "t + n \<le> length buf"
  shows "patterning_copy True buf t s n = patterning_copy False buf t s n
    \<and> (\<exists>out. patterning_copy True buf t s n = Some out \<and> length out = length buf
        \<and> take t out = take t buf \<and> drop (t + n) out = drop (t + n) buf
        \<and> (\<forall>i < n. out ! (t + i) = buf ! (s + i mod (t - s))))"
proof -
  let ?out = "extend_copy (take t buf) s n @ drop (t + n) buf"
  obtain u where u: "extend_copy (take t buf) s n = take t buf @ u" "length u = n" using extend_prefix by blast
  have "?out ! (t + i) = buf ! (s + i mod (t - s))" if "i < n" for i
  proof -
    have "s + i mod (t - s) < t" using assms(1) mod_less_divisor [of "t - s" i] by linarith
    then show ?thesis
      using extend_nth [of s "take t buf" i n] that assms by (simp add: nth_append min_absorb2)
  qed
  moreover have "take t ?out = take t buf" "drop (t + n) ?out = drop (t + n) buf" "length ?out = length buf"
    using assms u by simp_all
  ultimately show ?thesis
    by (simp only: patterning_copy_spec [OF assms] option.inject ex_simps simp_thms) blast
qed

theorem patterning_copy_correct_witness:
  "patterning_copy True [5, 6, 0, 0, 0, 9] 2 0 3 = patterning_copy False [5, 6, 0, 0, 0, 9] 2 0 3
    \<and> (\<exists>out. patterning_copy True [5, 6, 0, 0, 0, 9] 2 0 3 = Some out
        \<and> length out = length [5, 6, 0, 0, 0, 9 :: byte]
        \<and> take 2 out = take 2 [5, 6, 0, 0, 0, 9] \<and> drop (2 + 3) out = drop (2 + 3) [5, 6, 0, 0, 0, 9]
        \<and> (\<forall>i < 3. out ! (2 + i) = [5, 6, 0, 0, 0, 9] ! (0 + i mod (2 - 0))))"
  by (rule patterning_copy_correct) simp_all

end
