(* ===== verification/Delta_Build.thy ===== *)
theory Delta_Build
  imports Delta_Window
begin

text \<open>
  What the operation builder of \<open>text_delta.c\<close> builds: every insertion appends to the target the
  builder denotes, every removal cuts its end off, and the builder stays well formed.
\<close>

section \<open>What the builder denotes\<close>

text \<open>
  The builder denotes a function from source views to what has been built. It is well formed for
  source views of \<open>sl\<close> bytes and a target of \<open>tpos\<close> bytes so far.
\<close>

definition baton_target :: "ops_baton \<Rightarrow> bytes \<Rightarrow> bytes" where
  "baton_target b src = ops_target src (ob_new_data b) (ob_ops b) []"

definition baton_ok :: "nat \<Rightarrow> nat \<Rightarrow> ops_baton \<Rightarrow> bool" where
  "baton_ok sl tpos b \<longleftrightarrow>
     ops_ok sl (length (ob_new_data b)) tpos 0 (ob_ops b) \<and> news_seq 0 (ob_ops b) (length (ob_new_data b))
     \<and> (\<forall>dlt\<in>set (ob_ops b). 0 < op_length dlt) \<and> count_src (ob_ops b) \<le> ob_src_ops b"

lemma count_src_append [simp]: "count_src (xs @ ys) = count_src xs + count_src ys"
  by (simp add: count_src_def)

lemma count_src_Cons [simp]:
  "count_src (x # xs) = (if op_action x = Delta_source then Suc (count_src xs) else count_src xs)"
  and count_src_Nil [simp]: "count_src [] = 0"
  by (simp_all add: count_src_def)

lemma baton_ok_empty [simp]: "baton_ok sl 0 empty_baton" and baton_target_empty [simp]: "baton_target empty_baton src = []"
  by (simp_all add: baton_ok_def baton_target_def empty_baton_def ops_target_def)

lemma ops_ok_append:
  "ops_ok sl nl tv tpos (xs @ ys)
     \<longleftrightarrow> ops_ok sl nl (tpos + sum_list (map op_length xs)) tpos xs \<and> ops_ok sl nl tv (tpos + sum_list (map op_length xs)) ys"
  by (induction xs arbitrary: tpos) (auto simp: add.assoc)

lemma ops_ok_sum: "ops_ok sl nl tv tpos ops \<Longrightarrow> tv = tpos + sum_list (map op_length ops)"
  by (induction ops arbitrary: tpos) fastforce+

lemma news_seq_append:
  "news_seq npos (xs @ ys) nl \<longleftrightarrow> (\<exists>m. news_seq npos xs m \<and> news_seq m ys nl)"
  by (induction xs arbitrary: npos) auto

lemma news_seq_fun: "news_seq npos ops m \<Longrightarrow> news_seq npos ops m' \<Longrightarrow> m = m'"
  by (induction ops arbitrary: npos) (auto split: if_splits)

text \<open>What the insertions do not use of the new data does not matter.\<close>

lemma ops_ok_news:
  "ops_ok sl nl tv tpos ops \<Longrightarrow> news_seq npos ops nl' \<Longrightarrow> ops_ok sl nl' tv tpos ops"
proof (induction ops arbitrary: tpos npos)
  case (Cons dlt ops)
  have "op_ok sl nl' tpos dlt"
    using Cons.prems news_seq_le [of "npos + op_length dlt" ops nl']
    by (auto simp: op_ok_def split: svn_delta_action.splits if_splits)
  then show ?case using Cons by (auto split: if_splits)
qed simp

lemma ops_ok_mono: "ops_ok sl nl tv tpos ops \<Longrightarrow> nl \<le> nl' \<Longrightarrow> ops_ok sl nl' tv tpos ops"
  by (induction ops arbitrary: tpos) (auto simp: op_ok_def split: svn_delta_action.splits)

lemma op_target_new_data:
  "op_ok sl nl tpos dlt \<Longrightarrow> op_target src (take nl nd) dlt t = op_target src nd dlt t"
  by (auto simp: op_target_def op_ok_def min_absorb1 take_drop split: svn_delta_action.splits)

lemma ops_target_new_data:
  "ops_ok sl nl tv tpos ops \<Longrightarrow> ops_target src (take nl nd) ops t = ops_target src nd ops t"
  by (induction ops arbitrary: tpos t) (auto simp: ops_target_Cons op_target_new_data, simp add: ops_target_def)

lemma ops_target_append:
  "ops_target src nd (xs @ ys) t = ops_target src nd ys (ops_target src nd xs t)"
  by (simp add: ops_target_def)

lemma ops_target_more_data:
  assumes "ops_ok sl (length nd) tv tpos ops"
  shows "ops_target src (nd @ x) ops t = ops_target src nd ops t"
  using ops_target_new_data [OF assms, of src "nd @ x" t] by simp

lemma length_baton_target: "baton_ok (length src) tpos b \<Longrightarrow> length (baton_target b src) = tpos"
  using length_ops_target [of src "ob_new_data b" tpos "[]" "ob_ops b"] by (simp add: baton_ok_def baton_target_def)

section \<open>Inserting an operation\<close>

text \<open>The bytes an operation appends when the target so far is \<open>t\<close>.\<close>

definition op_bytes :: "bytes \<Rightarrow> svn_delta_action \<Rightarrow> nat \<Rightarrow> nat \<Rightarrow> bytes \<Rightarrow> bytes \<Rightarrow> bytes" where
  "op_bytes src opcode offset len data t =
     (case opcode of
        Delta_source \<Rightarrow> t @ take len (drop offset src)
      | Delta_target \<Rightarrow> extend_copy t offset len
      | Delta_new \<Rightarrow> t @ take len data)"

text \<open>An operation that would be merged with its predecessor might as well be inserted after it.\<close>

lemma merged_op:
  assumes "op_action x = opcode" and "opcode = Delta_new \<or> op_offset x + op_length x = offset"
    and "op_ok sl (length nd) tpos x" and "opcode \<noteq> Delta_new \<Longrightarrow> nd' = nd"
    and "case opcode of Delta_source \<Rightarrow> offset + len \<le> sl | Delta_target \<Rightarrow> True
      | Delta_new \<Rightarrow> op_offset x + op_length x = length nd \<and> nd' = nd @ take len data \<and> len \<le> length data"
  shows "op_ok sl (length nd') tpos (x\<lparr>op_length := op_length x + len\<rparr>)"
    and "op_target src nd' (x\<lparr>op_length := op_length x + len\<rparr>) t
      = op_bytes src opcode offset len data (op_target src nd x t)"
proof -
  show "op_ok sl (length nd') tpos (x\<lparr>op_length := op_length x + len\<rparr>)"
    using assms by (cases opcode) (auto simp: op_ok_def)
  show "op_target src nd' (x\<lparr>op_length := op_length x + len\<rparr>) t
      = op_bytes src opcode offset len data (op_target src nd x t)"
  proof (cases opcode)
    case Delta_source
    then show ?thesis using assms by (simp add: op_target_def op_bytes_def take_add add.commute [of "op_offset x"])
  next
    case Delta_target
    then show ?thesis using assms by (simp add: op_target_def op_bytes_def extend_add)
  next
    case Delta_new
    then have "op_length x + len + op_offset x - length nd = len" "op_offset x + op_length x = length nd"
      "nd' = nd @ take len data" using assms(5) by auto
    then show ?thesis using Delta_new assms(1) by (simp add: op_target_def op_bytes_def)
  qed
qed

lemma insert_op_spec:
  assumes "baton_ok sl tpos b" and "0 < len"
    and "case opcode of Delta_source \<Rightarrow> offset + len \<le> sl | Delta_target \<Rightarrow> offset < tpos
      | Delta_new \<Rightarrow> len \<le> length data"
  shows "baton_ok sl (tpos + len) (svn_txdelta_insert_op b opcode offset len data)"
    and "baton_target (svn_txdelta_insert_op b opcode offset len data) src
      = op_bytes src opcode offset len data (baton_target b src)"
proof -
  let ?nd = "ob_new_data b" and ?ops = "ob_ops b"
  let ?nd' = "if opcode = Delta_new then ?nd @ take len data else ?nd"
  let ?b = "svn_txdelta_insert_op b opcode offset len data"
  have ok: "ops_ok sl (length ?nd) tpos 0 ?ops" "news_seq 0 ?ops (length ?nd)" "\<forall>dlt\<in>set ?ops. 0 < op_length dlt"
    using assms(1) by (auto simp: baton_ok_def)
  have nd: "ob_new_data ?b = ?nd'" by (auto simp: svn_txdelta_insert_op_def split: svn_delta_action.split)
  have len: "length ?nd' = (if opcode = Delta_new then length ?nd + len else length ?nd)" using assms(3) by auto
  have "baton_ok sl (tpos + len) ?b \<and> baton_target ?b src = op_bytes src opcode offset len data (baton_target b src)"
  proof (cases "?ops \<noteq> [] \<and> op_action (last ?ops) = opcode
      \<and> (opcode = Delta_new \<or> op_offset (last ?ops) + op_length (last ?ops) = offset)")
    case True
    define pre x where "pre = butlast ?ops" and "x = last ?ops"
    have px: "?ops = pre @ [x]" using True by (simp add: pre_def x_def)
    let ?p = "sum_list (map op_length pre)" and ?x = "x\<lparr>op_length := op_length x + len\<rparr>"
    have ops: "ob_ops ?b = pre @ [?x]" using True by (simp add: svn_txdelta_insert_op_def pre_def x_def)
    have pre: "ops_ok sl (length ?nd) ?p 0 pre" "op_ok sl (length ?nd) ?p x" "tpos = ?p + op_length x"
      using ok(1) unfolding px ops_ok_append by auto
    obtain m where m: "news_seq 0 pre m" "news_seq m [x] (length ?nd)" using ok(2) unfolding px news_seq_append by blast
    have x: "op_action x = opcode" "opcode = Delta_new \<or> op_offset x + op_length x = offset" "0 < op_length x"
      using True ok(3) by (auto simp: x_def)
    have side: "case opcode of Delta_source \<Rightarrow> offset + len \<le> sl | Delta_target \<Rightarrow> True
      | Delta_new \<Rightarrow> op_offset x + op_length x = length ?nd \<and> ?nd' = ?nd @ take len data
          \<and> len \<le> length data"
      using assms(3) m(2) x(1) by (cases opcode) auto
    have "opcode \<noteq> Delta_new \<Longrightarrow> ?nd' = ?nd" by simp
    note mg = merged_op [OF x(1,2) pre(2) this side]
    note okx = mg(1)
    have news: "news_seq 0 (pre @ [?x]) (length ?nd')"
      unfolding news_seq_append using m x(1) len by (intro exI [of _ m]) auto
    have "ops_ok sl (length ?nd') ?p 0 pre"
    proof -
      have "ops_ok sl m ?p 0 pre" by (rule ops_ok_news [OF pre(1) m(1)])
      moreover have "m \<le> length ?nd'" using news_seq_le [OF m(2)] len by auto
      ultimately show ?thesis using ops_ok_mono by blast
    qed
    then have "ops_ok sl (length ?nd') (tpos + len) 0 (pre @ [?x])" using okx pre(3) by (simp add: ops_ok_append)
    moreover have "count_src (pre @ [?x]) \<le> ob_src_ops ?b"
    proof -
      have "ob_src_ops ?b = ob_src_ops b" using True by (simp add: svn_txdelta_insert_op_def)
      then show ?thesis using assms(1) by (simp add: baton_ok_def px)
    qed
    ultimately have "baton_ok sl (tpos + len) ?b"
      unfolding baton_ok_def nd ops using news ok(3) unfolding px by auto
    moreover have "baton_target ?b src = op_bytes src opcode offset len data (baton_target b src)"
    proof -
      have "ops_target src ?nd' pre [] = ops_target src ?nd pre []"
        using ops_target_more_data [OF pre(1), of src "take len data" "[]"] by simp
      then show ?thesis
        unfolding baton_target_def nd ops unfolding px ops_target_append
        using mg(2) [of src "ops_target src ?nd pre []"] by (simp add: ops_target_Cons) (simp add: ops_target_def)
    qed
    ultimately show ?thesis by blast
  next
    case False
    let ?x = "dop opcode (if opcode = Delta_new then length ?nd else offset) len"
    have ops: "ob_ops ?b = ?ops @ [?x]" using False by (auto simp: svn_txdelta_insert_op_def split: svn_delta_action.split)
    have s: "tpos = sum_list (map op_length ?ops)" using ops_ok_sum [OF ok(1)] by simp
    have okx: "op_ok sl (length ?nd') tpos ?x" using assms(3) by (cases opcode) (auto simp: op_ok_def)
    have "ops_ok sl (length ?nd') tpos 0 ?ops" by (rule ops_ok_mono [OF ok(1)]) (simp add: len)
    then have "ops_ok sl (length ?nd') (tpos + len) 0 (?ops @ [?x])"
      using okx s by (simp add: ops_ok_append)
    moreover have "news_seq 0 (?ops @ [?x]) (length ?nd')"
      unfolding news_seq_append using ok(2) len by (intro exI [of _ "length ?nd"]) auto
    moreover have "count_src (?ops @ [?x]) \<le> ob_src_ops ?b"
      using assms(1) False by (auto simp: baton_ok_def svn_txdelta_insert_op_def split: svn_delta_action.split)
    ultimately have "baton_ok sl (tpos + len) ?b" unfolding baton_ok_def nd ops using ok(3) assms(2) by auto
    moreover have "baton_target ?b src = op_bytes src opcode offset len data (baton_target b src)"
    proof -
      have "ops_target src ?nd' ?ops [] = ops_target src ?nd ?ops []"
        using ops_target_more_data [OF ok(1), of src "take len data" "[]"] by simp
      then show ?thesis
        unfolding baton_target_def nd ops ops_target_append
        by (cases opcode) (simp_all add: ops_target_Cons op_target_def op_bytes_def, simp_all add: ops_target_def)
    qed
    ultimately show ?thesis by blast
  qed
  then show "baton_ok sl (tpos + len) ?b"
    and "baton_target ?b src = op_bytes src opcode offset len data (baton_target b src)" by blast+
qed

section \<open>Removing copies\<close>

lemma remove_copy_loop_spec:
  assumes "remove_copy_loop max_len rops nl len = (rops', nl', len')" and "len \<le> max_len"
    and "ops_ok (length src) nl tv 0 (rev rops)" and "news_seq 0 (rev rops) nl"
    and "\<forall>dlt\<in>set rops. 0 < op_length dlt" and "length nd = nl"
  shows "len \<le> len' \<and> len' \<le> max_len \<and> len' - len \<le> tv \<and> nl' \<le> nl
    \<and> ops_ok (length src) nl' (tv - (len' - len)) 0 (rev rops') \<and> news_seq 0 (rev rops') nl'
    \<and> (\<forall>dlt\<in>set rops'. 0 < op_length dlt)
    \<and> ops_target src (take nl' nd) (rev rops') [] = take (tv - (len' - len)) (ops_target src nd (rev rops) [])"
  using assms
proof (induction max_len rops nl len arbitrary: tv nd rule: remove_copy_loop.induct)
  case (1 max_len new_len len)
  then show ?case by (auto simp: ops_target_def)
next
  case (2 max_len dlt ops new_len len)
  let ?all = "rev ops @ [dlt]" and ?p = "sum_list (map op_length (rev ops))"
  have ok: "ops_ok (length src) new_len tv 0 ?all" "news_seq 0 ?all new_len" using "2.prems" by simp_all
  have pre: "ops_ok (length src) new_len ?p 0 (rev ops)" "op_ok (length src) new_len ?p dlt" "tv = ?p + op_length dlt"
    using ok(1) unfolding ops_ok_append by auto
  obtain m where m: "news_seq 0 (rev ops) m" "news_seq m [dlt] new_len" using ok(2) unfolding news_seq_append by blast
  have m': "m = (if op_action dlt = Delta_new then new_len - op_length dlt else new_len)" "m \<le> new_len"
    "op_action dlt = Delta_new \<Longrightarrow> op_offset dlt = m \<and> m + op_length dlt = new_len"
    using m(2) by (auto split: if_splits)
  have len_all: "length (ops_target src nd ?all []) = tv"
    using length_ops_target [of src nd tv "[]" ?all] ok(1) "2.prems"(6) by simp
  obtain u where u: "ops_target src nd ?all [] = ops_target src nd (rev ops) [] @ u"
    using op_target_prefix [of src nd dlt "ops_target src nd (rev ops) []"]
    unfolding ops_target_append by (auto simp: ops_target_def)
  have len_pre: "length (ops_target src nd (rev ops) []) = ?p"
    using length_ops_target [of src nd ?p "[]" "rev ops"] pre(1) "2.prems"(6) by simp
  show ?case
  proof (cases "op_action dlt = Delta_target \<or> op_length dlt + len > max_len \<and> op_action dlt \<noteq> Delta_new")
    case True
    then have "rops' = dlt # ops" "nl' = new_len" "len' = len"
      using "2.prems"(1) by (auto split: if_splits)
    then show ?thesis using "2.prems"(2,5,6) ok len_all by simp
  next
    case False
    show ?thesis
    proof (cases "op_length dlt + len > max_len")
      case True
      let ?k = "max_len - len" and ?dlt = "dlt\<lparr>op_length := op_length dlt - (max_len - len)\<rparr>"
      have new: "op_action dlt = Delta_new" using True False by simp
      have r: "rops' = ?dlt # ops" "nl' = new_len - ?k" "len' = max_len" using "2.prems"(1) True new by auto
      have k: "?k < op_length dlt" using True "2.prems"(2) by linarith
      have mk: "m + (op_length dlt - ?k) = new_len - ?k" "op_offset dlt = m" "m + op_length dlt = new_len"
        using m'(3) [OF new] k by auto
      have "ops_ok (length src) (new_len - ?k) ?p 0 (rev ops)"
        by (rule ops_ok_mono [OF ops_ok_news [OF pre(1) m(1)]]) (use mk in linarith)
      then have "ops_ok (length src) nl' (tv - ?k) 0 (rev ops @ [?dlt])"
        using new mk k pre(3) unfolding ops_ok_append r(2) by (simp add: op_ok_def)
      moreover have "news_seq 0 (rev ops @ [?dlt]) nl'"
        unfolding news_seq_append using m(1) new mk r(2) by (intro exI [of _ m]) simp
      moreover have "ops_target src (take nl' nd) (rev ops @ [?dlt]) [] = take (tv - ?k) (ops_target src nd ?all [])"
      proof -
        have "ops_target src (take nl' nd) (rev ops) [] = ops_target src nd (rev ops) []"
          using ops_target_new_data [OF ops_ok_mono [OF ops_ok_news [OF pre(1) m(1)], of nl']] mk r(2) by simp
        moreover have "take (op_length dlt - ?k) (drop m (take nl' nd)) = take (op_length dlt - ?k) (drop m nd)"
          using mk(1) r(2) by (simp add: take_drop)
        moreover have "tv - ?k - ?p = op_length dlt - ?k" "min (op_length dlt) (op_length dlt - ?k) = op_length dlt - ?k"
          using pre(3) by auto
        ultimately show ?thesis
          using new mk(2) len_pre pre(3) k unfolding ops_target_append
          by (simp add: ops_target_def op_target_def min_absorb2)
      qed
      ultimately show ?thesis using "2.prems"(2,5) k pre(3) unfolding r by auto
    next
      case whole: False
      have rec: "remove_copy_loop max_len ops m (len + op_length dlt) = (rops', nl', len')"
        using "2.prems"(1) whole False m'(1) by (simp split: if_splits)
      have IH: "len + op_length dlt \<le> len' \<and> len' \<le> max_len \<and> len' - (len + op_length dlt) \<le> ?p \<and> nl' \<le> m
        \<and> ops_ok (length src) nl' (?p - (len' - (len + op_length dlt))) 0 (rev rops') \<and> news_seq 0 (rev rops') nl'
        \<and> (\<forall>dlt\<in>set rops'. 0 < op_length dlt)
        \<and> ops_target src (take nl' (take m nd)) (rev rops') []
          = take (?p - (len' - (len + op_length dlt))) (ops_target src (take m nd) (rev ops) [])"
      proof (rule "2.IH" [OF _ _, unfolded m'(1) [symmetric]])
        show "remove_copy_loop max_len ops m (len + op_length dlt) = (rops', nl', len')" by (rule rec)
        show "ops_ok (length src) m ?p 0 (rev ops)" by (rule ops_ok_news [OF pre(1) m(1)])
      qed (use False whole m(1) m'(2) "2.prems"(2,5,6) in auto)
      have "ops_target src (take m nd) (rev ops) [] = ops_target src nd (rev ops) []"
        by (rule ops_target_new_data [OF ops_ok_news [OF pre(1) m(1)]])
      moreover have "tv - (len' - len) = ?p - (len' - (len + op_length dlt))" "take nl' (take m nd) = take nl' nd"
        using IH pre(3) by (auto simp: min_absorb1)
      ultimately show ?thesis using IH pre(3) m'(2) len_pre u by (auto simp: min_absorb1)
    qed
  qed
qed

lemma remove_copy_loop_src:
  "remove_copy_loop max_len rops nl len = (rops', nl', len') \<Longrightarrow> count_src rops' \<le> count_src rops"
  by (induction max_len rops nl len rule: remove_copy_loop.induct) (auto split: if_splits)

lemma count_src_rev [simp]: "count_src (rev xs) = count_src xs"
  by (induction xs) auto

lemma remove_copy_spec:
  assumes "baton_ok (length src) tpos b" and "svn_txdelta_remove_copy b max_len = (b', len)"
  shows "len \<le> max_len \<and> len \<le> tpos \<and> baton_ok (length src) (tpos - len) b'
    \<and> baton_target b' src = take (tpos - len) (baton_target b src)"
proof -
  obtain rops nl where r: "remove_copy_loop max_len (rev (ob_ops b)) (length (ob_new_data b)) 0 = (rops, nl, len)"
    "b' = b\<lparr>ob_ops := rev rops, ob_new_data := take nl (ob_new_data b)\<rparr>"
    using assms(2) by (auto simp: svn_txdelta_remove_copy_def split: prod.splits)
  have "0 \<le> len \<and> len \<le> max_len \<and> len - 0 \<le> tpos \<and> nl \<le> length (ob_new_data b)
    \<and> ops_ok (length src) nl (tpos - (len - 0)) 0 (rev rops) \<and> news_seq 0 (rev rops) nl
    \<and> (\<forall>dlt\<in>set rops. 0 < op_length dlt)
    \<and> ops_target src (take nl (ob_new_data b)) (rev rops) []
      = take (tpos - (len - 0)) (ops_target src (ob_new_data b) (rev (rev (ob_ops b))) [])"
    by (rule remove_copy_loop_spec [OF r(1)]) (use assms(1) in \<open>simp_all add: baton_ok_def\<close>)
  moreover have "count_src rops \<le> ob_src_ops b"
    using remove_copy_loop_src [OF r(1)] assms(1) by (simp add: baton_ok_def)
  ultimately show ?thesis by (simp add: baton_ok_def baton_target_def r(2) min_absorb2)
qed

section \<open>Properties\<close>

text \<open>C23. Inserting operations and removing copies act on what the builder denotes: an insertion, merged
  with its predecessor or not, appends the bytes of the operation; a removal cuts at most \<open>max_len\<close>
  bytes off the end; both keep the builder well formed.\<close>

theorem ops_builder_correct:
  assumes "baton_ok (length src) tpos b" and "0 < len"
    and "case opcode of Delta_source \<Rightarrow> offset + len \<le> length src | Delta_target \<Rightarrow> offset < tpos
      | Delta_new \<Rightarrow> len \<le> length data"
    and "svn_txdelta_remove_copy b max_len = (b', n)"
  shows "baton_ok (length src) (tpos + len) (svn_txdelta_insert_op b opcode offset len data)
    \<and> baton_target (svn_txdelta_insert_op b opcode offset len data) src
      = op_bytes src opcode offset len data (baton_target b src)
    \<and> n \<le> max_len \<and> n \<le> tpos \<and> baton_ok (length src) (tpos - n) b'
    \<and> baton_target b' src = take (tpos - n) (baton_target b src)"
  using insert_op_spec [OF assms(1-3)] remove_copy_spec [OF assms(1,4)] by blast

theorem ops_builder_correct_witness:
  "\<exists>b b' n. baton_target (svn_txdelta_insert_op b Delta_target 0 4 []) [1, 2, 3]
      = op_bytes [1, 2, 3] Delta_target 0 4 [] (baton_target b [1, 2, 3])
    \<and> svn_txdelta_remove_copy b 1 = (b', n) \<and> n = 1 \<and> baton_target b' [1, 2, 3] = take (3 - n) (baton_target b [1, 2, 3])"
proof -
  let ?b = "svn_txdelta_insert_op (svn_txdelta_insert_op empty_baton Delta_source 1 2 []) Delta_new 0 1 [7]"
  have b: "baton_ok (length [1, 2, 3 :: byte]) 3 ?b"
    by (simp add: baton_ok_def svn_txdelta_insert_op_def empty_baton_def op_ok_def)
  obtain b' n where r: "svn_txdelta_remove_copy ?b 1 = (b', n)" "n = 1"
    by (simp add: svn_txdelta_remove_copy_def svn_txdelta_insert_op_def empty_baton_def)
  show ?thesis
    using ops_builder_correct [OF b, where len = 4 and opcode = Delta_target and offset = 0 and data = "[]"
      and max_len = 1 and b' = b' and n = n] r
    by (intro exI [of _ ?b] exI [of _ b'] exI [of _ n]) simp
qed

text \<open>\<open>src_ops\<close>, documented as the number of source copies of a window, goes on counting a source
  copy that \<open>svn_txdelta__remove_copy\<close> has taken out again.\<close>

theorem remove_copy_keeps_src_ops:
  "\<exists>b. svn_txdelta_remove_copy (svn_txdelta_insert_op empty_baton Delta_source 0 8 []) 8 = (b, 8)
    \<and> ob_ops b = [] \<and> ob_src_ops b = 1"
  by (simp add: svn_txdelta_remove_copy_def svn_txdelta_insert_op_def empty_baton_def)

end
