(* ===== verification/Xdelta.thy ===== *)
theory Xdelta
  imports Delta_Build
begin

text \<open>
  \<open>libsvn_delta/xdelta.c\<close>: the rolling checksum, the hash table of source blocks, the search
  for matches and the delta, up to \<open>compute_window\<close> of \<open>text_delta.c\<close>.

  \<open>a\<close> is the source, \<open>b\<close> the target, both lists of bytes with a position in place of a
  pointer. Slots hold \<open>32 word\<close> positions and checksums, with \<open>NO_POSITION\<close> for a free slot; the
  probe loops and the loop over the source blocks, whose counter has 32 bits, are partial functions,
  and that they end is proved. Every read of a slot or of bytes of the source or the target is
  checked: outside of the list it is \<open>None\<close>, and so is a comparison of more bytes than both sides
  have. \<open>unaligned\<close> is \<open>SVN_UNALIGNED_ACCESS_IS_OK\<close>. Sizes are \<open>nat\<close>: they are at most those of
  the buffers.
\<close>

unbundle bit_operations_syntax

section \<open>The rolling checksum\<close>

definition MATCH_BLOCKSIZE :: nat where "MATCH_BLOCKSIZE = 64"

definition NO_POSITION :: "32 word" where "NO_POSITION = - 1"

definition adler32_replace :: "32 word \<Rightarrow> byte \<Rightarrow> byte \<Rightarrow> 32 word" where
  "adler32_replace adler32 c_out c_in =
     (let adler32 = adler32 - word_of_nat MATCH_BLOCKSIZE * 0x10000 * ucast c_out;
          adler32 = adler32 - ucast c_out;
          adler32 = adler32 + ucast c_in
      in adler32 + adler32 * 0x10000)"

text \<open>The sums over the first \<open>MATCH_BLOCKSIZE\<close> bytes of \<open>data\<close>; the code unrolls the loop eight times.\<close>

fun adler_loop :: "bytes \<Rightarrow> 32 word \<Rightarrow> 32 word \<Rightarrow> 32 word \<times> 32 word" where
  "adler_loop [] s1 s2 = (s1, s2)"
| "adler_loop (c # inp) s1 s2 = (let s1 = s1 + ucast c in adler_loop inp s1 (s2 + s1))"

definition init_adler32 :: "bytes \<Rightarrow> 32 word" where
  "init_adler32 data = (case adler_loop (take MATCH_BLOCKSIZE data) 0 0 of (s1, s2) \<Rightarrow> s2 * 0x10000 + s1)"

text \<open>The checked reads: one byte, and the block that a checksum is computed of.\<close>

definition read_at :: "bytes \<Rightarrow> nat \<Rightarrow> byte option" where
  "read_at data i = (if i < length data then Some (data ! i) else None)"

definition init_adler32_at :: "bytes \<Rightarrow> nat \<Rightarrow> 32 word option" where
  "init_adler32_at data i =
     Option.bind (assert_opt (i + MATCH_BLOCKSIZE \<le> length data)) (\<lambda>_. Some (init_adler32 (drop i data)))"

section \<open>The table of source blocks\<close>

record block =
  adlersum :: "32 word"
  blk_pos :: "32 word"

record blocks =
  blocks_max :: "32 word"
  blocks_data :: bytes
  slots :: "block list"

definition hash_func :: "32 word \<Rightarrow> 32 word" where
  "hash_func adler = adler XOR drop_bit 12 adler"

text \<open>\<open>memcmp(a + i, b + j, n) == 0\<close>, and with the check that both sides have \<open>n\<close> bytes.\<close>

definition same_bytes :: "bytes \<Rightarrow> nat \<Rightarrow> bytes \<Rightarrow> nat \<Rightarrow> nat \<Rightarrow> bool" where
  "same_bytes a i b j n \<longleftrightarrow> take n (drop i a) = take n (drop j b)"

definition memcmp_same :: "bytes \<Rightarrow> nat \<Rightarrow> bytes \<Rightarrow> nat \<Rightarrow> nat \<Rightarrow> bool option" where
  "memcmp_same a i b j n =
     Option.bind (assert_opt (i + n \<le> length a \<and> j + n \<le> length b)) (\<lambda>_. Some (same_bytes a i b j n))"

definition slot_at :: "blocks \<Rightarrow> 32 word \<Rightarrow> block option" where
  "slot_at blks h = (if unat h < length (slots blks) then Some (slots blks ! unat h) else None)"

text \<open>The probe loops do not end when no slot is free; not returning is \<open>None\<close>.\<close>

partial_function (option) add_block_loop ::
    "blocks \<Rightarrow> 32 word \<Rightarrow> 32 word \<Rightarrow> 32 word \<Rightarrow> blocks option" where
  "add_block_loop blks adler pos h =
     Option.bind (slot_at blks h) (\<lambda>slot.
      if blk_pos slot = NO_POSITION
      then Some (blks\<lparr>slots := (slots blks)[unat h := \<lparr>adlersum = adler, blk_pos = pos\<rparr>]\<rparr>)
      else Option.bind
        (if adlersum slot = adler
         then memcmp_same (blocks_data blks) (unat (blk_pos slot)) (blocks_data blks) (unat pos) MATCH_BLOCKSIZE
         else Some False)
        (\<lambda>same. if same then Some blks
                else add_block_loop blks adler pos ((h + 1) AND blocks_max blks)))"

definition add_block :: "blocks \<Rightarrow> 32 word \<Rightarrow> 32 word \<Rightarrow> blocks option" where
  "add_block blks adler pos = add_block_loop blks adler pos (hash_func adler AND blocks_max blks)"

partial_function (option) find_block_loop ::
    "blocks \<Rightarrow> 32 word \<Rightarrow> bytes \<Rightarrow> nat \<Rightarrow> 32 word \<Rightarrow> 32 word option" where
  "find_block_loop blks adler b bpos h =
     Option.bind (slot_at blks h) (\<lambda>slot.
      if blk_pos slot = NO_POSITION then Some NO_POSITION
      else Option.bind
        (if adlersum slot = adler
         then memcmp_same (blocks_data blks) (unat (blk_pos slot)) b bpos MATCH_BLOCKSIZE
         else Some False)
        (\<lambda>same. if same then Some (blk_pos slot)
                else find_block_loop blks adler b bpos ((h + 1) AND blocks_max blks)))"

definition find_block :: "blocks \<Rightarrow> 32 word \<Rightarrow> bytes \<Rightarrow> nat \<Rightarrow> 32 word option" where
  "find_block blks adler b bpos = find_block_loop blks adler b bpos (hash_func adler AND blocks_max blks)"

text \<open>\<open>wnslots\<close> is \<open>2 ^ k\<close>, doubled until it is larger than \<open>nblocks\<close>; the exponent is counted.\<close>

function wnslots_loop :: "nat \<Rightarrow> nat \<Rightarrow> nat" where
  "wnslots_loop k nblocks = (if 2 ^ k \<le> nblocks then wnslots_loop (Suc k) nblocks else k)"
  by pat_completeness auto
termination
proof (relation "measure (\<lambda>(k, nblocks). Suc nblocks - 2 ^ k)"; clarsimp)
  fix k nblocks :: nat
  assume "2 ^ k \<le> nblocks"
  moreover have "(2 :: nat) ^ k < 2 * 2 ^ k" by simp
  ultimately show "Suc nblocks - 2 * 2 ^ k < Suc nblocks - 2 ^ k" by linarith
qed

declare wnslots_loop.simps [simp del]

text \<open>
  The counter is an \<open>apr_uint32_t\<close>: \<open>i + MATCH_BLOCKSIZE\<close> is computed in 32 bits and can wrap around.
\<close>

partial_function (option) add_blocks_loop :: "bytes \<Rightarrow> blocks \<Rightarrow> 32 word \<Rightarrow> blocks option" where
  "add_blocks_loop data blks i =
     (if unat (i + word_of_nat MATCH_BLOCKSIZE) \<le> length data
      then Option.bind (init_adler32_at data (unat i)) (\<lambda>adler.
           Option.bind (add_block blks adler i) (\<lambda>blks.
             add_blocks_loop data blks (i + word_of_nat MATCH_BLOCKSIZE)))
      else Some blks)"

text \<open>\<open>None\<close> also stands for the failed assertion that the number of slots fits.\<close>

definition init_blocks_table :: "bytes \<Rightarrow> blocks option" where
  "init_blocks_table data =
     (let nblocks = length data div MATCH_BLOCKSIZE + 1;
          wnslots = 2 ^ wnslots_loop 0 nblocks * 2
      in Option.bind (assert_opt (wnslots < 2 ^ 32)) (\<lambda>_.
           add_blocks_loop data
             \<lparr>blocks_max = word_of_nat wnslots - 1, blocks_data = data,
              slots = replicate wnslots \<lparr>adlersum = 0, blk_pos = NO_POSITION\<rparr>\<rparr> 0))"

section \<open>Matching\<close>

text \<open>Positions \<open>ai\<close> and \<open>bi\<close> stand for the pointers \<open>a + ai\<close>, \<open>b + bi\<close>; the chunks are \<open>apr_size_t\<close>.\<close>

function match_chunks :: "bytes \<Rightarrow> nat \<Rightarrow> bytes \<Rightarrow> nat \<Rightarrow> nat \<Rightarrow> nat \<Rightarrow> nat" where
  "match_chunks a ai b bi pos max_len =
     (if pos + 8 \<le> max_len \<and> same_bytes a (ai + pos) b (bi + pos) 8
      then match_chunks a ai b bi (pos + 8) max_len else pos)"
  by pat_completeness auto
termination by (relation "measure (\<lambda>(a, ai, b, bi, pos, max_len). max_len - pos)") auto

function match_bytes :: "bytes \<Rightarrow> nat \<Rightarrow> bytes \<Rightarrow> nat \<Rightarrow> nat \<Rightarrow> nat \<Rightarrow> nat" where
  "match_bytes a ai b bi pos max_len =
     (if pos < max_len \<and> a ! (ai + pos) = b ! (bi + pos)
      then match_bytes a ai b bi (Suc pos) max_len else pos)"
  by pat_completeness auto
termination by (relation "measure (\<lambda>(a, ai, b, bi, pos, max_len). max_len - pos)") auto

definition match_length :: "bool \<Rightarrow> bytes \<Rightarrow> nat \<Rightarrow> bytes \<Rightarrow> nat \<Rightarrow> nat \<Rightarrow> nat" where
  "match_length unaligned a ai b bi max_len =
     match_bytes a ai b bi (if unaligned then match_chunks a ai b bi 0 max_len else 0) max_len"

function rmatch_chunks :: "bytes \<Rightarrow> nat \<Rightarrow> bytes \<Rightarrow> nat \<Rightarrow> nat \<Rightarrow> nat \<Rightarrow> nat" where
  "rmatch_chunks a ai b bi pos max_len =
     (if pos \<le> max_len \<and> same_bytes a (ai - pos) b (bi - pos) 8
      then rmatch_chunks a ai b bi (pos + 8) max_len else pos)"
  by pat_completeness auto
termination by (relation "measure (\<lambda>(a, ai, b, bi, pos, max_len). Suc max_len - pos)") auto

text \<open>\<open>while (++pos <= max_len)\<close>.\<close>

function rmatch_bytes :: "bytes \<Rightarrow> nat \<Rightarrow> bytes \<Rightarrow> nat \<Rightarrow> nat \<Rightarrow> nat \<Rightarrow> nat" where
  "rmatch_bytes a ai b bi pos max_len =
     (let pos = Suc pos in
      if pos \<le> max_len
      then if a ! (ai - pos) \<noteq> b ! (bi - pos) then pos - 1 else rmatch_bytes a ai b bi pos max_len
      else max_len)"
  by pat_completeness auto
termination by (relation "measure (\<lambda>(a, ai, b, bi, pos, max_len). max_len - pos)") auto

declare match_chunks.simps [simp del] match_bytes.simps [simp del] rmatch_chunks.simps [simp del]
  rmatch_bytes.simps [simp del]

definition reverse_match_length :: "bool \<Rightarrow> bytes \<Rightarrow> nat \<Rightarrow> bytes \<Rightarrow> nat \<Rightarrow> nat \<Rightarrow> nat" where
  "reverse_match_length unaligned a ai b bi max_len =
     rmatch_bytes a ai b bi (if unaligned then rmatch_chunks a ai b bi 8 max_len - 8 else 0) max_len"

text \<open>
  The calls of the two comparisons, with the check that the \<open>max_len\<close> bytes they may look at are in
  the buffers.
\<close>

definition match_length_at :: "bool \<Rightarrow> bytes \<Rightarrow> nat \<Rightarrow> bytes \<Rightarrow> nat \<Rightarrow> nat \<Rightarrow> nat option" where
  "match_length_at unaligned a ai b bi max_len =
     Option.bind (assert_opt (ai + max_len \<le> length a \<and> bi + max_len \<le> length b)) (\<lambda>_.
       Some (match_length unaligned a ai b bi max_len))"

definition reverse_match_length_at :: "bool \<Rightarrow> bytes \<Rightarrow> nat \<Rightarrow> bytes \<Rightarrow> nat \<Rightarrow> nat \<Rightarrow> nat option" where
  "reverse_match_length_at unaligned a ai b bi max_len =
     Option.bind (assert_opt (max_len \<le> ai \<and> ai \<le> length a \<and> max_len \<le> bi \<and> bi \<le> length b)) (\<lambda>_.
       Some (reverse_match_length unaligned a ai b bi max_len))"

fun extend_back :: "bytes \<Rightarrow> bytes \<Rightarrow> nat \<Rightarrow> nat \<Rightarrow> nat \<Rightarrow> nat \<Rightarrow> (nat \<times> nat \<times> nat) option" where
  "extend_back a b pending 0 bpos dlta = Some (0, bpos, dlta)"
| "extend_back a b pending (Suc apos) bpos dlta =
     (if bpos > pending
      then Option.bind (read_at a apos) (\<lambda>x. Option.bind (read_at b (bpos - 1)) (\<lambda>y.
             if x = y then extend_back a b pending apos (bpos - 1) (Suc dlta)
             else Some (Suc apos, bpos, dlta)))
      else Some (Suc apos, bpos, dlta))"

text \<open>The number of matching bytes, \<open>*bposp\<close> and \<open>*aposp\<close> (left as it was without a match).\<close>

definition find_match ::
    "bool \<Rightarrow> blocks \<Rightarrow> 32 word \<Rightarrow> bytes \<Rightarrow> bytes \<Rightarrow> nat \<Rightarrow> nat \<Rightarrow> nat \<Rightarrow> (nat \<times> nat \<times> nat) option" where
  "find_match unaligned blks rolling a b bpos apos0 pending =
     Option.bind (find_block blks rolling b bpos) (\<lambda>apos.
       if apos = NO_POSITION then Some (0, bpos, apos0)
       else let apos = unat apos;
                max_delta = (if length a - apos - MATCH_BLOCKSIZE < length b - bpos - MATCH_BLOCKSIZE
                             then length a - apos - MATCH_BLOCKSIZE else length b - bpos - MATCH_BLOCKSIZE)
            in Option.bind (match_length_at unaligned a (apos + MATCH_BLOCKSIZE) b (bpos + MATCH_BLOCKSIZE) max_delta)
                 (\<lambda>dlta. Option.bind (extend_back a b pending apos bpos dlta)
                   (\<lambda>(apos, bpos, dlta). Some (MATCH_BLOCKSIZE + dlta, bpos, apos))))"

section \<open>The delta\<close>

text \<open>The insertion of \<open>n\<close> bytes of the target from \<open>pos\<close> on, which \<open>insert_op\<close> copies.\<close>

definition insert_new_at :: "ops_baton \<Rightarrow> nat \<Rightarrow> nat \<Rightarrow> bytes \<Rightarrow> nat \<Rightarrow> ops_baton option" where
  "insert_new_at baton offset n b pos =
     Option.bind (assert_opt (pos + n \<le> length b)) (\<lambda>_.
       Some (svn_txdelta_insert_op baton Delta_new offset n (drop pos b)))"

definition store_delta_trailer :: "bool \<Rightarrow> ops_baton \<Rightarrow> bytes \<Rightarrow> bytes \<Rightarrow> nat \<Rightarrow> ops_baton option" where
  "store_delta_trailer unaligned baton a b start =
     (let max_len = (if length a > length b - start then length b - start else length a) in
      if max_len = 0 then Some baton
      else Option.bind (reverse_match_length_at unaligned a (length a) b (length b) max_len) (\<lambda>end_match.
           let end_match = (if end_match \<le> 4 then 0 else end_match) in
           Option.bind
             (if length b - start > end_match
              then insert_new_at baton start (length b - start - end_match) b start else Some baton)
             (\<lambda>baton. Some
               (if end_match \<noteq> 0
                then svn_txdelta_insert_op baton Delta_source (length a - end_match) end_match []
                else baton))))"

text \<open>One match: the operations for it and for what is pending, the new \<open>lo\<close>.\<close>

definition store_match ::
    "bool \<Rightarrow> bytes \<Rightarrow> bytes \<Rightarrow> ops_baton \<Rightarrow> nat \<Rightarrow> nat \<Rightarrow> nat \<Rightarrow> nat \<Rightarrow> (ops_baton \<times> nat) option" where
  "store_match unaligned a b baton lo apos matchlen pending =
     Option.bind
       (if lo - pending > 0
        then Option.bind (insert_new_at baton 0 (lo - pending) b pending) (\<lambda>baton.
               Some (baton, apos, matchlen, lo))
        else Option.bind (reverse_match_length_at unaligned a apos b lo (if apos < lo then apos else lo)) (\<lambda>len.
          Some (if len > 0
                then case svn_txdelta_remove_copy baton len of (baton, len) \<Rightarrow>
                       (baton, apos - len, matchlen + len, lo - len)
                else (baton, apos, matchlen, lo))))
       (\<lambda>(baton, apos, matchlen, lo).
          Some (svn_txdelta_insert_op baton Delta_source apos matchlen [], lo + matchlen))"

lemma extend_back_sum:
  "extend_back a b pending apos bpos dlta = Some (apos', bpos', dlta') \<Longrightarrow>
    bpos' + dlta' = bpos + dlta \<and> apos' + dlta' = apos + dlta \<and> bpos' \<le> bpos"
  by (induction a b pending apos bpos dlta rule: extend_back.induct)
    (auto simp: Option.bind_eq_Some_conv split: if_splits)

lemma find_match_progress:
  assumes "find_match unaligned blks rolling a b bpos apos0 pending = Some (matchlen, bpos', apos)"
  shows "matchlen = 0 \<and> bpos' = bpos \<or> bpos < bpos' + matchlen \<and> matchlen \<noteq> 0"
  using assms extend_back_sum
  by (fastforce simp: find_match_def MATCH_BLOCKSIZE_def Let_def Option.bind_eq_Some_conv split: if_splits prod.splits)

lemma store_match_progress:
  "store_match unaligned a b baton lo apos matchlen pending = Some (baton', lo') \<Longrightarrow> lo + matchlen \<le> lo'"
  by (auto simp: store_match_def Let_def Option.bind_eq_Some_conv split: if_splits prod.splits)

function compute_delta_loop ::
    "bool \<Rightarrow> blocks \<Rightarrow> bytes \<Rightarrow> bytes \<Rightarrow> ops_baton \<Rightarrow> 32 word \<Rightarrow> nat \<Rightarrow> nat \<Rightarrow> (ops_baton \<times> nat) option" where
  "compute_delta_loop unaligned blks a b baton rolling lo pending =
     (if lo < length b
      then Option.bind (if lo + MATCH_BLOCKSIZE \<le> length b
                        then find_match unaligned blks rolling a b lo 0 pending else Some (0, lo, 0))
             (\<lambda>(matchlen, lo, apos).
               if matchlen = 0
               then Option.bind
                      (if lo + MATCH_BLOCKSIZE < length b
                       then Option.bind (read_at b lo) (\<lambda>c_out.
                            Option.bind (read_at b (lo + MATCH_BLOCKSIZE)) (\<lambda>c_in.
                              Some (adler32_replace rolling c_out c_in)))
                       else Some rolling)
                      (\<lambda>rolling. compute_delta_loop unaligned blks a b baton rolling (Suc lo) pending)
               else Option.bind (store_match unaligned a b baton lo apos matchlen pending) (\<lambda>(baton, lo).
                    Option.bind (if lo + MATCH_BLOCKSIZE \<le> length b then init_adler32_at b lo else Some rolling)
                      (\<lambda>rolling. compute_delta_loop unaligned blks a b baton rolling lo lo)))
      else Some (baton, pending))"
  by pat_completeness auto
termination
  by (relation "measure (\<lambda>(_, _, a, b, baton, rolling, lo, pending). length b - lo)")
    (auto split: if_splits dest!: find_match_progress store_match_progress)

declare compute_delta_loop.simps [simp del]

definition compute_delta :: "bool \<Rightarrow> ops_baton \<Rightarrow> bytes \<Rightarrow> bytes \<Rightarrow> ops_baton option" where
  "compute_delta unaligned baton a b =
     Option.bind (match_length_at unaligned a 0 b 0 (if length a > length b then length b else length a)) (\<lambda>lo.
       let (baton, lo) = (if lo > 4 \<or> lo = length b
             then (svn_txdelta_insert_op baton Delta_source 0 lo [], lo) else (baton, 0))
       in if length b - lo < MATCH_BLOCKSIZE \<or> length a < MATCH_BLOCKSIZE
          then store_delta_trailer unaligned baton a b lo
          else Option.bind (init_blocks_table a) (\<lambda>blks.
               Option.bind (init_adler32_at b lo) (\<lambda>rolling.
               Option.bind (compute_delta_loop unaligned blks a b baton rolling lo lo)
                 (\<lambda>(baton, pending). store_delta_trailer unaligned baton a b pending))))"

text \<open>The source and the target follow each other in \<open>data\<close>.\<close>

definition svn_txdelta_xdelta :: "bool \<Rightarrow> ops_baton \<Rightarrow> bytes \<Rightarrow> nat \<Rightarrow> nat \<Rightarrow> ops_baton option" where
  "svn_txdelta_xdelta unaligned baton data source_len target_len =
     Option.bind (assert_opt (source_len \<noteq> 0)) (\<lambda>_.
     Option.bind (assert_opt (source_len + target_len \<le> length data)) (\<lambda>_.
       compute_delta unaligned baton (take source_len data) (take target_len (drop source_len data))))"

text \<open>\<open>compute_window\<close> of \<open>text_delta.c\<close>.\<close>

definition compute_window :: "bool \<Rightarrow> bytes \<Rightarrow> nat \<Rightarrow> nat \<Rightarrow> int \<Rightarrow> txdelta_window option" where
  "compute_window unaligned data source_len target_len source_offset =
     Option.bind
       (if source_len = 0 then insert_new_at empty_baton 0 target_len data 0
        else svn_txdelta_xdelta unaligned empty_baton data source_len target_len)
       (\<lambda>baton. Some ((svn_txdelta_make_window baton)
          \<lparr>sview_offset := source_offset, sview_len := source_len, tview_len := target_len\<rparr>))"

lemmas checked_defs = assert_opt_def read_at_def init_adler32_at_def memcmp_same_def slot_at_def
  match_length_at_def reverse_match_length_at_def insert_new_at_def

section \<open>Comparing and matching\<close>

lemma same_bytes_0 [simp]: "same_bytes a i b j 0"
  by (simp add: same_bytes_def)

lemma same_bytes_add:
  "same_bytes a i b j m \<Longrightarrow> same_bytes a (i + m) b (j + m) n \<Longrightarrow> same_bytes a i b j (m + n)"
  by (simp add: same_bytes_def take_add add.commute)

lemma same_bytes_suffix:
  "same_bytes a i b j n \<Longrightarrow> same_bytes a (i + m) b (j + m) (n - m)"
  unfolding same_bytes_def by (metis add.commute drop_drop drop_take)

lemma same_bytes_1: "i < length a \<Longrightarrow> j < length b \<Longrightarrow> same_bytes a i b j 1 \<longleftrightarrow> a ! i = b ! j"
  by (simp add: same_bytes_def drop_Cons_nth)

text \<open>The result of a comparison of \<open>max_len\<close> bytes forwards: the length of the common prefix.\<close>

definition match_result :: "bytes \<Rightarrow> nat \<Rightarrow> bytes \<Rightarrow> nat \<Rightarrow> nat \<Rightarrow> nat \<Rightarrow> bool" where
  "match_result a ai b bi max_len r \<longleftrightarrow>
     r \<le> max_len \<and> same_bytes a ai b bi r \<and> (r < max_len \<longrightarrow> a ! (ai + r) \<noteq> b ! (bi + r))"

lemma match_chunks_spec:
  "pos \<le> max_len \<Longrightarrow> same_bytes a ai b bi pos \<Longrightarrow>
   match_chunks a ai b bi pos max_len \<le> max_len \<and> same_bytes a ai b bi (match_chunks a ai b bi pos max_len)"
proof (induction a ai b bi pos max_len rule: match_chunks.induct)
  case (1 a ai b bi pos max_len)
  show ?case
  proof (cases "pos + 8 \<le> max_len \<and> same_bytes a (ai + pos) b (bi + pos) 8")
    case True
    then show ?thesis using "1.IH" [OF True] "1.prems" same_bytes_add [of a ai b bi pos 8]
      by (simp add: match_chunks.simps [of a ai b bi pos])
  next
    case False
    then show ?thesis using "1.prems" by (auto simp: match_chunks.simps [of a ai b bi pos])
  qed
qed

lemma match_bytes_spec:
  "pos \<le> max_len \<Longrightarrow> same_bytes a ai b bi pos \<Longrightarrow> ai + max_len \<le> length a \<Longrightarrow> bi + max_len \<le> length b \<Longrightarrow>
   match_result a ai b bi max_len (match_bytes a ai b bi pos max_len)"
proof (induction a ai b bi pos max_len rule: match_bytes.induct)
  case (1 a ai b bi pos max_len)
  show ?case
  proof (cases "pos < max_len \<and> a ! (ai + pos) = b ! (bi + pos)")
    case True
    then have "same_bytes a (ai + pos) b (bi + pos) 1" using "1.prems" by (subst same_bytes_1) auto
    then have "same_bytes a ai b bi (Suc pos)" using same_bytes_add [of a ai b bi pos 1] "1.prems" by simp
    then show ?thesis using "1.IH" [OF True] "1.prems" True by (simp add: match_bytes.simps [of a ai b bi pos])
  next
    case False
    then show ?thesis using "1.prems" by (auto simp: match_bytes.simps [of a ai b bi pos] match_result_def)
  qed
qed

lemma match_length_spec:
  "ai + max_len \<le> length a \<Longrightarrow> bi + max_len \<le> length b \<Longrightarrow>
   match_result a ai b bi max_len (match_length unaligned a ai b bi max_len)"
  using match_chunks_spec [of 0 max_len a ai b bi] by (simp add: match_length_def match_bytes_spec)

lemma match_result_unique:
  assumes "match_result a ai b bi m r" and "match_result a ai b bi m r'"
    and "ai + m \<le> length a" and "bi + m \<le> length b"
  shows "r = r'"
proof -
  have "\<not> r < r'" if "match_result a ai b bi m r" "match_result a ai b bi m r'" for r r'
  proof
    assume lt: "r < r'"
    then have "same_bytes a (ai + r) b (bi + r) (r' - r)" using that(2) same_bytes_suffix by (auto simp: match_result_def)
    then have "take 1 (take (r' - r) (drop (ai + r) a)) = take 1 (take (r' - r) (drop (bi + r) b))"
      by (simp only: same_bytes_def)
    then have "same_bytes a (ai + r) b (bi + r) 1" using lt by (simp add: same_bytes_def min_absorb1)
    then have "a ! (ai + r) = b ! (bi + r)"
      using lt that(2) assms(3,4) by (subst (asm) same_bytes_1) (auto simp: match_result_def)
    then show False using that lt by (auto simp: match_result_def)
  qed
  then show ?thesis using assms(1,2) by (meson linorder_neqE_nat)
qed

text \<open>And backwards.\<close>

definition rmatch_result :: "bytes \<Rightarrow> nat \<Rightarrow> bytes \<Rightarrow> nat \<Rightarrow> nat \<Rightarrow> nat \<Rightarrow> bool" where
  "rmatch_result a ai b bi max_len r \<longleftrightarrow>
     r \<le> max_len \<and> same_bytes a (ai - r) b (bi - r) r \<and> (r < max_len \<longrightarrow> a ! (ai - Suc r) \<noteq> b ! (bi - Suc r))"

lemma same_bytes_back:
  assumes "same_bytes a (ai - m) b (bi - m) m" and "same_bytes a (ai - (m + n)) b (bi - (m + n)) n"
    and "m + n \<le> ai" and "m + n \<le> bi"
  shows "same_bytes a (ai - (m + n)) b (bi - (m + n)) (m + n)"
  using same_bytes_add [of a "ai - (m + n)" b "bi - (m + n)" n m] assms by (simp add: add.commute)

lemma rmatch_chunks_spec:
  "8 \<le> pos \<Longrightarrow> pos - 8 \<le> max_len \<Longrightarrow> same_bytes a (ai - (pos - 8)) b (bi - (pos - 8)) (pos - 8) \<Longrightarrow>
   max_len \<le> ai \<Longrightarrow> max_len \<le> bi \<Longrightarrow>
   (let p = rmatch_chunks a ai b bi pos max_len - 8 in p \<le> max_len \<and> same_bytes a (ai - p) b (bi - p) p)"
proof (induction a ai b bi pos max_len rule: rmatch_chunks.induct)
  case (1 a ai b bi pos max_len)
  show ?case
  proof (cases "pos \<le> max_len \<and> same_bytes a (ai - pos) b (bi - pos) 8")
    case True
    have "same_bytes a (ai - pos) b (bi - pos) pos"
      using same_bytes_back [of a ai "pos - 8" b bi 8] "1.prems" True by simp
    then show ?thesis using "1.IH" [OF True] "1.prems" True
      by (simp add: rmatch_chunks.simps [of a ai b bi pos])
  next
    case False
    then show ?thesis using "1.prems" by (auto simp: rmatch_chunks.simps [of a ai b bi pos] Let_def)
  qed
qed

lemma rmatch_bytes_spec:
  "pos \<le> max_len \<Longrightarrow> same_bytes a (ai - pos) b (bi - pos) pos \<Longrightarrow> max_len \<le> ai \<Longrightarrow> max_len \<le> bi \<Longrightarrow>
   ai \<le> length a \<Longrightarrow> bi \<le> length b \<Longrightarrow>
   rmatch_result a ai b bi max_len (rmatch_bytes a ai b bi pos max_len)"
proof (induction a ai b bi pos max_len rule: rmatch_bytes.induct)
  case (1 a ai b bi pos max_len)
  show ?case
  proof (cases "Suc pos \<le> max_len")
    case False
    then have eq: "pos = max_len" using "1.prems"(1) by simp
    show ?thesis using False "1.prems"(2) unfolding eq by (simp add: rmatch_bytes.simps [of a ai b bi max_len] Let_def rmatch_result_def)
  next
    case le: True
    show ?thesis
    proof (cases "a ! (ai - Suc pos) = b ! (bi - Suc pos)")
      case True
      then have "same_bytes a (ai - Suc pos) b (bi - Suc pos) 1" using "1.prems" le by (subst same_bytes_1) auto
      then have "same_bytes a (ai - Suc pos) b (bi - Suc pos) (Suc pos)"
        using same_bytes_back [of a ai pos b bi 1] "1.prems" le by simp
      then show ?thesis using "1.IH" [OF refl le] "1.prems" True le by (simp add: rmatch_bytes.simps [of a ai b bi pos] Let_def)
    next
      case False
      then show ?thesis using "1.prems" le by (simp add: rmatch_bytes.simps [of a ai b bi pos] Let_def rmatch_result_def)
    qed
  qed
qed

lemma reverse_match_length_spec:
  "max_len \<le> ai \<Longrightarrow> max_len \<le> bi \<Longrightarrow> ai \<le> length a \<Longrightarrow> bi \<le> length b \<Longrightarrow>
   rmatch_result a ai b bi max_len (reverse_match_length unaligned a ai b bi max_len)"
  using rmatch_chunks_spec [of 8 max_len a ai b bi] by (simp add: reverse_match_length_def rmatch_bytes_spec Let_def)

lemma extend_back_spec:
  "pending \<le> bpos \<Longrightarrow> same_bytes a apos b bpos (n + dlta) \<Longrightarrow> apos \<le> length a \<Longrightarrow> bpos \<le> length b \<Longrightarrow>
   \<exists>apos' bpos' dlta'. extend_back a b pending apos bpos dlta = Some (apos', bpos', dlta')
     \<and> pending \<le> bpos' \<and> same_bytes a apos' b bpos' (n + dlta')"
proof (induction a b pending apos bpos dlta rule: extend_back.induct)
  case (2 a b pending apos bpos dlta)
  have r: "read_at a apos = Some (a ! apos)" using "2.prems" by (simp add: read_at_def)
  show ?case
  proof (cases "bpos > pending")
    case gt: True
    then have rb: "read_at b (bpos - 1) = Some (b ! (bpos - 1))" using "2.prems" by (simp add: read_at_def)
    show ?thesis
    proof (cases "a ! apos = b ! (bpos - 1)")
      case True
      then have "same_bytes a apos b (bpos - 1) 1" using "2.prems" gt by (subst same_bytes_1) auto
      then have "same_bytes a apos b (bpos - 1) (n + Suc dlta)"
        using same_bytes_add [of a apos b "bpos - 1" 1 "n + dlta"] gt "2.prems" by simp
      moreover have "pending \<le> bpos - 1" "bpos - 1 \<le> length b" "apos \<le> length a" using gt "2.prems" by auto
      ultimately show ?thesis using "2.IH" [OF gt r rb True] gt True r rb by simp
    next
      case False
      then show ?thesis using gt r rb "2.prems" by simp
    qed
  qed (use "2.prems" in simp)
qed simp

section \<open>The block table\<close>

definition used :: "block \<Rightarrow> bool" where
  "used slot \<longleftrightarrow> blk_pos slot \<noteq> NO_POSITION"

definition used_slots :: "block list \<Rightarrow> nat set" where
  "used_slots ss = {i. i < length ss \<and> used (ss ! i)}"

text \<open>
  \<open>2 ^ k\<close> slots, at most \<open>m\<close> of them in use, every one for a whole block of the source.
\<close>

definition table_ok :: "nat \<Rightarrow> bytes \<Rightarrow> nat \<Rightarrow> blocks \<Rightarrow> bool" where
  "table_ok k data m blks \<longleftrightarrow>
     k < 32 \<and> length (slots blks) = 2 ^ k \<and> blocks_max blks = mask k \<and> blocks_data blks = data
     \<and> card (used_slots (slots blks)) \<le> m
     \<and> (\<forall>slot\<in>set (slots blks). used slot \<longrightarrow> unat (blk_pos slot) + MATCH_BLOCKSIZE \<le> length data)"

lemma finite_used_slots [simp]: "finite (used_slots ss)"
  by (simp add: used_slots_def)

lemma slot_at_eq: "unat h < length (slots blks) \<Longrightarrow> slot_at blks h = Some (slots blks ! unat h)"
  by (simp add: slot_at_def)

lemma memcmp_same_eq:
  "i + n \<le> length a \<Longrightarrow> j + n \<le> length b \<Longrightarrow> memcmp_same a i b j n = Some (same_bytes a i b j n)"
  by (simp add: memcmp_same_def assert_opt_def)

lemma slot_in_data:
  "table_ok k data m blks \<Longrightarrow> unat h < length (slots blks) \<Longrightarrow> blk_pos (slots blks ! unat h) \<noteq> NO_POSITION \<Longrightarrow>
   unat (blk_pos (slots blks ! unat h)) + MATCH_BLOCKSIZE \<le> length data"
  by (simp add: table_ok_def used_def)

lemma and_max_less:
  assumes "table_ok k data m blks"
  shows "unat (h AND blocks_max blks) < length (slots blks)"
proof -
  have "unat (take_bit k h) < 2 ^ k" by (simp add: unsigned_take_bit_eq)
  then show ?thesis using assms by (simp add: table_ok_def take_bit_eq_mask)
qed

lemma next_slot:
  assumes "table_ok k data m blks"
  shows "unat ((h + 1) AND blocks_max blks) = Suc (unat h) mod length (slots blks)"
proof -
  have k: "k \<le> 32" using assms by (simp add: table_ok_def)
  have "unat (h + 1) = Suc (unat h) mod 2 ^ 32" by (simp add: unat_word_ariths)
  moreover have "unat (take_bit k (h + 1)) = take_bit k (unat (h + 1))" by (rule unsigned_take_bit_eq)
  ultimately have "unat (take_bit k (h + 1)) = Suc (unat h) mod 2 ^ k"
    using mod_mod_cancel [OF le_imp_power_dvd [OF k], of "Suc (unat h)"] by (simp only: take_bit_eq_mod)
  then show ?thesis using assms by (simp add: table_ok_def take_bit_eq_mask)
qed

lemma free_slot:
  assumes "table_ok k data m blks" and "m < 2 ^ k"
  obtains i where "i < length (slots blks)" and "\<not> used (slots blks ! i)"
proof -
  have "card (used_slots (slots blks)) < card {..<length (slots blks)}"
    using assms by (simp add: table_ok_def)
  then have "\<not> {..<length (slots blks)} \<subseteq> used_slots (slots blks)"
    using card_mono [OF finite_used_slots] leD by blast
  then show ?thesis using that by (auto simp: used_slots_def)
qed

text \<open>Probing reaches a free slot, from wherever it starts.\<close>

lemma find_block_loop_total:
  assumes "table_ok k data m blks" and "\<not> used (slots blks ! ((unat h + d) mod length (slots blks)))"
    and "unat h < length (slots blks)" and "bpos + MATCH_BLOCKSIZE \<le> length b"
  shows "\<exists>r. find_block_loop blks adler b bpos h = Some r
    \<and> (r \<noteq> NO_POSITION \<longrightarrow> (\<exists>slot\<in>set (slots blks). blk_pos slot = r) \<and> same_bytes data (unat r) b bpos MATCH_BLOCKSIZE)"
  using assms(2,3)
proof (induction d arbitrary: h)
  case 0
  then have "blk_pos (slots blks ! unat h) = NO_POSITION" by (simp add: used_def)
  then show ?case using 0(2) by (simp add: find_block_loop.simps [of blks adler b bpos h] slot_at_eq)
next
  case (Suc d)
  let ?h = "(h + 1) AND blocks_max blks"
  have data: "blocks_data blks = data" using assms(1) by (simp add: table_ok_def)
  have "unat ?h < length (slots blks)" by (rule and_max_less [OF assms(1)])
  moreover have "(unat ?h + d) mod length (slots blks) = (unat h + Suc d) mod length (slots blks)"
    unfolding next_slot [OF assms(1)] by (simp add: mod_simps)
  ultimately have "\<exists>r. find_block_loop blks adler b bpos ?h = Some r
    \<and> (r \<noteq> NO_POSITION \<longrightarrow> (\<exists>slot\<in>set (slots blks). blk_pos slot = r) \<and> same_bytes data (unat r) b bpos MATCH_BLOCKSIZE)"
    using Suc.IH [of ?h] Suc.prems by simp
  moreover have "memcmp_same data (unat (blk_pos (slots blks ! unat h))) b bpos MATCH_BLOCKSIZE
      = Some (same_bytes data (unat (blk_pos (slots blks ! unat h))) b bpos MATCH_BLOCKSIZE)"
    if "blk_pos (slots blks ! unat h) \<noteq> NO_POSITION"
    by (rule memcmp_same_eq [OF slot_in_data [OF assms(1) Suc.prems(2) that] assms(4)])
  ultimately show ?case
    using Suc.prems(2) data nth_mem [OF Suc.prems(2)]
    by (auto simp: find_block_loop.simps [of blks adler b bpos h] slot_at_eq [OF Suc.prems(2)])
qed

lemma find_block_spec:
  assumes "table_ok k data m blks" and "m < 2 ^ k" and "bpos + MATCH_BLOCKSIZE \<le> length b"
  shows "\<exists>r. find_block blks adler b bpos = Some r \<and> (r \<noteq> NO_POSITION \<longrightarrow>
    unat r + MATCH_BLOCKSIZE \<le> length data \<and> same_bytes data (unat r) b bpos MATCH_BLOCKSIZE)"
proof -
  let ?h = "hash_func adler AND blocks_max blks" and ?n = "length (slots blks)"
  obtain i where i: "i < ?n" "\<not> used (slots blks ! i)" using free_slot [OF assms(1,2)] by blast
  have h: "unat ?h < ?n" by (rule and_max_less [OF assms(1)])
  have "(unat ?h + (i + (?n - unat ?h))) mod ?n = i" using i(1) h by simp
  then obtain r where "find_block blks adler b bpos = Some r"
    "r \<noteq> NO_POSITION \<longrightarrow> (\<exists>slot\<in>set (slots blks). blk_pos slot = r) \<and> same_bytes data (unat r) b bpos MATCH_BLOCKSIZE"
    using find_block_loop_total [OF assms(1), of ?h "i + (?n - unat ?h)" bpos b adler] i(2) h assms(3)
    by (auto simp: find_block_def)
  moreover have "unat (blk_pos slot) + MATCH_BLOCKSIZE \<le> length data"
    if "slot \<in> set (slots blks)" "blk_pos slot \<noteq> NO_POSITION" for slot
    using assms(1) that by (auto simp: table_ok_def used_def)
  ultimately show ?thesis by blast
qed

lemma add_slot_ok:
  assumes "table_ok k data m blks" and "unat h < length (slots blks)" and "unat pos + MATCH_BLOCKSIZE \<le> length data"
  shows "table_ok k data (Suc m) (blks\<lparr>slots := (slots blks)[unat h := \<lparr>adlersum = adler, blk_pos = pos\<rparr>]\<rparr>)"
proof -
  let ?ss = "(slots blks)[unat h := \<lparr>adlersum = adler, blk_pos = pos\<rparr>]"
  have "used_slots ?ss \<subseteq> insert (unat h) (used_slots (slots blks))" by (auto simp: used_slots_def nth_list_update split: if_splits)
  then have "card (used_slots ?ss) \<le> card (insert (unat h) (used_slots (slots blks)))" by (intro card_mono) simp_all
  also have "\<dots> \<le> Suc (card (used_slots (slots blks)))" by (simp add: card_insert_if)
  finally have "card (used_slots ?ss) \<le> Suc m" using assms(1) by (simp add: table_ok_def)
  then show ?thesis using assms set_update_subset_insert [of "slots blks"] by (fastforce simp: table_ok_def)
qed

lemma add_block_loop_total:
  assumes "table_ok k data m blks" and "\<not> used (slots blks ! ((unat h + d) mod length (slots blks)))"
    and "unat h < length (slots blks)" and "unat pos + MATCH_BLOCKSIZE \<le> length data"
  shows "\<exists>blks'. add_block_loop blks adler pos h = Some blks' \<and> table_ok k data (Suc m) blks'"
  using assms(2,3)
proof (induction d arbitrary: h)
  case 0
  then have "blk_pos (slots blks ! unat h) = NO_POSITION" by (simp add: used_def)
  then show ?case using add_slot_ok [OF assms(1) 0(2) assms(4)]
    by (simp add: add_block_loop.simps [of blks adler pos h] slot_at_eq [OF 0(2)])
next
  case (Suc d)
  let ?h = "(h + 1) AND blocks_max blks"
  have "unat ?h < length (slots blks)" by (rule and_max_less [OF assms(1)])
  moreover have "(unat ?h + d) mod length (slots blks) = (unat h + Suc d) mod length (slots blks)"
    unfolding next_slot [OF assms(1)] by (simp add: mod_simps)
  ultimately have "\<exists>blks'. add_block_loop blks adler pos ?h = Some blks' \<and> table_ok k data (Suc m) blks'"
    using Suc.IH [of ?h] Suc.prems by simp
  moreover have "table_ok k data (Suc m) blks" using assms(1) by (simp add: table_ok_def)
  moreover have "memcmp_same (blocks_data blks) (unat (blk_pos (slots blks ! unat h))) (blocks_data blks) (unat pos)
      MATCH_BLOCKSIZE = Some (same_bytes data (unat (blk_pos (slots blks ! unat h))) data (unat pos) MATCH_BLOCKSIZE)"
    if "blk_pos (slots blks ! unat h) \<noteq> NO_POSITION"
    using memcmp_same_eq [OF slot_in_data [OF assms(1) Suc.prems(2) that] assms(4)] assms(1) by (simp add: table_ok_def)
  ultimately show ?case
    using add_slot_ok [OF assms(1) Suc.prems(2) assms(4)]
    by (auto simp: add_block_loop.simps [of blks adler pos h] slot_at_eq [OF Suc.prems(2)])
qed

lemma add_block_spec:
  assumes "table_ok k data m blks" and "m < 2 ^ k" and "unat pos + MATCH_BLOCKSIZE \<le> length data"
  shows "\<exists>blks'. add_block blks adler pos = Some blks' \<and> table_ok k data (Suc m) blks'"
proof -
  let ?h = "hash_func adler AND blocks_max blks" and ?n = "length (slots blks)"
  obtain i where i: "i < ?n" "\<not> used (slots blks ! i)" using free_slot [OF assms(1,2)] by blast
  have h: "unat ?h < ?n" by (rule and_max_less [OF assms(1)])
  have "(unat ?h + (i + (?n - unat ?h))) mod ?n = i" using i(1) h by simp
  then show ?thesis
    using add_block_loop_total [OF assms(1), of ?h "i + (?n - unat ?h)" pos adler] i(2) h assms(3) by (simp add: add_block_def)
qed

lemma wnslots_loop_spec:
  "nblocks < 2 ^ wnslots_loop k nblocks \<and> (wnslots_loop k nblocks = k \<or> 2 ^ wnslots_loop k nblocks \<le> 2 * nblocks)"
proof (induction k nblocks rule: wnslots_loop.induct)
  case (1 k nblocks)
  show ?case
  proof (cases "2 ^ k \<le> nblocks")
    case True
    then show ?thesis using "1.IH" by (auto simp: wnslots_loop.simps [of k])
  qed (simp add: wnslots_loop.simps [of k])
qed

lemma next_block:
  assumes "unat (i :: 32 word) + MATCH_BLOCKSIZE < 2 ^ 32"
  shows "unat (i + word_of_nat MATCH_BLOCKSIZE) = unat i + MATCH_BLOCKSIZE"
proof -
  have "unat (word_of_nat MATCH_BLOCKSIZE :: 32 word) = MATCH_BLOCKSIZE" by (simp add: MATCH_BLOCKSIZE_def)
  then show ?thesis using assms by (simp only: unat_word_ariths) simp
qed

lemma add_blocks_loop_spec:
  assumes "table_ok k data m blks" and "m * MATCH_BLOCKSIZE = unat i" and "length data div MATCH_BLOCKSIZE < 2 ^ k"
    and "length data + MATCH_BLOCKSIZE < 2 ^ 32" and "unat i \<le> length data"
  shows "\<exists>blks'. add_blocks_loop data blks i = Some blks' \<and> table_ok k data (length data div MATCH_BLOCKSIZE) blks'"
  using assms
proof (induction "length data - unat i" arbitrary: m blks i rule: less_induct)
  case less
  have nxt: "unat (i + word_of_nat MATCH_BLOCKSIZE) = unat i + MATCH_BLOCKSIZE"
    using less.prems(4,5) by (intro next_block) simp
  show ?case
  proof (cases "unat i + MATCH_BLOCKSIZE \<le> length data")
    case False
    then have "length data div MATCH_BLOCKSIZE = m"
      using less.prems(2,5) by (intro div_nat_eqI) (auto simp: MATCH_BLOCKSIZE_def)
    then show ?thesis using False nxt less.prems(1) by (simp add: add_blocks_loop.simps [of data blks i])
  next
    case True
    have "Suc m * MATCH_BLOCKSIZE \<le> length data" using True less.prems(2) by (simp add: add.commute)
    then have "Suc m \<le> length data div MATCH_BLOCKSIZE" by (simp add: less_eq_div_iff_mult_less_eq MATCH_BLOCKSIZE_def)
    then have "m < 2 ^ k" using less.prems(3) by linarith
    then obtain blks' where b: "add_block blks (init_adler32 (drop (unat i) data)) i = Some blks'"
      "table_ok k data (Suc m) blks'"
      using add_block_spec [OF less.prems(1), of i] True by auto
    have "\<exists>blks''. add_blocks_loop data blks' (i + word_of_nat MATCH_BLOCKSIZE) = Some blks''
        \<and> table_ok k data (length data div MATCH_BLOCKSIZE) blks''"
    proof (rule less.hyps [OF _ b(2)])
      show "length data - unat (i + word_of_nat MATCH_BLOCKSIZE) < length data - unat i"
        unfolding nxt using True by (simp add: MATCH_BLOCKSIZE_def)
    qed (use True less.prems nxt in \<open>simp_all add: add.commute\<close>)
    then show ?thesis using True nxt b(1)
      by (simp add: add_blocks_loop.simps [of data blks i] init_adler32_at_def assert_opt_def)
  qed
qed

text \<open>
  For sources of almost \<open>2 ^ 32\<close> bytes the sum wraps around to 0 at the last block and the loop does
  not stop there: it goes on with a block that is not inside the source.
\<close>

lemma add_blocks_loop_wraps:
  assumes "length data < 2 ^ 32" and "2 ^ 32 \<le> length data + MATCH_BLOCKSIZE" and "MATCH_BLOCKSIZE dvd unat i"
  shows "add_blocks_loop data blks i = None"
  using assms(3)
proof (induction "2 ^ 32 - unat i" arbitrary: blks i rule: less_induct)
  case less
  have B: "MATCH_BLOCKSIZE = 64" by (simp add: MATCH_BLOCKSIZE_def)
  have i: "unat i < 2 ^ 32" using unsigned_less [of i] by simp
  then have le: "unat i + MATCH_BLOCKSIZE \<le> 2 ^ 32" using less.prems unfolding B by (elim dvdE) simp
  show ?case
  proof (cases "unat i + MATCH_BLOCKSIZE < 2 ^ 32")
    case True
    have nxt: "unat (i + word_of_nat MATCH_BLOCKSIZE) = unat i + MATCH_BLOCKSIZE" by (rule next_block [OF True])
    have "add_blocks_loop data blks' (i + word_of_nat MATCH_BLOCKSIZE) = None" for blks'
      by (rule less.hyps) (use nxt True less.prems in \<open>simp_all add: B\<close>)
    moreover have "unat i + MATCH_BLOCKSIZE \<le> length data"
      using True less.prems assms(2) unfolding B by (elim dvdE) simp
    ultimately show ?thesis by (subst add_blocks_loop.simps) (simp add: bind_eq_None_conv nxt)
  next
    case False
    then have "\<not> unat i + MATCH_BLOCKSIZE \<le> length data" using assms(1) by simp
    moreover have "unat (i + word_of_nat MATCH_BLOCKSIZE) = 0"
      using False le by (simp add: unat_word_ariths B)
    ultimately show ?thesis
      by (simp add: add_blocks_loop.simps [of data blks i] init_adler32_at_def assert_opt_def)
  qed
qed

lemma init_blocks_table_wraps:
  assumes "length data < 2 ^ 32" and "2 ^ 32 \<le> length data + MATCH_BLOCKSIZE"
  shows "init_blocks_table data = None"
  using add_blocks_loop_wraps [OF assms] by (simp add: init_blocks_table_def Let_def bind_eq_None_conv)

text \<open>The table is never full; the slot count passes the assertion.\<close>

lemma init_blocks_table_spec:
  assumes "length data + MATCH_BLOCKSIZE < 2 ^ 32"
  shows "\<exists>blks k m. init_blocks_table data = Some blks \<and> table_ok k data m blks \<and> m < 2 ^ k"
proof -
  let ?nb = "length data div MATCH_BLOCKSIZE + 1"
  define e where "e = wnslots_loop 0 ?nb"
  have nb: "?nb \<le> 2 ^ 26" using assms by (simp add: MATCH_BLOCKSIZE_def)
  have e: "?nb < 2 ^ e" "2 ^ e \<le> 2 * ?nb"
    using wnslots_loop_spec [of ?nb 0] by (auto simp: e_def)
  then have "(2 :: nat) ^ e \<le> 2 ^ 27" using nb by simp
  then have e27: "e \<le> 27" by (rule power_le_imp_le_exp [rotated]) simp
  let ?blks = "\<lparr>blocks_max = word_of_nat (2 ^ e * 2) - 1, blocks_data = data,
    slots = replicate (2 ^ e * 2) \<lparr>adlersum = 0, blk_pos = NO_POSITION\<rparr>\<rparr>"
  have mx: "(word_of_nat (2 ^ e * 2) - 1 :: 32 word) = mask (Suc e)" by (simp add: mask_eq_exp_minus_1)
  have "used_slots (replicate (2 ^ e * 2) \<lparr>adlersum = 0, blk_pos = NO_POSITION\<rparr>) = {}"
    by (simp add: used_slots_def used_def)
  then have ok: "table_ok (Suc e) data 0 ?blks" using e27 mx by (simp add: table_ok_def used_def)
  have lt: "(2 :: nat) ^ e * 2 < 2 ^ 32"
    using power_increasing [OF e27, of "2 :: nat"] by simp
  obtain blks where "add_blocks_loop data ?blks 0 = Some blks"
    "table_ok (Suc e) data (length data div MATCH_BLOCKSIZE) blks"
    using add_blocks_loop_spec [OF ok, of 0] e(1) assms by auto
  moreover from this(1) have "init_blocks_table data = Some blks"
    using lt unfolding init_blocks_table_def Let_def e_def [symmetric] by (simp add: assert_opt_def)
  moreover have "length data div MATCH_BLOCKSIZE < 2 ^ Suc e" using e(1) by simp
  ultimately show ?thesis by blast
qed

section \<open>The delta produces the target\<close>

lemma find_match_spec:
  assumes "table_ok k a m blks" and "m < 2 ^ k" and "bpos + MATCH_BLOCKSIZE \<le> length b" and "pending \<le> bpos"
  shows "\<exists>matchlen bpos' apos. find_match unaligned blks rolling a b bpos apos0 pending = Some (matchlen, bpos', apos)
    \<and> (if matchlen = 0 then bpos' = bpos
       else pending \<le> bpos' \<and> bpos' \<le> bpos \<and> same_bytes a apos b bpos' matchlen \<and> apos + matchlen \<le> length a
         \<and> bpos' + matchlen \<le> length b)"
proof -
  obtain r where r: "find_block blks rolling b bpos = Some r"
    "r \<noteq> NO_POSITION \<longrightarrow> unat r + MATCH_BLOCKSIZE \<le> length a \<and> same_bytes a (unat r) b bpos MATCH_BLOCKSIZE"
    using find_block_spec [OF assms(1-3)] by blast
  show ?thesis
  proof (cases "r = NO_POSITION")
    case True
    then show ?thesis using r(1) by (simp add: find_match_def)
  next
    case False
    let ?B = MATCH_BLOCKSIZE
    let ?max = "if length a - unat r - ?B < length b - bpos - ?B then length a - unat r - ?B else length b - bpos - ?B"
    let ?d = "match_length unaligned a (unat r + ?B) b (bpos + ?B) ?max"
    have ra: "unat r + ?B \<le> length a" "same_bytes a (unat r) b bpos ?B" using r(2) False by auto
    have "match_result a (unat r + ?B) b (bpos + ?B) ?max ?d"
      by (rule match_length_spec) (use ra assms(3) in auto)
    then have d: "?d \<le> ?max" "same_bytes a (unat r + ?B) b (bpos + ?B) ?d" by (simp_all add: match_result_def)
    have sb: "same_bytes a (unat r) b bpos (?B + ?d)" by (rule same_bytes_add [OF ra(2) d(2)])
    have le: "unat r + ?B + ?d \<le> length a" "bpos + ?B + ?d \<le> length b"
      using d(1) ra(1) assms(3) by (auto split: if_splits)
    obtain apos bpos' dlta where e: "extend_back a b pending (unat r) bpos ?d = Some (apos, bpos', dlta)"
      "pending \<le> bpos'" "same_bytes a apos b bpos' (?B + dlta)"
      using extend_back_spec [OF assms(4) sb] le by auto
    note sum = extend_back_sum [OF e(1)]
    have "match_length_at unaligned a (unat r + ?B) b (bpos + ?B) ?max = Some ?d"
      using ra(1) assms(3) by (auto simp: match_length_at_def assert_opt_def)
    then have "find_match unaligned blks rolling a b bpos apos0 pending = Some (?B + dlta, bpos', apos)"
      using False e(1) unfolding find_match_def r(1) Let_def by simp
    moreover have "pending \<le> bpos' \<and> same_bytes a apos b bpos' (?B + dlta)" using e(2,3) by simp
    moreover have "?B \<noteq> 0" by (simp add: MATCH_BLOCKSIZE_def)
    ultimately show ?thesis using sum le by (intro exI) (rule conjI, assumption, auto)
  qed
qed

text \<open>The delta so far covers the first \<open>n\<close> bytes of the target \<open>b\<close>.\<close>

definition covers :: "bytes \<Rightarrow> bytes \<Rightarrow> nat \<Rightarrow> ops_baton \<Rightarrow> bool" where
  "covers a b n baton \<longleftrightarrow> n \<le> length b \<and> baton_ok (length a) n baton \<and> baton_target baton a = take n b"

lemma covers_source:
  assumes "covers a b n baton" and "same_bytes a apos b n len" and "0 < len" and "apos + len \<le> length a"
    and "n + len \<le> length b"
  shows "covers a b (n + len) (svn_txdelta_insert_op baton Delta_source apos len data)"
  using insert_op_spec(1) [where sl = "length a" and tpos = n and b = baton and len = len and opcode = Delta_source
      and offset = apos and data = data]
    insert_op_spec(2) [where sl = "length a" and tpos = n and b = baton and len = len and opcode = Delta_source
      and offset = apos and data = data and src = a] assms
  by (simp add: covers_def op_bytes_def same_bytes_def take_add)

lemma covers_new:
  assumes "covers a b n baton" and "0 < len" and "n + len \<le> length b"
  shows "covers a b (n + len) (svn_txdelta_insert_op baton Delta_new off len (drop n b))"
  using insert_op_spec(1) [where sl = "length a" and tpos = n and b = baton and len = len and opcode = Delta_new
      and offset = off and data = "drop n b"]
    insert_op_spec(2) [where sl = "length a" and tpos = n and b = baton and len = len and opcode = Delta_new
      and offset = off and data = "drop n b" and src = a] assms
  by (simp add: covers_def op_bytes_def take_add)

lemma insert_new_at_spec:
  assumes "covers a b n baton" and "0 < len" and "n + len \<le> length b"
  shows "\<exists>baton'. insert_new_at baton off len b n = Some baton' \<and> covers a b (n + len) baton'"
  using covers_new [OF assms] assms(3) by (simp add: insert_new_at_def assert_opt_def)

lemma reverse_match_length_at_eq:
  "max_len \<le> ai \<Longrightarrow> ai \<le> length a \<Longrightarrow> max_len \<le> bi \<Longrightarrow> bi \<le> length b \<Longrightarrow>
   reverse_match_length_at unaligned a ai b bi max_len = Some (reverse_match_length unaligned a ai b bi max_len)"
  by (simp add: reverse_match_length_at_def assert_opt_def)

lemma covers_remove:
  assumes "covers a b n baton" and "svn_txdelta_remove_copy baton max_len = (baton', len)"
  shows "len \<le> max_len \<and> len \<le> n \<and> covers a b (n - len) baton'"
  using remove_copy_spec [of a n baton max_len baton' len] assms by (auto simp: covers_def)

lemma store_match_spec:
  assumes "covers a b pending baton" and "pending \<le> lo" and "0 < matchlen" and "same_bytes a apos b lo matchlen"
    and "apos + matchlen \<le> length a" and "lo + matchlen \<le> length b"
  shows "\<exists>baton'. store_match unaligned a b baton lo apos matchlen pending = Some (baton', lo + matchlen)
    \<and> covers a b (lo + matchlen) baton'"
proof (cases "pending < lo")
  case True
  obtain baton1 where "insert_new_at baton 0 (lo - pending) b pending = Some baton1" "covers a b lo baton1"
    using insert_new_at_spec [OF assms(1), of "lo - pending" 0] True assms(6) by auto
  then show ?thesis using covers_source assms(3-6) True by (auto simp: store_match_def)
next
  case False
  then have lo: "lo = pending" using assms(2) by simp
  let ?len = "reverse_match_length unaligned a apos b lo (if apos < lo then apos else lo)"
  have at: "reverse_match_length_at unaligned a apos b lo (if apos < lo then apos else lo) = Some ?len"
    by (rule reverse_match_length_at_eq) (use assms(5,6) in auto)
  have "rmatch_result a apos b lo (if apos < lo then apos else lo) ?len"
    by (rule reverse_match_length_spec) (use assms(5,6) in auto)
  then have len: "?len \<le> apos" "?len \<le> lo" "same_bytes a (apos - ?len) b (lo - ?len) ?len"
    by (auto simp: rmatch_result_def split: if_splits)
  show ?thesis
  proof (cases "?len > 0")
    case True
    obtain baton1 n where r: "svn_txdelta_remove_copy baton ?len = (baton1, n)"
      by (cases "svn_txdelta_remove_copy baton ?len")
    note cov = covers_remove [OF assms(1) r]
    then have n: "n \<le> ?len" "n \<le> lo" "n \<le> apos" "covers a b (lo - n) baton1" using lo len(1) by auto
    have "same_bytes a (apos - ?len + (?len - n)) b (lo - ?len + (?len - n)) (?len - (?len - n))"
      by (rule same_bytes_suffix [OF len(3)])
    then have "same_bytes a (apos - n) b (lo - n) n" using n(1) len(1,2) by simp
    then have "same_bytes a (apos - n) b (lo - n) (n + matchlen)"
      using same_bytes_add [of a "apos - n" b "lo - n" n matchlen] assms(4) n(2,3) by simp
    then have "covers a b (lo - n + (n + matchlen)) (svn_txdelta_insert_op baton1 Delta_source (apos - n) (n + matchlen) [])"
      by (intro covers_source [OF n(4)]) (use assms(3,5,6) n in auto)
    then show ?thesis using True False r n(2) unfolding store_match_def at by (simp add: add.commute)
  next
    case len0: False
    then have l0: "?len = 0" by simp
    have "store_match unaligned a b baton lo apos matchlen pending
        = Some (svn_txdelta_insert_op baton Delta_source apos matchlen [], lo + matchlen)"
      unfolding store_match_def at l0 using False by simp
    then show ?thesis using covers_source [OF assms(1)] assms(3-6) lo by simp
  qed
qed

lemma store_delta_trailer_spec:
  assumes "covers a b n baton" and "a \<noteq> []"
  shows "\<exists>baton'. store_delta_trailer unaligned baton a b n = Some baton' \<and> covers a b (length b) baton'"
proof -
  have n: "n \<le> length b" using assms(1) by (simp add: covers_def)
  let ?max = "if length a > length b - n then length b - n else length a"
  show ?thesis
  proof (cases "?max = 0")
    case True
    then have "n = length b" using n assms(2) by (auto split: if_splits)
    then show ?thesis using True assms by (simp add: store_delta_trailer_def)
  next
    case False
    let ?r = "reverse_match_length unaligned a (length a) b (length b) ?max"
    define m where "m = (if ?r \<le> 4 then 0 else ?r)"
    have "rmatch_result a (length a) b (length b) ?max ?r" by (rule reverse_match_length_spec) auto
    then have r: "?r \<le> ?max" "same_bytes a (length a - ?r) b (length b - ?r) ?r" by (simp_all add: rmatch_result_def)
    have m: "m \<le> length a" "m \<le> length b - n" "same_bytes a (length a - m) b (length b - m) m"
      using r by (auto simp: m_def split: if_splits)
    have at: "reverse_match_length_at unaligned a (length a) b (length b) ?max = Some ?r"
      by (rule reverse_match_length_at_eq) auto
    obtain b1 where b1: "(if length b - n > m then insert_new_at baton n (length b - n - m) b n else Some baton) = Some b1"
      "covers a b (length b - m) b1"
    proof (cases "length b - n > m")
      case True
      then have "0 < length b - n - m" "n + (length b - n - m) = length b - m" using n by linarith+
      then show ?thesis using that True insert_new_at_spec [OF assms(1), of "length b - n - m" n] by auto
    next
      case False
      then have "length b - m = n" using m(2) n by linarith
      then show ?thesis using that False assms(1) by simp
    qed
    have eq: "store_delta_trailer unaligned baton a b n
      = Some (if m \<noteq> 0 then svn_txdelta_insert_op b1 Delta_source (length a - m) m [] else b1)"
      using False unfolding store_delta_trailer_def Let_def at
      by (simp only: if_False Option.bind.simps m_def [symmetric] b1(1))
    show ?thesis
    proof (cases "m = 0")
      case True
      then show ?thesis using b1(2) eq by simp
    next
      case nz: False
      have mb: "length b - m + m = length b" using m(2) by simp
      then have "covers a b (length b - m + m) (svn_txdelta_insert_op b1 Delta_source (length a - m) m [])"
        by (intro covers_source [OF b1(2) m(3)]) (use nz m(1) in simp_all)
      then show ?thesis unfolding eq mb using nz by simp
    qed
  qed
qed

lemma compute_delta_loop_spec:
  assumes "table_ok k a m blks" and "m < 2 ^ k" and "covers a b pending baton" and "pending \<le> lo" and "lo \<le> length b"
  shows "\<exists>baton' n. compute_delta_loop unaligned blks a b baton rolling lo pending = Some (baton', n)
    \<and> covers a b n baton'"
  using assms
proof (induction unaligned blks a b baton rolling lo pending rule: compute_delta_loop.induct)
  case (1 unaligned blks a b baton rolling lo pending)
  show ?case
  proof (cases "lo < length b")
    case False
    then show ?thesis using "1.prems"(3) by (simp add: compute_delta_loop.simps [of unaligned blks a b baton rolling lo pending])
  next
    case True
    let ?fm = "if lo + MATCH_BLOCKSIZE \<le> length b then find_match unaligned blks rolling a b lo 0 pending else Some (0, lo, 0)"
    obtain ml lo' apos where fm: "?fm = Some (ml, lo', apos)"
      "if ml = 0 then lo' = lo
       else pending \<le> lo' \<and> lo' \<le> lo \<and> same_bytes a apos b lo' ml \<and> apos + ml \<le> length a \<and> lo' + ml \<le> length b"
    proof (cases "lo + MATCH_BLOCKSIZE \<le> length b")
      case True
      then show ?thesis using that find_match_spec [OF "1.prems"(1,2) True "1.prems"(4), of unaligned rolling 0] by auto
    qed (use that in simp)
    show ?thesis
    proof (cases "ml = 0")
      case ml: True
      then have fm0: "?fm = Some (0, lo, apos)" using fm by simp
      have rd: "(if lo + MATCH_BLOCKSIZE < length b
            then Option.bind (read_at b lo) (\<lambda>c_out. Option.bind (read_at b (lo + MATCH_BLOCKSIZE)) (\<lambda>c_in.
                   Some (adler32_replace rolling c_out c_in)))
            else Some rolling)
          = Some (if lo + MATCH_BLOCKSIZE < length b
              then adler32_replace rolling (b ! lo) (b ! (lo + MATCH_BLOCKSIZE)) else rolling)"
        using True by (simp add: read_at_def)
      show ?thesis
        using "1.IH"(1) [OF True fm0 refl refl refl rd "1.prems"(1,2,3)] "1.prems"(4) True fm0 rd
        by (simp add: compute_delta_loop.simps [of unaligned blks a b baton rolling lo pending])
    next
      case ml: False
      obtain baton' where sm: "store_match unaligned a b baton lo' apos ml pending = Some (baton', lo' + ml)"
        "covers a b (lo' + ml) baton'"
        using store_match_spec [OF "1.prems"(3), of lo' ml apos unaligned] fm(2) ml by auto
      obtain rolling' where rd: "(if lo' + ml + MATCH_BLOCKSIZE \<le> length b then init_adler32_at b (lo' + ml) else Some rolling)
          = Some rolling'"
        by (cases "lo' + ml + MATCH_BLOCKSIZE \<le> length b") (simp_all add: init_adler32_at_def assert_opt_def)
      have "\<exists>baton'' n. compute_delta_loop unaligned blks a b baton' rolling' (lo' + ml) (lo' + ml) = Some (baton'', n)
          \<and> covers a b n baton''"
        by (rule "1.IH"(2) [OF True fm(1) refl refl ml sm(1) refl rd "1.prems"(1,2) sm(2)])
          (use sm(2) in \<open>simp_all add: covers_def\<close>)
      then show ?thesis using True fm(1) ml sm(1) rd
        by (simp add: compute_delta_loop.simps [of unaligned blks a b baton rolling lo pending])
    qed
  qed
qed

lemma covers_empty: "covers a b 0 empty_baton"
  by (simp add: covers_def)

lemma compute_delta_spec:
  assumes "a \<noteq> []" and "b \<noteq> []" and "length a + MATCH_BLOCKSIZE < 2 ^ 32"
  shows "\<exists>baton. compute_delta unaligned empty_baton a b = Some baton \<and> covers a b (length b) baton"
proof -
  let ?max = "if length a > length b then length b else length a"
  let ?lo = "match_length unaligned a 0 b 0 ?max"
  have "match_result a 0 b 0 ?max ?lo" by (rule match_length_spec) auto
  then have lo: "?lo \<le> ?max" "same_bytes a 0 b 0 ?lo" by (simp_all add: match_result_def)
  obtain baton n where bn: "(if ?lo > 4 \<or> ?lo = length b
      then (svn_txdelta_insert_op empty_baton Delta_source 0 ?lo [], ?lo) else (empty_baton, 0)) = (baton, n)"
    "covers a b n baton"
  proof (cases "?lo > 4 \<or> ?lo = length b")
    case True
    have "covers a b (0 + ?lo) (svn_txdelta_insert_op empty_baton Delta_source 0 ?lo [])"
      by (rule covers_source [OF covers_empty lo(2)]) (use True lo(1) assms(2) in \<open>auto split: if_splits\<close>)
    then show ?thesis using that True by simp
  qed (use that covers_empty in simp)
  have n: "n \<le> length b" using bn(2) by (simp add: covers_def)
  have at: "match_length_at unaligned a 0 b 0 ?max = Some ?lo" by (simp add: match_length_at_def assert_opt_def)
  show ?thesis
  proof (cases "length b - n < MATCH_BLOCKSIZE \<or> length a < MATCH_BLOCKSIZE")
    case True
    then show ?thesis using store_delta_trailer_spec [OF bn(2) assms(1)] bn(1) unfolding compute_delta_def Let_def at by simp
  next
    case False
    obtain blks k m where t: "init_blocks_table a = Some blks" "table_ok k a m blks" "m < 2 ^ k"
      using init_blocks_table_spec [OF assms(3)] by blast
    obtain baton' n' where l: "compute_delta_loop unaligned blks a b baton (init_adler32 (drop n b)) n n = Some (baton', n')"
      "covers a b n' baton'"
      using compute_delta_loop_spec [OF t(2,3) bn(2)] n by blast
    moreover have "init_adler32_at b n = Some (init_adler32 (drop n b))"
      using False n by (simp add: init_adler32_at_def assert_opt_def le_diff_conv2 not_less)
    ultimately show ?thesis using store_delta_trailer_spec [OF l(2) assms(1)] bn(1) False t(1)
      unfolding compute_delta_def Let_def at by simp
  qed
qed

text \<open>The window that \<open>compute_window\<close> makes.\<close>

definition delta_window :: "bytes \<Rightarrow> bytes \<Rightarrow> int \<Rightarrow> txdelta_window \<Rightarrow> bool" where
  "delta_window src tgt off w \<longleftrightarrow>
     window_ok w \<and> window_target w src = tgt \<and> sview_offset w = off \<and> sview_len w = length src
     \<and> tview_len w = length tgt \<and> news_seq 0 (win_ops w) (length (new_data w))
     \<and> (\<forall>dlt\<in>set (win_ops w). 0 < op_length dlt) \<and> count_src (win_ops w) \<le> src_ops w"

lemma compute_window_spec:
  assumes "tgt \<noteq> []" and "length src + MATCH_BLOCKSIZE < 2 ^ 32"
  shows "\<exists>w. compute_window unaligned (src @ tgt) (length src) (length tgt) off = Some w \<and> delta_window src tgt off w"
proof -
  have win: "delta_window src tgt off ((svn_txdelta_make_window baton)
      \<lparr>sview_offset := off, sview_len := length src, tview_len := length tgt\<rparr>)"
    if "covers src tgt (length tgt) baton" for baton
    using that by (simp add: delta_window_def covers_def baton_ok_def baton_target_def svn_txdelta_make_window_def
        window_ok_def window_target_def)
  show ?thesis
  proof (cases "src = []")
    case True
    then show ?thesis using win insert_new_at_spec [OF covers_empty, of "length tgt" tgt 0 src] assms(1)
      by (auto simp: compute_window_def)
  next
    case False
    obtain baton where "compute_delta unaligned empty_baton src tgt = Some baton" "covers src tgt (length tgt) baton"
      using compute_delta_spec [OF False assms] by blast
    then show ?thesis using win False by (simp add: compute_window_def svn_txdelta_xdelta_def assert_opt_def)
  qed
qed

section \<open>The rolling checksum\<close>

fun weighted :: "bytes \<Rightarrow> 32 word" where
  "weighted [] = 0"
| "weighted (c # inp) = word_of_nat (Suc (length inp)) * ucast c + weighted inp"

definition plain :: "bytes \<Rightarrow> 32 word" where
  "plain inp = sum_list (map ucast inp)"

lemma plain_simps [simp]: "plain [] = 0" "plain (c # inp) = ucast c + plain inp" "plain (xs @ ys) = plain xs + plain ys"
  by (simp_all add: plain_def)

lemma adler_loop_eq:
  "adler_loop inp s1 s2 = (s1 + plain inp, s2 + word_of_nat (length inp) * s1 + weighted inp)"
  by (induction inp s1 s2 rule: adler_loop.induct) (simp_all add: Let_def algebra_simps)

lemma weighted_snoc: "weighted (ys @ [d]) = weighted ys + plain ys + ucast d"
  by (induction ys) (simp_all add: algebra_simps)

lemma roll_arith:
  fixes w p d c :: "32 word"
  shows "(let x = (64 * c + w) * 0x10000 + (c + p) - 64 * 0x10000 * c; x = x - c; x = x + d in x + x * 0x10000)
    = (w + p + d) * 0x10000 + (p + d)"
proof -
  have "w * 0x10000 * 0x10000 = w * (0x10000 * 0x10000)" by (simp only: mult.assoc)
  also have "(0x10000 * 0x10000 :: 32 word) = 0" by simp
  finally have z: "w * 0x10000 * 0x10000 = 0" by simp
  have "(let x = (64 * c + w) * 0x10000 + (c + p) - 64 * 0x10000 * c; x = x - c; x = x + d in x + x * 0x10000)
    = (w + p + d) * 0x10000 + (p + d) + w * 0x10000 * 0x10000"
    by (simp add: Let_def algebra_simps)
  then show ?thesis unfolding z by simp
qed

lemma rolling_spec:
  assumes "i + MATCH_BLOCKSIZE < length data"
  shows "adler32_replace (init_adler32 (drop i data)) (data ! i) (data ! (i + MATCH_BLOCKSIZE))
    = init_adler32 (drop (Suc i) data)"
proof -
  let ?ys = "take 63 (drop (Suc i) data)"
  have i: "i < length data" using assms by simp
  have now: "take MATCH_BLOCKSIZE (drop i data) = data ! i # ?ys"
    using drop_Cons_nth [OF i] by (simp add: MATCH_BLOCKSIZE_def take_Cons')
  have "Suc i + 63 < length data" using assms by (simp add: MATCH_BLOCKSIZE_def)
  then have "take (Suc 63) (drop (Suc i) data) = ?ys @ [drop (Suc i) data ! 63]"
    by (intro take_Suc_conv_app_nth) simp
  then have nxt: "take MATCH_BLOCKSIZE (drop (Suc i) data) = ?ys @ [data ! (i + MATCH_BLOCKSIZE)]"
    using assms by (simp add: MATCH_BLOCKSIZE_def nth_drop add.commute)
  have len: "length ?ys = 63" using assms by (simp add: MATCH_BLOCKSIZE_def)
  have "(word_of_nat (Suc (length ?ys)) :: 32 word) = 64" "(word_of_nat MATCH_BLOCKSIZE :: 32 word) = 64"
    unfolding len by (simp_all add: MATCH_BLOCKSIZE_def)
  then show ?thesis
    unfolding init_adler32_def now nxt adler_loop_eq prod.case adler32_replace_def weighted_snoc
    using roll_arith [of "ucast (data ! i)" "weighted ?ys" "plain ?ys" "ucast (data ! (i + MATCH_BLOCKSIZE))"]
    by (simp add: Let_def)
qed

section \<open>Properties\<close>



text \<open>C35. Rolling the checksum one byte forward, in arithmetic modulo \<open>2 ^ 32\<close>, gives the checksum
  computed from scratch for the next block.\<close>

theorem rolling_checksum:
  assumes "i + MATCH_BLOCKSIZE < length data"
  shows "adler32_replace (init_adler32 (drop i data)) (data ! i) (data ! (i + MATCH_BLOCKSIZE))
    = init_adler32 (drop (Suc i) data)"
  by (rule rolling_spec [OF assms])

theorem rolling_checksum_witness:
  "adler32_replace (init_adler32 (drop 1 (replicate 40 7 @ replicate 40 200))) 7 200
    = init_adler32 (drop (Suc 1) (replicate 40 7 @ replicate 40 200))"
  using rolling_checksum [of 1 "replicate 40 7 @ replicate 40 200"] by (simp add: MATCH_BLOCKSIZE_def nth_append)

text \<open>C36. Comparing in machine words finds the same common prefix, and the same common suffix, as
  comparing byte by byte, and both are the longest ones within the limit.\<close>

theorem match_length_correct:
  assumes "ai + n \<le> length a" and "bi + n \<le> length b" and "m \<le> ai" and "m \<le> bi"
  shows "match_length True a ai b bi n = match_length False a ai b bi n
    \<and> match_result a ai b bi n (match_length True a ai b bi n)
    \<and> rmatch_result a ai b bi m (reverse_match_length True a ai b bi m)
    \<and> rmatch_result a ai b bi m (reverse_match_length False a ai b bi m)"
  using match_length_spec [OF assms(1,2)] match_result_unique [OF match_length_spec match_length_spec assms(1,2)]
    reverse_match_length_spec [OF assms(3,4)] assms(1,2) by auto

theorem match_length_correct_witness:
  "match_length True (replicate 20 3) 0 (replicate 17 3 @ [4, 3, 3]) 0 20
    = match_length False (replicate 20 3) 0 (replicate 17 3 @ [4, 3, 3]) 0 20"
  using match_length_correct [of 0 20 "replicate 20 3" 0 "replicate 17 3 @ [4, 3, 3]" 0] by simp

end
