(* ===== verification/Delta_Stream.thy ===== *)
theory Delta_Stream
  imports Xdelta
begin

text \<open>
  Delta streams of \<open>text_delta.c\<close>: computing a delta window by window (\<open>txdelta_next_window\<close>,
  \<open>svn_txdelta_run\<close>) and the target-push stream, which computes the same delta while the target is
  being written. The consumer of the windows is a parameter.
\<close>

section \<open>Computing a delta stream\<close>

text \<open>
  A stream that is read is the list of its remaining bytes; a read returns as many bytes as asked
  for, fewer only at the end. \<open>td_digested\<close> is what has been given to the checksum.
\<close>

record txdelta_baton =
  td_source :: bytes
  td_target :: bytes
  td_more_source :: bool
  td_more :: bool
  td_pos :: int
  td_digested :: bytes

text \<open>The outer \<open>None\<close>: \<open>compute_window\<close> has not returned; the inner one is the final window.\<close>

definition txdelta_next_window :: "bool \<Rightarrow> txdelta_baton \<Rightarrow> (txdelta_window option \<times> txdelta_baton) option" where
  "txdelta_next_window unaligned b =
     (let src = (if td_more_source b then take SVN_DELTA_WINDOW_SIZE (td_source b) else []);
          b = (if td_more_source b
               then b\<lparr>td_source := drop SVN_DELTA_WINDOW_SIZE (td_source b),
                      td_more_source := length src = SVN_DELTA_WINDOW_SIZE\<rparr> else b);
          tgt = take SVN_DELTA_WINDOW_SIZE (td_target b);
          b = b\<lparr>td_target := drop SVN_DELTA_WINDOW_SIZE (td_target b), td_pos := td_pos b + int (length src)\<rparr>
      in if length tgt = 0 then Some (None, b\<lparr>td_more := False\<rparr>)
         else Option.bind (compute_window unaligned (src @ tgt) (length src) (length tgt) (td_pos b - int (length src)))
           (\<lambda>window. Some (Some window, b\<lparr>td_digested := td_digested b @ tgt\<rparr>)))"

definition txdelta_init :: "bytes \<Rightarrow> bytes \<Rightarrow> txdelta_baton" where
  "txdelta_init source target =
     \<lparr>td_source = source, td_target = target, td_more_source = True, td_more = True, td_pos = 0, td_digested = []\<rparr>"

lemma txdelta_next_window_shorter:
  "txdelta_next_window unaligned b = Some (Some w, b') \<Longrightarrow> length (td_target b') < length (td_target b)"
  by (auto simp: txdelta_next_window_def Let_def SVN_DELTA_WINDOW_SIZE_def split: if_splits)

text \<open>
  The loop of \<open>svn_txdelta_run\<close> and \<open>svn_txdelta_send_txstream\<close>. \<open>cancel n\<close> is the answer of the
  cancellation function after the \<open>n\<close>-th window. The result is the state of the consumer and
  what has been checksummed.
\<close>

function txdelta_run_loop ::
    "bool \<Rightarrow> (txdelta_window option \<Rightarrow> 's \<Rightarrow> 's svn_result) \<Rightarrow> (nat \<Rightarrow> unit svn_result) \<Rightarrow> nat
      \<Rightarrow> txdelta_baton \<Rightarrow> 's \<Rightarrow> ('s \<times> bytes) svn_result option" where
  "txdelta_run_loop unaligned handler cancel n b s =
     (case txdelta_next_window unaligned b of
        None \<Rightarrow> None
      | Some (window, b) \<Rightarrow>
          svn_try_partial (Some (handler window s)) (\<lambda>s.
          svn_try_partial (Some (cancel n)) (\<lambda>_.
            case window of
              None \<Rightarrow> Some (Inr (s, td_digested b))
            | Some w \<Rightarrow> txdelta_run_loop unaligned handler cancel (Suc n) b s)))"
  by pat_completeness auto
termination
  by (relation "measure (\<lambda>(_, _, _, _, b, _). length (td_target b))") (auto dest: txdelta_next_window_shorter)

declare txdelta_run_loop.simps [simp del]

definition svn_txdelta_run ::
    "bool \<Rightarrow> bytes \<Rightarrow> bytes \<Rightarrow> (txdelta_window option \<Rightarrow> 's \<Rightarrow> 's svn_result) \<Rightarrow> (nat \<Rightarrow> unit svn_result) \<Rightarrow> 's
      \<Rightarrow> ('s \<times> bytes) svn_result option" where
  "svn_txdelta_run unaligned source target handler cancel s =
     txdelta_run_loop unaligned handler cancel 0 (txdelta_init source target) s"

definition svn_txdelta_send_txstream ::
    "bool \<Rightarrow> txdelta_baton \<Rightarrow> (txdelta_window option \<Rightarrow> 's \<Rightarrow> 's svn_result) \<Rightarrow> 's \<Rightarrow> 's svn_result option" where
  "svn_txdelta_send_txstream unaligned txstream handler s =
     svn_try_partial (txdelta_run_loop unaligned handler (\<lambda>_. Inr ()) 0 txstream s) (\<lambda>(s, _). Some (Inr s))"

section \<open>Pushing the target\<close>

text \<open>\<open>tp_buf\<close>: the source data in the buffer followed by the target data in it.\<close>

record 's tpush_baton =
  tp_source :: bytes
  tp_consumer :: 's
  tp_buf :: bytes
  tp_source_offset :: int
  tp_source_len :: nat
  tp_source_done :: bool
  tp_target_len :: nat

definition tpush_fill :: "'s tpush_baton \<Rightarrow> 's tpush_baton" where
  "tpush_fill tb =
     (if tp_source_len tb = 0 \<and> \<not> tp_source_done tb
      then let src = take SVN_DELTA_WINDOW_SIZE (tp_source tb) in
        tb\<lparr>tp_source := drop SVN_DELTA_WINDOW_SIZE (tp_source tb), tp_buf := src, tp_source_len := length src,
           tp_source_done := (if length src < SVN_DELTA_WINDOW_SIZE then True else tp_source_done tb)\<rparr>
      else tb)"

definition tpush_send ::
    "bool \<Rightarrow> (txdelta_window option \<Rightarrow> 's \<Rightarrow> 's svn_result) \<Rightarrow> 's tpush_baton \<Rightarrow> 's svn_result option" where
  "tpush_send unaligned wh tb =
     (case compute_window unaligned (tp_buf tb) (tp_source_len tb) (tp_target_len tb) (tp_source_offset tb) of
        None \<Rightarrow> None
      | Some window \<Rightarrow> Some (wh (Some window) (tp_consumer tb)))"

text \<open>
  One turn of the loop with the target data not yet taken. A chunk is empty only when the buffer is
  full of target data, which the loop never leaves it.
\<close>

definition tpush_step ::
    "bool \<Rightarrow> (txdelta_window option \<Rightarrow> 's \<Rightarrow> 's svn_result) \<Rightarrow> bytes \<Rightarrow> 's tpush_baton
      \<Rightarrow> (bytes \<times> 's tpush_baton) svn_result option" where
  "tpush_step unaligned wh data tb =
     (let tb = tpush_fill tb;
          chunk_len = SVN_DELTA_WINDOW_SIZE - tp_target_len tb;
          chunk_len = (if chunk_len > length data then length data else chunk_len);
          tb = tb\<lparr>tp_buf := take (tp_source_len tb + tp_target_len tb) (tp_buf tb) @ take chunk_len data,
                  tp_target_len := tp_target_len tb + chunk_len\<rparr>;
          data = drop chunk_len data
      in if tp_target_len tb = SVN_DELTA_WINDOW_SIZE
         then svn_try_partial (tpush_send unaligned wh tb) (\<lambda>s.
                Some (Inr (data, tb\<lparr>tp_consumer := s, tp_source_offset := tp_source_offset tb + int (tp_source_len tb),
                  tp_source_len := 0, tp_target_len := 0\<rparr>)))
         else Some (Inr (data, tb)))"

text \<open>The loop, with the number of turns bounded by the bytes to take.\<close>

fun tpush_loop ::
    "nat \<Rightarrow> bool \<Rightarrow> (txdelta_window option \<Rightarrow> 's \<Rightarrow> 's svn_result) \<Rightarrow> bytes \<Rightarrow> 's tpush_baton
      \<Rightarrow> 's tpush_baton svn_result option" where
  "tpush_loop fuel unaligned wh [] tb = Some (Inr tb)"
| "tpush_loop 0 unaligned wh (c # data) tb = None"
| "tpush_loop (Suc fuel) unaligned wh (c # data) tb =
     svn_try_partial (tpush_step unaligned wh (c # data) tb) (\<lambda>(data, tb). tpush_loop fuel unaligned wh data tb)"

definition tpush_write_handler ::
    "bool \<Rightarrow> (txdelta_window option \<Rightarrow> 's \<Rightarrow> 's svn_result) \<Rightarrow> bytes \<Rightarrow> 's tpush_baton \<Rightarrow> 's tpush_baton svn_result option" where
  "tpush_write_handler unaligned wh data tb = tpush_loop (length data) unaligned wh data tb"

definition tpush_close_handler ::
    "bool \<Rightarrow> (txdelta_window option \<Rightarrow> 's \<Rightarrow> 's svn_result) \<Rightarrow> 's tpush_baton \<Rightarrow> 's svn_result option" where
  "tpush_close_handler unaligned wh tb =
     svn_try_partial (if tp_target_len tb > 0 then tpush_send unaligned wh tb else Some (Inr (tp_consumer tb)))
       (\<lambda>s. Some (wh None s))"

definition svn_txdelta_target_push :: "'s \<Rightarrow> bytes \<Rightarrow> 's tpush_baton" where
  "svn_txdelta_target_push handler_baton source =
     \<lparr>tp_source = source, tp_consumer = handler_baton, tp_buf = [], tp_source_offset = 0, tp_source_len = 0,
      tp_source_done = False, tp_target_len = 0\<rparr>"

section \<open>The windows of a delta\<close>

text \<open>
  The delta of a source and a target, window by window: the \<open>i\<close>-th window takes the \<open>i\<close>-th
  piece of the target from the \<open>i\<close>-th piece of the source.
\<close>

function delta_windows :: "bool \<Rightarrow> bytes \<Rightarrow> bytes \<Rightarrow> int \<Rightarrow> txdelta_window list option" where
  "delta_windows unaligned S T pos =
     (if T = [] then Some []
      else let src = take SVN_DELTA_WINDOW_SIZE S; tgt = take SVN_DELTA_WINDOW_SIZE T in
        Option.bind (compute_window unaligned (src @ tgt) (length src) (length tgt) pos) (\<lambda>w.
        Option.bind (delta_windows unaligned (drop SVN_DELTA_WINDOW_SIZE S) (drop SVN_DELTA_WINDOW_SIZE T)
          (pos + int (length src))) (\<lambda>ws. Some (w # ws))))"
  by pat_completeness auto
termination
  by (relation "measure (\<lambda>(u, S, T, pos). length T)") (auto simp: SVN_DELTA_WINDOW_SIZE_def)

declare delta_windows.simps [simp del]

fun windows_for :: "bytes \<Rightarrow> bytes \<Rightarrow> int \<Rightarrow> txdelta_window list \<Rightarrow> bool" where
  "windows_for S T pos [] \<longleftrightarrow> T = []"
| "windows_for S T pos (w # ws) \<longleftrightarrow> T \<noteq> []
     \<and> delta_window (take SVN_DELTA_WINDOW_SIZE S) (take SVN_DELTA_WINDOW_SIZE T) pos w
     \<and> windows_for (drop SVN_DELTA_WINDOW_SIZE S) (drop SVN_DELTA_WINDOW_SIZE T)
         (pos + int (length (take SVN_DELTA_WINDOW_SIZE S))) ws"

lemma delta_windows_Nil [simp]: "delta_windows unaligned S [] pos = Some []"
  by (simp add: delta_windows.simps)

lemma window_size_pos [simp]: "0 < SVN_DELTA_WINDOW_SIZE" "SVN_DELTA_WINDOW_SIZE \<noteq> 0"
  by (simp_all add: SVN_DELTA_WINDOW_SIZE_def)

lemma compute_piece:
  assumes "T \<noteq> []"
  obtains w where "compute_window unaligned (take SVN_DELTA_WINDOW_SIZE S @ take SVN_DELTA_WINDOW_SIZE T)
      (length (take SVN_DELTA_WINDOW_SIZE S)) (length (take SVN_DELTA_WINDOW_SIZE T)) pos = Some w"
    and "delta_window (take SVN_DELTA_WINDOW_SIZE S) (take SVN_DELTA_WINDOW_SIZE T) pos w"
proof -
  have "length (take SVN_DELTA_WINDOW_SIZE S) \<le> SVN_DELTA_WINDOW_SIZE" by simp
  then have "length (take SVN_DELTA_WINDOW_SIZE S) + MATCH_BLOCKSIZE < 2 ^ 32"
    by (rule le_less_trans [OF add_le_mono1]) (simp add: SVN_DELTA_WINDOW_SIZE_def MATCH_BLOCKSIZE_def)
  then show ?thesis
    using compute_window_spec [of "take SVN_DELTA_WINDOW_SIZE T" "take SVN_DELTA_WINDOW_SIZE S" unaligned pos] assms that
    by auto
qed

lemma delta_windows_total: "\<exists>ws. delta_windows unaligned S T pos = Some ws \<and> windows_for S T pos ws"
proof (induction unaligned S T pos rule: delta_windows.induct)
  case (1 unaligned S T pos)
  show ?case
  proof (cases "T = []")
    case False
    obtain w where w: "compute_window unaligned (take SVN_DELTA_WINDOW_SIZE S @ take SVN_DELTA_WINDOW_SIZE T)
        (length (take SVN_DELTA_WINDOW_SIZE S)) (length (take SVN_DELTA_WINDOW_SIZE T)) pos = Some w"
      "delta_window (take SVN_DELTA_WINDOW_SIZE S) (take SVN_DELTA_WINDOW_SIZE T) pos w"
      by (rule compute_piece [OF False])
    obtain ws where "delta_windows unaligned (drop SVN_DELTA_WINDOW_SIZE S) (drop SVN_DELTA_WINDOW_SIZE T)
        (pos + int (length (take SVN_DELTA_WINDOW_SIZE S))) = Some ws"
      "windows_for (drop SVN_DELTA_WINDOW_SIZE S) (drop SVN_DELTA_WINDOW_SIZE T)
        (pos + int (length (take SVN_DELTA_WINDOW_SIZE S))) ws"
      using "1.IH" [OF False refl refl w(1)] by blast
    then show ?thesis using w False
      by (intro exI [of _ "w # ws"]) (simp add: delta_windows.simps [of unaligned S T pos] Let_def)
  qed simp
qed

text \<open>What the consumer of a delta makes of it.\<close>

definition send_delta ::
    "bool \<Rightarrow> (txdelta_window option \<Rightarrow> 's \<Rightarrow> 's svn_result) \<Rightarrow> bytes \<Rightarrow> bytes \<Rightarrow> int \<Rightarrow> 's \<Rightarrow> 's svn_result" where
  "send_delta unaligned handler S T pos s =
     fold_result handler (map Some (the (delta_windows unaligned S T pos)) @ [None]) s"

lemma send_delta_Nil: "send_delta unaligned handler S [] pos s = handler None s"
  by (cases "handler None s") (simp_all add: send_delta_def)

lemma send_delta_step:
  assumes "T \<noteq> []"
    and "compute_window unaligned (take SVN_DELTA_WINDOW_SIZE S @ take SVN_DELTA_WINDOW_SIZE T)
      (length (take SVN_DELTA_WINDOW_SIZE S)) (length (take SVN_DELTA_WINDOW_SIZE T)) pos = Some w"
  shows "send_delta unaligned handler S T pos s = svn_try (handler (Some w) s)
    (send_delta unaligned handler (drop SVN_DELTA_WINDOW_SIZE S) (drop SVN_DELTA_WINDOW_SIZE T)
      (pos + int (length (take SVN_DELTA_WINDOW_SIZE S))))"
proof -
  obtain ws where "delta_windows unaligned (drop SVN_DELTA_WINDOW_SIZE S) (drop SVN_DELTA_WINDOW_SIZE T)
      (pos + int (length (take SVN_DELTA_WINDOW_SIZE S))) = Some ws"
    using delta_windows_total by blast
  then show ?thesis using assms
    by (cases "handler (Some w) s") (simp_all add: send_delta_def delta_windows.simps [of unaligned S T pos] Let_def)
qed

lemma drop_short: "length (take n xs) \<noteq> n \<Longrightarrow> drop n xs = []"
  by simp

section \<open>Pulling windows\<close>

lemma next_window_end:
  "td_target b = [] \<Longrightarrow> \<exists>b'. txdelta_next_window unaligned b = Some (None, b') \<and> td_digested b' = td_digested b"
  by (cases "td_more_source b") (simp_all add: txdelta_next_window_def Let_def)

lemma next_window_more:
  fixes b :: txdelta_baton
  defines "S \<equiv> if td_more_source b then td_source b else []"
  assumes "td_target b \<noteq> []"
    and "compute_window unaligned (take SVN_DELTA_WINDOW_SIZE S @ take SVN_DELTA_WINDOW_SIZE (td_target b))
      (length (take SVN_DELTA_WINDOW_SIZE S)) (length (take SVN_DELTA_WINDOW_SIZE (td_target b))) (td_pos b) = Some w"
  obtains b' where "txdelta_next_window unaligned b = Some (Some w, b')"
    and "(if td_more_source b' then td_source b' else []) = drop SVN_DELTA_WINDOW_SIZE S"
    and "td_target b' = drop SVN_DELTA_WINDOW_SIZE (td_target b)"
    and "td_pos b' = td_pos b + int (length (take SVN_DELTA_WINDOW_SIZE S))"
    and "td_digested b' = td_digested b @ take SVN_DELTA_WINDOW_SIZE (td_target b)"
proof (cases "td_more_source b")
  case True
  then show ?thesis using that assms(2,3) by (simp add: S_def txdelta_next_window_def Let_def min_def)
next
  case False
  then show ?thesis using that assms(2,3) by (simp add: S_def txdelta_next_window_def Let_def)
qed

lemma run_loop_spec:
  assumes "\<forall>n. cancel n = Inr ()"
  shows "txdelta_run_loop unaligned handler cancel n b s
    = Some (svn_try (send_delta unaligned handler (if td_more_source b then td_source b else []) (td_target b) (td_pos b) s)
        (\<lambda>s. Inr (s, td_digested b @ td_target b)))"
  using assms
proof (induction unaligned handler cancel n b s rule: txdelta_run_loop.induct)
  case (1 unaligned handler cancel n b s)
  let ?W = SVN_DELTA_WINDOW_SIZE
  let ?S = "if td_more_source b then td_source b else []"
  have src: "(if td_more_source b then take ?W (td_source b) else []) = take ?W ?S" by simp
  show ?case
  proof (cases "td_target b = []")
    case True
    obtain b' where nw: "txdelta_next_window unaligned b = Some (None, b')" "td_digested b' = td_digested b"
      using next_window_end [OF True] by blast
    have "cancel n = Inr ()" using "1.prems" by blast
    then show ?thesis
      using nw True by (cases "handler None s")
        (simp_all add: txdelta_run_loop.simps [of unaligned handler cancel n b s] send_delta_Nil)
  next
    case False
    obtain w where w: "compute_window unaligned (take ?W ?S @ take ?W (td_target b))
        (length (take ?W ?S)) (length (take ?W (td_target b))) (td_pos b) = Some w"
      by (rule compute_piece [OF False, of unaligned ?S "td_pos b"])
    obtain b' where nw: "txdelta_next_window unaligned b = Some (Some w, b')"
      and S': "(if td_more_source b' then td_source b' else []) = drop ?W ?S"
      and b': "td_target b' = drop ?W (td_target b)" "td_pos b' = td_pos b + int (length (take ?W ?S))"
        "td_digested b' = td_digested b @ take ?W (td_target b)"
      by (rule next_window_more [OF False w])
    have "cancel n = Inr ()" using "1.prems" by blast
    have step: "send_delta unaligned handler ?S (td_target b) (td_pos b) s = svn_try (handler (Some w) s)
        (send_delta unaligned handler (drop ?W ?S) (drop ?W (td_target b)) (td_pos b + int (length (take ?W ?S))))"
      by (rule send_delta_step [OF False w])
    show ?thesis
    proof (cases "handler (Some w) s")
      case (Inl e)
      then show ?thesis
        unfolding step by (simp add: txdelta_run_loop.simps [of unaligned handler cancel n b s] nw)
    next
      case (Inr s')
      have "txdelta_run_loop unaligned handler cancel (Suc n) b' s'
          = Some (svn_try (send_delta unaligned handler (if td_more_source b' then td_source b' else []) (td_target b') (td_pos b') s')
              (\<lambda>s. Inr (s, td_digested b' @ td_target b')))"
        by (rule "1.IH" [OF nw refl]) (use Inr "1.prems" in simp_all)
      then show ?thesis
        unfolding step S' b' using \<open>cancel n = Inr ()\<close>
        by (simp add: txdelta_run_loop.simps [of unaligned handler cancel n b s] nw Inr)
    qed
  qed
qed

lemma run_spec:
  assumes "\<forall>n. cancel n = Inr ()"
  shows "svn_txdelta_run unaligned S T handler cancel s
    = Some (svn_try (send_delta unaligned handler S T 0 s) (\<lambda>s. Inr (s, T)))"
  using run_loop_spec [OF assms, of unaligned handler 0 "txdelta_init S T" s]
  by (simp add: svn_txdelta_run_def txdelta_init_def)

section \<open>Pushing target data\<close>

definition tp_logical :: "'s tpush_baton \<Rightarrow> bytes" where
  "tp_logical tb = (if tp_source_len tb = 0 \<and> \<not> tp_source_done tb then tp_source tb
     else take (tp_source_len tb) (tp_buf tb) @ tp_source tb)"

definition tp_tgt :: "'s tpush_baton \<Rightarrow> bytes" where
  "tp_tgt tb = take (tp_target_len tb) (drop (tp_source_len tb) (tp_buf tb))"

definition tp_inv :: "'s tpush_baton \<Rightarrow> bool" where
  "tp_inv tb \<longleftrightarrow>
     tp_target_len tb < SVN_DELTA_WINDOW_SIZE \<and> tp_source_len tb + tp_target_len tb \<le> length (tp_buf tb)
     \<and> (tp_source_len tb = 0 \<and> \<not> tp_source_done tb \<longrightarrow> tp_target_len tb = 0)
     \<and> (tp_source_done tb \<longrightarrow> tp_source tb = []) \<and> tp_source_len tb \<le> SVN_DELTA_WINDOW_SIZE
     \<and> (tp_source_len tb > 0 \<and> \<not> tp_source_done tb \<longrightarrow> tp_source_len tb = SVN_DELTA_WINDOW_SIZE)"

text \<open>What closing the stream will do when \<open>X\<close> is still written before.\<close>

definition tp_sem ::
    "bool \<Rightarrow> (txdelta_window option \<Rightarrow> 's \<Rightarrow> 's svn_result) \<Rightarrow> 's tpush_baton \<Rightarrow> bytes \<Rightarrow> 's svn_result" where
  "tp_sem unaligned wh tb X =
     send_delta unaligned wh (tp_logical tb) (tp_tgt tb @ X) (tp_source_offset tb) (tp_consumer tb)"

lemma compute_window_take:
  "compute_window unaligned buf sn tn off = compute_window unaligned (take (sn + tn) buf) sn tn off"
  by (auto simp: compute_window_def svn_txdelta_xdelta_def insert_new_at_def assert_opt_def svn_txdelta_insert_op_def
      empty_baton_def drop_take min_absorb1)


lemma tpush_fill_spec:
  assumes "tp_inv tb"
  shows "tp_inv (tpush_fill tb)" and "tp_logical (tpush_fill tb) = tp_logical tb" and "tp_tgt (tpush_fill tb) = tp_tgt tb"
    and "tp_source_offset (tpush_fill tb) = tp_source_offset tb" and "tp_consumer (tpush_fill tb) = tp_consumer tb"
    and "take SVN_DELTA_WINDOW_SIZE (tp_logical tb) = take (tp_source_len (tpush_fill tb)) (tp_buf (tpush_fill tb))"
    and "drop SVN_DELTA_WINDOW_SIZE (tp_logical tb) = tp_source (tpush_fill tb)"
    and "tp_source_len (tpush_fill tb) = length (take SVN_DELTA_WINDOW_SIZE (tp_logical tb))"
    and "\<not> (tp_source_len (tpush_fill tb) = 0 \<and> \<not> tp_source_done (tpush_fill tb))"
proof -
  let ?W = SVN_DELTA_WINDOW_SIZE
  let ?r = "tpush_fill tb"
  have "tp_inv ?r \<and> tp_logical ?r = tp_logical tb \<and> tp_tgt ?r = tp_tgt tb \<and> tp_source_offset ?r = tp_source_offset tb
    \<and> tp_consumer ?r = tp_consumer tb \<and> take ?W (tp_logical tb) = take (tp_source_len ?r) (tp_buf ?r)
    \<and> drop ?W (tp_logical tb) = tp_source ?r \<and> tp_source_len ?r = length (take ?W (tp_logical tb))
    \<and> \<not> (tp_source_len ?r = 0 \<and> \<not> tp_source_done ?r)"
  proof (cases "tp_source_len tb = 0 \<and> \<not> tp_source_done tb")
    case True
    then have "tp_target_len tb = 0" using assms by (simp add: tp_inv_def)
    then show ?thesis using True by (simp add: tpush_fill_def tp_inv_def tp_logical_def tp_tgt_def Let_def min_def)
  next
    case False
    let ?n = "tp_source_len tb"
    have r: "?r = tb" using False by (auto simp: tpush_fill_def)
    have n: "?n \<le> ?W" "?n \<le> length (tp_buf tb)" "tp_source_done tb \<and> tp_source tb = [] \<or> ?n = ?W"
      using assms False by (auto simp: tp_inv_def)
    have "take ?W (take ?n (tp_buf tb) @ tp_source tb) = take ?n (tp_buf tb)"
      "drop ?W (take ?n (tp_buf tb) @ tp_source tb) = tp_source tb"
      using n by (auto simp: min_absorb1 min_absorb2)
    moreover have "tp_logical tb = take ?n (tp_buf tb) @ tp_source tb" using False by (auto simp: tp_logical_def)
    ultimately show ?thesis unfolding r using False assms n(2) by (simp add: min_absorb2)
  qed
  then show "tp_inv ?r" "tp_logical ?r = tp_logical tb" "tp_tgt ?r = tp_tgt tb"
    "tp_source_offset ?r = tp_source_offset tb" "tp_consumer ?r = tp_consumer tb"
    "take ?W (tp_logical tb) = take (tp_source_len ?r) (tp_buf ?r)" "drop ?W (tp_logical tb) = tp_source ?r"
    "tp_source_len ?r = length (take ?W (tp_logical tb))" "\<not> (tp_source_len ?r = 0 \<and> \<not> tp_source_done ?r)"
    by blast+
qed

lemma buffered_append:
  "k + m \<le> length buf \<Longrightarrow> take (m + length x) (drop k (take (k + m) buf @ x)) = take m (drop k buf) @ x"
  by (simp add: drop_take min_absorb1)

text \<open>A window of the data buffered is the next window of the delta.\<close>

lemma tpush_send_spec:
  assumes "tp_source_len tb = length (take SVN_DELTA_WINDOW_SIZE S)"
    and "take (tp_source_len tb) (tp_buf tb) = take SVN_DELTA_WINDOW_SIZE S"
    and "take (tp_target_len tb) (drop (tp_source_len tb) (tp_buf tb)) = take SVN_DELTA_WINDOW_SIZE T"
    and "tp_target_len tb = length (take SVN_DELTA_WINDOW_SIZE T)" and "T \<noteq> []"
  shows "\<exists>w. tpush_send unaligned wh tb = Some (wh (Some w) (tp_consumer tb))
    \<and> send_delta unaligned wh S T (tp_source_offset tb) s = svn_try (wh (Some w) s)
      (send_delta unaligned wh (drop SVN_DELTA_WINDOW_SIZE S) (drop SVN_DELTA_WINDOW_SIZE T)
        (tp_source_offset tb + int (tp_source_len tb)))"
proof -
  obtain w where w: "compute_window unaligned (take SVN_DELTA_WINDOW_SIZE S @ take SVN_DELTA_WINDOW_SIZE T)
      (length (take SVN_DELTA_WINDOW_SIZE S)) (length (take SVN_DELTA_WINDOW_SIZE T)) (tp_source_offset tb) = Some w"
    by (rule compute_piece [OF assms(5)])
  have "take (tp_source_len tb + tp_target_len tb) (tp_buf tb)
      = take SVN_DELTA_WINDOW_SIZE S @ take SVN_DELTA_WINDOW_SIZE T"
    using assms(2,3) by (simp add: take_add)
  then have "compute_window unaligned (tp_buf tb) (tp_source_len tb) (tp_target_len tb) (tp_source_offset tb) = Some w"
    using w assms(1,4) by (subst compute_window_take) simp
  then show ?thesis
    using send_delta_step [OF assms(5) w, of wh s] assms(1) by (intro exI [of _ w]) (simp add: tpush_send_def)
qed

lemma tpush_step_spec:
  assumes "tp_inv tb" and "data \<noteq> []"
  shows "(\<exists>data' tb'. tpush_step unaligned wh data tb = Some (Inr (data', tb')) \<and> tp_inv tb'
      \<and> length data' < length data \<and> (\<forall>X. tp_sem unaligned wh tb' (data' @ X) = tp_sem unaligned wh tb (data @ X)))
    \<or> (\<exists>e. tpush_step unaligned wh data tb = Some (Inl e) \<and> (\<forall>X. tp_sem unaligned wh tb (data @ X) = Inl e))"
proof -
  let ?W = SVN_DELTA_WINDOW_SIZE
  define tb1 where "tb1 = tpush_fill tb"
  note f = tpush_fill_spec [OF assms(1), folded tb1_def]
  define n where "n = (if ?W - tp_target_len tb1 > length data then length data else ?W - tp_target_len tb1)"
  let ?tb = "tb1\<lparr>tp_buf := take (tp_source_len tb1 + tp_target_len tb1) (tp_buf tb1) @ take n data,
    tp_target_len := tp_target_len tb1 + n\<rparr>"
  have inv: "tp_target_len tb1 < ?W" "tp_source_len tb1 + tp_target_len tb1 \<le> length (tp_buf tb1)"
    using f(1) by (auto simp: tp_inv_def)
  have n: "0 < n" "n \<le> length data" "tp_target_len tb1 + n = ?W \<or> n = length data \<and> tp_target_len tb1 + n < ?W"
    using inv(1) assms(2) by (auto simp: n_def)
  have src: "take (tp_source_len tb1) (take (tp_source_len tb1 + tp_target_len tb1) (tp_buf tb1) @ take n data)
      = take (tp_source_len tb1) (tp_buf tb1)" using inv(2) by simp
  have tgt: "tp_tgt ?tb = tp_tgt tb @ take n data"
  proof -
    have len: "length (take n data) = n" using n(2) by simp
    have "tp_tgt ?tb = take (tp_target_len tb1 + n) (drop (tp_source_len tb1)
        (take (tp_source_len tb1 + tp_target_len tb1) (tp_buf tb1) @ take n data))"
      by (simp add: tp_tgt_def)
    also have "\<dots> = tp_tgt tb1 @ take n data"
      using buffered_append [OF inv(2), of "take n data"] unfolding len tp_tgt_def .
    finally show ?thesis unfolding f(3) .
  qed
  have ltgt: "length (tp_tgt tb) = tp_target_len tb1" using inv(2) f(3) [symmetric] by (simp add: tp_tgt_def)
  have step: "tpush_step unaligned wh data tb = (if tp_target_len ?tb = ?W
      then svn_try_partial (tpush_send unaligned wh ?tb) (\<lambda>s. Some (Inr (drop n data,
             ?tb\<lparr>tp_consumer := s, tp_source_offset := tp_source_offset ?tb + int (tp_source_len ?tb),
               tp_source_len := 0, tp_target_len := 0\<rparr>)))
      else Some (Inr (drop n data, ?tb)))"
    unfolding tpush_step_def tb1_def [symmetric] Let_def n_def [symmetric] by (rule refl)
  show ?thesis
  proof (cases "tp_target_len ?tb = ?W")
    case False
    then have all: "n = length data" "tp_target_len tb1 + n < ?W" using n(3) by auto
    have "tp_inv ?tb" using f(1,9) inv(2) all by (auto simp: tp_inv_def)
    moreover have "tp_logical ?tb = tp_logical tb" using src f(2,9) by (auto simp: tp_logical_def)
    ultimately show ?thesis using step False tgt all(1) assms(2) f(4,5) by (simp add: tp_sem_def)
  next
    case full: True
    then have tn: "tp_target_len tb1 + n = ?W" by simp
    have T: "take ?W (tp_tgt tb @ data @ X) = tp_tgt tb @ take n data" "drop ?W (tp_tgt tb @ data @ X) = drop n data @ X" for X
      using ltgt n(2) by (simp_all add: tn [symmetric])
    have S: "tp_source_len ?tb = length (take ?W (tp_logical tb))" "take (tp_source_len ?tb) (tp_buf ?tb) = take ?W (tp_logical tb)"
      using f(8) src f(6) by (simp_all del: length_take)
    let ?tb2 = "\<lambda>s. ?tb\<lparr>tp_consumer := s, tp_source_offset := tp_source_offset ?tb + int (tp_source_len ?tb),
      tp_source_len := 0, tp_target_len := 0\<rparr>"
    have ex: "\<exists>w. tpush_send unaligned wh ?tb = Some (wh (Some w) (tp_consumer ?tb))
      \<and> send_delta unaligned wh (tp_logical tb) (tp_tgt tb @ data @ X) (tp_source_offset ?tb) (tp_consumer tb)
        = svn_try (wh (Some w) (tp_consumer tb)) (send_delta unaligned wh (drop ?W (tp_logical tb)) (drop ?W (tp_tgt tb @ data @ X))
          (tp_source_offset ?tb + int (tp_source_len ?tb)))" for X
    proof (rule tpush_send_spec [OF S])
      show "take (tp_target_len ?tb) (drop (tp_source_len ?tb) (tp_buf ?tb)) = take ?W (tp_tgt tb @ data @ X)"
        using tgt unfolding T(1) by (simp only: tp_tgt_def)
      show "tp_target_len ?tb = length (take ?W (tp_tgt tb @ data @ X))" unfolding T(1) using ltgt n(2) by simp
    qed (use assms(2) in simp)
    obtain R where R: "tpush_send unaligned wh ?tb = Some R" using ex by blast
    have sem: "tp_sem unaligned wh tb (data @ X) = svn_try R (send_delta unaligned wh (tp_source tb1) (drop n data @ X)
        (tp_source_offset ?tb + int (tp_source_len ?tb)))" for X
      using ex [of X] R f(4,5,7) T(2) [of X] by (auto simp: tp_sem_def)
    show ?thesis
    proof (cases R)
      case (Inl e)
      then show ?thesis using step full R sem by simp
    next
      case (Inr s)
      have "tp_inv (?tb2 s)" using f(1) by (auto simp: tp_inv_def)
      moreover have "tp_sem unaligned wh (?tb2 s) (drop n data @ X) = tp_sem unaligned wh tb (data @ X)" for X
        unfolding sem Inr by (simp add: tp_sem_def tp_logical_def tp_tgt_def)
      moreover have "length (drop n data) < length data" using n(1) assms(2) by simp
      ultimately show ?thesis using step full R Inr by simp
    qed
  qed
qed

lemma tpush_loop_spec:
  assumes "tp_inv tb" and "length data \<le> fuel"
  shows "(\<exists>tb'. tpush_loop fuel unaligned wh data tb = Some (Inr tb') \<and> tp_inv tb'
      \<and> (\<forall>X. tp_sem unaligned wh tb' X = tp_sem unaligned wh tb (data @ X)))
    \<or> (\<exists>e. tpush_loop fuel unaligned wh data tb = Some (Inl e) \<and> (\<forall>X. tp_sem unaligned wh tb (data @ X) = Inl e))"
  using assms
proof (induction fuel unaligned wh data tb rule: tpush_loop.induct)
  case (3 fuel unaligned wh c data tb)
  consider (ok) data' tb' where "tpush_step unaligned wh (c # data) tb = Some (Inr (data', tb'))" "tp_inv tb'"
      "length data' < length (c # data)" "\<And>X. tp_sem unaligned wh tb' (data' @ X) = tp_sem unaligned wh tb ((c # data) @ X)"
    | (err) e where "tpush_step unaligned wh (c # data) tb = Some (Inl e)" "\<And>X. tp_sem unaligned wh tb ((c # data) @ X) = Inl e"
    using tpush_step_spec [OF "3.prems"(1), of "c # data" unaligned wh] by blast
  then show ?case
  proof cases
    case ok
    then show ?thesis using "3.IH" [OF ok(1) refl ok(2)] "3.prems"(2) by simp
  qed simp
qed auto

lemma tpush_close_spec:
  assumes "tp_inv tb"
  shows "tpush_close_handler unaligned wh tb = Some (tp_sem unaligned wh tb [])"
proof (cases "tp_target_len tb > 0")
  case False
  then show ?thesis by (simp add: tpush_close_handler_def tp_sem_def tp_tgt_def send_delta_Nil)
next
  case True
  then have r: "tpush_fill tb = tb" using assms by (auto simp: tpush_fill_def tp_inv_def)
  note f = tpush_fill_spec [OF assms, unfolded r]
  have lt: "length (tp_tgt tb) = tp_target_len tb" "tp_target_len tb < SVN_DELTA_WINDOW_SIZE"
    using assms by (auto simp: tp_inv_def tp_tgt_def)
  then have T: "take SVN_DELTA_WINDOW_SIZE (tp_tgt tb) = tp_tgt tb" "drop SVN_DELTA_WINDOW_SIZE (tp_tgt tb) = []" "tp_tgt tb \<noteq> []"
    using True by auto
  have "\<exists>w. tpush_send unaligned wh tb = Some (wh (Some w) (tp_consumer tb))
      \<and> send_delta unaligned wh (tp_logical tb) (tp_tgt tb) (tp_source_offset tb) (tp_consumer tb)
        = svn_try (wh (Some w) (tp_consumer tb)) (send_delta unaligned wh (drop SVN_DELTA_WINDOW_SIZE (tp_logical tb))
          (drop SVN_DELTA_WINDOW_SIZE (tp_tgt tb)) (tp_source_offset tb + int (tp_source_len tb)))"
  proof (rule tpush_send_spec [OF f(8) f(6) [symmetric]])
    show "take (tp_target_len tb) (drop (tp_source_len tb) (tp_buf tb)) = take SVN_DELTA_WINDOW_SIZE (tp_tgt tb)"
      unfolding T(1) by (simp only: tp_tgt_def)
    show "tp_target_len tb = length (take SVN_DELTA_WINDOW_SIZE (tp_tgt tb))" unfolding T(1) lt(1) by (rule refl)
  qed (rule T(3))
  then obtain R where R: "tpush_send unaligned wh tb = Some R" "tp_sem unaligned wh tb [] = svn_try R (wh None)"
    unfolding T(2) by (auto simp: tp_sem_def send_delta_Nil [abs_def])
  then show ?thesis using True by (cases R) (simp_all add: tpush_close_handler_def)
qed

lemma tpush_chunks:
  assumes "tp_inv tb"
  shows "svn_try_partial (fold_partial (tpush_write_handler unaligned wh) chunks tb) (tpush_close_handler unaligned wh)
    = Some (tp_sem unaligned wh tb (concat chunks))"
  using assms
proof (induction chunks arbitrary: tb)
  case Nil
  then show ?case by (simp add: tpush_close_spec)
next
  case (Cons c chunks)
  show ?case
    using tpush_loop_spec [OF Cons.prems order.refl, of c unaligned wh] Cons.IH
    by (auto simp: tpush_write_handler_def)
qed

lemma tpush_init: "tp_inv (svn_txdelta_target_push s S)"
  and tpush_init_sem: "tp_sem unaligned wh (svn_txdelta_target_push s S) X = send_delta unaligned wh S X 0 s"
  by (simp_all add: svn_txdelta_target_push_def tp_inv_def tp_sem_def tp_logical_def tp_tgt_def)

section \<open>Properties\<close>

text \<open>C12. Pushing a target in pieces of any size and closing the stream sends the consumer what pulling
  the whole delta sends it, with the same result and the same error.\<close>

theorem push_equals_pull:
  "svn_try_partial (fold_partial (tpush_write_handler unaligned wh) chunks (svn_txdelta_target_push s S))
      (tpush_close_handler unaligned wh)
    = svn_try_partial (svn_txdelta_run unaligned S (concat chunks) wh (\<lambda>_. Inr ()) s) (\<lambda>(s, _). Some (Inr s))"
  by (cases "send_delta unaligned wh S (concat chunks) 0 s") (simp_all add: tpush_chunks [OF tpush_init] tpush_init_sem run_spec)

end
