(* ===== verification/Svndiff.thy ===== *)
theory Svndiff
  imports Delta_Window
begin

unbundle bit_operations_syntax

text \<open>
  The svndiff format (\<open>libsvn_delta/svndiff.c\<close>): variable-length integers, instructions,
  windows, optional zlib compression of their sections (version 1), the encoder as a window
  handler and the decoder as a stream that is fed in pieces of any size.

  \<open>apr_size_t\<close> and \<open>svn_filesize_t\<close> have 64 bits; the integer codec works on \<open>64 word\<close>, sizes
  are then read as \<open>nat\<close>, offsets as \<open>int\<close>. zlib is third-party code (bundled in \<open>src/depe/subversion/zlib\<close>): \<open>compress2\<close>
  and \<open>uncompress\<close> are parameters, as is the window handler the decoder calls. The output
  stream of the encoder collects what is written.
\<close>

section \<open>Integers\<close>

definition MAX_ENCODED_INT_LEN :: nat where "MAX_ENCODED_INT_LEN = 10"

definition MAX_INSTRUCTION_LEN :: nat where "MAX_INSTRUCTION_LEN = 2 * MAX_ENCODED_INT_LEN + 1"

definition MAX_INSTRUCTION_SECTION_LEN :: nat where
  "MAX_INSTRUCTION_SECTION_LEN = SVN_DELTA_WINDOW_SIZE * MAX_INSTRUCTION_LEN"

text \<open>
  How many bytes are needed, then the bytes, \<open>n\<close> of them still to come. The code aborts on a
  negative \<open>val\<close>; the model is about the others, those below \<open>2 ^ 63\<close>.
\<close>

lemma unat_drop_bit_div: "unat (drop_bit n v) = unat v div 2 ^ n"
  by (subst unat_drop_bit_eq) (simp add: drop_bit_eq_div)

function encoded_len_loop :: "64 word \<Rightarrow> nat \<Rightarrow> nat" where
  "encoded_len_loop v n = (if v > 0 then encoded_len_loop (drop_bit 7 v) (Suc n) else n)"
  by pat_completeness auto
termination
proof (relation "measure (\<lambda>(v, n). unat v)"; clarsimp)
  fix v :: "64 word"
  assume "0 < v"
  then have "0 < unat v" by (simp add: word_less_nat_alt)
  then show "unat (drop_bit 7 v) < unat v" by (simp add: unat_drop_bit_div)
qed

declare encoded_len_loop.simps [simp del]

fun encode_bytes :: "nat \<Rightarrow> 64 word \<Rightarrow> bytes" where
  "encode_bytes 0 val = []"
| "encode_bytes (Suc n) val =
     (ucast (drop_bit (n * 7) val AND 0x7f) OR push_bit 7 (if n > 0 then 1 else 0)) # encode_bytes n val"

definition encode_int :: "nat \<Rightarrow> bytes" where
  "encode_int val = (let v = word_of_nat val in encode_bytes (encoded_len_loop (drop_bit 7 v) 1) v)"

text \<open>At most \<open>k\<close> bytes are looked at.\<close>

fun decode_loop :: "nat \<Rightarrow> 64 word \<Rightarrow> bytes \<Rightarrow> (64 word \<times> bytes) option" where
  "decode_loop 0 temp p = None"
| "decode_loop (Suc k) temp [] = None"
| "decode_loop (Suc k) temp (c # p) =
     (let temp = push_bit 7 temp OR ucast (c AND 0x7f) in
      if c < 0x80 then Some (temp, p) else decode_loop k temp p)"

definition decode_file_offset :: "bytes \<Rightarrow> (int \<times> bytes) option" where
  "decode_file_offset p = map_option (\<lambda>(v, p). (sint v, p)) (decode_loop MAX_ENCODED_INT_LEN 0 p)"

definition decode_size :: "bytes \<Rightarrow> (nat \<times> bytes) option" where
  "decode_size p = map_option (\<lambda>(v, p). (unat v, p)) (decode_loop MAX_ENCODED_INT_LEN 0 p)"

section \<open>Compressed sections\<close>

definition MIN_COMPRESS_SIZE :: nat where "MIN_COMPRESS_SIZE = 512"

definition COMPRESSION_LEVEL_NONE :: int where "COMPRESSION_LEVEL_NONE = 0"

text \<open>\<open>compress2 data level\<close> is the zlib error or the compressed data.\<close>

definition zlib_encode ::
    "(bytes \<Rightarrow> int \<Rightarrow> int + bytes) \<Rightarrow> bytes \<Rightarrow> int \<Rightarrow> bytes svn_result" where
  "zlib_encode compress2 data compression_level =
     (let out = encode_int (length data) in
      if length data < MIN_COMPRESS_SIZE \<or> compression_level = COMPRESSION_LEVEL_NONE
      then Inr (out @ data)
      else case compress2 data compression_level of
             Inl zerr \<Rightarrow> Inl (Zlib_error zerr)
           | Inr packed \<Rightarrow> if length packed \<ge> length data then Inr (out @ data) else Inr (out @ packed))"

text \<open>\<open>uncompress data len\<close> is the zlib error or what has been unpacked into \<open>len\<close> bytes.\<close>

definition zlib_decode ::
    "(bytes \<Rightarrow> nat \<Rightarrow> int + bytes) \<Rightarrow> bytes \<Rightarrow> nat \<Rightarrow> bytes svn_result" where
  "zlib_decode uncompress inp limit =
     (case decode_size inp of
        None \<Rightarrow> Inl Svndiff_invalid_compressed_data
      | Some (len, inp) \<Rightarrow>
          if len > limit then Inl Svndiff_invalid_compressed_data
          else if length inp = len then Inr inp
          else case uncompress inp len of
                 Inl zerr \<Rightarrow> Inl (Zlib_error zerr)
               | Inr out \<Rightarrow> if length out \<noteq> len then Inl Svndiff_invalid_compressed_data else Inr out)"

definition svn_compress ::
    "(bytes \<Rightarrow> int \<Rightarrow> int + bytes) \<Rightarrow> bytes \<Rightarrow> int \<Rightarrow> bytes svn_result" where
  "svn_compress compress2 inp compression_level = zlib_encode compress2 inp compression_level"

definition svn_decompress ::
    "(bytes \<Rightarrow> nat \<Rightarrow> int + bytes) \<Rightarrow> bytes \<Rightarrow> nat \<Rightarrow> bytes svn_result" where
  "svn_decompress uncompress inp limit = zlib_decode uncompress inp limit"

section \<open>Encoding windows\<close>

definition action_code :: "svn_delta_action \<Rightarrow> byte" where
  "action_code action = (case action of Delta_source \<Rightarrow> 0 | Delta_target \<Rightarrow> 1 | Delta_new \<Rightarrow> 2)"

definition encode_instruction :: "txdelta_op \<Rightarrow> bytes" where
  "encode_instruction dlt =
     (let ip = push_bit 6 (action_code (op_action dlt)) in
      (if op_length dlt div 2 ^ 6 = 0 then [ip OR word_of_nat (op_length dlt)]
       else ip # encode_int (op_length dlt))
      @ (if op_action dlt \<noteq> Delta_new then encode_int (op_offset dlt) else []))"

text \<open>\<open>struct encoder_baton\<close>: the output so far and whether it has been closed.\<close>

record encoder_baton =
  eb_output :: bytes
  eb_closed :: bool
  eb_header_done :: bool
  eb_version :: nat
  eb_compression_level :: int

definition svndiff_header :: "nat \<Rightarrow> bytes" where
  "svndiff_header version = [0x53, 0x56, 0x4E, word_of_nat version]"

definition send_simple_insertion_window ::
    "txdelta_window \<Rightarrow> encoder_baton \<Rightarrow> encoder_baton svn_result" where
  "send_simple_insertion_window w eb =
     (let len = length (new_data w); dlt = hd (win_ops w) in
      svn_try (svn_assert (op_action dlt = Delta_new)) (\<lambda>_.
      svn_try (svn_assert (op_length dlt = tview_len w)) (\<lambda>_.
      svn_try (svn_assert (op_offset dlt = 0)) (\<lambda>_.
        let headers = (if \<not> eb_header_done eb then svndiff_header (eb_version eb) else []);
            ibuf = (if tview_len w div 2 ^ 6 = 0 then [word_of_nat (tview_len w) + push_bit 6 2]
                    else push_bit 6 2 # encode_int (tview_len w));
            headers = headers @ encode_int (nat (sview_offset w)) @ encode_int (sview_len w)
              @ encode_int (tview_len w) @ [word_of_nat (length ibuf)] @ encode_int len @ ibuf
        in Inr (eb\<lparr>eb_header_done := True,
                   eb_output := eb_output eb @ headers @ (if len > 0 then new_data w else [])\<rparr>)))))"

definition encode_window ::
    "(bytes \<Rightarrow> int \<Rightarrow> int + bytes) \<Rightarrow> nat \<Rightarrow> int \<Rightarrow> txdelta_window \<Rightarrow> bytes svn_result" where
  "encode_window compress2 version compression_level w =
     (let instructions = concat (map encode_instruction (win_ops w));
          header = encode_int (nat (sview_offset w)) @ encode_int (sview_len w) @ encode_int (tview_len w)
      in svn_try (if version = 1 then zlib_encode compress2 instructions compression_level
                  else Inr instructions) (\<lambda>instructions.
         svn_try (if version = 1 then zlib_encode compress2 (new_data w) compression_level
                  else Inr (new_data w)) (\<lambda>newdata.
           Inr (header @ encode_int (length instructions) @ encode_int (length newdata)
             @ instructions @ newdata))))"

definition window_handler ::
    "(bytes \<Rightarrow> int \<Rightarrow> int + bytes) \<Rightarrow> txdelta_window option \<Rightarrow> encoder_baton \<Rightarrow> encoder_baton svn_result"
where
  "window_handler compress2 window eb =
     (if (case window of None \<Rightarrow> False | Some w \<Rightarrow> src_ops w = 0 \<and> length (win_ops w) = 1) \<and> eb_version eb = 0
      then send_simple_insertion_window (the window) eb
      else let eb = (if \<not> eb_header_done eb
              then eb\<lparr>eb_output := eb_output eb @ svndiff_header (eb_version eb), eb_header_done := True\<rparr>
              else eb)
        in case window of
             None \<Rightarrow> Inr (eb\<lparr>eb_closed := True\<rparr>)
           | Some w \<Rightarrow> svn_try (encode_window compress2 (eb_version eb) (eb_compression_level eb) w)
               (\<lambda>out. Inr (eb\<lparr>eb_output := eb_output eb @ out\<rparr>)))"

definition svn_txdelta_to_svndiff3 :: "nat \<Rightarrow> int \<Rightarrow> encoder_baton" where
  "svn_txdelta_to_svndiff3 svndiff_version compression_level =
     \<lparr>eb_output = [], eb_closed = False, eb_header_done = False, eb_version = svndiff_version,
      eb_compression_level = compression_level\<rparr>"

section \<open>Decoding windows\<close>

text \<open>The offset of an insertion is left as it was in \<open>*op\<close>.\<close>

definition decode_instruction :: "txdelta_op \<Rightarrow> bytes \<Rightarrow> (txdelta_op \<times> bytes) option" where
  "decode_instruction dlt p =
     (if p = [] then None
      else let c = hd p; p = tl p; action = drop_bit 6 c AND 0x3; len = unat (c AND 0x3f) in
        if action \<ge> 0x3 then None
        else let code = (if action = 0 then Delta_source else if action = 1 then Delta_target else Delta_new) in
          Option.bind (if len = 0 then decode_size p else Some (len, p)) (\<lambda>(len, p).
            if code \<noteq> Delta_new
            then Option.bind (decode_size p) (\<lambda>(offset, p). Some (dop code offset len, p))
            else Some (dop code (op_offset dlt) len, p)))"

text \<open>Subtraction of \<open>apr_size_t\<close>.\<close>

definition sub64 :: "nat \<Rightarrow> nat \<Rightarrow> nat" where
  "sub64 a b = nat ((int a - int b) mod 2 ^ 64)"

lemma decode_loop_suffix: "decode_loop k t p = Some (v, r) \<Longrightarrow> \<exists>u. p = u @ r \<and> u \<noteq> []"
proof (induction k t p rule: decode_loop.induct)
  case (3 k temp c p)
  then show ?case by (force simp: Let_def split: if_splits)
qed simp_all

lemma decode_size_suffix: "decode_size p = Some (v, r) \<Longrightarrow> \<exists>u. p = u @ r \<and> u \<noteq> []"
  by (auto simp: decode_size_def dest: decode_loop_suffix)

lemma decode_file_offset_suffix: "decode_file_offset p = Some (v, r) \<Longrightarrow> \<exists>u. p = u @ r \<and> u \<noteq> []"
  by (auto simp: decode_file_offset_def dest: decode_loop_suffix)

lemma decode_instruction_suffix:
  assumes "decode_instruction dlt p = Some (v, r)"
  shows "\<exists>u. p = u @ r \<and> u \<noteq> []"
proof -
  obtain c q where p: "p = c # q" using assms by (cases p) (auto simp: decode_instruction_def)
  obtain len q1 where q1: "(if unat (c AND 0x3f) = 0 then decode_size q else Some (unat (c AND 0x3f), q)) = Some (len, q1)"
    "q1 = r \<or> (\<exists>offset. decode_size q1 = Some (offset, r))"
    using assms by (auto simp: decode_instruction_def p Let_def split: if_splits)
  have "\<exists>u. q = u @ q1" using q1(1) decode_size_suffix by (fastforce split: if_splits)
  moreover have "\<exists>u. q1 = u @ r" using q1(2) decode_size_suffix by fastforce
  ultimately show ?thesis using p by auto
qed

lemma decode_instruction_shorter: "decode_instruction dlt p = Some (v, r) \<Longrightarrow> length r < length p"
  using decode_instruction_suffix by fastforce

function verify_loop ::
    "txdelta_op \<Rightarrow> bytes \<Rightarrow> nat \<Rightarrow> nat \<Rightarrow> nat \<Rightarrow> nat \<Rightarrow> nat \<Rightarrow> nat \<Rightarrow> nat svn_result" where
  "verify_loop dlt p slen tlen nlen tpos npos n =
     (if p = [] then
        if tpos \<noteq> tlen then Inl Svndiff_invalid_ops
        else if npos \<noteq> nlen then Inl Svndiff_invalid_ops
        else Inr n
      else case decode_instruction dlt p of
        None \<Rightarrow> Inl Svndiff_invalid_ops
      | Some (dlt, p) \<Rightarrow>
          if op_length dlt = 0 then Inl Svndiff_invalid_ops
          else if op_length dlt > sub64 tlen tpos then Inl Svndiff_invalid_ops
          else if op_action dlt = Delta_source
            \<and> (op_length dlt > sub64 slen (op_offset dlt) \<or> op_offset dlt > slen)
          then Inl Svndiff_invalid_ops
          else if op_action dlt = Delta_target \<and> op_offset dlt \<ge> tpos then Inl Svndiff_invalid_ops
          else if op_action dlt = Delta_new \<and> op_length dlt > sub64 nlen npos
          then Inl Svndiff_invalid_ops
          else verify_loop dlt p slen tlen nlen (tpos + op_length dlt)
                 (if op_action dlt = Delta_new then npos + op_length dlt else npos) (Suc n))"
  by pat_completeness auto
termination
  by (relation "measure (\<lambda>(dlt, p, _). length p)") (auto dest: decode_instruction_shorter)

declare verify_loop.simps [simp del]

text \<open>An operation variable before anything has been stored in it.\<close>

definition uninit_op :: txdelta_op where "uninit_op = dop Delta_source 0 0"

definition count_and_verify_instructions :: "bytes \<Rightarrow> nat \<Rightarrow> nat \<Rightarrow> nat \<Rightarrow> nat svn_result" where
  "count_and_verify_instructions p slen tlen nlen =
     verify_loop uninit_op p slen tlen nlen 0 0 0"

text \<open>The second pass over the instructions: the operations, the number of source copies, what is
  left of the input. \<open>None\<close>: the instruction pointer has become \<open>NULL\<close>.\<close>

fun decode_ops :: "nat \<Rightarrow> bytes \<Rightarrow> nat \<Rightarrow> (txdelta_op list \<times> nat \<times> bytes) option" where
  "decode_ops 0 data npos = Some ([], 0, data)"
| "decode_ops (Suc ninst) data npos =
     Option.bind (decode_instruction uninit_op data) (\<lambda>(dlt, data).
       let dlt' = (if op_action dlt = Delta_new then dlt\<lparr>op_offset := npos\<rparr> else dlt);
           npos' = (if op_action dlt = Delta_new then npos + op_length dlt else npos)
       in Option.bind (decode_ops ninst data npos') (\<lambda>(ops, src, data).
            Some (dlt' # ops, (if op_action dlt = Delta_source then Suc src else src), data)))"

definition decode_window ::
    "(bytes \<Rightarrow> nat \<Rightarrow> int + bytes) \<Rightarrow> int \<Rightarrow> nat \<Rightarrow> nat \<Rightarrow> nat \<Rightarrow> nat \<Rightarrow> bytes \<Rightarrow> nat
      \<Rightarrow> txdelta_window svn_result" where
  "decode_window uncompress s_offset s_len t_len inslen newlen data version =
     svn_try
       (if version = 1
        then svn_try (zlib_decode uncompress (take newlen (drop inslen data)) SVN_DELTA_WINDOW_SIZE) (\<lambda>ndout.
             svn_try (zlib_decode uncompress (take inslen data) MAX_INSTRUCTION_SECTION_LEN) (\<lambda>instout.
               Inr (ndout, instout)))
        else Inr (take newlen (drop inslen data), take inslen data)) (\<lambda>(ndata, data).
     svn_try (count_and_verify_instructions data s_len t_len (length ndata)) (\<lambda>ninst.
       case decode_ops ninst data 0 of
         None \<Rightarrow> Inl Assertion_fail
       | Some (ops, src, data) \<Rightarrow>
           svn_try (svn_assert (data = [])) (\<lambda>_.
             Inr \<lparr>sview_offset = s_offset, sview_len = s_len, tview_len = t_len, src_ops = src,
                  win_ops = ops, new_data = ndata\<rparr>)))"

text \<open>The five integers at the start of a window.\<close>

definition decode_header :: "bytes \<Rightarrow> ((int \<times> nat \<times> nat \<times> nat \<times> nat) \<times> bytes) option" where
  "decode_header p =
     Option.bind (decode_file_offset p) (\<lambda>(s_offset, p).
     Option.bind (decode_size p) (\<lambda>(s_len, p).
     Option.bind (decode_size p) (\<lambda>(t_len, p).
     Option.bind (decode_size p) (\<lambda>(inslen, p).
     Option.bind (decode_size p) (\<lambda>(newlen, p).
       Some ((s_offset, s_len, t_len, inslen, newlen), p))))))"

text \<open>The size and overflow checks of \<open>write_handler\<close> and \<open>read_window_header\<close>.\<close>

definition header_fits :: "int \<Rightarrow> nat \<Rightarrow> nat \<Rightarrow> nat \<Rightarrow> nat \<Rightarrow> bool" where
  "header_fits s_offset s_len t_len inslen newlen \<longleftrightarrow>
     \<not> (t_len > SVN_DELTA_WINDOW_SIZE \<or> s_len > SVN_DELTA_WINDOW_SIZE
        \<or> newlen > SVN_DELTA_WINDOW_SIZE + MAX_ENCODED_INT_LEN \<or> inslen > MAX_INSTRUCTION_SECTION_LEN)
   \<and> \<not> (s_offset < 0 \<or> (inslen + newlen) mod 2 ^ 64 < inslen \<or> (s_len + t_len) mod 2 ^ 64 < s_len
        \<or> (nat s_offset + s_len) mod 2 ^ 64 < nat s_offset)"

text \<open>\<open>struct decode_baton\<close>, with the state of the window consumer.\<close>

record 's decode_baton =
  db_buffer :: bytes
  db_last_sview_offset :: int
  db_last_sview_len :: nat
  db_header_bytes :: nat
  db_error_on_early_close :: bool
  db_version :: nat
  db_consumer :: 's

definition backward_view :: "int \<Rightarrow> nat \<Rightarrow> int \<Rightarrow> nat \<Rightarrow> bool" where
  "backward_view s_offset s_len last_offset last_len \<longleftrightarrow>
     s_len > 0 \<and> (s_offset < last_offset
       \<or> (nat s_offset + s_len) mod 2 ^ 64 < (nat last_offset + last_len) mod 2 ^ 64)"

lemma decode_header_suffix: "decode_header p = Some (h, r) \<Longrightarrow> \<exists>u. p = u @ r \<and> u \<noteq> []"
  by (auto simp: decode_header_def bind_eq_Some_conv dest!: decode_file_offset_suffix decode_size_suffix)

lemma decode_header_shorter: "decode_header p = Some (h, r) \<Longrightarrow> length r < length p"
  using decode_header_suffix by fastforce

function write_loop ::
    "(bytes \<Rightarrow> nat \<Rightarrow> int + bytes) \<Rightarrow> (txdelta_window option \<Rightarrow> 's \<Rightarrow> 's svn_result)
      \<Rightarrow> 's decode_baton \<Rightarrow> 's decode_baton svn_result" where
  "write_loop uncompress consumer_func db =
     (case decode_header (db_buffer db) of
        None \<Rightarrow> Inr db
      | Some ((s_offset, s_len, t_len, inslen, newlen), p) \<Rightarrow>
          if \<not> header_fits s_offset s_len t_len inslen newlen then Inl Svndiff_corrupt_window
          else if backward_view s_offset s_len (db_last_sview_offset db) (db_last_sview_len db)
          then Inl Svndiff_backward_view
          else if length p < inslen + newlen then Inr db
          else svn_try (decode_window uncompress s_offset s_len t_len inslen newlen p (db_version db)) (\<lambda>window.
               svn_try (consumer_func (Some window) (db_consumer db)) (\<lambda>st.
                 write_loop uncompress consumer_func
                   (db\<lparr>db_buffer := drop (inslen + newlen) p, db_last_sview_offset := s_offset,
                       db_last_sview_len := s_len, db_consumer := st\<rparr>))))"
  by pat_completeness auto
termination
  by (relation "measure (\<lambda>(_, _, db). length (db_buffer db))") (auto dest: decode_header_shorter)

declare write_loop.simps [simp del]

text \<open>
  The first four bytes. \<open>memcmp\<close> compares what has come of the rest of the header with the two
  versions.
\<close>

definition chew_header :: "bytes \<Rightarrow> 's decode_baton \<Rightarrow> ('s decode_baton \<times> bytes) svn_result" where
  "chew_header buffer db =
     (if db_header_bytes db < 4
      then let nheader = (if 4 - db_header_bytes db > length buffer then length buffer else 4 - db_header_bytes db);
               rest = (\<lambda>version. take nheader (drop (db_header_bytes db) (svndiff_header version)))
        in if take nheader buffer = rest 0
           then Inr (db\<lparr>db_version := 0, db_header_bytes := db_header_bytes db + nheader\<rparr>, drop nheader buffer)
           else if take nheader buffer = rest 1
           then Inr (db\<lparr>db_version := 1, db_header_bytes := db_header_bytes db + nheader\<rparr>, drop nheader buffer)
           else Inl Svndiff_invalid_header
      else Inr (db, buffer))"

definition write_handler ::
    "(bytes \<Rightarrow> nat \<Rightarrow> int + bytes) \<Rightarrow> (txdelta_window option \<Rightarrow> 's \<Rightarrow> 's svn_result)
      \<Rightarrow> bytes \<Rightarrow> 's decode_baton \<Rightarrow> 's decode_baton svn_result" where
  "write_handler uncompress consumer_func buffer db =
     svn_try (chew_header buffer db) (\<lambda>(db, buffer).
       write_loop uncompress consumer_func (db\<lparr>db_buffer := db_buffer db @ buffer\<rparr>))"

definition close_handler ::
    "(txdelta_window option \<Rightarrow> 's \<Rightarrow> 's svn_result) \<Rightarrow> 's decode_baton \<Rightarrow> 's svn_result" where
  "close_handler consumer_func db =
     (if db_error_on_early_close db \<and> (db_header_bytes db < 4 \<or> db_buffer db \<noteq> [])
      then Inl Svndiff_unexpected_end
      else consumer_func None (db_consumer db))"

definition svn_txdelta_parse_svndiff :: "'s \<Rightarrow> bool \<Rightarrow> 's decode_baton" where
  "svn_txdelta_parse_svndiff handler_baton error_on_early_close =
     \<lparr>db_buffer = [], db_last_sview_offset = 0, db_last_sview_len = 0, db_header_bytes = 0,
      db_error_on_early_close = error_on_early_close, db_version = 0, db_consumer = handler_baton\<rparr>"

section \<open>Reading one window from a stream\<close>

text \<open>A stream is the list of its bytes still to be read; the end of the input is an error.\<close>

fun read_size_loop :: "64 word \<Rightarrow> bytes \<Rightarrow> (64 word \<times> bytes) svn_result" where
  "read_size_loop sz [] = Inl Svndiff_unexpected_end"
| "read_size_loop sz (c # stream) =
     (let sz = push_bit 7 sz OR ucast (c AND 0x7f) in
      if c AND 0x80 = 0 then Inr (sz, stream) else read_size_loop sz stream)"

definition read_one_size :: "bytes \<Rightarrow> (nat \<times> bytes) svn_result" where
  "read_one_size stream = svn_try (read_size_loop 0 stream) (\<lambda>(v, stream). Inr (unat v, stream))"

definition read_window_header :: "bytes \<Rightarrow> ((int \<times> nat \<times> nat \<times> nat \<times> nat) \<times> bytes) svn_result" where
  "read_window_header stream =
     svn_try (read_size_loop 0 stream) (\<lambda>(v, stream).
     svn_try (read_one_size stream) (\<lambda>(s_len, stream).
     svn_try (read_one_size stream) (\<lambda>(t_len, stream).
     svn_try (read_one_size stream) (\<lambda>(inslen, stream).
     svn_try (read_one_size stream) (\<lambda>(newlen, stream).
       if \<not> header_fits (sint v) s_len t_len inslen newlen then Inl Svndiff_corrupt_window
       else Inr ((sint v, s_len, t_len, inslen, newlen), stream))))))"

definition svn_txdelta_read_svndiff_window ::
    "(bytes \<Rightarrow> nat \<Rightarrow> int + bytes) \<Rightarrow> bytes \<Rightarrow> nat \<Rightarrow> (txdelta_window \<times> bytes) svn_result" where
  "svn_txdelta_read_svndiff_window uncompress stream svndiff_version =
     svn_try (read_window_header stream) (\<lambda>((s_offset, s_len, t_len, inslen, newlen), stream).
       if length stream < inslen + newlen then Inl Svndiff_unexpected_end
       else svn_try (decode_window uncompress s_offset s_len t_len inslen newlen
                (take (inslen + newlen) stream) svndiff_version)
              (\<lambda>window. Inr (window, drop (inslen + newlen) stream)))"

text \<open>Seeking may go past the end of the file.\<close>

definition svn_txdelta_skip_svndiff_window :: "bytes \<Rightarrow> bytes svn_result" where
  "svn_txdelta_skip_svndiff_window stream =
     svn_try (read_window_header stream) (\<lambda>((s_offset, s_len, t_len, inslen, newlen), stream).
       Inr (drop (inslen + newlen) stream))"

end
