(* ===== verification/Svndiff_Codec.thy ===== *)
theory Svndiff_Codec
  imports Svndiff
begin

text \<open>
  The svndiff encoder and decoder are inverse to each other, the decoder does not depend on how its
  input is cut into pieces, and what it hands on is safe to apply. The parsers of the format share
  two interfaces: a parser that can be run on a growing buffer (\<open>incremental\<close>) and a parser
  with the printer it inverts (\<open>codec\<close>); the integers, the offsets, the window header and the
  instructions are instances.
\<close>

unbundle bit_operations_syntax

section \<open>The integer codec\<close>

lemma bit_0x7f: "bit (0x7f :: int) i \<longleftrightarrow> i < 7"
proof -
  have eq: "(0x7f :: int) = mask 7" by (simp add: mask_eq_exp_minus_1)
  show ?thesis unfolding eq bit_mask_iff by simp
qed

lemma encode_byte_data:
  "ucast ((ucast (x AND 0x7f) OR push_bit 7 (if b then 1 else 0) :: byte) AND 0x7f) = (x AND 0x7f :: 64 word)"
  by (rule bit_word_eqI) (auto simp: bit_simps bit_0x7f)

lemma byte_less_0x80: "c < 0x80 \<longleftrightarrow> \<not> bit c 7" for c :: byte
proof -
  have "bit c 7 \<longleftrightarrow> bit (unat c) 7" by (simp add: bit_unsigned_iff)
  then have "bit c 7 \<longleftrightarrow> odd (unat c div 128)" by (simp add: bit_iff_odd)
  moreover have "unat c < 256" using unsigned_less [of c] by simp
  then have "unat c div 128 = 0 \<or> unat c div 128 = 1" by linarith
  ultimately show ?thesis by (auto simp: word_less_nat_alt)
qed

lemma encode_byte_cont:
  "(ucast (x AND 0x7f) OR push_bit 7 (if b then 1 else 0) :: byte) < 0x80 \<longleftrightarrow> \<not> b" for x :: "64 word"
  unfolding byte_less_0x80 by (auto simp: bit_simps bit_0x7f)

lemma shift_in:
  "push_bit 7 (drop_bit (n + 7) v) OR (drop_bit n v AND 0x7f) = drop_bit n v" for v :: "64 word"
  by (rule bit_word_eqI) (auto simp: bit_simps bit_0x7f not_less add.assoc)

lemma decode_encode_bytes:
  assumes "n \<le> k" and "0 < n"
  shows "decode_loop k (drop_bit (n * 7) v) (encode_bytes n v @ r) = Some (v, r)"
  using assms
proof (induction n arbitrary: k)
  case (Suc n)
  obtain j where k: "k = Suc j" using Suc.prems by (cases k) auto
  let ?c = "ucast (drop_bit (n * 7) v AND 0x7f) OR push_bit 7 (if n > 0 then 1 else 0) :: byte"
  have t: "push_bit 7 (drop_bit (Suc n * 7) v) OR ucast (?c AND 0x7f) = drop_bit (n * 7) v"
    unfolding encode_byte_data using shift_in [of "n * 7" v] by (simp add: add.commute)
  have "decode_loop k (drop_bit (Suc n * 7) v) (encode_bytes (Suc n) v @ r)
      = (if n = 0 then Some (drop_bit (n * 7) v, encode_bytes n v @ r)
         else decode_loop j (drop_bit (n * 7) v) (encode_bytes n v @ r))"
    unfolding k encode_bytes.simps append_Cons decode_loop.simps Let_def t encode_byte_cont by auto
  with Suc k show ?case by auto
qed simp

text \<open>The number of bytes: enough for the value, and at most ten.\<close>

lemma encoded_len_loop_spec:
  "n \<le> encoded_len_loop v n \<and> unat v < 2 ^ (7 * (encoded_len_loop v n - n))
   \<and> (\<forall>m. unat v < 2 ^ (7 * m) \<longrightarrow> encoded_len_loop v n \<le> n + m)"
proof (induction v n rule: encoded_len_loop.induct)
  case (1 v n)
  show ?case
  proof (cases "v > 0")
    case False
    then show ?thesis by (simp add: encoded_len_loop.simps [of v n] word_less_nat_alt)
  next
    case True
    let ?m = "encoded_len_loop (drop_bit 7 v) (Suc n)"
    have eq: "encoded_len_loop v n = ?m" using True by (simp add: encoded_len_loop.simps [of v n])
    have IH: "Suc n \<le> ?m" "unat v div 128 < 2 ^ (7 * (?m - Suc n))"
      "\<forall>m. unat v div 128 < 2 ^ (7 * m) \<longrightarrow> ?m \<le> Suc n + m"
      using "1.IH" [OF True] by (auto simp: unat_drop_bit_div)
    have "?m - n = Suc (?m - Suc n)" using IH(1) by simp
    then have "2 ^ (7 * (?m - n)) = (128 :: nat) * 2 ^ (7 * (?m - Suc n))" by (simp add: power_add)
    then have "unat v < 2 ^ (7 * (?m - n))" using IH(2) by (simp add: div_less_iff_less_mult mult.commute)
    moreover have "?m \<le> n + m" if m: "unat v < 2 ^ (7 * m)" for m
    proof (cases m)
      case 0
      with m True show ?thesis by (simp add: word_less_nat_alt)
    next
      case (Suc j)
      then have "unat v div 128 < 2 ^ (7 * j)" using m by (simp add: div_less_iff_less_mult power_add mult.commute)
      with IH(3) Suc show ?thesis by auto
    qed
    ultimately show ?thesis using eq IH(1) by auto
  qed
qed

lemma encoded_len_bounds:
  fixes v :: "64 word"
  defines "n \<equiv> encoded_len_loop (drop_bit 7 v) 1"
  shows "0 < n" and "n \<le> 10" and "drop_bit (n * 7) v = 0"
proof -
  have s: "1 \<le> n" "unat v div 128 < 2 ^ (7 * (n - 1))"
    "\<forall>m. unat v div 128 < 2 ^ (7 * m) \<longrightarrow> n \<le> 1 + m"
    using encoded_len_loop_spec [of 1 "drop_bit 7 v"] by (auto simp: n_def unat_drop_bit_div)
  show "0 < n" using s(1) by simp
  have "unat v < 2 ^ 64" using unsigned_less [of v] by simp
  then have "unat v div 128 < 2 ^ (7 * 9)" by (simp add: div_less_iff_less_mult)
  with s(3) show "n \<le> 10" by fastforce
  have "2 ^ (n * 7) = (128 :: nat) * 2 ^ (7 * (n - 1))"
    using s(1) by (cases n) (simp_all add: power_add mult.commute)
  then have "unat v < 2 ^ (n * 7)" using s(2) by (simp add: div_less_iff_less_mult mult.commute)
  then have "unat (drop_bit (n * 7) v) = 0" by (simp add: unat_drop_bit_div)
  then show "drop_bit (n * 7) v = 0" by (rule unsigned_eq_0_iff [THEN iffD1])
qed

lemma decode_loop_encode: "decode_loop 10 0 (encode_int n @ r) = Some (word_of_nat n, r)"
  using decode_encode_bytes [of "encoded_len_loop (drop_bit 7 (word_of_nat n)) 1" 10 "word_of_nat n" r]
    encoded_len_bounds [of "word_of_nat n"]
  by (simp add: encode_int_def Let_def)

lemma length_encode_bytes [simp]: "length (encode_bytes n v) = n"
  by (induction n) auto

lemma length_encode_int: "0 < length (encode_int n) \<and> length (encode_int n) \<le> 10"
  using encoded_len_bounds [of "word_of_nat n"] by (simp add: encode_int_def Let_def)

lemma encode_int_nonempty [simp]: "encode_int n \<noteq> []"
  using length_encode_int [of n] by fastforce

lemma unat_word64 [simp]: "n < 2 ^ 64 \<Longrightarrow> unat (word_of_nat n :: 64 word) = n"
  by (simp add: unat_of_nat)

lemma sint_word64 [simp]: "n < 2 ^ 63 \<Longrightarrow> sint (word_of_nat n :: 64 word) = int n"
  by (simp add: signed_of_nat signed_take_bit_eq_if_positive take_bit_nat_eq_self bit_iff_odd take_bit_int_eq_self)

lemma decode_size_encode: "n < 2 ^ 64 \<Longrightarrow> decode_size (encode_int n @ r) = Some (n, r)"
  by (simp add: decode_size_def MAX_ENCODED_INT_LEN_def decode_loop_encode)

lemma decode_file_offset_encode: "n < 2 ^ 63 \<Longrightarrow> decode_file_offset (encode_int n @ r) = Some (int n, r)"
  by (simp add: decode_file_offset_def MAX_ENCODED_INT_LEN_def decode_loop_encode)

section \<open>Parsers of a growing buffer\<close>

text \<open>
  What the decoder needs of a parser that is called on the bytes received so far: it consumes
  something, and its answer does not change when more bytes arrive.
\<close>

locale incremental =
  fixes parse :: "bytes \<Rightarrow> ('a \<times> bytes) option"
  assumes parse_consumes: "parse p = Some (v, r) \<Longrightarrow> \<exists>u. p = u @ r \<and> u \<noteq> []"
    and parse_extend: "parse p = Some (v, r) \<Longrightarrow> parse (p @ x) = Some (v, r @ x)"
begin

lemma parse_shorter: "parse p = Some (v, r) \<Longrightarrow> length r < length p"
  using parse_consumes by fastforce

lemma parse_cut:
  "parse (p @ x) = (case parse p of Some (v, r) \<Rightarrow> Some (v, r @ x) | None \<Rightarrow> parse (p @ x))"
  using parse_extend by (auto split: option.splits)

end

text \<open>A parser together with the printer whose output it reads back.\<close>

locale codec = incremental dec
  for dec :: "bytes \<Rightarrow> ('a \<times> bytes) option" +
  fixes enc :: "'a \<Rightarrow> bytes" and ok :: "'a \<Rightarrow> bool"
  assumes dec_enc: "ok v \<Longrightarrow> dec (enc v @ r) = Some (v, r)"
begin

lemma enc_unique: "ok v \<Longrightarrow> ok w \<Longrightarrow> enc v @ r = enc w @ s \<Longrightarrow> v = w \<and> r = s"
  by (metis dec_enc option.inject prod.inject)

lemma enc_nonempty: "ok v \<Longrightarrow> enc v \<noteq> []"
  using parse_shorter [OF dec_enc [of v "[]"]] by auto

lemma enc_prefix_free:
  assumes "ok v" and "k < length (enc v)"
  shows "dec (take k (enc v)) = None"
proof (cases "dec (take k (enc v))")
  case (Some p)
  then have "dec (take k (enc v) @ drop k (enc v)) = Some (fst p, snd p @ drop k (enc v))"
    by (intro parse_extend) simp
  then show ?thesis using dec_enc [OF assms(1), of "[]"] assms(2) by simp
qed simp

end

lemma decode_loop_extend: "decode_loop k t p = Some (v, r) \<Longrightarrow> decode_loop k t (p @ x) = Some (v, r @ x)"
proof (induction k t p rule: decode_loop.induct)
  case (3 k temp c p)
  then show ?case by (cases "c < 0x80") (simp_all only: append_Cons decode_loop.simps Let_def if_True if_False
      option.inject prod.inject simp_thms)
qed simp_all

interpretation size_codec: codec decode_size encode_int "\<lambda>n. n < 2 ^ 64"
proof
  show "\<exists>u. p = u @ r \<and> u \<noteq> []" if "decode_size p = Some (v, r)" for p v r
    using decode_size_suffix that .
  show "decode_size (p @ x) = Some (v, r @ x)" if "decode_size p = Some (v, r)" for p v r x
    using that decode_loop_extend by (fastforce simp: decode_size_def)
qed (rule decode_size_encode)

interpretation offset_codec: codec decode_file_offset "\<lambda>n. encode_int (nat n)" "\<lambda>n. 0 \<le> n \<and> n < 2 ^ 63"
proof
  show "\<exists>u. p = u @ r \<and> u \<noteq> []" if "decode_file_offset p = Some (v, r)" for p v r
    using decode_file_offset_suffix that .
  show "decode_file_offset (p @ x) = Some (v, r @ x)" if "decode_file_offset p = Some (v, r)" for p v r x
    using that decode_loop_extend by (fastforce simp: decode_file_offset_def)
  show "decode_file_offset (encode_int (nat n) @ r) = Some (n, r)" if "0 \<le> n \<and> n < 2 ^ 63" for n r
  proof -
    have "nat n < 2 ^ 63" "int (nat n) = n" using that by auto
    then show ?thesis using decode_file_offset_encode [of "nat n" r] by metis
  qed
qed

interpretation header_parser: incremental decode_header
proof
  show "\<exists>u. p = u @ r \<and> u \<noteq> []" if "decode_header p = Some (v, r)" for p v r
    using decode_header_suffix that .
  show "decode_header (p @ x) = Some (v, r @ x)" if h: "decode_header p = Some (v, r)" for p v r x
  proof -
    obtain so sv tv il nl where v: "v = (so, sv, tv, il, nl)" by (cases v)
    obtain p1 p2 p3 p4 where p: "decode_file_offset p = Some (so, p1)" "decode_size p1 = Some (sv, p2)"
      "decode_size p2 = Some (tv, p3)" "decode_size p3 = Some (il, p4)" "decode_size p4 = Some (nl, r)"
      using h by (auto simp: decode_header_def v)
    show ?thesis
      using offset_codec.parse_extend [OF p(1)] p(2-5) [THEN size_codec.parse_extend]
      by (simp add: decode_header_def v)
  qed
qed

text \<open>An instruction the decoder accepts; the offset of an insertion is not written.\<close>

definition insn_ok :: "txdelta_op \<Rightarrow> bool" where
  "insn_ok dlt \<longleftrightarrow> 0 < op_length dlt \<and> op_length dlt < 2 ^ 64 \<and> op_offset dlt < 2 ^ 64
     \<and> (op_action dlt = Delta_new \<longrightarrow> op_offset dlt = op_offset uninit_op)"

lemma bit_less_exp: "bit (n :: nat) i \<Longrightarrow> n < 2 ^ k \<Longrightarrow> i < k"
proof -
  assume "bit n i" "n < 2 ^ k"
  then have "n div 2 ^ i \<noteq> 0" by (metis bit_iff_odd even_zero)
  then have "2 ^ i \<le> n" by (metis div_less not_less)
  with \<open>n < 2 ^ k\<close> have "(2 :: nat) ^ i < 2 ^ k" by linarith
  then show "i < k" by (rule power_less_imp_less_exp [rotated]) simp
qed

lemma selector_bits:
  fixes a :: byte
  assumes "a < 3" and "n < 64"
  shows "drop_bit 6 (push_bit 6 a OR word_of_nat n) AND 0x3 = a"
    and "unat ((push_bit 6 a OR word_of_nat n) AND 0x3f) = n"
proof -
  have b3: "bit (3 :: int) i \<longleftrightarrow> i < 2" for i
  proof -
    have eq: "(3 :: int) = mask 2" by (simp add: mask_eq_exp_minus_1)
    show ?thesis unfolding eq bit_mask_iff by simp
  qed
  have b63: "bit (63 :: int) i \<longleftrightarrow> i < 6" for i
  proof -
    have eq: "(63 :: int) = mask 6" by (simp add: mask_eq_exp_minus_1)
    show ?thesis unfolding eq bit_mask_iff by simp
  qed
  have ba: "i < 2" if "bit a i" for i
  proof (rule bit_less_exp)
    show "bit (unat a) i" using that by (simp add: bit_unsigned_iff)
    show "unat a < 2 ^ 2" using assms(1) by (simp add: word_less_nat_alt)
  qed
  have bn: "i < 6" if "bit n i" for i
    using bit_less_exp [OF that, of 6] assms(2) by simp
  show "drop_bit 6 (push_bit 6 a OR word_of_nat n) AND 0x3 = a"
    by (rule bit_word_eqI) (use ba bn in \<open>auto simp: bit_simps b3\<close>)
  have "(push_bit 6 a OR word_of_nat n) AND 0x3f = word_of_nat n"
    by (rule bit_word_eqI) (use bn in \<open>auto simp: bit_simps b63\<close>)
  then show "unat ((push_bit 6 a OR word_of_nat n) AND 0x3f) = n"
    using assms(2) by (simp add: unat_of_nat)
qed

lemma decode_selector:
  assumes "n < 64" and "n = 0 \<or> op_length dlt = n" and "0 < op_length dlt" and "op_length dlt < 2 ^ 64"
    and "op_offset dlt < 2 ^ 64"
  shows "decode_instruction d ((push_bit 6 (action_code (op_action dlt)) OR word_of_nat n)
      # (if n = 0 then encode_int (op_length dlt) else [])
      @ (if op_action dlt \<noteq> Delta_new then encode_int (op_offset dlt) else []) @ r)
    = Some (if op_action dlt = Delta_new then dlt\<lparr>op_offset := op_offset d\<rparr> else dlt, r)"
proof -
  let ?a = "action_code (op_action dlt)" and ?c = "push_bit 6 (action_code (op_action dlt)) OR word_of_nat n :: byte"
  have a: "?a < 3" by (simp add: action_code_def split: svn_delta_action.split)
  have sel: "drop_bit 6 ?c AND 0x3 = ?a" "unat (?c AND 0x3f) = n" using selector_bits [OF a assms(1)] by auto
  have code: "(if ?a = 0 then Delta_source else if ?a = 1 then Delta_target else Delta_new) = op_action dlt"
    by (simp add: action_code_def split: svn_delta_action.split)
  let ?rest = "(if op_action dlt \<noteq> Delta_new then encode_int (op_offset dlt) else []) @ r"
  have len: "(if n = 0 then decode_size ((if n = 0 then encode_int (op_length dlt) else []) @ ?rest)
      else Some (n, (if n = 0 then encode_int (op_length dlt) else []) @ ?rest)) = Some (op_length dlt, ?rest)"
    using assms(2) decode_size_encode [OF assms(4)] by auto
  have "\<not> ?a \<ge> 3" using a by simp
  moreover have "op_action dlt \<noteq> Delta_new \<Longrightarrow> decode_size ?rest = Some (op_offset dlt, r)"
    using decode_size_encode [OF assms(5)] by simp
  moreover have "dop (op_action dlt) (op_offset dlt) (op_length dlt) = dlt" by simp
  ultimately show ?thesis
    unfolding decode_instruction_def list.sel Let_def sel code len by (cases dlt) auto
qed

lemma decode_encode_instruction:
  assumes "0 < op_length dlt" and "op_length dlt < 2 ^ 64" and "op_offset dlt < 2 ^ 64"
  shows "decode_instruction d (encode_instruction dlt @ r)
    = Some (if op_action dlt = Delta_new then dlt\<lparr>op_offset := op_offset d\<rparr> else dlt, r)"
proof (cases "op_length dlt < 64")
  case True
  then show ?thesis using decode_selector [OF True _ assms, of d r] assms(1)
    by (simp add: encode_instruction_def Let_def)
next
  case False
  then have "op_length dlt div 64 \<noteq> 0" by (simp add: div_eq_0_iff)
  then have "encode_instruction dlt @ r = (push_bit 6 (action_code (op_action dlt)) OR word_of_nat 0)
      # (if (0 :: nat) = 0 then encode_int (op_length dlt) else [])
      @ (if op_action dlt \<noteq> Delta_new then encode_int (op_offset dlt) else []) @ r"
    by (simp add: encode_instruction_def Let_def)
  then show ?thesis using decode_selector [of 0, OF _ _ assms, of d r] by simp
qed

interpretation insn_codec: codec "decode_instruction uninit_op" encode_instruction insn_ok
proof
  show "\<exists>u. p = u @ r \<and> u \<noteq> []" if "decode_instruction uninit_op p = Some (v, r)" for p v r
    using decode_instruction_suffix that .
  show "decode_instruction uninit_op (p @ x) = Some (v, r @ x)"
    if h: "decode_instruction uninit_op p = Some (v, r)" for p v r x
  proof -
    obtain c q where p: "p = c # q" using h by (cases p) (auto simp: decode_instruction_def)
    let ?a = "drop_bit 6 c AND 0x3" and ?n = "unat (c AND 0x3f)"
    let ?code = "if ?a = 0 then Delta_source else if ?a = 1 then Delta_target else Delta_new"
    have a: "\<not> ?a \<ge> 0x3" using h by (auto simp: decode_instruction_def p Let_def split: if_splits)
    obtain len q1 where q1: "(if ?n = 0 then decode_size q else Some (?n, q)) = Some (len, q1)"
      "(if ?code \<noteq> Delta_new
        then Option.bind (decode_size q1) (\<lambda>(offset, p). Some (dop ?code offset len, p))
        else Some (dop ?code (op_offset uninit_op) len, q1)) = Some (v, r)"
      using h a by (auto simp: decode_instruction_def p Let_def)
    have "(if ?n = 0 then decode_size (q @ x) else Some (?n, q @ x)) = Some (len, q1 @ x)"
      using q1(1) size_codec.parse_extend by (auto split: if_splits)
    moreover have "(if ?code \<noteq> Delta_new
        then Option.bind (decode_size (q1 @ x)) (\<lambda>(offset, p). Some (dop ?code offset len, p))
        else Some (dop ?code (op_offset uninit_op) len, q1 @ x)) = Some (v, r @ x)"
      using q1(2) size_codec.parse_extend by (auto split: if_splits)
    ultimately show ?thesis
      using a unfolding decode_instruction_def p append_Cons list.sel Let_def by simp
  qed
  show "decode_instruction uninit_op (encode_instruction v @ r) = Some (v, r)" if "insn_ok v" for v r
    using that decode_encode_instruction [of v uninit_op r] by (auto simp: insn_ok_def)
qed

section \<open>Verified instructions are valid\<close>

lemma sub64_le: "b \<le> a \<Longrightarrow> a < 2 ^ 64 \<Longrightarrow> sub64 a b = a - b"
  by (simp add: sub64_def nat_diff_distrib')

lemma decode_instruction_offset:
  "decode_instruction d p = Some (v, r) \<Longrightarrow> decode_instruction d' p
     = Some (if op_action v = Delta_new then v\<lparr>op_offset := op_offset d'\<rparr> else v, r)"
  by (auto simp: decode_instruction_def Let_def split: if_splits)

lemma verify_loop_sound:
  assumes "verify_loop d p sv tv nl tpos npos n = Inr m"
    and "sv < 2 ^ 64" and "tv < 2 ^ 64" and "nl < 2 ^ 64" and "tpos \<le> tv" and "npos \<le> nl"
  shows "\<exists>ops. decode_ops (m - n) p npos = Some (ops, count_src ops, []) \<and> n \<le> m
    \<and> ops_ok sv nl tv tpos ops \<and> news_seq npos ops nl \<and> (\<forall>dlt\<in>set ops. 0 < op_length dlt)"
  using assms
proof (induction d p sv tv nl tpos npos n rule: verify_loop.induct)
  case (1 d p sv tv nl tpos npos n)
  show ?case
  proof (cases "p = []")
    case True
    then show ?thesis using "1.prems"(1) unfolding True
      by (auto simp: verify_loop.simps [of d "[]"] count_src_def intro!: exI [of _ "[]"] split: if_splits)
  next
    case False
    then obtain v r where v: "decode_instruction d p = Some (v, r)"
      using "1.prems"(1) by (cases "decode_instruction d p") (auto simp: verify_loop.simps [of d p])
    let ?npos = "if op_action v = Delta_new then npos + op_length v else npos"
    let ?v = "if op_action v = Delta_new then v\<lparr>op_offset := npos\<rparr> else v"
    have c: "op_length v \<noteq> 0" "\<not> op_length v > sub64 tv tpos"
      "\<not> (op_action v = Delta_source \<and> (op_length v > sub64 sv (op_offset v) \<or> op_offset v > sv))"
      "\<not> (op_action v = Delta_target \<and> op_offset v \<ge> tpos)"
      "\<not> (op_action v = Delta_new \<and> op_length v > sub64 nl npos)"
      "verify_loop v r sv tv nl (tpos + op_length v) ?npos (Suc n) = Inr m"
      using "1.prems"(1) False v by (auto simp: verify_loop.simps [of d p] split: if_splits)
    have le: "tpos + op_length v \<le> tv" "?npos \<le> nl"
      "op_action v = Delta_source \<Longrightarrow> op_offset v + op_length v \<le> sv"
      using c(2,3,5) "1.prems"(2-6) sub64_le [of tpos tv] sub64_le [of "op_offset v" sv] sub64_le [of npos nl] by auto
    obtain ops where ops: "decode_ops (m - Suc n) r ?npos = Some (ops, count_src ops, [])" "Suc n \<le> m"
      "ops_ok sv nl tv (tpos + op_length v) ops" "news_seq ?npos ops nl" "\<forall>dlt\<in>set ops. 0 < op_length dlt"
      using "1.IH" [OF False v refl c(1-5) c(6)] "1.prems"(2-4) le(1,2) by blast
    have m: "m - n = Suc (m - Suc n)" using ops(2) by simp
    have uv: "decode_instruction uninit_op p = Some (if op_action v = Delta_new then v\<lparr>op_offset := op_offset uninit_op\<rparr> else v, r)"
      by (rule decode_instruction_offset [OF v])
    have "decode_ops (m - n) p npos = Some (?v # ops, count_src (?v # ops), [])"
      using uv ops(1) unfolding m by (cases "op_action v = Delta_new") (simp_all add: count_src_def Let_def)
    moreover have "op_ok sv nl tpos ?v"
      using c(4) le by (auto simp: op_ok_def split: svn_delta_action.split)
    ultimately show ?thesis using ops c(1) by (intro exI [of _ "?v # ops"]) auto
  qed
qed

text \<open>The instructions of a window as the format can carry them.\<close>

definition ops_codable :: "nat \<Rightarrow> nat \<Rightarrow> nat \<Rightarrow> nat \<Rightarrow> nat \<Rightarrow> txdelta_op list \<Rightarrow> bool" where
  "ops_codable sv nl tv tpos npos ops \<longleftrightarrow>
     sv < 2 ^ 64 \<and> nl < 2 ^ 64 \<and> tv < 2 ^ 64 \<and> ops_ok sv nl tv tpos ops \<and> news_seq npos ops nl
     \<and> (\<forall>dlt\<in>set ops. 0 < op_length dlt)"

lemma ops_codable_ConsD:
  assumes "ops_codable sv nl tv tpos npos (dlt # ops)"
  shows "ops_codable sv nl tv (tpos + op_length dlt)
      (if op_action dlt = Delta_new then npos + op_length dlt else npos) ops"
    and "tpos + op_length dlt \<le> tv" and "0 < op_length dlt" and "op_length dlt < 2 ^ 64" and "op_offset dlt < 2 ^ 64"
    and "op_action dlt = Delta_new \<Longrightarrow> op_offset dlt = npos \<and> npos + op_length dlt \<le> nl"
    and "op_action dlt = Delta_source \<Longrightarrow> op_offset dlt + op_length dlt \<le> sv"
    and "op_action dlt = Delta_target \<Longrightarrow> op_offset dlt < tpos"
proof -
  have s: "sv < 2 ^ 64" "nl < 2 ^ 64" "tv < 2 ^ 64" "op_ok sv nl tpos dlt" "0 < op_length dlt"
    using assms by (auto simp: ops_codable_def)
  show n: "op_action dlt = Delta_new \<Longrightarrow> op_offset dlt = npos \<and> npos + op_length dlt \<le> nl"
    using assms by (auto simp: ops_codable_def dest: news_seq_le)
  show le: "tpos + op_length dlt \<le> tv" using assms by (auto simp: ops_codable_def dest: ops_ok_le)
  show src: "op_action dlt = Delta_source \<Longrightarrow> op_offset dlt + op_length dlt \<le> sv"
    and tgt: "op_action dlt = Delta_target \<Longrightarrow> op_offset dlt < tpos"
    using s(4) by (auto simp: op_ok_def)
  show "ops_codable sv nl tv (tpos + op_length dlt)
      (if op_action dlt = Delta_new then npos + op_length dlt else npos) ops"
    using assms by (auto simp: ops_codable_def)
  show "0 < op_length dlt" by (rule s(5))
  show "op_length dlt < 2 ^ 64" using le s(3) by linarith
  show "op_offset dlt < 2 ^ 64" using n src tgt le s(1-3) by (cases "op_action dlt") auto
qed

lemma decode_ops_encode:
  "ops_codable sv nl tv tpos npos ops \<Longrightarrow>
   decode_ops (length ops) (concat (map encode_instruction ops) @ r) npos = Some (ops, count_src ops, r)"
proof (induction ops arbitrary: tpos npos)
  case Nil
  then show ?case by (simp add: count_src_def)
next
  case (Cons dlt ops)
  note d = ops_codable_ConsD [OF Cons.prems]
  let ?rest = "concat (map encode_instruction ops) @ r"
  have "decode_instruction uninit_op (encode_instruction dlt @ ?rest)
      = Some (if op_action dlt = Delta_new then dlt\<lparr>op_offset := op_offset uninit_op\<rparr> else dlt, ?rest)"
    by (rule decode_encode_instruction [OF d(3-5)])
  moreover have "op_action dlt = Delta_new \<Longrightarrow> dlt\<lparr>op_offset := npos\<rparr> = dlt" using d(6) by simp
  ultimately show ?case using Cons.IH [OF d(1)]
    by (cases "op_action dlt = Delta_new") (simp_all add: count_src_def)
qed

lemma verify_encode:
  "ops_codable sv nl tv tpos npos ops \<Longrightarrow>
   verify_loop d (concat (map encode_instruction ops)) sv tv nl tpos npos n = Inr (n + length ops)"
proof (induction ops arbitrary: d tpos npos n)
  case Nil
  then show ?case by (simp add: verify_loop.simps [of d "[]"] ops_codable_def)
next
  case (Cons dlt ops)
  note c = ops_codable_ConsD [OF Cons.prems]
  let ?rest = "concat (map encode_instruction ops)"
  let ?v = "if op_action dlt = Delta_new then dlt\<lparr>op_offset := op_offset d\<rparr> else dlt"
  have dec: "decode_instruction d (encode_instruction dlt @ ?rest) = Some (?v, ?rest)"
    by (rule decode_encode_instruction [OF c(3-5)])
  then have ne: "encode_instruction dlt @ ?rest \<noteq> []" by (auto simp: decode_instruction_def split: if_splits)
  have b: "sv < 2 ^ 64" "nl < 2 ^ 64" "tv < 2 ^ 64" using Cons.prems by (auto simp: ops_codable_def)
  have s: "\<not> sub64 tv tpos < op_length dlt"
    "op_action dlt = Delta_source \<Longrightarrow> \<not> sub64 sv (op_offset dlt) < op_length dlt \<and> \<not> sv < op_offset dlt"
    "op_action dlt = Delta_new \<Longrightarrow> \<not> sub64 nl npos < op_length dlt"
    using c(2,6,7) b by (auto simp: sub64_le)
  have "verify_loop d (encode_instruction dlt @ ?rest) sv tv nl tpos npos n
      = verify_loop ?v ?rest sv tv nl (tpos + op_length dlt)
          (if op_action dlt = Delta_new then npos + op_length dlt else npos) (Suc n)"
    using ne c(3,8) s unfolding verify_loop.simps [of d "encode_instruction dlt @ ?rest"] dec if_not_P [OF ne]
    by (cases "op_action dlt") simp_all
  then show ?case using Cons.IH [OF c(1)] by simp
qed

lemma verify_concat_encode:
  assumes "ops_codable sv nl tv 0 0 ops"
  shows "count_and_verify_instructions (concat (map encode_instruction ops)) sv tv nl = Inr (length ops)"
    and "decode_ops (length ops) (concat (map encode_instruction ops)) 0 = Some (ops, count_src ops, [])"
  using verify_encode [OF assms, of uninit_op 0] decode_ops_encode [OF assms, of "[]"]
  by (simp_all add: count_and_verify_instructions_def)

section \<open>Compressed sections\<close>

text \<open>
  zlib unpacks what it has packed. The limit is the one the reader of a section knows.
\<close>

definition zlib_ok :: "(bytes \<Rightarrow> int \<Rightarrow> int + bytes) \<Rightarrow> (bytes \<Rightarrow> nat \<Rightarrow> int + bytes) \<Rightarrow> bool" where
  "zlib_ok compress2 uncompress \<longleftrightarrow>
     (\<forall>data level out. compress2 data level = Inr out \<longrightarrow> uncompress out (length data) = Inr data)"

lemma zlib_decode_encode:
  assumes "zlib_ok compress2 uncompress" and "zlib_encode compress2 data level = Inr out"
    and "length data \<le> limit" and "length data < 2 ^ 64"
  shows "zlib_decode uncompress out limit = Inr data"
proof -
  have raw: "zlib_decode uncompress (encode_int (length data) @ data) limit = Inr data"
    using decode_size_encode [OF assms(4), of data] assms(3) by (simp add: zlib_decode_def)
  show ?thesis
  proof (cases "length data < MIN_COMPRESS_SIZE \<or> level = COMPRESSION_LEVEL_NONE")
    case True
    then show ?thesis using assms(2) raw by (auto simp: zlib_encode_def Let_def)
  next
    case False
    then obtain packed where p: "compress2 data level = Inr packed"
      using assms(2) by (cases "compress2 data level") (auto simp: zlib_encode_def Let_def)
    show ?thesis
    proof (cases "length packed \<ge> length data")
      case True
      then show ?thesis using False assms(2) raw p by (auto simp: zlib_encode_def Let_def)
    next
      case short: False
      then have out: "out = encode_int (length data) @ packed"
        using False assms(2) p by (auto simp: zlib_encode_def Let_def)
      have "uncompress packed (length data) = Inr data" using assms(1) p by (simp add: zlib_ok_def)
      then show ?thesis
        using short decode_size_encode [OF assms(4), of packed] assms(3) unfolding out by (simp add: zlib_decode_def)
    qed
  qed
qed

lemma zlib_encode_length:
  "zlib_encode compress2 data level = Inr out \<Longrightarrow> length out \<le> length data + length (encode_int (length data))"
  by (auto simp: zlib_encode_def Let_def split: if_splits sum.splits)

lemma encode_int_length_le:
  assumes "n < 2 ^ (7 * k)" and "0 < k" and "n < 2 ^ 64"
  shows "length (encode_int n) \<le> k"
proof -
  obtain j where k: "k = Suc j" using assms(2) by (cases k) auto
  have "n div 128 < 2 ^ (7 * j)" using assms(1) by (simp add: k div_less_iff_less_mult power_add mult.commute)
  then show ?thesis
    using encoded_len_loop_spec [of 1 "drop_bit 7 (word_of_nat n)"] assms(3)
    by (simp add: encode_int_def Let_def unat_drop_bit_div k)
qed

lemma encode_instruction_length:
  assumes "op_length dlt < 2 ^ 64"
  shows "length (encode_instruction dlt) \<le> MAX_INSTRUCTION_LEN"
  using length_encode_int [of "op_length dlt"] length_encode_int [of "op_offset dlt"]
  by (auto simp: encode_instruction_def Let_def MAX_INSTRUCTION_LEN_def MAX_ENCODED_INT_LEN_def)

section \<open>Windows on the wire\<close>

text \<open>
  The windows the format carries: within the size limits, valid, without empty operations, and
  with the new data taken from front to back.
\<close>

definition wire_window :: "txdelta_window \<Rightarrow> bool" where
  "wire_window w \<longleftrightarrow>
     0 \<le> sview_offset w \<and> sview_offset w < 2 ^ 63 \<and> sview_len w \<le> SVN_DELTA_WINDOW_SIZE
     \<and> tview_len w \<le> SVN_DELTA_WINDOW_SIZE \<and> src_ops w = count_src (win_ops w) \<and> window_ok w
     \<and> news_seq 0 (win_ops w) (length (new_data w)) \<and> (\<forall>dlt\<in>set (win_ops w). 0 < op_length dlt)"

lemma wire_window_codable:
  assumes "wire_window w"
  shows "ops_codable (sview_len w) (length (new_data w)) (tview_len w) 0 0 (win_ops w)"
    and "length (new_data w) \<le> tview_len w"
proof -
  have w: "sview_len w \<le> 102400" "tview_len w \<le> 102400" "news_seq 0 (win_ops w) (length (new_data w))"
    "ops_ok (sview_len w) (length (new_data w)) (tview_len w) 0 (win_ops w)"
    "\<forall>dlt\<in>set (win_ops w). 0 < op_length dlt"
    using assms by (auto simp: wire_window_def window_ok_def SVN_DELTA_WINDOW_SIZE_def)
  show le: "length (new_data w) \<le> tview_len w" using news_seq_bound [OF w(3,4)] by simp
  show "ops_codable (sview_len w) (length (new_data w)) (tview_len w) 0 0 (win_ops w)"
    using w le by (simp add: ops_codable_def)
qed

text \<open>An instruction takes at most seven bytes per byte it produces.\<close>

lemma encode_int_le_3: "n \<le> 102400 \<Longrightarrow> length (encode_int n) \<le> 3"
  using encode_int_length_le [of n 3] by simp

lemma encode_instruction_le_7:
  assumes "op_length dlt \<le> 102400" and "op_offset dlt \<le> 102400"
  shows "length (encode_instruction dlt) \<le> 7"
  using encode_int_le_3 [OF assms(1)] encode_int_le_3 [OF assms(2)]
  by (auto simp: encode_instruction_def Let_def)

lemma instructions_length:
  assumes "ops_codable sv nl tv tpos npos ops" and "sv \<le> 102400" and "nl \<le> 102400" and "tv \<le> 102400"
  shows "length (concat (map encode_instruction ops)) + 7 * tpos \<le> 7 * tv"
  using assms(1)
proof (induction ops arbitrary: tpos npos)
  case Nil
  then show ?case by (simp add: ops_codable_def)
next
  case (Cons dlt ops)
  note c = ops_codable_ConsD [OF Cons.prems]
  have "op_offset dlt \<le> 102400" using c(2,6-8) assms(2-4) by (cases "op_action dlt") auto
  then have "length (encode_instruction dlt) \<le> 7" using encode_instruction_le_7 c(2) assms(4) by simp
  then show ?case using Cons.IH [OF c(1)] c(3) by simp
qed

lemma decode_window_take:
  "inslen + newlen \<le> length p \<Longrightarrow> decode_window uncompress so sv tv inslen newlen (p @ x) version
     = decode_window uncompress so sv tv inslen newlen p version"
  by (simp add: decode_window_def)

text \<open>One window: what the encoder writes, the decoder reads.\<close>

definition decodes_to ::
    "(bytes \<Rightarrow> nat \<Rightarrow> int + bytes) \<Rightarrow> nat \<Rightarrow> txdelta_window \<Rightarrow> bytes \<Rightarrow> bool" where
  "decodes_to uncompress version w out \<longleftrightarrow>
     (\<exists>body inslen newlen.
        (\<forall>r. decode_header (out @ r) = Some ((sview_offset w, sview_len w, tview_len w, inslen, newlen), body @ r))
      \<and> header_fits (sview_offset w) (sview_len w) (tview_len w) inslen newlen
      \<and> length body = inslen + newlen
      \<and> (\<forall>r. decode_window uncompress (sview_offset w) (sview_len w) (tview_len w) inslen newlen (body @ r) version = Inr w))"

lemma decode_header_encode:
  assumes "0 \<le> so" and "so < 2 ^ 63" and "sv < 2 ^ 64" and "tv < 2 ^ 64" and "il < 2 ^ 64" and "nl < 2 ^ 64"
  shows "decode_header (encode_int (nat so) @ encode_int sv @ encode_int tv @ encode_int il @ encode_int nl @ r)
    = Some ((so, sv, tv, il, nl), r)"
  using assms
  by (simp add: decode_header_def offset_codec.dec_enc size_codec.dec_enc)

lemma encode_window_decodes:
  assumes "wire_window w" and "encode_window compress2 version level w = Inr out"
    and "version = 1 \<Longrightarrow> zlib_ok compress2 uncompress"
  shows "decodes_to uncompress version w out"
proof -
  have w: "0 \<le> sview_offset w" "sview_offset w < 2 ^ 63" "sview_len w \<le> 102400" "tview_len w \<le> 102400"
    "src_ops w = count_src (win_ops w)"
    using assms(1) by (auto simp: wire_window_def SVN_DELTA_WINDOW_SIZE_def)
  note cod = wire_window_codable [OF assms(1)]
  have nl: "length (new_data w) \<le> 102400" using cod(2) w(4) by simp
  let ?ins = "concat (map encode_instruction (win_ops w))"
  have il: "length ?ins \<le> 716800" using instructions_length [OF cod(1) w(3) nl w(4)] w(4) by simp
  obtain ins nd where sec: "(if version = 1 then zlib_encode compress2 ?ins level else Inr ?ins) = Inr ins"
    "(if version = 1 then zlib_encode compress2 (new_data w) level else Inr (new_data w)) = Inr nd"
    and out: "out = (encode_int (nat (sview_offset w)) @ encode_int (sview_len w) @ encode_int (tview_len w))
      @ encode_int (length ins) @ encode_int (length nd) @ ins @ nd"
    using assms(2) unfolding encode_window_def Let_def svn_try_Inr_iff by blast
  have lens: "length ins \<le> length ?ins + 10" "length nd \<le> length (new_data w) + 10"
    using sec zlib_encode_length [of compress2 ?ins level ins] zlib_encode_length [of compress2 "new_data w" level nd]
      length_encode_int [of "length ?ins"] length_encode_int [of "length (new_data w)"]
    by (auto split: if_splits)
  have hdr: "decode_header (out @ r) = Some ((sview_offset w, sview_len w, tview_len w, length ins, length nd), (ins @ nd) @ r)" for r
    using decode_header_encode [OF w(1,2), of "sview_len w" "tview_len w" "length ins" "length nd" "ins @ nd @ r"]
      w(3,4) lens il nl by (simp add: out)
  have fits: "header_fits (sview_offset w) (sview_len w) (tview_len w) (length ins) (length nd)"
    using w(1-4) lens il nl
    by (simp add: header_fits_def SVN_DELTA_WINDOW_SIZE_def MAX_ENCODED_INT_LEN_def MAX_INSTRUCTION_SECTION_LEN_def
        MAX_INSTRUCTION_LEN_def)
  have dec: "(if version = 1
        then svn_try (zlib_decode uncompress nd SVN_DELTA_WINDOW_SIZE) (\<lambda>ndout.
             svn_try (zlib_decode uncompress ins MAX_INSTRUCTION_SECTION_LEN) (\<lambda>instout. Inr (ndout, instout)))
        else Inr (nd, ins)) = Inr (new_data w, ?ins)"
  proof (cases "version = 1")
    case True
    have "zlib_decode uncompress nd SVN_DELTA_WINDOW_SIZE = Inr (new_data w)"
      by (rule zlib_decode_encode [of compress2 _ _ level])
        (use True assms(3) sec nl in \<open>simp_all add: SVN_DELTA_WINDOW_SIZE_def\<close>)
    moreover have "zlib_decode uncompress ins MAX_INSTRUCTION_SECTION_LEN = Inr ?ins"
      by (rule zlib_decode_encode [of compress2 _ _ level])
        (use True assms(3) sec il in \<open>simp_all add: MAX_INSTRUCTION_SECTION_LEN_def MAX_INSTRUCTION_LEN_def
          MAX_ENCODED_INT_LEN_def SVN_DELTA_WINDOW_SIZE_def\<close>)
    ultimately show ?thesis using True by simp
  qed (use sec in auto)
  have win: "decode_window uncompress (sview_offset w) (sview_len w) (tview_len w) (length ins) (length nd)
      ((ins @ nd) @ r) version = Inr w" for r
  proof -
    have tk: "take (length nd) (drop (length ins) ((ins @ nd) @ r)) = nd" "take (length ins) ((ins @ nd) @ r) = ins"
      by simp_all
    show ?thesis
      unfolding decode_window_def tk dec using verify_concat_encode [OF cod(1)] w(5) by simp
  qed
  show ?thesis unfolding decodes_to_def
    by (intro exI [of _ "ins @ nd"] exI [of _ "length ins"] exI [of _ "length nd"] conjI allI hdr fits win) simp
qed

lemma encode_int_small:
  assumes "n < 128"
  shows "encode_int n = [word_of_nat n]"
proof -
  let ?v = "word_of_nat n :: 64 word"
  have "unat (drop_bit 7 ?v) = 0" using assms by (simp add: unat_drop_bit_div)
  then have "drop_bit 7 ?v = 0" by (rule unsigned_eq_0_iff [THEN iffD1])
  then have "encode_int n = [ucast (?v AND 0x7f)]"
    by (simp add: encode_int_def encoded_len_loop.simps)
  moreover have "ucast (?v AND 0x7f) = (word_of_nat n :: byte)"
    by (rule bit_word_eqI) (use bit_less_exp [of n _ 7] assms in \<open>auto simp: bit_simps bit_0x7f\<close>)
  ultimately show ?thesis by simp
qed

text \<open>The shortcut for a window that is one insertion writes what the encoder would.\<close>

lemma simple_insertion_spec:
  assumes "wire_window w" and "src_ops w = 0" and "length (win_ops w) = 1"
  shows "send_simple_insertion_window w eb
    = Inr (eb\<lparr>eb_header_done := True,
        eb_output := eb_output eb @ (if eb_header_done eb then [] else svndiff_header (eb_version eb))
          @ encode_int (nat (sview_offset w)) @ encode_int (sview_len w) @ encode_int (tview_len w)
          @ encode_int (length (concat (map encode_instruction (win_ops w)))) @ encode_int (length (new_data w))
          @ concat (map encode_instruction (win_ops w)) @ new_data w\<rparr>)"
proof -
  obtain dlt where ops: "win_ops w = [dlt]" using assms(3) by (auto simp: length_Suc_conv)
  have ok: "op_ok (sview_len w) (length (new_data w)) 0 dlt" "op_length dlt = tview_len w"
    "count_src [dlt] = 0" "news_seq 0 [dlt] (length (new_data w))" "0 < op_length dlt" "tview_len w \<le> 102400"
    using assms by (auto simp: wire_window_def window_ok_def ops SVN_DELTA_WINDOW_SIZE_def)
  then have act: "op_action dlt = Delta_new"
    by (cases "op_action dlt") (auto simp: op_ok_def count_src_def)
  then have off: "op_offset dlt = 0" "length (new_data w) = tview_len w" using ok(2,4) by auto
  have nd: "(if length (new_data w) > 0 then new_data w else []) = new_data w" by auto
  let ?ibuf = "if tview_len w div 2 ^ 6 = 0 then [word_of_nat (tview_len w) + push_bit 6 2]
    else push_bit 6 2 # encode_int (tview_len w) :: bytes"
  have ins: "encode_instruction dlt = ?ibuf"
  proof (cases "tview_len w div 2 ^ 6 = 0")
    case True
    then have lt: "tview_len w < 64" by (simp add: div_eq_0_iff)
    have "push_bit 6 2 OR word_of_nat (tview_len w) = (word_of_nat (tview_len w) + push_bit 6 2 :: byte)"
    proof (subst add.commute, rule disjunctive_add [symmetric])
      have "n < 6" if "bit (word_of_nat (tview_len w) :: byte) n" for n
        using that bit_less_exp [of "tview_len w" n 6] lt by (simp add: bit_simps)
      moreover have "6 \<le> n" if "bit (push_bit 6 2 :: byte) n" for n
        using that unfolding bit_push_bit_iff by blast
      ultimately show "\<not> bit (push_bit 6 2 :: byte) n \<or> \<not> bit (word_of_nat (tview_len w) :: byte) n" for n
        by (meson not_le)
    qed
    then show ?thesis using True act ok(2) by (simp add: encode_instruction_def action_code_def)
  next
    case False
    then show ?thesis using act ok(2) by (simp add: encode_instruction_def action_code_def)
  qed
  have "length ?ibuf \<le> 4" using encode_int_le_3 [OF ok(6)] by auto
  then have one: "encode_int (length ?ibuf) = [word_of_nat (length ?ibuf)]"
    by (intro encode_int_small) simp
  show ?thesis
    unfolding send_simple_insertion_window_def Let_def nd
    using ok(2) act off(1) by (simp add: ops ins one [simplified] del: One_nat_def) 
qed

section \<open>The encoder's output\<close>

definition encode_windows ::
    "(bytes \<Rightarrow> int \<Rightarrow> int + bytes) \<Rightarrow> nat \<Rightarrow> int \<Rightarrow> txdelta_window list \<Rightarrow> bytes list svn_result" where
  "encode_windows compress2 version level ws = traverse (encode_window compress2 version level) ws"

text \<open>A window is written as \<open>encode_window\<close> writes it, after the header when it is the first.\<close>

definition pending_header :: "encoder_baton \<Rightarrow> bytes" where
  "pending_header eb = (if eb_header_done eb then [] else svndiff_header (eb_version eb))"

lemma window_handler_Some:
  assumes "wire_window w" and "window_handler compress2 (Some w) eb = Inr eb'"
  shows "\<exists>out. encode_window compress2 (eb_version eb) (eb_compression_level eb) w = Inr out
    \<and> eb' = eb\<lparr>eb_header_done := True, eb_output := eb_output eb @ pending_header eb @ out\<rparr>"
proof (cases "src_ops w = 0 \<and> length (win_ops w) = 1 \<and> eb_version eb = 0")
  case True
  then show ?thesis
    using assms(2) simple_insertion_spec [OF assms(1), of eb]
    by (auto simp: window_handler_def encode_window_def Let_def pending_header_def)
next
  case False
  then show ?thesis
    using assms(2) by (auto simp: window_handler_def Let_def pending_header_def split: if_splits)
qed

lemma window_handler_None:
  "window_handler compress2 None eb
     = Inr (eb\<lparr>eb_closed := True, eb_header_done := True, eb_output := eb_output eb @ pending_header eb\<rparr>)"
  by (cases eb) (simp add: window_handler_def Let_def pending_header_def)

lemma encoder_output:
  assumes "\<forall>w\<in>set ws. wire_window w"
    and "fold_result (window_handler compress2) (map Some ws @ [None]) eb = Inr eb'"
  shows "\<exists>outs. encode_windows compress2 (eb_version eb) (eb_compression_level eb) ws = Inr outs
    \<and> eb_closed eb' \<and> eb_output eb' = eb_output eb @ pending_header eb @ concat outs"
  using assms
proof (induction ws arbitrary: eb)
  case Nil
  then show ?case by (auto simp: window_handler_None encode_windows_def)
next
  case (Cons w ws)
  obtain eb1 where eb1: "window_handler compress2 (Some w) eb = Inr eb1"
    "fold_result (window_handler compress2) (map Some ws @ [None]) eb1 = Inr eb'"
    using Cons.prems(2) by auto
  obtain out where out: "encode_window compress2 (eb_version eb) (eb_compression_level eb) w = Inr out"
    "eb1 = eb\<lparr>eb_header_done := True, eb_output := eb_output eb @ pending_header eb @ out\<rparr>"
    using window_handler_Some [OF _ eb1(1)] Cons.prems(1) by auto
  obtain outs where "encode_windows compress2 (eb_version eb1) (eb_compression_level eb1) ws = Inr outs"
    "eb_closed eb'" "eb_output eb' = eb_output eb1 @ pending_header eb1 @ concat outs"
    using Cons.IH [OF _ eb1(2)] Cons.prems(1) by auto
  with out show ?case by (intro exI [of _ "out # outs"]) (simp add: encode_windows_def pending_header_def)
qed

section \<open>The decoder on the encoder's output\<close>

text \<open>The source views do not slide back, as the decoder sees them.\<close>

fun views_forward :: "int \<Rightarrow> nat \<Rightarrow> txdelta_window list \<Rightarrow> bool" where
  "views_forward off len [] \<longleftrightarrow> True"
| "views_forward off len (w # ws) \<longleftrightarrow>
     \<not> backward_view (sview_offset w) (sview_len w) off len \<and> views_forward (sview_offset w) (sview_len w) ws"

lemma write_loop_Some:
  assumes "decodes_to uncompress (db_version db) w out"
    and "\<not> backward_view (sview_offset w) (sview_len w) (db_last_sview_offset db) (db_last_sview_len db)"
    and "db_buffer db = out @ r"
  shows "write_loop uncompress cons db = svn_try (cons (Some w) (db_consumer db)) (\<lambda>st.
    write_loop uncompress cons (db\<lparr>db_buffer := r, db_last_sview_offset := sview_offset w,
      db_last_sview_len := sview_len w, db_consumer := st\<rparr>))"
proof -
  obtain body il nl where d:
    "decode_header (out @ r) = Some ((sview_offset w, sview_len w, tview_len w, il, nl), body @ r)"
    "header_fits (sview_offset w) (sview_len w) (tview_len w) il nl" "length body = il + nl"
    "decode_window uncompress (sview_offset w) (sview_len w) (tview_len w) il nl (body @ r) (db_version db) = Inr w"
    using assms(1) unfolding decodes_to_def by blast
  have "drop (il + nl) (body @ r) = r" "\<not> length (body @ r) < il + nl" using d(3) by simp_all
  then show ?thesis
    using assms(2,3) d(1,2,4) by (simp add: write_loop.simps [of uncompress cons db])
qed

lemma write_loop_windows:
  assumes "list_all2 (decodes_to uncompress (db_version db)) ws outs"
    and "views_forward (db_last_sview_offset db) (db_last_sview_len db) ws" and "db_buffer db = concat outs"
  shows "svn_try (write_loop uncompress cons db) (\<lambda>db'. Inr (db_buffer db', db_header_bytes db', db_consumer db'))
    = svn_try (fold_result cons (map Some ws) (db_consumer db)) (\<lambda>st. Inr ([], db_header_bytes db, st))"
  using assms
proof (induction ws outs arbitrary: db rule: list_induct2')
  case 1
  have "decode_header [] = None" by (simp add: decode_header_def decode_file_offset_def MAX_ENCODED_INT_LEN_def numeral_eq_Suc)
  with 1 show ?case by (simp add: write_loop.simps [of uncompress cons db])
next
  case (4 w ws out outs)
  have "write_loop uncompress cons db = svn_try (cons (Some w) (db_consumer db)) (\<lambda>st.
    write_loop uncompress cons (db\<lparr>db_buffer := concat outs, db_last_sview_offset := sview_offset w,
      db_last_sview_len := sview_len w, db_consumer := st\<rparr>))"
    by (rule write_loop_Some) (use 4 in auto)
  then show ?case
    using 4 by (cases "cons (Some w) (db_consumer db)") auto
qed auto

section \<open>Feeding the decoder in pieces\<close>

lemma write_loop_append:
  "write_loop uncompress cons (db\<lparr>db_buffer := db_buffer db @ x\<rparr>)
     = svn_try (write_loop uncompress cons db) (\<lambda>db'. write_loop uncompress cons (db'\<lparr>db_buffer := db_buffer db' @ x\<rparr>))"
proof (induction uncompress cons db rule: write_loop.induct)
  case (1 uncompress cons db)
  show ?case
  proof (cases "decode_header (db_buffer db)")
    case None
    then show ?thesis by (simp add: write_loop.simps [of uncompress cons db])
  next
    case (Some h)
    obtain so sv tv il nl p where h: "h = ((so, sv, tv, il, nl), p)" by (cases h) auto
    have hx: "decode_header (db_buffer db @ x) = Some ((so, sv, tv, il, nl), p @ x)"
      using header_parser.parse_extend Some h by simp
    let ?dbx = "db\<lparr>db_buffer := db_buffer db @ x\<rparr>"
    show ?thesis
    proof (cases "header_fits so sv tv il nl \<and> \<not> backward_view so sv (db_last_sview_offset db) (db_last_sview_len db)
        \<and> \<not> length p < il + nl")
      case False
      then show ?thesis
        using Some h hx by (auto simp: write_loop.simps [of uncompress cons db] write_loop.simps [of uncompress cons ?dbx])
    next
      case True
      let ?next = "\<lambda>db q st. db\<lparr>db_buffer := drop (il + nl) q, db_last_sview_offset := so, db_last_sview_len := sv,
        db_consumer := st\<rparr>"
      let ?win = "decode_window uncompress so sv tv il nl p (db_version db)"
      have winx: "decode_window uncompress so sv tv il nl (p @ x) (db_version db) = ?win"
        using decode_window_take True by simp
      have eq: "write_loop uncompress cons db = svn_try ?win (\<lambda>w. svn_try (cons (Some w) (db_consumer db)) (\<lambda>st.
          write_loop uncompress cons (?next db p st)))"
        using True Some h by (simp add: write_loop.simps [of uncompress cons db])
      have eqx: "write_loop uncompress cons ?dbx = svn_try ?win (\<lambda>w. svn_try (cons (Some w) (db_consumer db)) (\<lambda>st.
          write_loop uncompress cons (?next ?dbx (p @ x) st)))"
        using True hx winx by (simp add: write_loop.simps [of uncompress cons ?dbx])
      have nx: "?next ?dbx (p @ x) st = (?next db p st)\<lparr>db_buffer := db_buffer (?next db p st) @ x\<rparr>" for st
        using True by simp
      show ?thesis
      proof (cases ?win)
        case (Inl e)
        then show ?thesis by (simp add: eq eqx)
      next
        case win: (Inr w)
        show ?thesis
        proof (cases "cons (Some w) (db_consumer db)")
          case (Inl e)
          then show ?thesis by (simp add: eq eqx win)
        next
          case (Inr st)
          have IH: "write_loop uncompress cons ((?next db p st)\<lparr>db_buffer := db_buffer (?next db p st) @ x\<rparr>)
              = svn_try (write_loop uncompress cons (?next db p st))
                  (\<lambda>db'. write_loop uncompress cons (db'\<lparr>db_buffer := db_buffer db' @ x\<rparr>))"
            by (rule "1.IH" [OF Some h [symmetric] refl refl refl refl _ _ _ win Inr]) (use True in simp_all)
          show ?thesis unfolding eq eqx win svn_try.simps Inr nx using IH .
        qed
      qed
    qed
  qed
qed

text \<open>The header arrives first; nothing is buffered before it is complete.\<close>

definition db_inv :: "'s decode_baton \<Rightarrow> bool" where
  "db_inv db \<longleftrightarrow> db_header_bytes db \<le> 4 \<and> (db_header_bytes db < 4 \<longrightarrow> db_buffer db = [])"

lemma header_prefix: "n + k \<le> 3 \<Longrightarrow> take n (drop k (svndiff_header v)) = take n (drop k (svndiff_header 0))"
proof -
  obtain pre where h: "length pre = 3" "\<And>v. svndiff_header v = pre @ [word_of_nat v]"
    by (rule that [of "[0x53, 0x56, 0x4E]"]) (simp_all add: svndiff_header_def)
  assume "n + k \<le> 3"
  then show ?thesis unfolding h(2) take_drop using h(1) by (simp add: add.commute)
qed

lemma write_loop_header_bytes:
  "write_loop uncompress cons db = Inr db' \<Longrightarrow> db_header_bytes db' = db_header_bytes db"
proof (induction uncompress cons db rule: write_loop.induct)
  case (1 uncompress cons db)
  show ?case
  proof (cases "decode_header (db_buffer db)")
    case None
    then show ?thesis using "1.prems" by (simp add: write_loop.simps [of uncompress cons db])
  next
    case (Some h)
    obtain so sv tv il nl p where h: "h = ((so, sv, tv, il, nl), p)" by (cases h) auto
    show ?thesis
    proof (cases "header_fits so sv tv il nl \<and> \<not> backward_view so sv (db_last_sview_offset db) (db_last_sview_len db)
        \<and> \<not> length p < il + nl")
      case False
      then show ?thesis
        using "1.prems" Some h by (auto simp: write_loop.simps [of uncompress cons db] split: if_splits)
    next
      case True
      then obtain w st where w: "decode_window uncompress so sv tv il nl p (db_version db) = Inr w"
        "cons (Some w) (db_consumer db) = Inr st"
        "write_loop uncompress cons (db\<lparr>db_buffer := drop (il + nl) p, db_last_sview_offset := so,
          db_last_sview_len := sv, db_consumer := st\<rparr>) = Inr db'"
        using "1.prems" Some h by (auto simp: write_loop.simps [of uncompress cons db])
      have "db_header_bytes db' = db_header_bytes (db\<lparr>db_buffer := drop (il + nl) p, db_last_sview_offset := so,
          db_last_sview_len := sv, db_consumer := st\<rparr>)"
        by (rule "1.IH" [OF Some h [symmetric] refl refl refl refl _ _ _ w(1,2,3)]) (use True in simp_all)
      then show ?thesis by simp
    qed
  qed
qed

lemma decode_header_Nil [simp]: "decode_header [] = None"
  by (simp add: decode_header_def decode_file_offset_def MAX_ENCODED_INT_LEN_def numeral_eq_Suc)

lemma write_loop_Nil: "db_buffer db = [] \<Longrightarrow> write_loop uncompress cons db = Inr db"
  by (simp add: write_loop.simps [of uncompress cons db])

lemma chew_header_done: "4 \<le> db_header_bytes db \<Longrightarrow> chew_header buffer db = Inr (db, buffer)"
  by (simp add: chew_header_def)

lemma write_handler_done:
  assumes "4 \<le> db_header_bytes db"
  shows "write_handler uncompress cons (a @ b) db
    = svn_try (write_handler uncompress cons a db) (write_handler uncompress cons b)"
proof -
  have done_: "write_handler uncompress cons x db' = write_loop uncompress cons (db'\<lparr>db_buffer := db_buffer db' @ x\<rparr>)"
    if "4 \<le> db_header_bytes db'" for x db'
    using that by (simp add: write_handler_def chew_header_done)
  have "svn_try (write_handler uncompress cons a db) (write_handler uncompress cons b)
      = svn_try (write_loop uncompress cons (db\<lparr>db_buffer := db_buffer db @ a\<rparr>))
          (\<lambda>db'. write_loop uncompress cons (db'\<lparr>db_buffer := db_buffer db' @ b\<rparr>))"
    unfolding done_ [OF assms] using write_loop_header_bytes [of uncompress cons "db\<lparr>db_buffer := db_buffer db @ a\<rparr>"] assms
    by (intro svn_try_cong refl done_) fastforce
  then show ?thesis
    using write_loop_append [of uncompress cons "db\<lparr>db_buffer := db_buffer db @ a\<rparr>" b] by (simp add: done_ [OF assms])
qed

lemma chew_header_short:
  assumes "db_header_bytes db + length a < 4"
  shows "chew_header a db = (if a = take (length a) (drop (db_header_bytes db) (svndiff_header 0))
    then Inr (db\<lparr>db_version := 0, db_header_bytes := db_header_bytes db + length a\<rparr>, [])
    else Inl Svndiff_invalid_header)"
proof -
  have "length a < 4 - db_header_bytes db" "db_header_bytes db < 4" using assms by linarith+
  then show ?thesis
    using assms header_prefix [of "length a" "db_header_bytes db" "Suc 0"] by (simp add: chew_header_def Let_def)
qed

lemma chew_header_long:
  assumes "db_header_bytes db < 4" and "4 \<le> db_header_bytes db + length a"
  shows "chew_header a db = (let n = 4 - db_header_bytes db; rest = (\<lambda>v. take n (drop (db_header_bytes db) (svndiff_header v))) in
    if take n a = rest 0 then Inr (db\<lparr>db_version := 0, db_header_bytes := 4\<rparr>, drop n a)
    else if take n a = rest 1 then Inr (db\<lparr>db_version := 1, db_header_bytes := 4\<rparr>, drop n a)
    else Inl Svndiff_invalid_header)"
proof -
  have "(if 4 - db_header_bytes db > length a then length a else 4 - db_header_bytes db) = 4 - db_header_bytes db"
    "db_header_bytes db + (4 - db_header_bytes db) = 4"
    using assms by arith+
  then show ?thesis using assms(1) by (simp only: chew_header_def Let_def if_True)
qed

lemma chew_header_split:
  assumes "db_header_bytes db + length a < 4"
  shows "chew_header (a @ b) db = svn_try (chew_header a db) (\<lambda>(db', _). chew_header b db')"
proof -
  let ?k = "db_header_bytes db" and ?n = "min (4 - db_header_bytes db) (length a + length b)"
  let ?m = "min (4 - (db_header_bytes db + length a)) (length b)"
  have n: "?n = length a + ?m" using assms by (auto simp: min_def)
  have tk: "take ?n (a @ b) = a @ take ?m b" "drop ?n (a @ b) = drop ?m b" unfolding n by simp_all
  have rest: "take ?n (drop ?k (svndiff_header v))
      = take (length a) (drop ?k (svndiff_header 0)) @ take ?m (drop (?k + length a) (svndiff_header v))" for v
    unfolding n take_add using header_prefix [of "length a" ?k v] assms by (simp add: add.commute)
  have chew: "chew_header x db' = (let nh = min (4 - db_header_bytes db') (length x);
      rest = (\<lambda>v. take nh (drop (db_header_bytes db') (svndiff_header v))) in
      if take nh x = rest 0 then Inr (db'\<lparr>db_version := 0, db_header_bytes := db_header_bytes db' + nh\<rparr>, drop nh x)
      else if take nh x = rest 1 then Inr (db'\<lparr>db_version := 1, db_header_bytes := db_header_bytes db' + nh\<rparr>, drop nh x)
      else Inl Svndiff_invalid_header)" if "db_header_bytes db' < 4" for x and db' :: "'a decode_baton"
    using that by (simp add: chew_header_def Let_def min_def)
  have la: "length (take (length a) (drop ?k (svndiff_header 0))) = length a"
    using assms by (simp add: svndiff_header_def)
  let ?db = "db\<lparr>db_version := 0, db_header_bytes := ?k + length a\<rparr>"
  have k: "db_header_bytes db < 4" "db_header_bytes ?db < 4" using assms by simp_all
  have whole: "chew_header (a @ b) db
      = (if a = take (length a) (drop ?k (svndiff_header 0)) then chew_header b ?db else Inl Svndiff_invalid_header)"
    unfolding chew [OF k(1)] chew [OF k(2)] Let_def length_append tk rest append_eq_append_conv [OF disjI1, OF la [symmetric]]
    by (simp add: n add.assoc)
  show ?thesis unfolding whole chew_header_short [OF assms] by simp
qed

lemma write_handler_append:
  assumes "db_inv db"
  shows "write_handler uncompress cons (a @ b) db
    = svn_try (write_handler uncompress cons a db) (write_handler uncompress cons b)"
proof (cases "4 \<le> db_header_bytes db")
  case False
  then have buf: "db_buffer db = []" using assms by (simp add: db_inv_def)
  then have upd: "db\<lparr>db_version := v, db_header_bytes := h, db_buffer := []\<rparr> = db\<lparr>db_version := v, db_header_bytes := h\<rparr>"
    for v h by (cases db) simp
  show ?thesis
  proof (cases "db_header_bytes db + length a < 4")
    case True
    show ?thesis
      using chew_header_split [OF True, of b] chew_header_short [OF True] buf
      by (auto simp: write_handler_def write_loop_Nil upd)
  next
    case long: False
    let ?n = "4 - db_header_bytes db"
    have n: "take ?n (a @ b) = take ?n a" "drop ?n (a @ b) = drop ?n a @ b" using long by simp_all
    have "chew_header (a @ b) db = Inl Svndiff_invalid_header \<and> chew_header a db = Inl Svndiff_invalid_header
      \<or> (\<exists>v. chew_header a db = Inr (db\<lparr>db_version := v, db_header_bytes := 4\<rparr>, drop ?n a)
          \<and> chew_header (a @ b) db = Inr (db\<lparr>db_version := v, db_header_bytes := 4\<rparr>, drop ?n a @ b))"
      using chew_header_long [of db a] chew_header_long [of db "a @ b"] False long
      by (auto simp: Let_def n split: if_splits)
    then show ?thesis
    proof (elim disjE conjE exE)
      fix v
      assume c: "chew_header a db = Inr (db\<lparr>db_version := v, db_header_bytes := 4\<rparr>, drop ?n a)"
        "chew_header (a @ b) db = Inr (db\<lparr>db_version := v, db_header_bytes := 4\<rparr>, drop ?n a @ b)"
      let ?db = "db\<lparr>db_version := v, db_header_bytes := 4\<rparr>"
      have "write_handler uncompress cons x ?db = write_loop uncompress cons (?db\<lparr>db_buffer := db_buffer ?db @ x\<rparr>)" for x
        by (simp add: write_handler_def chew_header_done)
      then show ?thesis
        using write_handler_done [of ?db uncompress cons "drop ?n a" b] c by (simp add: write_handler_def)
    qed (simp add: write_handler_def)
  qed
qed (rule write_handler_done)

lemma write_handler_inv:
  assumes "db_inv db" and "write_handler uncompress cons a db = Inr db'"
  shows "db_inv db'"
proof (cases "4 \<le> db_header_bytes db")
  case True
  then show ?thesis
    using assms write_loop_header_bytes by (fastforce simp: write_handler_def chew_header_done db_inv_def)
next
  case False
  then have buf: "db_buffer db = []" using assms(1) by (simp add: db_inv_def)
  show ?thesis
  proof (cases "db_header_bytes db + length a < 4")
    case True
    then show ?thesis using assms(2) chew_header_short [OF True] buf
      by (auto simp: write_handler_def write_loop_Nil db_inv_def split: if_splits)
  next
    case long: False
    then obtain db1 x where "chew_header a db = Inr (db1, x)" "db_header_bytes db1 = 4"
      using assms(2) False by (auto simp: write_handler_def chew_header_def Let_def split: if_splits)
    then show ?thesis using assms(2) write_loop_header_bytes by (fastforce simp: write_handler_def db_inv_def)
  qed
qed

lemma write_handler_chunks:
  assumes "db_inv db"
  shows "fold_result (write_handler uncompress cons) (chunk # chunks) db
    = write_handler uncompress cons (concat (chunk # chunks)) db"
  using assms
proof (induction chunks arbitrary: chunk db)
  case Nil
  then show ?case by (cases "write_handler uncompress cons chunk db") simp_all
next
  case (Cons c chunks)
  show ?case
  proof (cases "write_handler uncompress cons chunk db")
    case (Inl e)
    then show ?thesis using write_handler_append [OF Cons.prems, of uncompress cons chunk "concat (c # chunks)"] by simp
  next
    case (Inr db')
    then show ?thesis
      using write_handler_append [OF Cons.prems, of uncompress cons chunk "concat (c # chunks)"]
        Cons.IH [OF write_handler_inv [OF Cons.prems Inr]] by simp
  qed
qed

section \<open>What the decoder accepts\<close>

lemma zlib_decode_length: "zlib_decode uncompress inp limit = Inr out \<Longrightarrow> length out \<le> limit"
  by (auto simp: zlib_decode_def split: option.splits if_splits sum.splits)

lemma decode_header_bounds:
  assumes "decode_header p = Some ((so, sv, tv, il, nl), r)"
  shows "so < 2 ^ 63" and "sv < 2 ^ 64" and "tv < 2 ^ 64" and "il < 2 ^ 64" and "nl < 2 ^ 64"
proof -
  have off: "v < 2 ^ 63" if "decode_file_offset p = Some (v, r)" for p v r
  proof -
    obtain x :: "64 word" where "v = sint x" using \<open>decode_file_offset p = Some (v, r)\<close> by (auto simp: decode_file_offset_def)
    then show ?thesis using sint_lt [of x] by simp
  qed
  have sz: "v < 2 ^ 64" if "decode_size p = Some (v, r)" for p v r
  proof -
    obtain x :: "64 word" where "v = unat x" using \<open>decode_size p = Some (v, r)\<close> by (auto simp: decode_size_def)
    then show ?thesis using unsigned_less [of x] by simp
  qed
  show "so < 2 ^ 63" "sv < 2 ^ 64" "tv < 2 ^ 64" "il < 2 ^ 64" "nl < 2 ^ 64"
    using assms off sz unfolding decode_header_def bind_Some_iff by fastforce+
qed

lemma decode_window_wire:
  assumes "decode_window uncompress so sv tv il nl p version = Inr w"
    and "header_fits so sv tv il nl" and "so < 2 ^ 63"
  shows "wire_window w \<and> sview_offset w = so \<and> sview_len w = sv \<and> tview_len w = tv"
proof -
  have b: "0 \<le> so" "sv \<le> 102400" "tv \<le> 102400" "nl \<le> 102410"
    using assms(2) by (auto simp: header_fits_def SVN_DELTA_WINDOW_SIZE_def MAX_ENCODED_INT_LEN_def)
  obtain ndata data where sec: "(if version = 1
       then svn_try (zlib_decode uncompress (take nl (drop il p)) SVN_DELTA_WINDOW_SIZE) (\<lambda>ndout.
             svn_try (zlib_decode uncompress (take il p) MAX_INSTRUCTION_SECTION_LEN) (\<lambda>instout.
               Inr (ndout, instout)))
        else Inr (take nl (drop il p), take il p)) = Inr (ndata, data)"
    and rest: "svn_try (count_and_verify_instructions data sv tv (length ndata)) (\<lambda>ninst.
       case decode_ops ninst data 0 of
         None \<Rightarrow> Inl Assertion_fail
       | Some (ops, src, data) \<Rightarrow>
           svn_try (svn_assert (data = [])) (\<lambda>_.
             Inr \<lparr>sview_offset = so, sview_len = sv, tview_len = tv, src_ops = src,
                  win_ops = ops, new_data = ndata\<rparr>)) = Inr w"
    using assms(1) by (auto simp only: decode_window_def svn_try_Inr_iff prod.case)
  have "length ndata \<le> 102410"
    using sec zlib_decode_length [of uncompress _ SVN_DELTA_WINDOW_SIZE ndata] b(4)
    by (fastforce simp: SVN_DELTA_WINDOW_SIZE_def split: if_splits)
  moreover obtain n where n: "verify_loop uninit_op data sv tv (length ndata) 0 0 0 = Inr n"
    using rest by (auto simp: count_and_verify_instructions_def)
  ultimately obtain ops where ops: "decode_ops n data 0 = Some (ops, count_src ops, [])"
    "ops_ok sv (length ndata) tv 0 ops" "news_seq 0 ops (length ndata)" "\<forall>dlt\<in>set ops. 0 < op_length dlt"
    using verify_loop_sound [OF n] b by auto
  have "w = \<lparr>sview_offset = so, sview_len = sv, tview_len = tv, src_ops = count_src ops, win_ops = ops, new_data = ndata\<rparr>"
    using rest n ops(1) by (simp add: count_and_verify_instructions_def)
  then show ?thesis using b ops assms(3) by (simp add: wire_window_def window_ok_def SVN_DELTA_WINDOW_SIZE_def)
qed

text \<open>The consumer only ever sees windows of the wire format.\<close>

lemma write_loop_invariant:
  assumes "\<And>w s s'. P s \<Longrightarrow> wire_window w \<Longrightarrow> cons (Some w) s = Inr s' \<Longrightarrow> P s'"
    and "P (db_consumer db)" and "write_loop uncompress cons db = Inr db'"
  shows "P (db_consumer db')"
  using assms
proof (induction uncompress cons db rule: write_loop.induct)
  case (1 uncompress cons db)
  show ?case
  proof (cases "decode_header (db_buffer db)")
    case None
    then show ?thesis using "1.prems" by (simp add: write_loop.simps [of uncompress cons db])
  next
    case (Some h)
    obtain so sv tv il nl p where h: "h = ((so, sv, tv, il, nl), p)" by (cases h) auto
    show ?thesis
    proof (cases "header_fits so sv tv il nl \<and> \<not> backward_view so sv (db_last_sview_offset db) (db_last_sview_len db)
        \<and> \<not> length p < il + nl")
      case False
      then show ?thesis
        using "1.prems"(2,3) Some h by (auto simp: write_loop.simps [of uncompress cons db] split: if_splits)
    next
      case True
      then obtain w st where w: "decode_window uncompress so sv tv il nl p (db_version db) = Inr w"
        "cons (Some w) (db_consumer db) = Inr st"
        "write_loop uncompress cons (db\<lparr>db_buffer := drop (il + nl) p, db_last_sview_offset := so,
          db_last_sview_len := sv, db_consumer := st\<rparr>) = Inr db'"
        using "1.prems"(3) Some h by (auto simp: write_loop.simps [of uncompress cons db])
      have "wire_window w"
        using decode_window_wire [OF w(1)] True decode_header_bounds(1) Some h by blast
      then have "P st" by (rule "1.prems"(1) [OF "1.prems"(2) _ w(2)])
      show ?thesis
        by (rule "1.IH" [OF Some h [symmetric] refl refl refl refl _ _ _ w(1,2) "1.prems"(1) _ w(3)])
          (use True \<open>P st\<close> in simp_all)
    qed
  qed
qed

lemma chew_header_consumer: "chew_header x db = Inr (db', y) \<Longrightarrow> db_consumer db' = db_consumer db"
  by (auto simp: chew_header_def Let_def split: if_splits)

lemma write_handler_invariant:
  assumes "\<And>w s s'. P s \<Longrightarrow> wire_window w \<Longrightarrow> cons (Some w) s = Inr s' \<Longrightarrow> P s'"
    and "P (db_consumer db)" and "write_handler uncompress cons chunk db = Inr db'"
  shows "P (db_consumer db')"
proof -
  obtain db1 rest where c: "chew_header chunk db = Inr (db1, rest)"
    "write_loop uncompress cons (db1\<lparr>db_buffer := db_buffer db1 @ rest\<rparr>) = Inr db'"
    using assms(3) by (auto simp: write_handler_def)
  show ?thesis
    by (rule write_loop_invariant [where P = P, OF assms(1) _ c(2)]) (use chew_header_consumer [OF c(1)] assms(2) in simp_all)
qed

lemma decoder_invariant:
  assumes "\<And>w s s'. P s \<Longrightarrow> wire_window w \<Longrightarrow> cons (Some w) s = Inr s' \<Longrightarrow> P s'"
    and "P (db_consumer db)" and "fold_result (write_handler uncompress cons) chunks db = Inr db'"
  shows "P (db_consumer db')"
  using assms(2,3)
proof (induction chunks arbitrary: db)
  case (Cons c chunks)
  then obtain db1 where "write_handler uncompress cons c db = Inr db1"
    "fold_result (write_handler uncompress cons) chunks db1 = Inr db'" by auto
  moreover from this(1) have "P (db_consumer db1)"
    by (rule write_handler_invariant [where P = P, rotated 2]) (use assms(1) Cons.prems(1) in blast)+
  ultimately show ?case using Cons.IH by blast
qed simp

section \<open>Reading windows one by one\<close>

lemma byte_bit7: "c AND 0x80 = 0 \<longleftrightarrow> c < 0x80" for c :: byte
proof -
  have exp: "(0x80 :: byte) = 2 ^ 7" by simp
  show ?thesis unfolding byte_less_0x80 unfolding exp by (simp only: and_exp_eq_0_iff_not_bit)
qed

lemma read_size_loop_decode: "decode_loop k t p = Some (v, r) \<Longrightarrow> read_size_loop t p = Inr (v, r)"
  by (induction k t p rule: decode_loop.induct) (auto simp: byte_bit7 Let_def split: if_splits)

lemma read_one_size_decode: "decode_size p = Some (v, r) \<Longrightarrow> read_one_size p = Inr (v, r)"
  by (auto simp: decode_size_def read_one_size_def dest: read_size_loop_decode)

lemma read_window_header_decode:
  assumes "decode_header p = Some ((so, sv, tv, il, nl), r)" and "header_fits so sv tv il nl"
  shows "read_window_header p = Inr ((so, sv, tv, il, nl), r)"
proof -
  obtain p1 p2 p3 p4 where p: "decode_file_offset p = Some (so, p1)" "decode_size p1 = Some (sv, p2)"
    "decode_size p2 = Some (tv, p3)" "decode_size p3 = Some (il, p4)" "decode_size p4 = Some (nl, r)"
    using assms(1) by (auto simp: decode_header_def)
  obtain v where v: "read_size_loop 0 p = Inr (v, p1)" "so = sint v"
    using p(1) by (auto simp: decode_file_offset_def dest: read_size_loop_decode)
  show ?thesis
    using v assms(2) p(2-5) [THEN read_one_size_decode] by (simp add: read_window_header_def)
qed

lemma read_decodes_to:
  assumes "decodes_to uncompress version w out"
  shows "svn_txdelta_read_svndiff_window uncompress (out @ r) version = Inr (w, r)"
    and "svn_txdelta_skip_svndiff_window (out @ r) = Inr r"
proof -
  obtain body il nl where d:
    "decode_header (out @ r) = Some ((sview_offset w, sview_len w, tview_len w, il, nl), body @ r)"
    "header_fits (sview_offset w) (sview_len w) (tview_len w) il nl" "length body = il + nl"
    "decode_window uncompress (sview_offset w) (sview_len w) (tview_len w) il nl (body @ []) version = Inr w"
    using assms unfolding decodes_to_def by blast
  note h = read_window_header_decode [OF d(1,2)]
  show "svn_txdelta_read_svndiff_window uncompress (out @ r) version = Inr (w, r)"
    using h d(3,4) by (simp add: svn_txdelta_read_svndiff_window_def)
  show "svn_txdelta_skip_svndiff_window (out @ r) = Inr r"
    using h d(3) by (simp add: svn_txdelta_skip_svndiff_window_def)
qed

lemma encode_windows_decode:
  assumes "\<forall>w\<in>set ws. wire_window w" and "version = 1 \<Longrightarrow> zlib_ok compress2 uncompress"
    and "encode_windows compress2 version level ws = Inr outs"
  shows "list_all2 (decodes_to uncompress version) ws outs"
  using assms(1,3)
proof (induction ws arbitrary: outs)
  case (Cons w ws)
  then obtain out outs' where o: "encode_window compress2 version level w = Inr out"
    "encode_windows compress2 version level ws = Inr outs'" "outs = out # outs'"
    by (auto simp: encode_windows_def)
  then show ?case using Cons encode_window_decodes [OF _ o(1) assms(2)] by simp
qed (simp add: encode_windows_def)

lemma svndiff_stream:
  assumes "\<forall>w\<in>set ws. wire_window w" and "views_forward 0 0 ws"
    and "version = 0 \<or> version = 1 \<and> zlib_ok compress2 uncompress"
    and "fold_result (window_handler compress2) (map Some ws @ [None]) (svn_txdelta_to_svndiff3 version level) = Inr eb"
    and "concat chunks = eb_output eb"
  shows "svn_try (fold_result (write_handler uncompress cons) chunks (svn_txdelta_parse_svndiff s early))
      (close_handler cons) = fold_result cons (map Some ws @ [None]) s"
proof -
  obtain outs where outs: "encode_windows compress2 version level ws = Inr outs"
    "eb_output eb = svndiff_header version @ concat outs"
    using encoder_output [OF assms(1,4)] by (auto simp: svn_txdelta_to_svndiff3_def pending_header_def)
  have dec: "list_all2 (decodes_to uncompress version) ws outs"
    using encode_windows_decode [OF assms(1) _ outs(1)] assms(3) by auto
  let ?db = "svn_txdelta_parse_svndiff s early"
  have inv: "db_inv ?db" by (simp add: db_inv_def svn_txdelta_parse_svndiff_def)
  have "chunks \<noteq> []" using assms(5) outs(2) by (auto simp: svndiff_header_def)
  then obtain c cs where cs: "chunks = c # cs" by (cases chunks) auto
  have all: "fold_result (write_handler uncompress cons) chunks ?db
      = write_handler uncompress cons (svndiff_header version @ concat outs) ?db"
    using write_handler_chunks [OF inv, of uncompress cons c cs] assms(5) outs(2) unfolding cs by simp
  let ?db1 = "?db\<lparr>db_version := version, db_header_bytes := 4\<rparr>"
  have chew: "chew_header (svndiff_header version @ x) ?db = Inr (?db1, x)" for x
    using assms(3) by (auto simp: chew_header_def svn_txdelta_parse_svndiff_def svndiff_header_def numeral_eq_Suc Let_def)
  let ?db2 = "?db1\<lparr>db_buffer := concat outs\<rparr>"
  have wh: "write_handler uncompress cons (svndiff_header version @ concat outs) ?db = write_loop uncompress cons ?db2"
    unfolding write_handler_def chew by (simp add: svn_txdelta_parse_svndiff_def)
  have loop: "svn_try (write_loop uncompress cons ?db2) (\<lambda>db'. Inr (db_buffer db', db_header_bytes db', db_consumer db'))
    = svn_try (fold_result cons (map Some ws) s) (\<lambda>st. Inr ([], 4, st))"
    using write_loop_windows [of uncompress ?db2 ws outs cons] dec assms(2)
    by (simp add: svn_txdelta_parse_svndiff_def)
  show ?thesis
  proof (cases "fold_result cons (map Some ws) s")
    case (Inl e)
    with loop have "write_loop uncompress cons ?db2 = Inl e" by (cases "write_loop uncompress cons ?db2") auto
    with Inl show ?thesis unfolding all wh by (simp add: fold_result_append)
  next
    case (Inr st)
    with loop obtain db' where "write_loop uncompress cons ?db2 = Inr db'" "db_buffer db' = []"
      "db_header_bytes db' = 4" "db_consumer db' = st"
      by (cases "write_loop uncompress cons ?db2") auto
    then show ?thesis unfolding all wh
      using Inr by (cases "cons None st") (simp_all add: fold_result_append close_handler_def)
  qed
qed

section \<open>Properties\<close>

text \<open>C10. Let the windows be those the format can carry (\<open>wire_window\<close>): valid, with the new data taken from
  front to back and no empty operation, views of at most \<open>SVN_DELTA_WINDOW_SIZE\<close> = 102400 bytes (longer
  ones are encoded, but the decoder refuses them) and source views that slide forward
  (\<open>views_forward\<close>). What the encoder writes for a list of them, when it succeeds, fed to the decoder in
  pieces of any size, hands the windows to the consumer one by one and in order, followed by the end
  of the delta, and closes without a complaint about missing data: the two streams compose to the
  identity. For version 1 this rests on zlib unpacking what it has packed.\<close>

theorem svndiff_roundtrip:
  assumes "\<forall>w\<in>set ws. wire_window w" and "views_forward 0 0 ws"
    and "version = 0 \<or> version = 1 \<and> zlib_ok compress2 uncompress"
    and "fold_result (window_handler compress2) (map Some ws @ [None]) (svn_txdelta_to_svndiff3 version level) = Inr eb"
    and "concat chunks = eb_output eb"
  shows "svn_try (fold_result (write_handler uncompress cons) chunks (svn_txdelta_parse_svndiff s early))
      (close_handler cons) = fold_result cons (map Some ws @ [None]) s"
  by (rule svndiff_stream [OF assms])

theorem svndiff_roundtrip_witness:
  "\<exists>ws eb. length ws = 2
    \<and> fold_result (window_handler (\<lambda>d l. Inr d)) (map Some ws @ [None]) (svn_txdelta_to_svndiff3 1 5) = Inr eb
    \<and> svn_try (fold_result (write_handler (\<lambda>d n. Inr d) (\<lambda>w ws. Inr (ws @ [w]))) (map (\<lambda>b. [b]) (eb_output eb))
        (svn_txdelta_parse_svndiff [] True)) (close_handler (\<lambda>w ws. Inr (ws @ [w])))
      = fold_result (\<lambda>w ws. Inr (ws @ [w])) (map Some ws @ [None]) []"
proof -
  let ?w1 = "\<lparr>sview_offset = 0, sview_len = 0, tview_len = 3, src_ops = 0, win_ops = [dop Delta_new 0 3],
    new_data = [65, 66, 67]\<rparr>"
  let ?w2 = "\<lparr>sview_offset = 0, sview_len = 4, tview_len = 9, src_ops = 1,
    win_ops = [dop Delta_source 1 2, dop Delta_new 0 1, dop Delta_target 0 6], new_data = [7]\<rparr>"
  have enc: "\<exists>eb. fold_result (window_handler (\<lambda>d l. Inr d)) (map Some [?w1, ?w2] @ [None])
      (svn_txdelta_to_svndiff3 1 5) = Inr eb"
    by (simp add: window_handler_None window_handler_def encode_window_def zlib_encode_def svn_txdelta_to_svndiff3_def Let_def
        MIN_COMPRESS_SIZE_def)
  then obtain eb where eb: "fold_result (window_handler (\<lambda>d l. Inr d)) (map Some [?w1, ?w2] @ [None])
      (svn_txdelta_to_svndiff3 1 5) = Inr eb" by blast
  have ok: "\<forall>w\<in>set [?w1, ?w2]. wire_window w" "views_forward 0 0 [?w1, ?w2]"
    "1 = 0 \<or> 1 = 1 \<and> zlib_ok (\<lambda>d l. Inr d) (\<lambda>d n. Inr d)"
    by (auto simp: wire_window_def window_ok_def op_ok_def count_src_def SVN_DELTA_WINDOW_SIZE_def backward_view_def zlib_ok_def)
  have "concat (map (\<lambda>b. [b]) (eb_output eb)) = eb_output eb" by (induction "eb_output eb") auto
  then show ?thesis
    using svndiff_roundtrip [OF ok eb, of "map (\<lambda>b. [b]) (eb_output eb)" "\<lambda>w ws. Inr (ws @ [w])" "[]" True] eb
    by (intro exI [of _ "[?w1, ?w2]"] exI [of _ eb]) auto
qed

text \<open>C16. The decoder depends only on the bytes it has been given, not on how they were cut into pieces:
  its state, what it has handed on and any error are the same as for one piece.\<close>

theorem decoder_chunking:
  "fold_result (write_handler uncompress cons) chunks (svn_txdelta_parse_svndiff s early)
     = write_handler uncompress cons (concat chunks) (svn_txdelta_parse_svndiff s early)"
proof (cases chunks)
  case Nil
  then show ?thesis
    by (simp add: write_handler_def chew_header_def svn_txdelta_parse_svndiff_def write_loop_Nil)
next
  case (Cons c cs)
  then show ?thesis
    using write_handler_chunks [of "svn_txdelta_parse_svndiff s early"] by (simp add: db_inv_def svn_txdelta_parse_svndiff_def)
qed



text \<open>The shortcut for a window that is one insertion writes the same bytes as the general encoder.\<close>

theorem simple_insertion_equivalent:
  assumes "wire_window w" and "src_ops w = 0" and "length (win_ops w) = 1"
  shows "send_simple_insertion_window w eb
    = svn_try (encode_window compress2 0 level w) (\<lambda>out. Inr (eb\<lparr>eb_header_done := True,
        eb_output := eb_output eb @ (if eb_header_done eb then [] else svndiff_header (eb_version eb)) @ out\<rparr>))"
  using simple_insertion_spec [OF assms, of eb] by (simp add: encode_window_def Let_def)

theorem simple_insertion_equivalent_witness:
  "\<exists>w. send_simple_insertion_window w (svn_txdelta_to_svndiff3 0 5)
    = svn_try (encode_window (\<lambda>d l. Inl 0) 0 5 w) (\<lambda>out. Inr ((svn_txdelta_to_svndiff3 0 5)\<lparr>eb_header_done := True,
        eb_output := eb_output (svn_txdelta_to_svndiff3 0 5)
          @ (if eb_header_done (svn_txdelta_to_svndiff3 0 5) then []
             else svndiff_header (eb_version (svn_txdelta_to_svndiff3 0 5))) @ out\<rparr>))
    \<and> tview_len w = 100"
proof -
  let ?w = "\<lparr>sview_offset = 0, sview_len = 0, tview_len = 100, src_ops = 0, win_ops = [dop Delta_new 0 100],
    new_data = replicate 100 65\<rparr>"
  have "wire_window ?w"
    by (simp add: wire_window_def window_ok_def op_ok_def count_src_def SVN_DELTA_WINDOW_SIZE_def)
  then show ?thesis
    using simple_insertion_equivalent [of ?w "svn_txdelta_to_svndiff3 0 5" "\<lambda>d l. Inl 0" 5] by (intro exI [of _ ?w]) simp
qed

text \<open>C34. The variable-length integers: reading what was written gives the number back and leaves
  the rest; the code is prefix-free, so a cut-off integer is never mistaken for another; it has at
  most ten bytes and no more than the number needs.\<close>

theorem svndiff_integer_codec:
  assumes "n < 2 ^ 63"
  shows "decode_size (encode_int n @ r) = Some (n, r)
    \<and> (\<forall>k < length (encode_int n). decode_size (take k (encode_int n)) = None)
    \<and> 0 < length (encode_int n) \<and> length (encode_int n) \<le> MAX_ENCODED_INT_LEN
    \<and> (\<forall>k > 0. n < 2 ^ (7 * k) \<longrightarrow> length (encode_int n) \<le> k)"
proof -
  have n: "n < 2 ^ 64" using assms by simp
  show ?thesis
    using size_codec.dec_enc [OF n] size_codec.enc_prefix_free [OF n] length_encode_int [of n]
      encode_int_length_le [OF _ _ n] by (simp add: MAX_ENCODED_INT_LEN_def)
qed

theorem svndiff_integer_codec_witness:
  "decode_size (encode_int 300 @ [1]) = Some (300, [1]) \<and> length (encode_int 300) \<le> 2"
  using svndiff_integer_codec [of 300 "[1]"] by simp

text \<open>A window written by the encoder is read back from a stream as it was, and skipping it leaves
  the stream behind it, whatever follows.\<close>

theorem read_svndiff_window_correct:
  assumes "wire_window w" and "encode_window compress2 version level w = Inr out"
    and "version = 1 \<longrightarrow> zlib_ok compress2 uncompress"
  shows "svn_txdelta_read_svndiff_window uncompress (out @ r) version = Inr (w, r)
    \<and> svn_txdelta_skip_svndiff_window (out @ r) = Inr r"
  using read_decodes_to [OF encode_window_decodes [OF assms(1,2)]] assms(3) by blast

theorem read_svndiff_window_correct_witness:
  "\<exists>w out. encode_window (\<lambda>d l. Inl 0) 0 5 w = Inr out \<and> tview_len w = 9
    \<and> svn_txdelta_read_svndiff_window (\<lambda>d n. Inl 0) (out @ [1, 2]) 0 = Inr (w, [1, 2])"
proof -
  let ?w = "\<lparr>sview_offset = 0, sview_len = 4, tview_len = 9, src_ops = 1,
    win_ops = [dop Delta_source 1 2, dop Delta_new 0 1, dop Delta_target 0 6], new_data = [7]\<rparr>"
  have w: "wire_window ?w"
    by (simp add: wire_window_def window_ok_def op_ok_def count_src_def SVN_DELTA_WINDOW_SIZE_def)
  obtain out where out: "encode_window (\<lambda>d l. Inl 0) 0 5 ?w = Inr out" by (simp add: encode_window_def Let_def)
  show ?thesis
    using read_svndiff_window_correct [OF w out, of "\<lambda>d n. Inl 0" "[1, 2]"] out
    by (intro exI [of _ ?w] exI [of _ out]) simp
qed

end
