(* ===== verification/Delta_Apply.thy ===== *)
theory Delta_Apply
  imports Delta_Stream Svndiff_Codec
begin

text \<open>
  Applying windows to a source stream (\<open>apply_window\<close> of \<open>text_delta.c\<close>) with every buffer
  access checked, sending strings, streams and buffers as deltas, and the whole way from a
  source and a target over the svndiff format back to the target.
\<close>

section \<open>Applying a delta stream\<close>

text \<open>
  Buffers are modelled whole: \<open>ab_sbuf\<close> and \<open>ab_tbuf\<close> are all the bytes allocated, of which
  \<open>ab_sbuf_len\<close> are in use. \<open>fresh n\<close> is what a new buffer of \<open>n\<close> bytes happens to hold.
  \<open>None\<close> stands for an access outside a buffer or a failed \<open>assert\<close>. \<open>ab_digested\<close> is what has been
  given to MD5, when a digest is wanted.
\<close>

record apply_baton =
  ab_source :: bytes
  ab_target :: bytes
  ab_closed :: bool
  ab_sbuf :: bytes
  ab_sbuf_offset :: int
  ab_sbuf_len :: nat
  ab_tbuf :: bytes
  ab_digested :: "bytes option"

text \<open>Conversion to \<open>apr_size_t\<close>.\<close>

definition u64 :: "int \<Rightarrow> nat" where "u64 x = nat (x mod 2 ^ 64)"

definition APR_ALIGN_DEFAULT :: "nat \<Rightarrow> nat" where
  "APR_ALIGN_DEFAULT n = ((n + 7) mod 2 ^ 64) div 8 * 8"

definition size_buffer :: "(nat \<Rightarrow> bytes) \<Rightarrow> bytes \<Rightarrow> nat \<Rightarrow> bytes svn_result" where
  "size_buffer fresh buf view_len =
     (if view_len > length buf
      then let buf_size = length buf * 2 mod 2 ^ 64;
               buf_size = (if buf_size < view_len then view_len else buf_size)
           in svn_try (svn_assert (APR_ALIGN_DEFAULT buf_size \<ge> buf_size)) (\<lambda>_. Inr (fresh buf_size))
      else Inr buf)"

definition prepare_source :: "(nat \<Rightarrow> bytes) \<Rightarrow> txdelta_window \<Rightarrow> apply_baton \<Rightarrow> apply_baton svn_result option" where
  "prepare_source fresh w ab =
     (if sview_offset w \<noteq> ab_sbuf_offset ab \<or> sview_len w > length (ab_sbuf ab)
      then svn_try_partial (Some (size_buffer fresh (ab_sbuf ab) (sview_len w))) (\<lambda>sbuf.
        if u64 (ab_sbuf_offset ab + int (ab_sbuf_len ab)) > u64 (sview_offset w)
        then let start = u64 (sview_offset w - ab_sbuf_offset ab); n = u64 (int (ab_sbuf_len ab) - int start) in
          case Option.bind (mem_read (ab_sbuf ab) start n) (mem_write sbuf 0) of
            None \<Rightarrow> None
          | Some sbuf \<Rightarrow> Some (Inr (ab\<lparr>ab_sbuf := sbuf, ab_sbuf_len := n, ab_sbuf_offset := sview_offset w\<rparr>))
        else Some (Inr (ab\<lparr>ab_sbuf := sbuf, ab_sbuf_len := 0, ab_sbuf_offset := sview_offset w\<rparr>)))
      else Some (Inr ab))"

definition read_source :: "txdelta_window \<Rightarrow> apply_baton \<Rightarrow> apply_baton svn_result option" where
  "read_source w ab =
     (if ab_sbuf_len ab < sview_len w
      then let len = sview_len w - ab_sbuf_len ab; chunk = take len (ab_source ab) in
        case mem_write (ab_sbuf ab) (ab_sbuf_len ab) chunk of
          None \<Rightarrow> None
        | Some sbuf \<Rightarrow>
            if length chunk \<noteq> len then Some (Inl Incomplete_data)
            else Some (Inr (ab\<lparr>ab_sbuf := sbuf, ab_source := drop len (ab_source ab), ab_sbuf_len := sview_len w\<rparr>))
      else Some (Inr ab))"

definition apply_window ::
    "(nat \<Rightarrow> bytes) \<Rightarrow> bool \<Rightarrow> txdelta_window option \<Rightarrow> apply_baton \<Rightarrow> apply_baton svn_result option" where
  "apply_window fresh unaligned window ab =
     (case window of
        None \<Rightarrow> Some (Inr (ab\<lparr>ab_closed := True\<rparr>))
      | Some w \<Rightarrow>
          svn_try_partial (Some (svn_assert (sview_len w = 0
            \<or> sview_offset w \<ge> ab_sbuf_offset ab
              \<and> u64 (sview_offset w + int (sview_len w)) \<ge> u64 (ab_sbuf_offset ab + int (ab_sbuf_len ab))))) (\<lambda>_.
          svn_try_partial (Some (size_buffer fresh (ab_tbuf ab) (tview_len w))) (\<lambda>tbuf.
          svn_try_partial (prepare_source fresh w ab) (\<lambda>ab.
          svn_try_partial (read_source w ab) (\<lambda>ab.
            case svn_txdelta_apply_instructions unaligned w (ab_sbuf ab) tbuf (tview_len w) of
              None \<Rightarrow> None
            | Some (tbuf, len) \<Rightarrow>
                svn_try_partial (Some (svn_assert (len = tview_len w))) (\<lambda>_.
                  Some (Inr (ab\<lparr>ab_tbuf := tbuf, ab_target := ab_target ab @ take len tbuf,
                    ab_digested := map_option (\<lambda>d. d @ take len tbuf) (ab_digested ab)\<rparr>))))))))"

definition svn_txdelta_apply :: "bytes \<Rightarrow> bool \<Rightarrow> apply_baton" where
  "svn_txdelta_apply source want_digest =
     \<lparr>ab_source = source, ab_target = [], ab_closed = False, ab_sbuf = [], ab_sbuf_offset = 0, ab_sbuf_len = 0,
      ab_tbuf = [], ab_digested = (if want_digest then Some [] else None)\<rparr>"

section \<open>Sending data as a delta\<close>

definition insertion_window :: "bytes \<Rightarrow> txdelta_window" where
  "insertion_window data =
     \<lparr>sview_offset = 0, sview_len = 0, tview_len = length data, src_ops = 0,
      win_ops = [dop Delta_new 0 (length data)], new_data = data\<rparr>"

definition svn_txdelta_send_string ::
    "bytes \<Rightarrow> (txdelta_window option \<Rightarrow> 's \<Rightarrow> 's svn_result) \<Rightarrow> 's \<Rightarrow> 's svn_result" where
  "svn_txdelta_send_string string handler s =
     svn_try (handler (Some (insertion_window string)) s) (\<lambda>s. handler None s)"

definition SVN_STREAM_CHUNK_SIZE :: nat where "SVN_STREAM_CHUNK_SIZE = 16384"

text \<open>The consumer and what has been given to MD5.\<close>

function send_stream_loop ::
    "(txdelta_window option \<Rightarrow> 's \<Rightarrow> 's svn_result) \<Rightarrow> bytes \<Rightarrow> 's \<Rightarrow> bytes \<Rightarrow> ('s \<times> bytes) svn_result" where
  "send_stream_loop handler stream s digested =
     (let data = take SVN_STREAM_CHUNK_SIZE stream; stream = drop SVN_STREAM_CHUNK_SIZE stream in
      if length data = 0 then Inr (s, digested)
      else svn_try (handler (Some (insertion_window data)) s) (\<lambda>s.
             if length data < SVN_STREAM_CHUNK_SIZE then Inr (s, digested @ data)
             else send_stream_loop handler stream s (digested @ data)))"
  by pat_completeness auto
termination
  by (relation "measure (\<lambda>(handler, stream, s, d). length stream)") (auto simp: SVN_STREAM_CHUNK_SIZE_def)

definition svn_txdelta_send_stream ::
    "bytes \<Rightarrow> (txdelta_window option \<Rightarrow> 's \<Rightarrow> 's svn_result) \<Rightarrow> 's \<Rightarrow> ('s \<times> bytes) svn_result" where
  "svn_txdelta_send_stream stream handler s =
     svn_try (send_stream_loop handler stream s []) (\<lambda>(s, digested).
     svn_try (handler None s) (\<lambda>s. Inr (s, digested)))"

function send_contents_loop ::
    "(txdelta_window option \<Rightarrow> 's \<Rightarrow> 's svn_result) \<Rightarrow> bytes \<Rightarrow> 's \<Rightarrow> 's svn_result" where
  "send_contents_loop handler contents s =
     (if length contents > 0
      then let len = (if length contents < SVN_DELTA_WINDOW_SIZE then length contents else SVN_DELTA_WINDOW_SIZE) in
        svn_try (handler (Some (insertion_window (take len contents))) s) (\<lambda>s.
          send_contents_loop handler (drop len contents) s)
      else Inr s)"
  by pat_completeness auto
termination
  by (relation "measure (\<lambda>(handler, contents, s). length contents)") (auto simp: SVN_DELTA_WINDOW_SIZE_def)

declare send_stream_loop.simps [simp del] send_contents_loop.simps [simp del]

definition svn_txdelta_send_contents ::
    "bytes \<Rightarrow> (txdelta_window option \<Rightarrow> 's \<Rightarrow> 's svn_result) \<Rightarrow> 's \<Rightarrow> 's svn_result" where
  "svn_txdelta_send_contents contents handler s =
     svn_try (send_contents_loop handler contents s) (\<lambda>s. handler None s)"

section \<open>Applying a window\<close>

text \<open>
  Between two windows the source buffer holds the bytes of the source from \<open>off\<close> on, and the
  source stream continues behind them.
\<close>

definition apply_inv :: "bytes \<Rightarrow> nat \<Rightarrow> nat \<Rightarrow> apply_baton \<Rightarrow> bool" where
  "apply_inv S off len ab \<longleftrightarrow>
     ab_sbuf_offset ab = int off \<and> ab_sbuf_len ab = len \<and> off + len \<le> length S
     \<and> ab_source ab = drop (off + len) S \<and> len \<le> length (ab_sbuf ab)
     \<and> take len (ab_sbuf ab) = take len (drop off S) \<and> length (ab_sbuf ab) \<le> 2 * SVN_DELTA_WINDOW_SIZE
     \<and> length (ab_tbuf ab) \<le> 2 * SVN_DELTA_WINDOW_SIZE"

definition fresh_ok :: "(nat \<Rightarrow> bytes) \<Rightarrow> bool" where
  "fresh_ok fresh \<longleftrightarrow> (\<forall>n. length (fresh n) = n)"

lemma u64_small [simp]: "0 \<le> x \<Longrightarrow> x < 2 ^ 64 \<Longrightarrow> u64 x = nat x"
  by (simp add: u64_def)

lemma align_le: "n < 2 ^ 63 \<Longrightarrow> n \<le> APR_ALIGN_DEFAULT n"
  by (simp add: APR_ALIGN_DEFAULT_def)

lemma size_buffer_spec:
  assumes "fresh_ok fresh" and "length buf \<le> 2 * SVN_DELTA_WINDOW_SIZE" and "n \<le> SVN_DELTA_WINDOW_SIZE"
  shows "\<exists>buf'. size_buffer fresh buf n = Inr buf' \<and> n \<le> length buf' \<and> length buf' \<le> 2 * SVN_DELTA_WINDOW_SIZE
    \<and> (n \<le> length buf \<longrightarrow> buf' = buf)"
proof (cases "n > length buf")
  case True
  let ?n = "if length buf * 2 mod 2 ^ 64 < n then n else length buf * 2 mod 2 ^ 64"
  have m: "length buf * 2 mod 2 ^ 64 = length buf * 2" using assms(2) by (simp add: SVN_DELTA_WINDOW_SIZE_def)
  have n: "n \<le> ?n" "?n \<le> 2 * SVN_DELTA_WINDOW_SIZE" using True assms(3) unfolding m by auto
  then have "?n \<le> APR_ALIGN_DEFAULT ?n" by (intro align_le) (simp add: SVN_DELTA_WINDOW_SIZE_def)
  then have "size_buffer fresh buf n = Inr (fresh ?n)" using True unfolding size_buffer_def Let_def by simp
  then show ?thesis using n True assms(1) by (simp add: fresh_ok_def del: if_split)
qed (use assms in \<open>simp add: size_buffer_def\<close>)

text \<open>The view of the next window starts in what the buffer covers, and does not end before it.\<close>

definition view_slides :: "nat \<Rightarrow> nat \<Rightarrow> txdelta_window \<Rightarrow> bool" where
  "view_slides off len w \<longleftrightarrow>
     int off \<le> sview_offset w \<and> sview_offset w \<le> int (off + len)
     \<and> (sview_len w = 0 \<or> int (off + len) \<le> sview_offset w + int (sview_len w))"

lemma prepare_source_spec:
  assumes "apply_inv S off len ab" and "view_slides off len w" and "fresh_ok fresh" and "length S < 2 ^ 63"
    and "sview_len w \<le> SVN_DELTA_WINDOW_SIZE"
  shows "\<exists>ab'. prepare_source fresh w ab = Some (Inr ab')
    \<and> apply_inv S (nat (sview_offset w)) (off + len - nat (sview_offset w)) ab' \<and> sview_len w \<le> length (ab_sbuf ab')
    \<and> ab_target ab' = ab_target ab \<and> ab_closed ab' = ab_closed ab \<and> ab_digested ab' = ab_digested ab"
proof -
  note i = assms(1) [unfolded apply_inv_def] and v = assms(2) [unfolded view_slides_def]
  let ?o = "nat (sview_offset w)"
  have o: "off \<le> ?o" "?o \<le> off + len" "int ?o = sview_offset w" "0 \<le> sview_offset w" using v by auto
  show ?thesis
  proof (cases "sview_offset w \<noteq> ab_sbuf_offset ab \<or> sview_len w > length (ab_sbuf ab)")
    case False
    then have "?o = off" using i by simp
    then show ?thesis using False assms(1) by (simp add: prepare_source_def)
  next
    case True
    obtain sbuf where sb: "size_buffer fresh (ab_sbuf ab) (sview_len w) = Inr sbuf" "sview_len w \<le> length sbuf"
      "length sbuf \<le> 2 * SVN_DELTA_WINDOW_SIZE" "sview_len w \<le> length (ab_sbuf ab) \<longrightarrow> sbuf = ab_sbuf ab"
      using size_buffer_spec [OF assms(3), of "ab_sbuf ab" "sview_len w"] i assms(5) by blast
    have u: "u64 (ab_sbuf_offset ab + int (ab_sbuf_len ab)) = off + len" "u64 (sview_offset w) = ?o"
      "u64 (sview_offset w - ab_sbuf_offset ab) = ?o - off"
      using i o assms(4) by auto
    show ?thesis
    proof (cases "off + len > ?o")
      case False
      then have eq: "?o = off + len" using o by simp
      have "prepare_source fresh w ab
          = Some (Inr (ab\<lparr>ab_sbuf := sbuf, ab_sbuf_len := 0, ab_sbuf_offset := sview_offset w\<rparr>))"
        using True False sb(1) u unfolding prepare_source_def by simp
      then show ?thesis using i eq sb(2,3) o by (simp add: apply_inv_def)
    next
      case overlap: True
      let ?s = "?o - off" and ?n = "off + len - ?o"
      have n: "u64 (int (ab_sbuf_len ab) - int ?s) = ?n" using i o assms(4) by auto
      have rd: "mem_read (ab_sbuf ab) ?s ?n = Some (take ?n (drop ?s (ab_sbuf ab)))"
        using i o by (auto simp: mem_read_def)
      have bytes: "take ?n (drop ?s (ab_sbuf ab)) = take ?n (drop ?o S)"
      proof -
        have "take ?n (drop ?s (ab_sbuf ab)) = drop ?s (take len (ab_sbuf ab))" using o by (simp add: drop_take add.commute)
        also have "\<dots> = drop ?s (take len (drop off S))" using i by simp
        also have "\<dots> = take ?n (drop ?o S)" using o by (simp add: drop_take add.commute)
        finally show ?thesis .
      qed
      have ln: "length (take ?n (drop ?s (ab_sbuf ab))) = ?n" using i o by auto
      have fits: "?n \<le> length sbuf"
      proof (cases "sview_len w \<le> length (ab_sbuf ab)")
        case True
        then show ?thesis using sb(4) i o by auto
      next
        case False
        then have "?n \<le> sview_len w" using v o by auto
        then show ?thesis using sb(2) by simp
      qed
      let ?sbuf = "take ?n (drop ?s (ab_sbuf ab)) @ drop ?n sbuf"
      have wr: "mem_write sbuf 0 (take ?n (drop ?s (ab_sbuf ab))) = Some ?sbuf"
        using mem_write_spec [of 0 "take ?n (drop ?s (ab_sbuf ab))" sbuf] fits ln by simp
      have "prepare_source fresh w ab
          = Some (Inr (ab\<lparr>ab_sbuf := ?sbuf, ab_sbuf_len := ?n, ab_sbuf_offset := sview_offset w\<rparr>))"
        using True overlap sb(1) rd wr unfolding prepare_source_def Let_def u n by simp
      moreover have "apply_inv S ?o ?n (ab\<lparr>ab_sbuf := ?sbuf, ab_sbuf_len := ?n, ab_sbuf_offset := sview_offset w\<rparr>)"
      proof -
        obtain sb' where sb': "sb' = ?sbuf" by blast
        have "length sb' = length sbuf"
          using ln fits unfolding sb' by (simp only: length_append length_drop le_add_diff_inverse)
        moreover have "take ?n sb' = take ?n (drop ?o S)" using ln bytes unfolding sb' by simp
        moreover have "?o + ?n = off + len" using o(2) by simp
        ultimately show ?thesis using i o(3) sb(3) fits unfolding sb' [symmetric] by (simp add: apply_inv_def)
      qed
      ultimately show ?thesis using ln fits sb(2) by simp
    qed
  qed
qed

lemma read_source_spec:
  assumes "apply_inv S off len ab" and "sview_len w \<le> length (ab_sbuf ab)"
  shows "if off + sview_len w \<le> length S
    then \<exists>ab'. read_source w ab = Some (Inr ab') \<and> apply_inv S off (max len (sview_len w)) ab'
      \<and> sview_len w \<le> length (ab_sbuf ab') \<and> ab_target ab' = ab_target ab \<and> ab_closed ab' = ab_closed ab
      \<and> ab_digested ab' = ab_digested ab
    else read_source w ab = Some (Inl Incomplete_data)"
proof -
  note i = assms(1) [unfolded apply_inv_def]
  show ?thesis
  proof (cases "len < sview_len w")
    case False
    then show ?thesis using assms i by (simp add: read_source_def)
  next
    case True
    let ?k = "sview_len w - len"
    let ?chunk = "take ?k (drop (off + len) S)"
    have "length ?chunk \<le> ?k" by simp
    then have wr: "mem_write (ab_sbuf ab) len ?chunk
        = Some (take len (ab_sbuf ab) @ ?chunk @ drop (len + length ?chunk) (ab_sbuf ab))"
      using assms(2) True by (intro mem_write_spec) linarith
    show ?thesis
    proof (cases "off + sview_len w \<le> length S")
      case False
      then have "length S - (off + len) < ?k" using True i by linarith
      then have "length ?chunk \<noteq> ?k" by simp
      then show ?thesis using False True wr i by (simp add: read_source_def)
    next
      case ok: True
      then have lc: "length ?chunk = ?k" using True by simp
      let ?sbuf = "take len (ab_sbuf ab) @ ?chunk @ drop (len + length ?chunk) (ab_sbuf ab)"
      let ?ab = "ab\<lparr>ab_sbuf := ?sbuf, ab_source := drop ?k (drop (off + len) S), ab_sbuf_len := sview_len w\<rparr>"
      have r: "read_source w ab = Some (Inr ?ab)"
        using True wr i lc by (simp add: read_source_def)
      have ls: "length ?sbuf = length (ab_sbuf ab)" using assms(2) True lc i by simp
      have "take len (drop off S) @ ?chunk = take (sview_len w) (drop off S)"
        using True take_add [of len ?k "drop off S"] by (simp add: add.commute)
      then have "take (sview_len w) ?sbuf = take (sview_len w) (drop off S)"
        using True i lc by (simp add: min_absorb1)
      moreover have "drop ?k (drop (off + len) S) = drop (off + sview_len w) S" using True by (simp add: add.commute)
      ultimately have "apply_inv S off (sview_len w) ?ab" using i ok ls assms(2) by (simp add: apply_inv_def)
      then show ?thesis using ok True r ls assms(2) by (simp add: max_absorb2)
    qed
  qed
qed

lemma apply_window_spec:
  assumes "apply_inv S off len ab" and "view_slides off len w" and "fresh_ok fresh" and "length S < 2 ^ 63"
    and "sview_len w \<le> SVN_DELTA_WINDOW_SIZE" and "tview_len w \<le> SVN_DELTA_WINDOW_SIZE" and "window_ok w"
  defines "so \<equiv> nat (sview_offset w)"
  shows "if so + sview_len w \<le> length S
    then \<exists>ab' t. apply_window fresh unaligned (Some w) ab = Some (Inr ab')
      \<and> t = window_target w (take (sview_len w) (drop so S))
      \<and> apply_inv S so (max (off + len - so) (sview_len w)) ab' \<and> ab_target ab' = ab_target ab @ t
      \<and> ab_closed ab' = ab_closed ab \<and> ab_digested ab' = map_option (\<lambda>d. d @ t) (ab_digested ab)
    else apply_window fresh unaligned (Some w) ab = Some (Inl Incomplete_data)"
proof -
  note i = assms(1) [unfolded apply_inv_def] and v = assms(2) [unfolded view_slides_def]
  have W: "SVN_DELTA_WINDOW_SIZE = 102400" by (simp add: SVN_DELTA_WINDOW_SIZE_def)
  have forward: "sview_len w = 0 \<or> sview_offset w \<ge> ab_sbuf_offset ab
      \<and> u64 (sview_offset w + int (sview_len w)) \<ge> u64 (ab_sbuf_offset ab + int (ab_sbuf_len ab))"
    using i v assms(4,5) W by auto
  obtain tbuf where tb: "size_buffer fresh (ab_tbuf ab) (tview_len w) = Inr tbuf" "tview_len w \<le> length tbuf"
    "length tbuf \<le> 2 * SVN_DELTA_WINDOW_SIZE"
    using size_buffer_spec [OF assms(3), of "ab_tbuf ab" "tview_len w"] i assms(6) by blast
  obtain ab1 where p: "prepare_source fresh w ab = Some (Inr ab1)" "apply_inv S so (off + len - so) ab1"
    "sview_len w \<le> length (ab_sbuf ab1)" "ab_target ab1 = ab_target ab" "ab_closed ab1 = ab_closed ab"
    "ab_digested ab1 = ab_digested ab"
    using prepare_source_spec [OF assms(1-5)] unfolding so_def by blast
  note rs = read_source_spec [OF p(2,3)]
  show ?thesis
  proof (cases "so + sview_len w \<le> length S")
    case False
    then show ?thesis using rs forward tb(1) p(1) by (simp add: apply_window_def)
  next
    case True
    obtain ab2 where r: "read_source w ab1 = Some (Inr ab2)" "apply_inv S so (max (off + len - so) (sview_len w)) ab2"
      "sview_len w \<le> length (ab_sbuf ab2)" "ab_target ab2 = ab_target ab1" "ab_closed ab2 = ab_closed ab1"
      "ab_digested ab2 = ab_digested ab1"
      using rs True by auto
    let ?t = "window_target w (take (sview_len w) (drop so S))"
    have "take (sview_len w) (ab_sbuf ab2) = take (sview_len w) (drop so S)"
    proof -
      let ?m = "max (off + len - so) (sview_len w)"
      have "take ?m (ab_sbuf ab2) = take ?m (drop so S)" using r(2) by (simp add: apply_inv_def)
      then have "take (sview_len w) (take ?m (ab_sbuf ab2)) = take (sview_len w) (take ?m (drop so S))" by simp
      then show ?thesis by (simp add: min_absorb1)
    qed
    moreover have "length (take (sview_len w) (drop so S)) = sview_len w" using True by simp
    moreover from this have lt: "length ?t = tview_len w" by (rule length_window_target [OF assms(7)])
    ultimately have ap: "svn_txdelta_apply_instructions unaligned w (ab_sbuf ab2) tbuf (tview_len w)
        = Some (?t @ drop (tview_len w) tbuf, tview_len w)"
      using apply_instructions_spec [OF assms(7) r(3) tb(2), of unaligned] by simp
    let ?ab = "ab2\<lparr>ab_tbuf := ?t @ drop (tview_len w) tbuf, ab_target := ab_target ab2 @ ?t,
      ab_digested := map_option (\<lambda>d. d @ ?t) (ab_digested ab2)\<rparr>"
    have "apply_window fresh unaligned (Some w) ab = Some (Inr ?ab)"
      using forward tb(1) p(1) r(1) ap lt by (simp add: apply_window_def)
    moreover have "apply_inv S so (max (off + len - so) (sview_len w)) ?ab"
      using r(2) lt tb(2,3) by (simp add: apply_inv_def)
    ultimately show ?thesis using True p(4-6) r(4-6) by simp
  qed
qed

section \<open>Applying a whole delta\<close>

text \<open>The applier as a window handler; once it has gone out of bounds it stays there.\<close>

definition applier ::
    "(nat \<Rightarrow> bytes) \<Rightarrow> bool \<Rightarrow> txdelta_window option \<Rightarrow> apply_baton option \<Rightarrow> apply_baton option svn_result" where
  "applier fresh unaligned window st =
     (case st of None \<Rightarrow> Inr None
      | Some ab \<Rightarrow> (case apply_window fresh unaligned window ab of
          None \<Rightarrow> Inr None | Some (Inl e) \<Rightarrow> Inl e | Some (Inr ab') \<Rightarrow> Inr (Some ab')))"

text \<open>What has been applied: the target written and the bytes digested grow by \<open>T\<close>.\<close>

definition applied :: "apply_baton \<Rightarrow> bytes \<Rightarrow> apply_baton \<Rightarrow> bool" where
  "applied ab T ab' \<longleftrightarrow> ab_target ab' = ab_target ab @ T \<and> ab_digested ab' = map_option (\<lambda>d. d @ T) (ab_digested ab)"

lemma piece_next: "drop (p + length (take n (drop p S))) S = drop n (drop p S)"
  by (cases "n \<le> length S - p") (simp_all add: add.commute)

lemma apply_windows_spec:
  assumes "windows_for (drop p S) T (int p) ws" and "apply_inv S off len ab" and "off + len = p"
    and "fresh_ok fresh" and "length S < 2 ^ 63"
  shows "\<exists>ab'. fold_result (applier fresh unaligned) (map Some ws @ [None]) (Some ab) = Inr (Some ab')
    \<and> applied ab T ab' \<and> ab_closed ab'"
  using assms(1-3)
proof (induction ws arbitrary: p T off len ab)
  case Nil
  then have "T = []" by simp
  moreover have "applied ab [] (ab\<lparr>ab_closed := True\<rparr>)" by (cases "ab_digested ab") (simp_all add: applied_def)
  ultimately show ?case by (simp add: applier_def apply_window_def)
next
  case (Cons w ws)
  let ?W = SVN_DELTA_WINDOW_SIZE
  let ?src = "take ?W (drop p S)" and ?tgt = "take ?W T"
  let ?p = "p + length ?src"
  have d: "delta_window ?src ?tgt (int p) w" "windows_for (drop ?W (drop p S)) (drop ?W T) (int ?p) ws"
    using Cons.prems(1) by simp_all
  have w: "sview_offset w = int p" "sview_len w = length ?src" "tview_len w = length ?tgt" "window_ok w"
    "window_target w ?src = ?tgt" using d(1) by (simp_all add: delta_window_def)
  have p: "p \<le> length S" using Cons.prems(2,3) by (simp add: apply_inv_def)
  have slides: "view_slides off len w" using w(1,2) Cons.prems(3) by (simp add: view_slides_def)
  have le: "sview_len w \<le> ?W" "tview_len w \<le> ?W" "nat (sview_offset w) + sview_len w \<le> length S"
    using w p by (auto simp: min_def)
  have view: "take (sview_len w) (drop (nat (sview_offset w)) S) = ?src" using w(1,2) by (simp add: min_def)
  obtain ab1 where ab1: "apply_window fresh unaligned (Some w) ab = Some (Inr ab1)"
    "apply_inv S (nat (sview_offset w)) (max (off + len - nat (sview_offset w)) (sview_len w)) ab1"
    "ab_target ab1 = ab_target ab @ ?tgt" "ab_digested ab1 = map_option (\<lambda>d. d @ ?tgt) (ab_digested ab)"
    using apply_window_spec [OF Cons.prems(2) slides assms(4,5) le(1,2) w(4), of unaligned] le(3) unfolding view w(5) by auto
  have "apply_inv S p (length ?src) ab1" using ab1(2) w(1,2) Cons.prems(3) by simp
  moreover have "windows_for (drop ?p S) (drop ?W T) (int ?p) ws" using d(2) unfolding piece_next .
  ultimately obtain ab' where "fold_result (applier fresh unaligned) (map Some ws @ [None]) (Some ab1) = Inr (Some ab')"
    "applied ab1 (drop ?W T) ab'" "ab_closed ab'"
    using Cons.IH [of ?p "drop ?W T" p "length ?src" ab1] by auto
  moreover from this(2) have "applied ab T ab'"
    using ab1(3,4) by (cases "ab_digested ab") (simp_all add: applied_def)
  ultimately show ?case using ab1(1) by (simp add: applier_def [of _ _ "Some w"])
qed

lemma apply_inv_init: "apply_inv S 0 0 (svn_txdelta_apply S d)"
  by (simp add: apply_inv_def svn_txdelta_apply_def)

lemma applied_init: "applied (svn_txdelta_apply S True) T ab \<Longrightarrow> ab_target ab = T \<and> ab_digested ab = Some T"
  by (simp add: applied_def svn_txdelta_apply_def)

lemma apply_delta_spec:
  assumes "windows_for S T 0 ws" and "fresh_ok fresh" and "length S < 2 ^ 63"
  shows "\<exists>ab. fold_result (applier fresh unaligned) (map Some ws @ [None]) (Some (svn_txdelta_apply S True)) = Inr (Some ab)
    \<and> ab_target ab = T \<and> ab_digested ab = Some T \<and> ab_closed ab"
  using apply_windows_spec [of 0 S T ws 0 0 "svn_txdelta_apply S True" fresh unaligned] assms apply_inv_init applied_init
  by fastforce

section \<open>Through the svndiff format\<close>

text \<open>The format does not carry \<open>src_ops\<close>; the decoder counts.\<close>

definition count_window :: "txdelta_window \<Rightarrow> txdelta_window" where
  "count_window w = w\<lparr>src_ops := count_src (win_ops w)\<rparr>"

lemma count_window_simps [simp]:
  "sview_offset (count_window w) = sview_offset w" "sview_len (count_window w) = sview_len w"
  "tview_len (count_window w) = tview_len w" "win_ops (count_window w) = win_ops w" "new_data (count_window w) = new_data w"
  "src_ops (count_window w) = count_src (win_ops w)" "window_ok (count_window w) = window_ok w"
  "window_target (count_window w) src = window_target w src"
  "encode_window compress2 version level (count_window w) = encode_window compress2 version level w"
  "send_simple_insertion_window (count_window w) eb = send_simple_insertion_window w eb"
  by (simp_all add: count_window_def window_ok_def window_target_def encode_window_def send_simple_insertion_window_def)

lemma delta_window_count: "delta_window src tgt off w \<Longrightarrow> delta_window src tgt off (count_window w)"
  by (simp add: delta_window_def)

lemma windows_for_count: "windows_for S T pos ws \<Longrightarrow> windows_for S T pos (map count_window ws)"
  by (induction S T pos ws rule: windows_for.induct) (simp_all add: delta_window_count)

lemma window_handler_count:
  assumes "wire_window (count_window w)" and "count_src (win_ops w) \<le> src_ops w"
  shows "window_handler compress2 (Some w) eb = window_handler compress2 (Some (count_window w)) eb"
proof (cases "count_src (win_ops w) = 0 \<and> length (win_ops w) = 1 \<and> eb_version eb = 0 \<and> src_ops w \<noteq> 0")
  case True
  then show ?thesis
    using simple_insertion_spec [OF assms(1), of eb]
    by (cases eb) (auto simp: window_handler_def encode_window_def Let_def)
next
  case False
  then have eq: "((src_ops w = 0 \<and> length (win_ops w) = 1) \<and> eb_version eb = 0)
      = ((src_ops (count_window w) = 0 \<and> length (win_ops (count_window w)) = 1) \<and> eb_version eb = 0)"
    using assms(2) by auto
  show ?thesis unfolding window_handler_def option.case option.sel eq by simp
qed

lemma window_handler_v0:
  assumes "wire_window (count_window w)" and "count_src (win_ops w) \<le> src_ops w" and "eb_version eb = 0"
  shows "\<exists>eb'. window_handler compress2 (Some w) eb = Inr eb' \<and> eb_version eb' = 0"
  unfolding window_handler_count [OF assms(1,2)]
  using simple_insertion_spec [OF assms(1), of eb] assms(3) by (auto simp: window_handler_def encode_window_def Let_def)

lemma fold_result_map_cong:
  "(\<And>x s. x \<in> set xs \<Longrightarrow> f (Some x) s = f (Some (g x)) s) \<Longrightarrow>
   fold_result f (map Some xs @ [None]) s = fold_result f (map Some (map g xs) @ [None]) s"
proof (induction xs arbitrary: s)
  case (Cons x xs)
  then show ?case by (cases "f (Some (g x)) s") auto
qed simp

lemma fold_encoder_v0:
  assumes "\<forall>w\<in>set ws. wire_window (count_window w) \<and> count_src (win_ops w) \<le> src_ops w" and "eb_version eb = 0"
  shows "\<exists>eb'. fold_result (window_handler compress2) (map Some ws @ [None]) eb = Inr eb'"
  using assms
proof (induction ws arbitrary: eb)
  case Nil
  then show ?case by (simp add: window_handler_None)
next
  case (Cons w ws)
  obtain eb1 where "window_handler compress2 (Some w) eb = Inr eb1" "eb_version eb1 = 0"
    using window_handler_v0 [of w eb compress2] Cons.prems by auto
  then show ?case using Cons.IH [of eb1] Cons.prems(1) by simp
qed

lemma delta_wire:
  assumes "windows_for S T (int p) ws" and "p + length S < 2 ^ 63" and "w \<in> set ws"
  shows "wire_window (count_window w) \<and> count_src (win_ops w) \<le> src_ops w"
  using assms
proof (induction ws arbitrary: S T p)
  case (Cons v ws)
  let ?src = "take SVN_DELTA_WINDOW_SIZE S"
  have d: "delta_window ?src (take SVN_DELTA_WINDOW_SIZE T) (int p) v"
    "windows_for (drop SVN_DELTA_WINDOW_SIZE S) (drop SVN_DELTA_WINDOW_SIZE T) (int (p + length ?src)) ws"
    using Cons.prems(1) by simp_all
  show ?case
  proof (cases "w = v")
    case True
    then show ?thesis using d(1) Cons.prems(2) by (simp add: delta_window_def wire_window_def)
  next
    case False
    have "p + length ?src + length (drop SVN_DELTA_WINDOW_SIZE S) < 2 ^ 63"
      using Cons.prems(2) by simp
    then show ?thesis using Cons.IH [OF d(2)] False Cons.prems(3) by simp
  qed
qed simp

lemma delta_views_forward:
  assumes "windows_for S T (int p) ws" and "p + length S < 2 ^ 63" and "0 \<le> lo" and "lo + int ll \<le> int p"
  shows "views_forward lo ll ws"
  using assms
proof (induction ws arbitrary: S T p lo ll)
  case (Cons w ws)
  let ?src = "take SVN_DELTA_WINDOW_SIZE S"
  have d: "sview_offset w = int p" "sview_len w = length ?src"
    "windows_for (drop SVN_DELTA_WINDOW_SIZE S) (drop SVN_DELTA_WINDOW_SIZE T) (int (p + length ?src)) ws"
    using Cons.prems(1) by (simp_all add: delta_window_def)
  have len: "p + length ?src + length (drop SVN_DELTA_WINDOW_SIZE S) < 2 ^ 63" using Cons.prems(2) by simp
  have "views_forward (int p) (length ?src) ws"
    by (rule Cons.IH [OF d(3) len]) simp_all
  moreover have "\<not> backward_view (int p) (length ?src) lo ll"
  proof -
    have "nat lo + ll \<le> p" "p + length ?src < 2 ^ 64" using Cons.prems(3,4) len by simp_all
    then show ?thesis using Cons.prems(4) by (simp add: backward_view_def)
  qed
  ultimately show ?case by (simp add: d(1,2))
qed simp

lemma svndiff_pipeline_spec:
  assumes "version = 0 \<or> version = 1 \<and> zlib_ok compress2 uncompress"
    and "svn_txdelta_run unaligned S T (window_handler compress2) (\<lambda>_. Inr ()) (svn_txdelta_to_svndiff3 version level)
      = Some (Inr (eb, d))"
    and "concat chunks = eb_output eb" and "fresh_ok fresh" and "length S < 2 ^ 63"
  shows "\<exists>ab. svn_try (fold_result (write_handler uncompress (applier fresh unaligned')) chunks
        (svn_txdelta_parse_svndiff (Some (svn_txdelta_apply S True)) early)) (close_handler (applier fresh unaligned'))
      = Inr (Some ab) \<and> ab_target ab = T \<and> ab_digested ab = Some d \<and> ab_closed ab \<and> d = T"
proof -
  obtain ws where ws: "delta_windows unaligned S T 0 = Some ws" "windows_for S T 0 ws" using delta_windows_total by blast
  have run: "fold_result (window_handler compress2) (map Some ws @ [None]) (svn_txdelta_to_svndiff3 version level) = Inr eb"
    and d: "d = T"
    using assms(2) ws(1) by (auto simp: run_spec send_delta_def)
  have wire: "wire_window (count_window w) \<and> count_src (win_ops w) \<le> src_ops w" if "w \<in> set ws" for w
    using delta_wire [of S T 0 ws w] ws(2) assms(5) that by simp
  let ?ws = "map count_window ws"
  have run': "fold_result (window_handler compress2) (map Some ?ws @ [None]) (svn_txdelta_to_svndiff3 version level) = Inr eb"
    using run fold_result_map_cong [of ws "window_handler compress2" count_window] window_handler_count wire by metis
  have all: "\<forall>w\<in>set ?ws. wire_window w" using wire by auto
  have fwd: "views_forward 0 0 ?ws"
    using delta_views_forward [of S T 0 ?ws 0 0] windows_for_count ws(2) assms(5) by simp
  have "svn_try (fold_result (write_handler uncompress (applier fresh unaligned')) chunks
        (svn_txdelta_parse_svndiff (Some (svn_txdelta_apply S True)) early)) (close_handler (applier fresh unaligned'))
      = fold_result (applier fresh unaligned') (map Some ?ws @ [None]) (Some (svn_txdelta_apply S True))"
    by (rule svndiff_stream [OF all fwd assms(1) run' assms(3)])
  then show ?thesis
    using apply_delta_spec [OF windows_for_count [OF ws(2)] assms(4,5), of unaligned'] d by auto
qed

lemma run_encoder_v0:
  assumes "length S < 2 ^ 63"
  shows "\<exists>eb. svn_txdelta_run unaligned S T (window_handler compress2) (\<lambda>_. Inr ()) (svn_txdelta_to_svndiff3 0 level)
    = Some (Inr (eb, T))"
proof -
  obtain ws where ws: "delta_windows unaligned S T 0 = Some ws" "windows_for S T 0 ws" using delta_windows_total by blast
  have "\<forall>w\<in>set ws. wire_window (count_window w) \<and> count_src (win_ops w) \<le> src_ops w"
    using delta_wire [of S T 0 ws] ws(2) assms by simp
  then obtain eb where "fold_result (window_handler compress2) (map Some ws @ [None]) (svn_txdelta_to_svndiff3 0 level) = Inr eb"
    using fold_encoder_v0 [of ws "svn_txdelta_to_svndiff3 0 level" compress2] by (auto simp: svn_txdelta_to_svndiff3_def)
  then show ?thesis using ws(1) by (auto simp: run_spec send_delta_def)
qed

section \<open>Sending data\<close>

function pieces :: "nat \<Rightarrow> 'a list \<Rightarrow> 'a list list" where
  "pieces n xs = (if xs = [] \<or> n = 0 then [] else take n xs # pieces n (drop n xs))"
  by pat_completeness auto
termination by (relation "measure (\<lambda>(n, xs). length xs)") auto

declare pieces.simps [simp del]

lemma pieces_Nil [simp]: "pieces n [] = []"
  by (simp add: pieces.simps)

lemma send_contents_loop_Nil [simp]: "send_contents_loop handler [] s = Inr s"
  by (simp add: send_contents_loop.simps)

lemma svn_try_fold_Nil [simp]: "svn_try m (fold_result f []) = m"
  by (cases m) simp_all

lemma insertion_delta: "data \<noteq> [] \<Longrightarrow> delta_window [] data 0 (insertion_window data)"
  by (simp add: delta_window_def insertion_window_def window_ok_def window_target_def ops_target_def op_target_def op_ok_def)

lemma pieces_windows: "windows_for [] T 0 (map insertion_window (pieces SVN_DELTA_WINDOW_SIZE T))"
proof (induction "SVN_DELTA_WINDOW_SIZE" T rule: pieces.induct)
  case (1 T)
  then show ?case
    by (cases "T = []") (simp_all add: pieces.simps [of SVN_DELTA_WINDOW_SIZE T] insertion_delta)
qed

lemma send_contents_loop_spec:
  "send_contents_loop handler T s = fold_result handler (map Some (map insertion_window (pieces SVN_DELTA_WINDOW_SIZE T))) s"
proof (induction handler T s rule: send_contents_loop.induct)
  case (1 handler T s)
  show ?case
  proof (cases "T = []")
    case True
    then show ?thesis by simp
  next
    case False
    let ?n = "if length T < SVN_DELTA_WINDOW_SIZE then length T else SVN_DELTA_WINDOW_SIZE"
    have n: "take ?n T = take SVN_DELTA_WINDOW_SIZE T" "drop ?n T = drop SVN_DELTA_WINDOW_SIZE T" by auto
    have step: "send_contents_loop handler T s = svn_try (handler (Some (insertion_window (take SVN_DELTA_WINDOW_SIZE T))) s)
        (\<lambda>s. send_contents_loop handler (drop SVN_DELTA_WINDOW_SIZE T) s)"
      using False unfolding send_contents_loop.simps [of handler T s] Let_def n by simp
    show ?thesis
    proof (cases "handler (Some (insertion_window (take SVN_DELTA_WINDOW_SIZE T))) s")
      case (Inl e)
      then show ?thesis using False by (simp add: step pieces.simps [of _ T])
    next
      case (Inr s')
      have "send_contents_loop handler (drop ?n T) s'
          = fold_result handler (map Some (map insertion_window (pieces SVN_DELTA_WINDOW_SIZE (drop ?n T)))) s'"
        by (rule "1.IH" [OF _ refl]) (use False Inr n in simp_all)
      then show ?thesis using False Inr unfolding n by (simp add: step pieces.simps [of _ T])
    qed
  qed
qed

lemma send_contents_spec:
  "svn_txdelta_send_contents T handler s
     = fold_result handler (map Some (map insertion_window (pieces SVN_DELTA_WINDOW_SIZE T)) @ [None]) s"
  by (cases "fold_result handler (map Some (map insertion_window (pieces SVN_DELTA_WINDOW_SIZE T))) s")
    (simp_all add: svn_txdelta_send_contents_def send_contents_loop_spec fold_result_append)

section \<open>Views that slide back\<close>

text \<open>An empty view that starts before the source buffer makes \<open>memmove\<close> read before the buffer.\<close>

lemma backward_empty_view:
  assumes "apply_inv S off len ab" and "0 < len" and "0 \<le> sview_offset w" and "sview_offset w < int off"
    and "sview_len w = 0" and "tview_len w \<le> SVN_DELTA_WINDOW_SIZE" and "fresh_ok fresh" and "length S < 2 ^ 63"
  shows "apply_window fresh unaligned (Some w) ab = None"
proof -
  note i = assms(1) [unfolded apply_inv_def]
  let ?d = "int off - sview_offset w"
  have W: "length (ab_sbuf ab) < 2 ^ 63" using i by (simp add: SVN_DELTA_WINDOW_SIZE_def)
  have d: "0 < ?d" "?d < 2 ^ 63" using assms(3,4,8) i by auto
  have start: "u64 (sview_offset w - ab_sbuf_offset ab) = nat (2 ^ 64 - ?d)"
  proof -
    have "2 ^ 64 - ?d = (sview_offset w - int off) + 2 ^ 64" by simp
    then have "(sview_offset w - int off) mod 2 ^ 64 = (2 ^ 64 - ?d) mod 2 ^ 64" by (simp only: mod_add_self2)
    also have "\<dots> = 2 ^ 64 - ?d" by (rule mod_pos_pos_trivial) (use d in auto)
    finally show ?thesis using i by (simp add: u64_def)
  qed
  have "length (ab_sbuf ab) < nat (2 ^ 64 - ?d)" using W d by auto
  then have rd: "mem_read (ab_sbuf ab) (u64 (sview_offset w - ab_sbuf_offset ab)) n = None" for n
    unfolding start by (simp add: mem_read_def)
  have u: "u64 (ab_sbuf_offset ab + int (ab_sbuf_len ab)) > u64 (sview_offset w)"
    using i assms(2-4,8) by auto
  have "prepare_source fresh w ab = None"
    using i assms(4,5) u rd by (simp add: prepare_source_def size_buffer_def Let_def)
  moreover obtain tbuf where "size_buffer fresh (ab_tbuf ab) (tview_len w) = Inr tbuf"
    using size_buffer_spec [OF assms(7), of "ab_tbuf ab" "tview_len w"] i assms(6) by blast
  ultimately show ?thesis using assms(5) by (simp add: apply_window_def)
qed

lemma send_stream_loop_Nil [simp]: "send_stream_loop handler [] s digested = Inr (s, digested)"
  by (simp add: send_stream_loop.simps)

lemma send_stream_loop_spec:
  "send_stream_loop handler T s digested
     = svn_try (fold_result handler (map Some (map insertion_window (pieces SVN_STREAM_CHUNK_SIZE T))) s)
         (\<lambda>s. Inr (s, digested @ T))"
proof (induction handler T s digested rule: send_stream_loop.induct)
  case (1 handler T s digested)
  let ?n = SVN_STREAM_CHUNK_SIZE
  have pos: "?n \<noteq> 0" by (simp add: SVN_STREAM_CHUNK_SIZE_def)
  show ?case
  proof (cases "T = []")
    case True
    then show ?thesis by (simp add: send_stream_loop.simps [of handler T])
  next
    case False
    then have ne: "length (take ?n T) \<noteq> 0" using pos by simp
    show ?thesis
    proof (cases "handler (Some (insertion_window (take ?n T))) s")
      case (Inl e)
      then show ?thesis using False pos ne by (simp add: send_stream_loop.simps [of handler T] pieces.simps [of _ T])
    next
      case (Inr s')
      show ?thesis
      proof (cases "length (take ?n T) < ?n")
        case True
        then have "drop ?n T = []" "take ?n T = T" by simp_all
        then show ?thesis using False pos ne True Inr
          by (simp add: send_stream_loop.simps [of handler T] pieces.simps [of _ T])
      next
        case long: False
        have "send_stream_loop handler (drop ?n T) s' (digested @ take ?n T)
          = svn_try (fold_result handler (map Some (map insertion_window (pieces ?n (drop ?n T)))) s')
              (\<lambda>s. Inr (s, (digested @ take ?n T) @ drop ?n T))"
          by (rule "1.IH" [OF refl refl ne Inr long])
        then show ?thesis using False pos ne long Inr
          by (simp add: send_stream_loop.simps [of handler T s] pieces.simps [of _ T])
      qed
    qed
  qed
qed

lemma send_stream_spec:
  "svn_txdelta_send_stream T handler s
     = svn_try (fold_result handler (map Some (map insertion_window (pieces SVN_STREAM_CHUNK_SIZE T)) @ [None]) s)
         (\<lambda>s. Inr (s, T))"
proof (cases "fold_result handler (map Some (map insertion_window (pieces SVN_STREAM_CHUNK_SIZE T))) s")
  case (Inr s')
  then show ?thesis
    by (cases "handler None s'") (simp_all add: svn_txdelta_send_stream_def send_stream_loop_spec fold_result_append)
qed (simp add: svn_txdelta_send_stream_def send_stream_loop_spec fold_result_append)

lemma concat_pieces: "0 < n \<Longrightarrow> concat (pieces n xs) = xs"
  by (induction n xs rule: pieces.induct) (simp add: pieces.simps)

lemma pieces_size: "ys \<in> set (pieces n xs) \<Longrightarrow> ys \<noteq> [] \<and> length ys \<le> n"
proof (induction n xs rule: pieces.induct)
  case (1 n xs)
  then show ?case by (cases "xs = [] \<or> n = 0") (auto simp: pieces.simps [of n xs])
qed

text \<open>Insertions of any sizes up to the window size are applied one after the other.\<close>

lemma apply_insertions:
  assumes "\<forall>d\<in>set ds. d \<noteq> [] \<and> length d \<le> SVN_DELTA_WINDOW_SIZE" and "apply_inv [] 0 0 ab" and "fresh_ok fresh"
  shows "\<exists>ab'. fold_result (applier fresh unaligned) (map Some (map insertion_window ds) @ [None]) (Some ab) = Inr (Some ab')
    \<and> ab_target ab' = ab_target ab @ concat ds \<and> ab_closed ab'"
  using assms(1,2)
proof (induction ds arbitrary: ab)
  case Nil
  then show ?case by (simp add: applier_def apply_window_def)
next
  case (Cons d ds)
  let ?w = "insertion_window d"
  have w: "delta_window [] d 0 ?w" using insertion_delta Cons.prems(1) by simp
  then have ok: "window_ok ?w" "window_target ?w [] = d" by (simp_all add: delta_window_def)
  have s: "sview_offset ?w = 0" "sview_len ?w = 0" "tview_len ?w = length d" by (simp_all add: insertion_window_def)
  obtain ab1 where ab1: "apply_window fresh unaligned (Some ?w) ab = Some (Inr ab1)" "apply_inv [] 0 0 ab1"
    "ab_target ab1 = ab_target ab @ d"
    using apply_window_spec [OF Cons.prems(2) _ assms(3) _ _ _ ok(1), of unaligned] Cons.prems(1) ok(2)
    by (auto simp: s view_slides_def)
  then show ?case using Cons.IH [OF _ ab1(2)] Cons.prems(1) by (simp add: applier_def [of _ _ "Some ?w"])
qed

lemma send_string_encoded:
  assumes "length data < 2 ^ 63"
  obtains eb r k where "svn_txdelta_send_string data (window_handler compress2) (svn_txdelta_to_svndiff3 0 level) = Inr eb"
    and "eb_output eb = svndiff_header 0 @ encode_int (nat 0) @ encode_int 0 @ encode_int (length data)
      @ encode_int k @ encode_int (length data) @ r" and "k < 128"
proof -
  let ?L = "length data"
  let ?ibuf = "if ?L div 2 ^ 6 = 0 then [word_of_nat ?L + push_bit 6 2] else push_bit 6 2 # encode_int ?L :: bytes"
  have k: "length ?ibuf < 128" using length_encode_int [of ?L] by simp
  have one: "[word_of_nat (length ?ibuf)] = encode_int (length ?ibuf)" using encode_int_small [OF k] by simp
  have nd: "(if ?L > 0 then data else []) = data" by auto
  let ?eb = "(svn_txdelta_to_svndiff3 0 level)\<lparr>eb_header_done := True,
      eb_output := svndiff_header 0 @ encode_int (nat 0) @ encode_int 0 @ encode_int ?L
        @ encode_int (length ?ibuf) @ encode_int ?L @ ?ibuf @ data, eb_closed := True\<rparr>"
  have "window_handler compress2 (Some (insertion_window data)) (svn_txdelta_to_svndiff3 0 level)
      = Inr (?eb\<lparr>eb_closed := False\<rparr>)"
    unfolding one [symmetric]
    by (simp add: window_handler_def send_simple_insertion_window_def insertion_window_def svn_txdelta_to_svndiff3_def Let_def nd)
  then have "svn_txdelta_send_string data (window_handler compress2) (svn_txdelta_to_svndiff3 0 level) = Inr ?eb"
    by (simp add: svn_txdelta_send_string_def window_handler_None pending_header_def svn_txdelta_to_svndiff3_def)
  then show ?thesis by (rule that) (use k in simp_all)
qed

lemma chew_header_first:
  "chew_header (svndiff_header 0 @ x) (svn_txdelta_parse_svndiff s early)
    = Inr ((svn_txdelta_parse_svndiff s early)\<lparr>db_version := 0, db_header_bytes := 4\<rparr>, x)"
  by (simp add: chew_header_def svn_txdelta_parse_svndiff_def svndiff_header_def numeral_eq_Suc Let_def)

lemma too_large_rejected:
  assumes "SVN_DELTA_WINDOW_SIZE < n" and "n < 2 ^ 64" and "k < 128"
  shows "write_handler uncompress cons (svndiff_header 0 @ encode_int (nat 0) @ encode_int 0 @ encode_int n
      @ encode_int k @ encode_int n @ r) (svn_txdelta_parse_svndiff s early) = Inl Svndiff_corrupt_window"
proof -
  let ?p = "encode_int (nat 0) @ encode_int 0 @ encode_int n @ encode_int k @ encode_int n @ r"
  let ?db = "(svn_txdelta_parse_svndiff s early)\<lparr>db_version := 0, db_header_bytes := 4, db_buffer := ?p\<rparr>"
  have "decode_header ?p = Some ((0, 0, n, k, n), r)"
    by (rule decode_header_encode) (use assms in simp_all)
  moreover have "\<not> header_fits 0 0 n k n" using assms(1) by (simp add: header_fits_def)
  ultimately have "write_loop uncompress cons ?db = Inl Svndiff_corrupt_window"
    unfolding write_loop.simps [of uncompress cons ?db] by simp
  then show ?thesis
    unfolding write_handler_def chew_header_first by (simp add: svn_txdelta_parse_svndiff_def)
qed

section \<open>Properties\<close>



text \<open>C30. Computing the delta window by window and handing each to the applier reproduces the target,
  for every source below \<open>2 ^ 63\<close> bytes and every target: the delta always ends and never fails.\<close>

theorem delta_run_apply:
  assumes "fresh_ok fresh" and "length S < 2 ^ 63"
  shows "\<exists>ab. svn_txdelta_run unaligned S T (applier fresh unaligned') (\<lambda>_. Inr ()) (Some (svn_txdelta_apply S True))
      = Some (Inr (Some ab, T)) \<and> ab_target ab = T \<and> ab_digested ab = Some T \<and> ab_closed ab"
proof -
  obtain ws where "delta_windows unaligned S T 0 = Some ws" "windows_for S T 0 ws" using delta_windows_total by blast
  then show ?thesis
    using apply_delta_spec [OF _ assms, of T ws unaligned'] by (auto simp: run_spec send_delta_def)
qed

theorem delta_run_apply_witness:
  "\<exists>ab. svn_txdelta_run True [1, 2, 3] [3, 4] (applier (\<lambda>n. replicate n 0) True) (\<lambda>_. Inr ())
      (Some (svn_txdelta_apply [1, 2, 3] True)) = Some (Inr (Some ab, [3, 4])) \<and> ab_target ab = [3, 4]"
  using delta_run_apply [of "\<lambda>n. replicate n 0" "[1, 2, 3]" True "[3, 4]" True] by (auto simp: fresh_ok_def)

text \<open>C11. One window is applied to a source stream of fewer than \<open>2 ^ 63\<close> bytes that has been read as far
  as the source buffer shows (\<open>apply_inv\<close>, which holds at the start and is kept). The window is valid,
  its views have at most \<open>SVN_DELTA_WINDOW_SIZE\<close> bytes, and the source view slides forward: it starts
  in or right behind what the buffer covers, and ends no earlier unless it is empty. Then the window's
  target view is appended, the buffer covers the new view, and nothing is read or written out of
  bounds; a source that ends before the view does is reported as incomplete data.\<close>

theorem apply_window_refines:
  assumes "apply_inv S off len ab" and "view_slides off len w" and "fresh_ok fresh" and "length S < 2 ^ 63"
    and "sview_len w \<le> SVN_DELTA_WINDOW_SIZE" and "tview_len w \<le> SVN_DELTA_WINDOW_SIZE" and "window_ok w"
  shows "if nat (sview_offset w) + sview_len w \<le> length S
    then \<exists>ab' len'. apply_window fresh unaligned (Some w) ab = Some (Inr ab')
      \<and> apply_inv S (nat (sview_offset w)) len' ab' \<and> sview_len w \<le> len'
      \<and> ab_target ab' = ab_target ab @ window_target w (take (sview_len w) (drop (nat (sview_offset w)) S))
    else apply_window fresh unaligned (Some w) ab = Some (Inl Incomplete_data)"
  using apply_window_spec [OF assms, of unaligned] by (auto split: if_splits intro!: max.cobounded2)

theorem apply_window_refines_witness:
  "\<exists>w w' ab'. apply_window (\<lambda>n. replicate n 0) True (Some w) (svn_txdelta_apply [5, 6] False) = Some (Inl Incomplete_data)
    \<and> sview_len w = 3
    \<and> apply_window (\<lambda>n. replicate n 0) True (Some w') (svn_txdelta_apply [5, 6] False) = Some (Inr ab')
    \<and> sview_len w' = 2 \<and> ab_target ab' = [6, 9, 9]"
proof -
  let ?w = "\<lparr>sview_offset = 0, sview_len = 3, tview_len = 1, src_ops = 1, win_ops = [dop Delta_source 0 1], new_data = []\<rparr>"
  let ?w' = "\<lparr>sview_offset = 0, sview_len = 2, tview_len = 3, src_ops = 1,
    win_ops = [dop Delta_source 1 1, dop Delta_new 0 1, dop Delta_target 1 1], new_data = [9]\<rparr>"
  let ?fresh = "\<lambda>n. replicate n (0 :: byte)"
  have f: "fresh_ok ?fresh" by (simp add: fresh_ok_def)
  have w: "apply_window ?fresh True (Some ?w) (svn_txdelta_apply [5, 6] False) = Some (Inl Incomplete_data)"
    using apply_window_refines [OF apply_inv_init [of "[5, 6]" False], where w = ?w and fresh = ?fresh
        and unaligned = True]
    by (simp add: view_slides_def f window_ok_def op_ok_def SVN_DELTA_WINDOW_SIZE_def)
  have "window_target ?w' [5, 6] = [6, 9, 9]"
    by (simp add: window_target_def ops_target_def op_target_def numeral_eq_Suc)
  then obtain ab' where "apply_window ?fresh True (Some ?w') (svn_txdelta_apply [5, 6] False) = Some (Inr ab')"
    "ab_target ab' = [6, 9, 9]"
    using apply_window_refines [OF apply_inv_init [of "[5, 6]" False], where w = ?w' and fresh = ?fresh
        and unaligned = True]
    by (auto simp: view_slides_def f window_ok_def op_ok_def SVN_DELTA_WINDOW_SIZE_def svn_txdelta_apply_def)
  then show ?thesis using w by (intro exI [of _ ?w] exI [of _ ?w'] exI [of _ ab']) simp
qed

text \<open>Whatever the contents, sending them as a delta against the empty source and applying it gives
  them back, in windows of at most \<open>SVN_DELTA_WINDOW_SIZE\<close> bytes.\<close>

theorem send_contents_apply:
  assumes "fresh_ok fresh"
  shows "\<exists>ab. svn_txdelta_send_contents T (applier fresh unaligned) (Some (svn_txdelta_apply [] True)) = Inr (Some ab)
    \<and> ab_target ab = T \<and> ab_closed ab"
  using apply_delta_spec [OF pieces_windows assms, where T = T and unaligned = unaligned] by (auto simp: send_contents_spec)

theorem send_contents_apply_witness:
  "\<exists>ab. svn_txdelta_send_contents (replicate 200000 1) (applier (\<lambda>n. replicate n 0) True) (Some (svn_txdelta_apply [] True))
      = Inr (Some ab) \<and> ab_target ab = replicate 200000 1"
  using send_contents_apply [of "\<lambda>n. replicate n 0" "replicate 200000 1" True] by (auto simp: fresh_ok_def)

text \<open>A window with an empty source view that starts before the source buffer is let through by the
  assertion against views sliding backwards, and then makes the applier read outside its buffer.
  The svndiff decoder lets such a window through as well.\<close>

theorem empty_view_out_of_bounds:
  assumes "apply_inv S off len ab" and "0 < len" and "0 \<le> sview_offset w" and "sview_offset w < int off"
    and "sview_len w = 0" and "tview_len w \<le> SVN_DELTA_WINDOW_SIZE" and "fresh_ok fresh" and "length S < 2 ^ 63"
  shows "apply_window fresh unaligned (Some w) ab = None
    \<and> \<not> backward_view (sview_offset w) (sview_len w) (int off) len"
  using backward_empty_view [OF assms] assms(5) by (simp add: backward_view_def)

theorem empty_view_out_of_bounds_witness:
  "\<exists>w ab. apply_window (\<lambda>n. replicate n 0) True (Some w) ab = None \<and> wire_window w \<and> apply_inv [1, 2, 3] 1 2 ab"
proof -
  let ?w = "\<lparr>sview_offset = 0, sview_len = 0, tview_len = 1, src_ops = 0, win_ops = [dop Delta_new 0 1], new_data = [9]\<rparr>"
  let ?ab = "(svn_txdelta_apply [] False)\<lparr>ab_sbuf := [2, 3], ab_sbuf_offset := 1, ab_sbuf_len := 2\<rparr>"
  have inv: "apply_inv [1, 2, 3] 1 2 ?ab" by (simp add: apply_inv_def svn_txdelta_apply_def SVN_DELTA_WINDOW_SIZE_def)
  moreover have "wire_window ?w"
    by (simp add: wire_window_def window_ok_def op_ok_def count_src_def SVN_DELTA_WINDOW_SIZE_def)
  ultimately show ?thesis
    using empty_view_out_of_bounds [OF inv, of ?w "\<lambda>n. replicate n 0" True]
    by (intro exI [of _ ?w] exI [of _ ?ab]) (simp add: fresh_ok_def SVN_DELTA_WINDOW_SIZE_def)
qed

text \<open>A view that starts behind what has been read is not looked for in the source: the bytes in
  between are not skipped, and the window is applied to the wrong part of the source.\<close>

theorem view_gap_not_skipped:
  "\<exists>w ab. wire_window w \<and> views_forward 0 0 [w] \<and> window_target w (take 1 (drop 2 [1, 2, 3])) = [3]
    \<and> apply_window (\<lambda>n. replicate n 0) True (Some w) (svn_txdelta_apply [1, 2, 3] False) = Some (Inr ab)
    \<and> sview_offset w = 2 \<and> ab_target ab = [1]"
proof -
  let ?w = "\<lparr>sview_offset = 2, sview_len = 1, tview_len = 1, src_ops = 1, win_ops = [dop Delta_source 0 1], new_data = []\<rparr>"
  have "case apply_window (\<lambda>n. replicate n 0) True (Some ?w) (svn_txdelta_apply [1, 2, 3] False) of
      Some (Inr ab) \<Rightarrow> ab_target ab = [1] | _ \<Rightarrow> False"
    by (simp add: apply_window_def svn_txdelta_apply_def size_buffer_def prepare_source_def read_source_def mem_write_def
        svn_txdelta_apply_instructions_def fast_memcpy_def APR_ALIGN_DEFAULT_def u64_def)
  then obtain ab where "apply_window (\<lambda>n. replicate n 0) True (Some ?w) (svn_txdelta_apply [1, 2, 3] False) = Some (Inr ab)"
    "ab_target ab = [1]" by (auto split: option.splits sum.splits)
  then show ?thesis
    by (intro exI [of _ ?w] exI [of _ ab])
      (simp add: wire_window_def window_ok_def op_ok_def count_src_def SVN_DELTA_WINDOW_SIZE_def backward_view_def
        window_target_def ops_target_def op_target_def)
qed

text \<open>\<open>svn_txdelta_send_stream\<close> hands on the whole stream, in chunks that end with the first short
  read, and the digest is over all of it; applied, it gives the stream back.\<close>

theorem send_stream_apply:
  assumes "fresh_ok fresh"
  shows "\<exists>ab. svn_txdelta_send_stream T (applier fresh unaligned) (Some (svn_txdelta_apply [] True)) = Inr (Some ab, T)
    \<and> ab_target ab = T \<and> ab_closed ab"
proof -
  let ?ds = "pieces SVN_STREAM_CHUNK_SIZE T"
  have "d \<noteq> [] \<and> length d \<le> SVN_DELTA_WINDOW_SIZE" if "d \<in> set ?ds" for d
    using pieces_size [OF that] by (simp add: SVN_STREAM_CHUNK_SIZE_def SVN_DELTA_WINDOW_SIZE_def)
  then obtain ab where "fold_result (applier fresh unaligned) (map Some (map insertion_window ?ds) @ [None])
      (Some (svn_txdelta_apply [] True)) = Inr (Some ab)"
    "ab_target ab = ab_target (svn_txdelta_apply [] True) @ concat ?ds" "ab_closed ab"
    using apply_insertions [OF _ apply_inv_init [of "[]" True] assms, of ?ds unaligned] by blast
  moreover have "concat ?ds = T" by (rule concat_pieces) (simp add: SVN_STREAM_CHUNK_SIZE_def)
  ultimately show ?thesis unfolding send_stream_spec by (simp add: svn_txdelta_apply_def)
qed

theorem send_stream_apply_witness:
  "\<exists>ab. svn_txdelta_send_stream (replicate 20000 1) (applier (\<lambda>n. replicate n 0) True) (Some (svn_txdelta_apply [] True))
      = Inr (Some ab, replicate 20000 1) \<and> ab_target ab = replicate 20000 1"
  using send_stream_apply [of "\<lambda>n. replicate n 0" "replicate 20000 1" True] by (auto simp: fresh_ok_def)

text \<open>\<open>svn_txdelta_send_string\<close> sends a string of any length as one window. Through svndiff a string
  longer than \<open>SVN_DELTA_WINDOW_SIZE\<close> is encoded without complaint and then rejected by the decoder.\<close>

theorem send_string_too_long:
  assumes "SVN_DELTA_WINDOW_SIZE < length data" and "length data < 2 ^ 63"
  shows "\<exists>eb. svn_txdelta_send_string data (window_handler compress2) (svn_txdelta_to_svndiff3 0 level) = Inr eb
    \<and> write_handler uncompress cons (eb_output eb) (svn_txdelta_parse_svndiff s early) = Inl Svndiff_corrupt_window"
proof -
  obtain eb r k where "svn_txdelta_send_string data (window_handler compress2) (svn_txdelta_to_svndiff3 0 level) = Inr eb"
    "eb_output eb = svndiff_header 0 @ encode_int (nat 0) @ encode_int 0 @ encode_int (length data)
      @ encode_int k @ encode_int (length data) @ r" "k < 128"
    by (rule send_string_encoded [OF assms(2)])
  then show ?thesis using too_large_rejected [OF assms(1)] assms(2) by auto
qed

theorem send_string_too_long_witness:
  "\<exists>eb. svn_txdelta_send_string (replicate 102401 1) (window_handler (\<lambda>d l. Inl 0)) (svn_txdelta_to_svndiff3 0 5) = Inr eb
    \<and> write_handler (\<lambda>d n. Inl 0) (\<lambda>w s. Inr ()) (eb_output eb) (svn_txdelta_parse_svndiff () True)
      = Inl Svndiff_corrupt_window"
  by (rule send_string_too_long) (simp_all add: SVN_DELTA_WINDOW_SIZE_def)

end
