(* ===== verification/Range_Index.thy ===== *)
theory Range_Index
  imports Delta_Build "HOL-Library.Tree"
begin

text \<open>
  The range index of \<open>libsvn_delta/compose_delta.c\<close>: a splay tree of the ranges of a window's source that
  the composite has already produced, threaded by a linked list, and the list of ranges it gives for a
  source copy. Offsets are \<open>nat\<close>: they are bounded by the size of a window.
\<close>

section \<open>The range index\<close>

text \<open>
  A node says that the range from \<open>offset\<close> to \<open>limit\<close> of the source of a window is represented in its
  target at \<open>target_offset\<close>. The nodes are in a splay tree, whose links \<open>left\<close> and \<open>right\<close> make it
  a \<open>tree\<close>, and in a doubly linked list, whose links \<open>prev\<close> and \<open>next\<close> make it a list;
  \<open>rin_addr\<close> is the address of a node, by which both know it. Blocks are never reused.
\<close>

record range_index_node =
  rin_addr :: nat
  rin_offset :: nat
  rin_limit :: nat
  rin_target_offset :: nat

type_synonym range_tree = "range_index_node tree"

record range_index =
  ri_tree :: range_tree
  ri_list :: "range_index_node list"
  ri_fresh :: nat

definition create_range_index :: range_index where
  "create_range_index = \<lparr>ri_tree = Leaf, ri_list = [], ri_fresh = 0\<rparr>"

text \<open>\<open>node->next\<close> and \<open>node->prev\<close>.\<close>

fun list_next :: "nat \<Rightarrow> range_index_node list \<Rightarrow> range_index_node option" where
  "list_next a (x # y # ns) = (if rin_addr x = a then Some y else list_next a (y # ns))"
| "list_next a _ = None"

fun list_prev :: "nat \<Rightarrow> range_index_node list \<Rightarrow> range_index_node option" where
  "list_prev a (x # y # ns) = (if rin_addr y = a then Some x else list_prev a (y # ns))"
| "list_prev a _ = None"

text \<open>Linking a new node in after the one at \<open>a\<close>, and storing into a node.\<close>

fun link_after :: "nat \<Rightarrow> range_index_node \<Rightarrow> range_index_node list \<Rightarrow> range_index_node list" where
  "link_after a new [] = []"
| "link_after a new (x # ns) = (if rin_addr x = a then x # new # ns else x # link_after a new ns)"

definition store_node :: "range_index_node \<Rightarrow> range_index_node list \<Rightarrow> range_index_node list" where
  "store_node node ns = map (\<lambda>x. if rin_addr x = rin_addr node then node else x) ns"

definition alloc_range_index_node :: "range_index \<Rightarrow> nat \<Rightarrow> nat \<Rightarrow> nat \<Rightarrow> range_index_node \<times> range_index" where
  "alloc_range_index_node ndx offset limit target_offset =
     (\<lparr>rin_addr = ri_fresh ndx, rin_offset = offset, rin_limit = limit, rin_target_offset = target_offset\<rparr>,
      ndx\<lparr>ri_fresh := Suc (ri_fresh ndx)\<rparr>)"

definition free_range_index_node :: "range_index \<Rightarrow> range_index_node \<Rightarrow> range_index" where
  "free_range_index_node ndx node = ndx\<lparr>ri_list := filter (\<lambda>x. rin_addr x \<noteq> rin_addr node) (ri_list ndx)\<rparr>"

section \<open>Splaying\<close>

text \<open>
  The two trees that are built on the way down hang at \<open>scratch_node\<close>. The left one is its right
  spine, a list of nodes with their left subtrees, the one added last first; the right one its left spine.
\<close>

type_synonym left_spine = "(range_tree \<times> range_index_node) list"
type_synonym right_spine = "(range_index_node \<times> range_tree) list"

fun link_left :: "range_tree \<Rightarrow> left_spine \<Rightarrow> range_tree" where
  "link_left t [] = t"
| "link_left t ((l, x) # ls) = link_left (Node l x t) ls"

fun link_right :: "range_tree \<Rightarrow> right_spine \<Rightarrow> range_tree" where
  "link_right t [] = t"
| "link_right t ((x, r) # rs) = link_right (Node t x r) rs"

fun rotate_right :: "nat \<Rightarrow> range_tree \<Rightarrow> range_tree" where
  "rotate_right offset (Node (Node ll y lr) x r) =
     (if offset < rin_offset y then Node ll y (Node lr x r) else Node (Node ll y lr) x r)"
| "rotate_right offset t = t"

fun rotate_left :: "nat \<Rightarrow> range_tree \<Rightarrow> range_tree" where
  "rotate_left offset (Node l x (Node rl y rr)) =
     (if offset > rin_offset y then Node (Node l x rl) y rr else Node l x (Node rl y rr))"
| "rotate_left offset t = t"

lemma size_rotate [simp]: "size (rotate_right offset t) = size t" "size (rotate_left offset t) = size t"
  by (cases "(offset, t)" rule: rotate_right.cases, simp_all) (cases "(offset, t)" rule: rotate_left.cases, simp_all)

function splay_loop ::
    "nat \<Rightarrow> range_tree \<Rightarrow> left_spine \<Rightarrow> right_spine \<Rightarrow> range_tree \<times> left_spine \<times> right_spine" where
  "splay_loop offset Leaf ls rs = (Leaf, ls, rs)"
| "splay_loop offset (Node l x r) ls rs =
     (if offset < rin_offset x
      then case rotate_right offset (Node l x r) of
             Node l x r \<Rightarrow> if l = Leaf then (Node l x r, ls, rs) else splay_loop offset l ls ((x, r) # rs)
           | Leaf \<Rightarrow> (Leaf, ls, rs)
      else if offset > rin_offset x
      then case rotate_left offset (Node l x r) of
             Node l x r \<Rightarrow> if r = Leaf then (Node l x r, ls, rs) else splay_loop offset r ((l, x) # ls) rs
           | Leaf \<Rightarrow> (Leaf, ls, rs)
      else (Node l x r, ls, rs))"
  by pat_completeness auto
termination
proof (relation "measure (\<lambda>(_, t, _). size t)", simp, goal_cases)
  case (1 offset l x r ls rs l' x' r')
  then show ?case using size_rotate(1) [of offset "Node l x r"] by simp
next
  case (2 offset l x r ls rs l' x' r')
  then show ?case using size_rotate(2) [of offset "Node l x r"] by simp
qed

declare splay_loop.simps [simp del]

text \<open>The rightmost node of a tree, and what is left when its left subtree takes its place.\<close>

fun detach_rightmost :: "range_tree \<Rightarrow> (range_tree \<times> range_index_node) option" where
  "detach_rightmost Leaf = None"
| "detach_rightmost (Node l x r) =
     (case detach_rightmost r of None \<Rightarrow> Some (l, x) | Some (r, m) \<Rightarrow> Some (Node l x r, m))"

text \<open>Turning the tree around: the greatest node that does not lie behind \<open>offset\<close> comes to the top.\<close>

definition splay_turn :: "nat \<Rightarrow> range_tree \<Rightarrow> range_tree" where
  "splay_turn offset t =
     (case t of
        Node (Node ll y lr) x r \<Rightarrow>
          if offset < rin_offset x
          then if lr = Leaf then Node ll y (Node lr x r)
               else (case detach_rightmost (Node ll y lr) of
                       Some (l, m) \<Rightarrow> Node l m (Node Leaf x r)
                     | None \<Rightarrow> t)
          else t
      | _ \<Rightarrow> t)"

definition splay_range_index :: "nat \<Rightarrow> range_index \<Rightarrow> range_index option" where
  "splay_range_index offset ndx =
     (case splay_loop offset (ri_tree ndx) [] [] of
        (Leaf, ls, rs) \<Rightarrow> Some ndx
      | (Node l x r, ls, rs) \<Rightarrow>
          (case splay_turn offset (Node (link_left l ls) x (link_right r rs)) of
             Leaf \<Rightarrow> None
           | Node l x r \<Rightarrow>
               Option.bind (assert_opt (offset \<ge> rin_offset x \<or> l = Leaf \<and> list_prev (rin_addr x) (ri_list ndx) = None))
                 (\<lambda>_. Some (ndx\<lparr>ri_tree := Node l x r\<rparr>))))"

section \<open>Inserting\<close>

text \<open>
  \<open>clean_subtree\<close> is the loop of \<open>clean_tree\<close>, from a subtree and \<open>top_offset\<close> on; its value is what
  becomes of the subtree and the nodes that are freed, in the order of \<open>delete_subtree\<close>.
\<close>

fun clean_subtree :: "nat \<Rightarrow> nat \<Rightarrow> range_tree \<Rightarrow> range_tree \<times> range_index_node list" where
  "clean_subtree limit top_offset Leaf = (Leaf, [])"
| "clean_subtree limit top_offset (Node l x r) =
     (let offset = (case r of Node _ y _ \<Rightarrow> if rin_offset y < top_offset then rin_offset y else top_offset
                            | Leaf \<Rightarrow> top_offset) in
      if rin_limit x \<le> limit \<or> rin_offset x < limit \<and> offset < limit
      then (case clean_subtree limit top_offset r of (t, freed) \<Rightarrow> (t, postorder (Node l x Leaf) @ freed))
      else (case clean_subtree limit (rin_offset x) l of (l, freed) \<Rightarrow> (Node l x r, freed)))"

definition clean_tree :: "range_index \<Rightarrow> nat \<Rightarrow> range_index" where
  "clean_tree ndx limit =
     (case ri_tree ndx of
        Node l x r \<Rightarrow>
          (case clean_subtree limit (limit + 1) r of
             (r, freed) \<Rightarrow> fold (\<lambda>node ndx. free_range_index_node ndx node) freed (ndx\<lparr>ri_tree := Node l x r\<rparr>))
      | Leaf \<Rightarrow> ndx)"

definition insert_range :: "nat \<Rightarrow> nat \<Rightarrow> nat \<Rightarrow> range_index \<Rightarrow> range_index option" where
  "insert_range offset limit target_offset ndx =
     (case ri_tree ndx of
        Leaf \<Rightarrow> (case alloc_range_index_node ndx offset limit target_offset of
                  (node, ndx) \<Rightarrow> Some (ndx\<lparr>ri_tree := Node Leaf node Leaf, ri_list := [node]\<rparr>))
      | Node l x r \<Rightarrow>
          if offset = rin_offset x \<and> limit > rin_limit x
          then let x = x\<lparr>rin_limit := limit, rin_target_offset := target_offset\<rparr>
               in Some (clean_tree (ndx\<lparr>ri_tree := Node l x r, ri_list := store_node x (ri_list ndx)\<rparr>) limit)
          else if offset > rin_offset x \<and> limit > rin_limit x
          then if (case list_next (rin_addr x) (ri_list ndx) of
                     None \<Rightarrow> True | Some n \<Rightarrow> rin_limit x < rin_offset n \<or> limit > rin_limit n)
               then if (case list_prev (rin_addr x) (ri_list ndx) of None \<Rightarrow> False | Some p \<Rightarrow> rin_limit p > offset)
                    then let x = x\<lparr>rin_offset := offset, rin_limit := limit, rin_target_offset := target_offset\<rparr>
                         in Some (clean_tree (ndx\<lparr>ri_tree := Node l x r, ri_list := store_node x (ri_list ndx)\<rparr>) limit)
                    else (case alloc_range_index_node ndx offset limit target_offset of
                            (node, ndx) \<Rightarrow> Some (clean_tree (ndx\<lparr>ri_list := link_after (rin_addr x) node (ri_list ndx),
                              ri_tree := Node (Node l x Leaf) node r\<rparr>) limit))
               else Some ndx
          else if offset < rin_offset x
          then Option.bind (assert_opt (l = Leaf)) (\<lambda>_.
                 case alloc_range_index_node ndx offset limit target_offset of
                   (node, ndx) \<Rightarrow> Some (clean_tree (ndx\<lparr>ri_list := node # dropWhile (\<lambda>n. rin_addr n \<noteq> rin_addr x) (ri_list ndx),
                     ri_tree := Node Leaf node (Node l x r)\<rparr>) limit))
          else Some ndx)"

section \<open>Ranges for a source copy\<close>

datatype range_kind = Range_from_source | Range_from_target

record range_list_node =
  rln_kind :: range_kind
  rln_offset :: nat
  rln_limit :: nat
  rln_target_offset :: nat

abbreviation from_source :: "nat \<Rightarrow> nat \<Rightarrow> range_list_node" where
  "from_source offset limit \<equiv> \<lparr>rln_kind = Range_from_source, rln_offset = offset, rln_limit = limit, rln_target_offset = 0\<rparr>"

abbreviation from_target :: "nat \<Rightarrow> nat \<Rightarrow> nat \<Rightarrow> range_list_node" where
  "from_target offset limit tgt \<equiv> \<lparr>rln_kind = Range_from_target, rln_offset = offset, rln_limit = limit, rln_target_offset = tgt\<rparr>"

text \<open>The loop of \<open>build_range_list\<close>, with \<open>node\<close> and what follows it in the list.\<close>

function range_list_loop :: "nat \<Rightarrow> nat \<Rightarrow> range_index_node list \<Rightarrow> range_list_node list option" where
  "range_list_loop offset limit ns =
     (if offset < limit
      then case ns of
             [] \<Rightarrow> Some [from_source offset limit]
           | node # ns \<Rightarrow>
               if offset < rin_offset node
               then if limit \<le> rin_offset node then Some [from_source offset limit]
                    else map_option (Cons (from_source offset (rin_offset node)))
                           (range_list_loop (rin_offset node) limit (node # ns))
               else if offset \<ge> rin_limit node then range_list_loop offset limit ns
               else let target_offset = offset - rin_offset node + rin_target_offset node in
                 if limit \<le> rin_limit node then Some [from_target offset limit target_offset]
                 else map_option (Cons (from_target offset (rin_limit node) target_offset))
                        (range_list_loop (rin_limit node) limit ns)
      else None)"
  by pat_completeness auto
termination
  by (relation "measures [\<lambda>(offset, limit, ns). length ns, \<lambda>(offset, limit, ns). limit - offset]") auto

declare range_list_loop.simps [simp del]

definition build_range_list :: "nat \<Rightarrow> nat \<Rightarrow> range_index \<Rightarrow> range_list_node list option" where
  "build_range_list offset limit ndx =
     range_list_loop offset limit
       (case ri_tree ndx of Leaf \<Rightarrow> [] | Node l x r \<Rightarrow> dropWhile (\<lambda>n. rin_addr n \<noteq> rin_addr x) (ri_list ndx))"

section \<open>Splaying keeps the nodes and brings the right one to the top\<close>

abbreviation offsets :: "range_index_node list \<Rightarrow> nat list" where
  "offsets ns \<equiv> map rin_offset ns"

definition left_nodes :: "left_spine \<Rightarrow> range_index_node list" where
  "left_nodes ls = concat (map (\<lambda>(l, x). inorder l @ [x]) (rev ls))"

definition right_nodes :: "right_spine \<Rightarrow> range_index_node list" where
  "right_nodes rs = concat (map (\<lambda>(x, r). x # inorder r) rs)"

definition splayed_to :: "nat \<Rightarrow> range_tree \<Rightarrow> bool" where
  "splayed_to offset t \<longleftrightarrow>
     (case t of Leaf \<Rightarrow> True
      | Node l x r \<Rightarrow> (\<forall>y\<in>set_tree r. offset < rin_offset y) \<and> (rin_offset x \<le> offset \<or> l = Leaf))"

lemma spine_nodes [simp]:
  "left_nodes [] = []" "left_nodes ((l, x) # ls) = left_nodes ls @ inorder l @ [x]"
  "right_nodes [] = []" "right_nodes ((x, r) # rs) = x # inorder r @ right_nodes rs"
  by (simp_all add: left_nodes_def right_nodes_def)

lemma inorder_link [simp]:
  "inorder (link_left t ls) = left_nodes ls @ inorder t" "inorder (link_right t rs) = inorder t @ right_nodes rs"
proof -
  show "inorder (link_left t ls) = left_nodes ls @ inorder t"
    by (induction t ls rule: link_left.induct) simp_all
  show "inorder (link_right t rs) = inorder t @ right_nodes rs"
    by (induction t rs rule: link_right.induct) simp_all
qed

lemma inorder_rotate [simp]:
  "inorder (rotate_right offset t) = inorder t" "inorder (rotate_left offset t) = inorder t"
  by (cases "(offset, t)" rule: rotate_right.cases, simp_all) (cases "(offset, t)" rule: rotate_left.cases, simp_all)

lemma rotate_right_root:
  "rotate_right offset (Node l x r) = Node l' x' r' \<Longrightarrow> offset < rin_offset x \<Longrightarrow> offset < rin_offset x'"
  by (cases "(offset, Node l x r)" rule: rotate_right.cases) (auto split: if_splits)

lemma rotate_left_root:
  "rotate_left offset (Node l x r) = Node l' x' r' \<Longrightarrow> offset > rin_offset x \<Longrightarrow> offset > rin_offset x'"
  by (cases "(offset, Node l x r)" rule: rotate_left.cases) (auto split: if_splits)

lemma rotate_Leaf [simp]: "rotate_right offset (Node l x r) \<noteq> Leaf" "rotate_left offset (Node l x r) \<noteq> Leaf"
  by (metis inorder.simps inorder_rotate(1) Nil_is_append_conv list.distinct(1))
    (metis inorder.simps inorder_rotate(2) Nil_is_append_conv list.distinct(1))

text \<open>What holds when the loop has come to rest.\<close>

definition at_rest :: "nat \<Rightarrow> range_tree \<Rightarrow> left_spine \<Rightarrow> right_spine \<Rightarrow> bool" where
  "at_rest offset t ls rs \<longleftrightarrow>
     (\<forall>y\<in>set (left_nodes ls). rin_offset y < offset) \<and> (\<forall>y\<in>set (right_nodes rs). offset < rin_offset y)
     \<and> (case t of Leaf \<Rightarrow> True
         | Node l x r \<Rightarrow> rin_offset x = offset \<or> offset < rin_offset x \<and> l = Leaf \<or> rin_offset x < offset \<and> r = Leaf)"

lemma splay_loop_spec:
  assumes "splay_loop offset t ls rs = (t', ls', rs')"
    and "sorted_wrt (<) (offsets (inorder t))"
    and "\<forall>y\<in>set (left_nodes ls). rin_offset y < offset" "\<forall>y\<in>set (right_nodes rs). offset < rin_offset y"
  shows "left_nodes ls' @ inorder t' @ right_nodes rs' = left_nodes ls @ inorder t @ right_nodes rs
    \<and> at_rest offset t' ls' rs' \<and> (t \<noteq> Leaf \<longrightarrow> t' \<noteq> Leaf)"
  using assms
proof (induction offset t ls rs rule: splay_loop.induct)
  case (1 offset ls rs)
  then show ?case by (simp add: splay_loop.simps at_rest_def)
next
  case (2 offset l x r ls rs)
  consider (less) "offset < rin_offset x" | (greater) "rin_offset x < offset" | (eq) "rin_offset x = offset"
    by linarith
  then show ?case
  proof cases
    case less
    obtain l1 x1 r1 where rot: "rotate_right offset (Node l x r) = Node l1 x1 r1" by (metis rotate_Leaf(1) tree.exhaust)
    have x1: "offset < rin_offset x1" by (rule rotate_right_root [OF rot less])
    have io: "inorder l1 @ x1 # inorder r1 = inorder l @ x # inorder r"
      using inorder_rotate(1) [of offset "Node l x r"] by (simp add: rot)
    have io': "inorder l1 @ x1 # inorder r1 @ ns = inorder l @ x # inorder r @ ns" for ns
      using io by (metis append.assoc append_Cons)
    have so: "sorted_wrt (<) (offsets (inorder l1 @ x1 # inorder r1))"
      using "2.prems"(2) by (simp only: io) simp
    then have sl: "sorted_wrt (<) (offsets (inorder l1))" and sr: "sorted_wrt (<) (offsets (inorder r1))"
      by (simp_all add: sorted_wrt_append)
    show ?thesis
    proof (cases "l1 = Leaf")
      case True
      then have "t' = Node l1 x1 r1" "ls' = ls" "rs' = rs"
        using "2.prems"(1) less rot by (simp_all add: splay_loop.simps)
      then show ?thesis using "2.prems" io x1 True by (simp add: at_rest_def)
    next
      case False
      have gt: "\<forall>y\<in>set (right_nodes ((x1, r1) # rs)). offset < rin_offset y"
        using "2.prems"(4) so x1 by (auto simp: sorted_wrt_append intro: less_trans)
      have run: "splay_loop offset l1 ls ((x1, r1) # rs) = (t', ls', rs')"
        using "2.prems"(1) less rot False by (simp add: splay_loop.simps)
      show ?thesis
        using "2.IH"(1) [OF less rot False run sl "2.prems"(3) gt] False by (simp add: io')
    qed
  next
    case greater
    then have nl: "\<not> offset < rin_offset x" by simp
    obtain l1 x1 r1 where rot: "rotate_left offset (Node l x r) = Node l1 x1 r1" by (metis rotate_Leaf(2) tree.exhaust)
    have x1: "rin_offset x1 < offset" by (rule rotate_left_root [OF rot greater])
    have io: "inorder l1 @ x1 # inorder r1 = inorder l @ x # inorder r"
      using inorder_rotate(2) [of offset "Node l x r"] by (simp add: rot)
    have io': "inorder l1 @ x1 # inorder r1 @ ns = inorder l @ x # inorder r @ ns" for ns
      using io by (metis append.assoc append_Cons)
    have so: "sorted_wrt (<) (offsets (inorder l1 @ x1 # inorder r1))"
      using "2.prems"(2) by (simp only: io) simp
    then have sl: "sorted_wrt (<) (offsets (inorder l1))" and sr: "sorted_wrt (<) (offsets (inorder r1))"
      by (simp_all add: sorted_wrt_append)
    show ?thesis
    proof (cases "r1 = Leaf")
      case True
      then have "t' = Node l1 x1 r1" "ls' = ls" "rs' = rs"
        using "2.prems"(1) greater nl rot by (simp_all add: splay_loop.simps)
      then show ?thesis using "2.prems" io x1 True by (simp add: at_rest_def)
    next
      case False
      have lt: "\<forall>y\<in>set (left_nodes ((l1, x1) # ls)). rin_offset y < offset"
        using "2.prems"(3) so x1 by (auto simp: sorted_wrt_append intro: less_trans)
      have run: "splay_loop offset r1 ((l1, x1) # ls) rs = (t', ls', rs')"
        using "2.prems"(1) greater nl rot False by (simp add: splay_loop.simps)
      show ?thesis
        using "2.IH"(2) [OF nl greater rot False run sr lt "2.prems"(4)] False by (simp add: io')
    qed
  next
    case eq
    then show ?thesis using "2.prems" by (auto simp: splay_loop.simps at_rest_def)
  qed
qed

lemma detach_rightmost_None [simp]: "detach_rightmost t = None \<longleftrightarrow> t = Leaf"
  by (induction t) (auto split: option.splits prod.splits)

lemma detach_rightmost_spec:
  "detach_rightmost t = Some (l, m) \<Longrightarrow> inorder t = inorder l @ [m]"
  by (induction t arbitrary: l) (auto split: option.splits prod.splits)

lemma splay_turn_spec:
  assumes "sorted_wrt (<) (offsets (inorder t))" and t: "t = Node l x r"
    and "rin_offset x \<le> offset \<and> (\<forall>y\<in>set_tree r. offset < rin_offset y)
      \<or> offset < rin_offset x \<and> (\<forall>y\<in>set_tree l. rin_offset y < offset)"
  shows "inorder (splay_turn offset t) = inorder t \<and> splayed_to offset (splay_turn offset t)
    \<and> splay_turn offset t \<noteq> Leaf"
proof (cases "offset < rin_offset x \<and> l \<noteq> Leaf")
  case True
  then obtain ll y lr where l: "l = Node ll y lr" by (cases l) auto
  have lt: "\<forall>z\<in>set_tree l. rin_offset z < offset" using assms(3) True by auto
  have gt: "\<forall>z\<in>set_tree r. offset < rin_offset z"
    using assms(1) True by (fastforce simp: t sorted_wrt_append)
  show ?thesis
  proof (cases "lr = Leaf")
    case True': True
    then show ?thesis using True lt gt by (auto simp: t l splay_turn_def splayed_to_def)
  next
    case False
    obtain l' m where d: "detach_rightmost (Node ll y lr) = Some (l', m)"
      by (metis detach_rightmost_None not_None_eq surj_pair tree.distinct(1))
    have io: "inorder (Node ll y lr) = inorder l' @ [m]" by (rule detach_rightmost_spec [OF d])
    then have "m \<in> set (inorder (Node ll y lr))" by simp
    then have "m \<in> set_tree l" unfolding l set_inorder .
    then have "rin_offset m < offset" using lt by blast
    then show ?thesis using True False d gt io
      by (auto simp: t l splay_turn_def splayed_to_def simp del: detach_rightmost.simps)
  qed
next
  case False
  have "splay_turn offset t = t" using False by (auto simp: t splay_turn_def split: tree.splits)
  moreover have "\<forall>z\<in>set_tree r. offset < rin_offset z"
    using assms(1,3) by (fastforce simp: t sorted_wrt_append)
  ultimately show ?thesis using False by (auto simp: t splayed_to_def)
qed

section \<open>The invariant of the range index\<close>

text \<open>
  The list is the tree from left to right, every node has an address of its own, and offsets
  increase strictly. An entry is what a node says, without its address.
\<close>

definition index_ok :: "range_index \<Rightarrow> bool" where
  "index_ok ndx \<longleftrightarrow>
     ri_list ndx = inorder (ri_tree ndx) \<and> distinct (map rin_addr (inorder (ri_tree ndx)))
     \<and> (\<forall>n\<in>set (inorder (ri_tree ndx)). rin_addr n < ri_fresh ndx) \<and> sorted_wrt (<) (offsets (inorder (ri_tree ndx)))"

definition entries :: "range_index \<Rightarrow> (nat \<times> nat \<times> nat) set" where
  "entries ndx = (\<lambda>n. (rin_offset n, rin_limit n, rin_target_offset n)) ` set (ri_list ndx)"

lemma index_ok_create [simp]: "index_ok create_range_index" "entries create_range_index = {}"
  by (simp_all add: index_ok_def entries_def create_range_index_def)

lemma list_prev_notin: "a \<notin> rin_addr ` set ns \<Longrightarrow> list_prev a (x # ns) = None"
  by (induction ns arbitrary: x) auto

lemma splay_range_index_spec:
  assumes "index_ok ndx"
  shows "\<exists>t. splay_range_index offset ndx = Some (ndx\<lparr>ri_tree := t\<rparr>) \<and> index_ok (ndx\<lparr>ri_tree := t\<rparr>)
    \<and> splayed_to offset t"
proof -
  have srt: "sorted_wrt (<) (offsets (inorder (ri_tree ndx)))" using assms by (simp add: index_ok_def)
  obtain t ls rs where run: "splay_loop offset (ri_tree ndx) [] [] = (t, ls, rs)" by (metis surj_pair)
  have io: "left_nodes ls @ inorder t @ right_nodes rs = inorder (ri_tree ndx)"
    and rest: "at_rest offset t ls rs" and ne: "ri_tree ndx \<noteq> Leaf \<longrightarrow> t \<noteq> Leaf"
    using splay_loop_spec [OF run srt] by simp_all
  show ?thesis
  proof (cases t)
    case Leaf
    then have "ri_tree ndx = Leaf" using ne by blast
    then show ?thesis
      using assms run by (cases ndx, intro exI [of _ Leaf]) (simp add: splay_range_index_def splay_loop.simps splayed_to_def)
  next
    case (Node l x r)
    let ?t = "Node (link_left l ls) x (link_right r rs)"
    have io': "inorder ?t = inorder (ri_tree ndx)" using io Node by simp
    have srt': "sorted_wrt (<) (offsets (inorder ?t))" using srt by (simp only: io')
    have "rin_offset x \<le> offset \<and> (\<forall>y\<in>set_tree (link_right r rs). offset < rin_offset y)
      \<or> offset < rin_offset x \<and> (\<forall>y\<in>set_tree (link_left l ls). rin_offset y < offset)"
    proof (cases "offset < rin_offset x")
      case True
      then have "l = Leaf" using rest Node by (auto simp: at_rest_def)
      then have "set_tree (link_left l ls) = set (left_nodes ls)" by (metis append_Nil2 inorder.simps(1) inorder_link(1) set_inorder)
      then show ?thesis using True rest by (simp add: at_rest_def)
    next
      case False
      have "rin_offset x = offset \<or> r = Leaf" using rest Node False by (auto simp: at_rest_def)
      moreover have "set_tree (link_right r rs) = set_tree r \<union> set (right_nodes rs)"
        by (metis inorder_link(2) set_append set_inorder)
      moreover have "\<forall>y\<in>set_tree r. rin_offset x < rin_offset y"
        using srt io Node by (simp add: io [symmetric] sorted_wrt_append)
      ultimately show ?thesis using False rest by (fastforce simp: at_rest_def)
    qed
    from splay_turn_spec [OF srt' refl this] io'
    have turn: "inorder (splay_turn offset ?t) = inorder (ri_tree ndx)" "splayed_to offset (splay_turn offset ?t)"
      "splay_turn offset ?t \<noteq> Leaf" by simp_all
    then obtain l' x' r' where t': "splay_turn offset ?t = Node l' x' r'" by (metis tree.exhaust)
    have lst: "ri_list ndx = inorder l' @ x' # inorder r'" using assms turn(1) t' by (simp add: index_ok_def)
    have "offset \<ge> rin_offset x' \<or> l' = Leaf \<and> list_prev (rin_addr x') (ri_list ndx) = None"
    proof (cases "rin_offset x' \<le> offset")
      case False
      then have "l' = Leaf" using turn(2) t' by (simp add: splayed_to_def)
      moreover have "distinct (map rin_addr (inorder l' @ x' # inorder r'))"
        using assms by (simp only: lst [symmetric] index_ok_def)
      then have "list_prev (rin_addr x') (x' # inorder r') = None" by (intro list_prev_notin) simp
      ultimately show ?thesis using lst by simp
    qed simp
    then have "splay_range_index offset ndx = Some (ndx\<lparr>ri_tree := splay_turn offset ?t\<rparr>)"
      using run Node t' by (simp add: splay_range_index_def assert_opt_def)
    then show ?thesis using assms turn by (intro exI [of _ "splay_turn offset ?t"]) (simp add: index_ok_def)
  qed
qed

lemma clean_subtree_spec:
  assumes "clean_subtree limit top_offset t = (t', freed)" and "distinct (map rin_addr (inorder t))"
  shows "inorder t' = filter (\<lambda>n. rin_addr n \<notin> rin_addr ` set freed) (inorder t) \<and> set freed \<subseteq> set (inorder t)"
  using assms
proof (induction limit top_offset t arbitrary: t' freed rule: clean_subtree.induct)
  case (2 limit top_offset l x r)
  define offset where "offset = (case r of Node _ y _ \<Rightarrow> if rin_offset y < top_offset then rin_offset y else top_offset
    | Leaf \<Rightarrow> top_offset)"
  have dl: "distinct (map rin_addr (inorder l))" and dr: "distinct (map rin_addr (inorder r))"
    and sep: "\<forall>n\<in>set (inorder l). \<forall>m\<in>set (inorder r). rin_addr n \<noteq> rin_addr m"
    and xl: "\<forall>n\<in>set (inorder l). rin_addr n \<noteq> rin_addr x" and xr: "\<forall>n\<in>set (inorder r). rin_addr n \<noteq> rin_addr x"
    using "2.prems"(2) by (auto simp: image_iff)
  show ?case
  proof (cases "rin_limit x \<le> limit \<or> rin_offset x < limit \<and> offset < limit")
    case True
    obtain r' fr where rec: "clean_subtree limit top_offset r = (r', fr)" by (metis surj_pair)
    have res: "t' = r'" "freed = postorder (Node l x Leaf) @ fr"
      using "2.prems"(1) True rec by (simp_all add: offset_def Let_def)
    have ih: "inorder r' = filter (\<lambda>n. rin_addr n \<notin> rin_addr ` set fr) (inorder r) \<and> set fr \<subseteq> set (inorder r)"
      using "2.IH"(1) [OF offset_def _ rec dr] True by blast
    have fs: "set freed = set (inorder l) \<union> {x} \<union> set fr" by (auto simp: res)
    have "filter (\<lambda>n. rin_addr n \<notin> rin_addr ` set freed) (inorder l) = []" by (simp add: fs)
    moreover have "filter (\<lambda>n. rin_addr n \<notin> rin_addr ` set freed) (inorder r)
      = filter (\<lambda>n. rin_addr n \<notin> rin_addr ` set fr) (inorder r)"
      using sep xr by (intro filter_cong refl) (force simp: fs)
    ultimately show ?thesis using ih fs by (auto simp: res(1))
  next
    case False
    obtain l' fr where rec: "clean_subtree limit (rin_offset x) l = (l', fr)" by (metis surj_pair)
    have res: "t' = Node l' x r" "freed = fr"
      using "2.prems"(1) False rec by (auto simp: offset_def Let_def)
    have ih: "inorder l' = filter (\<lambda>n. rin_addr n \<notin> rin_addr ` set fr) (inorder l) \<and> set fr \<subseteq> set (inorder l)"
      using "2.IH"(2) [OF offset_def _ rec dl] False by blast
    have "filter (\<lambda>n. rin_addr n \<notin> rin_addr ` set fr) (inorder r) = inorder r"
      using sep ih by (intro filter_True ballI) (metis (no_types, lifting) imageE subsetD)
    moreover have "rin_addr x \<notin> rin_addr ` set fr" using xl ih by (metis (no_types, lifting) imageE subsetD)
    ultimately show ?thesis using ih by (auto simp: res)
  qed
qed simp

lemma fold_free:
  "fold (\<lambda>node ndx. free_range_index_node ndx node) freed ndx
    = ndx\<lparr>ri_list := filter (\<lambda>x. rin_addr x \<notin> rin_addr ` set freed) (ri_list ndx)\<rparr>"
  by (induction freed arbitrary: ndx) (simp_all add: free_range_index_node_def filter_filter conj_commute)

lemma sorted_wrt_filter_map: "sorted_wrt (<) (map f xs) \<Longrightarrow> sorted_wrt (<) (map f (filter P xs))"
  by (simp add: sorted_wrt_map sorted_wrt_filter)

lemma clean_tree_spec:
  assumes "index_ok ndx"
  shows "index_ok (clean_tree ndx limit) \<and> entries (clean_tree ndx limit) \<subseteq> entries ndx"
proof (cases "ri_tree ndx")
  case (Node l x r)
  obtain r' freed where c: "clean_subtree limit (Suc limit) r = (r', freed)" by (metis surj_pair)
  have dst: "distinct (map rin_addr (inorder l @ x # inorder r))" using assms Node by (simp add: index_ok_def)
  then have "distinct (map rin_addr (inorder r))" by simp
  from clean_subtree_spec [OF c this]
  have r': "inorder r' = filter (\<lambda>n. rin_addr n \<notin> rin_addr ` set freed) (inorder r)"
    and fr: "set freed \<subseteq> set (inorder r)" by simp_all
  have "filter (\<lambda>n. rin_addr n \<notin> rin_addr ` set freed) (inorder l) = inorder l"
    using dst fr by (intro filter_True ballI) (fastforce simp: image_iff subset_iff)
  moreover have "rin_addr x \<notin> rin_addr ` set freed" using dst fr by (fastforce simp: image_iff subset_iff)
  ultimately have "inorder (Node l x r') = filter (\<lambda>n. rin_addr n \<notin> rin_addr ` set freed) (ri_list ndx)"
    using assms Node r' by (simp add: index_ok_def)
  moreover have "clean_tree ndx limit
      = ndx\<lparr>ri_tree := Node l x r', ri_list := filter (\<lambda>n. rin_addr n \<notin> rin_addr ` set freed) (ri_list ndx)\<rparr>"
    by (simp add: clean_tree_def Node c fold_free)
  ultimately show ?thesis
    using assms by (auto simp: index_ok_def entries_def distinct_map_filter sorted_wrt_filter_map simp del: inorder.simps)
qed (simp add: clean_tree_def assms)

lemma store_node_mid:
  assumes "distinct (map rin_addr (us @ x # vs))" and "rin_addr x' = rin_addr x"
  shows "store_node x' (us @ x # vs) = us @ x' # vs"
proof -
  have "store_node x' us = us" "store_node x' vs = vs"
    using assms by (auto simp: store_node_def image_iff intro!: map_idI)
  then show ?thesis using assms(2) by (simp add: store_node_def)
qed

lemma link_after_mid:
  "distinct (map rin_addr (us @ x # vs)) \<Longrightarrow> link_after (rin_addr x) new (us @ x # vs) = us @ x # new # vs"
  by (induction us) auto

text \<open>Replacing the root or putting a new node beside it, in order.\<close>

lemma index_ok_root:
  assumes "index_ok ndx" and "ri_tree ndx = Node l x r" and "rin_addr x' = rin_addr x"
    and "\<forall>y\<in>set_tree l. rin_offset y < rin_offset x'" "\<forall>y\<in>set_tree r. rin_offset x' < rin_offset y"
  shows "index_ok (ndx\<lparr>ri_tree := Node l x' r, ri_list := store_node x' (ri_list ndx)\<rparr>)
    \<and> entries (ndx\<lparr>ri_tree := Node l x' r, ri_list := store_node x' (ri_list ndx)\<rparr>)
      \<subseteq> insert (rin_offset x', rin_limit x', rin_target_offset x') (entries ndx)"
proof -
  have dst: "distinct (map rin_addr (inorder l @ x # inorder r))" and lst: "ri_list ndx = inorder l @ x # inorder r"
    using assms(1,2) by (simp_all add: index_ok_def)
  show ?thesis
    using assms by (auto simp: index_ok_def entries_def lst store_node_mid [OF dst assms(3)] sorted_wrt_append)
qed

lemma index_ok_new:
  assumes "index_ok ndx" and "ri_list ndx = us @ vs" and "node = \<lparr>rin_addr = ri_fresh ndx, rin_offset = offset,
      rin_limit = limit, rin_target_offset = target_offset\<rparr>"
    and "\<forall>y\<in>set us. rin_offset y < offset" "\<forall>y\<in>set vs. offset < rin_offset y"
    and "inorder t = us @ node # vs"
  shows "index_ok (ndx\<lparr>ri_fresh := Suc (ri_fresh ndx), ri_list := us @ node # vs, ri_tree := t\<rparr>)
    \<and> entries (ndx\<lparr>ri_fresh := Suc (ri_fresh ndx), ri_list := us @ node # vs, ri_tree := t\<rparr>)
      \<subseteq> insert (offset, limit, target_offset) (entries ndx)"
proof -
  have lst: "inorder (ri_tree ndx) = us @ vs" using assms(1,2) by (simp add: index_ok_def)
  show ?thesis
    using assms by (auto simp: index_ok_def entries_def lst sorted_wrt_append less_SucI simp flip: set_inorder)
qed

lemma insert_range_spec:
  assumes ok: "index_ok ndx" and sp: "splayed_to offset (ri_tree ndx)"
  shows "\<exists>ndx'. insert_range offset limit target_offset ndx = Some ndx' \<and> index_ok ndx'
    \<and> entries ndx' \<subseteq> insert (offset, limit, target_offset) (entries ndx)"
proof (cases "ri_tree ndx")
  case Leaf
  then show ?thesis
    using ok by (auto simp: insert_range_def alloc_range_index_node_def index_ok_def entries_def)
next
  case (Node l x r)
  have clean: "index_ok n \<and> entries n \<subseteq> insert (offset, limit, target_offset) (entries ndx) \<Longrightarrow>
      index_ok (clean_tree n limit) \<and> entries (clean_tree n limit) \<subseteq> insert (offset, limit, target_offset) (entries ndx)" for n
    using clean_tree_spec [of n limit] by blast
  have lst: "ri_list ndx = inorder l @ x # inorder r" using ok Node by (simp add: index_ok_def)
  have gt: "\<forall>y\<in>set_tree r. offset < rin_offset y" using sp Node by (simp add: splayed_to_def)
  have lx: "\<forall>y\<in>set_tree l. rin_offset y < rin_offset x" using ok Node by (simp add: index_ok_def sorted_wrt_append)
  have dst: "distinct (map rin_addr (inorder l @ x # inorder r))" using ok Node by (simp add: index_ok_def)
  define node where "node = \<lparr>rin_addr = ri_fresh ndx, rin_offset = offset, rin_limit = limit, rin_target_offset = target_offset\<rparr>"
  consider (enlarge) "offset = rin_offset x" "limit > rin_limit x"
    | (right) "offset > rin_offset x" "limit > rin_limit x" | (left) "offset < rin_offset x"
    | (ignore) "\<not> offset < rin_offset x" "limit \<le> rin_limit x" by linarith
  then show ?thesis
  proof cases
    case enlarge
    then have "insert_range offset limit target_offset ndx
        = Some (clean_tree (ndx\<lparr>ri_tree := Node l (x\<lparr>rin_limit := limit, rin_target_offset := target_offset\<rparr>) r,
            ri_list := store_node (x\<lparr>rin_limit := limit, rin_target_offset := target_offset\<rparr>) (ri_list ndx)\<rparr>) limit)"
      by (simp add: insert_range_def Node Let_def)
    then show ?thesis
      using clean [OF index_ok_root [OF ok Node, of "x\<lparr>rin_limit := limit, rin_target_offset := target_offset\<rparr>", simplified,
        folded enlarge(1)]] lx gt enlarge(1) by simp
  next
    case right
    show ?thesis
    proof (cases "case list_next (rin_addr x) (ri_list ndx) of
        None \<Rightarrow> True | Some n \<Rightarrow> rin_limit x < rin_offset n \<or> limit > rin_limit n")
      case ins: True
      show ?thesis
      proof (cases "case list_prev (rin_addr x) (ri_list ndx) of None \<Rightarrow> False | Some p \<Rightarrow> rin_limit p > offset")
        case True
        define x' where "x' = x\<lparr>rin_offset := offset, rin_limit := limit, rin_target_offset := target_offset\<rparr>"
        have "insert_range offset limit target_offset ndx
          = Some (clean_tree (ndx\<lparr>ri_tree := Node l x' r, ri_list := store_node x' (ri_list ndx)\<rparr>) limit)"
          using right ins True by (simp add: insert_range_def Node Let_def x'_def)
        moreover have "\<forall>y\<in>set_tree l. rin_offset y < rin_offset x'" using lx right(1) by (auto simp: x'_def intro: less_trans)
        ultimately show ?thesis using clean index_ok_root [OF ok Node, of x'] gt by (simp add: x'_def)
      next
        case False
        have "insert_range offset limit target_offset ndx
          = Some (clean_tree (ndx\<lparr>ri_fresh := Suc (ri_fresh ndx), ri_list := link_after (rin_addr x) node (ri_list ndx),
              ri_tree := Node (Node l x Leaf) node r\<rparr>) limit)"
          using right ins False by (simp add: insert_range_def Node alloc_range_index_node_def node_def)
        moreover have "link_after (rin_addr x) node (ri_list ndx) = (inorder l @ [x]) @ node # inorder r"
          unfolding lst link_after_mid [OF dst] by simp
        moreover have "\<forall>y\<in>set (inorder l @ [x]). rin_offset y < offset" using lx right(1) by (auto intro: less_trans)
        ultimately show ?thesis
          using clean index_ok_new [OF ok _ node_def, of "inorder l @ [x]" "inorder r" "Node (Node l x Leaf) node r"] gt lst
          by simp
      qed
    next
      case False
      then have "insert_range offset limit target_offset ndx = Some ndx" using right by (simp add: insert_range_def Node)
      then show ?thesis using ok by blast
    qed
  next
    case left
    then have "l = Leaf" using sp Node by (auto simp: splayed_to_def)
    then have run: "insert_range offset limit target_offset ndx
        = Some (clean_tree (ndx\<lparr>ri_fresh := Suc (ri_fresh ndx), ri_list := [] @ node # ri_list ndx,
            ri_tree := Node Leaf node (Node l x r)\<rparr>) limit)"
      using left lst by (simp add: insert_range_def Node alloc_range_index_node_def node_def assert_opt_def)
    have "\<forall>y\<in>set (ri_list ndx). offset < rin_offset y" using gt left lst \<open>l = Leaf\<close> by simp
    moreover have "inorder (Node Leaf node (Node l x r)) = [] @ node # ri_list ndx" using lst by simp
    ultimately show ?thesis
      unfolding run
      using clean [OF index_ok_new [OF ok _ node_def, of "[]" "ri_list ndx" "Node Leaf node (Node l x r)"]] by simp
  next
    case ignore
    then have "insert_range offset limit target_offset ndx = Some ndx" by (simp add: insert_range_def Node)
    then show ?thesis using ok by blast
  qed
qed

section \<open>Properties\<close>

text \<open>C24. The range index stays a search tree whose linked list is the tree from left to right: splaying
  keeps every range, brings the last one that starts at or before the offset to the top and satisfies the
  final assertion; inserting after that adds at most the new range.\<close>

theorem range_index_invariant:
  assumes "index_ok ndx"
  shows "\<exists>ndx'. splay_range_index offset ndx = Some ndx' \<and> index_ok ndx' \<and> entries ndx' = entries ndx
    \<and> splayed_to offset (ri_tree ndx')
    \<and> (\<exists>ndx''. insert_range offset limit target_offset ndx' = Some ndx'' \<and> index_ok ndx''
        \<and> entries ndx'' \<subseteq> insert (offset, limit, target_offset) (entries ndx))"
proof -
  obtain t where "splay_range_index offset ndx = Some (ndx\<lparr>ri_tree := t\<rparr>)" "index_ok (ndx\<lparr>ri_tree := t\<rparr>)"
    "splayed_to offset t" using splay_range_index_spec [OF assms] by blast
  moreover have "entries (ndx\<lparr>ri_tree := t\<rparr>) = entries ndx" by (simp add: entries_def)
  ultimately show ?thesis
    using insert_range_spec [of "ndx\<lparr>ri_tree := t\<rparr>" offset limit target_offset] by auto
qed

theorem range_index_invariant_witness:
  "\<exists>ndx ndx'. insert_range 4 9 0 create_range_index = Some ndx \<and> splay_range_index 6 ndx = Some ndx'
    \<and> splayed_to 6 (ri_tree ndx') \<and> entries ndx' = {(4, 9, 0)}"
proof -
  define ndx where "ndx = \<lparr>ri_tree = Node Leaf \<lparr>rin_addr = 0, rin_offset = 4, rin_limit = 9, rin_target_offset = 0\<rparr> Leaf,
    ri_list = [\<lparr>rin_addr = 0, rin_offset = 4, rin_limit = 9, rin_target_offset = 0\<rparr>], ri_fresh = 1\<rparr>"
  have "insert_range 4 9 0 create_range_index = Some ndx"
    by (simp add: insert_range_def create_range_index_def alloc_range_index_node_def ndx_def)
  moreover have "entries ndx = {(4, 9, 0)}" by (simp add: entries_def ndx_def)
  ultimately show ?thesis
    using range_index_invariant [of ndx 6 8 0] by (auto simp: index_ok_def ndx_def)
qed

end
