(* ===== verification/Compose_Delta.thy ===== *)
theory Compose_Delta
  imports Range_Index
begin

text \<open>
  Composing two delta windows (\<open>libsvn_delta/compose_delta.c\<close>): the index of operations, copying
  the operations of the first window that define a range of its target, and the composite itself. Every access
  to an array is checked; \<open>None\<close> is an access outside it or a failed \<open>assert\<close>.
\<close>

section \<open>The index of operations\<close>

text \<open>\<open>offset_index_t\<close>: where the operations of a window start in its target, and where the last one ends.\<close>

record offset_index =
  oi_length :: nat
  oi_offs :: "nat list"

fun offsets_from :: "nat \<Rightarrow> txdelta_op list \<Rightarrow> nat list" where
  "offsets_from offset [] = [offset]"
| "offsets_from offset (dlt # ops) = offset # offsets_from (offset + op_length dlt) ops"

definition create_offset_index :: "txdelta_window \<Rightarrow> offset_index" where
  "create_offset_index window = \<lparr>oi_length = length (win_ops window), oi_offs = offsets_from 0 (win_ops window)\<rparr>"

definition nth_opt :: "'a list \<Rightarrow> nat \<Rightarrow> 'a option" where
  "nth_opt xs i = (if i < length xs then Some (xs ! i) else None)"

text \<open>The binary search; its value is \<open>lo\<close> when it meets \<open>hi\<close>.\<close>

partial_function (option) search_loop :: "nat list \<Rightarrow> nat \<Rightarrow> nat \<Rightarrow> nat \<Rightarrow> nat option" where
  "search_loop offs offset lo hi =
     (if lo \<noteq> hi
      then Option.bind (nth_opt offs ((lo + hi) div 2)) (\<lambda>off.
             if offset < off then search_loop offs offset lo ((lo + hi) div 2)
             else search_loop offs offset (Suc ((lo + hi) div 2)) hi)
      else Some lo)"

definition search_offset_index :: "offset_index \<Rightarrow> nat \<Rightarrow> nat \<Rightarrow> nat option" where
  "search_offset_index ndx offset hint =
     Option.bind (nth_opt (oi_offs ndx) (oi_length ndx)) (\<lambda>total.
     Option.bind (assert_opt (offset < total)) (\<lambda>_.
     Option.bind
       (if hint < oi_length ndx
        then Option.bind (nth_opt (oi_offs ndx) hint) (\<lambda>off.
               if offset < off then Some (Inr (0, hint))
               else Option.bind (nth_opt (oi_offs ndx) (Suc hint)) (\<lambda>off.
                      if offset < off then Some (Inl hint) else Some (Inr (Suc hint, oi_length ndx))))
        else Some (Inr (0, oi_length ndx)))
       (\<lambda>range. case range of
           Inl hit \<Rightarrow> Some hit
         | Inr (lo, hi) \<Rightarrow>
             Option.bind (search_loop (oi_offs ndx) offset lo hi) (\<lambda>lo.
             if lo = 0 then None
             else Option.bind (nth_opt (oi_offs ndx) (lo - 1)) (\<lambda>off0.
                  Option.bind (nth_opt (oi_offs ndx) lo) (\<lambda>off1.
                  Option.bind (assert_opt (off0 \<le> offset \<and> offset < off1)) (\<lambda>_. Some (lo - 1))))))))"

section \<open>Copying operations from the first window\<close>

text \<open>\<open>svn_txdelta__insert_op\<close> with the bytes at \<open>pos\<close> of the new data, for an insertion.\<close>

definition insert_op_at ::
    "ops_baton \<Rightarrow> svn_delta_action \<Rightarrow> nat \<Rightarrow> nat \<Rightarrow> bytes \<Rightarrow> nat \<Rightarrow> ops_baton option" where
  "insert_op_at b opcode offset len nd pos =
     Option.bind (if opcode = Delta_new then mem_read nd pos len else Some [])
       (\<lambda>data. Some (svn_txdelta_insert_op b opcode offset len data))"

text \<open>
  A target copy, from \<open>fix_offset\<close> on and without the last \<open>fix_limit\<close> bytes. It is copied by \<open>copy_source_ops\<close>
  itself, here the parameter \<open>copy\<close>, from what it refers to, or from the pattern it repeats: the second
  subrange of the pattern, the first one, and a target copy that multiplies the pattern.
\<close>

definition copy_target_op ::
    "(nat \<Rightarrow> nat \<Rightarrow> nat \<Rightarrow> nat \<Rightarrow> ops_baton \<Rightarrow> ops_baton option) \<Rightarrow> txdelta_op \<Rightarrow> nat \<Rightarrow> nat \<Rightarrow> nat
      \<Rightarrow> nat \<Rightarrow> nat \<Rightarrow> ops_baton \<Rightarrow> ops_baton option" where
  "copy_target_op copy dlt off0 fix_offset fix_limit target_offset op_ndx b =
     Option.bind (assert_opt (op_offset dlt < off0)) (\<lambda>_.
     if op_offset dlt + op_length dlt - fix_limit \<le> off0
     then copy (op_offset dlt + fix_offset) (op_offset dlt + op_length dlt - fix_limit) target_offset op_ndx b
     else
       let ptn_length = off0 - op_offset dlt; ptn_overlap = fix_offset mod ptn_length in
       Option.bind (assert_opt (ptn_length > ptn_overlap)) (\<lambda>_.
       let len1 = min (op_length dlt - fix_offset - fix_limit) (ptn_length - ptn_overlap) in
       Option.bind (copy (op_offset dlt + ptn_overlap) (op_offset dlt + ptn_overlap + len1) target_offset op_ndx b) (\<lambda>b.
       let fix_off = fix_offset + len1; tgt_off = target_offset + len1 in
       Option.bind (assert_opt (fix_off + fix_limit \<le> op_length dlt)) (\<lambda>_.
       Option.bind
         (if ptn_overlap > 0 \<and> fix_off + fix_limit < op_length dlt
          then let len2 = min (op_length dlt - fix_off - fix_limit) ptn_overlap in
            map_option (\<lambda>b. (b, fix_off + len2, tgt_off + len2))
              (copy (op_offset dlt) (op_offset dlt + len2) tgt_off op_ndx b)
          else Some (b, fix_off, tgt_off)) (\<lambda>(b, fix_off, tgt_off).
       Option.bind (assert_opt (fix_off + fix_limit \<le> op_length dlt)) (\<lambda>_.
       Some (if fix_off + fix_limit < op_length dlt
             then svn_txdelta_insert_op b Delta_target (tgt_off - ptn_length) (op_length dlt - fix_off - fix_limit) []
             else b)))))))"

text \<open>The function calls itself only for what lies before the operation.\<close>

lemma copy_target_op_cong [fundef_cong]:
  assumes "dlt = dlt'" "off0 = off0'" "fo = fo'" "fl = fl'" "t = t'" "i = i'" "b = b'"
    and "\<And>offset limit tgt hint b. limit \<le> off0 \<Longrightarrow> copy offset limit tgt hint b = copy' offset limit tgt hint b"
  shows "copy_target_op copy dlt off0 fo fl t i b = copy_target_op copy' dlt' off0' fo' fl' t' i' b'"
proof (cases "op_offset dlt < off0")
  case True
  have p: "fo' mod (off0' - op_offset dlt') < off0' - op_offset dlt'" using True assms(1,2) by simp
  define ovl where "ovl = fo' mod (off0' - op_offset dlt')"
  have "\<And>m tgt hint b. copy (op_offset dlt' + ovl) (op_offset dlt' + ovl + min m (off0' - op_offset dlt' - ovl)) tgt hint b
      = copy' (op_offset dlt' + ovl) (op_offset dlt' + ovl + min m (off0' - op_offset dlt' - ovl)) tgt hint b"
    using p assms(1,2) by (intro assms(8)) (auto simp: ovl_def min_def)
  moreover have "\<And>m tgt hint b. copy (op_offset dlt') (op_offset dlt' + min m ovl) tgt hint b
      = copy' (op_offset dlt') (op_offset dlt' + min m ovl) tgt hint b"
    using p assms(1,2) by (intro assms(8)) (auto simp: ovl_def min_def)
  ultimately show ?thesis
    unfolding copy_target_op_def Let_def assms(1-7) ovl_def [symmetric]
    using assms(8) [unfolded assms(1,2)] by (auto intro!: Option.bind_cong)
qed (simp add: copy_target_op_def assms(1,2) assert_opt_def)

text \<open>The loop of \<open>copy_source_ops\<close> from \<open>op_ndx\<close> on.\<close>

function copy_ops_loop ::
    "txdelta_window \<Rightarrow> offset_index \<Rightarrow> nat \<Rightarrow> nat \<Rightarrow> nat \<Rightarrow> nat \<Rightarrow> ops_baton \<Rightarrow> ops_baton option" where
  "copy_ops_loop window ndx offset limit target_offset op_ndx b =
     Option.bind (nth_opt (oi_offs ndx) op_ndx) (\<lambda>off0.
     if off0 \<ge> limit then Some b
     else Option.bind (nth_opt (oi_offs ndx) (Suc op_ndx)) (\<lambda>off1.
     Option.bind (nth_opt (win_ops window) op_ndx) (\<lambda>dlt.
     let fix_offset = (if offset > off0 then offset - off0 else 0);
         fix_limit = (if off1 > limit then off1 - limit else 0) in
     Option.bind (assert_opt (fix_offset + fix_limit < op_length dlt)) (\<lambda>_.
     Option.bind
       (if op_action dlt \<noteq> Delta_target
        then insert_op_at b (op_action dlt) (op_offset dlt + fix_offset) (op_length dlt - fix_offset - fix_limit)
               (new_data window) (op_offset dlt + fix_offset)
        else copy_target_op
               (\<lambda>offset limit target_offset hint b. Option.bind (search_offset_index ndx offset hint) (\<lambda>op_ndx.
                  copy_ops_loop window ndx offset limit target_offset op_ndx b))
               dlt off0 fix_offset fix_limit target_offset op_ndx b)
       (copy_ops_loop window ndx offset limit (target_offset + (op_length dlt - fix_offset - fix_limit))
          (Suc op_ndx))))))"
  by pat_completeness auto
termination
proof (relation "measures [\<lambda>(w, ndx, offset, limit, t, i, b). limit,
    \<lambda>(w, ndx, offset, limit, t, i, b). length (win_ops w) - i]", simp, goal_cases)
  case 1
  then show ?case by simp
next
  case 2
  then show ?case by (simp add: nth_opt_def split: if_splits)
qed

declare copy_ops_loop.simps [simp del]

definition copy_source_ops ::
    "nat \<Rightarrow> nat \<Rightarrow> nat \<Rightarrow> nat \<Rightarrow> ops_baton \<Rightarrow> txdelta_window \<Rightarrow> offset_index \<Rightarrow> ops_baton option" where
  "copy_source_ops offset limit target_offset hint build_baton window ndx =
     Option.bind (search_offset_index ndx offset hint) (\<lambda>op_ndx.
       copy_ops_loop window ndx offset limit target_offset op_ndx build_baton)"

section \<open>Composing two windows\<close>

text \<open>The ranges of one source copy, and where they end in the target.\<close>

fun copy_ranges ::
    "txdelta_window \<Rightarrow> offset_index \<Rightarrow> range_list_node list \<Rightarrow> nat \<Rightarrow> ops_baton \<Rightarrow> (ops_baton \<times> nat) option" where
  "copy_ranges window_A ndx [] tgt_off b = Some (b, tgt_off)"
| "copy_ranges window_A ndx (rng # ranges) tgt_off b =
     Option.bind
       (if rln_kind rng = Range_from_target
        then Some (svn_txdelta_insert_op b Delta_target (rln_target_offset rng) (rln_limit rng - rln_offset rng) [])
        else copy_source_ops (rln_offset rng) (rln_limit rng) tgt_off 0 b window_A ndx)
       (copy_ranges window_A ndx ranges (tgt_off + (rln_limit rng - rln_offset rng)))"

fun compose_loop ::
    "txdelta_window \<Rightarrow> offset_index \<Rightarrow> bytes \<Rightarrow> txdelta_op list \<Rightarrow> nat \<Rightarrow> range_index \<Rightarrow> ops_baton \<Rightarrow> ops_baton option" where
  "compose_loop window_A ndx new_data_B [] target_offset range_index b = Some b"
| "compose_loop window_A ndx new_data_B (dlt # ops) target_offset range_index b =
     (if op_action dlt \<noteq> Delta_source
      then Option.bind (insert_op_at b (op_action dlt) (op_offset dlt) (op_length dlt) new_data_B (op_offset dlt))
             (compose_loop window_A ndx new_data_B ops (target_offset + op_length dlt) range_index)
      else let offset = op_offset dlt; limit = op_offset dlt + op_length dlt in
        Option.bind (splay_range_index offset range_index) (\<lambda>range_index.
        Option.bind (build_range_list offset limit range_index) (\<lambda>range_list.
        Option.bind (copy_ranges window_A ndx range_list target_offset b) (\<lambda>(b, tgt_off).
        Option.bind (assert_opt (tgt_off = target_offset + op_length dlt)) (\<lambda>_.
        Option.bind (insert_range offset limit target_offset range_index) (\<lambda>range_index.
          compose_loop window_A ndx new_data_B ops (target_offset + op_length dlt) range_index b))))))"

definition svn_txdelta_compose_windows :: "txdelta_window \<Rightarrow> txdelta_window \<Rightarrow> txdelta_window option" where
  "svn_txdelta_compose_windows window_A window_B =
     Option.bind
       (compose_loop window_A (create_offset_index window_A) (new_data window_B) (win_ops window_B) 0
          create_range_index empty_baton)
       (\<lambda>build_baton. Some ((svn_txdelta_make_window build_baton)
          \<lparr>sview_offset := sview_offset window_A, sview_len := sview_len window_A, tview_len := tview_len window_B\<rparr>))"

section \<open>The index of operations finds the right one\<close>

lemma nth_opt_Some [simp]: "i < length xs \<Longrightarrow> nth_opt xs i = Some (xs ! i)"
  by (simp add: nth_opt_def)

text \<open>Where operation \<open>k\<close> starts.\<close>

definition op_start :: "txdelta_op list \<Rightarrow> nat \<Rightarrow> nat" where
  "op_start ops k = sum_list (map op_length (take k ops))"

lemma length_offsets_from [simp]: "length (offsets_from s ops) = Suc (length ops)"
  by (induction ops arbitrary: s) auto

lemma nth_offsets_from: "k \<le> length ops \<Longrightarrow> offsets_from s ops ! k = s + op_start ops k"
proof (induction ops arbitrary: s k)
  case (Cons dlt ops)
  then show ?case by (cases k) (auto simp: op_start_def)
qed (simp add: op_start_def)

lemma op_start_0 [simp]: "op_start ops 0 = 0"
  and op_start_Suc: "k < length ops \<Longrightarrow> op_start ops (Suc k) = op_start ops k + op_length (ops ! k)"
  by (simp_all add: op_start_def take_Suc_conv_app_nth)

lemma search_loop_spec:
  assumes "lo \<le> hi" "hi < length offs" "offset < offs ! hi" "lo > 0 \<Longrightarrow> offs ! (lo - 1) \<le> offset"
  shows "\<exists>k. search_loop offs offset lo hi = Some k \<and> k \<le> hi \<and> offset < offs ! k \<and> (k > 0 \<longrightarrow> offs ! (k - 1) \<le> offset)"
  using assms
proof (induction "hi - lo" arbitrary: lo hi rule: less_induct)
  case less
  show ?case
  proof (cases "lo = hi")
    case True
    then show ?thesis using less.prems by (subst search_loop.simps) simp
  next
    case False
    define mid where "mid = (lo + hi) div 2"
    have mid: "lo \<le> mid" "mid < hi" using False less.prems(1) by (auto simp: mid_def)
    have step: "search_loop offs offset lo hi
        = (if offset < offs ! mid then search_loop offs offset lo mid else search_loop offs offset (Suc mid) hi)"
      using False mid less.prems(2) by (subst search_loop.simps) (simp add: mid_def)
    show ?thesis
    proof (cases "offset < offs ! mid")
      case True
      have "\<exists>k. search_loop offs offset lo mid = Some k \<and> k \<le> mid \<and> offset < offs ! k
          \<and> (k > 0 \<longrightarrow> offs ! (k - 1) \<le> offset)"
        by (rule less.hyps) (use mid True less.prems in auto)
      then show ?thesis using step True mid(2) by (metis less_le_not_le order.trans)
    next
      case F: False
      have "\<exists>k. search_loop offs offset (Suc mid) hi = Some k \<and> k \<le> hi \<and> offset < offs ! k
          \<and> (k > 0 \<longrightarrow> offs ! (k - 1) \<le> offset)"
        by (rule less.hyps) (use mid F less.prems in auto)
      then show ?thesis using step F by simp
    qed
  qed
qed

lemma search_offset_index_spec:
  assumes "ndx = create_offset_index w" and "offset < op_start (win_ops w) (length (win_ops w))"
  shows "\<exists>k. search_offset_index ndx offset hint = Some k \<and> k < length (win_ops w)
    \<and> op_start (win_ops w) k \<le> offset \<and> offset < op_start (win_ops w) (Suc k)"
proof -
  let ?ops = "win_ops w" and ?offs = "oi_offs ndx" and ?n = "oi_length ndx"
  have n: "?n = length ?ops" and len: "length ?offs = Suc ?n"
    and offs: "\<And>k. k \<le> ?n \<Longrightarrow> ?offs ! k = op_start ?ops k"
    using assms(1) by (simp_all add: create_offset_index_def nth_offsets_from)
  have total: "offset < ?offs ! ?n" using assms(2) n offs by simp
  have bin: "\<exists>k. Option.bind (search_loop ?offs offset lo hi) (\<lambda>lo.
             if lo = 0 then None
             else Option.bind (nth_opt ?offs (lo - 1)) (\<lambda>off0.
                  Option.bind (nth_opt ?offs lo) (\<lambda>off1.
                  Option.bind (assert_opt (off0 \<le> offset \<and> offset < off1)) (\<lambda>_. Some (lo - 1))))) = Some k
      \<and> k < ?n \<and> op_start ?ops k \<le> offset \<and> offset < op_start ?ops (Suc k)"
    if "lo \<le> hi" "hi \<le> ?n" "offset < ?offs ! hi" "lo > 0 \<Longrightarrow> ?offs ! (lo - 1) \<le> offset" for lo hi
  proof -
    have "hi < length ?offs" using that(2) len by simp
    from search_loop_spec [OF that(1) this that(3,4)] obtain k where
      k: "search_loop ?offs offset lo hi = Some k" "k \<le> hi" "offset < ?offs ! k" "k > 0 \<longrightarrow> ?offs ! (k - 1) \<le> offset" by blast
    have "k \<noteq> 0" using k(3) offs [of 0] by (intro notI) simp
    then obtain j where j: "k = Suc j" by (cases k) auto
    have "?offs ! j = op_start ?ops j" "?offs ! Suc j = op_start ?ops (Suc j)" "Suc j < length ?offs" "j < length ?offs"
      using offs [of j] offs [of "Suc j"] k(2) j that(2) len by auto
    then show ?thesis using k j that(2) by auto
  qed
  show ?thesis
  proof (cases "hint < ?n")
    case False
    then show ?thesis
      using bin [of 0 ?n] total len n by (simp add: search_offset_index_def)
  next
    case True
    then have h: "nth_opt ?offs hint = Some (?offs ! hint)" "nth_opt ?offs (Suc hint) = Some (?offs ! Suc hint)" "nth_opt ?offs ?n = Some (?offs ! ?n)"
      using len by simp_all
    consider (lo) "offset < ?offs ! hint" | (hit) "\<not> offset < ?offs ! hint" "offset < ?offs ! Suc hint"
      | (hi) "\<not> offset < ?offs ! hint" "\<not> offset < ?offs ! Suc hint" by blast
    then show ?thesis
    proof cases
      case lo
      then show ?thesis using bin [of 0 hint] total True h n by (simp add: search_offset_index_def)
    next
      case hit
      then show ?thesis using total True h n offs [of hint] offs [of "Suc hint"] by (simp add: search_offset_index_def)
    next
      case hi
      then show ?thesis using bin [of "Suc hint" ?n] total True h n by (simp add: search_offset_index_def)
    qed
  qed
qed

section \<open>The operations of a window and the target they describe\<close>

lemma seg_shift:
  assumes "\<And>i. i < n \<Longrightarrow> xs ! (a + i) = xs ! (c + i)" and "a + n \<le> length xs" and "c + n \<le> length xs"
  shows "take n (drop a xs) = take n (drop c xs)"
  using assms by (intro nth_equalityI) auto

lemma window_op:
  assumes "window_ok w" and "length src = sview_len w" and "k < length (win_ops w)"
    and "dlt = win_ops w ! k" and "off0 = op_start (win_ops w) k"
  shows "op_ok (sview_len w) (length (new_data w)) off0 dlt"
    and "off0 + op_length dlt \<le> length (window_target w src)"
    and "op_action dlt = Delta_source \<Longrightarrow>
      take (op_length dlt) (drop off0 (window_target w src)) = take (op_length dlt) (drop (op_offset dlt) src)"
    and "op_action dlt = Delta_new \<Longrightarrow>
      take (op_length dlt) (drop off0 (window_target w src)) = take (op_length dlt) (drop (op_offset dlt) (new_data w))"
    and "op_action dlt = Delta_target \<Longrightarrow> i < op_length dlt \<Longrightarrow>
      window_target w src ! (off0 + i) = window_target w src ! (op_offset dlt + i)"
proof -
  let ?ops = "win_ops w" and ?nd = "new_data w"
  have split: "?ops = take k ?ops @ dlt # drop (Suc k) ?ops" using assms(3,4) by (simp add: id_take_nth_drop)
  define t0 where "t0 = ops_target src ?nd (take k ?ops) []"
  have "ops_ok (sview_len w) (length ?nd) (tview_len w) 0 (take k ?ops @ dlt # drop (Suc k) ?ops)"
    using assms(1) split by (simp add: window_ok_def)
  then have pre: "ops_ok (sview_len w) (length ?nd) off0 0 (take k ?ops)" and ok: "op_ok (sview_len w) (length ?nd) off0 dlt"
    unfolding ops_ok_append by (simp_all add: assms(5) op_start_def)
  show "op_ok (sview_len w) (length ?nd) off0 dlt" by (rule ok)
  have len: "length t0 = off0"
    using length_ops_target [of src ?nd off0 "[]" "take k ?ops"] pre assms(2) by (simp add: t0_def)
  have "window_target w src = ops_target src ?nd (drop (Suc k) ?ops) (op_target src ?nd dlt t0)"
    unfolding window_target_def by (subst split) (simp add: ops_target_append ops_target_Cons t0_def)
  then obtain u where T: "window_target w src = op_target src ?nd dlt t0 @ u" using ops_target_prefix by metis
  have lo: "length (op_target src ?nd dlt t0) = off0 + op_length dlt"
    using length_op_target [of src ?nd t0 dlt] ok len assms(2) by simp
  then show "off0 + op_length dlt \<le> length (window_target w src)" by (simp add: T)
  have seg: "take (op_length dlt) (drop off0 (window_target w src)) = drop off0 (op_target src ?nd dlt t0)"
    using lo by (simp add: T)
  show "take (op_length dlt) (drop off0 (window_target w src)) = take (op_length dlt) (drop (op_offset dlt) src)"
    if "op_action dlt = Delta_source" using that seg len by (simp add: op_target_def)
  show "take (op_length dlt) (drop off0 (window_target w src)) = take (op_length dlt) (drop (op_offset dlt) ?nd)"
    if "op_action dlt = Delta_new" using that seg len by (simp add: op_target_def)
  assume a: "op_action dlt = Delta_target" and i: "i < op_length dlt"
  let ?e = "extend_copy t0 (op_offset dlt) (op_length dlt)" and ?p = "off0 - op_offset dlt"
  have o: "op_offset dlt < length t0" using ok a len by (simp add: op_ok_def)
  have Te: "window_target w src ! j = ?e ! j" if "j < off0 + op_length dlt" for j
    using that lo a by (simp add: T nth_append op_target_def)
  have l: "?e ! (off0 + i) = t0 ! (op_offset dlt + i mod ?p)" using extend_nth [OF o i] len by simp
  have "?e ! (op_offset dlt + i) = t0 ! (op_offset dlt + i mod ?p)"
  proof (cases "i < ?p")
    case True
    obtain v where "?e = t0 @ v" using extend_prefix by blast
    moreover have "op_offset dlt + i < length t0" using True len o by simp
    ultimately show ?thesis using True by (simp add: nth_append)
  next
    case False
    then have j: "op_offset dlt + i = length t0 + (i - ?p)" "i - ?p < op_length dlt" using i o len by auto
    have "?e ! (length t0 + (i - ?p)) = t0 ! (op_offset dlt + (i - ?p) mod (length t0 - op_offset dlt))"
      by (rule extend_nth [OF o j(2)])
    moreover have "(i - ?p) mod ?p = i mod ?p" using False by (metis le_mod_geq not_less)
    ultimately show ?thesis using j(1) len by simp
  qed
  then show "window_target w src ! (off0 + i) = window_target w src ! (op_offset dlt + i)"
    using l i o len by (simp add: Te)
qed

section \<open>Copying appends the bytes it is asked for\<close>

definition appends :: "bytes \<Rightarrow> nat \<Rightarrow> ops_baton \<Rightarrow> bytes \<Rightarrow> ops_baton \<Rightarrow> bool" where
  "appends src tpos b bs b' \<longleftrightarrow>
     baton_ok (length src) (tpos + length bs) b' \<and> baton_target b' src = baton_target b src @ bs"

lemma appends_trans:
  "appends src tpos b xs b' \<Longrightarrow> appends src (tpos + length xs) b' ys b'' \<Longrightarrow> appends src tpos b (xs @ ys) b''"
  by (simp add: appends_def add.assoc)

lemma appends_ok: "appends src tpos b bs b' \<Longrightarrow> baton_ok (length src) (tpos + length bs) b'"
  by (simp add: appends_def)

lemma appends_insert_op:
  assumes "baton_ok (length src) tpos b" and "0 < len"
    and "case opcode of Delta_source \<Rightarrow> offset + len \<le> length src | Delta_target \<Rightarrow> offset + len \<le> tpos
      | Delta_new \<Rightarrow> len \<le> length data"
  shows "appends src tpos b
    (case opcode of Delta_source \<Rightarrow> take len (drop offset src) | Delta_target \<Rightarrow> take len (drop offset (baton_target b src))
      | Delta_new \<Rightarrow> take len data)
    (svn_txdelta_insert_op b opcode offset len data)"
proof -
  have "case opcode of Delta_source \<Rightarrow> offset + len \<le> length src | Delta_target \<Rightarrow> offset < tpos
      | Delta_new \<Rightarrow> len \<le> length data"
    using assms(2,3) by (cases opcode) auto
  note insert_op_spec [OF assms(1,2) this]
  then show ?thesis
    using assms(2,3) length_baton_target [OF assms(1)]
    by (cases opcode) (auto simp: appends_def op_bytes_def extend_no_overlap)
qed

lemma seg_split: "take (m + n) (drop a xs) = take m (drop a xs) @ take n (drop (a + m) xs)"
  by (simp add: take_add add.commute)

text \<open>Multiplying a pattern: a target copy that starts one period back goes on with periodic data.\<close>

lemma extend_periodic:
  assumes "0 < p" and "p \<le> n" and "c + n + r \<le> length xs"
    and "\<And>i. p \<le> i \<Longrightarrow> i < n + r \<Longrightarrow> xs ! (c + i) = xs ! (c + i - p)"
  shows "extend_copy (t @ take n (drop c xs)) (length t + n - p) r = t @ take (n + r) (drop c xs)"
  using assms
proof (induction r arbitrary: n)
  case (Suc r)
  have "(t @ take n (drop c xs)) ! (length t + n - p) = xs ! (c + n - p)"
  proof -
    have e: "length t + n - p = length t + (n - p)" using Suc.prems(2) by simp
    show ?thesis unfolding e nth_append_length_plus using Suc.prems(1-3) by simp
  qed
  also have "\<dots> = xs ! (c + n)" using Suc.prems(4) [of n] Suc.prems(2) by simp
  finally have nth: "(t @ take n (drop c xs)) ! (length t + n - p) = xs ! (c + n)" .
  have snoc: "(t @ take n (drop c xs)) @ [xs ! (c + n)] = t @ take (Suc n) (drop c xs)"
    using Suc.prems(3) by (simp add: take_Suc_conv_app_nth)
  have "extend_copy (t @ take n (drop c xs)) (length t + n - p) (Suc r)
      = extend_copy (t @ take (Suc n) (drop c xs)) (Suc (length t + n - p)) r"
    by (simp only: extend_copy.simps nth snoc)
  also have "Suc (length t + n - p) = length t + Suc n - p" using Suc.prems(2) by simp
  also have "extend_copy (t @ take (Suc n) (drop c xs)) (length t + Suc n - p) r = t @ take (Suc n + r) (drop c xs)"
    by (rule Suc.IH) (use Suc.prems in auto)
  finally show ?case by simp
qed simp

lemma period_mult:
  assumes "\<And>y. o1 \<le> y \<Longrightarrow> y + p < lim \<Longrightarrow> xs ! (y + p) = xs ! y" and "o1 \<le> y" and "y + q * p < lim"
  shows "xs ! (y + q * p) = xs ! (y :: nat)"
  using assms(3)
proof (induction q)
  case (Suc q)
  have "xs ! (y + q * p + p) = xs ! (y + q * p)" by (rule assms(1)) (use assms(2) Suc.prems in auto)
  then show ?case using Suc by (simp add: ac_simps)
qed simp

lemma copy_target_op_spec:
  assumes "op_offset dlt < off0" and "fix_offset + fix_limit < op_length dlt" and "off0 + op_length dlt \<le> length T"
    and self: "\<And>i. i < op_length dlt \<Longrightarrow> T ! (off0 + i) = T ! (op_offset dlt + i)"
    and ok: "baton_ok (length src) tgt b"
    and copy: "\<And>offset limit tgt hint b. offset < limit \<Longrightarrow> limit \<le> off0 \<Longrightarrow> baton_ok (length src) tgt b \<Longrightarrow>
      \<exists>b'. copy offset limit tgt hint b = Some b' \<and> appends src tgt b (take (limit - offset) (drop offset T)) b'"
  shows "\<exists>b'. copy_target_op copy dlt off0 fix_offset fix_limit tgt op_ndx b = Some b'
    \<and> appends src tgt b (take (op_length dlt - fix_offset - fix_limit) (drop (off0 + fix_offset) T)) b'"
proof -
  define oo ll p m c where "oo = op_offset dlt" and "ll = op_length dlt" and "p = off0 - oo"
    and "m = op_length dlt - fix_offset - fix_limit" and "c = off0 + fix_offset"
  have m: "0 < m" "fix_offset + m + fix_limit = ll" using assms(2) by (auto simp: m_def ll_def)
  have p: "0 < p" "off0 = oo + p" using assms(1) by (auto simp: p_def oo_def)
  have cm: "c + m \<le> length T" "c + m \<le> off0 + ll" "off0 \<le> length T" using assms(3) m by (auto simp: c_def ll_def)
  show ?thesis
  proof (cases "oo + ll - fix_limit \<le> off0")
    case True
    have e: "oo + ll - fix_limit - (oo + fix_offset) = m" using m by simp
    have "oo + fix_offset < oo + ll - fix_limit" using m by simp
    from copy [OF this True ok, of op_ndx] e obtain b' where
      b': "copy (oo + fix_offset) (oo + ll - fix_limit) tgt op_ndx b = Some b'"
      "appends src tgt b (take m (drop (oo + fix_offset) T)) b'" by metis
    have "take m (drop (oo + fix_offset) T) = take m (drop c T)"
    proof (rule seg_shift)
      fix i assume "i < m"
      then show "T ! (oo + fix_offset + i) = T ! (c + i)"
        using self [of "fix_offset + i"] m by (simp add: c_def oo_def ll_def add.assoc)
    qed (use True m cm assms(1,3) in \<open>auto simp: oo_def\<close>)
    then show ?thesis
      using b' True assms(1) by (auto simp: copy_target_op_def oo_def ll_def m_def c_def)
  next
    case False
    define ovl q where "ovl = fix_offset mod p" and "q = fix_offset div p"
    have fo: "fix_offset = q * p + ovl" "ovl < p" using p(1) by (simp_all add: ovl_def q_def)
    have per: "T ! (y + j * p) = T ! y" if "oo \<le> y" "y + j * p < off0 + ll" for y j
    proof (rule period_mult [OF _ that])
      fix y assume "oo \<le> y" "y + p < off0 + ll"
      then show "T ! (y + p) = T ! y" using self [of "y - oo"] p(2) by (simp add: oo_def ll_def add.commute)
    qed
    define len1 where "len1 = min m (p - ovl)"
    have len1: "0 < len1" "len1 \<le> m" "len1 \<le> p - ovl" "m > len1 \<Longrightarrow> len1 = p - ovl"
      using m(1) fo(2) by (auto simp: len1_def min_def)
    have s1: "take len1 (drop (oo + ovl) T) = take len1 (drop c T)"
    proof (rule seg_shift)
      fix i assume "i < len1"
      then have e: "oo + ovl + i + (q + 1) * p = c + i" and "c + i < off0 + ll"
        using fo p(2) len1(2) cm by (auto simp: c_def)
      then show "T ! (oo + ovl + i) = T ! (c + i)" using per [of "oo + ovl + i" "q + 1"] unfolding e by simp
    qed (use len1 fo(2) p(2) cm in auto)
    have "oo + ovl < oo + ovl + len1" "oo + ovl + len1 \<le> off0" using len1 fo(2) p(2) by auto
    from copy [OF this ok, of op_ndx] s1 obtain b1 where
      b1: "copy (oo + ovl) (oo + ovl + len1) tgt op_ndx b = Some b1" "appends src tgt b (take len1 (drop c T)) b1"
      by auto
    have sl: "length (take n (drop c T)) = n" if "n \<le> m" for n using that cm(1) by simp
    have ok1: "baton_ok (length src) (tgt + len1) b1" using appends_ok [OF b1(2)] sl [OF len1(2)] by simp
    define len2 where "len2 = (if ovl > 0 \<and> len1 < m then min (m - len1) ovl else 0)"
    have len2: "len1 + len2 \<le> m" using len1(2) by (auto simp: len2_def)
    have second: "\<exists>b2. (if ovl > 0 \<and> len1 < m then copy oo (oo + len2) (tgt + len1) op_ndx b1 else Some b1) = Some b2
      \<and> appends src tgt b (take (len1 + len2) (drop c T)) b2"
    proof (cases "ovl > 0 \<and> len1 < m")
      case True
      then have l2: "0 < len2" "len2 \<le> ovl" by (auto simp: len2_def)
      have s2: "take len2 (drop oo T) = take len2 (drop (c + len1) T)"
      proof (rule seg_shift)
        fix i assume i: "i < len2"
        have e: "oo + i + (q + 2) * p = c + len1 + i" using fo p(2) len1(4) True by (simp add: c_def)
        have "c + len1 + i < off0 + ll" using i cm len2 by linarith
        then show "T ! (oo + i) = T ! (c + len1 + i)" using per [of "oo + i" "q + 2"] unfolding e by simp
      qed (use l2 fo(2) p(2) cm len2 in auto)
      have "oo < oo + len2" "oo + len2 \<le> off0" using l2 fo(2) p(2) by auto
      from copy [OF this ok1, of op_ndx] s2 obtain b2 where
        b2: "copy oo (oo + len2) (tgt + len1) op_ndx b1 = Some b2"
        "appends src (tgt + len1) b1 (take len2 (drop (c + len1) T)) b2" by auto
      have "appends src (tgt + length (take len1 (drop c T))) b1 (take len2 (drop (c + len1) T)) b2"
        using b2(2) sl [OF len1(2)] by simp
      from appends_trans [OF b1(2) this] show ?thesis
        using b2(1) True by (simp add: seg_split [of len1 len2])
    next
      case F: False
      then have "len2 = 0" by (simp only: len2_def if_False)
      then show ?thesis using b1(2) F by auto
    qed
    then obtain b2 where b2: "(if ovl > 0 \<and> len1 < m then copy oo (oo + len2) (tgt + len1) op_ndx b1 else Some b1) = Some b2"
      "appends src tgt b (take (len1 + len2) (drop c T)) b2" by blast
    define r where "r = m - len1 - len2"
    have r: "len1 + len2 + r = m" using len2 by (simp add: r_def)
    let ?b = "if 0 < r then svn_txdelta_insert_op b2 Delta_target (tgt + len1 + len2 - p) r [] else b2"
    have third: "appends src tgt b (take m (drop c T)) ?b"
    proof (cases "0 < r")
      case True
      have whole: "len1 + len2 = p"
        using True len1(4) fo(2) by (auto simp: r_def len2_def min_def split: if_splits)
      have ok2: "baton_ok (length src) (tgt + p) b2" using appends_ok [OF b2(2)] sl [OF len2] whole by simp
      have off: "tgt + len1 + len2 - p = tgt" using whole by simp
      have b0: "length (baton_target b src) = tgt" by (rule length_baton_target [OF ok])
      have tb: "baton_target b2 src = baton_target b src @ take p (drop c T)" using b2(2) whole by (simp add: appends_def)
      have ext: "extend_copy (baton_target b src @ take p (drop c T)) (length (baton_target b src) + p - p) r
          = baton_target b src @ take (p + r) (drop c T)"
      proof (rule extend_periodic)
        fix i assume i: "p \<le> i" "i < p + r"
        have "c + i - p + 1 * p = c + i" "c + i < off0 + ll" "oo \<le> c + i - p"
          using i whole r cm p(2) by (auto simp: c_def)
        then show "T ! (c + i) = T ! (c + i - p)" using per [of "c + i - p" 1] by simp
      qed (use p r whole cm in auto)
      have "(case Delta_target of Delta_source \<Rightarrow> tgt + r \<le> length src | Delta_target \<Rightarrow> tgt < tgt + p
        | Delta_new \<Rightarrow> r \<le> length ([] :: bytes))" using p(1) by simp
      note ins = insert_op_spec [OF ok2 True this]
      show ?thesis
        using ins(1) ins(2) [of src] True ext r whole sl [of m] b0 by (simp add: appends_def off tb op_bytes_def add.assoc)
    next
      case False
      then show ?thesis using b2(2) r by simp
    qed
    have split2: "(if 0 < ovl \<and> fix_offset + len1 + fix_limit < ll
          then map_option (\<lambda>b. (b, fix_offset + len1 + min (ll - (fix_offset + len1) - fix_limit) ovl,
                tgt + len1 + min (ll - (fix_offset + len1) - fix_limit) ovl))
              (copy oo (oo + min (ll - (fix_offset + len1) - fix_limit) ovl) (tgt + len1) op_ndx b1)
          else Some (b1, fix_offset + len1, tgt + len1))
        = Some (b2, fix_offset + len1 + len2, tgt + len1 + len2)"
    proof -
      have "fix_offset + len1 + fix_limit < ll \<longleftrightarrow> len1 < m" "ll - (fix_offset + len1) - fix_limit = m - len1"
        using m(2) by auto
      then show ?thesis using b2(1) by (auto simp: len2_def split: if_splits)
    qed
    have "copy_target_op copy dlt off0 fix_offset fix_limit tgt op_ndx b = Some ?b"
    proof -
      have "m = ll - fix_offset - fix_limit" by (simp add: m_def ll_def)
      then have l1: "min (ll - fix_offset - fix_limit) (p - ovl) = len1" by (simp add: len1_def)
      have "fix_offset + len1 + fix_limit \<le> ll" "fix_offset + len1 + len2 + fix_limit \<le> ll"
        "fix_offset + len1 + len2 + fix_limit < ll \<longleftrightarrow> 0 < r" "ll - (fix_offset + len1 + len2) - fix_limit = r"
        using m(2) len1(2) len2 r by auto
      then have l2: "assert_opt (fix_offset + len1 + fix_limit \<le> ll) = Some ()"
        "assert_opt (fix_offset + len1 + len2 + fix_limit \<le> ll) = Some ()"
        "(fix_offset + len1 + len2 + fix_limit < ll) = (0 < r)" "ll - (fix_offset + len1 + len2) - fix_limit = r"
        "assert_opt (oo < off0) = Some ()" "assert_opt (ovl < p) = Some ()"
        using assms(1) fo(2) by (simp_all add: oo_def)
      have "copy_target_op copy dlt off0 fix_offset fix_limit tgt op_ndx b
        = Option.bind (assert_opt (oo < off0)) (\<lambda>_.
            if oo + ll - fix_limit \<le> off0 then copy (oo + fix_offset) (oo + ll - fix_limit) tgt op_ndx b
            else Option.bind (assert_opt (ovl < p)) (\<lambda>_.
              Option.bind (copy (oo + ovl) (oo + ovl + len1) tgt op_ndx b) (\<lambda>b.
              Option.bind (assert_opt (fix_offset + len1 + fix_limit \<le> ll)) (\<lambda>_.
              Option.bind
                (if 0 < ovl \<and> fix_offset + len1 + fix_limit < ll
                 then map_option (\<lambda>b. (b, fix_offset + len1 + min (ll - (fix_offset + len1) - fix_limit) ovl,
                        tgt + len1 + min (ll - (fix_offset + len1) - fix_limit) ovl))
                      (copy oo (oo + min (ll - (fix_offset + len1) - fix_limit) ovl) (tgt + len1) op_ndx b)
                 else Some (b, fix_offset + len1, tgt + len1)) (\<lambda>(b, fix_off, tgt_off).
              Option.bind (assert_opt (fix_off + fix_limit \<le> ll)) (\<lambda>_.
              Some (if fix_off + fix_limit < ll
                    then svn_txdelta_insert_op b Delta_target (tgt_off - p) (ll - fix_off - fix_limit) [] else b)))))))"
        unfolding copy_target_op_def Let_def oo_def [symmetric] ll_def [symmetric] p_def [symmetric] ovl_def [symmetric] l1 ..
      also have "\<dots> = Some ?b"
        by (simp only: l2 b1(1) split2 False Option.bind.simps prod.case if_False)
      finally show ?thesis .
    qed
    then show ?thesis using third by (auto simp: m_def c_def)
  qed
qed

lemma op_start_sum: "window_ok w \<Longrightarrow> op_start (win_ops w) (length (win_ops w)) = tview_len w"
  using ops_ok_sum [of "sview_len w" "length (new_data w)" "tview_len w" 0 "win_ops w"]
  by (simp add: op_start_def window_ok_def)

lemma insert_op_at_spec:
  assumes "baton_ok (length src) tpos b" and "0 < len" and "opcode \<noteq> Delta_target"
    and "opcode = Delta_source \<Longrightarrow> offset + len \<le> length src" and "opcode = Delta_new \<Longrightarrow> pos + len \<le> length nd"
  shows "\<exists>b'. insert_op_at b opcode offset len nd pos = Some b'
    \<and> appends src tpos b (take len (if opcode = Delta_source then drop offset src else drop pos nd)) b'"
proof -
  let ?data = "if opcode = Delta_new then take len (drop pos nd) else []"
  have "insert_op_at b opcode offset len nd pos = Some (svn_txdelta_insert_op b opcode offset len ?data)"
    using assms(5) by (auto simp: insert_op_at_def mem_read_def)
  moreover have "case opcode of Delta_source \<Rightarrow> offset + len \<le> length src | Delta_target \<Rightarrow> offset + len \<le> tpos
      | Delta_new \<Rightarrow> len \<le> length ?data" using assms(3-5) by (cases opcode) auto
  note appends_insert_op [OF assms(1,2) this]
  ultimately show ?thesis using assms(3,5) by (cases opcode) auto
qed

lemma copy_ops_loop_spec:
  assumes "window_ok w" and "length src = sview_len w" and "offset < limit" and "limit \<le> tview_len w"
    and "k \<le> length (win_ops w)" and "k < length (win_ops w) \<Longrightarrow> offset < op_start (win_ops w) (Suc k)"
    and "baton_ok (length src) tgt b" and "\<forall>dlt\<in>set (win_ops w). 0 < op_length dlt"
  shows "\<exists>b'. copy_ops_loop w (create_offset_index w) offset limit tgt k b = Some b'
    \<and> appends src tgt b (take (limit - max offset (op_start (win_ops w) k))
        (drop (max offset (op_start (win_ops w) k)) (window_target w src))) b'"
  using assms(3-7)
proof (induction limit arbitrary: offset tgt k b rule: less_induct)
  case (less limit)
  note outer = less.IH
  let ?ops = "win_ops w" and ?ndx = "create_offset_index w" and ?T = "window_target w src"
  let ?n = "length ?ops"
  have lenT: "length ?T = tview_len w" by (rule length_window_target [OF assms(1,2)])
  have offs: "oi_offs ?ndx ! j = op_start ?ops j" if "j \<le> ?n" for j
    using that by (simp add: create_offset_index_def nth_offsets_from)
  have lenO: "length (oi_offs ?ndx) = Suc ?n" by (simp add: create_offset_index_def)
  from less.prems show ?case
  proof (induction "?n - k" arbitrary: k tgt b rule: less_induct)
    case less
    define off0 where "off0 = op_start ?ops k"
    have n0: "nth_opt (oi_offs ?ndx) k = Some off0" using less.prems(3) lenO offs by (simp add: off0_def)
    show ?case
    proof (cases "off0 \<ge> limit")
      case True
      then show ?thesis
        using n0 less.prems(5) by (subst copy_ops_loop.simps) (simp add: appends_def flip: off0_def)
    next
      case False
      have k: "k < ?n"
        using less.prems(2,3) False op_start_sum [OF assms(1)] by (cases "k = ?n") (auto simp: off0_def)
      define dlt off1 where "dlt = ?ops ! k" and "off1 = op_start ?ops (Suc k)"
      define ll where "ll = op_length dlt"
      have n1: "nth_opt (oi_offs ?ndx) (Suc k) = Some off1" using k lenO offs by (simp add: off1_def)
      have nd: "nth_opt ?ops k = Some dlt" using k by (simp add: dlt_def)
      have o1: "off1 = off0 + ll" using op_start_Suc [OF k] by (simp add: off1_def off0_def dlt_def ll_def)
      define cur where "cur = max offset off0"
      define fo fl where "fo = (if offset > off0 then offset - off0 else 0)" and "fl = (if off1 > limit then off1 - limit else 0)"
      have cur: "cur = off0 + fo" by (auto simp: cur_def fo_def)
      have c1: "cur < off1" using less.prems(4) [OF k] o1 assms(8) k by (auto simp: cur_def off1_def dlt_def ll_def)
      have c2: "cur < limit" using less.prems(1) False by (simp add: cur_def)
      define m where "m = ll - fo - fl"
      have m: "0 < m" "fo + fl < ll" "cur + m = min off1 limit" "fo + m + fl = ll"
        using c1 c2 o1 by (auto simp: m_def cur fl_def)
      note wop = window_op [OF assms(1,2) k dlt_def off0_def, folded ll_def]
      have bytes: "take m (drop cur ?T) = take m (drop (op_offset dlt + fo) xs)"
        if "take ll (drop off0 ?T) = take ll (drop (op_offset dlt) xs)" for xs
      proof -
        have "take m (drop fo (take ll (drop off0 ?T))) = take m (drop fo (take ll (drop (op_offset dlt) xs)))"
          by (simp only: that)
        then show ?thesis using m(4) by (simp add: drop_take min_def cur add.commute split: if_splits)
      qed
      have step: "\<exists>b1. (if op_action dlt \<noteq> Delta_target
        then insert_op_at b (op_action dlt) (op_offset dlt + fo) m (new_data w) (op_offset dlt + fo)
        else copy_target_op
               (\<lambda>offset limit target_offset hint b. Option.bind (search_offset_index ?ndx offset hint) (\<lambda>op_ndx.
                  copy_ops_loop w ?ndx offset limit target_offset op_ndx b))
               dlt off0 fo fl tgt k b) = Some b1 \<and> appends src tgt b (take m (drop cur ?T)) b1"
      proof (cases "op_action dlt = Delta_target")
        case a: True
        have "op_offset dlt < off0" using wop(1) a by (simp add: op_ok_def)
        moreover have "off0 + op_length dlt \<le> length ?T" using wop(2) by (simp add: ll_def)
        moreover have "fo + fl < op_length dlt" using m(2) by (simp add: ll_def)
        moreover have "\<exists>b'. Option.bind (search_offset_index ?ndx offset' hint) (\<lambda>op_ndx.
              copy_ops_loop w ?ndx offset' limit' tgt' op_ndx b'') = Some b'
            \<and> appends src tgt' b'' (take (limit' - offset') (drop offset' ?T)) b'"
          if l: "offset' < limit'" "limit' \<le> off0" "baton_ok (length src) tgt' b''" for offset' limit' tgt' hint b''
        proof -
          have "offset' < op_start ?ops ?n" using l op_start_sum [OF assms(1)] wop(2) lenT by simp
          from search_offset_index_spec [OF refl this, of hint] obtain j where
            j: "search_offset_index ?ndx offset' hint = Some j" "j < ?n" "op_start ?ops j \<le> offset'"
              "offset' < op_start ?ops (Suc j)" by blast
          have "limit' < limit" "limit' \<le> tview_len w" using l(2) False wop(2) lenT by auto
          from outer [OF this(1) l(1) this(2) _ _ l(3), of j] j show ?thesis by (simp add: max_absorb1)
        qed
        ultimately have "\<exists>b'. copy_target_op
               (\<lambda>offset limit target_offset hint b. Option.bind (search_offset_index ?ndx offset hint) (\<lambda>op_ndx.
                  copy_ops_loop w ?ndx offset limit target_offset op_ndx b))
               dlt off0 fo fl tgt k b = Some b'
            \<and> appends src tgt b (take (op_length dlt - fo - fl) (drop (off0 + fo) ?T)) b'"
          using wop(5) [OF a, unfolded ll_def] by (intro copy_target_op_spec less.prems(5)) (auto simp: ll_def)
        then show ?thesis using a by (simp add: m_def ll_def cur)
      next
        case False
        have "\<exists>b1. insert_op_at b (op_action dlt) (op_offset dlt + fo) m (new_data w) (op_offset dlt + fo) = Some b1
          \<and> appends src tgt b (take m (if op_action dlt = Delta_source then drop (op_offset dlt + fo) src
              else drop (op_offset dlt + fo) (new_data w))) b1"
          by (rule insert_op_at_spec [OF less.prems(5) m(1) False]) (use wop(1) m(4) assms(2) in \<open>auto simp: op_ok_def ll_def\<close>)
        moreover have "take m (drop cur ?T) = take m (if op_action dlt = Delta_source then drop (op_offset dlt + fo) src
              else drop (op_offset dlt + fo) (new_data w))"
          using False bytes [OF wop(3)] bytes [OF wop(4)] by (cases "op_action dlt") auto
        ultimately show ?thesis using False by simp
      qed
      then obtain b1 where b1: "(if op_action dlt \<noteq> Delta_target
        then insert_op_at b (op_action dlt) (op_offset dlt + fo) m (new_data w) (op_offset dlt + fo)
        else copy_target_op
               (\<lambda>offset limit target_offset hint b. Option.bind (search_offset_index ?ndx offset hint) (\<lambda>op_ndx.
                  copy_ops_loop w ?ndx offset limit target_offset op_ndx b))
               dlt off0 fo fl tgt k b) = Some b1" "appends src tgt b (take m (drop cur ?T)) b1" by blast
      have run: "copy_ops_loop w ?ndx offset limit tgt k b = copy_ops_loop w ?ndx offset limit (tgt + m) (Suc k) b1"
      proof -
        have a: "assert_opt (fo + fl < ll) = Some ()" using m(2) by simp
        show ?thesis
          by (subst copy_ops_loop.simps) (simp only: n0 n1 nd Let_def fo_def [symmetric] fl_def [symmetric]
            ll_def [symmetric] m_def [symmetric] Option.bind.simps a b1(1) if_False False)
      qed
      have lm: "length (take m (drop cur ?T)) = m" using m(3) less.prems(2) lenT by simp
      have ok1: "baton_ok (length src) (tgt + m) b1" using appends_ok [OF b1(2)] lm by simp
      have mx: "max offset off1 = off1" using c1 by (simp add: cur_def)
      have "\<exists>b'. copy_ops_loop w ?ndx offset limit (tgt + m) (Suc k) b1 = Some b'
          \<and> appends src (tgt + m) b1 (take (limit - max offset (op_start ?ops (Suc k)))
              (drop (max offset (op_start ?ops (Suc k))) ?T)) b'"
      proof (rule less.hyps)
        show "?n - Suc k < ?n - k" using k by simp
        show "Suc k < ?n \<Longrightarrow> offset < op_start ?ops (Suc (Suc k))"
          using less.prems(4) [OF k] op_start_Suc [of "Suc k" ?ops] by simp
      qed (use less.prems ok1 k in auto)
      then obtain b' where b': "copy_ops_loop w ?ndx offset limit (tgt + m) (Suc k) b1 = Some b'"
        "appends src (tgt + m) b1 (take (limit - off1) (drop off1 ?T)) b'"
        using mx by (auto simp flip: off1_def)
      have "take (limit - cur) (drop cur ?T) = take m (drop cur ?T) @ take (limit - off1) (drop off1 ?T)"
      proof (cases "off1 \<le> limit")
        case True
        then have "limit - cur = m + (limit - off1)" "cur + m = off1" using m(3) by auto
        then show ?thesis by (simp only: seg_split)
      next
        case False
        then have "limit - cur = m" using m(3) c2 by auto
        then show ?thesis using False by simp
      qed
      moreover have "appends src tgt b (take m (drop cur ?T) @ take (limit - off1) (drop off1 ?T)) b'"
        by (rule appends_trans [OF b1(2)]) (use b'(2) lm in simp)
      ultimately show ?thesis using run b'(1) by (simp flip: off0_def cur_def)
    qed
  qed
qed

lemma copy_source_ops_spec:
  assumes "window_ok w" and "length src = sview_len w" and "offset < limit" and "limit \<le> tview_len w"
    and "baton_ok (length src) tgt b" and "\<forall>dlt\<in>set (win_ops w). 0 < op_length dlt"
  shows "\<exists>b'. copy_source_ops offset limit tgt hint b w (create_offset_index w) = Some b'
    \<and> appends src tgt b (take (limit - offset) (drop offset (window_target w src))) b'"
proof -
  have "offset < op_start (win_ops w) (length (win_ops w))" using assms(3,4) op_start_sum [OF assms(1)] by simp
  from search_offset_index_spec [OF refl this, of hint] obtain k where
    k: "search_offset_index (create_offset_index w) offset hint = Some k" "k < length (win_ops w)"
      "op_start (win_ops w) k \<le> offset" "offset < op_start (win_ops w) (Suc k)" by blast
  from copy_ops_loop_spec [OF assms(1-4) _ _ assms(5,6), of k] k show ?thesis
    by (simp add: copy_source_ops_def max_absorb1)
qed

section \<open>The ranges of a source copy\<close>

text \<open>The ranges follow each other from \<open>offset\<close> to \<open>limit\<close>; one from the target lies in an entry.\<close>

fun ranges_ok :: "(nat \<times> nat \<times> nat) set \<Rightarrow> nat \<Rightarrow> nat \<Rightarrow> range_list_node list \<Rightarrow> bool" where
  "ranges_ok E offset limit [] \<longleftrightarrow> offset = limit"
| "ranges_ok E offset limit (rng # ranges) \<longleftrightarrow>
     rln_offset rng = offset \<and> offset < rln_limit rng \<and> rln_limit rng \<le> limit
     \<and> (rln_kind rng = Range_from_source
        \<or> (\<exists>(s, l, t)\<in>E. s \<le> offset \<and> rln_limit rng \<le> l \<and> rln_target_offset rng = offset - s + t))
     \<and> ranges_ok E (rln_limit rng) limit ranges"

lemma ranges_ok_mono: "ranges_ok E a b rs \<Longrightarrow> E \<subseteq> E' \<Longrightarrow> ranges_ok E' a b rs"
  by (induction E a b rs rule: ranges_ok.induct) fastforce+

lemma range_list_loop_spec:
  assumes "offset < limit"
  shows "\<exists>ranges. range_list_loop offset limit ns = Some ranges
    \<and> ranges_ok ((\<lambda>n. (rin_offset n, rin_limit n, rin_target_offset n)) ` set ns) offset limit ranges"
  using assms
proof (induction offset limit ns rule: range_list_loop.induct)
  case (1 offset limit ns)
  show ?case
  proof (cases ns)
    case Nil
    then show ?thesis using "1.prems" by (simp add: range_list_loop.simps [of _ _ "[]"])
  next
    case (Cons node rest)
    let ?E = "\<lambda>ns. (\<lambda>n. (rin_offset n, rin_limit n, rin_target_offset n)) ` set ns"
    consider (before) "offset < rin_offset node" "limit \<le> rin_offset node"
      | (upto) "offset < rin_offset node" "rin_offset node < limit"
      | (behind) "\<not> offset < rin_offset node" "rin_limit node \<le> offset"
      | (inside) "\<not> offset < rin_offset node" "offset < rin_limit node" "limit \<le> rin_limit node"
      | (begins) "\<not> offset < rin_offset node" "offset < rin_limit node" "rin_limit node < limit"
      by linarith
    then show ?thesis
    proof cases
      case before
      then show ?thesis using "1.prems" by (simp add: Cons range_list_loop.simps [of _ _ "node # rest"])
    next
      case upto
      have "\<exists>ranges. range_list_loop (rin_offset node) limit (node # rest) = Some ranges
        \<and> ranges_ok (?E (node # rest)) (rin_offset node) limit ranges"
        by (rule "1.IH"(1) [OF "1.prems" Cons]) (use upto in auto)
      then show ?thesis
        using "1.prems" upto by (auto simp: Cons range_list_loop.simps [of offset _ "node # rest"])
    next
      case behind
      have "\<exists>ranges. range_list_loop offset limit rest = Some ranges \<and> ranges_ok (?E rest) offset limit ranges"
        by (rule "1.IH"(2) [OF "1.prems" Cons]) (use behind "1.prems" in auto)
      then obtain ranges where "range_list_loop offset limit rest = Some ranges" "ranges_ok (?E ns) offset limit ranges"
        using ranges_ok_mono [of "?E rest" _ _ _ "?E ns"] Cons by auto
      then show ?thesis using "1.prems" behind by (simp add: Cons range_list_loop.simps [of offset _ "node # rest"])
    next
      case inside
      then show ?thesis using "1.prems" by (simp add: Cons range_list_loop.simps [of offset _ "node # rest"])
    next
      case begins
      have "\<exists>ranges. range_list_loop (rin_limit node) limit rest = Some ranges
        \<and> ranges_ok (?E rest) (rin_limit node) limit ranges"
        by (rule "1.IH"(3) [OF "1.prems" Cons _ _ refl]) (use begins in auto)
      then obtain ranges where "range_list_loop (rin_limit node) limit rest = Some ranges"
        "ranges_ok (?E ns) (rin_limit node) limit ranges"
        using ranges_ok_mono [of "?E rest" _ _ _ "?E ns"] Cons by auto
      then show ?thesis using "1.prems" begins by (simp add: Cons range_list_loop.simps [of offset _ "node # rest"])
    qed
  qed
qed

lemma build_range_list_spec:
  assumes "offset < limit" and "index_ok ndx"
  shows "\<exists>ranges. build_range_list offset limit ndx = Some ranges \<and> ranges_ok (entries ndx) offset limit ranges"
proof -
  define ns where "ns = (case ri_tree ndx of Leaf \<Rightarrow> [] | Node l x r \<Rightarrow> dropWhile (\<lambda>n. rin_addr n \<noteq> rin_addr x) (ri_list ndx))"
  have sub: "set ns \<subseteq> set (ri_list ndx)"
    by (auto simp: ns_def dest: set_dropWhileD split: tree.splits)
  from range_list_loop_spec [OF assms(1), of ns] ranges_ok_mono [OF _ image_mono [OF sub]] show ?thesis
    unfolding build_range_list_def ns_def [symmetric] entries_def by blast
qed

text \<open>What an entry says is true of the source \<open>T\<close> and the target \<open>tgt\<close> built so far.\<close>

definition entry_ok :: "bytes \<Rightarrow> bytes \<Rightarrow> nat \<times> nat \<times> nat \<Rightarrow> bool" where
  "entry_ok T tgt e \<longleftrightarrow>
     (case e of (s, l, t) \<Rightarrow> s < l \<and> l \<le> length T \<and> t + (l - s) \<le> length tgt
        \<and> take (l - s) (drop t tgt) = take (l - s) (drop s T))"

lemma entry_ok_append: "entry_ok T tgt e \<Longrightarrow> entry_ok T (tgt @ u) e"
  by (auto simp: entry_ok_def)

lemma entry_ok_part:
  assumes "entry_ok T tgt (s, l, t)" and "s \<le> a" and "a < c" and "c \<le> l"
  shows "a - s + t + (c - a) \<le> length tgt"
    and "take (c - a) (drop (a - s + t) tgt) = take (c - a) (drop a T)"
proof -
  show "a - s + t + (c - a) \<le> length tgt" using assms by (auto simp: entry_ok_def)
  have "take (c - a) (drop (a - s) (take (l - s) (drop t tgt))) = take (c - a) (drop (a - s) (take (l - s) (drop s T)))"
    using assms(1) by (simp add: entry_ok_def)
  moreover have "c - a \<le> l - s - (a - s)" using assms(2-4) by auto
  ultimately show "take (c - a) (drop (a - s + t) tgt) = take (c - a) (drop a T)"
    using assms(2) by (simp add: drop_take min_absorb1)
qed

lemma copy_ranges_spec:
  assumes "window_ok w" and "length src = sview_len w" and "\<forall>dlt\<in>set (win_ops w). 0 < op_length dlt"
    and "ranges_ok E offset limit ranges" and "limit \<le> tview_len w"
    and "baton_ok (length src) tpos b" and "\<forall>e\<in>E. entry_ok (window_target w src) (baton_target b src) e"
  shows "\<exists>b'. copy_ranges w (create_offset_index w) ranges tpos b = Some (b', tpos + (limit - offset))
    \<and> appends src tpos b (take (limit - offset) (drop offset (window_target w src))) b'"
  using assms(4-7)
proof (induction E offset limit ranges arbitrary: tpos b rule: ranges_ok.induct)
  case (1 E offset limit)
  then show ?case by (simp add: appends_def)
next
  case (2 E offset limit rng ranges)
  let ?T = "window_target w src" and ?m = "rln_limit rng - offset"
  have rng: "rln_offset rng = offset" "offset < rln_limit rng" "rln_limit rng \<le> limit" "ranges_ok E (rln_limit rng) limit ranges"
    using "2.prems"(1) by auto
  have lm: "length (take ?m (drop offset ?T)) = ?m"
    using rng "2.prems"(2) length_window_target [OF assms(1,2)] by simp
  have "\<exists>b1. (if rln_kind rng = Range_from_target
      then Some (svn_txdelta_insert_op b Delta_target (rln_target_offset rng) ?m [])
      else copy_source_ops offset (rln_limit rng) tpos 0 b w (create_offset_index w)) = Some b1
    \<and> appends src tpos b (take ?m (drop offset ?T)) b1"
  proof (cases "rln_kind rng = Range_from_target")
    case True
    then obtain s l t where e: "(s, l, t) \<in> E" "s \<le> offset" "rln_limit rng \<le> l" "rln_target_offset rng = offset - s + t"
      using "2.prems"(1) by fastforce
    have ok: "entry_ok ?T (baton_target b src) (s, l, t)" using "2.prems"(4) e(1) by blast
    note part = entry_ok_part [OF ok e(2) rng(2) e(3)]
    have "case Delta_target of Delta_source \<Rightarrow> offset - s + t + ?m \<le> length src
      | Delta_target \<Rightarrow> offset - s + t + ?m \<le> tpos | Delta_new \<Rightarrow> ?m \<le> length ([] :: bytes)"
      using part(1) length_baton_target [OF "2.prems"(3)] by simp
    from appends_insert_op [OF "2.prems"(3) _ this] show ?thesis
      using True e(4) part(2) rng(2) by simp
  next
    case False
    then show ?thesis
      using copy_source_ops_spec [OF assms(1,2) rng(2) _ "2.prems"(3) assms(3), of 0] rng(3) "2.prems"(2) by simp
  qed
  then obtain b1 where b1: "(if rln_kind rng = Range_from_target
      then Some (svn_txdelta_insert_op b Delta_target (rln_target_offset rng) ?m [])
      else copy_source_ops offset (rln_limit rng) tpos 0 b w (create_offset_index w)) = Some b1"
    "appends src tpos b (take ?m (drop offset ?T)) b1" by blast
  have "baton_target b1 src = baton_target b src @ take ?m (drop offset ?T)" using b1(2) by (simp add: appends_def)
  then have "\<forall>e\<in>E. entry_ok ?T (baton_target b1 src) e" using "2.prems"(4) entry_ok_append by auto
  moreover have "baton_ok (length src) (tpos + ?m) b1" using appends_ok [OF b1(2)] lm by simp
  ultimately obtain b' where b': "copy_ranges w (create_offset_index w) ranges (tpos + ?m) b1
      = Some (b', tpos + ?m + (limit - rln_limit rng))"
    "appends src (tpos + ?m) b1 (take (limit - rln_limit rng) (drop (rln_limit rng) ?T)) b'"
    using "2.IH" [OF rng(4) "2.prems"(2), of "tpos + ?m" b1] by blast
  have len: "limit - offset = ?m + (limit - rln_limit rng)" using rng(2,3) by simp
  have "appends src tpos b (take ?m (drop offset ?T) @ take (limit - rln_limit rng) (drop (rln_limit rng) ?T)) b'"
    by (rule appends_trans [OF b1(2)]) (use b'(2) lm in simp)
  moreover have "take (limit - offset) (drop offset ?T)
      = take ?m (drop offset ?T) @ take (limit - rln_limit rng) (drop (rln_limit rng) ?T)"
    unfolding len seg_split using rng(2) by simp
  moreover have "copy_ranges w (create_offset_index w) (rng # ranges) tpos b = Some (b', tpos + (limit - offset))"
    by (simp only: copy_ranges.simps rng(1) b1(1) Option.bind.simps b'(1)) (simp add: len add.assoc)
  ultimately show ?case by metis
qed

section \<open>The composite\<close>

lemma compose_loop_spec:
  assumes A: "window_ok A" "length src = sview_len A" "\<forall>dlt\<in>set (win_ops A). 0 < op_length dlt"
    and T: "T = window_target A src"
    and "ops_ok (tview_len A) (length nd) tv tpos ops" and "\<forall>dlt\<in>set ops. 0 < op_length dlt"
    and "baton_ok (length src) tpos b" and "index_ok ndx" and "\<forall>e\<in>entries ndx. entry_ok T (baton_target b src) e"
  shows "\<exists>b'. compose_loop A (create_offset_index A) nd ops tpos ndx b = Some b'
    \<and> baton_ok (length src) tv b' \<and> baton_target b' src = ops_target T nd ops (baton_target b src)"
  using assms(5-9)
proof (induction ops arbitrary: tpos b ndx)
  case Nil
  then show ?case by (simp add: ops_target_def)
next
  case (Cons dlt ops)
  have lenT: "length T = tview_len A" unfolding T by (rule length_window_target [OF A(1,2)])
  have ok: "op_ok (tview_len A) (length nd) tpos dlt" "ops_ok (tview_len A) (length nd) tv (tpos + op_length dlt) ops"
    and pos: "0 < op_length dlt" "\<forall>dlt\<in>set ops. 0 < op_length dlt" using Cons.prems(1,2) by auto
  have lb: "length (baton_target b src) = tpos" by (rule length_baton_target [OF Cons.prems(3)])
  show ?case
  proof (cases "op_action dlt = Delta_source")
    case False
    have "insert_op_at b (op_action dlt) (op_offset dlt) (op_length dlt) nd (op_offset dlt)
        = Some (svn_txdelta_insert_op b (op_action dlt) (op_offset dlt) (op_length dlt)
            (if op_action dlt = Delta_new then take (op_length dlt) (drop (op_offset dlt) nd) else []))"
      (is "_ = Some ?b") using ok(1) by (auto simp: insert_op_at_def mem_read_def op_ok_def)
    moreover have "case op_action dlt of Delta_source \<Rightarrow> op_offset dlt + op_length dlt \<le> length src
      | Delta_target \<Rightarrow> op_offset dlt < tpos
      | Delta_new \<Rightarrow> op_length dlt \<le> length (if op_action dlt = Delta_new then take (op_length dlt) (drop (op_offset dlt) nd) else [])"
      using False ok(1) by (cases "op_action dlt") (auto simp: op_ok_def)
    note ins = insert_op_spec [OF Cons.prems(3) pos(1) this]
    have tgt: "baton_target ?b src = op_target T nd dlt (baton_target b src)"
      using ins(2) [of src] False by (cases "op_action dlt") (auto simp: op_bytes_def op_target_def)
    moreover have "\<forall>e\<in>entries ndx. entry_ok T (baton_target ?b src) e"
      using Cons.prems(5) op_target_prefix [of T nd dlt "baton_target b src"] entry_ok_append tgt by metis
    ultimately show ?thesis
      using Cons.IH [OF ok(2) pos(2) ins(1) Cons.prems(4)] False by (simp add: ops_target_Cons)
  next
    case True
    let ?o = "op_offset dlt" and ?l = "op_offset dlt + op_length dlt"
    have l: "?o < ?l" "?l \<le> tview_len A" using pos(1) ok(1) True by (auto simp: op_ok_def)
    obtain t where splay: "splay_range_index ?o ndx = Some (ndx\<lparr>ri_tree := t\<rparr>)"
      "index_ok (ndx\<lparr>ri_tree := t\<rparr>)" "splayed_to ?o t" using splay_range_index_spec [OF Cons.prems(4)] by blast
    have ent: "entries (ndx\<lparr>ri_tree := t\<rparr>) = entries ndx" by (simp add: entries_def)
    obtain ranges where ranges: "build_range_list ?o ?l (ndx\<lparr>ri_tree := t\<rparr>) = Some ranges"
      "ranges_ok (entries ndx) ?o ?l ranges" using build_range_list_spec [OF l(1) splay(2)] ent by auto
    obtain b1 where b1: "copy_ranges A (create_offset_index A) ranges tpos b = Some (b1, tpos + op_length dlt)"
      "appends src tpos b (take (op_length dlt) (drop ?o T)) b1"
      using copy_ranges_spec [OF A ranges(2) l(2) Cons.prems(3) Cons.prems(5) [unfolded T]] T by auto
    obtain ndx' where ins: "insert_range ?o ?l tpos (ndx\<lparr>ri_tree := t\<rparr>) = Some ndx'" "index_ok ndx'"
      "entries ndx' \<subseteq> insert (?o, ?l, tpos) (entries ndx)"
      using insert_range_spec [OF splay(2), of ?o ?l tpos] splay(3) ent by auto
    have tgt: "baton_target b1 src = baton_target b src @ take (op_length dlt) (drop ?o T)"
      and ok1: "baton_ok (length src) (tpos + op_length dlt) b1"
      using b1(2) l(2) lenT by (auto simp: appends_def)
    have "entry_ok T (baton_target b1 src) (?o, ?l, tpos)"
      using l lenT lb by (simp add: entry_ok_def tgt)
    moreover have "\<forall>e\<in>entries ndx. entry_ok T (baton_target b1 src) e"
      using Cons.prems(5) entry_ok_append tgt by metis
    ultimately have "\<forall>e\<in>entries ndx'. entry_ok T (baton_target b1 src) e" using ins(3) by blast
    from Cons.IH [OF ok(2) pos(2) ok1 ins(2) this] show ?thesis
      using True splay(1) ranges(1) b1(1) ins(1) tgt by (simp add: Let_def ops_target_Cons op_target_def)
  qed
qed

lemma compose_windows_spec:
  assumes "window_ok A" and "window_ok B" and "length src = sview_len A" and "sview_len B = tview_len A"
    and "\<forall>dlt\<in>set (win_ops A) \<union> set (win_ops B). 0 < op_length dlt"
  shows "\<exists>C. svn_txdelta_compose_windows A B = Some C \<and> window_ok C
    \<and> sview_offset C = sview_offset A \<and> sview_len C = sview_len A \<and> tview_len C = tview_len B
    \<and> (\<forall>dlt\<in>set (win_ops C). 0 < op_length dlt)
    \<and> window_target C src = window_target B (window_target A src)"
proof -
  have "\<exists>b'. compose_loop A (create_offset_index A) (new_data B) (win_ops B) 0 create_range_index empty_baton = Some b'
    \<and> baton_ok (length src) (tview_len B) b'
    \<and> baton_target b' src = ops_target (window_target A src) (new_data B) (win_ops B) (baton_target empty_baton src)"
    by (rule compose_loop_spec [OF assms(1,3) _ refl])
      (use assms in \<open>auto simp: window_ok_def\<close>)
  then obtain b' where b': "compose_loop A (create_offset_index A) (new_data B) (win_ops B) 0 create_range_index empty_baton = Some b'"
    "baton_ok (length src) (tview_len B) b'"
    "baton_target b' src = ops_target (window_target A src) (new_data B) (win_ops B) []" by auto
  then show ?thesis
    using assms(3) by (simp add: svn_txdelta_compose_windows_def svn_txdelta_make_window_def window_ok_def baton_ok_def
      window_target_def baton_target_def)
qed

section \<open>Properties\<close>

text \<open>C5. Composing two valid windows, the second of which starts from the target of the first, fails no
  assertion, reads nothing out of bounds and ends in a valid window that turns every source view into
  what the second window makes of what the first one makes of it. The composite can be composed again.\<close>

theorem compose_windows_correct:
  assumes "window_ok A" and "window_ok B" and "length src = sview_len A" and "sview_len B = tview_len A"
    and "\<forall>dlt\<in>set (win_ops A) \<union> set (win_ops B). 0 < op_length dlt"
  shows "\<exists>C. svn_txdelta_compose_windows A B = Some C \<and> window_ok C
    \<and> sview_offset C = sview_offset A \<and> sview_len C = sview_len A \<and> tview_len C = tview_len B
    \<and> (\<forall>dlt\<in>set (win_ops C). 0 < op_length dlt)
    \<and> window_target C src = window_target B (window_target A src)"
  by (rule compose_windows_spec [OF assms])

theorem compose_windows_correct_witness:
  "\<exists>A B C. svn_txdelta_compose_windows A B = Some C \<and> win_ops A = [dop Delta_source 1 2, dop Delta_target 0 5]
    \<and> win_ops B = [dop Delta_source 3 4, dop Delta_new 0 1, dop Delta_source 2 4]
    \<and> window_target C [1, 2, 3] = [3, 2, 3, 2, 9, 2, 3, 2, 3]"
proof -
  let ?A = "\<lparr>sview_offset = 0, sview_len = 3, tview_len = 7, src_ops = 1,
    win_ops = [dop Delta_source 1 2, dop Delta_target 0 5], new_data = []\<rparr>"
  let ?B = "\<lparr>sview_offset = 0, sview_len = 7, tview_len = 9, src_ops = 2,
    win_ops = [dop Delta_source 3 4, dop Delta_new 0 1, dop Delta_source 2 4], new_data = [9]\<rparr>"
  obtain C where "svn_txdelta_compose_windows ?A ?B = Some C"
    "window_target C [1, 2, 3] = window_target ?B (window_target ?A [1, 2, 3])"
    using compose_windows_correct [of ?A ?B "[1, 2, 3]"] by (auto simp: window_ok_def op_ok_def)
  then show ?thesis
    by (intro exI [of _ ?A] exI [of _ ?B] exI [of _ C])
      (simp add: window_target_def ops_target_def op_target_def numeral_eq_Suc)
qed

text \<open>The binary search for the operation that defines a position ends for every hint, valid or not, and
  finds the operation.\<close>

theorem offset_index_search:
  assumes "offset < op_start (win_ops w) (length (win_ops w))"
  shows "\<exists>k. search_offset_index (create_offset_index w) offset hint = Some k \<and> k < length (win_ops w)
    \<and> op_start (win_ops w) k \<le> offset \<and> offset < op_start (win_ops w) (Suc k)"
  by (rule search_offset_index_spec [OF refl assms])

end
