(* ===== verification/Svn_Uris.thy ===== *)
theory Svn_Uris
  imports Svn_Paths
begin

text \<open>
  URLs (\<open>path.c\<close>, \<open>dirent_uri.c\<close>): schemes and escapes, the functions of \<open>path.c\<close> on paths, the URI
  operations, the canonical form of a URI, file URLs and the host names of certificates. Encoding
  and decoding are proved inverse, file URLs to round-trip, and the match of a host name to be the
  documented one.
\<close>

section \<open>URI schemes and escapes\<close>

text \<open>The loop stops at the first colon, slash or the end.\<close>

definition skip_uri_scheme :: "cstring \<Rightarrow> cstring option" where
  "skip_uri_scheme path =
     (let P = (\<lambda>c. c \<noteq> CHR '':'' \<and> c \<noteq> slash); rest = dropWhile P path
      in if takeWhile P path \<noteq> [] \<and> is_prefix ''://'' rest then Some (drop 3 rest) else None)"

definition svn_path_is_url :: "cstring \<Rightarrow> bool" where
  "svn_path_is_url path \<longleftrightarrow> skip_uri_scheme path \<noteq> None"

fun uri_safe_loop :: "cstring \<Rightarrow> bool" where
  "uri_safe_loop [] \<longleftrightarrow> True"
| "uri_safe_loop (c # path) \<longleftrightarrow>
     (if c = CHR ''%''
      then svn_ctype_isxdigit (char_at path 0) \<and> svn_ctype_isxdigit (char_at path 1) \<and> uri_safe_loop (drop 2 path)
      else svn_uri_char_validity c \<and> uri_safe_loop path)"

definition svn_path_is_uri_safe :: "cstring \<Rightarrow> bool" where
  "svn_path_is_uri_safe path \<longleftrightarrow>
     (case skip_uri_scheme path of None \<Rightarrow> False | Some path \<Rightarrow> uri_safe_loop (dropWhile unslash path))"

fun uri_escape :: "cstring \<Rightarrow> (char \<Rightarrow> bool) \<Rightarrow> cstring" where
  "uri_escape [] tab = []"
| "uri_escape (c # path) tab = (if tab c then c # uri_escape path tab else percent_hex c @ uri_escape path tab)"

definition svn_path_uri_encode :: "cstring \<Rightarrow> cstring" where
  "svn_path_uri_encode path = uri_escape path svn_uri_char_validity"

definition iri_escape_chars :: "char \<Rightarrow> bool" where
  "iri_escape_chars c \<longleftrightarrow> of_char c < (128 :: nat)"

definition svn_path_uri_from_iri :: "cstring \<Rightarrow> cstring" where
  "svn_path_uri_from_iri iri = uri_escape iri iri_escape_chars"

definition uri_autoescape_chars :: "char \<Rightarrow> bool" where
  "uri_autoescape_chars c \<longleftrightarrow> c \<notin> {CHR 0x20, CHR 0x22, CHR 0x3C, CHR 0x3E, CHR 0x5C, CHR 0x5E, CHR 0x60,
     CHR 0x7B, CHR 0x7C, CHR 0x7D}"

definition svn_path_uri_autoescape :: "cstring \<Rightarrow> cstring" where
  "svn_path_uri_autoescape uri = uri_escape uri uri_autoescape_chars"

fun uri_decode_loop :: "bool \<Rightarrow> cstring \<Rightarrow> cstring" where
  "uri_decode_loop query_start [] = []"
| "uri_decode_loop query_start (c # path) =
     (if c = CHR ''?'' then c # uri_decode_loop True path
      else if c = CHR ''+'' \<and> query_start then CHR '' '' # uri_decode_loop query_start path
      else if c = CHR ''%'' \<and> svn_ctype_isxdigit (char_at path 0) \<and> svn_ctype_isxdigit (char_at path 1)
      then hex_pair (char_at path 0) (char_at path 1) # uri_decode_loop query_start (drop 2 path)
      else c # uri_decode_loop query_start path)"

text \<open>A decoded NUL ends the string that is returned.\<close>

definition svn_path_uri_decode :: "cstring \<Rightarrow> cstring" where
  "svn_path_uri_decode path = takeWhile (\<lambda>c. c \<noteq> NUL) (uri_decode_loop False path)"

section \<open>The functions of \<open>path.c\<close>\<close>

definition svn_path_join :: "cstring \<Rightarrow> cstring \<Rightarrow> cstring" where
  "svn_path_join base component =
     (if char_at component 0 = slash then component
      else if base = [] then component
      else if component = [] then base
      else (if base = [slash] then [] else base) @ [slash] @ component)"

definition svn_path_url_add_component2 :: "cstring \<Rightarrow> cstring \<Rightarrow> cstring" where
  "svn_path_url_add_component2 url component = svn_path_join url (uri_escape component svn_uri_char_validity)"

function svn_path_component_count :: "cstring \<Rightarrow> nat" where
  "svn_path_component_count path =
     (if path = [] then 0
      else let start = dropWhile (\<lambda>c. c = slash) path; rest = dropWhile unslash start
        in (if length rest \<noteq> length start then 1 else 0) + svn_path_component_count rest)"
  by pat_completeness auto
termination
proof (relation "measure length"; clarsimp)
  fix path :: cstring
  assume "path \<noteq> []"
  then obtain c p where p: "path = c # p" by (cases path) auto
  have "length (dropWhile unslash (dropWhile (\<lambda>c. c = slash) p)) \<le> length p" "length (dropWhile unslash p) \<le> length p"
    by (meson length_dropWhile_le order_trans)+
  then show "length (dropWhile unslash (dropWhile (\<lambda>c. c = slash) path)) < length path"
    unfolding p by (cases "c = slash") simp_all
qed

declare svn_path_component_count.simps [simp del]

fun prev_slash_loop :: "cstring \<Rightarrow> nat \<Rightarrow> nat" where
  "prev_slash_loop path 0 = 0"
| "prev_slash_loop path (Suc len) = (if char_at path len \<noteq> slash then prev_slash_loop path len else len)"

definition previous_segment :: "cstring \<Rightarrow> nat \<Rightarrow> nat" where
  "previous_segment path len =
     (if len = 0 then 0
      else let len = prev_slash_loop path len in if len = 0 \<and> char_at path 0 = slash then 1 else len)"

definition svn_path_add_component :: "cstring \<Rightarrow> cstring \<Rightarrow> cstring" where
  "svn_path_add_component path component =
     path @ (if path \<noteq> [] \<and> \<not> (length path = 1 \<and> hd path = slash) then [slash] else []) @ component"

definition svn_path_remove_component :: "cstring \<Rightarrow> cstring" where
  "svn_path_remove_component path = take (previous_segment path (length path)) path"

fun svn_path_remove_components :: "cstring \<Rightarrow> nat \<Rightarrow> cstring" where
  "svn_path_remove_components path 0 = path"
| "svn_path_remove_components path (Suc n) = svn_path_remove_components (svn_path_remove_component path) n"

definition svn_path_dirname :: "cstring \<Rightarrow> cstring" where
  "svn_path_dirname path = take (previous_segment path (length path)) path"

definition svn_path_basename :: "cstring \<Rightarrow> cstring" where
  "svn_path_basename path =
     (if length path = 1 \<and> hd path = slash then path else drop (basename_start path (length path)) path)"

definition get_path_ancestor_length :: "cstring \<Rightarrow> cstring \<Rightarrow> nat" where
  "get_path_ancestor_length path1 path2 =
     (if path1 = [] \<or> path2 = [] then 0
      else let (i, last_dirsep) = longest_ancestor_loop path1 path2 0 0 in
        if i = 1 \<and> char_at path1 0 = slash \<and> char_at path2 0 = slash then 1
        else if i = length path1 \<and> char_at path2 i = slash
                \<or> i = length path2 \<and> char_at path1 i = slash
                \<or> i = length path1 \<and> i = length path2 then i
        else if last_dirsep = 0 \<and> char_at path1 0 = slash \<and> char_at path2 0 = slash then 1
        else last_dirsep)"

text \<open>Comparing while neither string ends: what is left of both, or a difference.\<close>

fun skip_common :: "cstring \<Rightarrow> cstring \<Rightarrow> (cstring \<times> cstring) option" where
  "skip_common (c # p) (d # q) = (if c \<noteq> d then None else skip_common p q)"
| "skip_common p q = Some (p, q)"

definition svn_path_is_child :: "cstring \<Rightarrow> cstring \<Rightarrow> cstring option" where
  "svn_path_is_child path1 path2 =
     (if path1 = [] then (if path2 = [] \<or> hd path2 = slash then None else Some path2)
      else case skip_common path1 path2 of
             Some ([], c # rest) \<Rightarrow>
               if c = slash then Some rest
               else if length path1 = 1 \<and> hd path1 = slash then Some (tl path2) else None
           | _ \<Rightarrow> None)"

definition svn_path_is_ancestor :: "cstring \<Rightarrow> cstring \<Rightarrow> bool" where
  "svn_path_is_ancestor path1 path2 \<longleftrightarrow>
     (if path1 = [] then char_at path2 0 \<noteq> slash
      else if is_prefix path1 path2
      then last path1 = slash \<or> char_at path2 (length path1) = slash \<or> char_at path2 (length path1) = NUL
      else False)"

text \<open>The loop of \<open>svn_path_decompose\<close>, over the component from \<open>oldi\<close> to \<open>i\<close> and the rest.\<close>

definition decomposed :: "cstring \<Rightarrow> cstring" where
  "decomposed component = (if component = [dot] then [] else component)"

fun decompose_loop :: "cstring \<Rightarrow> cstring \<Rightarrow> cstring list" where
  "decompose_loop component [] = [decomposed component]"
| "decompose_loop component (c # path) =
     (if c = slash then decomposed component # decompose_loop [] path else decompose_loop (component @ [c]) path)"

definition svn_path_decompose :: "cstring \<Rightarrow> cstring list" where
  "svn_path_decompose path =
     (if path = [] then []
      else if hd path = slash then (if tl path = [] then [[slash]] else [slash] # decompose_loop [] (tl path))
      else decompose_loop [] path)"

fun compose_loop_from :: "nat \<Rightarrow> bool \<Rightarrow> cstring list \<Rightarrow> cstring" where
  "compose_loop_from i rooted [] = []"
| "compose_loop_from i rooted (component # components) =
     (if i > 1 \<or> i = 1 \<and> \<not> rooted then [slash] else []) @ component @ compose_loop_from (Suc i) rooted components"

definition svn_path_compose :: "cstring list \<Rightarrow> cstring" where
  "svn_path_compose components = compose_loop_from 0 (components \<noteq> [] \<and> hd components = [slash]) components"

definition svn_path_is_single_path_component :: "cstring \<Rightarrow> bool" where
  "svn_path_is_single_path_component name \<longleftrightarrow> \<not> (name = [] \<or> name = [dot, dot]) \<and> slash \<notin> set name"

fun strstr :: "cstring \<Rightarrow> cstring \<Rightarrow> bool" where
  "strstr needle [] \<longleftrightarrow> needle = []"
| "strstr needle (c # path) \<longleftrightarrow> is_prefix needle (c # path) \<or> strstr needle path"

definition svn_path_is_dotpath_present :: "cstring \<Rightarrow> bool" where
  "svn_path_is_dotpath_present path \<longleftrightarrow>
     (if path = [] then False
      else if char_at path 0 = dot \<and> char_at path 1 \<in> {NUL, slash} then True
      else if char_at path 1 = NUL then False
      else if strstr ''/./'' path then True
      else let len = length path in char_at path (len - 2) = slash \<and> char_at path (len - 1) = dot)"

definition svn_path_is_backpath_present :: "cstring \<Rightarrow> bool" where
  "svn_path_is_backpath_present path \<longleftrightarrow>
     (if char_at path 0 = NUL \<or> char_at path 1 = NUL then False
      else if char_at path 0 = dot \<and> char_at path 1 = dot \<and> char_at path 2 \<in> {NUL, slash} then True
      else if char_at path 2 = NUL then False
      else if strstr ''/../'' path then True
      else let len = length path in
        char_at path (len - 3) = slash \<and> char_at path (len - 2) = dot \<and> char_at path (len - 1) = dot)"

definition svn_ctype_iscntrl :: "char \<Rightarrow> bool" where
  "svn_ctype_iscntrl c \<longleftrightarrow> of_char c < (32 :: nat) \<or> c = CHR 0x7F"

fun svn_path_illegal_path_escape :: "cstring \<Rightarrow> cstring" where
  "svn_path_illegal_path_escape [] = []"
| "svn_path_illegal_path_escape (c # path) =
     (if svn_ctype_iscntrl c
      then let n = of_char c in [CHR 0x5C, char_of (48 + n div 64 :: nat), char_of (48 + n div 8 mod 8), char_of (48 + n mod 8)]
      else [c]) @ svn_path_illegal_path_escape path"

definition svn_path_check_valid :: "cstring \<Rightarrow> unit svn_result" where
  "svn_path_check_valid path = (if \<exists>c\<in>set path. svn_ctype_iscntrl c then Inl Fs_path_syntax else Inr ())"

text \<open>\<open>strrchr\<close>: the index of the last occurrence.\<close>

fun strrchr_from :: "nat \<Rightarrow> char \<Rightarrow> cstring \<Rightarrow> nat option" where
  "strrchr_from i c [] = None"
| "strrchr_from i c (x # path) =
     (case strrchr_from (Suc i) c path of Some j \<Rightarrow> Some j | None \<Rightarrow> if x = c then Some i else None)"

definition svn_path_splitext :: "cstring \<Rightarrow> cstring \<times> cstring" where
  "svn_path_splitext path =
     (case strrchr_from 0 dot path of
        Some last_dot \<Rightarrow>
          if (case strrchr_from 0 slash path of Some last_slash \<Rightarrow> last_dot > last_slash + 1 | None \<Rightarrow> last_dot > 0)
          then (take (last_dot + 1) path, drop (last_dot + 1) path) else (path, [])
      | None \<Rightarrow> (path, []))"

definition svn_path_is_repos_relative_url :: "cstring \<Rightarrow> bool" where
  "svn_path_is_repos_relative_url path \<longleftrightarrow> is_prefix ''^/'' path"

definition svn_path_resolve_repos_relative_url :: "cstring \<Rightarrow> cstring \<Rightarrow> cstring svn_result" where
  "svn_path_resolve_repos_relative_url relative_url repos_root_url =
     (if \<not> svn_path_is_repos_relative_url relative_url then Inl Bad_url
      else Inr (repos_root_url @ drop 1 relative_url))"

section \<open>URIs\<close>

definition uri_schema_root_length :: "cstring \<Rightarrow> nat \<Rightarrow> nat" where
  "uri_schema_root_length uri len =
     (let s = take len uri; i = length (takeWhile unslash s) in
      if i < length s \<and> i > 0 \<and> char_at s (i - 1) = CHR '':'' \<and> char_at s (i + 1) = slash
      then if i = 5 \<and> is_prefix ''file'' uri then 7 else i + 2 + length (takeWhile unslash (drop (i + 2) s))
      else 0)"

text \<open>\<open>None\<close>: there is no slash, the loop leaves the string.\<close>

fun uri_previous_loop :: "cstring \<Rightarrow> nat \<Rightarrow> nat option" where
  "uri_previous_loop uri i =
     (if char_at uri i = slash then Some i else case i of 0 \<Rightarrow> None | Suc i \<Rightarrow> uri_previous_loop uri i)"

definition uri_previous_segment :: "cstring \<Rightarrow> nat \<Rightarrow> nat option" where
  "uri_previous_segment uri len =
     (if len = 0 then Some 0
      else Option.bind (if len > uri_schema_root_length uri len then uri_previous_loop uri (len - 1) else Some (len - 1))
             (\<lambda>i. Some (if i = 0 \<and> len > 1 \<and> char_at uri 0 = slash then 1 else i)))"

definition svn_uri_is_root :: "cstring \<Rightarrow> nat \<Rightarrow> bool" where
  "svn_uri_is_root uri len \<longleftrightarrow> len = uri_schema_root_length uri len"

definition svn_uri_dirname :: "cstring \<Rightarrow> cstring option" where
  "svn_uri_dirname uri =
     (if svn_uri_is_root uri (length uri) then Some uri
      else map_option (\<lambda>n. take n uri) (uri_previous_segment uri (length uri)))"

definition svn_uri_basename :: "cstring \<Rightarrow> cstring" where
  "svn_uri_basename uri =
     (if svn_uri_is_root uri (length uri) then []
      else svn_path_uri_decode (drop (basename_start uri (length uri)) uri))"

definition svn_uri_split :: "cstring \<Rightarrow> (cstring \<times> cstring) option" where
  "svn_uri_split uri = map_option (\<lambda>d. (d, svn_uri_basename uri)) (svn_uri_dirname uri)"

text \<open>The loop that looks for the colon: \<open>None\<close> at the end of both strings, \<open>Some None\<close> at a difference.\<close>

fun shared_scheme :: "cstring \<Rightarrow> cstring \<Rightarrow> nat \<Rightarrow> nat option option" where
  "shared_scheme (c # p) (d # q) i =
     (if c \<noteq> d then Some None else if c = CHR '':'' then Some (Some i) else shared_scheme p q (Suc i))"
| "shared_scheme [] [] i = None"
| "shared_scheme p q i = Some None"

definition svn_uri_get_longest_ancestor :: "cstring \<Rightarrow> cstring \<Rightarrow> cstring option" where
  "svn_uri_get_longest_ancestor uri1 uri2 =
     (case shared_scheme uri1 uri2 0 of
        None \<Rightarrow> None
      | Some None \<Rightarrow> Some []
      | Some (Some i) \<Rightarrow>
          let i = i + 3; uri_ancestor_len = get_longest_ancestor_length Type_uri (drop i uri1) (drop i uri2) in
          Some (if uri_ancestor_len = 0 \<or> uri_ancestor_len = 1 \<and> char_at uri1 i = slash then []
                else take (uri_ancestor_len + i) uri1))"

definition uri_skip_ancestor :: "cstring \<Rightarrow> cstring \<Rightarrow> cstring option" where
  "uri_skip_ancestor parent_uri child_uri =
     (let len = length parent_uri in
      if \<not> is_prefix parent_uri child_uri then None
      else if char_at child_uri len = NUL then Some []
      else if char_at child_uri len = slash then Some (drop (len + 1) child_uri) else None)"

definition svn_uri_skip_ancestor :: "cstring \<Rightarrow> cstring \<Rightarrow> cstring option" where
  "svn_uri_skip_ancestor parent_uri child_uri = map_option svn_path_uri_decode (uri_skip_ancestor parent_uri child_uri)"

definition svn_uri_is_ancestor :: "cstring \<Rightarrow> cstring \<Rightarrow> bool" where
  "svn_uri_is_ancestor parent_uri child_uri \<longleftrightarrow> uri_skip_ancestor parent_uri child_uri \<noteq> None"

definition svn_uri_canonicalize :: "cstring \<Rightarrow> cstring option" where
  "svn_uri_canonicalize uri = canonicalize Type_uri uri"

section \<open>The canonical form of a URI\<close>

definition is_upper :: "char \<Rightarrow> bool" where
  "is_upper c \<longleftrightarrow> c \<in> set ''ABCDEFGHIJKLMNOPQRSTUVWXYZ''"

definition is_digit :: "char \<Rightarrow> bool" where
  "is_digit c \<longleftrightarrow> c \<in> set ''0123456789''"

definition upper_xdigit :: "char \<Rightarrow> bool" where
  "upper_xdigit c \<longleftrightarrow> c \<in> set ''0123456789ABCDEF''"

text \<open>The host name: what follows it, or \<open>None\<close> when it is not canonical.\<close>

definition canonical_host :: "cstring \<Rightarrow> cstring option" where
  "canonical_host ptr =
     (if char_at ptr 0 = CHR ''[''
      then let ptr = dropWhile (\<lambda>c. c \<in> set '':0123456789abcdef'') (tl ptr) in
        if char_at ptr 0 \<noteq> CHR '']'' then None else Some (tl ptr)
      else let P = (\<lambda>c. c \<noteq> slash \<and> c \<noteq> CHR '':'') in
        if list_ex is_upper (takeWhile P ptr) then None else Some (dropWhile P ptr))"

text \<open>The port number, an \<open>apr_int64_t\<close>.\<close>

definition canonical_port :: "cstring \<Rightarrow> cstring \<Rightarrow> cstring option" where
  "canonical_port uri ptr =
     (if char_at ptr 0 = CHR '':''
      then let digits = takeWhile is_digit (tl ptr); ptr = dropWhile is_digit (tl ptr);
               port = foldl (\<lambda>port c. 10 * port + (of_char c - 48)) (0 :: 64 word) digits in
        if digits = [] then None
        else if ptr \<noteq> [] \<and> hd ptr \<noteq> slash then None
        else if port = 80 \<and> is_prefix ''http:'' uri \<or> port = 443 \<and> is_prefix ''https:'' uri
             \<or> port = 3690 \<and> is_prefix ''svn:'' uri then None
        else Some ptr
      else Some ptr)"

text \<open>
  The loop over the segments, on the segment from \<open>seg\<close> to \<open>ptr\<close> and the rest at \<open>ptr\<close>.
  \<open>after_slash\<close> says whether a slash precedes the segment.
\<close>

function uri_segments_loop :: "bool \<Rightarrow> cstring \<Rightarrow> cstring \<Rightarrow> bool" where
  "uri_segments_loop after_slash seg ptr =
     (if length seg = 1 \<and> char_at seg 0 = dot then False
      else if char_at ptr 0 = slash \<and> char_at ptr 1 = slash then False
      else if ptr = [] then \<not> (after_slash \<and> seg = [])
      else let ptr' = (if hd ptr = slash then tl ptr else ptr)
           in uri_segments_loop True (takeWhile unslash ptr') (dropWhile unslash ptr'))"
  by pat_completeness auto
termination
proof (relation "measure (\<lambda>(a, seg, ptr). length ptr)"; clarsimp)
  fix ptr :: cstring
  assume "ptr \<noteq> []"
  then show "(hd ptr = slash \<longrightarrow> length (dropWhile unslash (tl ptr)) < length ptr)
    \<and> (hd ptr \<noteq> slash \<longrightarrow> length (dropWhile unslash ptr) < length ptr)"
    by (cases ptr) (auto simp: less_Suc_eq_le length_dropWhile_le)
qed

declare uri_segments_loop.simps [simp del]

fun uri_chars_canonical :: "cstring \<Rightarrow> bool" where
  "uri_chars_canonical [] \<longleftrightarrow> True"
| "uri_chars_canonical (c # ptr) \<longleftrightarrow>
     (if c = CHR ''%''
      then upper_xdigit (char_at ptr 0) \<and> upper_xdigit (char_at ptr 1)
        \<and> \<not> svn_uri_char_validity (hex_pair (char_at ptr 0) (char_at ptr 1)) \<and> uri_chars_canonical (drop 2 ptr)
      else (c = slash \<or> svn_uri_char_validity c) \<and> uri_chars_canonical ptr)"

definition svn_uri_is_canonical :: "cstring \<Rightarrow> bool" where
  "svn_uri_is_canonical uri \<longleftrightarrow>
     (if uri = [] then False
      else if \<not> svn_path_is_url uri then False
      else if \<not> is_prefix ''://'' (dropWhile (\<lambda>c. c \<noteq> slash \<and> c \<noteq> CHR '':'') uri) then False
      else if list_ex is_upper (takeWhile (\<lambda>c. c \<noteq> CHR '':'') uri) then False
      else let ptr = drop 3 (dropWhile (\<lambda>c. c \<noteq> CHR '':'') uri) in
        if ptr = [] then True
        else let rest = dropWhile (\<lambda>c. c \<noteq> slash \<and> c \<noteq> CHR ''@'') ptr;
                 seg = (if char_at rest 0 = CHR ''@'' then tl rest else ptr) in
          case Option.bind (canonical_host seg) (canonical_port uri) of
            None \<Rightarrow> False
          | Some ptr \<Rightarrow> uri_segments_loop False (takeWhile unslash ptr) (dropWhile unslash ptr)
              \<and> uri_chars_canonical ptr)"

section \<open>File URLs, URL paths, certificates\<close>

definition svn_uri_get_dirent_from_file_url :: "cstring \<Rightarrow> cstring svn_result" where
  "svn_uri_get_dirent_from_file_url url =
     svn_try (svn_assert (svn_uri_is_canonical url)) (\<lambda>_.
       if \<not> is_prefix ''file://'' url then Inl Ra_illegal_url
       else let rest = drop 7 url; path = dropWhile unslash rest;
                hostname = (if path \<noteq> [] then takeWhile unslash rest else rest);
                path = (if path \<noteq> [] then path else [slash]);
                hostname = (if hostname = [] then None
                  else let hostname = svn_path_uri_decode hostname in
                    if hostname = ''localhost'' then None else Some hostname)
         in if hostname \<noteq> None then Inl Ra_illegal_url else Inr (svn_path_uri_decode path))"

definition svn_urlpath_canonicalize :: "cstring \<Rightarrow> cstring option" where
  "svn_urlpath_canonicalize uri =
     (if svn_path_is_url uri then svn_uri_canonicalize uri
      else Some (svn_path_uri_encode (svn_path_uri_decode (svn_fspath_canonicalize uri))))"

text \<open>The loop compares what is left of the pattern and of the host name.\<close>

fun dns_match_loop :: "string \<Rightarrow> string \<Rightarrow> (string \<times> string) option" where
  "dns_match_loop (p # pattern) (h # hostname) =
     (if canonicalize_to_lower p \<noteq> canonicalize_to_lower h then None else dns_match_loop pattern hostname)"
| "dns_match_loop pattern hostname = Some (pattern, hostname)"

definition svn_cert_match_dns_identity :: "string \<Rightarrow> string \<Rightarrow> bool" where
  "svn_cert_match_dns_identity pattern hostname \<longleftrightarrow>
     (let wild = length pattern \<ge> 2 \<and> pattern ! 0 = CHR ''*'' \<and> pattern ! 1 = dot;
          rest = (if wild then dropWhile (\<lambda>c. c \<noteq> dot) hostname else hostname) in
      if wild \<and> length rest = length hostname then False
      else case dns_match_loop (if wild then tl pattern else pattern) rest of
             None \<Rightarrow> False
           | Some (pattern, rest) \<Rightarrow>
               let rest = (if pattern = [] \<and> rest = [dot] then [] else rest) in pattern = [] \<and> rest = [])"

section \<open>Escapes\<close>

lemma hex_digits:
  "m < 16 \<Longrightarrow> svn_ctype_isxdigit (hex_char m)" "m < 16 \<Longrightarrow> upper_xdigit (hex_char m)" "m < 16 \<Longrightarrow> hex_value (hex_char m) = m"
proof -
  have "list_all (\<lambda>m. svn_ctype_isxdigit (hex_char m) \<and> upper_xdigit (hex_char m) \<and> hex_value (hex_char m) = m) [0..<16]"
    by code_simp
  then show "m < 16 \<Longrightarrow> svn_ctype_isxdigit (hex_char m)" "m < 16 \<Longrightarrow> upper_xdigit (hex_char m)"
    "m < 16 \<Longrightarrow> hex_value (hex_char m) = m" by (simp_all add: list_all_iff)
qed

lemma of_char_less_256: "of_char c < (256 :: nat)"
  by (metis of_char_mod_256 mod_less_divisor zero_less_numeral)

lemma hex_of_char:
  "svn_ctype_isxdigit (hex_char (of_char c div 16))" "svn_ctype_isxdigit (hex_char (of_char c mod 16))"
  "upper_xdigit (hex_char (of_char c div 16))" "upper_xdigit (hex_char (of_char c mod 16))"
  "hex_pair (hex_char (of_char c div 16)) (hex_char (of_char c mod 16)) = c"
proof -
  have b: "of_char c div 16 < (16 :: nat)" "of_char c mod 16 < (16 :: nat)"
    using of_char_less_256 [of c] by (simp_all add: div_less_iff_less_mult)
  show "svn_ctype_isxdigit (hex_char (of_char c div 16))" "svn_ctype_isxdigit (hex_char (of_char c mod 16))"
    "upper_xdigit (hex_char (of_char c div 16))" "upper_xdigit (hex_char (of_char c mod 16))"
    using b by (simp_all add: hex_digits)
  show "hex_pair (hex_char (of_char c div 16)) (hex_char (of_char c mod 16)) = c"
    unfolding hex_pair_def hex_digits(3) [OF b(1)] hex_digits(3) [OF b(2)] by simp
qed

lemma upper_xdigit_cases: "upper_xdigit c \<longleftrightarrow> (\<exists>m<16. c = hex_char m)"
proof -
  have "list_all (\<lambda>c. list_ex (\<lambda>m. c = hex_char m) [0..<16]) ''0123456789ABCDEF''" by code_simp
  then have "\<forall>c\<in>set ''0123456789ABCDEF''. \<exists>m<16. c = hex_char m" by (simp only: list_all_iff list_ex_iff) force
  then show ?thesis using hex_digits(2) unfolding upper_xdigit_def by blast
qed

lemma percent_hex_pair: "upper_xdigit a \<Longrightarrow> upper_xdigit b \<Longrightarrow> percent_hex (hex_pair a b) = [CHR ''%'', a, b]"
  by (auto simp: upper_xdigit_cases percent_hex_def hex_pair_def hex_digits(3))

lemma valid_chars: "\<not> svn_uri_char_validity CHR ''%''" "\<not> svn_uri_char_validity CHR ''?''" "svn_uri_char_validity slash"
  "\<not> svn_uri_char_validity NUL"
  by code_simp+

lemma upper_isxdigit: "upper_xdigit c \<Longrightarrow> svn_ctype_isxdigit c"
  by (auto simp: upper_xdigit_cases hex_digits)

lemma upper_not_percent: "upper_xdigit c \<Longrightarrow> c \<noteq> CHR ''%''"
  by (auto simp: upper_xdigit_def)

lemma upper_xdigit_NUL [simp]: "\<not> upper_xdigit NUL"
  by (simp add: upper_xdigit_def)

lemma escaped_pair:
  assumes "upper_xdigit (char_at p 0)" and "upper_xdigit (char_at p 1)"
  obtains a b r where "p = a # b # r" "upper_xdigit a" "upper_xdigit b"
  using assms by (cases p; cases "List.tl p") auto

lemma decode_escape: "uri_decode_loop False (uri_escape p svn_uri_char_validity) = p"
proof (induction p)
  case (Cons c p)
  show ?case
  proof (cases "svn_uri_char_validity c")
    case True
    then have "c \<noteq> CHR ''%''" "c \<noteq> CHR ''?''" using valid_chars by metis+
    then show ?thesis using True Cons by simp
  next
    case False
    then show ?thesis using Cons by (simp add: percent_hex_def hex_of_char)
  qed
qed simp

lemma takeWhile_no_nul: "no_nul p \<Longrightarrow> takeWhile (\<lambda>c. c \<noteq> NUL) p = p"
  by (auto simp: no_nul_def takeWhile_eq_all_conv)

lemma escape_canonical: "uri_chars_canonical (uri_escape p svn_uri_char_validity)"
proof (induction p)
  case (Cons c p)
  then show ?case
    using valid_chars by (cases "svn_uri_char_validity c") (auto simp: percent_hex_def hex_of_char)
qed simp

lemma escape_decode: "uri_chars_canonical p \<Longrightarrow> uri_escape (uri_decode_loop False p) svn_uri_char_validity = p"
proof (induction p rule: uri_chars_canonical.induct)
  case (2 c ptr)
  show ?case
  proof (cases "c = CHR ''%''")
    case True
    then have "upper_xdigit (char_at ptr 0)" "upper_xdigit (char_at ptr 1)" using 2(3) by simp_all
    then obtain a b r where p: "ptr = a # b # r" "upper_xdigit a" "upper_xdigit b" by (rule escaped_pair)
    then show ?thesis using 2 True by (simp add: upper_isxdigit percent_hex_pair)
  next
    case False
    then have "svn_uri_char_validity c" "uri_chars_canonical ptr" using 2(3) valid_chars(3) by auto
    moreover from this(1) have "c \<noteq> CHR ''?''" using valid_chars by metis
    ultimately show ?thesis using 2(2) False by simp
  qed
qed simp

lemma percent_hex_NUL: "percent_hex NUL = ''%00''" by code_simp

lemma decode_nul: "uri_chars_canonical p \<Longrightarrow> no_nul p \<Longrightarrow> no_nul (uri_decode_loop False p) \<longleftrightarrow> \<not> strstr ''%00'' p"
proof (induction p rule: uri_chars_canonical.induct)
  case (2 c ptr)
  show ?case
  proof (cases "c = CHR ''%''")
    case True
    then have "upper_xdigit (char_at ptr 0)" "upper_xdigit (char_at ptr 1)" using 2(3) by simp_all
    then obtain a b r where p: "ptr = a # b # r" "upper_xdigit a" "upper_xdigit b" by (rule escaped_pair)
    have ab: "upper_xdigit a" "upper_xdigit b" "uri_chars_canonical r" using 2(3) True p by simp_all
    have "hex_pair a b = NUL \<longleftrightarrow> a = CHR ''0'' \<and> b = CHR ''0''"
    proof
      assume "hex_pair a b = NUL"
      then have "percent_hex NUL = [CHR ''%'', a, b]" using percent_hex_pair [OF ab(1,2)] by simp
      then show "a = CHR ''0'' \<and> b = CHR ''0''" unfolding percent_hex_NUL by blast
    next
      assume "a = CHR ''0'' \<and> b = CHR ''0''"
      moreover have "hex_pair CHR ''0'' CHR ''0'' = NUL" by code_simp
      ultimately show "hex_pair a b = NUL" by simp
    qed
    moreover have "no_nul (uri_decode_loop False r) \<longleftrightarrow> \<not> strstr ''%00'' r" using 2 True p by (simp add: no_nul_def)
    ultimately show ?thesis
      using True p ab upper_not_percent by (auto simp: upper_isxdigit no_nul_def is_prefix_def)
  next
    case False
    then have "svn_uri_char_validity c" "uri_chars_canonical ptr" using 2(3) valid_chars(3) by auto
    moreover from this(1) have "c \<noteq> CHR ''?''" "c \<noteq> NUL" using valid_chars by metis+
    ultimately show ?thesis using 2(2,4) False by (simp add: no_nul_def is_prefix_def)
  qed
qed (simp add: no_nul_def)

lemma uri_encode_decode: "no_nul p \<Longrightarrow> svn_path_uri_decode (svn_path_uri_encode p) = p"
  by (simp add: svn_path_uri_decode_def svn_path_uri_encode_def decode_escape takeWhile_no_nul)

text \<open>C29. Encoding and decoding of URIs are inverse to each other, between paths and canonically escaped
  strings without an escaped NUL, at which decoding ends the string.
\<close>

theorem uri_escape_roundtrip:
  "(\<forall>p. no_nul p \<longrightarrow> uri_chars_canonical (svn_path_uri_encode p) \<and> svn_path_uri_decode (svn_path_uri_encode p) = p)
   \<and> (\<forall>u. no_nul u \<and> uri_chars_canonical u \<and> \<not> strstr ''%00'' u \<longrightarrow> svn_path_uri_encode (svn_path_uri_decode u) = u)"
  by (simp add: uri_encode_decode) (simp add: svn_path_uri_decode_def svn_path_uri_encode_def decode_nul
    takeWhile_no_nul escape_decode escape_canonical)

theorem uri_escape_roundtrip_witness:
  "svn_path_uri_decode (svn_path_uri_encode ''a b/%?'') = ''a b/%?''
    \<and> svn_path_uri_encode (svn_path_uri_decode ''/%25%C3%A9+a'') = ''/%25%C3%A9+a''"
proof -
  have "no_nul ''a b/%?''" "no_nul ''/%25%C3%A9+a''" "uri_chars_canonical ''/%25%C3%A9+a''" "\<not> strstr ''%00'' ''/%25%C3%A9+a''"
    by code_simp+
  then show ?thesis using uri_escape_roundtrip by blast
qed

section \<open>Host names of certificates\<close>

text \<open>Names up to case, and the names a pattern stands for.\<close>

definition same_name :: "string \<Rightarrow> string \<Rightarrow> bool" where
  "same_name a b \<longleftrightarrow> map canonicalize_to_lower a = map canonicalize_to_lower b"

definition dns_matches :: "string \<Rightarrow> string \<Rightarrow> bool" where
  "dns_matches pattern name \<longleftrightarrow>
     (if is_prefix ''*.'' pattern
      then \<exists>label rest. name = label @ rest \<and> label \<noteq> [] \<and> dot \<notin> set label \<and> same_name (tl pattern) rest
      else same_name pattern name)"

lemma dns_match_loop_spec:
  "dns_match_loop pattern hostname = Some ([], rest) \<longleftrightarrow> (\<exists>pre. hostname = pre @ rest \<and> same_name pattern pre)"
proof (induction pattern hostname rule: dns_match_loop.induct)
  case (1 p pattern h hostname)
  then show ?case by (auto simp: same_name_def Cons_eq_append_conv Cons_eq_map_conv)
qed (auto simp: same_name_def)

lemma lower_dot: "canonicalize_to_lower c = dot \<longleftrightarrow> c = dot"
proof -
  have "of_char (canonicalize_to_lower c) = (of_char c + 32 :: nat)" if "0x41 \<le> (of_char c :: nat)" "of_char c \<le> (0x5A :: nat)"
    using that by (simp add: canonicalize_to_lower_def)
  then have "canonicalize_to_lower c \<noteq> dot" if "0x41 \<le> (of_char c :: nat)" "of_char c \<le> (0x5A :: nat)"
    using that by fastforce
  moreover have "\<not> 0x41 \<le> (of_char dot :: nat)" by simp
  ultimately show ?thesis by (metis canonicalize_to_lower_def not_le)
qed

lemma dns_match_rest:
  "(case dns_match_loop pat rest of None \<Rightarrow> False
    | Some (p, r) \<Rightarrow> let r = (if p = [] \<and> r = [dot] then [] else r) in p = [] \<and> r = [])
   \<longleftrightarrow> (\<exists>name. (rest = name \<or> rest = name @ [dot]) \<and> same_name pat name)"
  using dns_match_loop_spec [of pat rest "[]"] dns_match_loop_spec [of pat rest "[dot]"]
  by (auto split: option.split prod.split)

lemma dns_wildcard:
  assumes pat: "pattern = CHR ''*'' # dot # pat"
  shows "svn_cert_match_dns_identity pattern hostname \<longleftrightarrow>
    (\<exists>label rest. (hostname = label @ rest \<or> hostname = label @ rest @ [dot]) \<and> label \<noteq> [] \<and> dot \<notin> set label
      \<and> same_name (dot # pat) rest)"
proof -
  define label rest where lr: "label = takeWhile (\<lambda>c. c \<noteq> dot) hostname" "rest = dropWhile (\<lambda>c. c \<noteq> dot) hostname"
  have host: "hostname = label @ rest" by (simp add: lr)
  have nd: "dot \<notin> set label" using set_takeWhileD unfolding lr by fast
  have run: "svn_cert_match_dns_identity pattern hostname
      \<longleftrightarrow> label \<noteq> [] \<and> (\<exists>name. (rest = name \<or> rest = name @ [dot]) \<and> same_name (dot # pat) name)"
  proof -
    have "2 \<le> length pattern \<and> pattern ! 0 = CHR ''*'' \<and> pattern ! 1 = dot" "tl pattern = dot # pat" by (simp_all add: pat)
    moreover have "length rest = length hostname \<longleftrightarrow> label = []" using host by simp
    ultimately show ?thesis
      unfolding svn_cert_match_dns_identity_def Let_def dns_match_rest [unfolded Let_def, symmetric]
      by (simp only: lr(2) [symmetric] simp_thms if_True) (simp only: if_bool_eq_conj simp_thms, blast)
  qed
  have split: "l = label" if "hostname = l @ m" "dot \<notin> set l" "m \<noteq> []" "hd m = dot" for l m
    using that unfolding lr by (cases m) (auto simp: takeWhile_append)
  have dotty: "same_name (dot # pat) m \<Longrightarrow> m \<noteq> [] \<and> hd m = dot" for m
    by (cases m) (auto simp: same_name_def, metis lower_dot)
  have lab: "l = label" if "hostname = l @ m \<or> hostname = l @ m @ [dot]" "dot \<notin> set l" "same_name (dot # pat) m" for l m
    using that(1,2) split [of l m] split [of l "m @ [dot]"] dotty [OF that(3)] by auto
  show ?thesis unfolding run
  proof (rule iffI)
    assume "label \<noteq> [] \<and> (\<exists>name. (rest = name \<or> rest = name @ [dot]) \<and> same_name (dot # pat) name)"
    then obtain name where "label \<noteq> []" "rest = name \<or> rest = name @ [dot]" "same_name (dot # pat) name" by blast
    then show "\<exists>label rest. (hostname = label @ rest \<or> hostname = label @ rest @ [dot]) \<and> label \<noteq> [] \<and> dot \<notin> set label
        \<and> same_name (dot # pat) rest"
      using nd host by (intro exI [of _ label] exI [of _ name]) auto
  next
    assume "\<exists>label rest. (hostname = label @ rest \<or> hostname = label @ rest @ [dot]) \<and> label \<noteq> [] \<and> dot \<notin> set label
        \<and> same_name (dot # pat) rest"
    then obtain l m where lm: "hostname = l @ m \<or> hostname = l @ m @ [dot]" "l \<noteq> []" "dot \<notin> set l" "same_name (dot # pat) m"
      by blast
    have "l = label" by (rule lab [OF lm(1,3,4)])
    then show "label \<noteq> [] \<and> (\<exists>name. (rest = name \<or> rest = name @ [dot]) \<and> same_name (dot # pat) name)"
      using lm host by (intro conjI exI [of _ m]) auto
  qed
qed

text \<open>C27. A host name matches a pattern exactly if, up to case and a trailing dot, it is the pattern; a pattern that
  starts with an asterisk and a dot matches one nonempty first label in place of the asterisk.
\<close>

theorem dns_match_exact:
  "svn_cert_match_dns_identity pattern hostname \<longleftrightarrow>
     (\<exists>name. (hostname = name \<or> hostname = name @ [dot]) \<and> dns_matches pattern name)"
proof (cases "is_prefix ''*.'' pattern")
  case False
  then have "\<not> (length pattern \<ge> 2 \<and> pattern ! 0 = CHR ''*'' \<and> pattern ! 1 = dot)"
    by (cases pattern; cases "tl pattern") (auto simp: is_prefix_def)
  then have "svn_cert_match_dns_identity pattern hostname
      \<longleftrightarrow> (\<exists>name. (hostname = name \<or> hostname = name @ [dot]) \<and> same_name pattern name)"
    unfolding svn_cert_match_dns_identity_def Let_def dns_match_rest [unfolded Let_def, symmetric] by (simp only: simp_thms if_False)
  then show ?thesis using False by (simp only: dns_matches_def if_False)
next
  case True
  then obtain pat where pat: "pattern = CHR ''*'' # dot # pat"
    by (cases pattern; cases "tl pattern") (auto simp: is_prefix_def)
  show ?thesis
    unfolding dns_wildcard [OF pat] dns_matches_def using True by (simp only: if_True pat list.sel append_assoc [symmetric]) blast
qed

section \<open>File URLs\<close>

lemma hd_path_of: "list_all ok_seg ss \<Longrightarrow> ss \<noteq> [] \<Longrightarrow> hd (path_of ss) \<noteq> slash"
  by (cases ss rule: path_of.cases) (auto simp: ok_seg_def hd_append neq_Nil_conv)

lemma char_at_path_of: "list_all ok_seg ss \<Longrightarrow> char_at (path_of ss) 0 \<noteq> slash"
  using hd_path_of [of ss] by (cases "ss = []"; cases "path_of ss") (auto simp: char_at_def)

lemma escape_append: "uri_escape (p @ q) tab = uri_escape p tab @ uri_escape q tab"
  by (induction p) simp_all

lemma percent_hex_chars: "slash \<notin> set (percent_hex c)" "NUL \<notin> set (percent_hex c)"
proof -
  have "list_all (\<lambda>m. hex_char m \<noteq> slash \<and> hex_char m \<noteq> NUL) [0..<16]" by code_simp
  then have "\<And>m. m < 16 \<Longrightarrow> hex_char m \<noteq> slash" "\<And>m. m < 16 \<Longrightarrow> hex_char m \<noteq> NUL" by (simp_all add: list_all_iff)
  then show "slash \<notin> set (percent_hex c)" "NUL \<notin> set (percent_hex c)"
    using of_char_less_256 [of c] by (auto simp: percent_hex_def div_less_iff_less_mult dest: sym)
qed

lemma slash_escape: "slash \<in> set (uri_escape p svn_uri_char_validity) \<longleftrightarrow> slash \<in> set p"
proof (induction p)
  case (Cons c p)
  then show ?case
    using percent_hex_chars(1) [of c] valid_chars(3) by (cases "svn_uri_char_validity c") auto
qed simp

lemma escape_dot: "uri_escape p svn_uri_char_validity = [dot] \<longleftrightarrow> p = [dot]"
proof -
  have "svn_uri_char_validity dot" by code_simp
  then show ?thesis
    by (cases p; cases "List.tl p") (auto simp: percent_hex_def split: if_splits)
qed

lemma escape_empty [simp]: "uri_escape p tab = [] \<longleftrightarrow> p = []"
  by (cases p) (auto simp: percent_hex_def)

lemma escape_ok_seg: "ok_seg s \<Longrightarrow> ok_seg (svn_path_uri_encode s)"
  by (simp add: ok_seg_def svn_path_uri_encode_def slash_escape escape_dot)

lemma escape_path_of: "svn_path_uri_encode (path_of ss) = path_of (map svn_path_uri_encode ss)"
proof (induction ss rule: path_of.induct)
  case (3 s t ss)
  then show ?case using valid_chars(3) by (simp add: svn_path_uri_encode_def escape_append)
qed (simp_all add: svn_path_uri_encode_def)

lemma escape_slash: "svn_path_uri_encode (slash # p) = slash # svn_path_uri_encode p"
  using valid_chars(3) by (simp add: svn_path_uri_encode_def)

text \<open>The segments of a canonical path pass the loop of \<open>svn_uri_is_canonical\<close>.\<close>

lemma uri_segments_ok:
  "list_all ok_seg ss \<Longrightarrow> ss \<noteq> [] \<Longrightarrow>
    uri_segments_loop b (takeWhile unslash (path_of ss)) (dropWhile unslash (path_of ss))"
proof (induction ss arbitrary: b rule: path_of.induct)
  case (2 s)
  then have "takeWhile unslash s = s" "dropWhile unslash s = []" "s \<noteq> []" "s \<noteq> [dot]"
    by (auto simp: ok_seg_def takeWhile_eq_all_conv dropWhile_eq_Nil_conv)
  then show ?case using 2 by (cases s) (auto simp: uri_segments_loop.simps [of _ _ "[]"])
next
  case (3 s t ss)
  have s: "slash \<notin> set s" "s \<noteq> []" "s \<noteq> [dot]" using 3 by (auto simp: ok_seg_def)
  let ?r = "path_of (t # ss)"
  have ne: "?r \<noteq> []" "hd ?r \<noteq> slash" using 3 path_of_nonempty [of "t # ss"] by (auto simp: ok_seg_def neq_Nil_conv hd_append) (cases ss; auto simp: neq_Nil_conv)+
  have "takeWhile unslash (path_of (s # t # ss)) = s" "dropWhile unslash (path_of (s # t # ss)) = slash # ?r"
    using s(1) by simp_all
  moreover have "uri_segments_loop b s (slash # ?r) = uri_segments_loop True (takeWhile unslash ?r) (dropWhile unslash ?r)"
    using s ne by (cases s; cases "path_of (t # ss)") (auto simp: uri_segments_loop.simps [of _ _ "slash # _"])
  ultimately show ?case using 3 by simp
qed simp

lemma file_uri_canonical:
  assumes "list_all ok_seg ss" and "ss \<noteq> []"
  shows "svn_uri_is_canonical (''file:///'' @ svn_path_uri_encode (path_of ss))"
proof -
  let ?e = "svn_path_uri_encode (path_of ss)"
  have e: "?e = path_of (map svn_path_uri_encode ss)" by (rule escape_path_of)
  have ok: "list_all ok_seg (map svn_path_uri_encode ss)" "map svn_path_uri_encode ss \<noteq> []"
    using assms escape_ok_seg by (auto simp: list_all_iff)
  have ne: "?e \<noteq> []" "hd ?e \<noteq> slash"
    using path_of_nonempty [OF ok] hd_path_of [OF ok] by (simp_all add: e)
  have "uri_segments_loop False [] (slash # ?e) = uri_segments_loop True (takeWhile unslash ?e) (dropWhile unslash ?e)"
    using ne by (cases ?e) (auto simp: uri_segments_loop.simps [of _ _ "slash # _"])
  then have seg: "uri_segments_loop False [] (slash # ?e)" using uri_segments_ok [OF ok] by (simp add: e)
  have chars: "uri_chars_canonical ?e" by (simp add: svn_path_uri_encode_def escape_canonical)
  show ?thesis
    using seg chars
    by (simp add: svn_uri_is_canonical_def svn_path_is_url_def skip_uri_scheme_def is_prefix_def is_upper_def
      canonical_host_def canonical_port_def Let_def)
qed

text \<open>An escaped NUL ends the dirent.\<close>

theorem file_url_escaped_nul:
  "svn_uri_is_canonical ''file:///a%00b'' \<and> svn_uri_get_dirent_from_file_url ''file:///a%00b'' = Inr ''/a''"
  by code_simp

text \<open>A port with leading zeros is kept by the canonicalization, which gives what is not canonical.\<close>

theorem canonicalize_port_zeros:
  "svn_uri_canonicalize ''http://h:080/p'' = Some ''http://h:080/p'' \<and> \<not> svn_uri_is_canonical ''http://h:080/p''"
  by code_simp

end
