(* ===== verification/Svn_Dirents.thy ===== *)
theory Svn_Dirents
  imports Svn_Uris "HOL-Library.Sublist"
begin

text \<open>
  Dirents (\<open>dirent_uri.c\<close>): joining, splitting, ancestry, condensing of targets. A canonical dirent is
  a flag, whether it is absolute, and a list of segments (\<open>dirent_of\<close>); the operations are proved on
  these. Joining many components is shown to be joining one after the other, as long as their number
  fits the array of saved lengths. The locale \<open>ancestor_function\<close> is what condensing asks of the
  longest common ancestor; it is interpreted on absolute dirents.
\<close>

section \<open>Dirents\<close>

definition dirent_root_length :: "cstring \<Rightarrow> nat \<Rightarrow> nat" where
  "dirent_root_length dirent len = (if len \<ge> 1 \<and> char_at dirent 0 = slash then 1 else 0)"

definition dirent_previous_segment :: "cstring \<Rightarrow> nat \<Rightarrow> nat" where
  "dirent_previous_segment dirent len =
     (if len = 0 then 0
      else let len = previous_segment_loop dirent (len - 1) in
        if dirent_root_length dirent (len + 1) = len + 1 then len + 1 else len)"

definition dirent_is_rooted :: "cstring \<Rightarrow> bool" where
  "dirent_is_rooted dirent \<longleftrightarrow> char_at dirent 0 = slash"

definition svn_dirent_is_absolute :: "cstring \<Rightarrow> bool" where
  "svn_dirent_is_absolute dirent \<longleftrightarrow> char_at dirent 0 = slash"

definition svn_dirent_is_root :: "cstring \<Rightarrow> nat \<Rightarrow> bool" where
  "svn_dirent_is_root dirent len \<longleftrightarrow> len = 1 \<and> char_at dirent 0 = slash"

definition svn_dirent_internal_style :: "cstring \<Rightarrow> cstring" where
  "svn_dirent_internal_style dirent = svn_dirent_canonicalize dirent"

definition svn_dirent_local_style :: "cstring \<Rightarrow> cstring" where
  "svn_dirent_local_style dirent = (if dirent = [] then [dot] else dirent)"

definition svn_relpath_internal_style :: "cstring \<Rightarrow> cstring" where
  "svn_relpath_internal_style relpath = svn_relpath_canonicalize relpath"

definition svn_dirent_join :: "cstring \<Rightarrow> cstring \<Rightarrow> cstring" where
  "svn_dirent_join base component =
     (if svn_dirent_is_absolute component then component
      else if base = [] then component
      else if component = [] then base
      else base @ (if last base = slash then [] else [slash]) @ component)"

text \<open>
  \<open>svn_dirent_join_many\<close>. The first pass computes the length; \<open>None\<close> is a store outside
  \<open>saved_lengths\<close>, an array of ten.
\<close>

definition MAX_SAVED_LENGTHS :: nat where "MAX_SAVED_LENGTHS = 10"

record join_many_state =
  jm_base :: cstring
  jm_saved_lengths :: "nat list"
  jm_total_len :: nat
  jm_nargs :: nat
  jm_base_arg :: nat
  jm_add_separator :: bool

fun join_many_scan :: "cstring list \<Rightarrow> join_many_state \<Rightarrow> join_many_state option" where
  "join_many_scan [] st = Some st"
| "join_many_scan (s # args) st =
     (if s = [] then join_many_scan args st
      else Option.bind
        (if jm_nargs st < MAX_SAVED_LENGTHS
         then if jm_nargs st + 1 < length (jm_saved_lengths st)
              then Some (st\<lparr>jm_nargs := jm_nargs st + 1,
                jm_saved_lengths := (jm_saved_lengths st)[jm_nargs st + 1 := length s]\<rparr>)
              else None
         else Some (st\<lparr>jm_nargs := jm_nargs st + 1\<rparr>)) (\<lambda>st.
        join_many_scan args
          (if dirent_is_rooted s
           then st\<lparr>jm_total_len := length s, jm_base_arg := jm_nargs st, jm_base := [],
                   jm_saved_lengths := (jm_saved_lengths st)[0 := 0], jm_add_separator := last s \<noteq> slash\<rparr>
           else if jm_nargs st \<le> jm_base_arg st + 1
           then st\<lparr>jm_total_len := jm_total_len st + (if jm_add_separator st then 1 else 0) + length s\<rparr>
           else st\<lparr>jm_total_len := jm_total_len st + 1 + length s\<rparr>)))"

text \<open>The second pass copies the components to the end of \<open>dirent\<close>.\<close>

fun join_many_copy :: "join_many_state \<Rightarrow> cstring list \<Rightarrow> nat \<Rightarrow> cstring \<Rightarrow> cstring" where
  "join_many_copy st [] nargs dirent = dirent"
| "join_many_copy st (s # args) nargs dirent =
     (if s = [] then join_many_copy st args nargs dirent
      else if nargs + 1 < jm_base_arg st then join_many_copy st args (nargs + 1) dirent
      else let len = (if nargs + 1 < MAX_SAVED_LENGTHS then jm_saved_lengths st ! (nargs + 1) else length s);
               sep = (if dirent \<noteq> [] \<and> (\<not> nargs \<le> jm_base_arg st \<or> jm_add_separator st) then [slash] else [])
           in join_many_copy st args (nargs + 1) (dirent @ sep @ take len s))"

definition svn_dirent_join_many :: "cstring \<Rightarrow> cstring list \<Rightarrow> cstring option" where
  "svn_dirent_join_many base args =
     Option.bind
       (join_many_scan args
          \<lparr>jm_base = base, jm_saved_lengths = (replicate MAX_SAVED_LENGTHS 0)[0 := length base], jm_total_len = length base,
           jm_nargs = 0, jm_base_arg = 0, jm_add_separator = \<not> (base = [] \<or> last base = slash)\<rparr>) (\<lambda>st.
     if \<not> jm_add_separator st \<and> jm_total_len st = 1 then Some [slash]
     else let dirent = (if jm_base st \<noteq> [] then take (jm_saved_lengths st ! 0) (jm_base st) else []);
              dirent = join_many_copy st args 0 dirent
          in if length dirent = jm_total_len st then Some dirent else None)"

definition svn_dirent_dirname :: "cstring \<Rightarrow> cstring" where
  "svn_dirent_dirname dirent =
     (let len = length dirent in
      if len = dirent_root_length dirent len then dirent else take (dirent_previous_segment dirent len) dirent)"

definition svn_dirent_basename :: "cstring \<Rightarrow> cstring" where
  "svn_dirent_basename dirent =
     (if svn_dirent_is_root dirent (length dirent) then []
      else drop (basename_start dirent (length dirent)) dirent)"

definition svn_dirent_split :: "cstring \<Rightarrow> cstring \<times> cstring" where
  "svn_dirent_split dirent = (svn_dirent_dirname dirent, svn_dirent_basename dirent)"

definition svn_dirent_get_longest_ancestor :: "cstring \<Rightarrow> cstring \<Rightarrow> cstring" where
  "svn_dirent_get_longest_ancestor dirent1 dirent2 =
     take (get_longest_ancestor_length Type_dirent dirent1 dirent2) dirent1"

definition is_child :: "path_type \<Rightarrow> cstring \<Rightarrow> cstring \<Rightarrow> cstring option" where
  "is_child ty path1 path2 =
     (if path1 = []
      then if path2 = [] then None
           else if ty = Type_uri \<or> ty = Type_dirent \<and> dirent_is_rooted path2 then None else Some path2
      else case skip_common path1 path2 of
             Some ([], c # rest) \<Rightarrow>
               if last path1 = slash then (if c = slash then None else Some (c # rest))
               else if c = slash then (if rest \<noteq> [] then Some rest else None) else None
           | _ \<Rightarrow> None)"

definition svn_dirent_is_child :: "cstring \<Rightarrow> cstring \<Rightarrow> cstring option" where
  "svn_dirent_is_child parent_dirent child_dirent = is_child Type_dirent parent_dirent child_dirent"

definition svn_dirent_skip_ancestor :: "cstring \<Rightarrow> cstring \<Rightarrow> cstring option" where
  "svn_dirent_skip_ancestor parent_dirent child_dirent =
     (let len = length parent_dirent; root_len = dirent_root_length child_dirent (length child_dirent) in
      if \<not> is_prefix parent_dirent child_dirent then None
      else if char_at child_dirent len = NUL then Some []
      else if root_len > len then None
      else if char_at child_dirent len = slash then Some (drop (len + 1) child_dirent)
      else if root_len = len then Some (drop len child_dirent)
      else None)"

definition svn_dirent_is_ancestor :: "cstring \<Rightarrow> cstring \<Rightarrow> bool" where
  "svn_dirent_is_ancestor parent_dirent child_dirent \<longleftrightarrow> svn_dirent_skip_ancestor parent_dirent child_dirent \<noteq> None"

text \<open>
  What the platform decides: whether \<open>DARWIN\<close> is defined (paths are UTF-8 then), what
  \<open>apr_filepath_encoding\<close> reports, the conversions of \<open>utf.c\<close>, which call \<open>iconv\<close>, and
  \<open>apr_filepath_merge\<close> on the working directory, \<open>None\<close> for an error.
\<close>

datatype filepath_encoding = Encoding_unknown | Encoding_locale | Encoding_utf8

record platform =
  pf_darwin :: bool
  pf_encoding :: "int + filepath_encoding"
  pf_from_utf8 :: "cstring \<Rightarrow> cstring svn_result"
  pf_to_utf8 :: "cstring \<Rightarrow> cstring svn_result"
  pf_merge :: "cstring \<Rightarrow> cstring option"

definition get_path_encoding :: "platform \<Rightarrow> bool svn_result" where
  "get_path_encoding pf =
     (case pf_encoding pf of Inl apr_err \<Rightarrow> Inl (Apr_error apr_err) | Inr style \<Rightarrow> Inr (style = Encoding_utf8))"

definition svn_path_cstring_from_utf8 :: "platform \<Rightarrow> cstring \<Rightarrow> cstring svn_result" where
  "svn_path_cstring_from_utf8 pf path_utf8 =
     (if pf_darwin pf then Inr path_utf8
      else svn_try (get_path_encoding pf) (\<lambda>path_is_utf8.
        if path_is_utf8 then Inr path_utf8 else pf_from_utf8 pf path_utf8))"

definition svn_path_cstring_to_utf8 :: "platform \<Rightarrow> cstring \<Rightarrow> cstring svn_result" where
  "svn_path_cstring_to_utf8 pf path_apr =
     (if pf_darwin pf then Inr path_apr
      else svn_try (get_path_encoding pf) (\<lambda>path_is_utf8.
        if path_is_utf8 then Inr path_apr else pf_to_utf8 pf path_apr))"

definition svn_dirent_get_absolute :: "platform \<Rightarrow> cstring \<Rightarrow> cstring svn_result" where
  "svn_dirent_get_absolute pf relative =
     svn_try (svn_assert (\<not> svn_path_is_url relative)) (\<lambda>_.
     svn_try (svn_path_cstring_from_utf8 pf relative) (\<lambda>path_apr.
       case pf_merge pf path_apr of
         None \<Rightarrow>
           if svn_dirent_is_absolute relative \<and> svn_dirent_is_canonical relative \<and> \<not> svn_path_is_backpath_present relative
           then Inr relative else Inl Bad_filename
       | Some buffer \<Rightarrow>
           svn_try (svn_path_cstring_to_utf8 pf buffer) (\<lambda>pabsolute. Inr (svn_dirent_canonicalize pabsolute))))"

definition svn_uri_get_file_url_from_dirent :: "platform \<Rightarrow> cstring \<Rightarrow> cstring svn_result" where
  "svn_uri_get_file_url_from_dirent pf dirent =
     svn_try (svn_dirent_get_absolute pf dirent) (\<lambda>dirent.
       let dirent = svn_path_uri_encode dirent in
       Inr (''file://'' @ (if char_at dirent 0 = slash \<and> char_at dirent 1 = NUL then [] else dirent)))"

text \<open>What \<open>apr_filepath_merge\<close> returns for a path that is to stay below a root.\<close>

datatype merge_status = Merge_success cstring | Merge_above_root | Merge_error int

definition svn_dirent_is_under_root ::
    "(cstring \<Rightarrow> cstring \<Rightarrow> merge_status) \<Rightarrow> cstring \<Rightarrow> cstring \<Rightarrow> (bool \<times> cstring option) svn_result" where
  "svn_dirent_is_under_root merge base_path path =
     (case merge base_path path of
        Merge_success full_path \<Rightarrow> Inr (True, Some (svn_dirent_canonicalize full_path))
      | Merge_above_root \<Rightarrow> Inr (False, None)
      | Merge_error status \<Rightarrow> Inl (Apr_error status))"

section \<open>Condensing targets\<close>

fun fold_opt :: "('a \<Rightarrow> 's \<Rightarrow> 's option) \<Rightarrow> 'a list \<Rightarrow> 's \<Rightarrow> 's option" where
  "fold_opt f [] s = Some s"
| "fold_opt f (x # xs) s = Option.bind (f x s) (fold_opt f xs)"

text \<open>
  The two passes that \<open>svn_dirent_condense_targets\<close> and \<open>svn_uri_condense_targets\<close> share; \<open>ancestor\<close> is
  the longest common ancestor, \<open>removed\<close> the array of flags.
\<close>

definition remove_child ::
    "(cstring \<Rightarrow> cstring \<Rightarrow> cstring option) \<Rightarrow> cstring list \<Rightarrow> nat \<Rightarrow> nat \<Rightarrow> bool list \<Rightarrow> bool list option" where
  "remove_child ancestor targets i j removed =
     (if removed ! j then Some removed
      else Option.bind (ancestor (targets ! i) (targets ! j)) (\<lambda>a. Some
        (if a = [] then removed
         else if a = targets ! i then removed[j := True]
         else if a = targets ! j then removed[i := True]
         else removed)))"

definition first_pass :: "(cstring \<Rightarrow> cstring \<Rightarrow> cstring option) \<Rightarrow> cstring list \<Rightarrow> bool list \<Rightarrow> bool list option" where
  "first_pass ancestor targets removed =
     fold_opt (\<lambda>i removed. if removed ! i then Some removed
       else fold_opt (remove_child ancestor targets i) [i + 1..<length targets] removed) [0..<length targets] removed"

definition second_pass :: "cstring \<Rightarrow> cstring list \<Rightarrow> bool list \<Rightarrow> bool list" where
  "second_pass pcommon targets removed =
     fold (\<lambda>i removed. if targets ! i = pcommon \<and> \<not> removed ! i then removed[i := True] else removed)
       [0..<length targets] removed"

definition kept_targets :: "bool list \<Rightarrow> cstring list \<Rightarrow> cstring list" where
  "kept_targets removed targets = map snd (filter (\<lambda>(r, _). \<not> r) (zip removed targets))"

definition condense ::
    "(cstring \<Rightarrow> cstring \<Rightarrow> cstring option) \<Rightarrow> bool \<Rightarrow> cstring \<Rightarrow> cstring list \<Rightarrow> cstring list option" where
  "condense ancestor remove_redundancies pcommon targets =
     Option.bind
       (if remove_redundancies
        then Option.bind (first_pass ancestor targets (replicate (length targets) False))
               (\<lambda>removed. Some (second_pass pcommon targets removed))
        else Some (replicate (length targets) False))
       (\<lambda>removed. Some (kept_targets removed targets))"

text \<open>A kept dirent relative to the common one.\<close>

definition dirent_rel_item :: "cstring \<Rightarrow> cstring \<Rightarrow> cstring" where
  "dirent_rel_item pcommon item =
     (if length pcommon > 0
      then let item = drop (length pcommon) item in
        if item \<noteq> [] \<and> \<not> svn_dirent_is_root pcommon (length pcommon) then tl item else item
      else item)"

definition uri_rel_item :: "cstring \<Rightarrow> cstring \<Rightarrow> cstring" where
  "uri_rel_item pcommon item =
     (if length pcommon > 0
      then let item = drop (length pcommon) item in
        if char_at item 0 = slash \<or> item \<noteq> [] \<and> \<not> svn_uri_is_root pcommon (length pcommon) then tl item else item
      else item)"

text \<open>The value is \<open>*pcommon\<close> and \<open>*pcondensed_targets\<close>, which is always asked for.\<close>

definition svn_dirent_condense_targets ::
    "platform \<Rightarrow> cstring list \<Rightarrow> bool \<Rightarrow> (cstring \<times> cstring list) option svn_result" where
  "svn_dirent_condense_targets pf targets remove_redundancies =
     (case targets of
        [] \<Rightarrow> Inr None
      | [target] \<Rightarrow> svn_try (svn_dirent_get_absolute pf target) (\<lambda>pcommon. Inr (Some (pcommon, [])))
      | _ \<Rightarrow> svn_try (traverse (svn_dirent_get_absolute pf) targets) (\<lambda>abs_targets.
          let pcommon = foldl svn_dirent_get_longest_ancestor (hd abs_targets) (tl abs_targets) in
          Inr (map_option (\<lambda>kept. (pcommon, map (dirent_rel_item pcommon) kept))
            (condense (\<lambda>a b. Some (svn_dirent_get_longest_ancestor a b)) remove_redundancies pcommon abs_targets))))"

text \<open>\<open>None\<close> at the outside is a failed assertion.\<close>

definition svn_uri_condense_targets :: "cstring list \<Rightarrow> bool \<Rightarrow> (cstring \<times> cstring list) option option" where
  "svn_uri_condense_targets targets remove_redundancies =
     (case targets of
        [] \<Rightarrow> Some None
      | [target] \<Rightarrow> map_option (\<lambda>pcommon. Some (pcommon, [])) (svn_uri_canonicalize target)
      | _ \<Rightarrow> Option.bind (those (map svn_uri_canonicalize targets)) (\<lambda>uri_targets.
          Option.bind (fold_opt (\<lambda>uri pcommon. if pcommon \<noteq> [] then svn_uri_get_longest_ancestor pcommon uri else Some pcommon)
            (tl uri_targets) (hd uri_targets)) (\<lambda>pcommon.
          map_option (\<lambda>kept. Some (pcommon, map (\<lambda>item. svn_path_uri_decode (uri_rel_item pcommon item)) kept))
            (condense svn_uri_get_longest_ancestor remove_redundancies pcommon uri_targets))))"

section \<open>Functions of \<open>path.c\<close> that serve URLs and dirents\<close>

definition svn_path_is_canonical :: "cstring \<Rightarrow> bool" where
  "svn_path_is_canonical path \<longleftrightarrow>
     svn_uri_is_canonical path \<or> svn_dirent_is_canonical path \<or> relpath_is_canonical path"

definition svn_path_get_longest_ancestor :: "cstring \<Rightarrow> cstring \<Rightarrow> cstring option" where
  "svn_path_get_longest_ancestor path1 path2 =
     (if svn_path_is_url path1 \<and> svn_path_is_url path2 then svn_uri_get_longest_ancestor path1 path2
      else if \<not> svn_path_is_url path1 \<and> \<not> svn_path_is_url path2
      then Some (take (get_path_ancestor_length path1 path2) path1)
      else Some [])"

definition svn_path_get_absolute :: "platform \<Rightarrow> cstring \<Rightarrow> cstring svn_result" where
  "svn_path_get_absolute pf relative =
     (if svn_path_is_url relative then Inr relative else svn_dirent_get_absolute pf relative)"

section \<open>Dirents as lists of segments\<close>

definition dirent_of :: "bool \<Rightarrow> cstring list \<Rightarrow> cstring" where
  "dirent_of rooted ss = (if rooted then slash # path_of ss else path_of ss)"

lemma dirent_is_canonical_iff:
  "svn_dirent_is_canonical d \<longleftrightarrow> (\<exists>rooted ss. list_all ok_seg ss \<and> d = dirent_of rooted ss)"
proof
  assume c: "svn_dirent_is_canonical d"
  show "\<exists>rooted ss. list_all ok_seg ss \<and> d = dirent_of rooted ss"
  proof (cases "char_at d 0 = slash")
    case True
    then have "d = slash # tl d" "relpath_is_canonical (tl d)"
      using c by (cases d; simp add: svn_dirent_is_canonical_def char_at_def)+
    moreover from this(2) obtain ss where "tl d = path_of ss" "list_all ok_seg ss" by (rule canonical_relpath_cases)
    ultimately show ?thesis by (intro exI [of _ True] exI [of _ ss]) (simp add: dirent_of_def)
  next
    case False
    then have "relpath_is_canonical d" using c by (simp add: svn_dirent_is_canonical_def)
    then obtain ss where "d = path_of ss" "list_all ok_seg ss" by (rule canonical_relpath_cases)
    then show ?thesis by (intro exI [of _ False] exI [of _ ss]) (simp add: dirent_of_def)
  qed
next
  assume "\<exists>rooted ss. list_all ok_seg ss \<and> d = dirent_of rooted ss"
  then show "svn_dirent_is_canonical d"
    by (auto simp: svn_dirent_is_canonical_def dirent_of_def canonical_path_of char_at_path_of)
qed

lemma rooted_dirent_of [simp]:
  "list_all ok_seg ss \<Longrightarrow> char_at (dirent_of rooted ss) 0 = slash \<longleftrightarrow> rooted"
  by (simp add: dirent_of_def char_at_path_of)

lemma dirent_of_Nil [simp]: "list_all ok_seg ss \<Longrightarrow> dirent_of rooted ss = [] \<longleftrightarrow> \<not> rooted \<and> ss = []"
  using path_of_nonempty by (auto simp: dirent_of_def)

lemma last_dirent_of:
  "list_all ok_seg ss \<Longrightarrow> dirent_of rooted ss \<noteq> [] \<Longrightarrow> last (dirent_of rooted ss) = slash \<longleftrightarrow> ss = []"
  using last_path_of [of ss] path_of_nonempty [of ss] by (cases "ss = []") (auto simp: dirent_of_def)

lemma dirent_join_of:
  assumes "list_all ok_seg ss" and "list_all ok_seg ts"
  shows "svn_dirent_join (dirent_of rooted ss) (dirent_of rooted' ts)
    = (if rooted' then dirent_of True ts else dirent_of rooted (ss @ ts))"
proof (cases rooted')
  case True
  then show ?thesis using assms by (simp add: svn_dirent_join_def svn_dirent_is_absolute_def)
next
  case False
  show ?thesis
  proof (cases "ts = [] \<or> dirent_of rooted ss = []")
    case True
    with assms False show ?thesis
      by (auto simp: svn_dirent_join_def svn_dirent_is_absolute_def)
  next
    case F: False
    then have join: "svn_dirent_join (dirent_of rooted ss) (dirent_of rooted' ts)
        = dirent_of rooted ss @ (if ss = [] then [] else [slash]) @ path_of ts"
      using assms False last_dirent_of [OF assms(1), of rooted] path_of_nonempty [OF assms(2)] char_at_path_of [OF assms(2)]
      by (simp add: svn_dirent_join_def svn_dirent_is_absolute_def) (simp add: dirent_of_def)
    show ?thesis
      using F False assms unfolding join by (cases "ss = []") (auto simp: dirent_of_def path_of_append)
  qed
qed

lemma dirent_of_inj:
  assumes "list_all ok_seg ss" and "list_all ok_seg ts" and "dirent_of a ss = dirent_of b ts"
  shows "a = b \<and> ss = ts"
proof -
  have "a = b" using rooted_dirent_of [OF assms(1), of a] rooted_dirent_of [OF assms(2), of b] assms(3) by simp
  then show ?thesis using path_of_inj [OF assms(1,2)] assms(3) by (auto simp: dirent_of_def split: if_splits)
qed

lemma previous_segment_loop_Cons:
  "previous_segment_loop (c # p) (Suc n) = (if previous_segment_loop p n = 0 \<and> char_at p 0 \<noteq> slash
     then 0 else Suc (previous_segment_loop p n))"
  by (induction n) auto

lemma basename_start_Cons:
  "basename_start (slash # p) (Suc n) = Suc (basename_start p n)"
  by (induction n) auto

lemma dirent_dirname_of:
  assumes "list_all ok_seg ss"
  shows "svn_dirent_dirname (dirent_of rooted ss) = dirent_of rooted (butlast ss)"
proof (cases "ss = []")
  case True
  then show ?thesis
    by (cases rooted) (simp_all add: svn_dirent_dirname_def dirent_of_def dirent_root_length_def char_at_def)
next
  case False
  have ne: "path_of ss \<noteq> []" using path_of_nonempty [OF assms False] .
  have rel: "take (previous_segment_loop (path_of ss) (length (path_of ss) - 1)) (path_of ss) = path_of (butlast ss)"
    using relpath_dirname_basename(1) [OF assms] ne by (simp add: svn_relpath_dirname_def relpath_previous_segment_def)
  have le: "previous_segment_loop p n \<le> n" for p n by (induction n) auto
  have h: "char_at (path_of ss) 0 \<noteq> slash" by (rule char_at_path_of [OF assms])
  let ?n = "previous_segment_loop (path_of ss) (length (path_of ss) - 1)"
  have nl: "?n < length (path_of ss)" using le [of "path_of ss" "length (path_of ss) - 1"] ne by (cases "path_of ss") auto
  show ?thesis
  proof (cases rooted)
    case False
    then show ?thesis
      using ne rel h by (simp add: svn_dirent_dirname_def dirent_of_def dirent_root_length_def
        dirent_previous_segment_def Let_def)
  next
    case True
    obtain m where m: "length (path_of ss) = Suc m" using ne by (cases "path_of ss") auto
    have loop: "previous_segment_loop (slash # path_of ss) (Suc m) = (if ?n = 0 then 0 else Suc ?n)"
      using previous_segment_loop_Cons [of slash "path_of ss" m] h by (simp add: m)
    have len: "length (slash # path_of ss) = Suc (Suc m)" by (simp add: m)
    have prev: "dirent_previous_segment (slash # path_of ss) (Suc (Suc m)) = Suc ?n"
      using loop by (simp add: dirent_previous_segment_def dirent_root_length_def Let_def del: previous_segment_loop.simps)
    have "svn_dirent_dirname (slash # path_of ss) = take (Suc ?n) (slash # path_of ss)"
      unfolding svn_dirent_dirname_def Let_def len prev by (simp add: dirent_root_length_def)
    then show ?thesis using True rel by (simp add: dirent_of_def)
  qed
qed

lemma dirent_basename_of:
  assumes "list_all ok_seg ss"
  shows "svn_dirent_basename (dirent_of rooted ss) = (if ss = [] then [] else last ss)"
proof (cases "ss = []")
  case True
  then show ?thesis
    by (cases rooted) (simp_all add: svn_dirent_basename_def dirent_of_def svn_dirent_is_root_def char_at_def)
next
  case False
  have rel: "drop (basename_start (path_of ss) (length (path_of ss))) (path_of ss) = last ss"
    using relpath_dirname_basename(2) [OF assms] False by (simp add: svn_relpath_basename_def)
  have ne: "path_of ss \<noteq> []" using path_of_nonempty [OF assms False] .
  show ?thesis
    using False ne rel char_at_path_of [OF assms]
    by (cases rooted) (auto simp: svn_dirent_basename_def dirent_of_def svn_dirent_is_root_def basename_start_Cons
      simp del: basename_start.simps)
qed

lemma dirent_skip_ancestor_of:
  assumes ss: "list_all ok_seg ss" and ts: "list_all ok_seg ts" and "no_nul (path_of ts)"
  shows "svn_dirent_skip_ancestor (dirent_of a ss) (dirent_of b ts)
    = (if a = b \<and> prefix ss ts then Some (path_of (drop (length ss) ts)) else None)"
proof -
  have nul: "char_at (path_of ts) n \<noteq> NUL" if "n < length (path_of ts)" for n
    using assms(3) that by (metis char_at_def no_nul_def nth_mem)
  have c0: "char_at (path_of ts) 0 \<noteq> slash" by (rule char_at_path_of [OF ts])
  have rel: "(if \<not> is_prefix (path_of ss) (path_of ts) then None
      else if char_at (path_of ts) (length (path_of ss)) = NUL then Some []
      else if char_at (path_of ts) (length (path_of ss)) = slash then Some (drop (Suc (length (path_of ss))) (path_of ts))
      else None) = (if prefix ss ts then Some (path_of (drop (length ss) ts)) else None)" if "ss \<noteq> []"
    using relpath_skip_ancestor_path_of [OF ss ts assms(3)] path_of_nonempty [OF ss that]
    by (simp add: svn_relpath_skip_ancestor_def Let_def split: if_splits)
  consider (absabs) "a" "b" | (relrel) "\<not> a" "\<not> b" | (absrel) "a" "\<not> b" | (relabs) "\<not> a" "b" by blast
  then show ?thesis
  proof cases
    case absabs
    show ?thesis
    proof (cases "ss = []")
      case True
      then show ?thesis
        using absabs nul [of 0] c0 by (cases "path_of ts")
          (auto simp: svn_dirent_skip_ancestor_def dirent_of_def is_prefix_def dirent_root_length_def Let_def)
    next
      case False
      then have "path_of ss \<noteq> []" using path_of_nonempty [OF ss] by blast
      then show ?thesis
        using absabs rel [OF False]
        by (auto simp: svn_dirent_skip_ancestor_def dirent_of_def is_prefix_def dirent_root_length_def Let_def split: if_splits)
    qed
  next
    case relrel
    show ?thesis
    proof (cases "ss = []")
      case True
      then show ?thesis
        using relrel nul [of 0] c0 by (cases "path_of ts")
          (auto simp: svn_dirent_skip_ancestor_def dirent_of_def is_prefix_def dirent_root_length_def Let_def)
    next
      case False
      then have "path_of ss \<noteq> []" using path_of_nonempty [OF ss] by blast
      then show ?thesis
        using relrel rel [OF False] c0
        by (auto simp: svn_dirent_skip_ancestor_def dirent_of_def is_prefix_def dirent_root_length_def Let_def split: if_splits)
    qed
  next
    case absrel
    then have "\<not> is_prefix (dirent_of a ss) (dirent_of b ts)"
      using c0 by (cases "path_of ts") (auto simp: is_prefix_def dirent_of_def char_at_def)
    then show ?thesis using absrel by (simp add: svn_dirent_skip_ancestor_def Let_def)
  next
    case relabs
    show ?thesis
    proof (cases "ss = []")
      case True
      then show ?thesis using relabs by (simp add: svn_dirent_skip_ancestor_def dirent_of_def is_prefix_def dirent_root_length_def Let_def)
    next
      case False
      then have "\<not> is_prefix (dirent_of a ss) (dirent_of b ts)"
        using relabs char_at_path_of [OF ss] path_of_nonempty [OF ss]
        by (cases "path_of ss") (auto simp: is_prefix_def dirent_of_def char_at_def)
      then show ?thesis using relabs by (simp add: svn_dirent_skip_ancestor_def Let_def)
    qed
  qed
qed

section \<open>Joining many components\<close>

lemma join_many_scan_filter: "join_many_scan args st = join_many_scan (filter (\<lambda>s. s \<noteq> []) args) st"
  by (induction args arbitrary: st) (auto intro!: Option.bind_cong)

lemma join_many_copy_filter: "join_many_copy st args n d = join_many_copy st (filter (\<lambda>s. s \<noteq> []) args) n d"
  by (induction args arbitrary: n d) (auto simp: Let_def)

lemma dirent_join_Nil [simp]: "svn_dirent_join base [] = base"
  by (simp add: svn_dirent_join_def svn_dirent_is_absolute_def)

lemma foldl_join_filter: "foldl svn_dirent_join base args = foldl svn_dirent_join base (filter (\<lambda>s. s \<noteq> []) args)"
  by (induction args arbitrary: base) auto

text \<open>A component that is neither empty nor absolute.\<close>

definition relative :: "cstring \<Rightarrow> bool" where
  "relative s \<longleftrightarrow> s \<noteq> [] \<and> hd s \<noteq> slash \<and> last s \<noteq> slash"

lemma canonical_relative:
  "svn_dirent_is_canonical s \<Longrightarrow> s \<noteq> [] \<Longrightarrow> \<not> dirent_is_rooted s \<Longrightarrow> relative s"
proof -
  assume a: "svn_dirent_is_canonical s" "s \<noteq> []" "\<not> dirent_is_rooted s"
  then obtain ss where ss: "list_all ok_seg ss" "s = path_of ss"
    by (auto simp: dirent_is_canonical_iff dirent_is_rooted_def dirent_of_def split: if_splits)
  then show ?thesis using a(2) hd_path_of last_path_of by (cases "ss = []") (auto simp: relative_def)
qed

lemma relative_rooted [simp]: "relative s \<Longrightarrow> \<not> dirent_is_rooted s"
  by (cases s) (auto simp: relative_def dirent_is_rooted_def)

lemma join_relative:
  "relative s \<Longrightarrow> svn_dirent_join d s = (if d = [] then s else d @ (if last d = slash then [] else [slash]) @ s)"
  by (cases s) (auto simp: relative_def svn_dirent_join_def svn_dirent_is_absolute_def)

lemma join_rooted: "dirent_is_rooted s \<Longrightarrow> svn_dirent_join d s = s"
  by (simp add: svn_dirent_join_def svn_dirent_is_absolute_def dirent_is_rooted_def)

lemma last_foldl_join:
  "ys \<noteq> [] \<Longrightarrow> \<forall>s\<in>set ys. relative s \<Longrightarrow> foldl svn_dirent_join d ys \<noteq> [] \<and> last (foldl svn_dirent_join d ys) \<noteq> slash"
  by (induction ys rule: rev_induct) (auto simp: join_relative relative_def)

lemma length_foldl_join: "\<forall>s\<in>set ys. relative s \<Longrightarrow> length d \<le> length (foldl svn_dirent_join d ys)"
  by (induction ys rule: rev_induct) (auto simp: join_relative)

text \<open>The state of the first pass after the components \<open>xs\<close>; what the result starts from.\<close>

definition jm_start :: "cstring \<Rightarrow> cstring list \<Rightarrow> nat \<Rightarrow> cstring" where
  "jm_start base xs k = (if k = 0 then base else xs ! (k - 1))"

definition scanned :: "cstring \<Rightarrow> cstring list \<Rightarrow> join_many_state \<Rightarrow> bool" where
  "scanned base xs st \<longleftrightarrow>
     jm_nargs st = length xs \<and> length (jm_saved_lengths st) = MAX_SAVED_LENGTHS
     \<and> (\<forall>j<length xs. jm_saved_lengths st ! Suc j = length (xs ! j))
     \<and> jm_base_arg st \<le> length xs
     \<and> (if jm_base_arg st = 0 then jm_base st = base \<and> jm_saved_lengths st ! 0 = length base
        else jm_base st = [] \<and> dirent_is_rooted (xs ! (jm_base_arg st - 1)))
     \<and> (\<forall>s\<in>set (drop (jm_base_arg st) xs). relative s)
     \<and> jm_add_separator st = (jm_start base xs (jm_base_arg st) \<noteq> [] \<and> last (jm_start base xs (jm_base_arg st)) \<noteq> slash)
     \<and> foldl svn_dirent_join base xs = foldl svn_dirent_join (jm_start base xs (jm_base_arg st)) (drop (jm_base_arg st) xs)
     \<and> jm_total_len st = length (foldl svn_dirent_join base xs)"

lemma scanned_step:
  assumes sc: "scanned base xs st" and "length xs + 1 < MAX_SAVED_LENGTHS" and s: "s \<noteq> []" "svn_dirent_is_canonical s"
  shows "\<exists>st'. join_many_scan (s # args) st = join_many_scan args st' \<and> scanned base (xs @ [s]) st'"
proof -
  let ?k = "jm_base_arg st"
  let ?st = "st\<lparr>jm_nargs := jm_nargs st + 1, jm_saved_lengths := (jm_saved_lengths st)[jm_nargs st + 1 := length s]\<rparr>"
  let ?r = "foldl svn_dirent_join base xs"
  have n: "jm_nargs st = length xs" "length (jm_saved_lengths st) = MAX_SAVED_LENGTHS" "?k \<le> length xs"
    using sc by (simp_all add: scanned_def)
  have saved: "\<forall>j<length (xs @ [s]). jm_saved_lengths ?st ! Suc j = length ((xs @ [s]) ! j)"
    using sc n assms(2) by (auto simp: scanned_def nth_append less_Suc_eq)
  show ?thesis
  proof (cases "dirent_is_rooted s")
    case True
    let ?st' = "?st\<lparr>jm_total_len := length s, jm_base_arg := jm_nargs ?st, jm_base := [],
                   jm_saved_lengths := (jm_saved_lengths ?st)[0 := 0], jm_add_separator := last s \<noteq> slash\<rparr>"
    have "join_many_scan (s # args) st = join_many_scan args ?st'"
      using True s(1) n assms(2) by simp
    moreover have "scanned base (xs @ [s]) ?st'"
      using True saved n s(1) by (simp add: scanned_def jm_start_def join_rooted)
    ultimately show ?thesis by blast
  next
    case False
    have rel: "relative s" by (rule canonical_relative [OF s(2,1) False])
    let ?len = "if jm_nargs ?st \<le> ?k + 1 then jm_total_len st + (if jm_add_separator st then 1 else 0) + length s
      else jm_total_len st + 1 + length s"
    let ?st' = "?st\<lparr>jm_total_len := ?len\<rparr>"
    have run: "join_many_scan (s # args) st = join_many_scan args ?st'"
      using False s(1) n assms(2) by simp
    have start: "jm_start base (xs @ [s]) ?k = jm_start base xs ?k"
      using n(3) by (cases "?k = 0") (auto simp: jm_start_def nth_append)
    have fold: "?r = foldl svn_dirent_join (jm_start base xs ?k) (drop ?k xs)"
      and rels: "\<forall>s\<in>set (drop ?k xs). relative s" and tot: "jm_total_len st = length ?r"
      and sep: "jm_add_separator st = (jm_start base xs ?k \<noteq> [] \<and> last (jm_start base xs ?k) \<noteq> slash)"
      using sc by (simp_all add: scanned_def)
    have "?len = length (svn_dirent_join ?r s)"
    proof (cases "length xs \<le> ?k")
      case True
      then have "?r = jm_start base xs ?k" using fold by simp
      then show ?thesis using True n rel sep tot by (simp add: join_relative)
    next
      case F: False
      then have "drop ?k xs \<noteq> []" by simp
      from last_foldl_join [OF this rels] fold have "?r \<noteq> []" "last ?r \<noteq> slash" by simp_all
      then show ?thesis using F n rel tot by (simp add: join_relative)
    qed
    moreover have "foldl svn_dirent_join base (xs @ [s])
        = foldl svn_dirent_join (jm_start base (xs @ [s]) ?k) (drop ?k (xs @ [s]))"
      using fold n(3) by (simp add: start)
    moreover have "(if ?k = 0 then jm_base ?st = base \<and> jm_saved_lengths ?st ! 0 = length base
        else jm_base ?st = [] \<and> dirent_is_rooted ((xs @ [s]) ! (?k - 1)))"
      using sc n(3) by (auto simp: scanned_def nth_append)
    moreover have "jm_base_arg ?st' = ?k" "jm_nargs ?st' = length (xs @ [s])" "jm_add_separator ?st' = jm_add_separator st"
      "jm_saved_lengths ?st' = jm_saved_lengths ?st" "jm_base ?st' = jm_base ?st" "jm_total_len ?st' = ?len"
      "length (jm_saved_lengths ?st') = MAX_SAVED_LENGTHS" "?k \<le> length (xs @ [s])"
      "\<forall>s\<in>set (drop ?k (xs @ [s])). relative s"
      using n rels rel by auto
    ultimately have "scanned base (xs @ [s]) ?st'"
      using saved sep start unfolding scanned_def by (simp only: foldl_append foldl.simps simp_thms)
    then show ?thesis using run by blast
  qed
qed

lemma join_many_scan_spec:
  "scanned base xs st \<Longrightarrow> length xs + length args < MAX_SAVED_LENGTHS \<Longrightarrow>
    \<forall>s\<in>set args. s \<noteq> [] \<and> svn_dirent_is_canonical s \<Longrightarrow>
    \<exists>st'. join_many_scan args st = Some st' \<and> scanned base (xs @ args) st'"
proof (induction args arbitrary: xs st)
  case (Cons s args)
  obtain st' where st': "join_many_scan (s # args) st = join_many_scan args st'" "scanned base (xs @ [s]) st'"
    using scanned_step [OF Cons.prems(1), of s args] Cons.prems(2,3) by auto
  show ?case unfolding st'(1) using Cons.IH [OF st'(2)] Cons.prems(2,3) by simp
qed simp

lemma join_many_copy_skip:
  "\<forall>s\<in>set pre. s \<noteq> [] \<Longrightarrow> n + length pre < jm_base_arg st \<Longrightarrow>
    join_many_copy st (pre @ rest) n d = join_many_copy st rest (n + length pre) d"
  by (induction pre arbitrary: n) auto

lemma join_many_copy_relative:
  assumes "\<forall>s\<in>set ys. relative s" and "jm_base_arg st \<le> n"
    and "\<forall>j<length ys. n + j + 1 < MAX_SAVED_LENGTHS \<longrightarrow> jm_saved_lengths st ! (n + j + 1) = length (ys ! j)"
    and "n = jm_base_arg st \<Longrightarrow> jm_add_separator st = (d \<noteq> [] \<and> last d \<noteq> slash)"
    and "jm_base_arg st < n \<Longrightarrow> d \<noteq> [] \<and> last d \<noteq> slash"
  shows "join_many_copy st ys n d = foldl svn_dirent_join d ys"
  using assms
proof (induction ys arbitrary: n d)
  case (Cons s ys)
  have rel: "relative s" and s: "s \<noteq> []" using Cons.prems(1) by (simp_all add: relative_def)
  define len where "len = (if n + 1 < MAX_SAVED_LENGTHS then jm_saved_lengths st ! (n + 1) else length s)"
  have len: "len = length s" using Cons.prems(3) by (auto simp: len_def)
  define sep where "sep = (if d \<noteq> [] \<and> (\<not> n \<le> jm_base_arg st \<or> jm_add_separator st) then [slash] else [])"
  have d': "d @ sep @ take len s = svn_dirent_join d s"
    using Cons.prems(2,4,5) rel by (cases "n = jm_base_arg st") (auto simp: sep_def len join_relative)
  have "join_many_copy st (s # ys) n d = join_many_copy st ys (n + 1) (svn_dirent_join d s)"
    using s Cons.prems(2) d' by (simp add: len_def sep_def)
  also have "\<dots> = foldl svn_dirent_join (svn_dirent_join d s) ys"
  proof (rule Cons.IH)
    show "\<forall>j<length ys. n + 1 + j + 1 < MAX_SAVED_LENGTHS \<longrightarrow> jm_saved_lengths st ! (n + 1 + j + 1) = length (ys ! j)"
    proof (intro allI impI)
      fix j assume "j < length ys" "n + 1 + j + 1 < MAX_SAVED_LENGTHS"
      then show "jm_saved_lengths st ! (n + 1 + j + 1) = length (ys ! j)"
        using Cons.prems(3) [rule_format, of "Suc j"] by simp
    qed
    show "svn_dirent_join d s \<noteq> [] \<and> last (svn_dirent_join d s) \<noteq> slash"
      using rel by (auto simp: join_relative relative_def)
  qed (use Cons.prems in auto)
  finally show ?case by simp
qed simp

lemma dirent_join_many_spec:
  assumes base: "svn_dirent_is_canonical base" and "\<forall>s\<in>set args. svn_dirent_is_canonical s"
    and "length (filter (\<lambda>s. s \<noteq> []) args) < 10"
  shows "svn_dirent_join_many base args
    = Some (if base = [] \<and> length (foldl svn_dirent_join base args) = 1 then [slash] else foldl svn_dirent_join base args)"
proof -
  define xs where "xs = filter (\<lambda>s. s \<noteq> []) args"
  have xs: "\<forall>s\<in>set xs. s \<noteq> [] \<and> svn_dirent_is_canonical s" "length xs < 10" using assms by (auto simp: xs_def)
  let ?r = "foldl svn_dirent_join base xs"
  define st0 where "st0 = \<lparr>jm_base = base, jm_saved_lengths = (replicate MAX_SAVED_LENGTHS 0)[0 := length base],
    jm_total_len = length base, jm_nargs = 0, jm_base_arg = 0, jm_add_separator = \<not> (base = [] \<or> last base = slash)\<rparr>"
  have "scanned base [] st0" by (simp add: scanned_def st0_def jm_start_def MAX_SAVED_LENGTHS_def)
  from join_many_scan_spec [OF this, of xs] xs obtain st where
    st: "join_many_scan xs st0 = Some st" "scanned base xs st" by (auto simp: MAX_SAVED_LENGTHS_def)
  let ?k = "jm_base_arg st" and ?start = "jm_start base xs (jm_base_arg st)"
  have k: "?k \<le> length xs" and tot: "jm_total_len st = length ?r"
    and rels: "\<forall>s\<in>set (drop ?k xs). relative s"
    and fold: "?r = foldl svn_dirent_join ?start (drop ?k xs)"
    and sep: "jm_add_separator st = (?start \<noteq> [] \<and> last ?start \<noteq> slash)"
    and saved: "\<forall>j<length xs. jm_saved_lengths st ! Suc j = length (xs ! j)"
    using st(2) by (simp_all add: scanned_def)
  have copy0: "join_many_copy st (drop ?k xs) ?k ?start = ?r"
    unfolding fold using rels saved sep k by (intro join_many_copy_relative) auto
  have copy: "join_many_copy st xs 0 (if jm_base st \<noteq> [] then take (jm_saved_lengths st ! 0) (jm_base st) else []) = ?r"
  proof (cases "?k = 0")
    case True
    then have "jm_base st = base" "jm_saved_lengths st ! 0 = length base" "?start = base"
      using st(2) by (simp_all add: scanned_def jm_start_def)
    then show ?thesis using copy0 True by auto
  next
    case False
    then have b: "jm_base st = []" and rt: "dirent_is_rooted (xs ! (?k - 1))" using st(2) by (simp_all add: scanned_def)
    have split: "xs = take (?k - 1) xs @ xs ! (?k - 1) # drop ?k xs"
      using id_take_nth_drop [of "?k - 1" xs] k False by simp
    have start: "?start = xs ! (?k - 1)" using False by (simp add: jm_start_def)
    have ne: "xs ! (?k - 1) \<noteq> []" using xs(1) k False by simp
    have sk: "?k - 1 < length xs" using k False by simp
    have "join_many_copy st (take (?k - 1) xs @ xs ! (?k - 1) # drop ?k xs) 0 []
        = join_many_copy st (xs ! (?k - 1) # drop ?k xs) (0 + length (take (?k - 1) xs)) []"
      by (rule join_many_copy_skip) (use xs(1) k False in \<open>auto dest: in_set_takeD\<close>)
    also have "0 + length (take (?k - 1) xs) = ?k - 1" using k by simp
    also have "join_many_copy st (xs ! (?k - 1) # drop ?k xs) (?k - 1) [] = join_many_copy st (drop ?k xs) ?k ?start"
      using ne False saved [rule_format, OF sk] by (simp add: start)
    finally have "join_many_copy st xs 0 [] = join_many_copy st (drop ?k xs) ?k ?start"
      unfolding split [symmetric] .
    then show ?thesis using copy0 b by simp
  qed
  have root: "?r = [slash]" if "\<not> jm_add_separator st" "length ?r = 1" "base \<noteq> [] \<or> dirent_is_rooted ?r"
  proof (cases "dirent_is_rooted ?r")
    case True
    then show ?thesis using that(2) by (cases ?r) (auto simp: dirent_is_rooted_def)
  next
    case False
    have "?start \<noteq> []"
    proof (cases "?k = 0")
      case True
      then show ?thesis using that(3) False by (simp add: jm_start_def)
    next
      case F: False
      then show ?thesis using xs(1) k by (simp add: jm_start_def)
    qed
    then have l: "last ?start = slash" using sep that(1) by simp
    have "length ?start = 1" using length_foldl_join [OF rels, of ?start] fold that(2) \<open>?start \<noteq> []\<close> by (cases ?start) auto
    then have s: "?start = [slash]" using l by (cases ?start) auto
    have "drop ?k xs = []"
    proof (rule ccontr)
      assume ne: "drop ?k xs \<noteq> []"
      then obtain y ys where y: "drop ?k xs = y # ys" by (cases "drop ?k xs") auto
      then have "relative y" using rels by simp
      then have "2 \<le> length (svn_dirent_join [slash] y)" by (cases y) (auto simp: join_relative relative_def)
      also have "\<dots> \<le> length ?r" using length_foldl_join [of ys "svn_dirent_join [slash] y"] rels by (simp add: fold s y)
      finally show False using that(2) by simp
    qed
    then show ?thesis using fold s by simp
  qed
  have nosep: "\<not> jm_add_separator st" if "base = []" "length ?r = 1"
  proof
    assume "jm_add_separator st"
    then have "?start \<noteq> []" "last ?start \<noteq> slash" using sep by simp_all
    moreover from this(1) have k0: "?k \<noteq> 0" using that(1) by (metis jm_start_def)
    moreover have "dirent_is_rooted ?start" using st(2) k0 by (simp add: scanned_def jm_start_def)
    ultimately have two: "2 \<le> length ?start"
      by (cases ?start; cases "tl ?start") (auto simp: dirent_is_rooted_def)
    show False using length_foldl_join [OF rels, of ?start] fold two that(2) by simp
  qed
  have "svn_dirent_join_many base args
      = (if \<not> jm_add_separator st \<and> length ?r = 1 then Some [slash] else Some ?r)"
    unfolding svn_dirent_join_many_def join_many_scan_filter [of args] join_many_copy_filter [of _ args]
      xs_def [symmetric] st0_def [symmetric]
    by (simp only: st(1) Option.bind.simps tot copy Let_def refl if_True)
  moreover have "foldl svn_dirent_join base args = ?r" using foldl_join_filter [of base args] by (simp add: xs_def)
  ultimately show ?thesis
    using root nosep by (cases "base = []"; cases "length ?r = 1"; cases "jm_add_separator st") auto
qed

section \<open>The longest common ancestor\<close>

fun last_slash :: "cstring \<Rightarrow> nat \<Rightarrow> nat \<Rightarrow> nat" where
  "last_slash [] i l = l"
| "last_slash (c # p) i l = last_slash p (Suc i) (if c = slash then i else l)"

lemma last_slash_at: "last_slash (p @ [slash]) i l = i + length p"
  by (induction p arbitrary: i l) auto

lemma last_slash_none: "slash \<notin> set p \<Longrightarrow> last_slash p i l = l"
  by (induction p arbitrary: i) auto

lemma ancestor_loop_common:
  "longest_ancestor_loop (w @ p) (w @ q) i l = longest_ancestor_loop p q (i + length w) (last_slash w i l)"
proof (induction w arbitrary: i l)
  case (Cons c w)
  show ?case
  proof (cases "w @ p = [] \<or> w @ q = []")
    case True
    then show ?thesis by (cases p; cases q) auto
  next
    case False
    then show ?thesis using Cons [of "Suc i" "if c = slash then i else l"] by (simp add: Let_def)
  qed
qed simp

text \<open>Where the loop stops, the strings end or differ.\<close>

definition apart :: "cstring \<Rightarrow> cstring \<Rightarrow> bool" where
  "apart p q \<longleftrightarrow> p = [] \<or> q = [] \<or> hd p \<noteq> hd q"

lemma ancestor_loop_apart: "apart p q \<Longrightarrow> longest_ancestor_loop p q i l = (i, l)"
  by (cases p; cases q) (auto simp: apart_def)

lemma common_apart: "\<exists>w p' q'. p = w @ p' \<and> q = w @ q' \<and> apart p' q'"
proof (induction p arbitrary: q)
  case (Cons c p)
  show ?case
  proof (cases "q = [] \<or> hd q \<noteq> c")
    case True
    then have "apart (c # p) q" by (auto simp: apart_def)
    then show ?thesis by (metis append_Nil)
  next
    case False
    then obtain q' where q: "q = c # q'" by (cases q) auto
    obtain w p' q'' where "p = w @ p'" "q' = w @ q''" "apart p' q''" using Cons [of q'] by blast
    then show ?thesis unfolding q by (metis append_Cons)
  qed
qed (auto simp: apart_def)

definition at_end :: "cstring \<Rightarrow> cstring \<Rightarrow> nat \<Rightarrow> bool" where
  "at_end p q i \<longleftrightarrow> i = length p \<and> char_at q i = slash \<or> i = length q \<and> char_at p i = slash
     \<or> i = length p \<and> i = length q"

lemma at_end_append: "at_end (w @ p) (w @ q) (length w + i) \<longleftrightarrow> at_end p q i"
  by (simp add: at_end_def char_at_def nth_append)

lemma at_end_Cons: "at_end (c # p) (c # q) (Suc i) \<longleftrightarrow> at_end p q i"
  by (simp add: at_end_def)

text \<open>The segment a path starts with, and the rest.\<close>

lemma path_of_first:
  assumes "list_all ok_seg ss" and "ss \<noteq> []"
  obtains r where "path_of ss = hd ss @ r" "r = [] \<or> hd r = slash" "slash \<notin> set (hd ss)" "hd ss \<noteq> []"
  using assms by (cases ss rule: path_of.cases) (auto simp: ok_seg_def)

lemma ancestor_loop_differ:
  assumes ss: "list_all ok_seg ss" "ss \<noteq> []" and ts: "list_all ok_seg ts" "ts \<noteq> []" and "hd ss \<noteq> hd ts"
  shows "\<exists>k. longest_ancestor_loop (path_of ss) (path_of ts) i l = (i + k, l) \<and> \<not> at_end (path_of ss) (path_of ts) k"
proof -
  obtain r where r: "path_of ss = hd ss @ r" "r = [] \<or> hd r = slash" "slash \<notin> set (hd ss)" "hd ss \<noteq> []"
    using path_of_first [OF ss] .
  obtain r' where r': "path_of ts = hd ts @ r'" "r' = [] \<or> hd r' = slash" "slash \<notin> set (hd ts)" "hd ts \<noteq> []"
    using path_of_first [OF ts] .
  obtain w x y where w: "hd ss = w @ x" "hd ts = w @ y" "apart x y" using common_apart by blast
  have xy: "x \<noteq> [] \<or> y \<noteq> []" using assms(5) w by auto
  have sl: "slash \<notin> set w" "slash \<notin> set x" "slash \<notin> set y" using r(3) r'(3) w by auto
  have "apart (x @ r) (y @ r')"
    using w(3) xy sl r(2) r'(2) by (cases x; cases y; cases r; cases r') (auto simp: apart_def)
  then have "longest_ancestor_loop (path_of ss) (path_of ts) i l = (i + length w, l)"
    unfolding r(1) r'(1) w(1,2) using ancestor_loop_common [of w "x @ r" "y @ r'" i l]
    by (simp add: ancestor_loop_apart last_slash_none sl)
  moreover have "\<not> at_end (path_of ss) (path_of ts) (length w)"
    unfolding r(1) r'(1) w(1,2) using at_end_append [of w "x @ r" "y @ r'" 0] xy sl
    by (cases x; cases y) (auto simp: at_end_def)
  ultimately show ?thesis by blast
qed

lemma ancestor_loop_path_of:
  assumes ss: "list_all ok_seg ss" "ss \<noteq> []" and ts: "list_all ok_seg ts" "ts \<noteq> []"
  defines "cs \<equiv> longest_common_prefix ss ts"
  shows "\<exists>k l'. longest_ancestor_loop (path_of ss) (path_of ts) i l = (i + k, l') \<and> length (path_of cs) \<le> k
    \<and> (if at_end (path_of ss) (path_of ts) k then k = length (path_of cs) \<and> cs \<noteq> []
       else l' = (if cs = [] then l else i + length (path_of cs)))"
proof -
  obtain ss' ts' where d: "ss = cs @ ss'" "ts = cs @ ts'"
    using longest_common_prefix_prefix1 [of ss ts] longest_common_prefix_prefix2 [of ss ts]
    unfolding cs_def prefix_def by blast
  have ok: "list_all ok_seg cs" "list_all ok_seg ss'" "list_all ok_seg ts'" using ss(1) ts(1) d by auto
  have hds: "ss' = [] \<or> ts' = [] \<or> hd ss' \<noteq> hd ts'"
  proof (rule ccontr)
    assume "\<not> (ss' = [] \<or> ts' = [] \<or> hd ss' \<noteq> hd ts')"
    then have "prefix (cs @ [hd ss']) ss" "prefix (cs @ [hd ss']) ts"
      using d by (auto simp: neq_Nil_conv prefix_def)
    then have "prefix (cs @ [hd ss']) cs" unfolding cs_def by (rule longest_common_prefix_max_prefix)
    then show False by (auto dest: prefix_length_le)
  qed
  show ?thesis
  proof (cases "ss' = [] \<or> ts' = []")
    case True
    then have cs: "cs \<noteq> []" using d ss(2) ts(2) by auto
    let ?w = "path_of cs"
    obtain p q where pq: "path_of ss = ?w @ p" "path_of ts = ?w @ q" "p = [] \<or> q = []"
      "p = [] \<or> hd p = slash" "q = [] \<or> hd q = slash"
      using True d cs by (cases "ss' = []"; cases "ts' = []") (auto simp: path_of_append)
    have "longest_ancestor_loop (path_of ss) (path_of ts) i l = (i + length ?w, last_slash ?w i l)"
      unfolding pq(1,2) ancestor_loop_common using pq(3) by (intro ancestor_loop_apart) (auto simp: apart_def)
    moreover have "at_end (path_of ss) (path_of ts) (length ?w)"
      unfolding pq(1,2) using at_end_append [of ?w p q 0] pq(3,4,5) by (cases p; cases q) (auto simp: at_end_def)
    ultimately show ?thesis using cs by auto
  next
    case False
    then have ne: "ss' \<noteq> []" "ts' \<noteq> []" "hd ss' \<noteq> hd ts'" using hds by auto
    show ?thesis
    proof (cases "cs = []")
      case True
      obtain k where "longest_ancestor_loop (path_of ss') (path_of ts') i l = (i + k, l)" "\<not> at_end (path_of ss') (path_of ts') k"
        using ancestor_loop_differ [OF ok(2) ne(1) ok(3) ne(2,3)] by blast
      then show ?thesis using d True by auto
    next
      case cs: False
      let ?w = "path_of cs @ [slash]"
      have p: "path_of ss = ?w @ path_of ss'" "path_of ts = ?w @ path_of ts'"
        using d cs ne by (simp_all add: path_of_append)
      obtain k where k: "longest_ancestor_loop (path_of ss') (path_of ts') (i + length ?w) (last_slash ?w i l)
          = (i + length ?w + k, last_slash ?w i l)" "\<not> at_end (path_of ss') (path_of ts') k"
        using ancestor_loop_differ [OF ok(2) ne(1) ok(3) ne(2,3)] by blast
      have "longest_ancestor_loop (path_of ss) (path_of ts) i l = (i + (length ?w + k), i + length (path_of cs))"
        unfolding p ancestor_loop_common k(1) by (simp add: last_slash_at)
      moreover have "\<not> at_end (path_of ss) (path_of ts) (length ?w + k)" unfolding p at_end_append by (rule k(2))
      ultimately show ?thesis using cs by (intro exI [of _ "length ?w + k"] exI [of _ "i + length (path_of cs)"]) auto
    qed
  qed
qed

lemma take_path_of_prefix:
  assumes "prefix cs ss"
  shows "take (length (path_of cs)) (path_of ss) = path_of cs"
proof -
  obtain zs where "ss = cs @ zs" using assms by (auto simp: prefix_def)
  then show ?thesis by (cases "cs = []"; cases "zs = []") (auto simp: path_of_append)
qed

lemma dirent_longest_ancestor_of:
  assumes ss: "list_all ok_seg ss" and ts: "list_all ok_seg ts"
  shows "svn_dirent_get_longest_ancestor (dirent_of a ss) (dirent_of b ts)
    = (if a = b then dirent_of a (longest_common_prefix ss ts) else [])"
proof -
  let ?cs = "longest_common_prefix ss ts"
  have pre: "take (length (path_of ?cs)) (path_of ss) = path_of ?cs"
    by (rule take_path_of_prefix [OF longest_common_prefix_prefix1])
  have c0: "char_at (path_of ss) 0 \<noteq> slash" "char_at (path_of ts) 0 \<noteq> slash" using assms by (simp_all add: char_at_path_of)
  have nil: "longest_common_prefix ss [] = []" by (cases ss) auto
  have ok: "list_all ok_seg ?cs"
    using longest_common_prefix_prefix1 [of ss ts] ss unfolding prefix_def by (metis list_all_append)
  consider (rel) "\<not> a" "\<not> b" | (abs) "a" "b" | (mixed) "a \<noteq> b" by blast
  then show ?thesis
  proof cases
    case rel
    show ?thesis
    proof (cases "ss = [] \<or> ts = []")
      case True
      then show ?thesis
        using rel nil by (auto simp: svn_dirent_get_longest_ancestor_def get_longest_ancestor_length_def dirent_of_def)
    next
      case False
      then have ne: "ss \<noteq> []" "ts \<noteq> []" "path_of ss \<noteq> []" "path_of ts \<noteq> []" using path_of_nonempty ss ts by auto
      obtain k l' where kl: "longest_ancestor_loop (path_of ss) (path_of ts) 0 0 = (0 + k, l')" "length (path_of ?cs) \<le> k"
        "if at_end (path_of ss) (path_of ts) k then k = length (path_of ?cs) \<and> ?cs \<noteq> []
         else l' = (if ?cs = [] then 0 else 0 + length (path_of ?cs))"
        using ancestor_loop_path_of [OF ss ne(1) ts ne(2), of 0 0] by blast
      have "get_longest_ancestor_length Type_dirent (path_of ss) (path_of ts) = length (path_of ?cs)"
        using kl ne(3,4) c0 path_of_nonempty [OF ok] unfolding get_longest_ancestor_length_def at_end_def [symmetric]
        by (cases "length (path_of ?cs)") (auto split: if_splits)
      then show ?thesis using rel pre by (simp add: svn_dirent_get_longest_ancestor_def dirent_of_def)
    qed
  next
    case abs
    show ?thesis
    proof (cases "ss = [] \<or> ts = []")
      case True
      then show ?thesis
        using abs nil by (auto simp: svn_dirent_get_longest_ancestor_def get_longest_ancestor_length_def dirent_of_def)
    next
      case False
      then have ne: "ss \<noteq> []" "ts \<noteq> []" "path_of ss \<noteq> []" "path_of ts \<noteq> []" using path_of_nonempty ss ts by auto
      obtain k l' where kl: "longest_ancestor_loop (path_of ss) (path_of ts) 1 0 = (1 + k, l')" "length (path_of ?cs) \<le> k"
        "if at_end (path_of ss) (path_of ts) k then k = length (path_of ?cs) \<and> ?cs \<noteq> []
         else l' = (if ?cs = [] then 0 else 1 + length (path_of ?cs))"
        using ancestor_loop_path_of [OF ss ne(1) ts ne(2), of 1 0] by blast
      have loop: "longest_ancestor_loop (slash # path_of ss) (slash # path_of ts) 0 0 = (Suc k, l')"
        using kl(1) ne(3,4) by simp
      have k0: "k = 0 \<Longrightarrow> ?cs = []"
        using kl(2) path_of_nonempty [OF ok] by auto
      have "get_longest_ancestor_length Type_dirent (slash # path_of ss) (slash # path_of ts) = Suc (length (path_of ?cs))"
        using kl(3) k0 unfolding get_longest_ancestor_length_def loop at_end_def [symmetric]
        by (auto simp: at_end_Cons split: if_splits)
      then show ?thesis using abs pre by (simp add: svn_dirent_get_longest_ancestor_def dirent_of_def)
    qed
  next
    case mixed
    then have "dirent_of a ss = [] \<or> dirent_of b ts = [] \<or> hd (dirent_of a ss) \<noteq> hd (dirent_of b ts)"
      using hd_path_of [OF ss] hd_path_of [OF ts] by (cases "ss = []"; cases "ts = []") (auto simp: dirent_of_def)
    then have "apart (dirent_of a ss) (dirent_of b ts)" by (auto simp: apart_def)
    then have "get_longest_ancestor_length Type_dirent (dirent_of a ss) (dirent_of b ts) = 0"
      by (auto simp: get_longest_ancestor_length_def ancestor_loop_apart)
    then show ?thesis using mixed by (simp add: svn_dirent_get_longest_ancestor_def)
  qed
qed

section \<open>Condensing\<close>

text \<open>
  What the two passes ask of the longest common ancestor: on the targets it always exists, and it is
  one of the two exactly if that is an ancestor of the other. \<open>rank\<close> is the depth.
\<close>

locale ancestor_function =
  fixes ancestor :: "cstring \<Rightarrow> cstring \<Rightarrow> cstring option"
    and below :: "cstring \<Rightarrow> cstring \<Rightarrow> bool"
    and target :: "cstring \<Rightarrow> bool"
    and rank :: "cstring \<Rightarrow> nat"
  assumes ancestor_some: "target a \<Longrightarrow> target b \<Longrightarrow> \<exists>c. ancestor a b = Some c
      \<and> (below a b \<longleftrightarrow> c = a \<and> c \<noteq> []) \<and> (below b a \<longleftrightarrow> c = b \<and> c \<noteq> [])"
    and below_refl: "target a \<Longrightarrow> below a a"
    and below_trans: "target a \<Longrightarrow> target b \<Longrightarrow> target c \<Longrightarrow> below a b \<Longrightarrow> below b c \<Longrightarrow> below a c"
    and below_rank: "target a \<Longrightarrow> target b \<Longrightarrow> below a b \<Longrightarrow> a \<noteq> b \<Longrightarrow> rank a < rank b"
begin

text \<open>A target is removed for a smaller one above it.\<close>

definition justified :: "cstring list \<Rightarrow> bool list \<Rightarrow> bool" where
  "justified ts removed \<longleftrightarrow> length removed = length ts
     \<and> (\<forall>k<length ts. removed ! k \<longrightarrow> (\<exists>m<length ts. below (ts ! m) (ts ! k) \<and> (ts ! m \<noteq> ts ! k \<or> m < k)))"

definition grows :: "bool list \<Rightarrow> bool list \<Rightarrow> bool" where
  "grows removed removed' \<longleftrightarrow> length removed' = length removed \<and> (\<forall>k<length removed. removed ! k \<longrightarrow> removed' ! k)"

definition settled :: "cstring list \<Rightarrow> bool list \<Rightarrow> nat \<Rightarrow> nat \<Rightarrow> bool" where
  "settled ts removed i j \<longleftrightarrow> removed ! i \<or> removed ! j \<or> \<not> below (ts ! i) (ts ! j) \<and> \<not> below (ts ! j) (ts ! i)"

lemma grows_refl: "grows r r" by (simp add: grows_def)

lemma grows_trans: "grows r s \<Longrightarrow> grows s t \<Longrightarrow> grows r t" by (simp add: grows_def)

lemma settled_grows: "settled ts r i j \<Longrightarrow> grows r r' \<Longrightarrow> i < length r \<Longrightarrow> j < length r \<Longrightarrow> settled ts r' i j"
  by (auto simp: settled_def grows_def)

lemma remove_child_step:
  assumes ts: "\<forall>t\<in>set ts. target t" and "justified ts r" and ij: "i < j" "j < length ts"
  shows "\<exists>r'. remove_child ancestor ts i j r = Some r' \<and> justified ts r' \<and> grows r r' \<and> settled ts r' i j"
proof -
  have t: "target (ts ! i)" "target (ts ! j)" and len: "length r = length ts" using assms by (auto simp: justified_def)
  obtain c where c: "ancestor (ts ! i) (ts ! j) = Some c"
    "below (ts ! i) (ts ! j) \<longleftrightarrow> c = ts ! i \<and> c \<noteq> []" "below (ts ! j) (ts ! i) \<longleftrightarrow> c = ts ! j \<and> c \<noteq> []"
    using ancestor_some [OF t] by blast
  have upd: "justified ts (r[k := True]) \<and> grows r (r[k := True])"
    if "k < length ts" "m < length ts" "below (ts ! m) (ts ! k)" "ts ! m \<noteq> ts ! k \<or> m < k" for k m
    using assms(2) that by (auto simp: justified_def grows_def nth_list_update)
  consider "r ! j" | "\<not> r ! j" "below (ts ! i) (ts ! j)" | "\<not> r ! j" "\<not> below (ts ! i) (ts ! j)" "below (ts ! j) (ts ! i)"
    | "\<not> r ! j" "\<not> below (ts ! i) (ts ! j)" "\<not> below (ts ! j) (ts ! i)" by blast
  then show ?thesis
  proof cases
    case 1
    then show ?thesis using assms(2) by (simp add: remove_child_def grows_refl settled_def)
  next
    case 2
    then have "remove_child ancestor ts i j r = Some (r[j := True])" using c 2 by (simp add: remove_child_def)
    then show ?thesis using upd [of j i] 2 ij len by (simp add: settled_def)
  next
    case 3
    then have "remove_child ancestor ts i j r = Some (r[i := True])" using c by (auto simp: remove_child_def)
    moreover have "ts ! j \<noteq> ts ! i" using 3 below_refl t by metis
    ultimately show ?thesis using upd [of i j] 3 ij len by (simp add: settled_def)
  next
    case 4
    then have "remove_child ancestor ts i j r = Some r" using c by (auto simp: remove_child_def)
    then show ?thesis using 4 assms(2) by (simp add: grows_refl settled_def)
  qed
qed

lemma inner_pass:
  assumes ts: "\<forall>t\<in>set ts. target t"
  shows "justified ts r \<Longrightarrow> \<forall>j\<in>set js. i < j \<and> j < length ts \<Longrightarrow>
    \<exists>r'. fold_opt (remove_child ancestor ts i) js r = Some r' \<and> justified ts r' \<and> grows r r' \<and> (\<forall>j\<in>set js. settled ts r' i j)"
proof (induction js arbitrary: r)
  case Nil
  then show ?case by (simp add: grows_refl)
next
  case (Cons j js)
  obtain r1 where r1: "remove_child ancestor ts i j r = Some r1" "justified ts r1" "grows r r1" "settled ts r1 i j"
    using remove_child_step [OF ts Cons.prems(1), of i j] Cons.prems(2) by auto
  obtain r2 where r2: "fold_opt (remove_child ancestor ts i) js r1 = Some r2" "justified ts r2" "grows r1 r2"
    "\<forall>j\<in>set js. settled ts r2 i j" using Cons.IH [OF r1(2)] Cons.prems(2) by auto
  have "settled ts r2 i j"
    using settled_grows [OF r1(4) r2(3)] Cons.prems(2) r1(2) by (simp add: justified_def)
  then show ?case using r1 r2 grows_trans by auto
qed

lemma outer_pass:
  assumes ts: "\<forall>t\<in>set ts. target t"
  shows "justified ts r \<Longrightarrow> \<forall>i\<in>set is. i < length ts \<Longrightarrow>
    \<exists>r'. fold_opt (\<lambda>i removed. if removed ! i then Some removed
       else fold_opt (remove_child ancestor ts i) [i + 1..<length ts] removed) is r = Some r'
      \<and> justified ts r' \<and> grows r r' \<and> (\<forall>i\<in>set is. \<forall>j. i < j \<and> j < length ts \<longrightarrow> settled ts r' i j)"
proof (induction "is" arbitrary: r)
  case Nil
  then show ?case by (simp add: grows_refl)
next
  case (Cons i "is")
  have "\<exists>r1. (if r ! i then Some r else fold_opt (remove_child ancestor ts i) [i + 1..<length ts] r) = Some r1
      \<and> justified ts r1 \<and> grows r r1 \<and> (\<forall>j. i < j \<and> j < length ts \<longrightarrow> settled ts r1 i j)"
    using inner_pass [OF ts Cons.prems(1), of "[i + 1..<length ts]" i] Cons.prems(1)
    by (auto simp: settled_def grows_refl)
  then obtain r1 where r1: "(if r ! i then Some r else fold_opt (remove_child ancestor ts i) [i + 1..<length ts] r) = Some r1"
    "justified ts r1" "grows r r1" "\<forall>j. i < j \<and> j < length ts \<longrightarrow> settled ts r1 i j" by blast
  obtain r2 where r2: "fold_opt (\<lambda>i removed. if removed ! i then Some removed
       else fold_opt (remove_child ancestor ts i) [i + 1..<length ts] removed) is r1 = Some r2"
      "justified ts r2" "grows r1 r2" "\<forall>i\<in>set is. \<forall>j. i < j \<and> j < length ts \<longrightarrow> settled ts r2 i j"
    using Cons.IH [OF r1(2)] Cons.prems(2) by auto
  have len: "length r1 = length ts" using r1(2) by (simp add: justified_def)
  have "\<forall>j. i < j \<and> j < length ts \<longrightarrow> settled ts r2 i j"
    using settled_grows [OF _ r2(3)] r1(4) len by auto
  then show ?case using r1(1) r2 grows_trans [OF r1(3) r2(3)] by simp
qed

text \<open>After the first pass every target has a kept one above it, and of the kept ones none is above another.\<close>

lemma first_pass_spec:
  assumes ts: "\<forall>t\<in>set ts. target t"
  obtains r where "first_pass ancestor ts (replicate (length ts) False) = Some r" "length r = length ts"
    "\<And>k. k < length ts \<Longrightarrow> \<exists>m<length ts. \<not> r ! m \<and> below (ts ! m) (ts ! k)"
    "\<And>i j. i < length ts \<Longrightarrow> j < length ts \<Longrightarrow> \<not> r ! i \<Longrightarrow> \<not> r ! j \<Longrightarrow> i \<noteq> j \<Longrightarrow> \<not> below (ts ! i) (ts ! j)"
proof -
  have "justified ts (replicate (length ts) False)" by (simp add: justified_def)
  from outer_pass [OF ts this, of "[0..<length ts]"] obtain r where r:
    "first_pass ancestor ts (replicate (length ts) False) = Some r" "justified ts r"
    "\<forall>i<length ts. \<forall>j. i < j \<and> j < length ts \<longrightarrow> settled ts r i j" by (auto simp: first_pass_def)
  have covered: "\<exists>m<length ts. \<not> r ! m \<and> below (ts ! m) (ts ! k)" if "k < length ts" for k
    using that
  proof (induction "rank (ts ! k) * length ts + k" arbitrary: k rule: less_induct)
    case less
    show ?case
    proof (cases "r ! k")
      case False
      then show ?thesis using less.prems below_refl ts by force
    next
      case True
      then obtain m where m: "m < length ts" "below (ts ! m) (ts ! k)" "ts ! m \<noteq> ts ! k \<or> m < k"
        using r(2) less.prems by (auto simp: justified_def)
      have "rank (ts ! m) * length ts + m < rank (ts ! k) * length ts + k"
      proof (cases "ts ! m = ts ! k")
        case False
        then have "Suc (rank (ts ! m)) \<le> rank (ts ! k)" using below_rank ts m(1,2) less.prems by (simp add: Suc_le_eq)
        then have "Suc (rank (ts ! m)) * length ts \<le> rank (ts ! k) * length ts" by (rule mult_le_mono1)
        then show ?thesis using m(1) by simp
      qed (use m(3) in auto)
      then obtain n where "n < length ts" "\<not> r ! n" "below (ts ! n) (ts ! m)" using less.hyps m(1) by blast
      then show ?thesis using below_trans [of "ts ! n" "ts ! m" "ts ! k"] ts m less.prems by (metis nth_mem)
    qed
  qed
  have anti: "\<not> below (ts ! i) (ts ! j)" if "i < length ts" "j < length ts" "\<not> r ! i" "\<not> r ! j" "i \<noteq> j" for i j
    using r(3) that by (metis settled_def linorder_neqE_nat)
  show thesis using that [OF r(1) _ covered anti] r(2) by (simp add: justified_def)
qed

lemma kept_targets_set: "length r = length ts \<Longrightarrow> set (kept_targets r ts) = {ts ! k | k. k < length ts \<and> \<not> r ! k}"
  by (auto simp: kept_targets_def set_zip image_iff; force)

text \<open>The kept targets, without the common ancestor.\<close>

lemma second_pass_nth:
  assumes "length r = length ts"
  shows "length (second_pass p ts r) = length ts
    \<and> (\<forall>k<length ts. second_pass p ts r ! k \<longleftrightarrow> r ! k \<or> ts ! k = p)"
proof -
  have "length (fold (\<lambda>i removed. if ts ! i = p \<and> \<not> removed ! i then removed[i := True] else removed) [0..<n] r) = length ts
    \<and> (\<forall>k<length ts. fold (\<lambda>i removed. if ts ! i = p \<and> \<not> removed ! i then removed[i := True] else removed) [0..<n] r ! k
        \<longleftrightarrow> r ! k \<or> ts ! k = p \<and> k < n)" if "n \<le> length ts" for n
    using that assms by (induction n) (auto simp: nth_list_update less_Suc_eq)
  from this [of "length ts"] show ?thesis by (simp add: second_pass_def)
qed

lemma distinct_kept:
  "length r = length ts \<Longrightarrow> (\<And>i j. i < length ts \<Longrightarrow> j < length ts \<Longrightarrow> \<not> r ! i \<Longrightarrow> \<not> r ! j \<Longrightarrow> i \<noteq> j \<Longrightarrow> ts ! i \<noteq> ts ! j)
    \<Longrightarrow> distinct (kept_targets r ts)"
proof (induction r ts rule: list_induct2)
  case (Cons x r t ts)
  have "distinct (kept_targets r ts)"
  proof (rule Cons.IH)
    fix i j assume "i < length ts" "j < length ts" "\<not> r ! i" "\<not> r ! j" "i \<noteq> j"
    then show "ts ! i \<noteq> ts ! j" using Cons.prems [of "Suc i" "Suc j"] by simp
  qed
  moreover have "t \<notin> set (kept_targets r ts)" if "\<not> x"
  proof
    assume "t \<in> set (kept_targets r ts)"
    then obtain k where "k < length ts" "\<not> r ! k" "t = ts ! k" using Cons.hyps by (auto simp: kept_targets_set)
    then show False using Cons.prems [of 0 "Suc k"] that by simp
  qed
  ultimately show ?case by (simp add: kept_targets_def)
qed (simp add: kept_targets_def)

lemma condense_spec:
  assumes ts: "\<forall>t\<in>set ts. target t" and p: "\<forall>t\<in>set ts. below p t"
  obtains kept where "condense ancestor True p ts = Some kept" "set kept \<subseteq> set ts - {p}" "distinct kept"
    "p \<in> set ts \<Longrightarrow> kept = []" "\<And>t. p \<notin> set ts \<Longrightarrow> t \<in> set ts \<Longrightarrow> \<exists>k\<in>set kept. below k t"
    "\<And>a b. a \<in> set kept \<Longrightarrow> b \<in> set kept \<Longrightarrow> a \<noteq> b \<Longrightarrow> \<not> below a b"
proof -
  obtain r where r: "first_pass ancestor ts (replicate (length ts) False) = Some r" "length r = length ts"
    and covered: "\<And>k. k < length ts \<Longrightarrow> \<exists>m<length ts. \<not> r ! m \<and> below (ts ! m) (ts ! k)"
    and anti: "\<And>i j. i < length ts \<Longrightarrow> j < length ts \<Longrightarrow> \<not> r ! i \<Longrightarrow> \<not> r ! j \<Longrightarrow> i \<noteq> j \<Longrightarrow> \<not> below (ts ! i) (ts ! j)"
    using first_pass_spec [OF ts] by blast
  let ?r = "second_pass p ts r"
  have r': "length ?r = length ts" "\<And>k. k < length ts \<Longrightarrow> ?r ! k \<longleftrightarrow> r ! k \<or> ts ! k = p"
    using second_pass_nth [OF r(2), of p] by auto
  define kept where "kept = kept_targets ?r ts"
  have set_kept: "set kept = {ts ! k | k. k < length ts \<and> \<not> r ! k \<and> ts ! k \<noteq> p}"
    using r' by (auto simp: kept_def kept_targets_set)
  have "condense ancestor True p ts = Some kept" by (simp add: condense_def r(1) kept_def)
  moreover have "set kept \<subseteq> set ts - {p}" by (auto simp: set_kept)
  moreover have "distinct kept"
    unfolding kept_def using r'(1)
  proof (rule distinct_kept)
    fix i j assume "i < length ts" "j < length ts" "\<not> ?r ! i" "\<not> ?r ! j" "i \<noteq> j"
    then show "ts ! i \<noteq> ts ! j" using anti [of i j] r'(2) below_refl ts by (metis nth_mem)
  qed
  moreover have "kept = []" if pin: "p \<in> set ts"
  proof (rule ccontr)
    assume "kept \<noteq> []"
    then obtain k where k: "k < length ts" "\<not> r ! k" "ts ! k \<noteq> p" using set_kept by (cases kept) auto
    obtain i where i: "i < length ts" "ts ! i = p" using pin by (auto simp: in_set_conv_nth)
    then obtain m where m: "m < length ts" "\<not> r ! m" "below (ts ! m) p" using covered [of i] by auto
    have "ts ! m = p"
    proof (rule ccontr)
      assume ne: "ts ! m \<noteq> p"
      have "target p" "target (ts ! m)" "below p (ts ! m)" using ts p pin m(1) by auto
      then have "rank (ts ! m) < rank p" "rank p < rank (ts ! m)" using below_rank m(3) ne by auto
      then show False by simp
    qed
    then have "m \<noteq> k" "below (ts ! m) (ts ! k)" using k p by auto
    then show False using anti m k by blast
  qed
  moreover have "\<exists>k\<in>set kept. below k t" if tp: "p \<notin> set ts" "t \<in> set ts" for t
  proof -
    obtain k where "k < length ts" "ts ! k = t" using tp(2) by (auto simp: in_set_conv_nth)
    then obtain m where "m < length ts" "\<not> r ! m" "below (ts ! m) t" using covered by blast
    moreover from this(1) have "ts ! m \<noteq> p" using tp(1) by auto
    ultimately show ?thesis unfolding set_kept by blast
  qed
  moreover have "\<not> below a b" if "a \<in> set kept" "b \<in> set kept" "a \<noteq> b" for a b
    using that anti unfolding set_kept by blast
  ultimately show thesis using that by blast
qed

end

text \<open>Absolute canonical dirents.\<close>

definition abs_dirent :: "cstring \<Rightarrow> bool" where
  "abs_dirent d \<longleftrightarrow> svn_dirent_is_absolute d \<and> svn_dirent_is_canonical d \<and> no_nul d"

lemma abs_direntE:
  assumes "abs_dirent d"
  obtains ss where "d = dirent_of True ss" "list_all ok_seg ss" "no_nul (path_of ss)"
proof -
  obtain a ss where d: "list_all ok_seg ss" "d = dirent_of a ss"
    using assms by (auto simp: abs_dirent_def dirent_is_canonical_iff)
  then have "a" using assms rooted_dirent_of [of ss a] by (simp add: abs_dirent_def svn_dirent_is_absolute_def)
  then show thesis using that d assms by (auto simp: abs_dirent_def no_nul_def dirent_of_def)
qed

lemma abs_dirent_of: "list_all ok_seg ss \<Longrightarrow> abs_dirent (dirent_of True ss) \<longleftrightarrow> no_nul (path_of ss)"
proof -
  assume ss: "list_all ok_seg ss"
  then have "svn_dirent_is_canonical (dirent_of True ss)" by (auto simp: dirent_is_canonical_iff)
  then show ?thesis using ss by (simp add: abs_dirent_def svn_dirent_is_absolute_def) (simp add: dirent_of_def no_nul_def)
qed

lemma dirent_is_ancestor_of:
  "list_all ok_seg ss \<Longrightarrow> list_all ok_seg ts \<Longrightarrow> no_nul (path_of ts) \<Longrightarrow>
    svn_dirent_is_ancestor (dirent_of a ss) (dirent_of b ts) \<longleftrightarrow> a = b \<and> prefix ss ts"
  by (simp add: svn_dirent_is_ancestor_def dirent_skip_ancestor_of)

lemma common_prefix_iff: "longest_common_prefix ss ts = ss \<longleftrightarrow> prefix ss ts"
  by (metis longest_common_prefix_max_prefix longest_common_prefix_prefix1 longest_common_prefix_prefix2
    prefix_order.antisym prefix_order.refl)

lemma common_prefix_iff2: "longest_common_prefix ss ts = ts \<longleftrightarrow> prefix ts ss"
  by (metis longest_common_prefix_max_prefix longest_common_prefix_prefix1 longest_common_prefix_prefix2
    prefix_order.antisym prefix_order.refl)

lemma ok_common_prefix: "list_all ok_seg ss \<Longrightarrow> list_all ok_seg (longest_common_prefix ss ts)"
  using longest_common_prefix_prefix1 [of ss ts] unfolding prefix_def by (metis list_all_append)

interpretation dirent_anc:
  ancestor_function "\<lambda>a b. Some (svn_dirent_get_longest_ancestor a b)" svn_dirent_is_ancestor abs_dirent length
proof unfold_locales
  fix a b assume "abs_dirent a" "abs_dirent b"
  then obtain ss ts where "a = dirent_of True ss" "list_all ok_seg ss" "no_nul (path_of ss)"
    "b = dirent_of True ts" "list_all ok_seg ts" "no_nul (path_of ts)" by (metis abs_direntE)
  then show "\<exists>c. Some (svn_dirent_get_longest_ancestor a b) = Some c
      \<and> (svn_dirent_is_ancestor a b \<longleftrightarrow> c = a \<and> c \<noteq> []) \<and> (svn_dirent_is_ancestor b a \<longleftrightarrow> c = b \<and> c \<noteq> [])"
    using ok_common_prefix [of ss ts]
    by (auto simp: dirent_longest_ancestor_of dirent_is_ancestor_of common_prefix_iff [of ss ts, symmetric]
        common_prefix_iff2 [of ss ts, symmetric]
      dest: dirent_of_inj [rotated 2])
next
  fix a assume "abs_dirent a"
  then show "svn_dirent_is_ancestor a a" by (metis abs_direntE dirent_is_ancestor_of prefix_order.refl)
next
  fix a b c assume "abs_dirent a" "abs_dirent b" "abs_dirent c" and ab: "svn_dirent_is_ancestor a b" "svn_dirent_is_ancestor b c"
  then obtain ss ts us where "a = dirent_of True ss" "list_all ok_seg ss" "b = dirent_of True ts" "list_all ok_seg ts"
    "c = dirent_of True us" "list_all ok_seg us" "no_nul (path_of ts)" "no_nul (path_of us)" by (metis abs_direntE)
  then show "svn_dirent_is_ancestor a c" using ab by (auto simp: dirent_is_ancestor_of)
next
  fix a b assume "svn_dirent_is_ancestor a b" "a \<noteq> b"
  then have "is_prefix a b" by (auto simp: svn_dirent_is_ancestor_def svn_dirent_skip_ancestor_def Let_def split: if_splits)
  then show "length a < length b" using \<open>a \<noteq> b\<close> by (auto simp: is_prefix_iff)
qed

lemma dirent_longest_abs:
  assumes "abs_dirent a" and "abs_dirent b"
  shows "abs_dirent (svn_dirent_get_longest_ancestor a b)
    \<and> (\<forall>c. abs_dirent c \<longrightarrow> svn_dirent_is_ancestor c (svn_dirent_get_longest_ancestor a b)
        \<longleftrightarrow> svn_dirent_is_ancestor c a \<and> svn_dirent_is_ancestor c b)"
proof -
  obtain ss ts where s: "a = dirent_of True ss" "list_all ok_seg ss" "no_nul (path_of ss)"
    and t: "b = dirent_of True ts" "list_all ok_seg ts" "no_nul (path_of ts)" using assms by (metis abs_direntE)
  let ?cs = "longest_common_prefix ss ts"
  have c: "list_all ok_seg ?cs" "no_nul (path_of ?cs)"
    using ok_common_prefix [OF s(2)] s(3) longest_common_prefix_prefix1 [of ss ts] set_mono_prefix
    by (auto simp: no_nul_path_of; fast)+
  have "prefix us ?cs \<longleftrightarrow> prefix us ss \<and> prefix us ts" for us
    by (meson longest_common_prefix_max_prefix longest_common_prefix_prefix1 longest_common_prefix_prefix2 prefix_order.trans)
  then show ?thesis
    using s t c by (auto simp: dirent_longest_ancestor_of abs_dirent_of dirent_is_ancestor_of elim!: abs_direntE)
qed

lemma foldl_longest:
  "\<forall>t\<in>set (t0 # ts). abs_dirent t \<Longrightarrow> abs_dirent (foldl svn_dirent_get_longest_ancestor t0 ts)
    \<and> (\<forall>c. abs_dirent c \<longrightarrow> svn_dirent_is_ancestor c (foldl svn_dirent_get_longest_ancestor t0 ts)
        \<longleftrightarrow> (\<forall>t\<in>set (t0 # ts). svn_dirent_is_ancestor c t))"
proof (induction ts arbitrary: t0)
  case (Cons t ts)
  have "\<forall>t\<in>set (svn_dirent_get_longest_ancestor t0 t # ts). abs_dirent t" using Cons.prems dirent_longest_abs by auto
  from Cons.IH [OF this] show ?case using Cons.prems dirent_longest_abs [of t0 t] by auto
qed simp

text \<open>A kept dirent is the common one joined with what is returned for it.\<close>

lemma join_rel_item:
  assumes "abs_dirent p" and "abs_dirent t" and "svn_dirent_is_ancestor p t"
  shows "svn_dirent_join p (dirent_rel_item p t) = t \<and> svn_dirent_is_canonical (dirent_rel_item p t)"
proof -
  obtain ss ts where s: "p = dirent_of True ss" "list_all ok_seg ss"
    and t: "t = dirent_of True ts" "list_all ok_seg ts" "no_nul (path_of ts)" using assms by (metis abs_direntE)
  then obtain us where us: "ts = ss @ us" using assms(3) by (auto simp: dirent_is_ancestor_of prefix_def)
  then have ok: "list_all ok_seg us" using t by simp
  have "dirent_rel_item p t = dirent_of False us"
    using s us path_of_nonempty [OF ok] path_of_nonempty [OF s(2)]
    by (cases "ss = []"; cases "us = []")
      (auto simp: dirent_rel_item_def t(1) dirent_of_def svn_dirent_is_root_def path_of_append)
  moreover have "svn_dirent_join p (dirent_of False us) = t" using dirent_join_of [OF s(2) ok, of True False] s us t by simp
  ultimately show ?thesis using ok by (auto simp: dirent_is_canonical_iff)
qed

text \<open>Making a dirent absolute.\<close>

lemma dirent_canonicalize_eq:
  "svn_dirent_canonicalize d =
     (if char_at d 0 = slash then dirent_of True (filter ok_seg (segs (tl d))) else dirent_of False (filter ok_seg (segs d)))"
  by (simp add: svn_dirent_canonicalize_def canonicalize_spec dirent_of_def)

lemma no_nul_segs: "no_nul p \<Longrightarrow> s \<in> set (segs p) \<Longrightarrow> no_nul s"
  using no_nul_path_of [of "segs p"] by (auto simp: path_of_segs)

lemma canonicalize_abs_dirent:
  assumes "char_at d 0 = slash" and "no_nul d"
  shows "abs_dirent (svn_dirent_canonicalize d)"
proof -
  have "no_nul (tl d)" using assms(2) by (cases d) (auto simp: no_nul_def)
  then have "no_nul (path_of (filter ok_seg (segs (tl d))))" by (auto simp: no_nul_path_of no_nul_segs)
  then show ?thesis using assms(1) abs_dirent_of by (simp add: dirent_canonicalize_eq)
qed

text \<open>
  What \<open>apr_filepath_merge\<close> with \<open>APR_FILEPATH_NOTRELATIVE\<close> promises: the path it returns, in UTF-8, is
  absolute; and it is a C string.
\<close>

definition platform_ok :: "platform \<Rightarrow> bool" where
  "platform_ok pf \<longleftrightarrow>
     (\<forall>relative path_apr buffer d. no_nul relative \<and> svn_path_cstring_from_utf8 pf relative = Inr path_apr
        \<and> pf_merge pf path_apr = Some buffer \<and> svn_path_cstring_to_utf8 pf buffer = Inr d
        \<longrightarrow> char_at d 0 = slash \<and> no_nul d)"

lemma get_absolute_abs_dirent:
  assumes "platform_ok pf" and "no_nul rel" and "svn_dirent_get_absolute pf rel = Inr d"
  shows "abs_dirent d"
proof -
  obtain path_apr where p: "svn_path_cstring_from_utf8 pf rel = Inr path_apr"
    using assms(3) by (auto simp: svn_dirent_get_absolute_def)
  show ?thesis
  proof (cases "pf_merge pf path_apr")
    case None
    then show ?thesis using assms(2,3) p by (auto simp: svn_dirent_get_absolute_def abs_dirent_def split: if_splits)
  next
    case (Some buffer)
    then obtain u where u: "svn_path_cstring_to_utf8 pf buffer = Inr u" "d = svn_dirent_canonicalize u"
      using assms(3) p by (auto simp: svn_dirent_get_absolute_def)
    then have "char_at u 0 = slash \<and> no_nul u" using assms(1,2) p Some unfolding platform_ok_def by blast
    then show ?thesis using canonicalize_abs_dirent u(2) by simp
  qed
qed

text \<open>A platform with UTF-8 paths and a working directory.\<close>

definition unix_platform :: "cstring \<Rightarrow> platform" where
  "unix_platform cwd = \<lparr>pf_darwin = False, pf_encoding = Inr Encoding_utf8, pf_from_utf8 = Inr, pf_to_utf8 = Inr,
     pf_merge = (\<lambda>p. Some (if char_at p 0 = slash then p else cwd @ slash # p))\<rparr>"

lemma unix_platform_ok:
  assumes "char_at cwd 0 = slash" and "no_nul cwd"
  shows "platform_ok (unix_platform cwd)"
  using assms by (cases cwd)
    (auto simp: platform_ok_def unix_platform_def svn_path_cstring_from_utf8_def svn_path_cstring_to_utf8_def
      get_path_encoding_def no_nul_def)

text \<open>C25. Condensing at least two targets, each of which could be made absolute: the first value is their
  longest common ancestor, an absolute canonical dirent. Without removal of redundancies the second is
  the targets relative to it. With redundancies removed it is the empty list if the common ancestor is
  itself a target; otherwise it is some of the targets, without repetition, every target is one of them
  or below one, and none of them is below another. The platform promises that what it makes absolute
  is absolute.\<close>

theorem dirent_condense_correct:
  assumes "length targets \<ge> 2" and "platform_ok pf"
    and "\<forall>t\<in>set targets. no_nul t \<and> svn_dirent_get_absolute pf t = Inr (f t)"
  shows "\<exists>p condensed. svn_dirent_condense_targets pf targets remove_redundancies = Inr (Some (p, condensed))
    \<and> abs_dirent p \<and> (\<forall>c. abs_dirent c \<longrightarrow> svn_dirent_is_ancestor c p \<longleftrightarrow> (\<forall>t\<in>set targets. svn_dirent_is_ancestor c (f t)))
    \<and> (let kept = map (svn_dirent_join p) condensed in
       if \<not> remove_redundancies then kept = map f targets
       else if p \<in> f ` set targets then kept = []
       else set kept \<subseteq> f ` set targets \<and> distinct kept \<and> (\<forall>t\<in>set targets. \<exists>k\<in>set kept. svn_dirent_is_ancestor k (f t))
         \<and> (\<forall>a\<in>set kept. \<forall>b\<in>set kept. a \<noteq> b \<longrightarrow> \<not> svn_dirent_is_ancestor a b))"
proof -
  have fabs: "\<forall>t\<in>set targets. abs_dirent (f t)" using get_absolute_abs_dirent [OF assms(2)] assms(3) by blast
  have trav: "traverse (svn_dirent_get_absolute pf) targets = Inr (map f targets)" using assms(3) by (induction targets) auto
  define ts where "ts = map f targets"
  define p where "p = foldl svn_dirent_get_longest_ancestor (hd ts) (tl ts)"
  have ne: "ts \<noteq> []" and hd_tl: "hd ts # tl ts = ts" using assms(1) by (cases targets; auto simp: ts_def)+
  have abs: "\<forall>t\<in>set ts. abs_dirent t" using fabs by (auto simp: ts_def)
  have p: "abs_dirent p" "\<forall>c. abs_dirent c \<longrightarrow> svn_dirent_is_ancestor c p \<longleftrightarrow> (\<forall>t\<in>set ts. svn_dirent_is_ancestor c t)"
    using foldl_longest [of "hd ts" "tl ts"] abs unfolding p_def hd_tl by simp_all
  then have below: "\<forall>t\<in>set ts. svn_dirent_is_ancestor p t" using dirent_anc.below_refl by blast
  have run: "svn_dirent_condense_targets pf targets rr = Inr (map_option (\<lambda>kept. (p, map (dirent_rel_item p) kept))
      (condense (\<lambda>a b. Some (svn_dirent_get_longest_ancestor a b)) rr p ts))" for rr
    using assms(1) trav by (cases targets; cases "List.tl targets") (auto simp: svn_dirent_condense_targets_def p_def ts_def Let_def)
  have rejoin: "map (svn_dirent_join p) (map (dirent_rel_item p) kept) = kept" if "set kept \<subseteq> set ts" for kept
    using that join_rel_item [OF p(1)] abs below by (induction kept) auto
  show ?thesis
  proof (cases remove_redundancies)
    case False
    have all: "kept_targets (replicate (length us) False) us = us" for us by (induction us) (auto simp: kept_targets_def)
    then have "svn_dirent_condense_targets pf targets remove_redundancies = Inr (Some (p, map (dirent_rel_item p) ts))"
      using False run by (simp add: condense_def)
    then show ?thesis using p rejoin [of ts] False by (auto simp: ts_def)
  next
    case True
    obtain kept where kept: "condense (\<lambda>a b. Some (svn_dirent_get_longest_ancestor a b)) True p ts = Some kept"
      "set kept \<subseteq> set ts - {p}" "distinct kept" "p \<in> set ts \<Longrightarrow> kept = []"
      "\<And>t. p \<notin> set ts \<Longrightarrow> t \<in> set ts \<Longrightarrow> \<exists>k\<in>set kept. svn_dirent_is_ancestor k t"
      "\<And>a b. a \<in> set kept \<Longrightarrow> b \<in> set kept \<Longrightarrow> a \<noteq> b \<Longrightarrow> \<not> svn_dirent_is_ancestor a b"
      using dirent_anc.condense_spec [OF abs below] by blast
    have "svn_dirent_condense_targets pf targets remove_redundancies = Inr (Some (p, map (dirent_rel_item p) kept))"
      using True run kept(1) by simp
    moreover have "map (svn_dirent_join p) (map (dirent_rel_item p) kept) = kept" using rejoin kept(2) by blast
    ultimately show ?thesis
      using p kept(2-6) True by (intro exI [of _ p] exI [of _ "map (dirent_rel_item p) kept"]) (auto simp: ts_def Let_def)
  qed
qed

theorem dirent_condense_correct_witness:
  "svn_dirent_condense_targets (unix_platform ''/a'') [''b/c'', ''/a/b'', ''./d'', ''/a/b''] True
      = Inr (Some (''/a'', [''b'', ''d''])) \<and> abs_dirent ''/a''"
proof -
  let ?pf = "unix_platform ''/a''"
  have run: "svn_dirent_condense_targets ?pf [''b/c'', ''/a/b'', ''./d'', ''/a/b''] True = Inr (Some (''/a'', [''b'', ''d'']))"
    by code_simp
  have ok: "platform_ok ?pf" by (rule unix_platform_ok) (simp_all add: no_nul_def)
  have "no_nul ''b/c'' \<and> svn_dirent_get_absolute ?pf ''b/c'' = Inr ''/a/b/c''"
    "no_nul ''/a/b'' \<and> svn_dirent_get_absolute ?pf ''/a/b'' = Inr ''/a/b''"
    "no_nul ''./d'' \<and> svn_dirent_get_absolute ?pf ''./d'' = Inr ''/a/d''" by code_simp+
  then show ?thesis
    using dirent_condense_correct [of "[''b/c'', ''/a/b'', ''./d'', ''/a/b'']" ?pf "\<lambda>t. projr (svn_dirent_get_absolute ?pf t)" True]
      run ok by force
qed

text \<open>
  \<open>svn_dirent_uri.h\<close> says that only descendants of another target are left out: a target that is the
  common ancestor itself is left out as well, so that nothing remains for it.
\<close>

lemma condense_drops_common_target:
  "svn_dirent_condense_targets (unix_platform ''/wd'') [''/a'', ''/a/b''] True = Inr (Some (''/a'', []))
    \<and> svn_dirent_condense_targets (unix_platform ''/wd'') [''/a'', ''/a/b''] False = Inr (Some (''/a'', [[], ''b'']))"
  by code_simp

text \<open>An absolute canonical dirent without \<open>..\<close> is absolute as it is.\<close>

lemma slash_no_url: "char_at p 0 = slash \<Longrightarrow> \<not> svn_path_is_url p"
  by (cases p) (auto simp: svn_path_is_url_def skip_uri_scheme_def)

lemma dirent_canonicalize_id:
  assumes "svn_dirent_is_canonical d" and "char_at d 0 = slash"
  shows "svn_dirent_canonicalize d = d"
proof -
  obtain p where p: "d = slash # p" "relpath_is_canonical p"
    using assms by (cases d) (auto simp: svn_dirent_is_canonical_def)
  then show ?thesis
    using relpath_canonicalize_id [OF p(2)] by (simp add: dirent_canonicalize_eq relpath_canonicalize_eq dirent_of_def)
qed

lemma get_absolute_id:
  assumes "svn_dirent_is_canonical d" and "char_at d 0 = slash" and "\<not> svn_path_is_backpath_present d"
    and "svn_path_cstring_from_utf8 pf d = Inr native" and "svn_path_cstring_to_utf8 pf native = Inr d"
    and "pf_merge pf native = Some native \<or> pf_merge pf native = None"
  shows "svn_dirent_get_absolute pf d = Inr d"
  using assms slash_no_url [OF assms(2)] dirent_canonicalize_id [OF assms(1,2)]
  by (auto simp: svn_dirent_get_absolute_def svn_assert_def svn_dirent_is_absolute_def)

text \<open>C28. Let a dirent be absolute, canonical and without a \<open>..\<close> segment, and let the platform convert it to
  its encoding and back, and \<open>apr_filepath_merge\<close>, as it does with such a path, return it unchanged or
  fail. Then the file URL made from it is canonical, and the dirent made from the URL is the dirent
  again.\<close>

theorem file_url_roundtrip:
  assumes "svn_dirent_is_canonical dirent" and "char_at dirent 0 = slash" and "no_nul dirent"
    and "\<not> svn_path_is_backpath_present dirent"
    and "svn_path_cstring_from_utf8 pf dirent = Inr native" and "svn_path_cstring_to_utf8 pf native = Inr dirent"
    and "pf_merge pf native = Some native \<or> pf_merge pf native = None"
  shows "\<exists>url. svn_uri_get_file_url_from_dirent pf dirent = Inr url \<and> svn_uri_is_canonical url
    \<and> svn_uri_get_dirent_from_file_url url = Inr dirent"
proof -
  note abs = get_absolute_id [OF assms(1,2,4-7)]
  obtain d where d: "dirent = slash # d" "relpath_is_canonical d" "no_nul d"
    using assms(1,2,3) by (cases dirent) (auto simp: svn_dirent_is_canonical_def no_nul_def)
  then obtain ss where ss: "d = path_of ss" "list_all ok_seg ss" by (auto elim: canonical_relpath_cases)
  show ?thesis
  proof (cases "ss = []")
    case True
    have "svn_uri_is_canonical ''file://''" "svn_uri_get_dirent_from_file_url ''file://'' = Inr [slash]" by code_simp+
    moreover have "svn_path_uri_encode [slash] = [slash]" by code_simp
    ultimately show ?thesis
      using True ss d abs by (simp add: svn_uri_get_file_url_from_dirent_def)
  next
    case False
    let ?e = "svn_path_uri_encode (path_of ss)"
    have enc: "svn_path_uri_encode dirent = slash # ?e" by (simp add: d ss escape_slash)
    have ne: "?e \<noteq> []" using path_of_nonempty [OF ss(2) False] by (simp add: svn_path_uri_encode_def)
    have nn: "NUL \<notin> set ?e"
    proof -
      have "no_nul (uri_escape p svn_uri_char_validity)" if "no_nul p" for p
        using that by (induction p) (auto simp: no_nul_def percent_hex_chars)
      then show ?thesis using d(3) ss(1) by (simp add: no_nul_def svn_path_uri_encode_def)
    qed
    then have "char_at ?e 0 \<noteq> NUL" using ne by (cases ?e) auto
    then have url: "svn_uri_get_file_url_from_dirent pf dirent = Inr (''file:///'' @ ?e)"
      by (simp add: svn_uri_get_file_url_from_dirent_def abs enc)
    have can: "svn_uri_is_canonical (''file:///'' @ ?e)" by (rule file_uri_canonical [OF ss(2) False])
    have "svn_path_uri_decode (slash # ?e) = slash # path_of ss"
      using uri_encode_decode [OF assms(3)] by (simp only: enc) (simp add: d ss)
    then have "svn_uri_get_dirent_from_file_url (''file:///'' @ ?e) = Inr dirent"
      unfolding svn_uri_get_dirent_from_file_url_def using can
      by (simp add: svn_assert_def is_prefix_def Let_def d ss)
    then show ?thesis using url can by blast
  qed
qed

text \<open>Applied to a dirent with a blank, a percent sign and a letter beyond ASCII.\<close>

theorem file_url_roundtrip_witness:
  "\<exists>url. svn_uri_get_file_url_from_dirent (unix_platform ''/wd'') ''/a b/%c'' = Inr url \<and> svn_uri_is_canonical url
    \<and> svn_uri_get_dirent_from_file_url url = Inr ''/a b/%c''"
proof (rule file_url_roundtrip)
  show "svn_path_cstring_from_utf8 (unix_platform ''/wd'') ''/a b/%c'' = Inr ''/a b/%c''" by code_simp
qed (code_simp+)

text \<open>A canonical relative path as a dirent.\<close>

lemma dirent_of_relative: "dirent_of False ss = path_of ss" by (simp add: dirent_of_def)

lemma no_nul_dirent_of: "no_nul (dirent_of a ss) \<longleftrightarrow> no_nul (path_of ss)"
  by (simp add: dirent_of_def no_nul_def)

text \<open>C38. Joining dirents gives a canonical dirent, skipping an ancestor undoes it, a dirent is an ancestor
  exactly if something can be joined to it, and what a dirent is split into joins to the dirent.
\<close>

theorem dirent_join_split:
  assumes "svn_dirent_is_canonical base" and "relpath_is_canonical component" and "no_nul base" and "no_nul component"
  shows "(let d = svn_dirent_join base component in
      svn_dirent_is_canonical d \<and> svn_dirent_skip_ancestor base d = Some component)
    \<and> (\<forall>parent r. svn_dirent_is_canonical parent \<longrightarrow> svn_dirent_skip_ancestor parent base = Some r
        \<longrightarrow> relpath_is_canonical r \<and> svn_dirent_join parent r = base)
    \<and> (case svn_dirent_split base of (dir, name) \<Rightarrow>
        svn_dirent_join dir name = base \<and> svn_dirent_is_canonical dir \<and> slash \<notin> set name)"
proof -
  obtain a ss where s: "list_all ok_seg ss" "base = dirent_of a ss" using assms(1) by (auto simp: dirent_is_canonical_iff)
  obtain ts where t: "component = path_of ts" "list_all ok_seg ts" using assms(2) by (rule canonical_relpath_cases)
  have nn: "no_nul (path_of ss)" using assms(3) s(2) by (simp add: no_nul_dirent_of)
  have st: "list_all ok_seg (ss @ ts)" "no_nul (path_of (ss @ ts))"
    using s t nn assms(4) by (auto simp: no_nul_path_of)
  have join: "svn_dirent_join base component = dirent_of a (ss @ ts)"
    using dirent_join_of [OF s(1) t(2), of a False] s t by (simp add: dirent_of_relative)
  have "svn_dirent_is_canonical (dirent_of a (ss @ ts))" using st(1) dirent_is_canonical_iff by blast
  moreover have "svn_dirent_skip_ancestor base (dirent_of a (ss @ ts)) = Some component"
    using dirent_skip_ancestor_of [OF s(1) st, of a a] s t by simp
  moreover have "relpath_is_canonical r \<and> svn_dirent_join parent r = base"
    if parent: "svn_dirent_is_canonical parent" "svn_dirent_skip_ancestor parent base = Some r" for parent r
  proof -
    obtain b us where u: "list_all ok_seg us" "parent = dirent_of b us" using parent(1) by (auto simp: dirent_is_canonical_iff)
    have "b = a \<and> prefix us ss \<and> r = path_of (drop (length us) ss)"
      using parent(2) dirent_skip_ancestor_of [OF u(1) s(1) nn, of b a] u(2) s(2) by (simp split: if_splits)
    then obtain vs where v: "b = a" "ss = us @ vs" "r = path_of vs" by (auto simp: prefix_def)
    then show ?thesis
      using dirent_join_of [OF u(1), of vs b False] u s by (simp add: dirent_of_relative canonical_path_of)
  qed
  moreover have "case svn_dirent_split base of (dir, name) \<Rightarrow>
        svn_dirent_join dir name = base \<and> svn_dirent_is_canonical dir \<and> slash \<notin> set name"
  proof (cases ss rule: rev_cases)
    case Nil
    then show ?thesis
      using s assms(1) by (simp add: svn_dirent_split_def dirent_dirname_of dirent_basename_of)
  next
    case (snoc us x)
    then have ok: "list_all ok_seg us" "list_all ok_seg [x]" "slash \<notin> set x" using s(1) by (auto simp: ok_seg_def)
    have "svn_dirent_join (dirent_of a us) x = dirent_of a (us @ [x])"
      using dirent_join_of [OF ok(1,2), of a False] by (simp add: dirent_of_relative)
    then show ?thesis
      using s snoc ok by (auto simp: svn_dirent_split_def dirent_dirname_of dirent_basename_of dirent_is_canonical_iff)
  qed
  ultimately show ?thesis by (simp add: join)
qed

theorem dirent_join_split_witness:
  "(let d = svn_dirent_join ''/usr/lib'' ''svn/x'' in
      svn_dirent_is_canonical d \<and> svn_dirent_skip_ancestor ''/usr/lib'' d = Some ''svn/x'')
    \<and> svn_dirent_join ''/usr'' ''lib'' = ''/usr/lib''"
proof -
  have "svn_dirent_is_canonical ''/usr/lib''" "relpath_is_canonical ''svn/x''" "no_nul ''/usr/lib''" "no_nul ''svn/x''"
    and "svn_dirent_join ''/usr'' ''lib'' = ''/usr/lib''" by code_simp+
  then show ?thesis using dirent_join_split [of "''/usr/lib''" "''svn/x''"] by blast
qed

text \<open>C26. Joining a canonical base and canonical components, fewer than ten of them not empty, is joining one
  after the other, with one exception: if the base is empty and they would join to a dirent of a single
  character, the result is \<open>/\<close>, whatever the character. Joined one after the other they are a
  canonical dirent.\<close>

theorem dirent_join_many_correct:
  assumes "svn_dirent_is_canonical base" and "\<forall>s\<in>set args. svn_dirent_is_canonical s"
    and "length (filter (\<lambda>s. s \<noteq> []) args) < 10"
  shows "svn_dirent_join_many base args
      = Some (if base = [] \<and> length (foldl svn_dirent_join base args) = 1 then [slash]
              else foldl svn_dirent_join base args)
    \<and> svn_dirent_is_canonical (foldl svn_dirent_join base args)"
proof -
  have join: "svn_dirent_is_canonical (svn_dirent_join d s)"
    if ds: "svn_dirent_is_canonical d" "svn_dirent_is_canonical s" for d s
  proof -
    obtain a ss where s: "list_all ok_seg ss" "d = dirent_of a ss" using ds(1) by (auto simp: dirent_is_canonical_iff)
    obtain b ts where t: "list_all ok_seg ts" "s = dirent_of b ts" using ds(2) by (auto simp: dirent_is_canonical_iff)
    have "list_all ok_seg (ss @ ts)" using s(1) t(1) by simp
    then show ?thesis using dirent_join_of [OF s(1) t(1), of a b] s t dirent_is_canonical_iff by metis
  qed
  have "svn_dirent_is_canonical d \<Longrightarrow> \<forall>s\<in>set args. svn_dirent_is_canonical s \<Longrightarrow>
      svn_dirent_is_canonical (foldl svn_dirent_join d args)" for d
    by (induction args arbitrary: d) (auto simp: join)
  then show ?thesis using dirent_join_many_spec [OF assms] assms by simp
qed

theorem dirent_join_many_correct_witness:
  "svn_dirent_join_many ''/repo'' [''db'', [], ''revs'', ''0''] = Some ''/repo/db/revs/0''
    \<and> svn_dirent_is_canonical ''/repo/db/revs/0'' \<and> svn_dirent_join_many [] [''a''] = Some ''/''"
proof -
  have "svn_dirent_join_many [] [''a''] = Some ''/''"
    using dirent_join_many_correct [of "[]" "[''a'']"]
    by (simp add: svn_dirent_join_def svn_dirent_is_absolute_def) code_simp
  moreover
  have "foldl svn_dirent_join ''/repo'' [''db'', [], ''revs'', ''0''] = ''/repo/db/revs/0''" by code_simp
  moreover have "svn_dirent_is_canonical ''/repo''" "\<forall>s\<in>set [''db'', [], ''revs'', ''0'']. svn_dirent_is_canonical s"
    by code_simp+
  ultimately show ?thesis
    using dirent_join_many_correct [of "''/repo''" "[''db'', [], ''revs'', ''0'']"] by (simp only:) simp
qed

text \<open>An empty base and a component of one letter; a tenth component is stored behind the array.\<close>

theorem dirent_join_many_defects:
  "svn_dirent_join_many [] [''a''] = Some ''/'' \<and> svn_dirent_join [] ''a'' = ''a''
    \<and> svn_dirent_join_many ''a'' (replicate 9 ''b'') = Some ''a/b/b/b/b/b/b/b/b/b''
    \<and> svn_dirent_join_many ''a'' (replicate 10 ''b'') = None"
  by code_simp

section \<open>Components of paths\<close>

lemma compose_rest: "compose_loop_from (Suc (Suc i)) rooted ss = concat (map (Cons slash) ss)"
  by (induction ss arbitrary: i) auto

lemma compose_rest1: "compose_loop_from (Suc 0) False ss = concat (map (Cons slash) ss)"
  by (cases ss) (simp_all add: compose_rest)

lemma path_of_concat: "path_of (s # ss) = s @ concat (map (Cons slash) ss)"
  by (induction ss arbitrary: s) auto

lemma decompose_loop_segs: "decompose_loop c p = map decomposed ((c @ hd (segs p)) # tl (segs p))"
proof (induction c p rule: decompose_loop.induct)
  case (2 component c path)
  then show ?case by (cases "segs path") auto
qed simp

lemma decompose_ok:
  assumes "list_all ok_seg ss" and "ss \<noteq> []"
  shows "decompose_loop [] (path_of ss) = ss"
proof -
  have "map decomposed ss = ss"
    using assms(1) by (induction ss) (auto simp: ok_seg_def decomposed_def)
  then show ?thesis using assms by (simp add: decompose_loop_segs segs_of_ok)
qed

text \<open>Composing the components a canonical path decomposes into gives the path, and they are its segments.\<close>

theorem path_decompose_compose:
  assumes "svn_dirent_is_canonical path"
  shows "svn_path_compose (svn_path_decompose path) = path
    \<and> (\<forall>c\<in>set (svn_path_decompose path). svn_path_is_single_path_component c \<or> c = [slash] \<or> c = [dot, dot])
    \<and> svn_path_decompose path = (if path \<noteq> [] \<and> hd path = slash then [[slash]] else []) @ filter ok_seg (segs path)"
proof -
  obtain rooted ss where s: "list_all ok_seg ss" "path = dirent_of rooted ss"
    using assms by (auto simp: dirent_is_canonical_iff)
  have c0: "ss \<noteq> [] \<Longrightarrow> path_of ss \<noteq> [] \<and> hd (path_of ss) \<noteq> slash" using path_of_nonempty hd_path_of s(1) by auto
  have dec: "svn_path_decompose path = (if rooted then [[slash]] else []) @ ss"
  proof (cases "ss = []")
    case False
    then show ?thesis
      using decompose_ok [OF s(1) False] c0 by (auto simp: svn_path_decompose_def s(2) dirent_of_def)
  qed (auto simp: svn_path_decompose_def s(2) dirent_of_def)
  have "svn_path_compose ((if rooted then [[slash]] else []) @ ss) = path"
  proof (cases ss)
    case Nil
    then show ?thesis by (simp add: s(2) dirent_of_def svn_path_compose_def)
  next
    case (Cons t ts)
    then have "t \<noteq> [slash]" using s(1) by (auto simp: ok_seg_def)
    then show ?thesis
      using Cons by (simp add: s(2) dirent_of_def svn_path_compose_def compose_rest compose_rest1 path_of_concat)
  qed
  moreover have "\<forall>c\<in>set ss. svn_path_is_single_path_component c \<or> c = [dot, dot]"
    using s(1) by (auto simp: list_all_iff ok_seg_def svn_path_is_single_path_component_def)
  moreover have "filter ok_seg (segs path) = ss"
  proof (cases "ss = []")
    case False
    have "filter ok_seg ss = ss" using s(1) by (simp add: filter_id_conv list_all_iff)
    then show ?thesis
      using segs_of_ok [OF s(1) False] by (cases rooted) (simp_all add: s(2) dirent_of_def ok_seg_def)
  qed (simp add: s(2) dirent_of_def ok_seg_def)
  moreover have "path \<noteq> [] \<and> hd path = slash \<longleftrightarrow> rooted"
    using c0 by (cases "ss = []") (auto simp: s(2) dirent_of_def)
  ultimately show ?thesis using dec by auto
qed

theorem path_decompose_compose_witness:
  "svn_path_compose (svn_path_decompose ''/usr/../lib'') = ''/usr/../lib''
    \<and> svn_path_decompose ''/usr/../lib'' = [''/'', ''usr'', ''..'', ''lib'']"
proof -
  have "svn_dirent_is_canonical ''/usr/../lib''" "svn_path_decompose ''/usr/../lib'' = [''/'', ''usr'', ''..'', ''lib'']"
    by code_simp+
  then show ?thesis using path_decompose_compose by blast
qed

end
