(* ===== verification/Catalog_Prefix.thy ===== *)
theory Catalog_Prefix
  imports Svn_Dirents Mergeinfo
begin

text \<open>
  Prefixes of the paths of a catalog (\<open>libsvn_subr/mergeinfo.c\<close>): putting one before all paths and taking
  it off again.
\<close>

definition svn_mergeinfo_add_prefix_to_catalog :: "mergeinfo_catalog \<Rightarrow> cstring \<Rightarrow> mergeinfo_catalog" where
  "svn_mergeinfo_add_prefix_to_catalog in_catalog prefix_path =
     fold (\<lambda>(original_path, val) out_catalog.
       let original_path = (if char_at original_path 0 = slash then tl original_path else original_path)
       in apr_hash_set out_catalog (svn_dirent_join prefix_path original_path) val) in_catalog []"

lemma update_fresh: "key \<notin> fst ` set ht \<Longrightarrow> apr_hash_set ht key val = ht @ [(key, val)]"
  by (induction ht) auto

lemma fold_fresh:
  "distinct (map f (map fst ht)) \<Longrightarrow> f ` fst ` set ht \<inter> fst ` set out = {} \<Longrightarrow>
    fold (\<lambda>(key, val) out. apr_hash_set out (f key) val) ht out = out @ map (\<lambda>(key, val). (f key, val)) ht"
proof (induction ht arbitrary: out)
  case (Cons e ht)
  obtain k v where e: "e = (k, v)" by fastforce
  have "apr_hash_set out (f k) v = out @ [(f k, v)]" using Cons.prems(2) e by (intro update_fresh) auto
  moreover have "fold (\<lambda>(key, val) out. apr_hash_set out (f key) val) ht (out @ [(f k, v)])
      = (out @ [(f k, v)]) @ map (\<lambda>(key, val). (f key, val)) ht"
    by (rule Cons.IH) (use Cons.prems e in \<open>auto simp: image_iff\<close>)
  ultimately show ?case using e by simp
qed simp

lemma fold_result_fresh:
  "(\<And>key val. (key, val) \<in> set ht \<Longrightarrow> g key = Some (f key)) \<Longrightarrow>
    fold_result (\<lambda>(key, val) out. case g key of None \<Rightarrow> Inl Assertion_fail | Some k \<Rightarrow> Inr (apr_hash_set out k val)) ht out
    = Inr (fold (\<lambda>(key, val) out. apr_hash_set out (f key) val) ht out)"
proof (induction ht arbitrary: out)
  case (Cons e ht)
  obtain k v where e: "e = (k, v)" by fastforce
  have "g k = Some (f k)" using Cons.prems [of k v] e by simp
  moreover have "fold_result (\<lambda>(key, val) out. case g key of None \<Rightarrow> Inl Assertion_fail | Some k \<Rightarrow> Inr (apr_hash_set out k val))
      ht (apr_hash_set out (f k) v) = Inr (fold (\<lambda>(key, val) out. apr_hash_set out (f key) val) ht (apr_hash_set out (f k) v))"
    by (rule Cons.IH) (use Cons.prems in auto)
  ultimately show ?case using e by simp
qed simp

text \<open>Prefixing the paths of a catalog and taking the prefix off again gives the catalog back, entry for
  entry, for canonical relative paths.
\<close>

theorem catalog_prefix_roundtrip:
  assumes "hash_ok cat" and "\<forall>key\<in>fst ` set cat. relpath_is_canonical key \<and> no_nul key" and "ok_path prefix_path"
  shows "svn_mergeinfo_add_prefix_to_catalog cat prefix_path = map (\<lambda>(key, val). (svn_fspath_join prefix_path key, val)) cat
    \<and> svn_mergeinfo_remove_prefix_from_catalog (svn_mergeinfo_add_prefix_to_catalog cat prefix_path) prefix_path = Inr cat"
proof -
  obtain ss where p: "prefix_path = fspath_of ss" "list_all ok_seg ss" "no_nul (path_of ss)"
    using assms(3) by (rule ok_path_cases)
  let ?f = "svn_fspath_join prefix_path"
  have key: "char_at key 0 \<noteq> slash" "svn_dirent_join prefix_path key = ?f key"
    "svn_fspath_skip_ancestor prefix_path (?f key) = Some key" if key_in: "key \<in> fst ` set cat" for key
  proof -
    have can: "relpath_is_canonical key" "no_nul key" using assms(2) key_in by blast+
    then obtain ts where t: "key = path_of ts" "list_all ok_seg ts" "no_nul (path_of ts)"
      by (auto elim: canonical_relpath_cases)
    show "char_at key 0 \<noteq> slash" using char_at_path_of [OF t(2)] t(1) by simp
    have "dirent_of True ss = prefix_path" by (simp add: p(1) dirent_of_def fspath_of_def)
    then show "svn_dirent_join prefix_path key = ?f key"
      using dirent_join_of [OF p(2) t(2), of True False] fspath_join_of [OF p(2) t(2) p(3) t(3)] t(1) p(1)
      by (simp add: dirent_of_def fspath_of_def)
    show "svn_fspath_skip_ancestor prefix_path (?f key) = Some key"
      using fspath_join_of [OF p(2) t(2) p(3) t(3)] fspath_skip_ancestor_of [OF p(2), of "ss @ ts"] p t
      by (simp add: no_nul_path_of ball_Un)
  qed
  have inj: "inj_on ?f (fst ` set cat)" using key(3) by (metis inj_onI option.inject)
  have cong: "fold (\<lambda>(original_path, val) out_catalog.
       let original_path = (if char_at original_path 0 = slash then tl original_path else original_path)
       in apr_hash_set out_catalog (svn_dirent_join prefix_path original_path) val) ht out
     = fold (\<lambda>(key, val) out. apr_hash_set out (?f key) val) ht out" if "set ht \<subseteq> set cat" for ht out
    using that
  proof (induction ht arbitrary: out)
    case (Cons e ht)
    obtain k v where e: "e = (k, v)" by fastforce
    then have "k \<in> fst ` set cat" using Cons.prems by force
    then show ?case using Cons key [of k] e by simp
  qed simp
  have add: "svn_mergeinfo_add_prefix_to_catalog cat prefix_path = map (\<lambda>(key, val). (?f key, val)) cat"
  proof -
    have "distinct (map ?f (map fst cat))" unfolding distinct_map [of ?f] using assms(1) inj by simp
    from fold_fresh [OF this, of "[]"] show ?thesis
      unfolding svn_mergeinfo_add_prefix_to_catalog_def cong [OF order.refl] by simp
  qed
  have "svn_mergeinfo_remove_prefix_from_catalog (map (\<lambda>(key, val). (?f key, val)) cat) prefix_path
      = Inr (map (\<lambda>(key, val). (the (svn_fspath_skip_ancestor prefix_path key), val)) (map (\<lambda>(key, val). (?f key, val)) cat))"
  proof -
    let ?g = "\<lambda>key. the (svn_fspath_skip_ancestor prefix_path key)" and ?cat = "map (\<lambda>(key, val). (?f key, val)) cat"
    have fsts: "map ?g (map fst ?cat) = map fst cat" using key(3) by (auto simp: case_prod_beta)
    have "char_at prefix_path 0 = slash" by (simp add: p(1) fspath_of_def)
    moreover have "fold (\<lambda>(key, val) out. apr_hash_set out (?g key) val) ?cat [] = [] @ map (\<lambda>(key, val). (?g key, val)) ?cat"
      by (rule fold_fresh) (simp_all only: fsts assms(1), simp)
    moreover have "\<And>key val. (key, val) \<in> set ?cat \<Longrightarrow> svn_fspath_skip_ancestor prefix_path key = Some (?g key)"
      using key(3) by force
    ultimately show ?thesis
      using fold_result_fresh [of ?cat "svn_fspath_skip_ancestor prefix_path" ?g "[]"]
      by (simp add: svn_mergeinfo_remove_prefix_from_catalog_def)
  qed
  moreover have "map (\<lambda>(key, val). (the (svn_fspath_skip_ancestor prefix_path key), val)) (map (\<lambda>(key, val). (?f key, val)) cat) = cat"
    using key(3) by (simp add: case_prod_beta map_idI comp_def)
  ultimately show ?thesis using add by simp
qed

theorem catalog_prefix_roundtrip_witness:
  "svn_mergeinfo_remove_prefix_from_catalog
     (svn_mergeinfo_add_prefix_to_catalog [(''lib'', []), ([], []), (''a/b'', [])] ''/trunk'') ''/trunk''
   = Inr [(''lib'', []), ([], []), (''a/b'', [])]"
proof -
  have "\<forall>key\<in>fst ` set [(''lib'', [] :: mergeinfo), ([], []), (''a/b'', [])]. relpath_is_canonical key \<and> no_nul key"
    "ok_path ''/trunk''" by code_simp+
  moreover have "hash_ok [(''lib'', [] :: mergeinfo), ([], []), (''a/b'', [])]" by simp
  ultimately show ?thesis using catalog_prefix_roundtrip by blast
qed

end
