(* ===== verification/Path_Driver.thy ===== *)
theory Path_Driver
  imports Svn_Dirents
begin

text \<open>
  The path driver (\<open>libsvn_delta/path_driver.c\<close>): it drives an editor over a set of paths, opening and closing the
  directories between them. Editor and callback are arguments, and may fail. The locale
  \<open>edit_receiver\<close> is the contract of a receiver: an invariant that its functions keep when they are called by the
  protocol of an editor drive (\<open>edit_step\<close>, \<open>edit_run\<close>). The driver is proved once for all receivers, and the
  contract is discharged for a receiver that keeps a log of its calls, whatever editor it wraps.
\<close>

section \<open>Calls to an editor\<close>

text \<open>
  A function of an editor changes the state of its receiver and returns an error or a value. A baton is a
  pointer, \<open>None\<close> is \<open>NULL\<close>. The driver's own steps are \<open>None\<close> where the code reads outside its data.
\<close>

type_synonym ('s, 'a) edit_call = "'s \<Rightarrow> (svn_err + 'a) \<times> 's"

type_synonym ('s, 'a) drive = "'s \<Rightarrow> ((svn_err + 'a) \<times> 's) option"

definition drive_return :: "'a \<Rightarrow> ('s, 'a) drive" where
  "drive_return x s = Some (Inr x, s)"

definition drive_bind :: "('s, 'a) drive \<Rightarrow> ('a \<Rightarrow> ('s, 'b) drive) \<Rightarrow> ('s, 'b) drive" where
  "drive_bind m f s =
     (case m s of None \<Rightarrow> None | Some (Inl e, s') \<Rightarrow> Some (Inl e, s') | Some (Inr x, s') \<Rightarrow> f x s')"

definition drive_assert :: "bool \<Rightarrow> ('s, unit) drive" where
  "drive_assert b s = Some (if b then Inr () else Inl Assertion_fail, s)"

definition drive_call :: "('s, 'a) edit_call \<Rightarrow> ('s, 'a) drive" where
  "drive_call m s = Some (m s)"

definition drive_read :: "'a option \<Rightarrow> ('s, 'a) drive" where
  "drive_read v s = map_option (\<lambda>x. (Inr x, s)) v"

lemma drive_bind_cong [fundef_cong]:
  assumes "m = m'" and "\<And>x s s'. m' s = Some (Inr x, s') \<Longrightarrow> f x = f' x"
  shows "drive_bind m f = drive_bind m' f'"
  using assms by (auto simp: drive_bind_def fun_eq_iff split: option.splits sum.splits)

text \<open>The functions of \<open>svn_delta_editor_t\<close> the driver calls itself.\<close>

record ('s, 'd) delta_editor =
  ed_open_root :: "('s, 'd option) edit_call"
  ed_open_directory :: "cstring \<Rightarrow> 'd option \<Rightarrow> ('s, 'd option) edit_call"
  ed_close_directory :: "'d option \<Rightarrow> ('s, unit) edit_call"

text \<open>\<open>svn_delta_path_driver_cb_func_t\<close>: the parent's baton, the path, and the directory's baton or \<open>NULL\<close>.\<close>

type_synonym ('s, 'd) driver_cb = "'d option \<Rightarrow> cstring \<Rightarrow> ('s, 'd option) edit_call"

section \<open>The driver\<close>

text \<open>\<open>db_stack\<close> is the list of its batons, the last one first.\<close>

definition open_dir ::
    "('s, 'd) delta_editor \<Rightarrow> cstring \<Rightarrow> 'd option list \<Rightarrow> ('s, 'd option list) drive" where
  "open_dir editor path db_stack =
     drive_bind (drive_assert (db_stack \<noteq> [])) (\<lambda>_.
     drive_bind (drive_call (ed_open_directory editor path (hd db_stack))) (\<lambda>db.
     drive_return (db # db_stack)))"

definition pop_stack :: "('s, 'd) delta_editor \<Rightarrow> 'd option list \<Rightarrow> ('s, 'd option list) drive" where
  "pop_stack editor db_stack =
     drive_bind (drive_assert (db_stack \<noteq> [])) (\<lambda>_.
     drive_bind (drive_call (ed_close_directory editor (hd db_stack))) (\<lambda>_.
     drive_return (tl db_stack)))"

text \<open>
  The loop steps over one character and looks for the next slash; on an empty path it steps over the
  NUL.
\<close>

definition count_components :: "cstring \<Rightarrow> nat option" where
  "count_components path =
     (if path = [slash] then Some 0 else if path = [] then None
      else Some (1 + length (filter (\<lambda>c. c = slash) (tl path))))"

fun pop_count :: "('s, 'd) delta_editor \<Rightarrow> nat \<Rightarrow> 'd option list \<Rightarrow> ('s, 'd option list) drive" where
  "pop_count editor 0 db_stack = drive_return db_stack"
| "pop_count editor (Suc n) db_stack = drive_bind (pop_stack editor db_stack) (pop_count editor n)"

text \<open>The directories between the common ancestor and \<open>pdir\<close>, from \<open>piece\<close> on; \<open>pre\<close> is what is before it.\<close>

lemma rest_shorter: "dropWhile P xs \<noteq> [] \<Longrightarrow> length (tl (dropWhile P xs)) < length xs"
  using length_dropWhile_le [of P xs] by (cases "dropWhile P xs") auto

function open_pieces ::
    "('s, 'd) delta_editor \<Rightarrow> cstring \<Rightarrow> cstring \<Rightarrow> 'd option list \<Rightarrow> ('s, 'd option list) drive" where
  "open_pieces editor pre piece db_stack =
     drive_bind (open_dir editor (pre @ takeWhile unslash piece) db_stack) (\<lambda>db_stack.
       let rest = dropWhile unslash piece in
       if rest \<noteq> [] then open_pieces editor (pre @ takeWhile unslash piece @ [slash]) (tl rest) db_stack
       else drive_return db_stack)"
  by pat_completeness auto
termination
  by (relation "measure (\<lambda>(_, _, piece, _). length piece)") (auto intro!: rest_shorter simp del: length_tl)

declare open_pieces.simps [simp del]

text \<open>
  The loop over the paths; \<open>last_path\<close> is \<open>None\<close> in the first iteration. Reading the top of an empty
  stack is outside the array.
\<close>

definition driver_common :: "cstring option \<Rightarrow> cstring \<Rightarrow> cstring" where
  "driver_common last_path path =
     (case last_path of
        None \<Rightarrow> []
      | Some last_path \<Rightarrow>
          if char_at last_path 0 = slash then svn_fspath_get_longest_ancestor last_path path
          else svn_relpath_get_longest_ancestor last_path path)"

definition close_dirs ::
    "('s, 'd) delta_editor \<Rightarrow> cstring option \<Rightarrow> nat \<Rightarrow> 'd option list \<Rightarrow> ('s, 'd option list) drive" where
  "close_dirs editor last_path common_len db_stack =
     (case last_path of
        None \<Rightarrow> drive_return db_stack
      | Some last_path \<Rightarrow>
          if length last_path > common_len
          then drive_bind (drive_read (count_components (drop (if common_len > 0 then common_len + 1 else 0) last_path)))
                 (\<lambda>n. pop_count editor n db_stack)
          else drive_return db_stack)"

definition open_dirs ::
    "('s, 'd) delta_editor \<Rightarrow> cstring \<Rightarrow> nat \<Rightarrow> 'd option list \<Rightarrow> ('s, 'd option list) drive" where
  "open_dirs editor pdir common_len db_stack =
     (if length pdir > common_len
      then open_pieces editor (take (common_len + 1) pdir) (drop (common_len + 1) pdir) db_stack
      else drive_return db_stack)"

fun drive_paths ::
    "('s, 'd) delta_editor \<Rightarrow> ('s, 'd) driver_cb \<Rightarrow> cstring list \<Rightarrow> cstring option \<Rightarrow> 'd option list
      \<Rightarrow> ('s, 'd option list) drive" where
  "drive_paths editor callback_func [] last_path db_stack = drive_return db_stack"
| "drive_paths editor callback_func (path # paths) last_path db_stack =
     (let common_len = length (driver_common last_path path);
          pdir = fst (if char_at path 0 = slash then svn_fspath_split path else svn_relpath_split path) in
      drive_bind (close_dirs editor last_path common_len db_stack) (\<lambda>db_stack.
      drive_bind (open_dirs editor pdir common_len db_stack) (\<lambda>db_stack.
      drive_bind (drive_read (if db_stack = [] then None else Some (hd db_stack))) (\<lambda>parent_db.
      drive_bind (drive_call (callback_func parent_db path)) (\<lambda>db.
      drive_paths editor callback_func paths (Some (if db \<noteq> None then path else pdir))
        (if db \<noteq> None then db # db_stack else db_stack))))))"

fun pop_all :: "('s, 'd) delta_editor \<Rightarrow> 'd option list \<Rightarrow> ('s, unit) drive" where
  "pop_all editor [] = drive_return ()"
| "pop_all editor (db # db_stack) =
     drive_bind (pop_stack editor (db # db_stack)) (\<lambda>_. pop_all editor db_stack)"

definition svn_delta_path_driver2 ::
    "('s, 'd) delta_editor \<Rightarrow> cstring list \<Rightarrow> bool \<Rightarrow> ('s, 'd) driver_cb \<Rightarrow> ('s, unit) drive" where
  "svn_delta_path_driver2 editor paths sort_paths callback_func =
     (if paths = [] then drive_return ()
      else let paths = (if sort_paths \<and> length paths > 1 then qsort svn_sort_compare_paths paths else paths) in
        drive_bind
          (if hd paths = []
           then drive_bind (drive_call (callback_func None (hd paths)))
                  (\<lambda>db. drive_return (db, Some (hd paths), tl paths))
           else drive_bind (drive_call (ed_open_root editor)) (\<lambda>db. drive_return (db, None, paths)))
          (\<lambda>(db, last_path, paths).
             drive_bind (drive_paths editor callback_func paths last_path [db]) (pop_all editor)))"

section \<open>The protocol of an editor drive\<close>

text \<open>
  What a receiver may rely on: directories are opened and closed like a stack, and a directory or target is
  handled with the baton of its parent directory. \<open>None\<close> is before the root is opened; the stack
  holds each open directory with its baton.
\<close>

datatype 'd edit_event =
    Open_root "'d option"
  | Open_directory cstring "'d option" "'d option"
  | Close_directory "'d option"
  | Path_callback cstring "'d option" "'d option"

type_synonym 'd open_dirs = "(cstring \<times> 'd option) list"

inductive edit_step :: "'d open_dirs option \<Rightarrow> 'd edit_event \<Rightarrow> 'd open_dirs option \<Rightarrow> bool" where
  root: "edit_step None (Open_root db) (Some [([], db)])"
| root_target: "edit_step None (Path_callback [] None db) (Some [([], db)])"
| open_child: "path \<noteq> [] \<Longrightarrow> svn_relpath_dirname path = parent \<Longrightarrow>
    edit_step (Some ((parent, parent_db) # dirs)) (Open_directory path parent_db db)
      (Some ((path, db) # (parent, parent_db) # dirs))"
| close: "edit_step (Some ((path, db) # dirs)) (Close_directory db) (Some dirs)"
| target_dir: "path \<noteq> [] \<Longrightarrow> svn_relpath_dirname path = parent \<Longrightarrow>
    edit_step (Some ((parent, parent_db) # dirs)) (Path_callback path parent_db (Some db))
      (Some ((path, Some db) # (parent, parent_db) # dirs))"
| target_file: "path \<noteq> [] \<Longrightarrow> svn_relpath_dirname path = parent \<Longrightarrow>
    edit_step (Some ((parent, parent_db) # dirs)) (Path_callback path parent_db None) (Some ((parent, parent_db) # dirs))"

inductive edit_run :: "'d open_dirs option \<Rightarrow> 'd edit_event list \<Rightarrow> 'd open_dirs option \<Rightarrow> bool" where
  edit_run_Nil: "edit_run q [] q"
| edit_run_snoc: "edit_run q events q' \<Longrightarrow> edit_step q' event q'' \<Longrightarrow> edit_run q (events @ [event]) q''"

inductive_cases edit_step_target: "edit_step q (Path_callback path parent_db db) q'"
inductive_cases edit_run_last: "edit_run q (events @ [event]) q'"

code_pred edit_step .

section \<open>What the driver's steps guarantee\<close>

text \<open>\<open>Q\<close> after a value, \<open>E\<close> after an error of the receiver, and no read outside the data.\<close>

definition drive_ok :: "('s, 'a) drive \<Rightarrow> ('a \<Rightarrow> 's \<Rightarrow> bool) \<Rightarrow> ('s \<Rightarrow> bool) \<Rightarrow> 's \<Rightarrow> bool" where
  "drive_ok m Q E s \<longleftrightarrow>
     (case m s of None \<Rightarrow> False | Some (Inl e, s') \<Rightarrow> E s' | Some (Inr x, s') \<Rightarrow> Q x s')"

lemma drive_ok_return [simp]: "drive_ok (drive_return x) Q E = Q x"
  by (simp add: drive_ok_def drive_return_def fun_eq_iff)

lemma drive_ok_bind [simp]: "drive_ok (drive_bind m f) Q E = drive_ok m (\<lambda>x. drive_ok (f x) Q E) E"
  by (simp add: drive_ok_def drive_bind_def fun_eq_iff split: option.split sum.split prod.split)

lemma drive_ok_assert [simp]: "b \<Longrightarrow> drive_ok (drive_assert b) Q E = Q ()"
  by (simp add: drive_ok_def drive_assert_def fun_eq_iff)

lemma drive_ok_read [simp]: "drive_ok (drive_read (Some x)) Q E = Q x"
  by (simp add: drive_ok_def drive_read_def fun_eq_iff)

lemma drive_ok_mono: "drive_ok m Q E s \<Longrightarrow> (\<And>x s. Q x s \<Longrightarrow> Q' x s) \<Longrightarrow> drive_ok m Q' E s"
  by (auto simp: drive_ok_def split: option.splits sum.splits prod.splits)

section \<open>The stack of open directories\<close>

definition chain :: "'d open_dirs \<Rightarrow> cstring list \<Rightarrow> bool" where
  "chain dirs ss \<longleftrightarrow> map fst dirs = map path_of (rev (prefixes ss))"

lemma chain_Nil: "chain dirs [] \<longleftrightarrow> (\<exists>db. dirs = [([], db)])"
  by (auto simp: chain_def)

lemma chain_snoc: "chain dirs (ss @ [x]) \<longleftrightarrow> (\<exists>db rest. dirs = (path_of (ss @ [x]), db) # rest \<and> chain rest ss)"
  by (auto simp: chain_def prefixes_snoc map_eq_Cons_conv)

lemma chain_top: "chain dirs ss \<Longrightarrow> \<exists>db rest. dirs = (path_of ss, db) # rest"
  by (cases ss rule: rev_cases) (auto simp: chain_Nil chain_snoc)

lemma dirname_child: "list_all ok_seg (ss @ [x]) \<Longrightarrow>
    path_of (ss @ [x]) \<noteq> [] \<and> svn_relpath_dirname (path_of (ss @ [x])) = path_of ss"
  using relpath_dirname_basename(1) [of "ss @ [x]"] path_of_nonempty [of "ss @ [x]"] by simp

lemma relpath_longest_ancestor_of:
  assumes ss: "list_all ok_seg ss" and ts: "list_all ok_seg ts"
  shows "svn_relpath_get_longest_ancestor (path_of ss) (path_of ts) = path_of (longest_common_prefix ss ts)"
proof (cases "ss = [] \<or> ts = []")
  case True
  moreover have "longest_common_prefix ss [] = []" by (cases ss) auto
  ultimately show ?thesis
    by (auto simp: svn_relpath_get_longest_ancestor_def get_longest_ancestor_length_def)
next
  case False
  let ?cs = "longest_common_prefix ss ts"
  from False have ne: "ss \<noteq> []" "ts \<noteq> []" "path_of ss \<noteq> []" "path_of ts \<noteq> []" using path_of_nonempty ss ts by auto
  have c0: "char_at (path_of ss) 0 \<noteq> slash" "char_at (path_of ts) 0 \<noteq> slash" using assms by (simp_all add: char_at_path_of)
  obtain k l' where kl: "longest_ancestor_loop (path_of ss) (path_of ts) 0 0 = (0 + k, l')" "length (path_of ?cs) \<le> k"
    "if at_end (path_of ss) (path_of ts) k then k = length (path_of ?cs) \<and> ?cs \<noteq> []
     else l' = (if ?cs = [] then 0 else 0 + length (path_of ?cs))"
    using ancestor_loop_path_of [OF ss ne(1) ts ne(2), of 0 0] by blast
  have "get_longest_ancestor_length Type_relpath (path_of ss) (path_of ts) = length (path_of ?cs)"
    using kl ne(3,4) c0 unfolding get_longest_ancestor_length_def at_end_def [symmetric]
    by (cases "length (path_of ?cs)") (auto split: if_splits)
  then show ?thesis
    using take_path_of_prefix [OF longest_common_prefix_prefix1 [of ss ts]] by (simp add: svn_relpath_get_longest_ancestor_def)
qed

lemma count_path_of: "list_all ok_seg ss \<Longrightarrow> ss \<noteq> [] \<Longrightarrow> count_components (path_of ss) = Some (length ss)"
proof -
  assume ss: "list_all ok_seg ss" "ss \<noteq> []"
  have all: "list_all ok_seg ts \<Longrightarrow> ts \<noteq> [] \<Longrightarrow> Suc (length (filter (\<lambda>c. c = slash) (path_of ts))) = length ts" for ts
  proof (induction ts rule: path_of.induct)
    case (3 s t ts)
    then have "filter (\<lambda>c. c = slash) s = []" by (auto simp: ok_seg_def filter_empty_conv)
    then show ?case using 3 by simp
  qed (auto simp: ok_seg_def filter_empty_conv)
  obtain c p where p: "path_of ss = c # p" "c \<noteq> slash"
    using path_of_nonempty [OF ss] hd_path_of [OF ss] by (cases "path_of ss") auto
  then show ?thesis using all [OF ss] by (simp add: count_components_def)
qed

text \<open>Where the first of the pieces begins does not matter.\<close>

lemma open_pieces_shift:
  "slash \<notin> set x \<Longrightarrow> open_pieces editor (pre @ x) piece db_stack = open_pieces editor pre (x @ piece) db_stack"
proof -
  assume "slash \<notin> set x"
  then have split: "takeWhile unslash (x @ piece) = x @ takeWhile unslash piece" "dropWhile unslash (x @ piece) = dropWhile unslash piece"
    by (auto simp: takeWhile_append dropWhile_append)
  show ?thesis
    unfolding open_pieces.simps [of editor "pre @ x" piece] open_pieces.simps [of editor pre "x @ piece"] split append_assoc ..
qed

section \<open>A receiver of a drive\<close>

text \<open>
  What a receiver promises: each of its functions, called in a state of the protocol, keeps its invariant
  \<open>I\<close>, which speaks of the open directories and of the targets handled so far, or fails with \<open>E\<close>.
\<close>

locale edit_receiver =
  fixes editor :: "('s, 'd) delta_editor" and callback_func :: "('s, 'd) driver_cb"
    and I :: "'d open_dirs option \<Rightarrow> cstring list \<Rightarrow> 's \<Rightarrow> bool" and E :: "'s \<Rightarrow> bool"
  assumes open_root: "I None vis s \<Longrightarrow> drive_ok (drive_call (ed_open_root editor)) (\<lambda>db. I (Some [([], db)]) vis) E s"
    and root_target: "I None vis s \<Longrightarrow> drive_ok (drive_call (callback_func None [])) (\<lambda>db. I (Some [([], db)]) (vis @ [[]])) E s"
    and open_directory: "I (Some ((parent, parent_db) # dirs)) vis s \<Longrightarrow> path \<noteq> [] \<Longrightarrow> svn_relpath_dirname path = parent \<Longrightarrow>
      drive_ok (drive_call (ed_open_directory editor path parent_db)) (\<lambda>db. I (Some ((path, db) # (parent, parent_db) # dirs)) vis) E s"
    and close_directory: "I (Some ((path, db) # dirs)) vis s \<Longrightarrow>
      drive_ok (drive_call (ed_close_directory editor db)) (\<lambda>_. I (Some dirs) vis) E s"
    and target: "I (Some ((parent, parent_db) # dirs)) vis s \<Longrightarrow> path \<noteq> [] \<Longrightarrow> svn_relpath_dirname path = parent \<Longrightarrow>
      drive_ok (drive_call (callback_func parent_db path))
        (\<lambda>db. I (Some (if db \<noteq> None then (path, db) # (parent, parent_db) # dirs else (parent, parent_db) # dirs)) (vis @ [path])) E s"
begin

lemma pop_ok:
  assumes "I (Some ((path, db) # dirs)) vis s" and "\<And>s. I (Some dirs) vis s \<Longrightarrow> Q (map snd dirs) s"
  shows "drive_ok (pop_stack editor (map snd ((path, db) # dirs))) Q E s"
  using drive_ok_mono [OF close_directory [OF assms(1)]] assms(2) by (simp add: pop_stack_def)

lemma pop_count_ok:
  assumes "chain dirs (ss @ ts)" and "I (Some dirs) vis s"
    and "\<And>dirs s. chain dirs ss \<Longrightarrow> I (Some dirs) vis s \<Longrightarrow> Q (map snd dirs) s"
  shows "drive_ok (pop_count editor (length ts) (map snd dirs)) Q E s"
  using assms(1,2)
proof (induction ts arbitrary: dirs s rule: rev_induct)
  case Nil
  then show ?case using assms(3) by simp
next
  case (snoc t ts)
  obtain db rest where d: "dirs = (path_of (ss @ ts @ [t]), db) # rest" "chain rest (ss @ ts)"
    using snoc.prems(1) chain_snoc [of dirs "ss @ ts" t] by auto
  have "drive_ok (pop_stack editor (map snd dirs)) (\<lambda>db_stack. drive_ok (pop_count editor (length ts) db_stack) Q E) E s"
    unfolding d(1) by (rule pop_ok) (use snoc d in auto)
  then show ?case by simp
qed

lemma pop_all_ok:
  assumes "I (Some dirs) vis s"
  shows "drive_ok (pop_all editor (map snd dirs)) (\<lambda>_. I (Some []) vis) E s"
  using assms
proof (induction dirs arbitrary: s)
  case (Cons d dirs)
  obtain path db where d: "d = (path, db)" by fastforce
  have "drive_ok (pop_stack editor (map snd ((path, db) # dirs)))
      (\<lambda>_. drive_ok (pop_all editor (map snd dirs)) (\<lambda>_. I (Some []) vis) E) E s"
    by (rule pop_ok) (use Cons d in auto)
  then show ?case using d by simp
qed simp

lemma open_pieces_ok:
  assumes "list_all ok_seg (cs @ us)" and "us \<noteq> []" and "chain dirs cs" and "I (Some dirs) vis s"
    and "\<And>dirs s. chain dirs (cs @ us) \<Longrightarrow> I (Some dirs) vis s \<Longrightarrow> Q (map snd dirs) s"
  shows "drive_ok (open_pieces editor (if cs = [] then [] else path_of cs @ [slash]) (path_of us) (map snd dirs)) Q E s"
  using assms
proof (induction us arbitrary: cs dirs s)
  case (Cons u us)
  let ?pre = "if cs = [] then [] else path_of cs @ [slash]"
  have u: "slash \<notin> set u" using Cons.prems(1) by (auto simp: ok_seg_def)
  obtain db rest where d: "dirs = (path_of cs, db) # rest" using chain_top [OF Cons.prems(3)] by blast
  have child: "path_of (cs @ [u]) \<noteq> []" "svn_relpath_dirname (path_of (cs @ [u])) = path_of cs"
    using dirname_child [of cs u] Cons.prems(1) by simp_all
  have pre: "?pre @ u = path_of (cs @ [u])" "?pre @ u @ [slash] = path_of (cs @ [u]) @ [slash]"
    by (simp_all add: path_of_append)
  have split: "takeWhile unslash (path_of (u # us)) = u"
    "dropWhile unslash (path_of (u # us)) = (if us = [] then [] else slash # path_of us)"
    using u by (cases us; auto simp: takeWhile_eq_all_conv)+
  have "drive_ok (open_dir editor (path_of (cs @ [u])) (map snd dirs))
      (\<lambda>db_stack. drive_ok (if us \<noteq> [] then open_pieces editor (path_of (cs @ [u]) @ [slash]) (path_of us) db_stack
          else drive_return db_stack) Q E) E s"
  proof -
    have opened: "drive_ok (drive_call (ed_open_directory editor (path_of (cs @ [u])) db))
        (\<lambda>db'. I (Some ((path_of (cs @ [u]), db') # dirs)) vis) E s"
      using open_directory [OF _ child] Cons.prems(4) d by simp
    have rest: "drive_ok (if us \<noteq> [] then open_pieces editor (path_of (cs @ [u]) @ [slash]) (path_of us) (db' # map snd dirs)
          else drive_return (db' # map snd dirs)) Q E s'"
      if "I (Some ((path_of (cs @ [u]), db') # dirs)) vis s'" for db' s'
    proof -
      let ?dirs = "(path_of (cs @ [u]), db') # dirs"
      have c: "chain ?dirs (cs @ [u])" using Cons.prems(3) by (simp add: chain_snoc)
      show ?thesis
      proof (cases "us = []")
        case True
        then show ?thesis using Cons.prems(5) [of ?dirs s'] c that by simp
      next
        case False
        have "drive_ok (open_pieces editor (if cs @ [u] = [] then [] else path_of (cs @ [u]) @ [slash]) (path_of us) (map snd ?dirs)) Q E s'"
          by (rule Cons.IH) (use Cons.prems False c that in auto)
        then show ?thesis using False by simp
      qed
    qed
    have "drive_ok (drive_call (ed_open_directory editor (path_of (cs @ [u])) db))
        (\<lambda>db'. drive_ok (if us \<noteq> [] then open_pieces editor (path_of (cs @ [u]) @ [slash]) (path_of us) (db' # map snd dirs)
          else drive_return (db' # map snd dirs)) Q E) E s"
      by (rule drive_ok_mono [OF opened rest])
    then have "drive_ok (open_dir editor (path_of (cs @ [u])) (db # map snd rest))
        (\<lambda>db_stack. drive_ok (if us \<noteq> [] then open_pieces editor (path_of (cs @ [u]) @ [slash]) (path_of us) db_stack
          else drive_return db_stack) Q E) E s"
      unfolding d list.map snd_conv by (simp add: open_dir_def)
    then show ?thesis unfolding d by simp
  qed
  then show ?case
    unfolding open_pieces.simps [of editor ?pre] drive_ok_bind split pre
    by (rule drive_ok_mono) (auto simp: Let_def)
qed simp

end

context edit_receiver begin

lemma close_dirs_ok:
  assumes "list_all ok_seg (cs @ rs)" and "last_path = Some (path_of (cs @ rs)) \<or> last_path = None \<and> rs = []"
    and "chain dirs (cs @ rs)" and "I (Some dirs) vis s"
    and "\<And>dirs s. chain dirs cs \<Longrightarrow> I (Some dirs) vis s \<Longrightarrow> Q (map snd dirs) s"
  shows "drive_ok (close_dirs editor last_path (length (path_of cs)) (map snd dirs)) Q E s"
proof (cases "rs = []")
  case True
  then show ?thesis using assms by (auto simp: close_dirs_def)
next
  case False
  have ok: "list_all ok_seg cs" "list_all ok_seg rs" using assms(1) by simp_all
  have len: "length (path_of cs) < length (path_of (cs @ rs))"
    using False path_of_nonempty [OF ok(2) False] by (cases "cs = []") (auto simp: path_of_append)
  have rel: "drop (if length (path_of cs) > 0 then length (path_of cs) + 1 else 0) (path_of (cs @ rs)) = path_of rs"
    using False path_of_nonempty [OF ok(1)] by (cases "cs = []") (auto simp: path_of_append)
  have "drive_ok (pop_count editor (length rs) (map snd dirs)) Q E s"
    by (rule pop_count_ok [OF assms(3,4)]) (rule assms(5))
  moreover have "close_dirs editor (Some (path_of (cs @ rs))) (length (path_of cs)) db_stack
      = drive_bind (drive_read (Some (length rs))) (\<lambda>n. pop_count editor n db_stack)" for db_stack
    unfolding close_dirs_def option.case rel count_path_of [OF ok(2) False] using len by simp
  ultimately show ?thesis using assms(2) False by auto
qed

lemma open_dirs_ok:
  assumes "list_all ok_seg (cs @ us)" and "chain dirs cs" and "I (Some dirs) vis s"
    and "\<And>dirs s. chain dirs (cs @ us) \<Longrightarrow> I (Some dirs) vis s \<Longrightarrow> Q (map snd dirs) s"
  shows "drive_ok (open_dirs editor (path_of (cs @ us)) (length (path_of cs)) (map snd dirs)) Q E s"
proof (cases "us = []")
  case True
  then show ?thesis using assms by (auto simp: open_dirs_def)
next
  case False
  have ok: "list_all ok_seg us" using assms(1) by simp
  have pieces: "drive_ok (open_pieces editor (if cs = [] then [] else path_of cs @ [slash]) (path_of us) (map snd dirs)) Q E s"
    by (rule open_pieces_ok [OF assms(1) False assms(2,3)]) (rule assms(4))
  have len: "length (path_of cs) < length (path_of (cs @ us))"
    using False path_of_nonempty [OF ok False] by (cases "cs = []") (auto simp: path_of_append)
  show ?thesis
  proof (cases "cs = []")
    case True
    obtain c p where p: "path_of us = c # p" "slash \<notin> set [c]"
      using path_of_nonempty [OF ok False] hd_path_of [OF ok False] by (cases "path_of us") auto
    have "drive_ok (open_pieces editor ([] @ [c]) p (map snd dirs)) Q E s"
      unfolding open_pieces_shift [OF p(2)] using pieces True p(1) by simp
    then show ?thesis using True p(1) by (simp add: open_dirs_def)
  next
    case cs: False
    then show ?thesis using pieces len False by (simp add: open_dirs_def path_of_append)
  qed
qed

lemma drive_paths_ok:
  assumes "\<forall>ts\<in>set tss. list_all ok_seg ts" and "successively (\<lambda>a b. \<not> prefix b a) tss"
    and "tss \<noteq> [] \<Longrightarrow> \<not> prefix (hd tss) ls" and "list_all ok_seg ls"
    and "last_path = Some (path_of ls) \<or> last_path = None \<and> ls = []" and "chain dirs ls" and "I (Some dirs) vis s"
  shows "drive_ok (drive_paths editor callback_func (map path_of tss) last_path (map snd dirs))
    (\<lambda>db_stack s. \<exists>dirs. db_stack = map snd dirs \<and> I (Some dirs) (vis @ map path_of tss) s) E s"
  using assms
proof (induction tss arbitrary: ls last_path dirs vis s)
  case Nil
  then show ?case by auto
next
  case (Cons ts tss)
  have ok: "list_all ok_seg ts" and nls: "\<not> prefix ts ls" using Cons.prems by auto
  then have ne: "ts \<noteq> []" by auto
  define cs where "cs = longest_common_prefix ls ts"
  obtain rs where rs: "ls = cs @ rs" using longest_common_prefix_prefix1 [of ls ts] by (auto simp: cs_def prefix_def)
  obtain t us where us: "ts = cs @ us @ [t]"
  proof -
    obtain zs where zs: "ts = cs @ zs" using longest_common_prefix_prefix2 [of ls ts] by (auto simp: cs_def prefix_def)
    have "zs \<noteq> []" using zs nls rs by auto
    then show thesis using that [of "butlast zs" "last zs"] zs by simp
  qed
  have okd: "list_all ok_seg (cs @ us)" "list_all ok_seg (cs @ rs)" using ok us Cons.prems(4) rs by simp_all
  have common: "driver_common last_path (path_of ts) = path_of cs"
  proof (cases last_path)
    case None
    then have "cs = []" using Cons.prems(5) by (simp add: cs_def)
    then show ?thesis using None by (simp add: driver_common_def)
  next
    case (Some lp)
    then show ?thesis
      using Cons.prems(5) relpath_longest_ancestor_of [OF Cons.prems(4) ok] char_at_path_of [OF Cons.prems(4)]
      by (simp add: driver_common_def cs_def)
  qed
  have dir: "fst (if char_at (path_of ts) 0 = slash then svn_fspath_split (path_of ts) else svn_relpath_split (path_of ts))
      = path_of (cs @ us)"
    using char_at_path_of [OF ok] relpath_dirname_basename(1) [OF ok] us by (simp add: svn_relpath_split_def butlast_append)
  have child: "path_of ts \<noteq> []" "svn_relpath_dirname (path_of ts) = path_of (cs @ us)"
    using dirname_child [of "cs @ us" t] ok us by simp_all
  have step: "drive_ok (drive_call (callback_func db (path_of ts)))
      (\<lambda>db'. drive_ok (drive_paths editor callback_func (map path_of tss) (Some (if db' \<noteq> None then path_of ts else path_of (cs @ us)))
          (if db' \<noteq> None then db' # map snd dirs' else map snd dirs'))
        (\<lambda>db_stack s. \<exists>dirs. db_stack = map snd dirs \<and> I (Some dirs) (vis @ map path_of (ts # tss)) s) E) E s'"
    if dirs': "chain dirs' (cs @ us)" "I (Some dirs') vis s'" "dirs' = (path_of (cs @ us), db) # rest" for dirs' db rest s'
  proof (rule drive_ok_mono)
    show "drive_ok (drive_call (callback_func db (path_of ts)))
      (\<lambda>db'. I (Some (if db' \<noteq> None then (path_of ts, db') # dirs' else dirs')) (vis @ [path_of ts])) E s'"
      using target [OF _ child, of db rest vis s'] dirs'(2) unfolding dirs'(3) by simp
  next
    fix db' s'' assume I: "I (Some (if db' \<noteq> None then (path_of ts, db') # dirs' else dirs')) (vis @ [path_of ts]) s''"
    have next_ts: "\<not> prefix (hd tss) ts" "\<not> prefix (hd tss) (cs @ us)" if "tss \<noteq> []"
    proof -
      show n: "\<not> prefix (hd tss) ts" using Cons.prems(2) that by (cases tss) auto
      have "prefix (cs @ us) ts" by (simp add: us)
      then show "\<not> prefix (hd tss) (cs @ us)" using n prefix_order.trans by blast
    qed
    have chn: "chain ((path_of ts, db') # dirs') ts" using dirs'(1) us chain_snoc [of "(path_of ts, db') # dirs'" "cs @ us" t] by simp
    have "drive_ok (drive_paths editor callback_func (map path_of tss) (Some (if db' \<noteq> None then path_of ts else path_of (cs @ us)))
          (map snd (if db' \<noteq> None then (path_of ts, db') # dirs' else dirs')))
        (\<lambda>db_stack s. \<exists>dirs. db_stack = map snd dirs \<and> I (Some dirs) ((vis @ [path_of ts]) @ map path_of tss) s) E s''"
      by (rule Cons.IH [of "if db' \<noteq> None then ts else cs @ us"])
        (use Cons.prems(1,2) next_ts chn dirs' I ok okd in \<open>auto simp: successively_Cons split: if_splits\<close>)
    then show "drive_ok (drive_paths editor callback_func (map path_of tss) (Some (if db' \<noteq> None then path_of ts else path_of (cs @ us)))
          (if db' \<noteq> None then db' # map snd dirs' else map snd dirs'))
        (\<lambda>db_stack s. \<exists>dirs. db_stack = map snd dirs \<and> I (Some dirs) (vis @ map path_of (ts # tss)) s) E s''"
      by (simp add: if_distrib [of "map snd"] cong: if_cong)
  qed
  show ?case
    unfolding list.map drive_paths.simps Let_def common dir drive_ok_bind
  proof (rule close_dirs_ok [OF okd(2)])
    fix dirs1 s1 assume 1: "chain dirs1 cs" "I (Some dirs1) vis s1"
    show "drive_ok (open_dirs editor (path_of (cs @ us)) (length (path_of cs)) (map snd dirs1))
      (\<lambda>db_stack. drive_ok (drive_read (if db_stack = [] then None else Some (hd db_stack)))
        (\<lambda>parent_db. drive_ok (drive_call (callback_func parent_db (path_of ts)))
          (\<lambda>db. drive_ok (drive_paths editor callback_func (map path_of tss) (Some (if db \<noteq> None then path_of ts else path_of (cs @ us)))
              (if db \<noteq> None then db # db_stack else db_stack))
            (\<lambda>db_stack s. \<exists>dirs. db_stack = map snd dirs \<and> I (Some dirs) (vis @ path_of ts # map path_of tss) s) E) E) E) E s1"
    proof (rule open_dirs_ok [OF okd(1) 1])
      fix dirs2 s2 assume 2: "chain dirs2 (cs @ us)" "I (Some dirs2) vis s2"
      then obtain db rest where top: "dirs2 = (path_of (cs @ us), db) # rest" using chain_top by blast
      show "drive_ok (drive_read (if map snd dirs2 = [] then None else Some (hd (map snd dirs2))))
        (\<lambda>parent_db. drive_ok (drive_call (callback_func parent_db (path_of ts)))
          (\<lambda>db. drive_ok (drive_paths editor callback_func (map path_of tss) (Some (if db \<noteq> None then path_of ts else path_of (cs @ us)))
              (if db \<noteq> None then db # map snd dirs2 else map snd dirs2))
            (\<lambda>db_stack s. \<exists>dirs. db_stack = map snd dirs \<and> I (Some dirs) (vis @ path_of ts # map path_of tss) s) E) E) E s2"
        using step [OF 2 top] top by simp
    qed
  qed (use Cons.prems rs in auto)
qed

lemma driver_ok:
  assumes "\<forall>ts\<in>set tss. list_all ok_seg ts" and "successively (\<lambda>a b. \<not> prefix b a) tss" and "tss \<noteq> []" and "I None [] s"
  shows "drive_ok (svn_delta_path_driver2 editor (map path_of tss) False callback_func) (\<lambda>_. I (Some []) (map path_of tss)) E s"
proof -
  let ?rest = "\<lambda>(db, last_path, paths). drive_bind (drive_paths editor callback_func paths last_path [db]) (pop_all editor)"
  have rest: "drive_ok (?rest (db, last_path, map path_of us)) (\<lambda>_. I (Some []) (vis @ map path_of us)) E s"
    if "\<forall>ts\<in>set us. list_all ok_seg ts" "successively (\<lambda>a b. \<not> prefix b a) us" "us \<noteq> [] \<Longrightarrow> hd us \<noteq> []"
      "last_path = Some [] \<or> last_path = None" "I (Some [([], db)]) vis s" for db last_path us vis s
  proof -
    have "drive_ok (drive_paths editor callback_func (map path_of us) last_path (map snd [([] :: cstring, db)]))
        (\<lambda>db_stack s. \<exists>dirs. db_stack = map snd dirs \<and> I (Some dirs) (vis @ map path_of us) s) E s"
      using that by (intro drive_paths_ok [of us "[]"]) (auto simp: chain_Nil)
    then show ?thesis
      by (auto elim!: drive_ok_mono intro: pop_all_ok)
  qed
  obtain ts us where tss: "tss = ts # us" using assms(3) by (cases tss) auto
  have ok: "list_all ok_seg ts" "\<forall>ts\<in>set us. list_all ok_seg ts" "successively (\<lambda>a b. \<not> prefix b a) us"
    using assms(1,2) tss by (auto simp: successively_Cons)
  show ?thesis
  proof (cases "ts = []")
    case True
    have hd_us: "us \<noteq> [] \<Longrightarrow> hd us \<noteq> []" using assms(2) tss True by (cases us) auto
    have "drive_ok (drive_call (callback_func None [])) (\<lambda>db. drive_ok (?rest (db, Some [], map path_of us)) (\<lambda>_. I (Some []) (map path_of tss)) E) E s"
      by (rule drive_ok_mono [OF root_target [OF assms(4)]]) (use rest [OF ok(2,3) hd_us, of "Some []" _ "[[]]"] tss True in auto)
    then show ?thesis using tss True by (simp add: svn_delta_path_driver2_def)
  next
    case False
    then have p: "path_of ts \<noteq> []" using path_of_nonempty [OF ok(1)] by simp
    have "drive_ok (drive_call (ed_open_root editor)) (\<lambda>db. drive_ok (?rest (db, None, map path_of tss)) (\<lambda>_. I (Some []) (map path_of tss)) E) E s"
      by (rule drive_ok_mono [OF open_root [OF assms(4)]]) (use rest [OF assms(1,2), of None _ "[]"] False tss in auto)
    then show ?thesis using tss p by (simp add: svn_delta_path_driver2_def)
  qed
qed

end

section \<open>The drive as seen by a receiver that keeps a log\<close>

definition log_call :: "('a \<Rightarrow> 'd edit_event) \<Rightarrow> ('s, 'a) edit_call \<Rightarrow> ('s \<times> 'd edit_event list, 'a) edit_call" where
  "log_call event m st =
     (case m (fst st) of (Inl e, s) \<Rightarrow> (Inl e, (s, snd st)) | (Inr x, s) \<Rightarrow> (Inr x, (s, snd st @ [event x])))"

definition log_editor :: "('s, 'd) delta_editor \<Rightarrow> ('s \<times> 'd edit_event list, 'd) delta_editor" where
  "log_editor editor = \<lparr>
     ed_open_root = log_call Open_root (ed_open_root editor),
     ed_open_directory = (\<lambda>path parent_db. log_call (Open_directory path parent_db) (ed_open_directory editor path parent_db)),
     ed_close_directory = (\<lambda>db. log_call (\<lambda>_. Close_directory db) (ed_close_directory editor db))\<rparr>"

definition log_callback :: "('s, 'd) driver_cb \<Rightarrow> ('s \<times> 'd edit_event list, 'd) driver_cb" where
  "log_callback callback_func parent_db path = log_call (Path_callback path parent_db) (callback_func parent_db path)"

text \<open>The targets handled in a log, and whether a receiver may fail at all.\<close>

fun targets :: "'d edit_event list \<Rightarrow> cstring list" where
  "targets [] = []"
| "targets (Path_callback path parent_db db # events) = path # targets events"
| "targets (_ # events) = targets events"

definition can_fail :: "('s, 'd) delta_editor \<Rightarrow> ('s, 'd) driver_cb \<Rightarrow> bool" where
  "can_fail editor callback_func \<longleftrightarrow> (\<exists>s e s'. ed_open_root editor s = (Inl e, s')
     \<or> (\<exists>path db. ed_open_directory editor path db s = (Inl e, s') \<or> ed_close_directory editor db s = (Inl e, s')
          \<or> callback_func db path s = (Inl e, s')))"

lemma targets_append [simp]: "targets (xs @ ys) = targets xs @ targets ys"
  by (induction xs rule: targets.induct) auto

lemma log_call_ok:
  assumes "edit_run None log q" and "\<And>x. edit_step q (event x) (q' x)" and "\<And>s e s'. m s = (Inl e, s') \<Longrightarrow> fails"
    and "\<And>x. targets log @ targets [event x] = vis"
  shows "drive_ok (drive_call (log_call event m)) (\<lambda>x (s, log'). edit_run None log' (q' x) \<and> targets log' = vis)
    (\<lambda>(s, log'). (\<exists>q. edit_run None log' q) \<and> fails) (s, log)"
  using assms by (auto simp: drive_ok_def drive_call_def log_call_def intro: edit_run_snoc split: sum.split prod.split)

lemma can_failI:
  "ed_open_root editor s = (Inl e, s') \<Longrightarrow> can_fail editor callback_func"
  "ed_open_directory editor path db s = (Inl e, s') \<Longrightarrow> can_fail editor callback_func"
  "ed_close_directory editor db s = (Inl e, s') \<Longrightarrow> can_fail editor callback_func"
  "callback_func db path s = (Inl e, s') \<Longrightarrow> can_fail editor callback_func"
  unfolding can_fail_def by blast+

lemma log_editor_simps [simp]:
  "ed_open_root (log_editor editor) = log_call Open_root (ed_open_root editor)"
  "ed_open_directory (log_editor editor) path parent_db = log_call (Open_directory path parent_db) (ed_open_directory editor path parent_db)"
  "ed_close_directory (log_editor editor) db = log_call (\<lambda>_. Close_directory db) (ed_close_directory editor db)"
  by (simp_all add: log_editor_def)

lemmas edit_steps = edit_step.intros

text \<open>The logging receiver keeps its promises whatever editor it wraps.\<close>

interpretation logged: edit_receiver "log_editor editor" "log_callback callback_func"
  "\<lambda>q vis (s, log). edit_run None log q \<and> targets log = vis"
  "\<lambda>(s, log). (\<exists>q. edit_run None log q) \<and> can_fail editor callback_func"
  for editor :: "('s, 'd) delta_editor" and callback_func
proof (unfold_locales; clarify)
  fix s log and parent_db :: "'d option" and dirs path
  assume run: "edit_run None log (Some ((svn_relpath_dirname path, parent_db) # dirs))" and "path \<noteq> []"
  then have step: "edit_step (Some ((svn_relpath_dirname path, parent_db) # dirs)) (Path_callback path parent_db db)
      (Some (if db \<noteq> None then (path, db) # (svn_relpath_dirname path, parent_db) # dirs else (svn_relpath_dirname path, parent_db) # dirs))" for db
    by (auto intro: edit_steps)
  show "drive_ok (drive_call (log_callback callback_func parent_db path))
      (\<lambda>db (s, log'). edit_run None log' (Some (if db \<noteq> None then (path, db) # (svn_relpath_dirname path, parent_db) # dirs else (svn_relpath_dirname path, parent_db) # dirs))
        \<and> targets log' = targets log @ [path])
      (\<lambda>(s, log). (\<exists>q. edit_run None log q) \<and> can_fail editor callback_func) (s, log)"
    unfolding log_callback_def by (rule log_call_ok [OF run step]) (auto intro: can_failI)
qed (simp only: log_callback_def log_editor_simps, rule log_call_ok, assumption, (auto intro: edit_steps can_failI)[3])+

section \<open>What a run of the protocol looks like\<close>

text \<open>The open directories are a chain of parents down to the root.\<close>

lemma edit_run_chain:
  "edit_run q log q' \<Longrightarrow> q = None \<Longrightarrow> q' = Some dirs \<Longrightarrow>
    successively (\<lambda>a b. fst a \<noteq> [] \<and> svn_relpath_dirname (fst a) = fst b) dirs \<and> (dirs \<noteq> [] \<longrightarrow> fst (last dirs) = [])"
proof (induction arbitrary: dirs rule: edit_run.induct)
  case (edit_run_snoc q events q1 event q2)
  from edit_run_snoc.hyps(2) edit_run_snoc.IH edit_run_snoc.prems show ?case
    by (cases rule: edit_step.cases) (auto simp: successively_Cons split: if_splits)
qed simp

text \<open>A target is handled with the baton of the directory it is in, which is open.\<close>

lemma target_in_parent:
  "edit_run None (log @ [Path_callback path parent_db db]) q \<Longrightarrow> path \<noteq> [] \<Longrightarrow>
    \<exists>dirs. edit_run None log (Some ((svn_relpath_dirname path, parent_db) # dirs))"
  by (erule edit_run_last) (auto elim: edit_step_target)

fun openings :: "'d edit_event list \<Rightarrow> 'd option list" where
  "openings [] = []"
| "openings (Open_root db # events) = db # openings events"
| "openings (Open_directory path parent_db db # events) = db # openings events"
| "openings (Path_callback path parent_db db # events) = (if path = [] \<or> db \<noteq> None then [db] else []) @ openings events"
| "openings (Close_directory db # events) = openings events"

fun closings :: "'d edit_event list \<Rightarrow> 'd option list" where
  "closings [] = []"
| "closings (Close_directory db # events) = db # closings events"
| "closings (_ # events) = closings events"

lemma openings_append [simp]: "openings (xs @ ys) = openings xs @ openings ys"
  by (induction xs rule: openings.induct) auto

lemma closings_append [simp]: "closings (xs @ ys) = closings xs @ closings ys"
  by (induction xs rule: closings.induct) auto

text \<open>Every directory opened is closed once, or still open.\<close>

lemma edit_run_balance:
  "edit_run q log q' \<Longrightarrow> q = None \<Longrightarrow>
    mset (openings log) = mset (closings log) + (case q' of None \<Rightarrow> {#} | Some dirs \<Rightarrow> mset (map snd dirs))"
proof (induction rule: edit_run.induct)
  case (edit_run_snoc q events q1 event q2)
  from edit_run_snoc.hyps(2) edit_run_snoc.IH edit_run_snoc.prems show ?case
    by (cases rule: edit_step.cases) auto
qed simp

section \<open>The driver keeps to the protocol\<close>

lemma rank_prefix: "prefix p q \<Longrightarrow> p \<noteq> q \<Longrightarrow> map path_rank p < map path_rank q"
proof -
  assume "prefix p q" "p \<noteq> q"
  then obtain zs where "q = p @ zs" "zs \<noteq> []" by (auto simp: prefix_def)
  then obtain c r where q: "q = p @ c # r" by (cases zs) auto
  show ?thesis unfolding q by (induction p) auto
qed

lemma sorted_no_ancestor:
  assumes "\<forall>ts\<in>set tss. list_all ok_seg ts \<and> no_nul (path_of ts)" and "distinct tss"
    and "sorted_wrt (\<lambda>x y. svn_sort_compare_paths x y \<le> 0) (map path_of tss)"
  shows "successively (\<lambda>a b. \<not> prefix b a) tss"
  using assms
proof (induction tss rule: induct_list012)
  case (3 a b tss)
  have "\<not> prefix b a"
  proof
    assume "prefix b a"
    then obtain us where us: "a = b @ us" by (auto simp: prefix_def)
    have ne: "a \<noteq> b" "path_of a \<noteq> path_of b" using 3(4) path_of_inj [of a b] 3(3) by auto
    have "prefix (path_of b) (path_of a)" using us by (cases "us = []"; cases "b = []") (auto simp: path_of_append)
    then have "map path_rank (path_of b) < map path_rank (path_of a)" using rank_prefix ne by auto
    then have "svn_path_compare_paths (path_of b) (path_of a) < 0" using compare_paths_less 3(3) by auto
    then have "0 < svn_path_compare_paths (path_of a) (path_of b)" using path_cmp.cmp_anti 3(3) by auto
    then show False using 3(5) by (simp add: svn_sort_compare_paths_def)
  qed
  moreover have "successively (\<lambda>a b. \<not> prefix b a) (b # tss)" by (rule "3.IH"(2)) (use 3 in auto)
  ultimately show ?case by simp
qed auto

text \<open>C18. Driving an editor over canonical relpaths: nothing is read outside the stack, and the calls the editor and the
  callback see follow the protocol. If no call fails, every directory is closed at the end and
  the targets are handled once each, in the order of the paths; a failure is one of a call. The paths
  are distinct and sorted by the driver, or come in an order in which none is followed by one above it.
\<close>

theorem path_driver_protocol:
  assumes "\<forall>p\<in>set paths. relpath_is_canonical p \<and> no_nul p"
    and "sort_paths \<and> distinct paths \<or> \<not> sort_paths \<and> successively (\<lambda>p q. svn_relpath_skip_ancestor q p = None) paths"
  shows "\<exists>r s' log. svn_delta_path_driver2 (log_editor editor) paths sort_paths (log_callback callback_func) (s, [])
        = Some (r, s', log)
    \<and> (case r of
         Inl e \<Rightarrow> (\<exists>q. edit_run None log q) \<and> can_fail editor callback_func
       | Inr _ \<Rightarrow> paths = [] \<and> log = [] \<or> edit_run None log (Some [])
           \<and> targets log = (if sort_paths then qsort svn_sort_compare_paths paths else paths))"
proof (cases "paths = []")
  case True
  then show ?thesis by (simp add: svn_delta_path_driver2_def drive_return_def)
next
  case ne: False
  define order where "order = (if sort_paths then qsort svn_sort_compare_paths paths else paths)"
  define tss where "tss = map (\<lambda>p. filter ok_seg (segs p)) order"
  have set_order: "set order = set paths" by (simp add: order_def set_qsort)
  have back_path: "path_of (filter ok_seg (segs p)) = p" if "p \<in> set paths" for p
    using assms(1) that relpath_canonicalize_eq relpath_canonicalize_id by metis
  then have order: "map path_of tss = order" using set_order by (auto simp: tss_def intro!: map_idI)
  have ok: "\<forall>ts\<in>set tss. list_all ok_seg ts \<and> no_nul (path_of ts)"
    using assms(1) back_path set_order by (auto simp: tss_def)
  have above: "successively (\<lambda>a b. \<not> prefix b a) tss"
  proof (cases sort_paths)
    case True
    then have "mset order = mset paths" by (simp add: order_def mset_qsort)
    then have "distinct order" using assms(2) True by (metis mset_eq_imp_distinct_iff)
    then have "distinct tss" by (metis distinct_map order)
    moreover have "sorted_wrt (\<lambda>x y. svn_path_compare_paths x y \<le> 0) (qsort svn_path_compare_paths paths)"
      by (rule path_cmp.qsort_sorted) (use assms(1) in simp)
    ultimately show ?thesis
      using sorted_no_ancestor [OF ok] True order by (simp add: order_def svn_sort_compare_paths_def [abs_def])
  next
    case False
    then have "successively (\<lambda>p q. svn_relpath_skip_ancestor q p = None) (map path_of tss)" using assms(2) order by (simp add: order_def)
    then show ?thesis using ok
      by (induction tss rule: induct_list012) (auto simp: relpath_skip_ancestor_path_of split: if_splits)
  qed
  have "tss \<noteq> []" using ne set_order by (auto simp: tss_def)
  moreover have "\<forall>ts\<in>set tss. list_all ok_seg ts" using ok by blast
  moreover have "case (s, []) of (s, log) \<Rightarrow> edit_run None log None \<and> targets log = []" by (simp add: edit_run_Nil)
  ultimately have run: "drive_ok (svn_delta_path_driver2 (log_editor editor) order False (log_callback callback_func))
      (\<lambda>_ (s, log). edit_run None log (Some []) \<and> targets log = order)
      (\<lambda>(s, log). (\<exists>q. edit_run None log q) \<and> can_fail editor callback_func) (s, [])"
    using logged.driver_ok [of tss "(s, [])" editor callback_func] above order by simp
  have "svn_delta_path_driver2 (log_editor editor) paths sort_paths (log_callback callback_func)
      = svn_delta_path_driver2 (log_editor editor) order False (log_callback callback_func)"
  proof (cases "sort_paths \<and> length paths > 1")
    case True
    then have "order \<noteq> []" using set_order ne by auto
    then show ?thesis using True ne by (simp add: svn_delta_path_driver2_def order_def)
  next
    case False
    then have paths: "order = paths" using ne by (cases paths; cases "List.tl paths") (auto simp: order_def)
    have unsorted: "(sort_paths \<and> length paths > 1) = False" using False by blast
    show ?thesis unfolding svn_delta_path_driver2_def paths unsorted by simp
  qed
  moreover obtain r s' log where d: "svn_delta_path_driver2 (log_editor editor) order False (log_callback callback_func) (s, [])
      = Some (r, s', log)" using run by (auto simp: drive_ok_def split: option.splits)
  ultimately show ?thesis
    using run unfolding order_def [symmetric]
    by (intro exI [of _ r] exI [of _ s'] exI [of _ log]) (cases r; simp add: drive_ok_def)
qed

text \<open>An editor whose batons are numbers, and a callback that takes paths that end in \<open>c\<close> for files.\<close>

definition counting_editor :: "(nat, nat) delta_editor" where
  "counting_editor = \<lparr>ed_open_root = (\<lambda>n. (Inr (Some n), Suc n)), ed_open_directory = (\<lambda>_ _ n. (Inr (Some n), Suc n)),
     ed_close_directory = (\<lambda>_ n. (Inr (), n))\<rparr>"

definition counting_callback :: "(nat, nat) driver_cb" where
  "counting_callback parent_db path n = (if path \<noteq> [] \<and> last path = CHR ''c'' then (Inr None, n) else (Inr (Some n), Suc n))"

theorem path_driver_protocol_witness:
  "\<exists>log. svn_delta_path_driver2 (log_editor counting_editor) [''d'', ''a/b/c'', ''a''] True (log_callback counting_callback) (0, [])
      = Some (Inr (), 4, log)
    \<and> edit_run None log (Some []) \<and> targets log = [''a'', ''a/b/c'', ''d'']"
proof -
  let ?run = "svn_delta_path_driver2 (log_editor counting_editor) [''d'', ''a/b/c'', ''a''] True (log_callback counting_callback) (0, [])"
  have "map_option (\<lambda>(r, n, log). (r, n)) ?run = Some (Inr (), 4)"
    and sorted: "qsort svn_sort_compare_paths [''d'', ''a/b/c'', ''a''] = [''a'', ''a/b/c'', ''d'']" by code_simp+
  moreover have "\<forall>p\<in>set [''d'', ''a/b/c'', ''a'']. relpath_is_canonical p \<and> no_nul p" by code_simp
  moreover have "distinct [''d'', ''a/b/c'', ''a'']" by simp
  ultimately show ?thesis
    using path_driver_protocol [of "[''d'', ''a/b/c'', ''a'']" True counting_editor counting_callback 0] by auto
qed

text \<open>
  On paths that begin with a slash, which the code provides for, the common ancestor \<open>/\<close> is taken for a directory
  name and a slash: a directory too few is closed, and the next target gets the baton of a directory that is not its
  parent; after a file the count of components reads behind the end of the string.
\<close>

theorem path_driver_fspaths:
  "map_option (\<lambda>(r, n, log). log)
      (svn_delta_path_driver2 (log_editor counting_editor) [''/a/b'', ''/d''] True (log_callback counting_callback) (0, []))
    = Some [Open_root (Some 0), Open_directory ''/a'' (Some 0) (Some 1), Path_callback ''/a/b'' (Some 1) (Some 2),
        Close_directory (Some 2), Path_callback ''/d'' (Some 1) (Some 3),
        Close_directory (Some 3), Close_directory (Some 1), Close_directory (Some 0)]
    \<and> svn_delta_path_driver2 (log_editor counting_editor) [''/a/c'', ''/d''] True (log_callback counting_callback) (0, []) = None"
  by code_simp

end
