(* ===== verification/Diff_Graph.thy ===== *)
theory Diff_Graph
  imports Svn_Prelude "HOL-Library.Sublist"
begin

text \<open>
  The edit graph of two token lists, on which \<open>svn_diff__lcs\<close> searches: paths, their cost in the sense of Wu,
  Manber, Myers and Miller, and the step of their argument, that the furthest path on a diagonal comes from the
  furthest paths on its neighbours. Complete paths are common subsequences.
\<close>

section \<open>Paths in the edit graph\<close>

text \<open>A path through the edit graph of \<open>a\<close> and \<open>b\<close> that has consumed \<open>x\<close> tokens of \<open>a\<close> and \<open>y\<close> of \<open>b\<close>,
  \<open>l\<close> of them in common: common tokens are matched, the others deleted or inserted.\<close>

inductive edit_path :: "'a list \<Rightarrow> 'a list \<Rightarrow> nat \<Rightarrow> nat \<Rightarrow> nat \<Rightarrow> bool" for a b where
  Start: "edit_path a b 0 0 0"
| Match: "edit_path a b x y l \<Longrightarrow> x < length a \<Longrightarrow> y < length b \<Longrightarrow> a ! x = b ! y \<Longrightarrow> edit_path a b (Suc x) (Suc y) (Suc l)"
| Delete: "edit_path a b x y l \<Longrightarrow> x < length a \<Longrightarrow> edit_path a b (Suc x) y l"
| Insert: "edit_path a b x y l \<Longrightarrow> y < length b \<Longrightarrow> edit_path a b x (Suc y) l"

lemma edit_path_bounds: "edit_path a b x y l \<Longrightarrow> x \<le> length a \<and> y \<le> length b \<and> l \<le> x \<and> l \<le> y"
  by (induction rule: edit_path.induct) auto

lemma edit_path_deletes: "edit_path a b x y l \<Longrightarrow> x + n \<le> length a \<Longrightarrow> edit_path a b (x + n) y l"
  by (induction n) (auto intro: edit_path.intros)

lemma edit_path_inserts: "edit_path a b x y l \<Longrightarrow> y + n \<le> length b \<Longrightarrow> edit_path a b x (y + n) l"
  by (induction n) (auto intro: edit_path.intros)

lemma edit_path_common:
  "edit_path a b x y l \<Longrightarrow> \<exists>c. length c = l \<and> subseq c (take x a) \<and> subseq c (take y b)"
proof (induction rule: edit_path.induct)
  case (Match x y l)
  then obtain c where "length c = l" "subseq c (take x a)" "subseq c (take y b)" by blast
  with Match.hyps show ?case
    by (intro exI[of _ "c @ [a ! x]"]) (auto simp: take_Suc_conv_app_nth)
qed (auto simp: take_Suc_conv_app_nth intro: subseq_rev_drop_many)

lemma subseq_snoc_cases:
  assumes "subseq c (d @ [t])"
  obtains "subseq c d" | c' where "c = c' @ [t]" "subseq c' d"
proof -
  from assms obtain u v where c: "c = u @ v" "subseq u d" "subseq v [t]"
    by (auto simp: subseq_append_iff)
  have "v = [] \<or> v = [t]"
    using c(3) by (cases v) (auto simp: subseq_Cons' split: if_splits)
  with c that show thesis by auto
qed

lemma common_edit_path:
  "subseq c (take x a) \<Longrightarrow> subseq c (take y b) \<Longrightarrow> x \<le> length a \<Longrightarrow> y \<le> length b \<Longrightarrow> edit_path a b x y (length c)"
proof (induction "x + y" arbitrary: x y c rule: less_induct)
  case less
  show ?case
  proof (cases "x = 0 \<or> y = 0")
    case True
    with less.prems have "c = []" by auto
    with less.prems edit_path_inserts[OF edit_path_deletes[OF edit_path.Start, where n = x], where n = y]
    show ?thesis by simp
  next
    case False
    then obtain u v where x: "x = Suc u" and y: "y = Suc v" by (metis not0_implies_Suc)
    with less.prems have a: "take x a = take u a @ [a ! u]" and b: "take y b = take v b @ [b ! v]"
      by (auto simp: take_Suc_conv_app_nth)
    from less.prems(1)[unfolded a] show ?thesis
    proof (cases rule: subseq_snoc_cases)
      case 1
      with less x show ?thesis by (auto intro: edit_path.Delete)
    next
      case a': (2 c')
      from less.prems(2)[unfolded b] show ?thesis
      proof (cases rule: subseq_snoc_cases)
        case 1
        with less y show ?thesis by (auto intro: edit_path.Insert)
      next
        case (2 c'')
        with a' less x y show ?thesis by (auto intro: edit_path.Match)
      qed
    qed
  qed
qed

lemma edit_path_iff_common: "edit_path a b (length a) (length b) l \<longleftrightarrow> (\<exists>c. length c = l \<and> subseq c a \<and> subseq c b)"
  using edit_path_common[of a b "length a" "length b"] common_edit_path[of _ "length a" a "length b" b] by auto

section \<open>Diagonals and cost\<close>

text \<open>The diagonal of a position is the difference of what remains; the cost of a path is twice the number of its
  insertions and deletions that lead away from diagonal 0.\<close>

definition diagonal :: "'a list \<Rightarrow> 'a list \<Rightarrow> nat \<Rightarrow> nat \<Rightarrow> int" where
  "diagonal a b x y = (int (length a) - int x) - (int (length b) - int y)"

definition path_cost :: "'a list \<Rightarrow> 'a list \<Rightarrow> nat \<Rightarrow> nat \<Rightarrow> nat \<Rightarrow> int" where
  "path_cost a b x y l = int x + int y - 2 * int l + \<bar>diagonal a b x y\<bar> - \<bar>diagonal a b 0 0\<bar>"

lemma edit_path_cost: "edit_path a b x y l \<Longrightarrow> path_cost a b x y l \<ge> 0"
  by (frule edit_path_bounds) (auto simp: path_cost_def diagonal_def)

text \<open>What is known of a diagonal at cost \<open>p\<close>: no path of that cost gets further on it than \<open>y\<close>.\<close>

definition none_further :: "'a list \<Rightarrow> 'a list \<Rightarrow> int \<Rightarrow> int \<Rightarrow> int \<Rightarrow> bool" where
  "none_further a b k p e \<longleftrightarrow> (\<forall>x y l. edit_path a b x y l \<longrightarrow> diagonal a b x y = k \<longrightarrow> path_cost a b x y l \<le> 2 * p \<longrightarrow> int y \<le> e)"

definition finished :: "'a list \<Rightarrow> 'a list \<Rightarrow> int \<Rightarrow> bool" where
  "finished a b p \<longleftrightarrow> (\<exists>l. edit_path a b (length a) (length b) l \<and> path_cost a b (length a) (length b) l \<le> 2 * p)"

lemma none_further_step:
  assumes below: "none_further a b (k - 1) (if k \<le> 0 then p else p - 1) e1" 
    and above: "none_further a b (k + 1) (if k \<ge> 0 then p else p - 1) e2"
    and start: "e1 + 1 \<le> e" "e2 \<le> e" "0 \<le> e"
    and stop: "\<And>x y. diagonal a b x y = k \<Longrightarrow> int y = e \<Longrightarrow> x < length a \<Longrightarrow> y < length b \<Longrightarrow> a ! x \<noteq> b ! y"
  shows "none_further a b k p e"
proof -
  have "edit_path a b x y l \<Longrightarrow> diagonal a b x y = k \<Longrightarrow> path_cost a b x y l \<le> 2 * p \<Longrightarrow> int y \<le> e" for x y l
  proof (induction rule: edit_path.induct)
    case Start
    show ?case using start by simp
  next
    case (Match x y l)
    have "diagonal a b x y = k" "path_cost a b x y l \<le> 2 * p"
      using Match.prems by (auto simp: diagonal_def path_cost_def)
    with Match.IH stop[of x y] Match.hyps show ?case by force
  next
    case (Delete x y l)
    have "diagonal a b x y = k + 1" "path_cost a b x y l \<le> 2 * (if k \<ge> 0 then p else p - 1)"
      using Delete.prems by (auto simp: diagonal_def path_cost_def)
    with above Delete.hyps have "int y \<le> e2" by (auto simp: none_further_def)
    with start show ?case by simp
  next
    case (Insert x y l)
    have "diagonal a b x y = k - 1" "path_cost a b x y l \<le> 2 * (if k \<le> 0 then p else p - 1)"
      using Insert.prems by (auto simp: diagonal_def path_cost_def)
    with below Insert.hyps have "int y \<le> e1" by (auto simp: none_further_def)
    with start show ?case by simp
  qed
  then show ?thesis by (auto simp: none_further_def)
qed

lemma none_further_mono: "none_further a b k p e \<Longrightarrow> e \<le> e' \<Longrightarrow> none_further a b k p e'"
  by (force simp: none_further_def)

lemma none_further_outside:
  assumes "k < min (diagonal a b 0 0) 0 - p \<or> k > max (diagonal a b 0 0) 0 + p"
  shows "none_further a b k p e"
proof -
  have False if "edit_path a b x y l" "diagonal a b x y = k" "path_cost a b x y l \<le> 2 * p" for x y l
    using edit_path_bounds[OF that(1)] that(2,3) assms by (auto simp: diagonal_def path_cost_def min_def max_def abs_if split: if_splits)
  then show ?thesis by (auto simp: none_further_def)
qed

lemma none_further_negative: "p < 0 \<Longrightarrow> none_further a b k p e"
  using edit_path_cost unfolding none_further_def by fastforce

text \<open>While no path of cost \<open>p\<close> is complete, none reaches the end of one file on its way to diagonal 0.\<close>

lemma not_finished_target:
  assumes "edit_path a b x (length b) l" "path_cost a b x (length b) l \<le> 2 * p" "\<not> finished a b p"
  shows False
proof -
  note bounds = edit_path_bounds[OF assms(1)]
  have "edit_path a b (length a) (length b) l" using edit_path_deletes[OF assms(1), of "length a - x"] bounds by simp
  moreover have "path_cost a b (length a) (length b) l = path_cost a b x (length b) l"
    using bounds by (auto simp: path_cost_def diagonal_def)
  ultimately show False using assms(2,3) by (auto simp: finished_def)
qed

lemma not_finished_source:
  assumes "edit_path a b (length a) y l" "path_cost a b (length a) y l \<le> 2 * p" "\<not> finished a b p"
  shows False
proof -
  note bounds = edit_path_bounds[OF assms(1)]
  have "edit_path a b (length a) (length b) l" using edit_path_inserts[OF assms(1), of "length b - y"] bounds by simp
  moreover have "path_cost a b (length a) (length b) l = path_cost a b (length a) y l"
    using bounds by (auto simp: path_cost_def diagonal_def)
  ultimately show False using assms(2,3) by (auto simp: finished_def)
qed

lemma finished_length: "finished a b p \<longleftrightarrow> (\<exists>l. edit_path a b (length a) (length b) l \<and> int (min (length a) (length b)) - int l \<le> p)"
  by (auto simp: finished_def path_cost_def diagonal_def min_def)

lemma finished_at_last: "int (min (length a) (length b)) \<le> p \<Longrightarrow> finished a b p"
  unfolding finished_length using edit_path_inserts[OF edit_path_deletes[OF edit_path.Start, where n = "length a"], where n = "length b"] 
  by (intro exI[of _ 0]) auto

end
