(* ===== verification/Diff_Lcs.thy ===== *)
theory Diff_Lcs
  imports Diff_Graph "HOL-Library.Multiset"
begin

text \<open>
  The longest common subsequence of two files (\<open>libsvn_diff/lcs.c\<close>). The rings of positions are lists with the
  sentinel at the end, a pointer is an index; the array of diagonals is a map whose domain are its indices. Chunks are
  never changed once they are linked, so that the chains are lists; the reference counts, by which the code finds
  chunks that it can use again, are not part of the model. The loops are partial functions and proved to return.
\<close>

section \<open>Positions and chunks\<close>

text \<open>\<open>svn_diff__position_t\<close>: the ring of the positions of a file is the list of them, a pointer into it an index,
  and following \<open>next\<close> from the last position leads to the first.\<close>

record diff_position =
  token_index :: int
  pos_offset :: int

type_synonym diff_ring = "diff_position list"

definition next_position :: "diff_ring \<Rightarrow> nat \<Rightarrow> nat" where
  "next_position r i = (if Suc i < length r then Suc i else 0)"

text \<open>\<open>svn_diff__lcs_t\<close>, a chunk of common tokens; a chain of chunks is a list. Of its positions only the offsets
  are read later.\<close>

record diff_lcs =
  lcs_offset0 :: int
  lcs_offset1 :: int
  lcs_length :: int

text \<open>\<open>svn_diff__snake_t\<close>: how far a diagonal has been followed, and the chunks on the way, the last one first. The
  pointers are NULL until the diagonal is reached.\<close>

record diff_snake =
  fp_y :: int
  fp_lcs :: "diff_lcs list"
  fp_pos0 :: "nat option"
  fp_pos1 :: "nat option"

section \<open>svn\_diff\_\_snake\<close>

text \<open>The loop over matching tokens.\<close>

partial_function (option) snake_match :: "diff_ring \<Rightarrow> diff_ring \<Rightarrow> nat \<Rightarrow> nat \<Rightarrow> (nat \<times> nat) option" where
  "snake_match r0 r1 i j =
    (if token_index (r0 ! i) = token_index (r1 ! j)
     then snake_match r0 r1 (next_position r0 i) (next_position r1 j)
     else Some (i, j))"

text \<open>A chunk for the tokens matched since the start position, if there are any; the start moves on.\<close>

definition snake_chunk :: "diff_ring \<Rightarrow> diff_ring \<Rightarrow> nat \<Rightarrow> nat \<Rightarrow> nat \<Rightarrow> nat \<Rightarrow> diff_lcs list \<Rightarrow> nat \<times> nat \<times> diff_lcs list" where
  "snake_chunk r0 r1 s0 s1 i j prev =
    (if j \<noteq> s1
     then (i, j, \<lparr>lcs_offset0 = pos_offset (r0 ! s0), lcs_offset1 = pos_offset (r1 ! s1),
                  lcs_length = pos_offset (r1 ! j) - pos_offset (r1 ! s1)\<rparr> # prev)
     else (s0, s1, prev))"

definition occurs :: "int list \<Rightarrow> int \<Rightarrow> bool" where
  "occurs counts t \<longleftrightarrow> \<not> (t \<ge> 0 \<and> counts ! nat t = 0)"

partial_function (option) snake_run ::
  "diff_ring \<Rightarrow> diff_ring \<Rightarrow> int list \<Rightarrow> int list \<Rightarrow> nat \<Rightarrow> nat \<Rightarrow> nat \<Rightarrow> nat \<Rightarrow> diff_lcs list \<Rightarrow> (nat \<times> nat \<times> diff_lcs list) option" where
  "snake_run r0 r1 c0 c1 s0 s1 i j prev =
    Option.bind (snake_match r0 r1 i j) (\<lambda>(i, j).
      let (s0, s1, prev) = snake_chunk r0 r1 s0 s1 i j prev
      in if \<not> occurs c1 (token_index (r0 ! i))
         then snake_run r0 r1 c0 c1 (next_position r0 i) s1 (next_position r0 i) j prev
         else if \<not> occurs c0 (token_index (r1 ! j))
         then snake_run r0 r1 c0 c1 s0 (next_position r1 j) i (next_position r1 j) prev
         else Some (i, j, prev))"

text \<open>\<open>None\<close> is the dereference of a position that is not set.\<close>

definition svn_diff_snake ::
  "diff_ring \<Rightarrow> diff_ring \<Rightarrow> int list \<Rightarrow> int list \<Rightarrow> diff_snake \<Rightarrow> diff_snake \<Rightarrow> diff_snake option" where
  "svn_diff_snake r0 r1 c0 c1 lower upper =
    (let start = (if fp_y lower \<ge> fp_y upper
                  then (fp_pos0 lower, map_option (next_position r1) (fp_pos1 lower), fp_lcs lower)
                  else (map_option (next_position r0) (fp_pos0 upper), fp_pos1 upper, fp_lcs upper))
     in case start of
          (Some s0, Some s1, prev) \<Rightarrow>
            Option.bind (snake_run r0 r1 c0 c1 s0 s1 s0 s1 prev) (\<lambda>(i, j, lcs).
              Some \<lparr>fp_y = pos_offset (r1 ! j), fp_lcs = lcs, fp_pos0 = Some i, fp_pos1 = Some j\<rparr>)
        | _ \<Rightarrow> None)"

section \<open>svn\_diff\_\_lcs\<close>

text \<open>The array \<open>fp\<close> is a map whose domain are its indices: an access outside it is \<open>None\<close>.\<close>

type_synonym diff_fp = "int \<rightharpoonup> diff_snake"

definition snake_at :: "diff_ring \<Rightarrow> diff_ring \<Rightarrow> int list \<Rightarrow> int list \<Rightarrow> diff_fp \<Rightarrow> int \<Rightarrow> diff_fp option" where
  "snake_at r0 r1 c0 c1 fp k =
    Option.bind (fp k) (\<lambda>_. Option.bind (fp (k - 1)) (\<lambda>lower. Option.bind (fp (k + 1)) (\<lambda>upper.
      Option.bind (svn_diff_snake r0 r1 c0 c1 lower upper) (\<lambda>s. Some (fp(k \<mapsto> s))))))"

function snakes_up :: "diff_ring \<Rightarrow> diff_ring \<Rightarrow> int list \<Rightarrow> int list \<Rightarrow> int \<Rightarrow> diff_fp \<Rightarrow> diff_fp option" where
  "snakes_up r0 r1 c0 c1 k fp =
    (if k < 0 then Option.bind (snake_at r0 r1 c0 c1 fp k) (snakes_up r0 r1 c0 c1 (k + 1)) else Some fp)"
  by pat_completeness auto
termination by (relation "measure (\<lambda>(r0, r1, c0, c1, k, fp). nat (- k))") auto

function snakes_down :: "diff_ring \<Rightarrow> diff_ring \<Rightarrow> int list \<Rightarrow> int list \<Rightarrow> int \<Rightarrow> diff_fp \<Rightarrow> diff_fp option" where
  "snakes_down r0 r1 c0 c1 k fp =
    (if k \<ge> 0 then Option.bind (snake_at r0 r1 c0 c1 fp k) (snakes_down r0 r1 c0 c1 (k - 1)) else Some fp)"
  by pat_completeness auto
termination by (relation "measure (\<lambda>(r0, r1, c0, c1, k, fp). nat (k + 1))") auto

declare snakes_up.simps [simp del] snakes_down.simps [simp del]

text \<open>The main loop; it ends when the sentinel of the second file, the last position of its ring, is reached.\<close>

partial_function (option) lcs_passes :: "diff_ring \<Rightarrow> diff_ring \<Rightarrow> int list \<Rightarrow> int list \<Rightarrow> int \<Rightarrow> int \<Rightarrow> diff_fp \<Rightarrow> diff_snake option" where
  "lcs_passes r0 r1 c0 c1 d p fp =
    Option.bind (snakes_up r0 r1 c0 c1 ((if d < 0 then d else 0) - p) fp) (\<lambda>fp.
    Option.bind (snakes_down r0 r1 c0 c1 ((if d > 0 then d else 0) + p) fp) (\<lambda>fp.
    Option.bind (fp 0) (\<lambda>target.
      if fp_pos1 target \<noteq> Some (length r1 - 1) then lcs_passes r0 r1 c0 c1 d (p + 1) fp else Some target)))"

definition prepend_lcs :: "diff_lcs list \<Rightarrow> int \<Rightarrow> int \<Rightarrow> int \<Rightarrow> diff_lcs list option" where
  "prepend_lcs lcs lines offset0 offset1 =
    (if lines > 0 then Some (\<lparr>lcs_offset0 = offset0, lcs_offset1 = offset1, lcs_length = lines\<rparr> # lcs) else None)"

definition prepend_prefix :: "int \<Rightarrow> diff_lcs list \<Rightarrow> diff_lcs list option" where
  "prepend_prefix prefix_lines lcs = (if prefix_lines \<noteq> 0 then prepend_lcs lcs prefix_lines 1 1 else Some lcs)"

definition prepend_suffix :: "int \<Rightarrow> diff_lcs \<Rightarrow> diff_lcs list \<Rightarrow> diff_lcs list option" where
  "prepend_suffix suffix_lines eof lcs =
    (if suffix_lines \<noteq> 0
     then prepend_lcs lcs suffix_lines (lcs_offset0 eof - suffix_lines) (lcs_offset1 eof - suffix_lines)
     else Some lcs)"

definition eof_offset :: "diff_ring \<Rightarrow> int \<Rightarrow> int \<Rightarrow> int" where
  "eof_offset ps prefix_lines suffix_lines =
    (if ps \<noteq> [] then pos_offset (last ps) + suffix_lines + 1 else prefix_lines + suffix_lines + 1)"

definition unique_count :: "int list \<Rightarrow> int list \<Rightarrow> nat \<Rightarrow> int" where
  "unique_count counts others num_tokens =
    foldl (\<lambda>n t. if others ! t = 0 then n + counts ! t else n) 0 [0..<num_tokens]"

definition lcs_source_length :: "diff_ring \<Rightarrow> int list \<Rightarrow> int list \<Rightarrow> nat \<Rightarrow> int" where
  "lcs_source_length ps counts others num_tokens =
    pos_offset (last ps) - pos_offset (hd ps) + 1 - unique_count counts others num_tokens"

definition with_sentinel :: "diff_ring \<Rightarrow> int \<Rightarrow> diff_ring" where
  "with_sentinel ps index = ps @ [\<lparr>token_index = index, pos_offset = pos_offset (last ps) + 1\<rparr>]"

definition initial_fp :: "diff_ring \<Rightarrow> int \<Rightarrow> int \<Rightarrow> diff_fp" where
  "initial_fp r1 length0 length1 =
    (\<lambda>k. if - (length1 + 1) \<le> k \<and> k \<le> length0 + 1
         then Some \<lparr>fp_y = 0, fp_lcs = [],
                    fp_pos0 = (if k = length0 - length1 - 1 then Some 0 else None),
                    fp_pos1 = (if k = length0 - length1 - 1 then Some (length r1 - 1) else None)\<rparr>
         else None)"

text \<open>\<open>svn_diff__lcs_reverse\<close>.\<close>

fun lcs_reverse_loop :: "diff_lcs list \<Rightarrow> diff_lcs list \<Rightarrow> diff_lcs list" where
  "lcs_reverse_loop following [] = following"
| "lcs_reverse_loop following (lcs # prev) = lcs_reverse_loop (lcs # following) prev"

definition svn_diff_lcs_reverse :: "diff_lcs list \<Rightarrow> diff_lcs list" where
  "svn_diff_lcs_reverse lcs = lcs_reverse_loop [] lcs"

lemma lcs_reverse_loop: "lcs_reverse_loop following lcs = rev lcs @ following"
  by (induction following lcs rule: lcs_reverse_loop.induct) auto

lemma svn_diff_lcs_reverse [simp]: "svn_diff_lcs_reverse lcs = rev lcs"
  by (simp add: svn_diff_lcs_reverse_def lcs_reverse_loop)

definition svn_diff_lcs :: "diff_ring \<Rightarrow> diff_ring \<Rightarrow> int list \<Rightarrow> int list \<Rightarrow> nat \<Rightarrow> int \<Rightarrow> int \<Rightarrow> diff_lcs list option" where
  "svn_diff_lcs ps0 ps1 counts0 counts1 num_tokens prefix_lines suffix_lines =
    (let eof = \<lparr>lcs_offset0 = eof_offset ps0 prefix_lines suffix_lines,
                lcs_offset1 = eof_offset ps1 prefix_lines suffix_lines, lcs_length = 0\<rparr>
     in if ps0 = [] \<or> ps1 = []
        then Option.bind (prepend_suffix suffix_lines eof [eof]) (prepend_prefix prefix_lines)
        else
          let length0 = lcs_source_length ps0 counts0 counts1 num_tokens;
              length1 = lcs_source_length ps1 counts1 counts0 num_tokens;
              r0 = with_sentinel ps0 (- 1);
              r1 = with_sentinel ps1 (- 2)
          in Option.bind (lcs_passes r0 r1 counts0 counts1 (length0 - length1) 0 (initial_fp r1 length0 length1)) (\<lambda>target.
             Option.bind (prepend_suffix suffix_lines eof (fp_lcs target)) (\<lambda>lcs.
               prepend_prefix prefix_lines (svn_diff_lcs_reverse (eof # lcs)))))"

section \<open>Tokens in common\<close>

text \<open>The tokens of one file that the other one has too, and the number of them before a position.\<close>

definition shared :: "'a list \<Rightarrow> 'a list \<Rightarrow> 'a list" where
  "shared b a = filter (\<lambda>t. t \<in> set b) a"

definition rank :: "'a list \<Rightarrow> 'a list \<Rightarrow> nat \<Rightarrow> nat" where
  "rank b a i = length (shared b (take i a))"

lemma rank_0 [simp]: "rank b a 0 = 0"
  by (simp add: rank_def shared_def)

lemma rank_Suc: "i < length a \<Longrightarrow> rank b a (Suc i) = (if a ! i \<in> set b then Suc (rank b a i) else rank b a i)"
  by (simp add: rank_def shared_def take_Suc_conv_app_nth)

lemma rank_all [simp]: "rank b a (length a) = length (shared b a)"
  by (simp add: rank_def)

lemma shared_split: "i < length a \<Longrightarrow> a ! i \<in> set b \<Longrightarrow> shared b a = shared b (take i a) @ a ! i # shared b (drop (Suc i) a)"
  by (subst id_take_nth_drop[of i a]) (auto simp: shared_def)

lemma rank_less: "i < length a \<Longrightarrow> a ! i \<in> set b \<Longrightarrow> rank b a i < length (shared b a)"
  by (simp add: shared_split rank_def)

lemma shared_nth_rank: "i < length a \<Longrightarrow> a ! i \<in> set b \<Longrightarrow> shared b a ! rank b a i = a ! i"
  by (simp add: shared_split rank_def)

lemma rank_mono: "i \<le> j \<Longrightarrow> rank b a i \<le> rank b a j"
  unfolding rank_def shared_def by (metis filter_append le_add1 length_append take_add le_Suc_ex)

lemma rank_le: "rank b a i \<le> length (shared b a)"
  by (metis append_take_drop_id filter_append le_add1 length_append rank_def shared_def)

lemma rank_strict: "i < j \<Longrightarrow> i < length a \<Longrightarrow> a ! i \<in> set b \<Longrightarrow> rank b a i < rank b a j"
  using rank_mono[of "Suc i" j b a] by (simp add: rank_Suc)

text \<open>Common subsequences consist of shared tokens.\<close>

lemma subseq_shared: "subseq c a \<Longrightarrow> set c \<subseteq> set b \<Longrightarrow> subseq c (shared b a)"
  unfolding shared_def by (metis (no_types, lifting) filter_True subseq_filter subsetD)

lemma shared_subseq: "subseq c (shared b a) \<Longrightarrow> subseq c a"
  unfolding shared_def by (meson subseq_filter_left subseq_order.trans)

lemma subseq_set: "subseq c a \<Longrightarrow> set c \<subseteq> set a"
  by (auto dest: list_emb_set)

lemma common_shared: "subseq c (shared b a) \<and> subseq c (shared a b) \<longleftrightarrow> subseq c a \<and> subseq c b"
  by (metis shared_subseq subseq_shared subseq_set)

section \<open>The input of svn\_diff\_\_lcs\<close>

text \<open>The positions of a token list, the first at offset \<open>base\<close>.\<close>

definition positions_of :: "int list \<Rightarrow> int \<Rightarrow> diff_ring \<Rightarrow> bool" where
  "positions_of a base r \<longleftrightarrow> length r = length a \<and>
    (\<forall>i < length a. token_index (r ! i) = a ! i \<and> pos_offset (r ! i) = base + int i)"

text \<open>Rings with sentinels for the token lists \<open>a\<close> and \<open>b\<close>, and counts that tell which tokens of one occur in the
  other.\<close>

definition lcs_rings :: "int list \<Rightarrow> int list \<Rightarrow> int \<times> int \<Rightarrow> diff_ring \<Rightarrow> diff_ring \<Rightarrow> int list \<Rightarrow> int list \<Rightarrow> bool" where
  "lcs_rings a b bases r0 r1 c0 c1 \<longleftrightarrow>
    positions_of (a @ [- 1]) (fst bases) r0 \<and> positions_of (b @ [- 2]) (snd bases) r1 \<and>
    (\<forall>t \<in> set a. 0 \<le> t \<and> (c1 ! nat t = 0 \<longleftrightarrow> t \<notin> set b)) \<and>
    (\<forall>t \<in> set b. 0 \<le> t \<and> (c0 ! nat t = 0 \<longleftrightarrow> t \<notin> set a)) \<and> 1 \<le> snd bases"

lemma ring_lengths: 
  assumes "lcs_rings a b bases r0 r1 c0 c1" 
  shows "length r0 = Suc (length a)" "length r1 = Suc (length b)"
  using assms by (auto simp: lcs_rings_def positions_of_def)

lemma ring_offsets: 
  assumes "lcs_rings a b bases r0 r1 c0 c1" 
  shows "i \<le> length a \<Longrightarrow> pos_offset (r0 ! i) = fst bases + int i" "j \<le> length b \<Longrightarrow> pos_offset (r1 ! j) = snd bases + int j"
  using assms by (auto simp: lcs_rings_def positions_of_def)

lemma ring_tokens:
  assumes "lcs_rings a b bases r0 r1 c0 c1" 
  shows "i \<le> length a \<Longrightarrow> token_index (r0 ! i) = (if i < length a then a ! i else - 1)"
    "j \<le> length b \<Longrightarrow> token_index (r1 ! j) = (if j < length b then b ! j else - 2)"
  using assms by (auto simp: lcs_rings_def positions_of_def nth_append)

lemma ring_counts:
  assumes "lcs_rings a b bases r0 r1 c0 c1" 
  shows "i < length a \<Longrightarrow> 0 \<le> a ! i \<and> (c1 ! nat (a ! i) = 0 \<longleftrightarrow> a ! i \<notin> set b)"
    "j < length b \<Longrightarrow> 0 \<le> b ! j \<and> (c0 ! nat (b ! j) = 0 \<longleftrightarrow> b ! j \<notin> set a)"
  using assms by (auto simp: lcs_rings_def)

lemma tokens_match: 
  assumes "lcs_rings a b bases r0 r1 c0 c1" "i \<le> length a" "j \<le> length b"
  shows "token_index (r0 ! i) = token_index (r1 ! j) \<longleftrightarrow> i < length a \<and> j < length b \<and> a ! i = b ! j"
  using assms(2,3) ring_counts(1)[OF assms(1), of i] ring_counts(2)[OF assms(1), of j]
  by (auto simp: ring_tokens[OF assms(1)])

lemma occurs_shared:
  assumes "lcs_rings a b bases r0 r1 c0 c1" 
  shows "i \<le> length a \<Longrightarrow> occurs c1 (token_index (r0 ! i)) \<longleftrightarrow> (i < length a \<longrightarrow> a ! i \<in> set b)"
    "j \<le> length b \<Longrightarrow> occurs c0 (token_index (r1 ! j)) \<longleftrightarrow> (j < length b \<longrightarrow> b ! j \<in> set a)"
  using ring_counts(1)[OF assms, of i] ring_counts(2)[OF assms, of j] by (auto simp: ring_tokens[OF assms] occurs_def)

lemma next_in_ring: 
  assumes "lcs_rings a b bases r0 r1 c0 c1" 
  shows "i < length a \<Longrightarrow> next_position r0 i = Suc i" "j < length b \<Longrightarrow> next_position r1 j = Suc j"
  by (auto simp: next_position_def ring_lengths[OF assms])

section \<open>A snake\<close>

text \<open>A chain of chunks that ends before position \<open>(i, j)\<close>: each chunk is a stretch of equal tokens, and they follow
  each other in both files.\<close>

fun chain_ok :: "'a list \<Rightarrow> 'a list \<Rightarrow> int \<times> int \<Rightarrow> nat \<Rightarrow> nat \<Rightarrow> diff_lcs list \<Rightarrow> bool" where
  "chain_ok a b bases i j [] = True"
| "chain_ok a b bases i j (c # cs) = (\<exists>u v n. 0 < n \<and> u + n \<le> i \<and> v + n \<le> j \<and>
    c = \<lparr>lcs_offset0 = fst bases + int u, lcs_offset1 = snd bases + int v, lcs_length = int n\<rparr> \<and>
    (\<forall>m < n. a ! (u + m) = b ! (v + m)) \<and> chain_ok a b bases u v cs)"

definition chain_total :: "diff_lcs list \<Rightarrow> nat" where
  "chain_total cs = (\<Sum>c\<leftarrow>cs. nat (lcs_length c))"

lemma chain_total_simps [simp]: "chain_total [] = 0" "chain_total (c # cs) = nat (lcs_length c) + chain_total cs"
  by (auto simp: chain_total_def)

lemma chain_ok_mono: "chain_ok a b bases i j cs \<Longrightarrow> i \<le> i' \<Longrightarrow> j \<le> j' \<Longrightarrow> chain_ok a b bases i' j' cs"
  by (cases cs) (fastforce intro: le_trans)+

text \<open>The path of a position in terms of shared tokens.\<close>

definition shared_path :: "int list \<Rightarrow> int list \<Rightarrow> nat \<Rightarrow> nat \<Rightarrow> nat \<Rightarrow> bool" where
  "shared_path a b i j l \<longleftrightarrow> edit_path (shared b a) (shared a b) (rank b a i) (rank a b j) l"

definition shared_diagonal :: "int list \<Rightarrow> int list \<Rightarrow> nat \<Rightarrow> nat \<Rightarrow> int" where
  "shared_diagonal a b i j = diagonal (shared b a) (shared a b) (rank b a i) (rank a b j)"

definition shared_cost :: "int list \<Rightarrow> int list \<Rightarrow> nat \<Rightarrow> nat \<Rightarrow> nat \<Rightarrow> int" where
  "shared_cost a b i j l = path_cost (shared b a) (shared a b) (rank b a i) (rank a b j) l"

lemma shared_path_match:
  assumes "shared_path a b i j l" "i < length a" "j < length b" "a ! i = b ! j"
  shows "shared_path a b (Suc i) (Suc j) (Suc l)"
proof -
  have "a ! i \<in> set b" "b ! j \<in> set a" using assms by (metis nth_mem)+
  with assms show ?thesis unfolding shared_path_def
    by (auto simp: rank_Suc shared_nth_rank rank_less intro!: edit_path.Match)
qed

lemma shared_diagonal_match:
  assumes "i < length a" "j < length b" "a ! i = b ! j"
  shows "shared_diagonal a b (Suc i) (Suc j) = shared_diagonal a b i j \<and>
    shared_cost a b (Suc i) (Suc j) (Suc l) = shared_cost a b i j l"
proof -
  have "a ! i \<in> set b" "b ! j \<in> set a" using assms by (metis nth_mem)+
  with assms show ?thesis by (auto simp: shared_diagonal_def shared_cost_def path_cost_def diagonal_def rank_Suc)
qed

lemma shared_matches:
  "\<forall>m < n. a ! (i + m) = b ! (j + m) \<Longrightarrow> i + n \<le> length a \<Longrightarrow> j + n \<le> length b \<Longrightarrow>
    (shared_path a b i j l \<longrightarrow> shared_path a b (i + n) (j + n) (l + n)) \<and>
    shared_diagonal a b (i + n) (j + n) = shared_diagonal a b i j \<and>
    shared_cost a b (i + n) (j + n) (l + n) = shared_cost a b i j l"
proof (induction n)
  case (Suc n)
  then show ?case
    using shared_path_match[of a b "i + n" "j + n" "l + n"] shared_diagonal_match[of "i + n" a "j + n" b "l + n"] by simp
qed simp

lemma shared_skip:
  "i < length a \<Longrightarrow> a ! i \<notin> set b \<Longrightarrow> shared_path a b (Suc i) j l = shared_path a b i j l \<and> shared_diagonal a b (Suc i) j = shared_diagonal a b i j \<and>
    shared_cost a b (Suc i) j l = shared_cost a b i j l"
  "j < length b \<Longrightarrow> b ! j \<notin> set a \<Longrightarrow> shared_path a b i (Suc j) l = shared_path a b i j l \<and> shared_diagonal a b i (Suc j) = shared_diagonal a b i j \<and>
    shared_cost a b i (Suc j) l = shared_cost a b i j l"
  by (auto simp: shared_path_def shared_cost_def shared_diagonal_def rank_Suc)

text \<open>A position where a snake ends: in front of tokens that are shared but differ.\<close>

definition settled :: "int list \<Rightarrow> int list \<Rightarrow> nat \<Rightarrow> nat \<Rightarrow> bool" where
  "settled a b i j \<longleftrightarrow> i \<le> length a \<and> j \<le> length b \<and>
    (i < length a \<longrightarrow> a ! i \<in> set b) \<and> (j < length b \<longrightarrow> b ! j \<in> set a) \<and>
    (i < length a \<and> j < length b \<longrightarrow> a ! i \<noteq> b ! j)"

text \<open>A state of a snake: a chain of chunks and the path it stands for.\<close>

definition snake_ok :: "int list \<Rightarrow> int list \<Rightarrow> int \<times> int \<Rightarrow> nat \<Rightarrow> nat \<Rightarrow> diff_lcs list \<Rightarrow> bool" where
  "snake_ok a b bases i j cs \<longleftrightarrow> i \<le> length a \<and> j \<le> length b \<and> chain_ok a b bases i j cs \<and> shared_path a b i j (chain_total cs)"

lemma snake_ok_skip:
  "snake_ok a b bases i j cs \<Longrightarrow> i < length a \<Longrightarrow> a ! i \<notin> set b \<Longrightarrow> snake_ok a b bases (Suc i) j cs"
  "snake_ok a b bases i j cs \<Longrightarrow> j < length b \<Longrightarrow> b ! j \<notin> set a \<Longrightarrow> snake_ok a b bases i (Suc j) cs"
  by (auto simp: snake_ok_def shared_skip intro: chain_ok_mono)

lemma snake_match_result:
  assumes "lcs_rings a b bases r0 r1 c0 c1"
  shows "i \<le> length a \<Longrightarrow> j \<le> length b \<Longrightarrow>
    \<exists>n. snake_match r0 r1 i j = Some (i + n, j + n) \<and> i + n \<le> length a \<and> j + n \<le> length b \<and>
      (\<forall>m < n. a ! (i + m) = b ! (j + m)) \<and> (i + n < length a \<longrightarrow> j + n < length b \<longrightarrow> a ! (i + n) \<noteq> b ! (j + n))"
proof (induction "length a - i" arbitrary: i j rule: less_induct)
  case less
  note step = snake_match.simps[of r0 r1 i j] tokens_match[OF assms less.prems]
  show ?case
  proof (cases "i < length a \<and> j < length b \<and> a ! i = b ! j")
    case True
    then have "\<exists>n. snake_match r0 r1 (Suc i) (Suc j) = Some (Suc i + n, Suc j + n) \<and> Suc i + n \<le> length a \<and> Suc j + n \<le> length b \<and>
      (\<forall>m < n. a ! (Suc i + m) = b ! (Suc j + m)) \<and>
      (Suc i + n < length a \<longrightarrow> Suc j + n < length b \<longrightarrow> a ! (Suc i + n) \<noteq> b ! (Suc j + n))"
      by (intro less) auto
    then obtain n where n: "snake_match r0 r1 (Suc i) (Suc j) = Some (Suc i + n, Suc j + n)"
      "Suc i + n \<le> length a" "Suc j + n \<le> length b" "\<forall>m < n. a ! (Suc i + m) = b ! (Suc j + m)"
      "Suc i + n < length a \<longrightarrow> Suc j + n < length b \<longrightarrow> a ! (Suc i + n) \<noteq> b ! (Suc j + n)" by blast
    have "\<forall>m < Suc n. a ! (i + m) = b ! (j + m)"
      using n(4) True by (metis Suc_less_eq add.right_neutral add_Suc_shift less_Suc_eq_0_disj)
    with n True step show ?thesis
      by (intro exI[of _ "Suc n"]) (auto simp: next_in_ring[OF assms])
  next
    case False
    with step less.prems show ?thesis by (intro exI[of _ 0]) auto
  qed
qed

lemma snake_run_result:
  assumes rings: "lcs_rings a b bases r0 r1 c0 c1"
  shows "snake_ok a b bases i j prev \<Longrightarrow>
    \<exists>i' j' cs. snake_run r0 r1 c0 c1 i j i j prev = Some (i', j', cs) \<and> i \<le> i' \<and> j \<le> j' \<and>
      settled a b i' j' \<and> snake_ok a b bases i' j' cs \<and> shared_diagonal a b i' j' = shared_diagonal a b i j \<and>
      shared_cost a b i' j' (chain_total cs) = shared_cost a b i j (chain_total prev)"
proof (induction "length a - i + (length b - j)" arbitrary: i j prev rule: less_induct)
  case less
  from less.prems have ij: "i \<le> length a" "j \<le> length b" by (auto simp: snake_ok_def)
  from snake_match_result[OF rings ij] obtain n where n: "snake_match r0 r1 i j = Some (i + n, j + n)"
    "i + n \<le> length a" "j + n \<le> length b" "\<forall>m < n. a ! (i + m) = b ! (j + m)"
    "i + n < length a \<longrightarrow> j + n < length b \<longrightarrow> a ! (i + n) \<noteq> b ! (j + n)" by blast
  define cs where "cs = snd (snd (snake_chunk r0 r1 i j (i + n) (j + n) prev))"
  have chunk: "snake_chunk r0 r1 i j (i + n) (j + n) prev = (i + n, j + n, cs)"
    by (simp add: cs_def snake_chunk_def)
  have "chain_ok a b bases (i + n) (j + n) cs \<and> chain_total cs = chain_total prev + n"
    using less.prems n by (cases "n = 0") (auto simp: cs_def snake_chunk_def snake_ok_def ring_offsets[OF rings])
  with shared_matches[OF n(4,2,3), of "chain_total prev"] n less.prems
  have ok: "snake_ok a b bases (i + n) (j + n) cs" and diag: "shared_diagonal a b (i + n) (j + n) = shared_diagonal a b i j"
    and cost: "shared_cost a b (i + n) (j + n) (chain_total cs) = shared_cost a b i j (chain_total prev)"
    by (auto simp: snake_ok_def)
  note step = snake_run.simps[of r0 r1 c0 c1 i j i j prev] n(1) chunk
    occurs_shared[OF rings, of "i + n"] occurs_shared(2)[OF rings, of "j + n"]
  consider (skip0) "i + n < length a" "a ! (i + n) \<notin> set b"
    | (skip1) "i + n < length a \<longrightarrow> a ! (i + n) \<in> set b" "j + n < length b" "b ! (j + n) \<notin> set a"
    | (stop) "i + n < length a \<longrightarrow> a ! (i + n) \<in> set b" "j + n < length b \<longrightarrow> b ! (j + n) \<in> set a" by blast
  then show ?case
  proof cases
    case skip0
    with step n have run: "snake_run r0 r1 c0 c1 i j i j prev = snake_run r0 r1 c0 c1 (Suc (i + n)) (j + n) (Suc (i + n)) (j + n) cs"
      by (simp add: next_in_ring[OF rings])
    from skip0 ok less(1)[of "Suc (i + n)" "j + n" cs] n(2,3) snake_ok_skip(1)[OF ok]
    obtain i' j' cs' where "snake_run r0 r1 c0 c1 (Suc (i + n)) (j + n) (Suc (i + n)) (j + n) cs = Some (i', j', cs')"
      "Suc (i + n) \<le> i'" "j + n \<le> j'" "settled a b i' j'" "snake_ok a b bases i' j' cs'"
      "shared_diagonal a b i' j' = shared_diagonal a b (Suc (i + n)) (j + n)"
      "shared_cost a b i' j' (chain_total cs') = shared_cost a b (Suc (i + n)) (j + n) (chain_total cs)"
      by force
    with run diag cost skip0 show ?thesis by (auto simp: shared_skip)
  next
    case skip1
    with step n have run: "snake_run r0 r1 c0 c1 i j i j prev = snake_run r0 r1 c0 c1 (i + n) (Suc (j + n)) (i + n) (Suc (j + n)) cs"
      by (simp add: next_in_ring[OF rings])
    from skip1 ok less(1)[of "i + n" "Suc (j + n)" cs] n(2,3) snake_ok_skip(2)[OF ok]
    obtain i' j' cs' where "snake_run r0 r1 c0 c1 (i + n) (Suc (j + n)) (i + n) (Suc (j + n)) cs = Some (i', j', cs')"
      "i + n \<le> i'" "Suc (j + n) \<le> j'" "settled a b i' j'" "snake_ok a b bases i' j' cs'"
      "shared_diagonal a b i' j' = shared_diagonal a b (i + n) (Suc (j + n))"
      "shared_cost a b i' j' (chain_total cs') = shared_cost a b (i + n) (Suc (j + n)) (chain_total cs)"
      by force
    with run diag cost skip1 show ?thesis by (auto simp: shared_skip)
  next
    case stop
    with step n have run: "snake_run r0 r1 c0 c1 i j i j prev = Some (i + n, j + n, cs)" by simp
    from stop n have "settled a b (i + n) (j + n)" by (auto simp: settled_def)
    with run ok diag cost show ?thesis by auto
  qed
qed

section \<open>A diagonal\<close>

text \<open>The entry of a diagonal that has been followed at cost \<open>p\<close>.\<close>

definition followed :: "int list \<Rightarrow> int list \<Rightarrow> int \<times> int \<Rightarrow> int \<Rightarrow> int \<Rightarrow> diff_snake \<Rightarrow> nat \<Rightarrow> nat \<Rightarrow> bool" where
  "followed a b bases k p s i j \<longleftrightarrow> fp_y s = snd bases + int j \<and> fp_pos0 s = Some i \<and> fp_pos1 s = Some j \<and>
    settled a b i j \<and> snake_ok a b bases i j (fp_lcs s) \<and> shared_diagonal a b i j = k \<and>
    shared_cost a b i j (chain_total (fp_lcs s)) \<le> 2 * p"

text \<open>An entry is as far as cost \<open>p\<close> goes: not followed, and no path gets there, or followed, and no path gets
  further.\<close>

definition entry_ok :: "int list \<Rightarrow> int list \<Rightarrow> int \<times> int \<Rightarrow> int \<Rightarrow> int \<Rightarrow> diff_snake \<Rightarrow> bool" where
  "entry_ok a b bases k p s \<longleftrightarrow>
    fp_y s = 0 \<and> none_further (shared b a) (shared a b) k p (- 1) \<or>
    (\<exists>i j. followed a b bases k p s i j \<and> none_further (shared b a) (shared a b) k p (int (rank a b j)))"

abbreviation lcs_finished :: "int list \<Rightarrow> int list \<Rightarrow> int \<Rightarrow> bool" where
  "lcs_finished a b p \<equiv> finished (shared b a) (shared a b) p"

text \<open>A followed diagonal can be left on both sides.\<close>

lemma followed_path:
  assumes "followed a b bases k p s i j"
  shows "edit_path (shared b a) (shared a b) (rank b a i) (rank a b j) (chain_total (fp_lcs s))"
    "path_cost (shared b a) (shared a b) (rank b a i) (rank a b j) (chain_total (fp_lcs s)) \<le> 2 * p"
    "diagonal (shared b a) (shared a b) (rank b a i) (rank a b j) = k" "i \<le> length a" "j \<le> length b"
  using assms by (auto simp: followed_def snake_ok_def shared_path_def shared_cost_def shared_diagonal_def settled_def)

lemma leave_by_insertion:
  assumes "followed a b bases (k - 1) (if k \<le> 0 then p else p - 1) s i j" "\<not> lcs_finished a b (p - 1)"
  shows "j < length b"
proof (rule ccontr)
  note path = followed_path[OF assms(1)]
  assume "\<not> j < length b"
  with path(5) have j: "rank a b j = length (shared a b)" by simp
  with path(3) rank_le[of b a i] have "k > 0" by (simp add: diagonal_def)
  with path(1,2) j have "edit_path (shared b a) (shared a b) (rank b a i) (length (shared a b)) (chain_total (fp_lcs s))"
    "path_cost (shared b a) (shared a b) (rank b a i) (length (shared a b)) (chain_total (fp_lcs s)) \<le> 2 * (p - 1)" by auto
  from not_finished_target[OF this assms(2)] show False .
qed

lemma leave_by_deletion:
  assumes "followed a b bases (k + 1) (if k \<ge> 0 then p else p - 1) s i j" "\<not> lcs_finished a b (p - 1)"
  shows "i < length a"
proof (rule ccontr)
  note path = followed_path[OF assms(1)]
  assume "\<not> i < length a"
  with path(4) have i: "rank b a i = length (shared b a)" by simp
  with path(3) rank_le[of a b j] have "k < 0" by (simp add: diagonal_def)
  with path(1,2) i have "edit_path (shared b a) (shared a b) (length (shared b a)) (rank a b j) (chain_total (fp_lcs s))"
    "path_cost (shared b a) (shared a b) (length (shared b a)) (rank a b j) (chain_total (fp_lcs s)) \<le> 2 * (p - 1)" by auto
  from not_finished_source[OF this assms(2)] show False .
qed

text \<open>The start of the snake on diagonal \<open>k\<close>.\<close>

lemma insertion_start:
  assumes "followed a b bases (k - 1) (if k \<le> 0 then p else p - 1) s i j" "j < length b"
  shows "snake_ok a b bases i (Suc j) (fp_lcs s) \<and> shared_diagonal a b i (Suc j) = k \<and>
    shared_cost a b i (Suc j) (chain_total (fp_lcs s)) \<le> 2 * p \<and> rank a b (Suc j) = Suc (rank a b j)"
proof -
  from assms have "b ! j \<in> set a" by (auto simp: followed_def settled_def)
  with assms show ?thesis
    using edit_path.Insert[OF followed_path(1)[OF assms(1)]] rank_less[of j b a]
    by (auto simp: followed_def snake_ok_def shared_path_def shared_diagonal_def shared_cost_def path_cost_def diagonal_def
        rank_Suc intro: chain_ok_mono split: if_splits)
qed

lemma deletion_start:
  assumes "followed a b bases (k + 1) (if k \<ge> 0 then p else p - 1) s i j" "i < length a"
  shows "snake_ok a b bases (Suc i) j (fp_lcs s) \<and> shared_diagonal a b (Suc i) j = k \<and>
    shared_cost a b (Suc i) j (chain_total (fp_lcs s)) \<le> 2 * p"
proof -
  from assms have "a ! i \<in> set b" by (auto simp: followed_def settled_def)
  with assms show ?thesis
    using edit_path.Delete[OF followed_path(1)[OF assms(1)]] rank_less[of i a b]
    by (auto simp: followed_def snake_ok_def shared_path_def shared_diagonal_def shared_cost_def path_cost_def diagonal_def
        rank_Suc intro: chain_ok_mono split: if_splits)
qed

text \<open>A snake from a start that no path has passed ends where no path passes.\<close>

lemma settled_stop:
  assumes "settled a b i j" "shared_diagonal a b i j = k"
    and "diagonal (shared b a) (shared a b) x y = k" "y = rank a b j" "x < length (shared b a)" "y < length (shared a b)"
  shows "shared b a ! x \<noteq> shared a b ! y"
proof -
  from assms(2,3,4) have x: "x = rank b a i" by (simp add: shared_diagonal_def diagonal_def)
  with assms(1,4-6) have "i < length a" "j < length b"
    by (auto simp: settled_def order_le_less)
  with assms(1,4) x show ?thesis by (auto simp: settled_def shared_nth_rank)
qed

lemma snake_entry:
  assumes rings: "lcs_rings a b bases r0 r1 c0 c1"
    and start: "snake_ok a b bases i j prev" "shared_diagonal a b i j = k" "shared_cost a b i j (chain_total prev) \<le> 2 * p"
    and lower: "none_further (shared b a) (shared a b) (k - 1) (if k \<le> 0 then p else p - 1) e1"
    and upper: "none_further (shared b a) (shared a b) (k + 1) (if k \<ge> 0 then p else p - 1) e2"
    and past: "e1 + 1 \<le> int (rank a b j)" "e2 \<le> int (rank a b j)"
  shows "\<exists>i' j' cs. snake_run r0 r1 c0 c1 i j i j prev = Some (i', j', cs) \<and>
    (\<exists>i'' j''. followed a b bases k p \<lparr>fp_y = pos_offset (r1 ! j'), fp_lcs = cs, fp_pos0 = Some i', fp_pos1 = Some j'\<rparr> i'' j'' \<and>
      none_further (shared b a) (shared a b) k p (int (rank a b j'')))"
proof -
  from snake_run_result[OF rings start(1)] obtain i' j' cs where
    run: "snake_run r0 r1 c0 c1 i j i j prev = Some (i', j', cs)" "j \<le> j'" "settled a b i' j'" "snake_ok a b bases i' j' cs"
      "shared_diagonal a b i' j' = shared_diagonal a b i j" "shared_cost a b i' j' (chain_total cs) = shared_cost a b i j (chain_total prev)"
    by blast
  have "rank a b j \<le> rank a b j'" using run(2) by (rule rank_mono)
  with past have "e1 + 1 \<le> int (rank a b j')" "e2 \<le> int (rank a b j')" by auto
  with run start have "none_further (shared b a) (shared a b) k p (int (rank a b j'))"
    by (intro none_further_step[OF lower upper]) (auto dest!: settled_stop)
  with run start show ?thesis
    by (auto simp: followed_def settled_def ring_offsets[OF rings])
qed

text \<open>The step of the algorithm: from the entries of the neighbouring diagonals to the entry of this one.\<close>

lemma svn_diff_snake_entry:
  assumes rings: "lcs_rings a b bases r0 r1 c0 c1" and unfinished: "\<not> lcs_finished a b (p - 1)"
    and lower: "entry_ok a b bases (k - 1) (if k \<le> 0 then p else p - 1) lower"
    and upper: "entry_ok a b bases (k + 1) (if k \<ge> 0 then p else p - 1) upper"
    and some: "fp_y lower \<noteq> 0 \<or> fp_y upper \<noteq> 0"
  shows "\<exists>s i j. svn_diff_snake r0 r1 c0 c1 lower upper = Some s \<and> followed a b bases k p s i j \<and>
    none_further (shared b a) (shared a b) k p (int (rank a b j))"
proof (cases "fp_y lower \<ge> fp_y upper")
  case True
  have bases: "snd bases \<ge> 1" using rings by (simp add: lcs_rings_def)
  with True some upper have "fp_y lower \<noteq> 0" by (auto simp: entry_ok_def followed_def)
  with lower obtain i j where low: "followed a b bases (k - 1) (if k \<le> 0 then p else p - 1) lower i j"
    "none_further (shared b a) (shared a b) (k - 1) (if k \<le> 0 then p else p - 1) (int (rank a b j))" by (auto simp: entry_ok_def)
  note j = leave_by_insertion[OF low(1) unfinished]
  note start = insertion_start[OF low(1) j]
  obtain e2 where e2: "none_further (shared b a) (shared a b) (k + 1) (if k \<ge> 0 then p else p - 1) e2" "e2 \<le> int (rank a b (Suc j))"
  proof -
    from upper show thesis unfolding entry_ok_def
    proof (elim disjE exE conjE)
      fix i2 j2 assume "followed a b bases (k + 1) (if 0 \<le> k then p else p - 1) upper i2 j2"
        and none: "none_further (shared b a) (shared a b) (k + 1) (if 0 \<le> k then p else p - 1) (int (rank a b j2))"
      with True low have "j2 \<le> Suc j" by (simp add: followed_def)
      with none show thesis by (intro that[of "int (rank a b j2)"]) (auto intro: rank_mono)
    qed (rule that[of "-1"], auto)
  qed
  from start snake_entry[OF rings, of i "Suc j" "fp_lcs lower" k p, OF _ _ _ low(2) e2(1) _ e2(2)]
  obtain i' j' cs where "snake_run r0 r1 c0 c1 i (Suc j) i (Suc j) (fp_lcs lower) = Some (i', j', cs)"
    "\<exists>i'' j''. followed a b bases k p \<lparr>fp_y = pos_offset (r1 ! j'), fp_lcs = cs, fp_pos0 = Some i', fp_pos1 = Some j'\<rparr> i'' j'' \<and>
      none_further (shared b a) (shared a b) k p (int (rank a b j''))" by force
  moreover have "fp_pos0 lower = Some i" "fp_pos1 lower = Some j" "next_position r1 j = Suc j"
    using low(1) j by (auto simp: followed_def next_in_ring[OF rings])
  ultimately show ?thesis using True by (simp add: svn_diff_snake_def Let_def; blast)
next
  case False
  have bases: "snd bases \<ge> 1" using rings by (simp add: lcs_rings_def)
  with False lower have "fp_y upper \<noteq> 0" by (auto simp: entry_ok_def followed_def)
  with upper obtain i j where up: "followed a b bases (k + 1) (if k \<ge> 0 then p else p - 1) upper i j"
    "none_further (shared b a) (shared a b) (k + 1) (if k \<ge> 0 then p else p - 1) (int (rank a b j))" by (auto simp: entry_ok_def)
  note i = leave_by_deletion[OF up(1) unfinished]
  note start = deletion_start[OF up(1) i]
  obtain e1 where e1: "none_further (shared b a) (shared a b) (k - 1) (if k \<le> 0 then p else p - 1) e1" "e1 + 1 \<le> int (rank a b j)"
  proof -
    from lower show thesis unfolding entry_ok_def
    proof (elim disjE exE conjE)
      fix i2 j2 assume low: "followed a b bases (k - 1) (if k \<le> 0 then p else p - 1) lower i2 j2"
        and none: "none_further (shared b a) (shared a b) (k - 1) (if k \<le> 0 then p else p - 1) (int (rank a b j2))"
      with False up have "j2 < j" "j \<le> length b" "j2 < length b \<longrightarrow> b ! j2 \<in> set a" by (auto simp: followed_def settled_def)
      with none rank_strict[of j2 j b a] show thesis by (intro that[of "int (rank a b j2)"]) auto
    qed (rule that[of "-1"], auto)
  qed
  from start snake_entry[OF rings, of "Suc i" j "fp_lcs upper" k p, OF _ _ _ e1(1) up(2) e1(2)]
  obtain i' j' cs where "snake_run r0 r1 c0 c1 (Suc i) j (Suc i) j (fp_lcs upper) = Some (i', j', cs)"
    "\<exists>i'' j''. followed a b bases k p \<lparr>fp_y = pos_offset (r1 ! j'), fp_lcs = cs, fp_pos0 = Some i', fp_pos1 = Some j'\<rparr> i'' j'' \<and>
      none_further (shared b a) (shared a b) k p (int (rank a b j''))" by force
  moreover have "fp_pos1 upper = Some j" "fp_pos0 upper = Some i" "next_position r0 i = Suc i"
    using up(1) i by (auto simp: followed_def next_in_ring[OF rings])
  ultimately show ?thesis using False by (simp add: svn_diff_snake_def Let_def; blast)
qed

section \<open>A pass over the diagonals\<close>

text \<open>The array of diagonals, where diagonal \<open>k\<close> has been followed at cost \<open>q k\<close>. The slot before the first diagonal
  stands for the begin of both files until it is followed itself.\<close>

definition fp_state :: "int list \<Rightarrow> int list \<Rightarrow> int \<times> int \<Rightarrow> (int \<Rightarrow> int) \<Rightarrow> diff_fp \<Rightarrow> bool" where
  "fp_state a b bases q fp \<longleftrightarrow>
    (\<forall>k. - int (length (shared a b)) - 1 \<le> k \<and> k \<le> int (length (shared b a)) + 1 \<longrightarrow>
      (\<exists>s. fp k = Some s \<and> entry_ok a b bases k (q k) s)) \<and>
    (\<forall>s. fp (shared_diagonal a b 0 0 - 1) = Some s \<longrightarrow> fp_y s = 0 \<longrightarrow>
      fp_lcs s = [] \<and> fp_pos0 s = Some 0 \<and> fp_pos1 s = Some (length b))"

lemma fp_state_entry:
  "fp_state a b bases q fp \<Longrightarrow> - int (length (shared a b)) - 1 \<le> k \<Longrightarrow> k \<le> int (length (shared b a)) + 1 \<Longrightarrow>
    \<exists>s. fp k = Some s \<and> entry_ok a b bases k (q k) s"
  by (auto simp: fp_state_def)

lemma fp_state_update:
  assumes "fp_state a b bases q fp" "followed a b bases k p s i j"
    "none_further (shared b a) (shared a b) k p (int (rank a b j))" "1 \<le> snd bases"
  shows "fp_state a b bases (q(k := p)) (fp(k \<mapsto> s))"
  using assms by (auto simp: fp_state_def entry_ok_def followed_def)

lemma not_followed_outside:
  assumes "entry_ok a b bases k (p - 1) s" "k < min (shared_diagonal a b 0 0) 0 - p \<or> k > max (shared_diagonal a b 0 0) 0 + p"
  shows "entry_ok a b bases k p s"
proof -
  have outside: "none_further (shared b a) (shared a b) k p e" "none_further (shared b a) (shared a b) k (p - 1) e" for e
    using assms(2) by (auto simp: shared_diagonal_def intro!: none_further_outside)
  have False if f: "followed a b bases k (p - 1) s i j" for i j
    using outside(2)[of "- 1"] followed_path[OF f] unfolding none_further_def by fastforce
  with assms(1) outside show ?thesis by (auto simp: entry_ok_def)
qed

lemma fp_state_outside:
  assumes "fp_state a b bases q fp"
    and "\<And>k. q' k = q k \<or> q' k = p \<and> q k = p - 1 \<and> (k < min (shared_diagonal a b 0 0) 0 - p \<or> k > max (shared_diagonal a b 0 0) 0 + p)"
  shows "fp_state a b bases q' fp"
proof -
  have "entry_ok a b bases k (q' k) s" if "entry_ok a b bases k (q k) s" for k s
    using assms(2)[of k] that not_followed_outside[of a b bases k p s] by auto
  with assms(1) show ?thesis unfolding fp_state_def by blast
qed

text \<open>A diagonal in the range of a pass has a neighbour that has been followed, except the first.\<close>

lemma neighbour_path:
  fixes a b :: "'a list"
  assumes "min (diagonal a b 0 0) 0 - p \<le> k" "k \<le> max (diagonal a b 0 0) 0 + p" "0 \<le> p"
    "p \<le> int (min (length a) (length b))" "\<not> (p = 0 \<and> k = diagonal a b 0 0)"
  shows "\<not> none_further a b (k - 1) (if k \<le> 0 then p else p - 1) (- 1) \<or> \<not> none_further a b (k + 1) (if k \<ge> 0 then p else p - 1) (- 1)"
proof -
  have moves: "edit_path a b x y 0" if "x \<le> length a" "y \<le> length b" for x y
    using that edit_path_inserts[OF edit_path_deletes[OF edit_path.Start, where n = x], where n = y] by simp
  have path: "\<not> none_further a b k' p' (- 1)"
    if "x \<le> length a" "y \<le> length b" "diagonal a b x y = k'" "path_cost a b x y 0 \<le> 2 * p'" for x y k' p'
    using moves[OF that(1,2)] that(3,4) unfolding none_further_def by force
  define d where "d = diagonal a b 0 0"
  consider "k > d" | "k < d" | "k = d" "d > 0" "1 \<le> p" | "k = d" "d \<le> 0" "1 \<le> p" using assms(3,5) by (force simp: d_def)
  then show ?thesis
  proof cases
    case 1
    show ?thesis
      by (rule disjI1, rule path[of 0 "nat (k - 1 - d)"]) (use 1 assms in \<open>auto simp: d_def diagonal_def path_cost_def\<close>)
  next
    case 2
    show ?thesis
      by (rule disjI2, rule path[of "nat (d - k - 1)" 0]) (use 2 assms in \<open>auto simp: d_def diagonal_def path_cost_def\<close>)
  next
    case 3
    show ?thesis
      by (rule disjI2, rule path[of 0 1]) (use 3 assms in \<open>auto simp: d_def diagonal_def path_cost_def\<close>)
  next
    case 4
    show ?thesis
      by (rule disjI1, rule path[of 1 0]) (use 4 assms in \<open>auto simp: d_def diagonal_def path_cost_def\<close>)
  qed
qed

lemma target_diagonal_path: 
  fixes a b :: "'a list"
  assumes p: "0 \<le> p"
  shows "\<not> none_further a b 0 p (- 1)"
proof -
  let ?x = "length a - length b" and ?y = "length b - length a"
  have "edit_path a b ?x ?y 0"
    using edit_path_inserts[OF edit_path_deletes[OF edit_path.Start, where n = ?x, of a b], where n = ?y] by simp
  moreover have "diagonal a b ?x ?y = 0" "path_cost a b ?x ?y 0 = 0" by (auto simp: diagonal_def path_cost_def)
  ultimately show ?thesis using p unfolding none_further_def by force
qed

lemma first_snake:
  assumes rings: "lcs_rings a b bases r0 r1 c0 c1" and "fp_y lower = 0" "fp_y upper = 0"
    and lower: "entry_ok a b bases (k - 1) (if k \<le> 0 then p else p - 1) lower"
    and upper: "entry_ok a b bases (k + 1) (if k \<ge> 0 then p else p - 1) upper"
    and slot: "fp_lcs lower = []" "fp_pos0 lower = Some 0" "fp_pos1 lower = Some (length b)"
    and k: "k = shared_diagonal a b 0 0" and p: "0 \<le> p"
  shows "\<exists>s i j. svn_diff_snake r0 r1 c0 c1 lower upper = Some s \<and> followed a b bases k p s i j \<and>
    none_further (shared b a) (shared a b) k p (int (rank a b j))"
proof -
  have bases: "snd bases \<ge> 1" using rings by (simp add: lcs_rings_def)
  have "none_further (shared b a) (shared a b) (k - 1) (if k \<le> 0 then p else p - 1) (- 1)"
    "none_further (shared b a) (shared a b) (k + 1) (if k \<ge> 0 then p else p - 1) (- 1)"
    using lower upper assms(2,3) bases by (auto simp: entry_ok_def followed_def)
  note entry = snake_entry[OF rings _ _ _ this, of 0 0 "[]"]
  have "snake_ok a b bases 0 0 []" by (auto simp: snake_ok_def shared_path_def intro: edit_path.Start)
  moreover have "shared_cost a b 0 0 (chain_total []) \<le> 2 * p" using p by (simp add: shared_cost_def path_cost_def)
  ultimately obtain i' j' cs where "snake_run r0 r1 c0 c1 0 0 0 0 [] = Some (i', j', cs)"
    "\<exists>i'' j''. followed a b bases k p \<lparr>fp_y = pos_offset (r1 ! j'), fp_lcs = cs, fp_pos0 = Some i', fp_pos1 = Some j'\<rparr> i'' j'' \<and>
      none_further (shared b a) (shared a b) k p (int (rank a b j''))" using entry k by force
  moreover have "next_position r1 (length b) = 0" by (simp add: next_position_def ring_lengths[OF rings])
  ultimately show ?thesis using assms(2,3) slot by (simp add: svn_diff_snake_def Let_def; blast)
qed

lemma snake_at_step:
  assumes rings: "lcs_rings a b bases r0 r1 c0 c1" and unfinished: "\<not> lcs_finished a b (p - 1)" and p: "0 \<le> p"
    and state: "fp_state a b bases q fp"
    and q: "q (k - 1) = (if k \<le> 0 then p else p - 1)" "q (k + 1) = (if k \<ge> 0 then p else p - 1)"
    and k: "min (shared_diagonal a b 0 0) 0 - p \<le> k" "k \<le> max (shared_diagonal a b 0 0) 0 + p"
  shows "\<exists>fp'. snake_at r0 r1 c0 c1 fp k = Some fp' \<and> fp_state a b bases (q(k := p)) fp'"
proof -
  have le: "p \<le> int (min (length (shared b a)) (length (shared a b)))"
    using unfinished finished_at_last[of "shared b a" "shared a b" "p - 1"] by linarith
  with k have range: "- int (length (shared a b)) \<le> k" "k \<le> int (length (shared b a))"
    by (auto simp: shared_diagonal_def diagonal_def)
  obtain lower upper current where fp: "fp (k - 1) = Some lower" "fp (k + 1) = Some upper" "fp k = Some current"
    and lower: "entry_ok a b bases (k - 1) (if k \<le> 0 then p else p - 1) lower"
    and upper: "entry_ok a b bases (k + 1) (if k \<ge> 0 then p else p - 1) upper"
    using fp_state_entry[OF state, of "k - 1"] fp_state_entry[OF state, of "k + 1"] fp_state_entry[OF state, of k] range q by auto
  have bases: "snd bases \<ge> 1" using rings by (simp add: lcs_rings_def)
  have "\<exists>s i j. svn_diff_snake r0 r1 c0 c1 lower upper = Some s \<and> followed a b bases k p s i j \<and>
    none_further (shared b a) (shared a b) k p (int (rank a b j))"
  proof (cases "fp_y lower \<noteq> 0 \<or> fp_y upper \<noteq> 0")
    case True
    then show ?thesis by (rule svn_diff_snake_entry[OF rings unfinished lower upper])
  next
    case False
    then have none: "none_further (shared b a) (shared a b) (k - 1) (if k \<le> 0 then p else p - 1) (- 1)"
      "none_further (shared b a) (shared a b) (k + 1) (if k \<ge> 0 then p else p - 1) (- 1)"
      using lower upper bases by (auto simp: entry_ok_def followed_def)
    have "k = shared_diagonal a b 0 0"
      using neighbour_path[of "shared b a" "shared a b" p k] k p le none by (auto simp: shared_diagonal_def)
    with False state fp(1) p show ?thesis
      by (intro first_snake[OF rings _ _ lower upper]) (auto simp: fp_state_def)
  qed
  then obtain s i j where "svn_diff_snake r0 r1 c0 c1 lower upper = Some s" "followed a b bases k p s i j"
    "none_further (shared b a) (shared a b) k p (int (rank a b j))" by blast
  with fp fp_state_update[OF state _ _ bases] show ?thesis by (auto simp: snake_at_def)
qed

lemma snakes_up_pass:
  assumes rings: "lcs_rings a b bases r0 r1 c0 c1" and unfinished: "\<not> lcs_finished a b (p - 1)" and p: "0 \<le> p"
  shows "fp_state a b bases (\<lambda>i. if i < k then p else p - 1) fp \<Longrightarrow> min (shared_diagonal a b 0 0) 0 - p \<le> k \<Longrightarrow> k \<le> 0 \<Longrightarrow>
    \<exists>fp'. snakes_up r0 r1 c0 c1 k fp = Some fp' \<and> fp_state a b bases (\<lambda>i. if i < 0 then p else p - 1) fp'"
proof (induction "nat (- k)" arbitrary: k fp)
  case 0
  then show ?case by (simp add: snakes_up.simps)
next
  case (Suc n)
  then have k: "k < 0" by simp
  then have "k \<le> max (shared_diagonal a b 0 0) 0 + p" using p by simp
  with snake_at_step[OF assms Suc.prems(1), of k] Suc.prems k obtain fp' where
    step: "snake_at r0 r1 c0 c1 fp k = Some fp'" "fp_state a b bases ((\<lambda>i. if i < k then p else p - 1)(k := p)) fp'" by auto
  have "((\<lambda>i. if i < k then p else p - 1)(k := p)) = (\<lambda>i. if i < k + 1 then p else p - 1)" by auto
  with step Suc k show ?case by (subst snakes_up.simps) auto
qed

lemma snakes_down_pass:
  assumes rings: "lcs_rings a b bases r0 r1 c0 c1" and unfinished: "\<not> lcs_finished a b (p - 1)" and p: "0 \<le> p"
  shows "fp_state a b bases (\<lambda>i. if i < 0 \<or> i > k then p else p - 1) fp \<Longrightarrow> k \<le> max (shared_diagonal a b 0 0) 0 + p \<Longrightarrow> - 1 \<le> k \<Longrightarrow>
    \<exists>fp'. snakes_down r0 r1 c0 c1 k fp = Some fp' \<and> fp_state a b bases (\<lambda>_. p) fp'"
proof (induction "nat (k + 1)" arbitrary: k fp)
  case 0
  then have "k = - 1" by simp
  moreover have "(\<lambda>i :: int. if i < 0 \<or> i > - 1 then p else p - 1) = (\<lambda>_. p)" by (rule ext) auto
  ultimately show ?case using 0 by (simp add: snakes_down.simps)
next
  case (Suc n)
  then have k: "k \<ge> 0" by simp
  then have "min (shared_diagonal a b 0 0) 0 - p \<le> k" "k < 1 \<longleftrightarrow> k = 0" using p by auto
  with snake_at_step[OF assms Suc.prems(1), of k] Suc.prems k obtain fp' where
    step: "snake_at r0 r1 c0 c1 fp k = Some fp'" "fp_state a b bases ((\<lambda>i. if i < 0 \<or> i > k then p else p - 1)(k := p)) fp'" by auto
  have "((\<lambda>i. if i < 0 \<or> i > k then p else p - 1)(k := p)) = (\<lambda>i. if i < 0 \<or> i > k - 1 then p else p - 1)" by auto
  with step Suc k show ?case by (subst snakes_down.simps) auto
qed

section \<open>The main loop\<close>

lemma lcs_pass:
  assumes rings: "lcs_rings a b bases r0 r1 c0 c1" and unfinished: "\<not> lcs_finished a b (p - 1)" and p: "0 \<le> p"
    and state: "fp_state a b bases (\<lambda>_. p - 1) fp" and d: "d = shared_diagonal a b 0 0"
  shows "\<exists>fp' target i j. lcs_passes r0 r1 c0 c1 d p fp =
      (if fp_pos1 target \<noteq> Some (length b) then lcs_passes r0 r1 c0 c1 d (p + 1) fp' else Some target) \<and>
    fp_state a b bases (\<lambda>_. p) fp' \<and> followed a b bases 0 p target i j \<and>
    none_further (shared b a) (shared a b) 0 p (int (rank a b j))"
proof -
  have bases: "snd bases \<ge> 1" using rings by (simp add: lcs_rings_def)
  let ?lo = "(if d < 0 then d else 0) - p" and ?hi = "(if d > 0 then d else 0) + p"
  have lo: "?lo = min (shared_diagonal a b 0 0) 0 - p" and hi: "?hi = max (shared_diagonal a b 0 0) 0 + p"
    by (auto simp: d min_def max_def)
  have "fp_state a b bases (\<lambda>i. if i < ?lo then p else p - 1) fp"
    unfolding lo by (rule fp_state_outside[OF state]) auto
  moreover have "?lo \<le> 0" using p by auto
  ultimately obtain fp1 where
    up: "snakes_up r0 r1 c0 c1 ?lo fp = Some fp1" "fp_state a b bases (\<lambda>i. if i < 0 then p else p - 1) fp1"
    using snakes_up_pass[OF rings unfinished p, of ?lo fp] lo by auto
  have "fp_state a b bases (\<lambda>i. if i < 0 \<or> i > ?hi then p else p - 1) fp1"
    unfolding hi by (rule fp_state_outside[OF up(2)]) auto
  moreover have "- 1 \<le> ?hi" using p by auto
  ultimately obtain fp2 where
    down: "snakes_down r0 r1 c0 c1 ?hi fp1 = Some fp2" "fp_state a b bases (\<lambda>_. p) fp2"
    using snakes_down_pass[OF rings unfinished p, of ?hi fp1] hi by auto
  from fp_state_entry[OF down(2), of 0] obtain target where target: "fp2 0 = Some target" "entry_ok a b bases 0 p target" by auto
  from target(2) target_diagonal_path[OF p, of "shared b a" "shared a b"] obtain i j where
    "followed a b bases 0 p target i j" "none_further (shared b a) (shared a b) 0 p (int (rank a b j))"
    by (auto simp: entry_ok_def)
  with up down target show ?thesis
    by (intro exI[of _ fp2] exI[of _ target] exI[of _ i] exI[of _ j])
      (subst lcs_passes.simps, auto simp: ring_lengths[OF rings])
qed

lemma followed_to_end:
  assumes "followed a b bases 0 p s i (length b)"
  shows "i = length a"
proof (rule ccontr)
  assume "i \<noteq> length a"
  with assms have "i < length a" "a ! i \<in> set b" by (auto simp: followed_def settled_def)
  with rank_less[of i a b] followed_path(3)[OF assms] show False by (simp add: diagonal_def)
qed

lemma not_finished_before_end:
  assumes "followed a b bases 0 p s i j" "none_further (shared b a) (shared a b) 0 p (int (rank a b j))" "j \<noteq> length b"
  shows "\<not> lcs_finished a b p"
proof
  assume "lcs_finished a b p"
  with assms(2) have "length (shared a b) \<le> rank a b j" by (force simp: finished_def none_further_def diagonal_def)
  moreover have "j < length b" "b ! j \<in> set a" using assms(1,3) by (auto simp: followed_def settled_def)
  ultimately show False using rank_less[of j b a] by simp
qed

text \<open>The loop ends, with the chunks of a longest common subsequence.\<close>

lemma lcs_passes_result:
  assumes rings: "lcs_rings a b bases r0 r1 c0 c1" and d: "d = shared_diagonal a b 0 0"
  shows "\<not> lcs_finished a b (p - 1) \<Longrightarrow> 0 \<le> p \<Longrightarrow> fp_state a b bases (\<lambda>_. p - 1) fp \<Longrightarrow>
    \<exists>p' s. lcs_passes r0 r1 c0 c1 d p fp = Some s \<and> \<not> lcs_finished a b (p' - 1) \<and>
      followed a b bases 0 p' s (length a) (length b)"
proof (induction "nat (int (min (length (shared b a)) (length (shared a b))) - p)" arbitrary: p fp rule: less_induct)
  case less
  from lcs_pass[OF rings less.prems d] obtain fp' target i j where
    pass: "lcs_passes r0 r1 c0 c1 d p fp = (if fp_pos1 target \<noteq> Some (length b) then lcs_passes r0 r1 c0 c1 d (p + 1) fp' else Some target)"
      "fp_state a b bases (\<lambda>_. p) fp'" "followed a b bases 0 p target i j"
      "none_further (shared b a) (shared a b) 0 p (int (rank a b j))" by blast
  have pos1: "fp_pos1 target = Some j" using pass(3) by (simp add: followed_def)
  show ?case
  proof (cases "j = length b")
    case True
    with pass(3) have "followed a b bases 0 p target (length a) (length b)" using followed_to_end by blast
    with pass(1) pos1 True less.prems show ?thesis by auto
  next
    case False
    with pass not_finished_before_end have unfinished: "\<not> lcs_finished a b p" by blast
    then have "p < int (min (length (shared b a)) (length (shared a b)))"
      using finished_at_last[of "shared b a" "shared a b" p] by linarith
    with less(1)[of "p + 1" fp'] unfinished less.prems(2) pass(2) obtain p' s where
      "lcs_passes r0 r1 c0 c1 d (p + 1) fp' = Some s" "\<not> lcs_finished a b (p' - 1)" "followed a b bases 0 p' s (length a) (length b)"
      by auto
    with pass(1) pos1 False show ?thesis by auto
  qed
qed

lemma longest_common:
  assumes "followed a b bases 0 p s (length a) (length b)" "\<not> lcs_finished a b (p - 1)"
  shows "\<exists>c. subseq c a \<and> subseq c b \<and> length c = chain_total (fp_lcs s)"
    and "subseq c a \<Longrightarrow> subseq c b \<Longrightarrow> length c \<le> chain_total (fp_lcs s)"
proof -
  have path: "edit_path (shared b a) (shared a b) (length (shared b a)) (length (shared a b)) (chain_total (fp_lcs s))"
    using followed_path(1)[OF assms(1)] by simp
  with edit_path_iff_common common_shared show "\<exists>c. subseq c a \<and> subseq c b \<and> length c = chain_total (fp_lcs s)" by metis
  have cost: "int (min (length (shared b a)) (length (shared a b))) - int (chain_total (fp_lcs s)) \<le> p"
    using followed_path(2)[OF assms(1)] by (auto simp: path_cost_def diagonal_def min_def split: if_splits)
  assume "subseq c a" "subseq c b"
  then have "edit_path (shared b a) (shared a b) (length (shared b a)) (length (shared a b)) (length c)"
    using edit_path_iff_common common_shared by metis
  with assms(2) have "\<not> int (min (length (shared b a)) (length (shared a b))) - int (length c) \<le> p - 1"
    by (auto simp: finished_length)
  with cost show "length c \<le> chain_total (fp_lcs s)" by linarith
qed

lemma initial_fp_state:
  assumes rings: "lcs_rings a b bases r0 r1 c0 c1"
  shows "fp_state a b bases (\<lambda>_. - 1) (initial_fp r1 (int (length (shared b a))) (int (length (shared a b))))"
  by (auto simp: fp_state_def initial_fp_def entry_ok_def shared_diagonal_def diagonal_def ring_lengths[OF rings]
      none_further_negative)

section \<open>svn\_diff\_\_get\_token\_counts\<close>

text \<open>The loop starts at the tail of the ring.\<close>

definition svn_diff_get_token_counts :: "diff_ring \<Rightarrow> nat \<Rightarrow> int list" where
  "svn_diff_get_token_counts ps num_tokens =
    foldl (\<lambda>counts p. counts[nat (token_index p) := counts ! nat (token_index p) + 1]) (replicate num_tokens 0)
      (if ps \<noteq> [] then last ps # butlast ps else [])"

lemma token_counts_loop:
  "\<forall>p \<in> set ps. 0 \<le> token_index p \<and> token_index p < int (length counts) \<Longrightarrow> t < length counts \<Longrightarrow>
    foldl (\<lambda>counts p. counts[nat (token_index p) := counts ! nat (token_index p) + 1]) counts ps ! t =
    counts ! t + int (count_list (map token_index ps) (int t))"
proof (induction ps arbitrary: counts)
  case (Cons p ps)
  then show ?case by (subst foldl_Cons, subst Cons.IH) (auto simp: nth_list_update nat_eq_iff)
qed simp

lemma token_counts:
  assumes "\<forall>p \<in> set ps. 0 \<le> token_index p \<and> token_index p < int num_tokens" "t < num_tokens"
  shows "svn_diff_get_token_counts ps num_tokens ! t = int (count_list (map token_index ps) (int t))"
proof (cases "ps = []")
  case False
  let ?ring = "last ps # butlast ps"
  have ring: "mset ?ring = mset ps" using False by (metis append_butlast_last_id mset.simps(2) mset_append add_mset_add_single mset_single_iff)
  have set: "set ?ring = set ps" using mset_eq_setD[OF ring] .
  have count: "count_list (map token_index ?ring) (int t) = count_list (map token_index ps) (int t)"
    using arg_cong[OF ring, of "image_mset token_index"] by (metis count_mset mset_map)
  have "svn_diff_get_token_counts ps num_tokens =
      foldl (\<lambda>counts p. counts[nat (token_index p) := counts ! nat (token_index p) + 1]) (replicate num_tokens 0) ?ring"
    using False by (simp only: svn_diff_get_token_counts_def not_False_eq_True if_True)
  with token_counts_loop[of ?ring "replicate num_tokens 0" t] assms set count show ?thesis by (simp del: foldl_Cons set_simps)
qed (use assms(2) in \<open>simp add: svn_diff_get_token_counts_def\<close>)

lemma unique_count:
  "unique_count counts others n = (\<Sum>t\<leftarrow>[0..<n]. if others ! t = 0 then counts ! t else 0)"
proof -
  have "foldl (\<lambda>n t. if others ! t = 0 then n + counts ! t else n) m ts = m + (\<Sum>t\<leftarrow>ts. if others ! t = 0 then counts ! t else 0)" for m ts
    by (induction ts arbitrary: m) auto
  then show ?thesis by (simp add: unique_count_def)
qed

lemma sum_counts:
  "\<forall>t \<in> set a. 0 \<le> t \<and> t < int n \<Longrightarrow>
    (\<Sum>t\<leftarrow>[0..<n]. if P (int t) then int (count_list a (int t)) else 0) = int (length (filter P a))"
proof (induction a)
  case Nil
  show ?case by (induction n) auto
next
  case (Cons x a)
  have "(\<Sum>t\<leftarrow>[0..<n]. if P (int t) then int (count_list (x # a) (int t)) else 0) =
      (\<Sum>t\<leftarrow>[0..<n]. (if P (int t) then int (count_list a (int t)) else 0) + (if int t = x \<and> P x then 1 else 0))"
    by (intro arg_cong[where f = sum_list] map_cong) auto
  also have "\<dots> = int (length (filter P a)) + (\<Sum>t\<leftarrow>[0..<n]. if int t = x \<and> P x then 1 else 0)"
    using Cons by (subst sum_list_addf) auto
  also have "(\<Sum>t\<leftarrow>[0..<n]. if int t = x \<and> P x then 1 else 0) = (if P x then 1 else (0 :: int))"
  proof -
    have "(\<Sum>t\<leftarrow>[0..<n]. if int t = x \<and> P x then 1 else 0) = (\<Sum>t\<in>{0..<n}. if t = nat x then (if P x then 1 else (0::int)) else 0)"
      unfolding sum_set_upt_conv_sum_list_nat[symmetric]
      by (rule sum.cong) (use Cons.prems in \<open>auto simp: nat_eq_iff\<close>)
    then show ?thesis using Cons.prems by (auto simp: nat_less_iff)
  qed
  finally show ?case by simp
qed

lemma count_list_zero: "int (count_list a t) = 0 \<longleftrightarrow> t \<notin> set a"
  by (simp add: count_list_0_iff)

section \<open>What svn\_diff\_\_lcs returns\<close>

text \<open>A chain of chunks for two files, from positions \<open>u\<close> and \<open>v\<close> on: stretches of equal tokens in order, and at the end
  the chunk of length 0 at the end of both files. Offsets count from 1.\<close>

fun lcs_chain :: "'a list \<Rightarrow> 'a list \<Rightarrow> nat \<Rightarrow> nat \<Rightarrow> diff_lcs list \<Rightarrow> bool" where
  "lcs_chain f0 f1 u v [] = False"
| "lcs_chain f0 f1 u v (c # cs) = (\<exists>i j n. u \<le> i \<and> v \<le> j \<and> i + n \<le> length f0 \<and> j + n \<le> length f1 \<and>
    c = \<lparr>lcs_offset0 = 1 + int i, lcs_offset1 = 1 + int j, lcs_length = int n\<rparr> \<and>
    (\<forall>m < n. f0 ! (i + m) = f1 ! (j + m)) \<and>
    (if n = 0 then i = length f0 \<and> j = length f1 \<and> cs = [] else lcs_chain f0 f1 (i + n) (j + n) cs))"

lemma lcs_chain_mono:
  assumes "lcs_chain f0 f1 u v cs" "u' \<le> u" "v' \<le> v"
  shows "lcs_chain f0 f1 u' v' cs"
proof (cases cs)
  case (Cons c ds)
  from assms(1)[unfolded Cons lcs_chain.simps] show ?thesis unfolding Cons lcs_chain.simps
  proof (elim exE, goal_cases)
    case (1 i j n)
    with assms(2,3) show ?case by (intro exI[of _ i] exI[of _ j] exI[of _ n]) auto
  qed
qed (use assms in simp)

lemma lcs_chain_ConsI:
  assumes "lcs_chain f0 f1 (i + n) (j + n) cs" "0 < n" "\<And>m. m < n \<Longrightarrow> f0 ! (i + m) = f1 ! (j + m)"
    "u \<le> i" "v \<le> j" "i + n \<le> length f0" "j + n \<le> length f1" "o0 = 1 + int i" "o1 = 1 + int j" "l = int n"
  shows "lcs_chain f0 f1 u v (\<lparr>lcs_offset0 = o0, lcs_offset1 = o1, lcs_length = l\<rparr> # cs)"
  unfolding lcs_chain.simps by (rule exI[of _ i], rule exI[of _ j], rule exI[of _ n]) (use assms in auto)

lemma lcs_chain_eofI:
  "u \<le> length f0 \<Longrightarrow> v \<le> length f1 \<Longrightarrow> o0 = 1 + int (length f0) \<Longrightarrow> o1 = 1 + int (length f1) \<Longrightarrow>
    lcs_chain f0 f1 u v [\<lparr>lcs_offset0 = o0, lcs_offset1 = o1, lcs_length = 0\<rparr>]"
  unfolding lcs_chain.simps by (rule exI[of _ "length f0"], rule exI[of _ "length f1"], rule exI[of _ 0]) auto

lemma chain_total_append [simp]: "chain_total (cs @ ds) = chain_total cs + chain_total ds"
  by (simp add: chain_total_def)

lemma chain_total_rev [simp]: "chain_total (rev cs) = chain_total cs"
  by (induction cs) auto

lemma lcs_chain_middle:
  "chain_ok a b (int (length P) + 1, int (length P) + 1) i j cs \<Longrightarrow> i \<le> length a \<Longrightarrow> j \<le> length b \<Longrightarrow>
    lcs_chain (P @ a @ S) (P @ b @ S) (length P + i) (length P + j) rest \<Longrightarrow>
    lcs_chain (P @ a @ S) (P @ b @ S) (length P) (length P) (rev cs @ rest)"
proof (induction cs arbitrary: i j rest)
  case Nil
  then show ?case by (auto elim: lcs_chain_mono)
next
  case (Cons c cs)
  then obtain u v n where c: "0 < n" "u + n \<le> i" "v + n \<le> j"
    "c = \<lparr>lcs_offset0 = int (length P) + 1 + int u, lcs_offset1 = int (length P) + 1 + int v, lcs_length = int n\<rparr>"
    "\<forall>m < n. a ! (u + m) = b ! (v + m)" "chain_ok a b (int (length P) + 1, int (length P) + 1) u v cs" by auto
  have "(P @ a @ S) ! (length P + u + m) = (P @ b @ S) ! (length P + v + m)" if "m < n" for m
    using that c(2,3,5) Cons.prems(2,3) by (simp add: nth_append)
  moreover have "lcs_chain (P @ a @ S) (P @ b @ S) (length P + u + n) (length P + v + n) rest"
    using Cons.prems(4) c(2,3) by (auto elim: lcs_chain_mono)
  ultimately have "lcs_chain (P @ a @ S) (P @ b @ S) (length P + u) (length P + v) (c # rest)"
    unfolding c(4) using c(1-3) Cons.prems(2,3)
    by (intro lcs_chain_ConsI[where i = "length P + u" and j = "length P + v" and n = n]) auto
  with Cons.IH[OF c(6), of "c # rest"] c(2,3) Cons.prems(2,3) show ?case by simp
qed

text \<open>The chunks of the common suffix and the end of the files, and of the common prefix.\<close>

lemma lcs_chain_suffix:
  assumes "eof = \<lparr>lcs_offset0 = int (length P + length a + length S) + 1, lcs_offset1 = int (length P + length b + length S) + 1, lcs_length = 0\<rparr>"
  shows "\<exists>cs. prepend_suffix (int (length S)) eof lcs = Some (cs @ lcs) \<and> chain_total cs = length S \<and>
    lcs_chain (P @ a @ S) (P @ b @ S) (length P + length a) (length P + length b) (rev cs @ [eof]) \<and>
    prepend_suffix (int (length S)) eof [eof] = Some (rev cs @ [eof])"
proof (cases "S = []")
  case True
  with assms show ?thesis by (auto simp: prepend_suffix_def intro!: lcs_chain_eofI exI[of _ "[]"])
next
  case False
  let ?c = "\<lparr>lcs_offset0 = int (length P + length a) + 1, lcs_offset1 = int (length P + length b) + 1, lcs_length = int (length S)\<rparr>"
  have "prepend_suffix (int (length S)) eof lcs = Some (?c # lcs)" "prepend_suffix (int (length S)) eof [eof] = Some [?c, eof]"
    using False assms by (auto simp: prepend_suffix_def prepend_lcs_def)
  moreover have "(P @ a @ S) ! (length P + length a + m) = (P @ b @ S) ! (length P + length b + m)" for m
    by (simp add: nth_append)
  moreover have "lcs_chain (P @ a @ S) (P @ b @ S) (length P + length a) (length P + length b) [?c, eof]"
    unfolding assms using False calculation(3)
    by (intro lcs_chain_ConsI[where i = "length P + length a" and j = "length P + length b" and n = "length S"] lcs_chain_eofI) auto
  ultimately show ?thesis by (intro exI[of _ "[?c]"]) auto
qed

lemma lcs_chain_prefix:
  assumes "lcs_chain (P @ f0) (P @ f1) (length P) (length P) cs"
  shows "\<exists>ds. prepend_prefix (int (length P)) cs = Some ds \<and> chain_total ds = length P + chain_total cs \<and>
    lcs_chain (P @ f0) (P @ f1) 0 0 ds"
proof (cases "P = []")
  case False
  have "lcs_chain (P @ f0) (P @ f1) 0 0 (\<lparr>lcs_offset0 = 1, lcs_offset1 = 1, lcs_length = int (length P)\<rparr> # cs)"
    using False assms by (intro lcs_chain_ConsI[where i = 0 and j = 0 and n = "length P"]) (auto simp: nth_append)
  with False show ?thesis by (auto simp: prepend_prefix_def prepend_lcs_def)
qed (use assms in \<open>auto simp: prepend_prefix_def\<close>)

section \<open>Longest common subsequences of files with a common prefix and suffix\<close>

definition longest_common_length :: "'a list \<Rightarrow> 'a list \<Rightarrow> nat \<Rightarrow> bool" where
  "longest_common_length f0 f1 n \<longleftrightarrow> (\<exists>c. subseq c f0 \<and> subseq c f1 \<and> length c = n) \<and>
    (\<forall>c. subseq c f0 \<longrightarrow> subseq c f1 \<longrightarrow> length c \<le> n)"

lemma longest_common_Cons:
  assumes "longest_common_length f0 f1 n" shows "longest_common_length (x # f0) (x # f1) (Suc n)"
proof -
  from assms obtain c where "subseq c f0" "subseq c f1" "length c = n" by (auto simp: longest_common_length_def)
  then have "subseq (x # c) (x # f0) \<and> subseq (x # c) (x # f1) \<and> length (x # c) = Suc n" by simp
  moreover have "length c \<le> Suc n" if "subseq c (x # f0)" "subseq c (x # f1)" for c
  proof (cases c)
    case (Cons y d)
    with that have "subseq d f0" "subseq d f1" by (auto simp: subseq_Cons' split: if_splits dest: subseq_Cons')
    with assms Cons show ?thesis by (auto simp: longest_common_length_def)
  qed simp
  ultimately show ?thesis unfolding longest_common_length_def by blast
qed

lemma subseq_rev: "subseq xs ys \<Longrightarrow> subseq (rev xs) (rev ys)"
  by (induction rule: list_emb.induct) (auto intro: subseq_rev_drop_many)

lemma longest_common_rev: "longest_common_length (rev f0) (rev f1) n \<longleftrightarrow> longest_common_length f0 f1 n"
proof -
  have "longest_common_length (rev f0) (rev f1) n" if "longest_common_length f0 f1 n" for f0 f1 :: "'a list"
    using that unfolding longest_common_length_def by (metis subseq_rev length_rev rev_rev_ident)
  from this[of f0 f1] this[of "rev f0" "rev f1"] show ?thesis by auto
qed

lemma longest_common_prefix: "longest_common_length f0 f1 n \<Longrightarrow> longest_common_length (P @ f0) (P @ f1) (length P + n)"
  by (induction P) (auto intro: longest_common_Cons)

lemma longest_common_suffix: "longest_common_length f0 f1 n \<Longrightarrow> longest_common_length (f0 @ S) (f1 @ S) (n + length S)"
  using longest_common_prefix[of "rev f0" "rev f1" n "rev S"] longest_common_rev[of "f0 @ S" "f1 @ S"]
  by (simp add: longest_common_rev add.commute)

lemma map_inj_subseq:
  assumes "subseq c (map h xs)" obtains d where "c = map h d" "subseq d xs"
proof -
  have "subseq c (map h xs) \<Longrightarrow> \<exists>d. c = map h d \<and> subseq d xs"
  proof (induction xs arbitrary: c)
    case Nil
    then show ?case by (cases c) auto
  next
    case (Cons x xs)
    show ?case
    proof (cases c)
      case Nil
      then show ?thesis by simp
    next
      case (Cons y e)
      show ?thesis
      proof (cases "y = h x")
        case True
        with Cons Cons.prems Cons.IH[of e] obtain d where "e = map h d" "subseq d xs" by auto
        with Cons True show ?thesis by (intro exI[of _ "x # d"]) auto
      next
        case False
        with Cons Cons.prems have "subseq c (map h xs)" by simp
        from Cons.IH[OF this] obtain d where "c = map h d" "subseq d xs" by blast
        then show ?thesis by (intro exI[of _ d]) auto
      qed
    qed
  qed
  with assms that show thesis by blast
qed

lemma longest_common_map:
  assumes "inj_on h (set f0 \<union> set f1)" "longest_common_length (map h f0) (map h f1) n"
  shows "longest_common_length f0 f1 n"
proof -
  have same: "d = e" if "map h d = map h e" "subseq d f0" "subseq e f1" for d e
  proof -
    have "set d \<union> set e \<subseteq> set f0 \<union> set f1" using subseq_set[OF that(2)] subseq_set[OF that(3)] by blast
    with that(1) assms(1) show ?thesis by (metis inj_on_map_eq_map inj_on_subset)
  qed
  from assms(2) obtain c where c: "subseq c (map h f0)" "subseq c (map h f1)" "length c = n"
    by (auto simp: longest_common_length_def)
  from c(1,2) obtain d e where "c = map h d" "subseq d f0" "c = map h e" "subseq e f1" by (metis map_inj_subseq)
  with same[of d e] c(3) have "subseq d f0 \<and> subseq d f1 \<and> length d = n" by auto
  moreover have "length c \<le> n" if "subseq c f0" "subseq c f1" for c
    using assms(2) subseq_map[OF that(1), of h] subseq_map[OF that(2), of h] by (auto simp: longest_common_length_def)
  ultimately show ?thesis by (auto simp: longest_common_length_def)
qed

lemma chain_ok_lines:
  "chain_ok (map h f0) (map h f1) bases i j cs \<Longrightarrow> inj_on h (set f0 \<union> set f1) \<Longrightarrow> i \<le> length f0 \<Longrightarrow> j \<le> length f1 \<Longrightarrow>
    chain_ok f0 f1 bases i j cs"
proof (induction cs arbitrary: i j)
  case (Cons c cs)
  then obtain u v n where c: "0 < n" "u + n \<le> i" "v + n \<le> j" "c = \<lparr>lcs_offset0 = fst bases + int u, lcs_offset1 = snd bases + int v, lcs_length = int n\<rparr>"
    "\<forall>m < n. map h f0 ! (u + m) = map h f1 ! (v + m)" "chain_ok (map h f0) (map h f1) bases u v cs" by auto
  have "f0 ! (u + m) = f1 ! (v + m)" if "m < n" for m
    using c(2,3,5) that Cons.prems(3,4) inj_onD[OF Cons.prems(2), of "f0 ! (u + m)" "f1 ! (v + m)"] by simp
  with c Cons show ?case by (auto intro!: exI[of _ u] exI[of _ v])
qed simp

lemma positions_ends:
  assumes "positions_of c base ps" "c \<noteq> []"
  shows "pos_offset (hd ps) = base" "pos_offset (last ps) = base + int (length c) - 1" "ps \<noteq> []"
proof -
  from assms have "length ps = length c" by (simp add: positions_of_def)
  moreover from this assms(2) have "ps \<noteq> []" by auto
  ultimately show "pos_offset (hd ps) = base" "pos_offset (last ps) = base + int (length c) - 1" "ps \<noteq> []"
    using assms by (auto simp: positions_of_def hd_conv_nth last_conv_nth of_nat_diff Suc_le_eq)
qed

lemma lcs_input:
  assumes "positions_of a base0 ps0" "positions_of b base1 ps1" "a \<noteq> []" "b \<noteq> []" "1 \<le> base1"
    and "\<forall>t \<in> set a \<union> set b. 0 \<le> t \<and> t < int num_tokens"
  defines "c0 \<equiv> svn_diff_get_token_counts ps0 num_tokens" and "c1 \<equiv> svn_diff_get_token_counts ps1 num_tokens"
  shows "lcs_rings a b (base0, base1) (with_sentinel ps0 (- 1)) (with_sentinel ps1 (- 2)) c0 c1"
    and "lcs_source_length ps0 c0 c1 num_tokens = int (length (shared b a))"
    and "lcs_source_length ps1 c1 c0 num_tokens = int (length (shared a b))"
proof -
  have maps: "map token_index ps0 = a" "map token_index ps1 = b" "length ps0 = length a" "length ps1 = length b"
    using assms(1,2) by (auto simp: positions_of_def intro: nth_equalityI)
  have "\<forall>p \<in> set ps0. 0 \<le> token_index p \<and> token_index p < int num_tokens"
    "\<forall>p \<in> set ps1. 0 \<le> token_index p \<and> token_index p < int num_tokens"
    using assms(6) maps(1,2) by auto
  note counts = this[THEN token_counts, unfolded maps(1,2)]
  have zeros: "c0 ! t = 0 \<longleftrightarrow> int t \<notin> set a" "c1 ! t = 0 \<longleftrightarrow> int t \<notin> set b" if "t < num_tokens" for t
    using counts[OF that] by (simp_all add: c0_def c1_def count_list_0_iff)
  have zero: "(c0 ! nat t = 0 \<longleftrightarrow> t \<notin> set a) \<and> (c1 ! nat t = 0 \<longleftrightarrow> t \<notin> set b)" if "t \<in> set a \<union> set b" for t
    using that assms(6) zeros[of "nat t"] by (auto simp: nat_less_iff)
  have sentinel: "positions_of (c @ [s]) base (with_sentinel ps s)" if "positions_of c base ps" "c \<noteq> []" for c ps s base
    using that positions_ends(2)[OF that] by (auto simp: positions_of_def with_sentinel_def nth_append less_Suc_eq)
  show "lcs_rings a b (base0, base1) (with_sentinel ps0 (- 1)) (with_sentinel ps1 (- 2)) c0 c1"
    using assms(1-6) sentinel zero by (auto simp: lcs_rings_def)
  have ends: "pos_offset (last ps) - pos_offset (hd ps) + 1 = int (length c)" if "positions_of c base ps" "c \<noteq> []" for c ps base
    using positions_ends[OF that] by simp
  have unique: "unique_count c0 c1 num_tokens = int (length (filter (\<lambda>t. t \<notin> set b) a))"
    "unique_count c1 c0 num_tokens = int (length (filter (\<lambda>t. t \<notin> set a) b))"
  proof -
    have "unique_count c0 c1 num_tokens = (\<Sum>t\<leftarrow>[0..<num_tokens]. if int t \<notin> set b then int (count_list a (int t)) else 0)"
      "unique_count c1 c0 num_tokens = (\<Sum>t\<leftarrow>[0..<num_tokens]. if int t \<notin> set a then int (count_list b (int t)) else 0)"
      unfolding unique_count using zeros counts by (auto simp: c0_def c1_def intro!: arg_cong[where f = sum_list])
    moreover have "\<forall>t \<in> set a. 0 \<le> t \<and> t < int num_tokens" "\<forall>t \<in> set b. 0 \<le> t \<and> t < int num_tokens" using assms(6) by auto
    note this[THEN sum_counts]
    ultimately show "unique_count c0 c1 num_tokens = int (length (filter (\<lambda>t. t \<notin> set b) a))"
      "unique_count c1 c0 num_tokens = int (length (filter (\<lambda>t. t \<notin> set a) b))" by simp_all
  qed
  have split: "length (filter P c) + length (filter (\<lambda>t. \<not> P t) c) = length c" for P and c :: "int list"
    by (rule sum_length_filter_compl)
  show "lcs_source_length ps0 c0 c1 num_tokens = int (length (shared b a))"
    "lcs_source_length ps1 c1 c0 num_tokens = int (length (shared a b))"
    using ends[OF assms(1,3)] ends[OF assms(2,4)] unique split[of "\<lambda>t. t \<in> set b" a] split[of "\<lambda>t. t \<in> set a" b]
    by (simp_all add: lcs_source_length_def shared_def)
qed

text \<open>The search itself, for two files that both have tokens: \<open>h\<close> gives the index of the token of a line.\<close>

lemma lcs_passes_lines:
  assumes "positions_of (map h f0) base0 ps0" "positions_of (map h f1) base1 ps1" "f0 \<noteq> []" "f1 \<noteq> []" "1 \<le> base1"
    and "\<forall>x \<in> set f0 \<union> set f1. 0 \<le> h x \<and> h x < int num_tokens" "inj_on h (set f0 \<union> set f1)"
  defines "c0 \<equiv> svn_diff_get_token_counts ps0 num_tokens" and "c1 \<equiv> svn_diff_get_token_counts ps1 num_tokens"
  shows "\<exists>s. lcs_passes (with_sentinel ps0 (- 1)) (with_sentinel ps1 (- 2)) c0 c1
      (lcs_source_length ps0 c0 c1 num_tokens - lcs_source_length ps1 c1 c0 num_tokens) 0
      (initial_fp (with_sentinel ps1 (- 2)) (lcs_source_length ps0 c0 c1 num_tokens) (lcs_source_length ps1 c1 c0 num_tokens)) = Some s \<and>
    chain_ok f0 f1 (base0, base1) (length f0) (length f1) (fp_lcs s) \<and> longest_common_length f0 f1 (chain_total (fp_lcs s))"
proof -
  let ?a = "map h f0" and ?b = "map h f1"
  note input = lcs_input[OF assms(1,2), of num_tokens]
  have rings: "lcs_rings ?a ?b (base0, base1) (with_sentinel ps0 (- 1)) (with_sentinel ps1 (- 2)) c0 c1"
    and len: "lcs_source_length ps0 c0 c1 num_tokens = int (length (shared ?b ?a))"
      "lcs_source_length ps1 c1 c0 num_tokens = int (length (shared ?a ?b))"
    using input assms(3-6) by (auto simp: c0_def c1_def)
  have "\<not> lcs_finished ?a ?b (- 1)" by (auto simp: finished_length dest: edit_path_bounds)
  then obtain p' s where
    run: "lcs_passes (with_sentinel ps0 (- 1)) (with_sentinel ps1 (- 2)) c0 c1 (shared_diagonal ?a ?b 0 0) 0
        (initial_fp (with_sentinel ps1 (- 2)) (int (length (shared ?b ?a))) (int (length (shared ?a ?b)))) = Some s"
      "\<not> lcs_finished ?a ?b (p' - 1)" "followed ?a ?b (base0, base1) 0 p' s (length ?a) (length ?b)"
    using lcs_passes_result[OF rings refl, of 0, simplified, OF _ initial_fp_state[OF rings]] by auto
  have d: "shared_diagonal ?a ?b 0 0 = int (length (shared ?b ?a)) - int (length (shared ?a ?b))"
    by (simp add: shared_diagonal_def diagonal_def)
  have "longest_common_length ?a ?b (chain_total (fp_lcs s))"
    using longest_common[OF run(3,2)] by (auto simp: longest_common_length_def)
  then have "longest_common_length f0 f1 (chain_total (fp_lcs s))" by (rule longest_common_map[OF assms(7)])
  moreover have "chain_ok f0 f1 (base0, base1) (length f0) (length f1) (fp_lcs s)"
    using run(3) by (intro chain_ok_lines[OF _ assms(7)]) (auto simp: followed_def snake_ok_def)
  ultimately show ?thesis using run(1) len d by auto
qed

text \<open>The files are \<open>P @ f0 @ S\<close> and \<open>P @ f1 @ S\<close>, of which \<open>f0\<close> and \<open>f1\<close> have been read as tokens.\<close>

lemma svn_diff_lcs_result:
  assumes "positions_of (map h f0) (int (length P) + 1) ps0" "positions_of (map h f1) (int (length P) + 1) ps1"
    and "\<forall>x \<in> set f0 \<union> set f1. 0 \<le> h x \<and> h x < int num_tokens" "inj_on h (set f0 \<union> set f1)"
  shows "\<exists>cs. svn_diff_lcs ps0 ps1 (svn_diff_get_token_counts ps0 num_tokens) (svn_diff_get_token_counts ps1 num_tokens)
      num_tokens (int (length P)) (int (length S)) = Some cs \<and>
    lcs_chain (P @ f0 @ S) (P @ f1 @ S) 0 0 cs \<and> longest_common_length (P @ f0 @ S) (P @ f1 @ S) (chain_total cs)"
proof -
  let ?eof = "\<lparr>lcs_offset0 = eof_offset ps0 (int (length P)) (int (length S)),
               lcs_offset1 = eof_offset ps1 (int (length P)) (int (length S)), lcs_length = 0\<rparr>"
  have lengths: "length ps0 = length f0" "length ps1 = length f1" using assms(1,2) by (auto simp: positions_of_def)
  then have empty: "ps0 = [] \<longleftrightarrow> f0 = []" "ps1 = [] \<longleftrightarrow> f1 = []" by auto
  have eof: "?eof = \<lparr>lcs_offset0 = int (length P + length f0 + length S) + 1, lcs_offset1 = int (length P + length f1 + length S) + 1, lcs_length = 0\<rparr>"
    using positions_ends(2)[OF assms(1)] positions_ends(2)[OF assms(2)] empty by (auto simp: eof_offset_def)
  have suffix: "\<exists>cs. prepend_suffix (int (length S)) ?eof lcs = Some (cs @ lcs) \<and> chain_total cs = length S \<and>
      lcs_chain (P @ f0 @ S) (P @ f1 @ S) (length P + length f0) (length P + length f1) (rev cs @ [?eof]) \<and>
      prepend_suffix (int (length S)) ?eof [?eof] = Some (rev cs @ [?eof])" for lcs
    by (rule lcs_chain_suffix[OF eof])
  have result: ?thesis
    if "svn_diff_lcs ps0 ps1 (svn_diff_get_token_counts ps0 num_tokens) (svn_diff_get_token_counts ps1 num_tokens)
        num_tokens (int (length P)) (int (length S)) = prepend_prefix (int (length P)) ds"
      "lcs_chain (P @ f0 @ S) (P @ f1 @ S) (length P) (length P) ds" "longest_common_length f0 f1 n" "chain_total ds = n + length S" for ds n
    using lcs_chain_prefix[OF that(2)] longest_common_prefix[OF longest_common_suffix[OF that(3)], of P S] that(1,4) by auto
  show ?thesis
  proof (cases "f0 = [] \<or> f1 = []")
    case True
    from suffix[of "[]"] obtain cs where "chain_total cs = length S"
      "lcs_chain (P @ f0 @ S) (P @ f1 @ S) (length P + length f0) (length P + length f1) (rev cs @ [?eof])"
      "prepend_suffix (int (length S)) ?eof [?eof] = Some (rev cs @ [?eof])" by blast
    moreover have "longest_common_length f0 f1 0" using True by (auto simp: longest_common_length_def)
    ultimately show ?thesis
      using True lengths by (intro result[of "rev cs @ [?eof]" 0]) (auto simp: svn_diff_lcs_def elim: lcs_chain_mono)
  next
    case False
    from lcs_passes_lines[OF assms(1,2) _ _ _ assms(3,4)] False obtain s where
      run: "lcs_passes (with_sentinel ps0 (- 1)) (with_sentinel ps1 (- 2)) (svn_diff_get_token_counts ps0 num_tokens)
          (svn_diff_get_token_counts ps1 num_tokens)
          (lcs_source_length ps0 (svn_diff_get_token_counts ps0 num_tokens) (svn_diff_get_token_counts ps1 num_tokens) num_tokens -
           lcs_source_length ps1 (svn_diff_get_token_counts ps1 num_tokens) (svn_diff_get_token_counts ps0 num_tokens) num_tokens) 0
          (initial_fp (with_sentinel ps1 (- 2))
            (lcs_source_length ps0 (svn_diff_get_token_counts ps0 num_tokens) (svn_diff_get_token_counts ps1 num_tokens) num_tokens)
            (lcs_source_length ps1 (svn_diff_get_token_counts ps1 num_tokens) (svn_diff_get_token_counts ps0 num_tokens) num_tokens)) = Some s"
        "chain_ok f0 f1 (int (length P) + 1, int (length P) + 1) (length f0) (length f1) (fp_lcs s)"
        "longest_common_length f0 f1 (chain_total (fp_lcs s))" by auto
    from suffix[of "fp_lcs s"] obtain cs where cs: "prepend_suffix (int (length S)) ?eof (fp_lcs s) = Some (cs @ fp_lcs s)"
      "chain_total cs = length S"
      "lcs_chain (P @ f0 @ S) (P @ f1 @ S) (length P + length f0) (length P + length f1) (rev cs @ [?eof])" by blast
    have "lcs_chain (P @ f0 @ S) (P @ f1 @ S) (length P) (length P) (rev (fp_lcs s) @ rev cs @ [?eof])"
      using run(2) cs(3) by (auto intro: lcs_chain_middle)
    then show ?thesis using cs run(3) False lengths run(1)
      by (intro result[of "rev (fp_lcs s) @ rev cs @ [?eof]" "chain_total (fp_lcs s)"]) (auto simp: svn_diff_lcs_def Let_def)
  qed
qed

text \<open>Parts of two files, with offsets of their own: there is no prefix and no suffix, and if one of the parts is empty,
  its end has offset 1.\<close>

lemma svn_diff_lcs_parts:
  assumes "positions_of (map h f0) base0 ps0" "positions_of (map h f1) base1 ps1" "1 \<le> base1"
    and "\<forall>x \<in> set f0 \<union> set f1. 0 \<le> h x \<and> h x < int num_tokens" "inj_on h (set f0 \<union> set f1)"
  shows "\<exists>cs. svn_diff_lcs ps0 ps1 (svn_diff_get_token_counts ps0 num_tokens) (svn_diff_get_token_counts ps1 num_tokens) num_tokens 0 0 =
      Some (rev cs @ [\<lparr>lcs_offset0 = (if f0 = [] then 1 else base0 + int (length f0)),
                        lcs_offset1 = (if f1 = [] then 1 else base1 + int (length f1)), lcs_length = 0\<rparr>]) \<and>
    chain_ok f0 f1 (base0, base1) (length f0) (length f1) cs \<and> longest_common_length f0 f1 (chain_total cs)"
proof -
  let ?eof = "\<lparr>lcs_offset0 = (if f0 = [] then 1 else base0 + int (length f0)), lcs_offset1 = (if f1 = [] then 1 else base1 + int (length f1)), lcs_length = 0\<rparr>"
  have "length ps0 = length f0" "length ps1 = length f1" using assms(1,2) by (auto simp: positions_of_def)
  then have empty: "ps0 = [] \<longleftrightarrow> f0 = []" "ps1 = [] \<longleftrightarrow> f1 = []" by auto
  then have eof: "\<lparr>lcs_offset0 = eof_offset ps0 0 0, lcs_offset1 = eof_offset ps1 0 0, lcs_length = 0\<rparr> = ?eof"
    using positions_ends(2)[OF assms(1)] positions_ends(2)[OF assms(2)] by (auto simp: eof_offset_def)
  show ?thesis
  proof (cases "f0 = [] \<or> f1 = []")
    case True
    then have "longest_common_length f0 f1 0" by (auto simp: longest_common_length_def)
    with True empty show ?thesis unfolding svn_diff_lcs_def eof
      by (intro exI[of _ "[]"]) (auto simp: prepend_suffix_def prepend_prefix_def)
  next
    case False
    with lcs_passes_lines[OF assms(1,2) _ _ assms(3-5)] empty show ?thesis
      unfolding svn_diff_lcs_def eof by (auto simp: Let_def prepend_suffix_def prepend_prefix_def)
  qed
qed

text \<open>C7. \<open>svn_diff__lcs\<close> ends without leaving its array or following a pointer that is not set, and returns the chunks
  of a longest common subsequence of the two files, with the prefix and the suffix that were not compared.\<close>

theorem svn_diff_lcs_correct:
  assumes "positions_of (map h f0) (int (length P) + 1) ps0" "positions_of (map h f1) (int (length P) + 1) ps1"
    and "\<forall>x \<in> set f0 \<union> set f1. 0 \<le> h x \<and> h x < int num_tokens" "inj_on h (set f0 \<union> set f1)"
  shows "\<exists>cs. svn_diff_lcs ps0 ps1 (svn_diff_get_token_counts ps0 num_tokens) (svn_diff_get_token_counts ps1 num_tokens)
      num_tokens (int (length P)) (int (length S)) = Some cs \<and>
    lcs_chain (P @ f0 @ S) (P @ f1 @ S) 0 0 cs \<and> longest_common_length (P @ f0 @ S) (P @ f1 @ S) (chain_total cs)"
  by (rule svn_diff_lcs_result[OF assms])

definition abc_positions :: diff_ring where
  "abc_positions = [\<lparr>token_index = 0, pos_offset = 2\<rparr>, \<lparr>token_index = 1, pos_offset = 3\<rparr>, \<lparr>token_index = 2, pos_offset = 4\<rparr>]"

definition bca_positions :: diff_ring where
  "bca_positions = [\<lparr>token_index = 1, pos_offset = 2\<rparr>, \<lparr>token_index = 2, pos_offset = 3\<rparr>, \<lparr>token_index = 0, pos_offset = 4\<rparr>]"

theorem svn_diff_lcs_correct_witness:
  "\<exists>cs. svn_diff_lcs abc_positions bca_positions (svn_diff_get_token_counts abc_positions 3) (svn_diff_get_token_counts bca_positions 3)
      3 1 0 = Some cs \<and>
    lcs_chain (''x'' @ ''abc'' @ []) (''x'' @ ''bca'' @ []) 0 0 cs \<and>
    longest_common_length (''x'' @ ''abc'' @ []) (''x'' @ ''bca'' @ []) (chain_total cs)"
proof -
  let ?h = "\<lambda>c. if c = CHR ''a'' then 0 else if c = CHR ''b'' then 1 else (2 :: int)"
  have "positions_of (map ?h ''abc'') (int (length ''x'') + 1) abc_positions"
    "positions_of (map ?h ''bca'') (int (length ''x'') + 1) bca_positions"
    by (auto simp: positions_of_def abc_positions_def bca_positions_def less_Suc_eq numeral_3_eq_3)
  moreover have "inj_on ?h (set ''abc'' \<union> set ''bca'')" by (auto simp: inj_on_def)
  moreover have "\<forall>x \<in> set ''abc'' \<union> set ''bca''. 0 \<le> ?h x \<and> ?h x < int 3" by auto
  ultimately show ?thesis
    using svn_diff_lcs_correct[of ?h "''abc''" "''x''" abc_positions "''bca''" bca_positions 3 "[]"] by simp
qed

end
