(* ===== verification/Diff_Tokens.thy ===== *)
theory Diff_Tokens
  imports Diff_Lcs
begin

text \<open>
  Two-way differences (\<open>libsvn_diff/token.c\<close>, \<open>diff.c\<close>): the hunks of a chain of chunks, the tree that gives tokens
  their indexes, and \<open>svn_diff_diff_2\<close>. The locale \<open>diff_source\<close> is the contract of the callbacks that read the files;
  the algorithm is proved in it, for every data source.
\<close>

section \<open>svn\_diff\_\_diff\<close>

datatype svn_diff_type =
    Type_common
  | Type_diff_modified
  | Type_diff_latest
  | Type_diff_common
  | Type_conflict

text \<open>\<open>svn_diff_t\<close>; the list of the hunks stands for the chain of \<open>next\<close>. Offsets count from 0 here.\<close>

datatype svn_diff = Svn_diff
  (diff_type: svn_diff_type)
  (original_start: int) (original_length: int)
  (modified_start: int) (modified_length: int)
  (latest_start: int) (latest_length: int)
  (resolved_diff: "svn_diff list")

text \<open>\<open>None\<close> would be a chain without its end.\<close>

fun svn_diff_diff :: "diff_lcs list \<Rightarrow> int \<Rightarrow> int \<Rightarrow> bool \<Rightarrow> svn_diff list option" where
  "svn_diff_diff [] ostart mstart want_common = None"
| "svn_diff_diff (lcs # chain) ostart mstart want_common =
    (let modified = (if ostart < lcs_offset0 lcs \<or> mstart < lcs_offset1 lcs
                     then [Svn_diff Type_diff_modified (ostart - 1) (lcs_offset0 lcs - ostart)
                             (mstart - 1) (lcs_offset1 lcs - mstart) 0 0 []]
                     else [])
     in if lcs_length lcs = 0 then Some modified
        else
          let common = (if want_common
                        then [Svn_diff Type_common (lcs_offset0 lcs - 1) (lcs_length lcs)
                                (lcs_offset1 lcs - 1) (lcs_length lcs) 0 0 []]
                        else [])
          in map_option (\<lambda>rest. modified @ common @ rest)
               (svn_diff_diff chain (lcs_offset0 lcs + lcs_length lcs) (lcs_offset1 lcs + lcs_length lcs) want_common))"

text \<open>What a list of hunks says of two files: they follow each other from positions \<open>i\<close> and \<open>j\<close> to the ends, a common
  hunk stands for equal lines and no hunk is empty.\<close>

fun two_way :: "'a list \<Rightarrow> 'a list \<Rightarrow> nat \<Rightarrow> nat \<Rightarrow> svn_diff list \<Rightarrow> bool" where
  "two_way f0 f1 i j [] \<longleftrightarrow> i = length f0 \<and> j = length f1"
| "two_way f0 f1 i j (h # hs) \<longleftrightarrow> (\<exists>m n. original_start h = int i \<and> original_length h = int m \<and>
    modified_start h = int j \<and> modified_length h = int n \<and> 0 < m + n \<and>
    i + m \<le> length f0 \<and> j + n \<le> length f1 \<and>
    (diff_type h = Type_common \<and> take m (drop i f0) = take n (drop j f1) \<or> diff_type h = Type_diff_modified) \<and>
    two_way f0 f1 (i + m) (j + n) hs)"

definition hunk_lines :: "'a list \<Rightarrow> int \<Rightarrow> int \<Rightarrow> 'a list" where
  "hunk_lines f start len = take (nat len) (drop (nat start) f)"

text \<open>The second file, put together from the first and the modified hunks, and the number of common lines.\<close>

definition patched :: "'a list \<Rightarrow> 'a list \<Rightarrow> svn_diff list \<Rightarrow> 'a list" where
  "patched f0 f1 hs = concat (map (\<lambda>h. if diff_type h = Type_common
     then hunk_lines f0 (original_start h) (original_length h)
     else hunk_lines f1 (modified_start h) (modified_length h)) hs)"

definition unpatched :: "'a list \<Rightarrow> 'a list \<Rightarrow> svn_diff list \<Rightarrow> 'a list" where
  "unpatched f0 f1 hs = concat (map (\<lambda>h. if diff_type h = Type_common
     then hunk_lines f1 (modified_start h) (modified_length h)
     else hunk_lines f0 (original_start h) (original_length h)) hs)"

definition common_lines :: "svn_diff list \<Rightarrow> nat" where
  "common_lines hs = (\<Sum>h\<leftarrow>hs. if diff_type h = Type_common then nat (original_length h) else 0)"

lemma two_way_patched: "two_way f0 f1 i j hs \<Longrightarrow> patched f0 f1 hs = drop j f1"
proof (induction hs arbitrary: i j)
  case (Cons h hs)
  then obtain m n where h: "original_start h = int i" "original_length h = int m" "modified_start h = int j" "modified_length h = int n"
    "diff_type h = Type_common \<and> take m (drop i f0) = take n (drop j f1) \<or> diff_type h = Type_diff_modified"
    "two_way f0 f1 (i + m) (j + n) hs" by auto
  have "take n (drop j f1) @ drop (j + n) f1 = drop j f1"
    by (metis append_take_drop_id drop_drop add.commute)
  with Cons.IH[OF h(6)] h(1-5) show ?case by (auto simp: patched_def hunk_lines_def)
qed (simp add: patched_def)

lemma two_way_unpatched: "two_way f0 f1 i j hs \<Longrightarrow> unpatched f0 f1 hs = drop i f0"
proof (induction hs arbitrary: i j)
  case (Cons h hs)
  then obtain m n where h: "original_start h = int i" "original_length h = int m" "modified_start h = int j" "modified_length h = int n"
    "diff_type h = Type_common \<and> take m (drop i f0) = take n (drop j f1) \<or> diff_type h = Type_diff_modified"
    "two_way f0 f1 (i + m) (j + n) hs" by auto
  have "take m (drop i f0) @ drop (i + m) f0 = drop i f0"
    by (metis append_take_drop_id drop_drop add.commute)
  with Cons.IH[OF h(6)] h(1-5) show ?case by (auto simp: unpatched_def hunk_lines_def)
qed (simp add: unpatched_def)

lemma two_way_ConsI:
  assumes "two_way f0 f1 (i + m) (j + n) hs" "original_start h = int i" "original_length h = int m"
    "modified_start h = int j" "modified_length h = int n" "0 < m + n" "i + m \<le> length f0" "j + n \<le> length f1"
    "diff_type h = Type_common \<and> take m (drop i f0) = take n (drop j f1) \<or> diff_type h = Type_diff_modified"
  shows "two_way f0 f1 i j (h # hs)"
  unfolding two_way.simps by (rule exI[of _ m], rule exI[of _ n]) (use assms in auto)

lemma two_way_diff:
  "lcs_chain f0 f1 i j cs \<Longrightarrow> i \<le> length f0 \<Longrightarrow> j \<le> length f1 \<Longrightarrow>
    \<exists>hs. svn_diff_diff cs (int i + 1) (int j + 1) True = Some hs \<and> two_way f0 f1 i j hs \<and> common_lines hs = chain_total cs"
proof (induction cs arbitrary: i j)
  case (Cons c cs)
  then obtain u v n where c: "i \<le> u" "j \<le> v" "u + n \<le> length f0" "v + n \<le> length f1"
    "c = \<lparr>lcs_offset0 = 1 + int u, lcs_offset1 = 1 + int v, lcs_length = int n\<rparr>" "\<forall>m < n. f0 ! (u + m) = f1 ! (v + m)"
    "if n = 0 then u = length f0 \<and> v = length f1 \<and> cs = [] else lcs_chain f0 f1 (u + n) (v + n) cs" by auto
  let ?gap = "if i < u \<or> j < v then [Svn_diff Type_diff_modified (int i) (int u - int i) (int j) (int v - int j) 0 0 []] else []"
  have gap: "two_way f0 f1 i j (?gap @ hs) \<and> common_lines (?gap @ hs) = common_lines hs" if "two_way f0 f1 u v hs" for hs
  proof (cases "i < u \<or> j < v")
    case True
    with that c(1-4) show ?thesis
      by (auto simp: common_lines_def of_nat_diff simp del: two_way.simps
          intro!: two_way_ConsI[where m = "u - i" and n = "v - j"])
  qed (use that c(1,2) in auto)
  show ?case
  proof (cases "n = 0")
    case True
    with c gap[of "[]"] show ?thesis by (auto simp: common_lines_def)
  next
    case False
    with c(7) Cons.IH[of "u + n" "v + n"] c(3,4) obtain hs where
      hs: "svn_diff_diff cs (int (u + n) + 1) (int (v + n) + 1) True = Some hs" "two_way f0 f1 (u + n) (v + n) hs"
        "common_lines hs = chain_total cs" by auto
    let ?h = "Svn_diff Type_common (int u) (int n) (int v) (int n) 0 0 []"
    have "take n (drop u f0) = take n (drop v f1)" using c(3,4,6) by (auto intro!: nth_equalityI)
    with hs(2) c(3,4) False have "two_way f0 f1 u v (?h # hs)" by (auto intro!: exI[of _ n])
    with gap have "two_way f0 f1 i j (?gap @ ?h # hs)" "common_lines (?gap @ ?h # hs) = common_lines (?h # hs)" by blast+
    with hs(1,3) c(5) False show ?thesis by (auto simp: common_lines_def algebra_simps)
  qed
qed simp

section \<open>The callbacks of a data source\<close>

datatype diff_datasource = Datasource_original | Datasource_modified | Datasource_latest | Datasource_ancestor

text \<open>\<open>svn_diff_fns2_t\<close>: functions on the state behind the baton. The hash is an input and output parameter; a token
  that is NULL is \<open>None\<close>.\<close>

record ('s, 'tok) diff_fns =
  datasources_open :: "'s \<Rightarrow> diff_datasource list \<Rightarrow> (int \<times> int \<times> 's) svn_result"
  datasource_close :: "'s \<Rightarrow> diff_datasource \<Rightarrow> 's svn_result"
  datasource_get_next_token :: "32 word \<Rightarrow> 's \<Rightarrow> diff_datasource \<Rightarrow> (32 word \<times> 'tok option \<times> 's) svn_result"
  token_compare :: "'s \<Rightarrow> 'tok \<Rightarrow> 'tok \<Rightarrow> (int \<times> 's) svn_result"
  token_discard :: "('s \<Rightarrow> 'tok \<Rightarrow> 's) option"
  token_discard_all :: "('s \<Rightarrow> 's) option"

section \<open>The tree of tokens\<close>

text \<open>\<open>svn_diff__node_t\<close>, without the link to the parent, which is never followed, and \<open>svn_diff__tree_t\<close>.\<close>

datatype 'tok token_tree = No_node | Token_node "'tok token_tree" "32 word" nat 'tok "'tok token_tree"

record 'tok diff_tree =
  tree_root :: "'tok token_tree list"
  node_count :: nat

definition SVN_DIFF_HASH_SIZE :: nat where "SVN_DIFF_HASH_SIZE = 127"

definition svn_diff_get_node_count :: "'tok diff_tree \<Rightarrow> nat" where
  "svn_diff_get_node_count tree = node_count tree"

definition svn_diff_tree_create :: "'tok diff_tree" where
  "svn_diff_tree_create = \<lparr>tree_root = replicate SVN_DIFF_HASH_SIZE No_node, node_count = 0\<rparr>"

text \<open>The comparison at a node: the difference of the hashes as a signed number, and the tokens if it is 0.\<close>

definition node_compare :: "('s, 'tok) diff_fns \<Rightarrow> 's \<Rightarrow> 32 word \<Rightarrow> 'tok \<Rightarrow> 32 word \<Rightarrow> 'tok \<Rightarrow> (int \<times> 's) svn_result" where
  "node_compare vtable s hash token parent_hash parent_token =
    (let rv = sint (hash - parent_hash)
     in if rv = 0 then token_compare vtable s parent_token token else Inr (rv, s))"

text \<open>The descent from a node, and the new node at its end. The result is the index of the node that holds the token,
  the tree, and whether a node has been created.\<close>

fun insert_token :: "('s, 'tok) diff_fns \<Rightarrow> 's \<Rightarrow> 32 word \<Rightarrow> 'tok \<Rightarrow> nat \<Rightarrow> 'tok token_tree \<Rightarrow>
    (nat \<times> 'tok token_tree \<times> bool \<times> 's) svn_result" where
  "insert_token vtable s hash token num No_node = Inr (num, Token_node No_node hash num token No_node, True, s)"
| "insert_token vtable s hash token num (Token_node left parent_hash index parent_token right) =
    svn_try (node_compare vtable s hash token parent_hash parent_token) (\<lambda>(rv, s).
      if rv = 0 then
        Inr (index, Token_node left parent_hash index token right, False,
             case token_discard vtable of None \<Rightarrow> s | Some discard \<Rightarrow> discard s parent_token)
      else if rv > 0 then
        svn_try (insert_token vtable s hash token num left) (\<lambda>(i, left, created, s).
          Inr (i, Token_node left parent_hash index parent_token right, created, s))
      else
        svn_try (insert_token vtable s hash token num right) (\<lambda>(i, right, created, s).
          Inr (i, Token_node left parent_hash index parent_token right, created, s)))"

definition tree_insert_token :: "('s, 'tok) diff_fns \<Rightarrow> 's \<Rightarrow> 'tok diff_tree \<Rightarrow> 32 word \<Rightarrow> 'tok \<Rightarrow>
    (nat \<times> 'tok diff_tree \<times> 's) svn_result" where
  "tree_insert_token vtable s tree hash token =
    (let slot = unat hash mod SVN_DIFF_HASH_SIZE
     in svn_try (insert_token vtable s hash token (node_count tree) (tree_root tree ! slot)) (\<lambda>(index, node, created, s).
          Inr (index, \<lparr>tree_root = (tree_root tree)[slot := node],
                       node_count = (if created then Suc (node_count tree) else node_count tree)\<rparr>, s)))"

text \<open>The loop of \<open>svn_diff__get_tokens\<close>; \<open>None\<close> is a loop that does not end.\<close>

partial_function (option) get_tokens_loop :: "('s, 'tok) diff_fns \<Rightarrow> diff_datasource \<Rightarrow> 's \<Rightarrow> 32 word \<Rightarrow> int \<Rightarrow>
    'tok diff_tree \<Rightarrow> diff_ring \<Rightarrow> (diff_ring \<times> 'tok diff_tree \<times> 's) svn_result option" where
  "get_tokens_loop vtable datasource s hash off tree ps =
    (case datasource_get_next_token vtable hash s datasource of
       Inl e \<Rightarrow> Some (Inl e)
     | Inr (hash, token, s) \<Rightarrow>
        (case token of
           None \<Rightarrow> Some (Inr (ps, tree, s))
         | Some token \<Rightarrow>
            (case tree_insert_token vtable s tree hash token of
               Inl e \<Rightarrow> Some (Inl e)
             | Inr (index, tree, s) \<Rightarrow>
                get_tokens_loop vtable datasource s hash (off + 1) tree
                  (ps @ [\<lparr>token_index = int index, pos_offset = off + 1\<rparr>]))))"

definition svn_diff_get_tokens :: "('s, 'tok) diff_fns \<Rightarrow> 's \<Rightarrow> 'tok diff_tree \<Rightarrow> diff_datasource \<Rightarrow> int \<Rightarrow>
    (diff_ring \<times> 'tok diff_tree \<times> 's) svn_result option" where
  "svn_diff_get_tokens vtable s tree datasource prefix_lines =
    map_option (\<lambda>result. svn_try result (\<lambda>(ps, tree, s).
        svn_try (datasource_close vtable s datasource) (\<lambda>s. Inr (ps, tree, s))))
      (get_tokens_loop vtable datasource s 0 prefix_lines tree [])"

section \<open>The contract of a data source\<close>

text \<open>What the callbacks promise: \<open>rest\<close> are the tokens of a source that have not been read, \<open>key\<close> is what a token is
  compared by, and equal tokens have equal hashes. The state is \<open>ready\<close> before it is opened; the lines that opening
  skips are the same at the begin and at the end of all files.\<close>

locale diff_source =
  fixes vtable :: "('s, 'tok) diff_fns"
    and ready :: "'s \<Rightarrow> bool" and content :: "'s \<Rightarrow> diff_datasource \<Rightarrow> 'k list"
    and inv :: "'s \<Rightarrow> bool" and rest :: "'s \<Rightarrow> diff_datasource \<Rightarrow> 'tok list"
    and key :: "'s \<Rightarrow> 'tok \<Rightarrow> 'k" and hash_of :: "'k \<Rightarrow> 32 word" and compare_keys :: "'k \<Rightarrow> 'k \<Rightarrow> int"
  assumes open_sources: "ready s \<Longrightarrow> \<exists>P S s'. datasources_open vtable s sources = Inr (int (length P), int (length S), s') \<and> inv s' \<and>
      (\<forall>d \<in> set sources. content s d = P @ map (key s') (rest s' d) @ S)"
    and next_end: "inv s \<Longrightarrow> rest s d = [] \<Longrightarrow>
      \<exists>hash' s'. datasource_get_next_token vtable hash s d = Inr (hash', None, s') \<and> inv s' \<and> rest s' = rest s \<and> key s' = key s"
    and next_token: "inv s \<Longrightarrow> rest s d = t # ts \<Longrightarrow>
      \<exists>s'. datasource_get_next_token vtable hash s d = Inr (hash_of (key s t), Some t, s') \<and> inv s' \<and>
        rest s' = (rest s)(d := ts) \<and> key s' = key s"
    and compare_tokens: "inv s \<Longrightarrow>
      \<exists>s'. token_compare vtable s t u = Inr (compare_keys (key s t) (key s u), s') \<and> inv s' \<and> rest s' = rest s \<and> key s' = key s"
    and compare_equal: "compare_keys k k' = 0 \<longleftrightarrow> k = k'"
    and close_source: "inv s \<Longrightarrow> \<exists>s'. datasource_close vtable s d = Inr s' \<and> inv s' \<and> rest s' = rest s \<and> key s' = key s"
    and discard_token: "inv s \<Longrightarrow> token_discard vtable = Some discard \<Longrightarrow>
      inv (discard s t) \<and> rest (discard s t) = rest s \<and> key (discard s t) = key s"
    and discard_tokens: "inv s \<Longrightarrow> token_discard_all vtable = Some discard_all \<Longrightarrow>
      inv (discard_all s) \<and> rest (discard_all s) = rest s \<and> key (discard_all s) = key s"
begin

text \<open>The index of a key: the tree as a map. The search goes where an insertion would go.\<close>

fun find_node :: "'s \<Rightarrow> 'tok token_tree \<Rightarrow> 'k \<Rightarrow> nat option" where
  "find_node s No_node k = None"
| "find_node s (Token_node left h index t right) k =
    (let rv = (if hash_of k = h then compare_keys (key s t) k else sint (hash_of k - h))
     in if rv = 0 then Some index else if rv > 0 then find_node s left k else find_node s right k)"

fun hashes_ok :: "'s \<Rightarrow> 'tok token_tree \<Rightarrow> bool" where
  "hashes_ok s No_node = True"
| "hashes_ok s (Token_node left h index t right) \<longleftrightarrow> h = hash_of (key s t) \<and> hashes_ok s left \<and> hashes_ok s right"

lemma find_node_key: "key s' = key s \<Longrightarrow> find_node s' n = find_node s n"
  by (rule ext, induction n) (auto simp: Let_def)

lemma hashes_ok_key: "key s' = key s \<Longrightarrow> hashes_ok s' n = hashes_ok s n"
  by (induction n) auto

lemma sint_zero: "sint (w :: 32 word) = 0 \<longleftrightarrow> w = 0"
  by (metis signed_0 signed_eq_0_iff)

lemma insert_token_result:
  "inv s \<Longrightarrow> hashes_ok s n \<Longrightarrow>
    \<exists>index n' created s'. insert_token vtable s (hash_of (key s t)) t num n = Inr (index, n', created, s') \<and>
      inv s' \<and> rest s' = rest s \<and> key s' = key s \<and> hashes_ok s n' \<and>
      (if created then find_node s n (key s t) = None \<and> index = num else find_node s n (key s t) = Some index) \<and>
      find_node s n' = (find_node s n)(key s t \<mapsto> index)"
proof (induction n arbitrary: s)
  case No_node
  then show ?case
    by (intro exI[of _ num] exI[of _ "Token_node No_node (hash_of (key s t)) num t No_node"] exI[of _ True] exI[of _ s])
      (auto simp: fun_eq_iff compare_equal sint_zero Let_def)
next
  case (Token_node left h i u right)
  then have h: "h = hash_of (key s u)" by simp
  let ?rv = "if hash_of (key s t) = h then compare_keys (key s u) (key s t) else sint (hash_of (key s t) - h)"
  have "\<exists>s'. node_compare vtable s (hash_of (key s t)) t h u = Inr (?rv, s') \<and> inv s' \<and> rest s' = rest s \<and> key s' = key s"
    using compare_tokens[OF Token_node.prems(1), of u t] Token_node.prems(1) by (auto simp: node_compare_def sint_zero)
  then obtain s1 where s1: "node_compare vtable s (hash_of (key s t)) t h u = Inr (?rv, s1)" "inv s1" "rest s1 = rest s" "key s1 = key s" by blast
  note same = find_node_key[OF s1(4)] hashes_ok_key[OF s1(4)]
  have zero: "?rv = 0 \<longleftrightarrow> key s u = key s t" using h by (auto simp: compare_equal sint_zero)
  consider "?rv = 0" | "?rv > 0" | "?rv < 0" by linarith
  then show ?case
  proof cases
    case 1
    with zero have "key s u = key s t" by simp
    then show ?thesis using s1 1 h Token_node.prems discard_token[OF s1(2)]
      by (auto simp: compare_equal fun_eq_iff split: option.split)
  next
    case 2
    have "hashes_ok s1 left" using Token_node.prems(2) same by simp
    from Token_node.IH(1)[OF s1(2) this] obtain index n' created s' where
      "insert_token vtable s1 (hash_of (key s t)) t num left = Inr (index, n', created, s')"
      "inv s'" "rest s' = rest s" "key s' = key s" "hashes_ok s n'"
      "if created then find_node s left (key s t) = None \<and> index = num else find_node s left (key s t) = Some index"
      "find_node s n' = (find_node s left)(key s t \<mapsto> index)"
      unfolding same s1(3,4) by blast
    with 2 s1 Token_node.prems(2) zero show ?thesis by (auto simp: fun_eq_iff Let_def split: if_splits)
  next
    case 3
    have "hashes_ok s1 right" using Token_node.prems(2) same by simp
    from Token_node.IH(2)[OF s1(2) this] obtain index n' created s' where
      "insert_token vtable s1 (hash_of (key s t)) t num right = Inr (index, n', created, s')"
      "inv s'" "rest s' = rest s" "key s' = key s" "hashes_ok s n'"
      "if created then find_node s right (key s t) = None \<and> index = num else find_node s right (key s t) = Some index"
      "find_node s n' = (find_node s right)(key s t \<mapsto> index)"
      unfolding same s1(3,4) by blast
    with 3 s1 Token_node.prems(2) zero show ?thesis by (auto simp: fun_eq_iff Let_def split: if_splits)
  qed
qed

end

section \<open>svn\_diff\_diff\_2\<close>

definition svn_diff_diff_2 :: "('s, 'tok) diff_fns \<Rightarrow> 's \<Rightarrow> (svn_diff list \<times> 's) svn_result option" where
  "svn_diff_diff_2 vtable s =
    (case datasources_open vtable s [Datasource_original, Datasource_modified] of
       Inl e \<Rightarrow> Some (Inl e)
     | Inr (prefix_lines, suffix_lines, s) \<Rightarrow>
    (case svn_diff_get_tokens vtable s svn_diff_tree_create Datasource_original prefix_lines of
       None \<Rightarrow> None
     | Some (Inl e) \<Rightarrow> Some (Inl e)
     | Some (Inr (ps0, tree, s)) \<Rightarrow>
    (case svn_diff_get_tokens vtable s tree Datasource_modified prefix_lines of
       None \<Rightarrow> None
     | Some (Inl e) \<Rightarrow> Some (Inl e)
     | Some (Inr (ps1, tree, s)) \<Rightarrow>
        let num_tokens = svn_diff_get_node_count tree;
            s = (case token_discard_all vtable of None \<Rightarrow> s | Some discard_all \<Rightarrow> discard_all s)
        in Option.bind (svn_diff_lcs ps0 ps1 (svn_diff_get_token_counts ps0 num_tokens) (svn_diff_get_token_counts ps1 num_tokens)
             num_tokens prefix_lines suffix_lines) (\<lambda>lcs.
           map_option (\<lambda>diff. Inr (diff, s)) (svn_diff_diff lcs 1 1 True)))))"

context diff_source
begin

section \<open>The tokens of a source\<close>

text \<open>The tree as a map from keys to indexes, which are the numbers below the count of the nodes.\<close>

definition find_token :: "'s \<Rightarrow> 'tok diff_tree \<Rightarrow> 'k \<Rightarrow> nat option" where
  "find_token s tree k = find_node s (tree_root tree ! (unat (hash_of k) mod SVN_DIFF_HASH_SIZE)) k"

definition tree_ok :: "'s \<Rightarrow> 'tok diff_tree \<Rightarrow> bool" where
  "tree_ok s tree \<longleftrightarrow> length (tree_root tree) = SVN_DIFF_HASH_SIZE \<and> (\<forall>n \<in> set (tree_root tree). hashes_ok s n) \<and>
    inj_on (find_token s tree) (dom (find_token s tree)) \<and> ran (find_token s tree) \<subseteq> {..<node_count tree}"

lemma tree_ok_key:
  assumes "key s' = key s" 
  shows "tree_ok s' tree = tree_ok s tree" "find_token s' tree = find_token s tree"
proof -
  show "find_token s' tree = find_token s tree" by (simp add: find_token_def[abs_def] find_node_key[OF assms])
  then show "tree_ok s' tree = tree_ok s tree" by (simp add: tree_ok_def hashes_ok_key[OF assms])
qed

lemma tree_create_ok: "tree_ok s svn_diff_tree_create" "find_token s svn_diff_tree_create = Map.empty"
  by (auto simp: tree_ok_def find_token_def[abs_def] svn_diff_tree_create_def SVN_DIFF_HASH_SIZE_def)

lemma tree_insert_token_result:
  assumes "inv s" "tree_ok s tree"
  shows "\<exists>index tree' s'. tree_insert_token vtable s tree (hash_of (key s t)) t = Inr (index, tree', s') \<and>
    inv s' \<and> rest s' = rest s \<and> key s' = key s \<and> tree_ok s tree' \<and>
    find_token s tree \<subseteq>\<^sub>m find_token s tree' \<and> find_token s tree' (key s t) = Some index \<and>
    dom (find_token s tree') = insert (key s t) (dom (find_token s tree))"
proof -
  let ?slot = "unat (hash_of (key s t)) mod SVN_DIFF_HASH_SIZE"
  from assms(2) have slot: "?slot < length (tree_root tree)" "length (tree_root tree) = SVN_DIFF_HASH_SIZE"
    "hashes_ok s (tree_root tree ! ?slot)" by (auto simp: tree_ok_def SVN_DIFF_HASH_SIZE_def)
  from insert_token_result[OF assms(1) slot(3), of t "node_count tree"] obtain index n' created s' where
    ins: "insert_token vtable s (hash_of (key s t)) t (node_count tree) (tree_root tree ! ?slot) = Inr (index, n', created, s')"
      "inv s'" "rest s' = rest s" "key s' = key s" "hashes_ok s n'"
      "if created then find_node s (tree_root tree ! ?slot) (key s t) = None \<and> index = node_count tree
       else find_node s (tree_root tree ! ?slot) (key s t) = Some index"
      "find_node s n' = (find_node s (tree_root tree ! ?slot))(key s t \<mapsto> index)" by blast
  define tree' where "tree' = \<lparr>tree_root = (tree_root tree)[?slot := n'],
    node_count = (if created then Suc (node_count tree) else node_count tree)\<rparr>"
  have find: "find_token s tree' = (find_token s tree)(key s t \<mapsto> index)"
    using slot ins(7) by (auto simp: fun_eq_iff find_token_def tree'_def nth_list_update)
  have index: "if created then find_token s tree (key s t) = None \<and> index = node_count tree else find_token s tree (key s t) = Some index"
    using ins(6) by (simp add: find_token_def)
  have "find_token s tree \<subseteq>\<^sub>m find_token s tree'"
    using index by (auto simp: find map_le_def split: if_splits)
  moreover have "tree_ok s tree'"
  proof -
    have "\<forall>n \<in> set (tree_root tree'). hashes_ok s n"
      using assms(2) ins(5) set_update_subset_insert[of "tree_root tree" ?slot n'] by (auto simp: tree_ok_def tree'_def)
    moreover have "inj_on (find_token s tree') (dom (find_token s tree'))"
      using assms(2) index unfolding find tree_ok_def inj_on_def by (auto split: if_splits) (force simp: ran_def dom_def)+
    moreover have "ran (find_token s tree') \<subseteq> {..<node_count tree'}"
      using assms(2) index unfolding find tree_ok_def
      by (auto simp: tree'_def ran_def split: if_splits; meson lessThan_iff less_SucI mem_Collect_eq subsetD)
    ultimately show ?thesis using slot(2) by (simp add: tree_ok_def tree'_def)
  qed
  moreover have "tree_insert_token vtable s tree (hash_of (key s t)) t = Inr (index, tree', s')"
    using ins(1) by (simp add: tree_insert_token_def tree'_def)
  ultimately show ?thesis using ins find by auto
qed

lemma get_tokens_loop_result:
  "inv s \<Longrightarrow> tree_ok s tree \<Longrightarrow> rest s d = ts \<Longrightarrow>
    \<exists>new tree' s'. get_tokens_loop vtable d s hash off tree ps = Some (Inr (ps @ new, tree', s')) \<and>
      inv s' \<and> rest s' = (rest s)(d := []) \<and> key s' = key s \<and> tree_ok s tree' \<and> find_token s tree \<subseteq>\<^sub>m find_token s tree' \<and>
      dom (find_token s tree') = set (map (key s) ts) \<union> dom (find_token s tree) \<and>
      positions_of (map (\<lambda>t. int (the (find_token s tree' (key s t)))) ts) (off + 1) new"
proof (induction ts arbitrary: s hash off tree ps)
  case Nil
  from next_end[OF Nil.prems(1,3), of hash] obtain hash' s' where
    "datasource_get_next_token vtable hash s d = Inr (hash', None, s')" "inv s'" "rest s' = rest s" "key s' = key s" by blast
  with Nil.prems show ?case by (subst get_tokens_loop.simps) (auto simp: positions_of_def)
next
  case (Cons t ts)
  from next_token[OF Cons.prems(1,3), of hash] obtain s1 where
    s1: "datasource_get_next_token vtable hash s d = Inr (hash_of (key s t), Some t, s1)" "inv s1" "rest s1 = (rest s)(d := ts)" "key s1 = key s" by blast
  have "tree_ok s1 tree" using Cons.prems(2) by (simp add: tree_ok_key[OF s1(4)])
  from tree_insert_token_result[OF s1(2) this, of t] obtain index tree1 s2 where
    s2: "tree_insert_token vtable s1 tree (hash_of (key s t)) t = Inr (index, tree1, s2)" "inv s2" "rest s2 = rest s1" "key s2 = key s"
      "tree_ok s tree1" "find_token s tree \<subseteq>\<^sub>m find_token s tree1" "find_token s tree1 (key s t) = Some index"
      "dom (find_token s tree1) = insert (key s t) (dom (find_token s tree))"
    unfolding tree_ok_key[OF s1(4)] s1(4) by blast
  have key2: "key s2 = key s" using s2(4) s1(4) by simp
  have "tree_ok s2 tree1" "rest s2 d = ts" using s2(3,5) s1(3) by (simp_all add: tree_ok_key[OF s2(4)])
  from Cons.IH[OF s2(2) this, of "hash_of (key s t)" "off + 1" "ps @ [\<lparr>token_index = int index, pos_offset = off + 1\<rparr>]"]
  obtain new tree' s' where
    IH: "get_tokens_loop vtable d s2 (hash_of (key s t)) (off + 1) tree1 (ps @ [\<lparr>token_index = int index, pos_offset = off + 1\<rparr>]) =
        Some (Inr ((ps @ [\<lparr>token_index = int index, pos_offset = off + 1\<rparr>]) @ new, tree', s'))"
      "inv s'" "rest s' = (rest s2)(d := [])" "key s' = key s2" "tree_ok s tree'" "find_token s tree1 \<subseteq>\<^sub>m find_token s tree'"
      "dom (find_token s tree') = set (map (key s) ts) \<union> dom (find_token s tree1)"
      "positions_of (map (\<lambda>t. int (the (find_token s tree' (key s t)))) ts) (off + 1 + 1) new"
    unfolding tree_ok_key[OF s2(4)] s2(4) by blast
  have index: "find_token s tree' (key s t) = Some index" using IH(6) s2(7) by (auto simp: map_le_def dom_def)
  have "positions_of (map (\<lambda>t. int (the (find_token s tree' (key s t)))) (t # ts)) (off + 1) (\<lparr>token_index = int index, pos_offset = off + 1\<rparr> # new)"
    using IH(8) index by (auto simp: positions_of_def less_Suc_eq_0_disj)
  moreover have "get_tokens_loop vtable d s hash off tree ps = Some (Inr (ps @ \<lparr>token_index = int index, pos_offset = off + 1\<rparr> # new, tree', s'))"
    using s1(1) s2(1) IH(1) by (subst get_tokens_loop.simps) simp
  moreover have "find_token s tree \<subseteq>\<^sub>m find_token s tree'" using IH(6) s2(6) by (rule map_le_trans[rotated])
  ultimately show ?case using IH(2-5,7) s2(3,4,8) s1(3) by auto
qed

lemma svn_diff_get_tokens_result:
  assumes "inv s" "tree_ok s tree"
  shows "\<exists>ps tree' s'. svn_diff_get_tokens vtable s tree d off = Some (Inr (ps, tree', s')) \<and>
      inv s' \<and> rest s' = (rest s)(d := []) \<and> key s' = key s \<and> tree_ok s tree' \<and> find_token s tree \<subseteq>\<^sub>m find_token s tree' \<and>
      dom (find_token s tree') = set (map (key s) (rest s d)) \<union> dom (find_token s tree) \<and>
      positions_of (map (\<lambda>t. int (the (find_token s tree' (key s t)))) (rest s d)) (off + 1) ps"
proof -
  from get_tokens_loop_result[OF assms refl, of d 0 off "[]"] obtain ps tree' s' where
    loop: "get_tokens_loop vtable d s 0 off tree [] = Some (Inr (ps, tree', s'))" "inv s'" "rest s' = (rest s)(d := [])" "key s' = key s"
      "tree_ok s tree'" "find_token s tree \<subseteq>\<^sub>m find_token s tree'"
      "dom (find_token s tree') = set (map (key s) (rest s d)) \<union> dom (find_token s tree)"
      "positions_of (map (\<lambda>t. int (the (find_token s tree' (key s t)))) (rest s d)) (off + 1) ps" by auto
  from close_source[OF loop(2), of d] obtain s2 where "datasource_close vtable s' d = Inr s2" "inv s2" "rest s2 = rest s'" "key s2 = key s'" by blast
  with loop show ?thesis by (auto simp: svn_diff_get_tokens_def)
qed

text \<open>A later tree gives the same indexes.\<close>

lemma positions_of_later:
  assumes "positions_of (map (\<lambda>t. int (the (find_token s tree (key s t)))) ts) base ps" "find_token s tree \<subseteq>\<^sub>m find_token s tree'"
    "set (map (key s) ts) \<subseteq> dom (find_token s tree)"
  shows "positions_of (map (\<lambda>t. int (the (find_token s tree' (key s t)))) ts) base ps"
proof -
  have "map (\<lambda>t. int (the (find_token s tree (key s t)))) ts = map (\<lambda>t. int (the (find_token s tree' (key s t)))) ts"
    using assms(2,3) by (auto simp: map_le_def dom_def)
  with assms(1) show ?thesis by simp
qed

lemma token_indexes:
  assumes "tree_ok s tree" "K \<subseteq> dom (find_token s tree)"
  shows "\<forall>k \<in> K. 0 \<le> int (the (find_token s tree k)) \<and> int (the (find_token s tree k)) < int (node_count tree)"
    "inj_on (\<lambda>k. int (the (find_token s tree k))) K"
proof -
  show "\<forall>k \<in> K. 0 \<le> int (the (find_token s tree k)) \<and> int (the (find_token s tree k)) < int (node_count tree)"
    using assms by (fastforce simp: tree_ok_def ran_def dom_def)
  show "inj_on (\<lambda>k. int (the (find_token s tree k))) K"
  proof (rule inj_onI)
    fix k k' assume k: "k \<in> K" "k' \<in> K" "int (the (find_token s tree k)) = int (the (find_token s tree k'))"
    with assms(2) obtain i i' where "find_token s tree k = Some i" "find_token s tree k' = Some i'" by (meson domD subsetD)
    with k(3) have "find_token s tree k = find_token s tree k'" by simp
    moreover have "inj_on (find_token s tree) (dom (find_token s tree))" using assms(1) by (simp add: tree_ok_def)
    ultimately show "k = k'" using k(1,2) assms(2) by (meson inj_onD subsetD)
  qed
qed

lemma svn_diff_diff_2_result:
  assumes "ready s"
  shows "\<exists>hs s'. svn_diff_diff_2 vtable s = Some (Inr (hs, s')) \<and>
    two_way (content s Datasource_original) (content s Datasource_modified) 0 0 hs \<and>
    longest_common_length (content s Datasource_original) (content s Datasource_modified) (common_lines hs)"
proof -
  from open_sources[OF assms, of "[Datasource_original, Datasource_modified]"] obtain P S s0 where
    s0: "datasources_open vtable s [Datasource_original, Datasource_modified] = Inr (int (length P), int (length S), s0)" "inv s0"
      "content s Datasource_original = P @ map (key s0) (rest s0 Datasource_original) @ S"
      "content s Datasource_modified = P @ map (key s0) (rest s0 Datasource_modified) @ S" by auto
  from svn_diff_get_tokens_result[OF s0(2) tree_create_ok(1), of Datasource_original "int (length P)"] obtain ps0 tree1 s1 where
    s1: "svn_diff_get_tokens vtable s0 svn_diff_tree_create Datasource_original (int (length P)) = Some (Inr (ps0, tree1, s1))"
      "inv s1" "rest s1 = (rest s0)(Datasource_original := [])" "key s1 = key s0" "tree_ok s0 tree1"
      "dom (find_token s0 tree1) = set (map (key s0) (rest s0 Datasource_original))"
      "positions_of (map (\<lambda>t. int (the (find_token s0 tree1 (key s0 t)))) (rest s0 Datasource_original)) (int (length P) + 1) ps0"
    unfolding tree_create_ok(2) by auto
  have "tree_ok s1 tree1" using s1(5) by (simp add: tree_ok_key[OF s1(4)])
  from svn_diff_get_tokens_result[OF s1(2) this, of Datasource_modified "int (length P)"] obtain ps1 tree2 s2 where
    s2: "svn_diff_get_tokens vtable s1 tree1 Datasource_modified (int (length P)) = Some (Inr (ps1, tree2, s2))"
      "tree_ok s0 tree2" "find_token s0 tree1 \<subseteq>\<^sub>m find_token s0 tree2"
      "dom (find_token s0 tree2) = set (map (key s0) (rest s0 Datasource_modified)) \<union> dom (find_token s0 tree1)"
      "positions_of (map (\<lambda>t. int (the (find_token s0 tree2 (key s0 t)))) (rest s0 Datasource_modified)) (int (length P) + 1) ps1"
    unfolding tree_ok_key[OF s1(4)] s1(3,4) by auto
  let ?h = "\<lambda>k. int (the (find_token s0 tree2 k))" and ?f0 = "map (key s0) (rest s0 Datasource_original)"
    and ?f1 = "map (key s0) (rest s0 Datasource_modified)"
  have pos: "positions_of (map ?h ?f0) (int (length P) + 1) ps0" "positions_of (map ?h ?f1) (int (length P) + 1) ps1"
    using positions_of_later[OF s1(7) s2(3)] s1(6) s2(5) by (simp_all add: comp_def)
  note indexes = token_indexes[OF s2(2), of "set ?f0 \<union> set ?f1"]
  have "\<exists>cs. svn_diff_lcs ps0 ps1 (svn_diff_get_token_counts ps0 (node_count tree2)) (svn_diff_get_token_counts ps1 (node_count tree2))
      (node_count tree2) (int (length P)) (int (length S)) = Some cs \<and>
    lcs_chain (P @ ?f0 @ S) (P @ ?f1 @ S) 0 0 cs \<and> longest_common_length (P @ ?f0 @ S) (P @ ?f1 @ S) (chain_total cs)"
    using s1(6) s2(4) by (intro svn_diff_lcs_result[OF pos] indexes) auto
  then obtain cs where cs: "svn_diff_lcs ps0 ps1 (svn_diff_get_token_counts ps0 (node_count tree2)) (svn_diff_get_token_counts ps1 (node_count tree2))
      (node_count tree2) (int (length P)) (int (length S)) = Some cs"
    "lcs_chain (P @ ?f0 @ S) (P @ ?f1 @ S) 0 0 cs" "longest_common_length (P @ ?f0 @ S) (P @ ?f1 @ S) (chain_total cs)" by blast
  from two_way_diff[OF cs(2)] obtain hs where "svn_diff_diff cs 1 1 True = Some hs" "two_way (P @ ?f0 @ S) (P @ ?f1 @ S) 0 0 hs"
    "common_lines hs = chain_total cs" by auto
  with s0 s1(1) s2(1) cs show ?thesis
    by (simp add: svn_diff_diff_2_def svn_diff_get_node_count_def Let_def)
qed

end

end
