(* ===== verification/Diff_Memory.thy ===== *)
theory Diff_Memory
  imports Diff_Tokens Rangelist_Text
begin

text \<open>
  Differences of texts in memory (\<open>libsvn_diff/diff_memory.c\<close>, \<open>util.c\<close>, \<open>libsvn_subr/adler32.c\<close>): lines, their
  normalization, and the data source on them, which is shown to keep the contract \<open>diff_source\<close>.
\<close>

unbundle bit_operations_syntax

section \<open>Normalization of white space and line ends\<close>

datatype diff_ignore_space = Ignore_space_none | Ignore_space_change | Ignore_space_all

record diff_file_options =
  ignore_space :: diff_ignore_space
  ignore_eol_style :: bool

datatype diff_normalize_state = Normalize_normal | Normalize_whitespace | Normalize_cr

text \<open>\<open>svn_ctype_isspace\<close>: the characters whose entry in the table has \<open>SVN_CTYPE_SPACE\<close>.\<close>

definition svn_ctype_isspace :: "char \<Rightarrow> bool" where
  "svn_ctype_isspace c \<longleftrightarrow> (of_char c :: nat) \<in> {9, 10, 11, 12, 13, 32}"

definition carriage_return :: char where "carriage_return = CHR 0x0D"

text \<open>The variables of \<open>svn_diff__normalize_buffer\<close>: the block that is included so far begins at index \<open>nb_start\<close> of
  the buffer and has \<open>nb_include\<close> characters; \<open>nb_target\<close> is what has been written to the target buffer.\<close>

record normalize_vars =
  nb_start :: nat
  nb_include :: nat
  nb_skipped :: bool
  nb_target :: cstring
  nb_state :: diff_normalize_state

definition block :: "cstring \<Rightarrow> normalize_vars \<Rightarrow> cstring" where
  "block buf v = take (nb_include v) (drop (nb_start v) buf)"

text \<open>The macros, at index \<open>i\<close> of the buffer.\<close>

definition copy_included_section :: "cstring \<Rightarrow> nat \<Rightarrow> normalize_vars \<Rightarrow> normalize_vars" where
  "copy_included_section buf i v =
    (if nb_include v > 0 then v\<lparr>nb_target := nb_target v @ block buf v, nb_include := 0, nb_start := i\<rparr>
     else v\<lparr>nb_start := i\<rparr>)"

definition skip_char :: "nat \<Rightarrow> normalize_vars \<Rightarrow> normalize_vars" where
  "skip_char i v = (if nb_start v = i then v\<lparr>nb_start := Suc (nb_start v)\<rparr> else v)\<lparr>nb_skipped := True\<rparr>"

definition include_char :: "cstring \<Rightarrow> nat \<Rightarrow> normalize_vars \<Rightarrow> normalize_vars" where
  "include_char buf i v =
    (let v = (if nb_skipped v then copy_included_section buf i v else v)
     in v\<lparr>nb_include := nb_include v + 1, nb_skipped := False\<rparr>)"

definition insert_char :: "cstring \<Rightarrow> nat \<Rightarrow> char \<Rightarrow> normalize_vars \<Rightarrow> normalize_vars" where
  "insert_char buf i c v = (let v = copy_included_section buf i v in v\<lparr>nb_target := nb_target v @ [c]\<rparr>)"

definition include_as :: "cstring \<Rightarrow> nat \<Rightarrow> char \<Rightarrow> normalize_vars \<Rightarrow> normalize_vars" where
  "include_as buf i c v = (if buf ! i = c then include_char buf i v else skip_char i (insert_char buf i c v))"

text \<open>The body of the loop.\<close>

definition normalize_char :: "diff_file_options \<Rightarrow> cstring \<Rightarrow> nat \<Rightarrow> normalize_vars \<Rightarrow> normalize_vars" where
  "normalize_char opts buf i v =
    (let c = buf ! i in
     if c = carriage_return then
       (if ignore_eol_style opts then include_as buf i newline v else include_char buf i v)\<lparr>nb_state := Normalize_cr\<rparr>
     else if c = newline then
       (if nb_state v = Normalize_cr \<and> ignore_eol_style opts then skip_char i v else include_char buf i v)\<lparr>nb_state := Normalize_normal\<rparr>
     else if svn_ctype_isspace c \<and> ignore_space opts \<noteq> Ignore_space_none then
       (if nb_state v \<noteq> Normalize_whitespace \<and> ignore_space opts = Ignore_space_change
        then include_as buf i (CHR '' '') v else skip_char i v)\<lparr>nb_state := Normalize_whitespace\<rparr>
     else (include_char buf i v)\<lparr>nb_state := Normalize_normal\<rparr>)"

text \<open>The result is the normalized text, with the final state. It is a part of the buffer if nothing has been written.\<close>

definition svn_diff_normalize_buffer :: "diff_normalize_state \<Rightarrow> cstring \<Rightarrow> diff_file_options \<Rightarrow> cstring \<times> diff_normalize_state" where
  "svn_diff_normalize_buffer state buf opts =
    (if ignore_space opts = Ignore_space_none \<and> \<not> ignore_eol_style opts then (buf, state)
     else
       let v = fold (normalize_char opts buf) [0..<length buf]
                 \<lparr>nb_start = 0, nb_include = 0, nb_skipped = False, nb_target = [], nb_state = state\<rparr>
       in if nb_target v = [] then (block buf v, nb_state v)
          else (nb_target (copy_included_section buf (length buf) v), nb_state v))"

text \<open>What it computes, one character at a time.\<close>

fun normalized :: "diff_file_options \<Rightarrow> diff_normalize_state \<Rightarrow> cstring \<Rightarrow> cstring \<times> diff_normalize_state" where
  "normalized opts st [] = ([], st)"
| "normalized opts st (c # cs) =
    (let (out, st') =
      (if c = carriage_return then ([if ignore_eol_style opts then newline else c], Normalize_cr)
       else if c = newline then (if st = Normalize_cr \<and> ignore_eol_style opts then [] else [c], Normalize_normal)
       else if svn_ctype_isspace c \<and> ignore_space opts \<noteq> Ignore_space_none then
         (if st \<noteq> Normalize_whitespace \<and> ignore_space opts = Ignore_space_change then '' '' else [], Normalize_whitespace)
       else ([c], Normalize_normal))
     in case normalized opts st' cs of (rest, st'') \<Rightarrow> (out @ rest, st''))"

text \<open>The loop has put out \<open>out\<close> for the first \<open>i\<close> characters.\<close>

definition normalize_inv :: "cstring \<Rightarrow> nat \<Rightarrow> cstring \<Rightarrow> diff_normalize_state \<Rightarrow> normalize_vars \<Rightarrow> bool" where
  "normalize_inv buf i out st v \<longleftrightarrow> nb_state v = st \<and> out = nb_target v @ block buf v \<and> nb_start v + nb_include v \<le> i \<and> i \<le> length buf \<and>
    (\<not> nb_skipped v \<longrightarrow> nb_start v + nb_include v = i) \<and> (nb_start v = i \<longrightarrow> nb_include v = 0)"

lemma copy_included_section_simps [simp]:
  "nb_target (copy_included_section buf i v) = nb_target v @ block buf v"
  "nb_include (copy_included_section buf i v) = 0" "nb_start (copy_included_section buf i v) = i"
  "nb_skipped (copy_included_section buf i v) = nb_skipped v" "nb_state (copy_included_section buf i v) = nb_state v"
  by (auto simp: copy_included_section_def block_def)

lemma include_char_inv:
  assumes "normalize_inv buf i out st v" "i < length buf"
  shows "normalize_inv buf (Suc i) (out @ [buf ! i]) st' ((include_char buf i v)\<lparr>nb_state := st'\<rparr>)"
  using assms by (auto simp: normalize_inv_def include_char_def block_def Let_def take_Suc_conv_app_nth)

lemma skip_char_inv:
  assumes "normalize_inv buf i out st v" "i < length buf"
  shows "normalize_inv buf (Suc i) out st' ((skip_char i v)\<lparr>nb_state := st'\<rparr>)"
  using assms by (auto simp: normalize_inv_def skip_char_def block_def)

lemma include_as_inv:
  assumes "normalize_inv buf i out st v" "i < length buf"
  shows "normalize_inv buf (Suc i) (out @ [c]) st' ((include_as buf i c v)\<lparr>nb_state := st'\<rparr>)"
proof (cases "buf ! i = c")
  case True
  with include_char_inv[OF assms] show ?thesis by (simp add: include_as_def)
next
  case False
  have "normalize_inv buf i (out @ [c]) st (insert_char buf i c v)"
    using assms by (auto simp: normalize_inv_def insert_char_def block_def Let_def)
  from skip_char_inv[OF this assms(2)] False show ?thesis by (simp add: include_as_def)
qed

lemma normalize_loop:
  "normalize_inv buf i out st v \<Longrightarrow>
    normalize_inv buf (length buf) (out @ fst (normalized opts st (drop i buf))) (snd (normalized opts st (drop i buf)))
      (fold (normalize_char opts buf) [i..<length buf] v)"
proof (induction "length buf - i" arbitrary: i out st v)
  case 0
  then show ?case by (simp add: normalize_inv_def)
next
  case (Suc n)
  then have i: "i < length buf" by simp
  obtain o' st' where step: "normalized opts st (drop i buf) = (o' @ fst (normalized opts st' (drop (Suc i) buf)), snd (normalized opts st' (drop (Suc i) buf)))"
    and inv: "normalize_inv buf (Suc i) (out @ o') st' (normalize_char opts buf i v)"
  proof -
    have st: "nb_state v = st" using Suc.prems by (simp add: normalize_inv_def)
    note cs = Cons_nth_drop_Suc[OF i, symmetric]
    note invs = include_char_inv[OF Suc.prems i] skip_char_inv[OF Suc.prems i] include_as_inv[OF Suc.prems i]
    consider (cr) "buf ! i = carriage_return" | (nl) "buf ! i = newline" "buf ! i \<noteq> carriage_return"
      | (space) "buf ! i \<noteq> carriage_return" "buf ! i \<noteq> newline" "svn_ctype_isspace (buf ! i)" "ignore_space opts \<noteq> Ignore_space_none"
      | (other) "buf ! i \<noteq> carriage_return" "buf ! i \<noteq> newline" "\<not> (svn_ctype_isspace (buf ! i) \<and> ignore_space opts \<noteq> Ignore_space_none)"
      by blast
    then show thesis
    proof cases
      case cr
      with st invs show thesis
        by (intro that[of "[if ignore_eol_style opts then newline else buf ! i]" Normalize_cr])
          (auto simp: normalize_char_def cs split: prod.split)
    next
      case nl
      with st invs show thesis
        by (intro that[of "if st = Normalize_cr \<and> ignore_eol_style opts then [] else [buf ! i]" Normalize_normal])
          (auto simp: normalize_char_def cs split: prod.split)
    next
      case space
      with st invs show thesis
        by (intro that[of "if st \<noteq> Normalize_whitespace \<and> ignore_space opts = Ignore_space_change then '' '' else []" Normalize_whitespace])
          (auto simp: normalize_char_def cs split: prod.split)
    next
      case other
      with st invs show thesis
        by (intro that[of "[buf ! i]" Normalize_normal]) (auto simp: normalize_char_def cs split: prod.split)
    qed
  qed
  from Suc.hyps(2) have "n = length buf - Suc i" by simp
  from Suc.hyps(1)[OF this inv] step i show ?case by (simp add: upt_conv_Cons)
qed

lemma normalize_buffer_result:
  "svn_diff_normalize_buffer st buf opts =
    (if ignore_space opts = Ignore_space_none \<and> \<not> ignore_eol_style opts then (buf, st) else normalized opts st buf)"
proof -
  let ?v = "\<lparr>nb_start = 0, nb_include = 0, nb_skipped = False, nb_target = [], nb_state = st\<rparr>"
  have "normalize_inv buf 0 [] st ?v" by (simp add: normalize_inv_def block_def)
  from normalize_loop[OF this, of opts] show ?thesis
    by (auto simp: svn_diff_normalize_buffer_def normalize_inv_def Let_def prod_eq_iff)
qed

lemma normalized_nothing:
  "ignore_space opts = Ignore_space_none \<Longrightarrow> \<not> ignore_eol_style opts \<Longrightarrow> fst (normalized opts st buf) = buf"
  by (induction opts st buf rule: normalized.induct) (auto split: prod.splits)

text \<open>So the options decide alone what a text is compared by.\<close>

lemma normalize_buffer_text: "fst (svn_diff_normalize_buffer st buf opts) = fst (normalized opts st buf)"
  by (simp add: normalize_buffer_result normalized_nothing)

lemma normalized_append:
  "normalized opts st (xs @ ys) =
    (case normalized opts st xs of (out, st') \<Rightarrow> case normalized opts st' ys of (rest, st'') \<Rightarrow> (out @ rest, st''))"
  by (induction opts st xs rule: normalized.induct) (auto split: prod.splits)

text \<open>The output fits in a buffer of the size of the input, at every moment of the loop.\<close>

lemma normalized_length: "length (fst (normalized opts st buf)) \<le> length buf"
  by (induction buf arbitrary: st) (auto simp: split_beta Let_def intro: le_SucI)

section \<open>Normalization in place\<close>

text \<open>
  The same function over one memory, a list of characters with an index in place of a pointer: the buffer has \<open>n\<close>
  characters from \<open>buf\<close> on, the target begins at \<open>tgt\<close>, and the two may be the same place. Every character is read
  from the memory as it is at that moment. Reads and writes are checked: outside of the memory they are \<open>None\<close>.
\<close>

definition read_cells :: "cstring \<Rightarrow> nat \<Rightarrow> nat \<Rightarrow> cstring option" where
  "read_cells mem p n = (if p + n \<le> length mem then Some (take n (drop p mem)) else None)"

definition write_cells :: "cstring \<Rightarrow> nat \<Rightarrow> cstring \<Rightarrow> cstring option" where
  "write_cells mem p s = (if p + length s \<le> length mem then Some (take p mem @ s @ drop (p + length s) mem) else None)"

record normalize_memory =
  nm_mem :: cstring
  nm_start :: nat
  nm_include :: nat
  nm_skipped :: bool
  nm_newend :: nat
  nm_state :: diff_normalize_state

definition nm_copy_included_section :: "nat \<Rightarrow> normalize_memory \<Rightarrow> normalize_memory option" where
  "nm_copy_included_section curp m =
    (if nm_include m > 0
     then Option.bind (read_cells (nm_mem m) (nm_start m) (nm_include m)) (\<lambda>s.
          Option.bind (write_cells (nm_mem m) (nm_newend m) s) (\<lambda>mem.
            Some (m\<lparr>nm_mem := mem, nm_newend := nm_newend m + nm_include m, nm_include := 0, nm_start := curp\<rparr>)))
     else Some (m\<lparr>nm_start := curp\<rparr>))"

definition nm_skip :: "nat \<Rightarrow> normalize_memory \<Rightarrow> normalize_memory" where
  "nm_skip curp m = (if nm_start m = curp then m\<lparr>nm_start := Suc (nm_start m)\<rparr> else m)\<lparr>nm_skipped := True\<rparr>"

definition nm_include_char :: "nat \<Rightarrow> normalize_memory \<Rightarrow> normalize_memory option" where
  "nm_include_char curp m =
    Option.bind (if nm_skipped m then nm_copy_included_section curp m else Some m)
      (\<lambda>m. Some (m\<lparr>nm_include := nm_include m + 1, nm_skipped := False\<rparr>))"

definition nm_insert :: "nat \<Rightarrow> char \<Rightarrow> normalize_memory \<Rightarrow> normalize_memory option" where
  "nm_insert curp c m =
    Option.bind (nm_copy_included_section curp m) (\<lambda>m.
    Option.bind (write_cells (nm_mem m) (nm_newend m) [c]) (\<lambda>mem.
      Some (m\<lparr>nm_mem := mem, nm_newend := nm_newend m + 1\<rparr>)))"

definition nm_include_as :: "nat \<Rightarrow> char \<Rightarrow> normalize_memory \<Rightarrow> normalize_memory option" where
  "nm_include_as curp c m =
    Option.bind (read_cells (nm_mem m) curp 1) (\<lambda>s.
      if s = [c] then nm_include_char curp m
      else Option.bind (nm_insert curp c m) (\<lambda>m. Some (nm_skip curp m)))"

definition nm_char :: "diff_file_options \<Rightarrow> nat \<Rightarrow> normalize_memory \<Rightarrow> normalize_memory option" where
  "nm_char opts curp m =
    Option.bind (read_cells (nm_mem m) curp 1) (\<lambda>s.
      let c = hd s in
      if c = carriage_return then
        map_option (\<lambda>m. m\<lparr>nm_state := Normalize_cr\<rparr>)
          (if ignore_eol_style opts then nm_include_as curp newline m else nm_include_char curp m)
      else if c = newline then
        map_option (\<lambda>m. m\<lparr>nm_state := Normalize_normal\<rparr>)
          (if nm_state m = Normalize_cr \<and> ignore_eol_style opts then Some (nm_skip curp m) else nm_include_char curp m)
      else if svn_ctype_isspace c \<and> ignore_space opts \<noteq> Ignore_space_none then
        map_option (\<lambda>m. m\<lparr>nm_state := Normalize_whitespace\<rparr>)
          (if nm_state m \<noteq> Normalize_whitespace \<and> ignore_space opts = Ignore_space_change
           then nm_include_as curp (CHR '' '') m else Some (nm_skip curp m))
      else map_option (\<lambda>m. m\<lparr>nm_state := Normalize_normal\<rparr>) (nm_include_char curp m))"

primrec nm_loop :: "diff_file_options \<Rightarrow> nat \<Rightarrow> nat \<Rightarrow> normalize_memory \<Rightarrow> normalize_memory option" where
  "nm_loop opts curp 0 m = Some m"
| "nm_loop opts curp (Suc n) m = Option.bind (nm_char opts curp m) (nm_loop opts (Suc curp) n)"

text \<open>The memory, \<open>*tgt\<close>, \<open>*lengthp\<close> and \<open>*statep\<close> afterwards.\<close>

definition svn_diff_normalize_in_place ::
    "nat \<Rightarrow> nat \<Rightarrow> diff_normalize_state \<Rightarrow> nat \<Rightarrow> diff_file_options \<Rightarrow> cstring \<Rightarrow> (cstring \<times> nat \<times> nat \<times> diff_normalize_state) option" where
  "svn_diff_normalize_in_place tgt n state buf opts mem =
    (if ignore_space opts = Ignore_space_none \<and> \<not> ignore_eol_style opts then Some (mem, buf, n, state)
     else Option.bind (nm_loop opts buf n
        \<lparr>nm_mem = mem, nm_start = buf, nm_include = 0, nm_skipped = False, nm_newend = tgt, nm_state = state\<rparr>) (\<lambda>m.
       if tgt = nm_newend m then Some (nm_mem m, nm_start m, nm_include m, nm_state m)
       else Option.bind (nm_copy_included_section (buf + n) m) (\<lambda>m.
         Some (nm_mem m, tgt, nm_newend m - tgt, nm_state m))))"

text \<open>
  The loop over the memory does what the loop over a buffer of its own does: what has been written is never longer
  than what has been read, and what is still to be copied has not been overwritten.
\<close>

lemma write_cells_nth:
  assumes "write_cells mem p s = Some mem'"
  shows "length mem' = length mem" "j < length mem \<Longrightarrow> mem' ! j = (if p \<le> j \<and> j < p + length s then s ! (j - p) else mem ! j)"
  using assms by (auto simp: write_cells_def nth_append split: if_splits)

definition nm_sim :: "cstring \<Rightarrow> nat \<Rightarrow> nat \<Rightarrow> nat \<Rightarrow> normalize_vars \<Rightarrow> normalize_memory \<Rightarrow> bool" where
  "nm_sim mem0 buf n tgt v m \<longleftrightarrow>
     nm_start m = buf + nb_start v \<and> nm_include m = nb_include v \<and> nm_skipped m = nb_skipped v \<and> nm_state m = nb_state v
     \<and> nm_newend m = tgt + length (nb_target v) \<and> length (nm_mem m) = length mem0
     \<and> (\<forall>j<length (nb_target v). nm_mem m ! (tgt + j) = nb_target v ! j)
     \<and> (\<forall>j. nb_start v \<le> j \<and> j < n \<longrightarrow> nm_mem m ! (buf + j) = mem0 ! (buf + j))
     \<and> (\<forall>j<length mem0. \<not> (tgt \<le> j \<and> j < tgt + n) \<longrightarrow> nm_mem m ! j = mem0 ! j)"

text \<open>The places of buffer and target.\<close>

definition nm_places :: "cstring \<Rightarrow> nat \<Rightarrow> nat \<Rightarrow> nat \<Rightarrow> bool" where
  "nm_places mem buf n tgt \<longleftrightarrow>
     buf + n \<le> length mem \<and> tgt + n \<le> length mem \<and> (tgt = buf \<or> tgt + n \<le> buf \<or> buf + n \<le> tgt)"

text \<open>A write behind what has been written, and before what is still to be read.\<close>

lemma nm_write:
  assumes p: "nm_places mem0 buf n tgt" and m: "nm_sim mem0 buf n tgt v m"
    and w: "length (nb_target v) + length s \<le> i" "i \<le> n"
  shows "\<exists>mem. write_cells (nm_mem m) (nm_newend m) s = Some mem \<and> length mem = length mem0
    \<and> (\<forall>j<length (nb_target v @ s). mem ! (tgt + j) = (nb_target v @ s) ! j)
    \<and> (\<forall>j. nb_start v \<le> j \<and> i \<le> j \<and> j < n \<longrightarrow> mem ! (buf + j) = mem0 ! (buf + j))
    \<and> (\<forall>j<length mem0. \<not> (tgt \<le> j \<and> j < tgt + n) \<longrightarrow> mem ! j = mem0 ! j)"
proof -
  note s = m[unfolded nm_sim_def] and q = p[unfolded nm_places_def]
  have le: "nm_newend m + length s \<le> length (nm_mem m)" using s q w by simp
  then obtain mem where mem: "write_cells (nm_mem m) (nm_newend m) s = Some mem" by (simp add: write_cells_def)
  note nth = write_cells_nth[OF mem]
  have l: "length mem = length mem0" using nth(1) s by simp
  have "mem ! (tgt + j) = (nb_target v @ s) ! j" if "j < length (nb_target v @ s)" for j
    using that nth(2)[of "tgt + j"] s q w by (auto simp: nth_append)
  moreover have "mem ! (buf + j) = mem0 ! (buf + j)" if "nb_start v \<le> j" "i \<le> j" "j < n" for j
    using that nth(2)[of "buf + j"] s q w by auto
  moreover have "mem ! j = mem0 ! j" if "j < length mem0" "\<not> (tgt \<le> j \<and> j < tgt + n)" for j
    using that nth(2)[of j] s q w by auto
  ultimately show ?thesis using mem l by blast
qed

lemma nm_block:
  assumes "nm_places mem0 buf n tgt" "nm_sim mem0 buf n tgt v m" "nb_start v + nb_include v \<le> n"
  shows "read_cells (nm_mem m) (nm_start m) (nm_include m) = Some (block (take n (drop buf mem0)) v)"
proof -
  note s = assms(2)[unfolded nm_sim_def] and q = assms(1)[unfolded nm_places_def]
  have "take (nb_include v) (drop (buf + nb_start v) (nm_mem m)) = block (take n (drop buf mem0)) v"
    using s q assms(3) by (intro nth_equalityI) (auto simp: block_def add.assoc)
  then show ?thesis using s q assms(3) by (simp add: read_cells_def)
qed

lemma nm_copy_sim:
  assumes p: "nm_places mem0 buf n tgt" and m: "nm_sim mem0 buf n tgt v m"
    and v: "nb_start v + nb_include v \<le> i" "i \<le> n" "length (nb_target v) \<le> nb_start v"
  shows "\<exists>m'. nm_copy_included_section (buf + i) m = Some m'
    \<and> nm_sim mem0 buf n tgt (copy_included_section (take n (drop buf mem0)) i v) m'"
proof (cases "nb_include v > 0")
  case False
  then show ?thesis using m v by (auto simp: nm_copy_included_section_def copy_included_section_def nm_sim_def)
next
  case True
  let ?b = "block (take n (drop buf mem0)) v"
  note s = m[unfolded nm_sim_def] and q = p[unfolded nm_places_def]
  have lb: "length ?b = nb_include v" using q v by (auto simp: block_def min_def)
  then have "length (nb_target v) + length ?b \<le> i" using v by simp
  from nm_write[OF p m this v(2)] obtain mem where mem: "write_cells (nm_mem m) (nm_newend m) ?b = Some mem" "length mem = length mem0"
    "\<forall>j<length (nb_target v @ ?b). mem ! (tgt + j) = (nb_target v @ ?b) ! j"
    "\<forall>j. nb_start v \<le> j \<and> i \<le> j \<and> j < n \<longrightarrow> mem ! (buf + j) = mem0 ! (buf + j)"
    "\<forall>j<length mem0. \<not> (tgt \<le> j \<and> j < tgt + n) \<longrightarrow> mem ! j = mem0 ! j" by blast
  have rd: "read_cells (nm_mem m) (nm_start m) (nm_include m) = Some ?b" using nm_block[OF p m] v by simp
  let ?m = "m\<lparr>nm_mem := mem, nm_newend := nm_newend m + nm_include m, nm_include := 0, nm_start := buf + i\<rparr>"
  have "nm_copy_included_section (buf + i) m = Some ?m"
    using True s rd mem(1) by (simp add: nm_copy_included_section_def)
  moreover have "nm_sim mem0 buf n tgt (copy_included_section (take n (drop buf mem0)) i v) ?m"
    using s mem(2-5) v lb True by (auto simp: nm_sim_def copy_included_section_def)
  ultimately show ?thesis by blast
qed

lemma nm_skip_sim:
  "nm_sim mem0 buf n tgt v m \<Longrightarrow> nm_sim mem0 buf n tgt (skip_char i v) (nm_skip (buf + i) m)"
  by (auto simp: nm_sim_def skip_char_def nm_skip_def)

lemma nm_include_sim:
  assumes p: "nm_places mem0 buf n tgt" and m: "nm_sim mem0 buf n tgt v m"
    and v: "nb_start v + nb_include v \<le> i" "i \<le> n" "length (nb_target v) \<le> nb_start v"
  shows "\<exists>m'. nm_include_char (buf + i) m = Some m' \<and> nm_sim mem0 buf n tgt (include_char (take n (drop buf mem0)) i v) m'"
proof -
  obtain m1 where m1: "(if nm_skipped m then nm_copy_included_section (buf + i) m else Some m) = Some m1"
    "nm_sim mem0 buf n tgt (if nb_skipped v then copy_included_section (take n (drop buf mem0)) i v else v) m1"
  proof (cases "nb_skipped v")
    case True
    then show thesis using that nm_copy_sim[OF assms] m by (auto simp: nm_sim_def)
  next
    case False
    then show thesis using that[of m] m by (auto simp: nm_sim_def)
  qed
  then show ?thesis
    by (intro exI[of _ "m1\<lparr>nm_include := nm_include m1 + 1, nm_skipped := False\<rparr>"])
      (auto simp: nm_include_char_def include_char_def Let_def nm_sim_def)
qed

lemma nm_include_as_sim:
  assumes p: "nm_places mem0 buf n tgt" and m: "nm_sim mem0 buf n tgt v m"
    and v: "nb_start v + nb_include v \<le> i" "i < n" "length (nb_target v) \<le> nb_start v"
  shows "\<exists>m'. nm_include_as (buf + i) c m = Some m' \<and> nm_sim mem0 buf n tgt (include_as (take n (drop buf mem0)) i c v) m'"
proof -
  let ?t = "take n (drop buf mem0)"
  note s = m[unfolded nm_sim_def] and q = p[unfolded nm_places_def]
  have rd: "read_cells (nm_mem m) (buf + i) 1 = Some [?t ! i]"
    using s q v by (simp add: read_cells_def take_Suc hd_drop_conv_nth)
  show ?thesis
  proof (cases "?t ! i = c")
    case True
    then show ?thesis using nm_include_sim[OF p m v(1) _ v(3)] v(2) rd by (auto simp: nm_include_as_def include_as_def)
  next
    case False
    let ?v1 = "copy_included_section ?t i v"
    obtain m1 where m1: "nm_copy_included_section (buf + i) m = Some m1" "nm_sim mem0 buf n tgt ?v1 m1"
      using nm_copy_sim[OF p m v(1) _ v(3)] v(2) by auto
    have l1: "length (nb_target ?v1) \<le> i" using v q by (auto simp: block_def)
    have "length (nb_target ?v1) + length [c] \<le> Suc i" "Suc i \<le> n" using l1 v(2) by simp_all
    from nm_write[OF p m1(2) this] obtain mem where mem: "write_cells (nm_mem m1) (nm_newend m1) [c] = Some mem" "length mem = length mem0"
      "\<forall>j<length (nb_target ?v1 @ [c]). mem ! (tgt + j) = (nb_target ?v1 @ [c]) ! j"
      "\<forall>j. nb_start ?v1 \<le> j \<and> Suc i \<le> j \<and> j < n \<longrightarrow> mem ! (buf + j) = mem0 ! (buf + j)"
      "\<forall>j<length mem0. \<not> (tgt \<le> j \<and> j < tgt + n) \<longrightarrow> mem ! j = mem0 ! j" by blast
    let ?m = "nm_skip (buf + i) (m1\<lparr>nm_mem := mem, nm_newend := nm_newend m1 + 1\<rparr>)"
    have "nm_include_as (buf + i) c m = Some ?m"
      using False rd m1(1) mem(1) by (simp add: nm_include_as_def nm_insert_def)
    moreover have "nm_sim mem0 buf n tgt (include_as ?t i c v) ?m"
      using False m1(2) mem(2-5)
      by (auto simp: nm_sim_def include_as_def insert_char_def Let_def nm_skip_def skip_char_def)
    ultimately show ?thesis by blast
  qed
qed

text \<open>Writing never overtakes reading.\<close>

definition nm_behind :: "nat \<Rightarrow> normalize_vars \<Rightarrow> bool" where
  "nm_behind i v \<longleftrightarrow> nb_start v + nb_include v \<le> i \<and> length (nb_target v) \<le> nb_start v"

lemma nm_behind_copy: "nm_behind i v \<Longrightarrow> nm_behind i (copy_included_section src i v)"
  by (auto simp: nm_behind_def block_def)

lemma nm_behind_skip: "nm_behind i v \<Longrightarrow> nm_behind (Suc i) (skip_char i v)"
  by (auto simp: nm_behind_def skip_char_def)

lemma nm_behind_include: "nm_behind i v \<Longrightarrow> nm_behind (Suc i) (include_char src i v)"
  using nm_behind_copy[of i v src] by (auto simp: nm_behind_def include_char_def Let_def)

lemma nm_behind_include_as: "nm_behind i v \<Longrightarrow> nm_behind (Suc i) (include_as src i c v)"
  using nm_behind_copy[of i v src] nm_behind_include[of i v src]
  by (auto simp: nm_behind_def include_as_def insert_char_def skip_char_def Let_def)

lemma nm_behind_state [simp]: "nm_behind i (v\<lparr>nb_state := st\<rparr>) = nm_behind i v"
  by (simp add: nm_behind_def)

lemma nm_behind_char: "nm_behind i v \<Longrightarrow> nm_behind (Suc i) (normalize_char opts src i v)"
  by (simp add: normalize_char_def Let_def nm_behind_skip nm_behind_include nm_behind_include_as)

lemma nm_sim_state: "nm_sim mem0 buf n tgt v m \<Longrightarrow> nm_sim mem0 buf n tgt (v\<lparr>nb_state := st\<rparr>) (m\<lparr>nm_state := st\<rparr>)"
  by (simp add: nm_sim_def)

lemma nm_char_sim:
  assumes p: "nm_places mem0 buf n tgt" and m: "nm_sim mem0 buf n tgt v m" and v: "nm_behind i v" "i < n"
  shows "\<exists>m'. nm_char opts (buf + i) m = Some m' \<and> nm_sim mem0 buf n tgt (normalize_char opts (take n (drop buf mem0)) i v) m'"
proof -
  let ?t = "take n (drop buf mem0)"
  note s = m[unfolded nm_sim_def] and q = p[unfolded nm_places_def]
  have b: "nb_start v + nb_include v \<le> i" "length (nb_target v) \<le> nb_start v" using v(1) by (simp_all add: nm_behind_def)
  have rd: "read_cells (nm_mem m) (buf + i) 1 = Some [?t ! i]"
    using s q v(2) b by (simp add: read_cells_def take_Suc hd_drop_conv_nth)
  have st: "nm_state m = nb_state v" using s by simp
  obtain m1 where m1: "nm_include_char (buf + i) m = Some m1" "nm_sim mem0 buf n tgt (include_char ?t i v) m1"
    using nm_include_sim[OF p m b(1) _ b(2)] v(2) by auto
  have other: "\<exists>m'. nm_include_as (buf + i) c m = Some m' \<and> nm_sim mem0 buf n tgt (include_as ?t i c v) m'" for c
    using nm_include_as_sim[OF p m b(1) v(2) b(2)] by blast
  obtain m2 where m2: "nm_include_as (buf + i) newline m = Some m2" "nm_sim mem0 buf n tgt (include_as ?t i newline v) m2"
    using other by blast
  obtain m3 where m3: "nm_include_as (buf + i) (CHR '' '') m = Some m3" "nm_sim mem0 buf n tgt (include_as ?t i (CHR '' '') v) m3"
    using other by blast
  note sk = nm_skip_sim[OF m, of i]
  have ne: "newline \<noteq> carriage_return" by (simp add: newline_def carriage_return_def)
  show ?thesis
    by (simp add: nm_char_def normalize_char_def rd [unfolded One_nat_def] st m1(1) m2(1) m3(1) Let_def ne nm_sim_state m1(2) m2(2) m3(2) sk)
qed

lemma nm_loop_sim:
  assumes p: "nm_places mem0 buf n tgt"
  shows "nm_sim mem0 buf n tgt v m \<Longrightarrow> nm_behind i v \<Longrightarrow> i + k = n \<Longrightarrow>
    \<exists>m'. nm_loop opts (buf + i) k m = Some m'
      \<and> nm_sim mem0 buf n tgt (fold (normalize_char opts (take n (drop buf mem0))) [i..<n] v) m'
      \<and> nm_behind n (fold (normalize_char opts (take n (drop buf mem0))) [i..<n] v)"
proof (induction k arbitrary: i v m)
  case (Suc k)
  let ?v = "normalize_char opts (take n (drop buf mem0)) i v"
  have i: "i < n" using Suc.prems by simp
  obtain m1 where m1: "nm_char opts (buf + i) m = Some m1" "nm_sim mem0 buf n tgt ?v m1"
    using nm_char_sim[OF p Suc.prems(1,2) i] by blast
  have "nm_behind (Suc i) ?v" "Suc i + k = n" using nm_behind_char Suc.prems by auto
  from Suc.IH[OF m1(2) this] show ?case using m1(1) i by (simp add: upt_conv_Cons)
qed auto

lemma normalize_in_place_result:
  assumes p: "nm_places mem buf n tgt"
  shows "\<exists>mem' p len st'. svn_diff_normalize_in_place tgt n st buf opts mem = Some (mem', p, len, st')
    \<and> (take len (drop p mem'), st') = svn_diff_normalize_buffer st (take n (drop buf mem)) opts
    \<and> (p = tgt \<and> len \<le> n \<or> buf \<le> p \<and> p + len \<le> buf + n) \<and> length mem' = length mem
    \<and> (\<forall>j<length mem. \<not> (tgt \<le> j \<and> j < tgt + n) \<longrightarrow> mem' ! j = mem ! j)"
proof (cases "ignore_space opts = Ignore_space_none \<and> \<not> ignore_eol_style opts")
  case True
  then show ?thesis by (auto simp: svn_diff_normalize_in_place_def svn_diff_normalize_buffer_def)
next
  case False
  let ?t = "take n (drop buf mem)"
  let ?v0 = "\<lparr>nb_start = 0, nb_include = 0, nb_skipped = False, nb_target = [], nb_state = st\<rparr>"
  let ?m0 = "\<lparr>nm_mem = mem, nm_start = buf, nm_include = 0, nm_skipped = False, nm_newend = tgt, nm_state = st\<rparr>"
  define v where "v = fold (normalize_char opts ?t) [0..<n] ?v0"
  note q = p[unfolded nm_places_def]
  have l: "length ?t = n" using q by (auto simp: min_def)
  have "nm_sim mem buf n tgt ?v0 ?m0" "nm_behind 0 ?v0" by (simp_all add: nm_sim_def nm_behind_def)
  from nm_loop_sim[OF p this, of n opts] obtain m where m: "nm_loop opts buf n ?m0 = Some m" "nm_sim mem buf n tgt v m"
    "nm_behind n v" by (auto simp: v_def)
  note s = m(2)[unfolded nm_sim_def] and b = m(3)[unfolded nm_behind_def]
  have res: "svn_diff_normalize_buffer st ?t opts =
      (if nb_target v = [] then (block ?t v, nb_state v) else (nb_target (copy_included_section ?t n v), nb_state v))"
    by (simp only: svn_diff_normalize_buffer_def if_not_P[OF False] Let_def l v_def[symmetric])
  show ?thesis
  proof (cases "nb_target v = []")
    case True
    have "read_cells (nm_mem m) (nm_start m) (nm_include m) = Some (block ?t v)" using nm_block[OF p m(2)] b by simp
    then have "take (nm_include m) (drop (nm_start m) (nm_mem m)) = block ?t v" by (simp add: read_cells_def split: if_splits)
    moreover have "svn_diff_normalize_in_place tgt n st buf opts mem = Some (nm_mem m, nm_start m, nm_include m, nm_state m)"
      using False True m(1) s by (auto simp: svn_diff_normalize_in_place_def)
    ultimately show ?thesis using True res s b by auto
  next
    case tgt: False
    obtain m1 where m1: "nm_copy_included_section (buf + n) m = Some m1" "nm_sim mem buf n tgt (copy_included_section ?t n v) m1"
      using nm_copy_sim[OF p m(2)] b by blast
    let ?o = "nb_target (copy_included_section ?t n v)"
    note s1 = m1(2)[unfolded nm_sim_def]
    have "length ?o \<le> n" using b by (auto simp: block_def)
    then have "take (nm_newend m1 - tgt) (drop tgt (nm_mem m1)) = ?o"
      using s1 q by (intro nth_equalityI) auto
    moreover have "svn_diff_normalize_in_place tgt n st buf opts mem = Some (nm_mem m1, tgt, nm_newend m1 - tgt, nm_state m1)"
      using False tgt m(1) s m1(1) by (auto simp: svn_diff_normalize_in_place_def)
    ultimately show ?thesis using tgt res s1 \<open>length ?o \<le> n\<close> by auto
  qed
qed

text \<open>The comment at the end of the loop says that white space before the end of the input is ignored
  unconditionally; a single blank is kept when changes in the amount of white space are ignored.\<close>

lemma trailing_space_kept:
  "svn_diff_normalize_buffer Normalize_normal ''a '' \<lparr>ignore_space = Ignore_space_change, ignore_eol_style = False\<rparr>
      = (''a '', Normalize_whitespace)
    \<and> svn_diff_normalize_buffer Normalize_normal ''a  '' \<lparr>ignore_space = Ignore_space_change, ignore_eol_style = False\<rparr>
      = (''a '', Normalize_whitespace)"
  by code_simp

section \<open>svn\_\_adler32\<close>

definition ADLER_MOD_BASE :: "32 word" where "ADLER_MOD_BASE = 65521"

text \<open>The sums over the bytes of the input; the code takes eight of them in a turn as long as there are eight.\<close>

fun adler_sums :: "cstring \<Rightarrow> 32 word \<Rightarrow> 32 word \<Rightarrow> 32 word \<times> 32 word" where
  "adler_sums [] s1 s2 = (s1, s2)"
| "adler_sums (c # input) s1 s2 = (let s1 = s1 + of_char c in adler_sums input s1 (s2 + s1))"

text \<open>\<open>zlib_adler32\<close> is the function of zlib, to which longer inputs are given.\<close>

definition svn_adler32 :: "(32 word \<Rightarrow> cstring \<Rightarrow> 32 word) \<Rightarrow> 32 word \<Rightarrow> cstring \<Rightarrow> 32 word" where
  "svn_adler32 zlib_adler32 checksum data =
    (if length data \<ge> 80 then zlib_adler32 checksum data
     else case adler_sums data (checksum AND 0xFFFF) (drop_bit 16 checksum) of
       (s1, s2) \<Rightarrow> push_bit 16 (s2 mod ADLER_MOD_BASE) OR (s1 mod ADLER_MOD_BASE))"

section \<open>In-memory data sources\<close>

text \<open>\<open>source_tokens_t\<close> and \<open>diff_mem_baton_t\<close>. A token is the text of a line. The normalization buffers hold nothing
  from one call to the next.\<close>

record source_tokens =
  src_tokens :: "cstring list"
  src_next_token :: nat
  src_source :: cstring
  src_ends_without_eol :: bool

record diff_mem_baton =
  mem_sources :: "source_tokens list"
  mem_options :: diff_file_options

fun datasource_to_index :: "diff_datasource \<Rightarrow> nat" where
  "datasource_to_index Datasource_original = 0"
| "datasource_to_index Datasource_modified = 1"
| "datasource_to_index Datasource_latest = 2"
| "datasource_to_index Datasource_ancestor = 3"

definition mem_datasources_open :: "diff_mem_baton \<Rightarrow> diff_datasource list \<Rightarrow> (int \<times> int \<times> diff_mem_baton) svn_result" where
  "mem_datasources_open baton datasources = Inr (0, 0, baton)"

definition mem_datasource_close :: "diff_mem_baton \<Rightarrow> diff_datasource \<Rightarrow> diff_mem_baton svn_result" where
  "mem_datasource_close baton datasource = Inr baton"

definition normalized_token :: "diff_mem_baton \<Rightarrow> cstring \<Rightarrow> cstring" where
  "normalized_token baton token = fst (svn_diff_normalize_buffer Normalize_normal token (mem_options baton))"

definition mem_datasource_get_next_token :: "(32 word \<Rightarrow> cstring \<Rightarrow> 32 word) \<Rightarrow> 32 word \<Rightarrow> diff_mem_baton \<Rightarrow> diff_datasource \<Rightarrow>
    (32 word \<times> cstring option \<times> diff_mem_baton) svn_result" where
  "mem_datasource_get_next_token zlib_adler32 hash baton datasource =
    (let idx = datasource_to_index datasource; src = mem_sources baton ! idx
     in if length (src_tokens src) > src_next_token src then
          let token = src_tokens src ! src_next_token src
          in Inr (svn_adler32 zlib_adler32 0 (normalized_token baton token), Some token,
                  baton\<lparr>mem_sources := (mem_sources baton)[idx := src\<lparr>src_next_token := src_next_token src + 1\<rparr>]\<rparr>)
        else Inr (hash, None, baton))"

definition compare_texts :: "cstring \<Rightarrow> cstring \<Rightarrow> int" where
  "compare_texts buf1 buf2 =
    (if length buf1 \<noteq> length buf2 then (if length buf1 < length buf2 then - 1 else 1)
     else if length buf1 = 0 then 0 else memcmp buf1 buf2)"

definition mem_token_compare :: "diff_mem_baton \<Rightarrow> cstring \<Rightarrow> cstring \<Rightarrow> (int \<times> diff_mem_baton) svn_result" where
  "mem_token_compare baton token1 token2 =
    Inr (compare_texts (normalized_token baton token1) (normalized_token baton token2), baton)"

definition mem_token_discard :: "diff_mem_baton \<Rightarrow> cstring \<Rightarrow> diff_mem_baton" where
  "mem_token_discard baton token = baton"

definition mem_token_discard_all :: "diff_mem_baton \<Rightarrow> diff_mem_baton" where
  "mem_token_discard_all baton = baton"

definition svn_diff_mem_vtable :: "(32 word \<Rightarrow> cstring \<Rightarrow> 32 word) \<Rightarrow> (diff_mem_baton, cstring) diff_fns" where
  "svn_diff_mem_vtable zlib_adler32 =
    \<lparr>datasources_open = mem_datasources_open, datasource_close = mem_datasource_close,
     datasource_get_next_token = mem_datasource_get_next_token zlib_adler32, token_compare = mem_token_compare,
     token_discard = Some mem_token_discard, token_discard_all = Some mem_token_discard_all\<rparr>"

text \<open>The loop of \<open>fill_source_tokens\<close>: \<open>line\<close> is the text from \<open>startp\<close> to \<open>curp\<close>. A line ends with CR, LF or CR LF.\<close>

fun fill_tokens :: "cstring \<Rightarrow> cstring \<Rightarrow> cstring list \<Rightarrow> cstring list \<times> bool" where
  "fill_tokens [] line tokens = (if line \<noteq> [] then (tokens @ [line], True) else (tokens, False))"
| "fill_tokens (c # text) line tokens =
    (if c = carriage_return \<and> text \<noteq> [] \<and> hd text = newline then fill_tokens (tl text) [] (tokens @ [line @ [c, hd text]])
     else if c = carriage_return \<or> c = newline then fill_tokens text [] (tokens @ [line @ [c]])
     else fill_tokens text (line @ [c]) tokens)"

definition fill_source_tokens :: "cstring \<Rightarrow> source_tokens" where
  "fill_source_tokens text =
    (case fill_tokens text [] [] of (tokens, without_eol) \<Rightarrow>
       \<lparr>src_tokens = tokens, src_next_token = 0, src_source = text, src_ends_without_eol = without_eol\<rparr>)"

text \<open>The sources that are not set up are never read; they stand here as empty ones.\<close>

definition unused_source :: source_tokens where
  "unused_source = \<lparr>src_tokens = [], src_next_token = 0, src_source = [], src_ends_without_eol = False\<rparr>"

definition svn_diff_mem_string_diff :: "(32 word \<Rightarrow> cstring \<Rightarrow> 32 word) \<Rightarrow> cstring \<Rightarrow> cstring \<Rightarrow> diff_file_options \<Rightarrow>
    svn_diff list svn_result option" where
  "svn_diff_mem_string_diff zlib_adler32 original modified opts =
    map_option (\<lambda>result. svn_try result (\<lambda>(diff, baton). Inr diff))
      (svn_diff_diff_2 (svn_diff_mem_vtable zlib_adler32)
        \<lparr>mem_sources = [fill_source_tokens original, fill_source_tokens modified, unused_source, unused_source],
         mem_options = opts\<rparr>)"

section \<open>They keep the contract\<close>

lemma memcmp_eq: "length p = length q \<Longrightarrow> memcmp p q = 0 \<longleftrightarrow> p = q"
  by (induction p q rule: list_induct2) auto

lemma compare_texts_eq: "compare_texts p q = 0 \<longleftrightarrow> p = q"
  by (auto simp: compare_texts_def memcmp_eq)

definition mem_ok :: "diff_mem_baton \<Rightarrow> bool" where
  "mem_ok baton \<longleftrightarrow> length (mem_sources baton) = 4"

definition mem_rest :: "diff_mem_baton \<Rightarrow> diff_datasource \<Rightarrow> cstring list" where
  "mem_rest baton d = (let src = mem_sources baton ! datasource_to_index d in drop (src_next_token src) (src_tokens src))"

lemma datasource_to_index: "datasource_to_index d < 4" "datasource_to_index d = datasource_to_index e \<longleftrightarrow> d = e"
  by (cases d; cases e; simp)+

lemma drop_ConsD: "drop n xs = y # ys \<Longrightarrow> n < length xs \<and> xs ! n = y \<and> drop (Suc n) xs = ys"
  by (metis Cons_nth_drop_Suc drop_all list.distinct(1) list.inject not_le)

interpretation mem: diff_source "svn_diff_mem_vtable zlib_adler32" mem_ok "\<lambda>s d. map (normalized_token s) (mem_rest s d)"
  mem_ok mem_rest normalized_token "svn_adler32 zlib_adler32 0" compare_texts
  for zlib_adler32
proof (unfold_locales, goal_cases)
  case (1 s sources)
  then show ?case
    by (intro exI[of _ "[]"] exI[of _ s]) (auto simp: svn_diff_mem_vtable_def mem_datasources_open_def)
next
  case (2 s d hash)
  then show ?case by (auto simp: svn_diff_mem_vtable_def mem_datasource_get_next_token_def mem_rest_def Let_def)
next
  case (3 s d t ts hash)
  let ?i = "datasource_to_index d" and ?src = "mem_sources s ! datasource_to_index d"
  from 3 have token: "src_next_token ?src < length (src_tokens ?src)" "src_tokens ?src ! src_next_token ?src = t"
    "drop (Suc (src_next_token ?src)) (src_tokens ?src) = ts"
    by (auto simp: mem_rest_def Let_def dest: drop_ConsD)
  let ?s = "s\<lparr>mem_sources := (mem_sources s)[?i := ?src\<lparr>src_next_token := src_next_token ?src + 1\<rparr>]\<rparr>"
  have "mem_rest ?s = (mem_rest s)(d := ts)"
    using 3(1) token(3) datasource_to_index by (auto simp: fun_eq_iff mem_rest_def mem_ok_def nth_list_update Let_def)
  moreover have "normalized_token ?s = normalized_token s" by (simp add: fun_eq_iff normalized_token_def)
  ultimately show ?case using 3(1) token(1,2)
    by (auto simp: svn_diff_mem_vtable_def mem_datasource_get_next_token_def mem_ok_def Let_def)
qed (auto simp: svn_diff_mem_vtable_def mem_token_compare_def mem_datasource_close_def mem_token_discard_def
    mem_token_discard_all_def compare_texts_eq)

section \<open>Lines\<close>

lemma fill_tokens_text: "concat (fst (fill_tokens inp line tokens)) = concat tokens @ line @ inp"
proof (induction inp line tokens rule: fill_tokens.induct)
  case (2 c inp line tokens)
  then show ?case by (cases inp) auto
qed simp

lemma fill_tokens_nonempty: "[] \<notin> set tokens \<Longrightarrow> [] \<notin> set (fst (fill_tokens inp line tokens))"
  by (induction inp line tokens rule: fill_tokens.induct) auto

section \<open>Differences of texts\<close>

definition text_lines :: "cstring \<Rightarrow> cstring list" where
  "text_lines s = src_tokens (fill_source_tokens s)"

lemma text_lines_concat: "concat (text_lines s) = s"
  using fill_tokens_text[of s "[]" "[]"] by (simp add: text_lines_def fill_source_tokens_def split_beta)

text \<open>What lines are compared by.\<close>

definition compared_lines :: "diff_file_options \<Rightarrow> cstring \<Rightarrow> cstring list" where
  "compared_lines opts s = map (\<lambda>line. fst (normalized opts Normalize_normal line)) (text_lines s)"

lemma mem_content:
  "map (normalized_token \<lparr>mem_sources = [fill_source_tokens a, fill_source_tokens b, c, d], mem_options = opts\<rparr>)
      (mem_rest \<lparr>mem_sources = [fill_source_tokens a, fill_source_tokens b, c, d], mem_options = opts\<rparr> Datasource_original) = compared_lines opts a"
  "map (normalized_token \<lparr>mem_sources = [fill_source_tokens a, fill_source_tokens b, c, d], mem_options = opts\<rparr>)
      (mem_rest \<lparr>mem_sources = [fill_source_tokens a, fill_source_tokens b, c, d], mem_options = opts\<rparr> Datasource_modified) = compared_lines opts b"
  by (auto simp: mem_rest_def compared_lines_def text_lines_def normalized_token_def normalize_buffer_text fill_source_tokens_def split: prod.split)

lemma mem_string_diff_result:
  "\<exists>hs. svn_diff_mem_string_diff zlib_adler32 original modified opts = Some (Inr hs) \<and>
    two_way (compared_lines opts original) (compared_lines opts modified) 0 0 hs \<and>
    longest_common_length (compared_lines opts original) (compared_lines opts modified) (common_lines hs)"
proof -
  let ?baton = "\<lparr>mem_sources = [fill_source_tokens original, fill_source_tokens modified, unused_source, unused_source], mem_options = opts\<rparr>"
  have "mem_ok ?baton" by (simp add: mem_ok_def)
  from mem.svn_diff_diff_2_result[OF this, of zlib_adler32] show ?thesis
    unfolding mem_content by (auto simp: svn_diff_mem_string_diff_def)
qed

text \<open>C2. \<open>svn_diff_mem_string_diff\<close> returns for every two texts and all options, without an error. Its hunks follow
  each other from begin to end of both texts, the common ones stand for lines that are equal after normalization, the
  lines of the one text can be put together from the other and the hunks, and no list of hunks has more common lines.\<close>

theorem mem_string_diff_correct:
  "\<exists>hs. svn_diff_mem_string_diff zlib_adler32 original modified opts = Some (Inr hs) \<and>
    two_way (compared_lines opts original) (compared_lines opts modified) 0 0 hs \<and>
    patched (compared_lines opts original) (compared_lines opts modified) hs = compared_lines opts modified \<and>
    unpatched (compared_lines opts original) (compared_lines opts modified) hs = compared_lines opts original \<and>
    longest_common_length (compared_lines opts original) (compared_lines opts modified) (common_lines hs)"
  using mem_string_diff_result[of zlib_adler32 original modified opts] two_way_patched two_way_unpatched by fastforce

text \<open>Without normalization the text itself is restored: the common lines of the original and the changed lines of
  the modified text are the modified text, byte for byte, and the other way round.\<close>

theorem mem_string_diff_patch:
  "\<exists>hs. svn_diff_mem_string_diff zlib_adler32 original modified \<lparr>ignore_space = Ignore_space_none, ignore_eol_style = False\<rparr> = Some (Inr hs) \<and>
    concat (patched (text_lines original) (text_lines modified) hs) = modified \<and>
    concat (unpatched (text_lines original) (text_lines modified) hs) = original"
proof -
  let ?opts = "\<lparr>ignore_space = Ignore_space_none, ignore_eol_style = False\<rparr>"
  have "compared_lines ?opts s = text_lines s" for s by (simp add: compared_lines_def normalized_nothing)
  with mem_string_diff_result[of zlib_adler32 original modified ?opts] two_way_patched two_way_unpatched text_lines_concat
  show ?thesis by fastforce
qed

text \<open>C20. \<open>svn_diff__normalize_buffer\<close>, which copies whole blocks and only when it must, computes the normalization
  character by character that its options describe (\<open>normalized\<close>), for a target buffer of its own and for one that is
  the buffer itself: for a target that is the buffer or does not overlap it, all reads and writes are inside the
  memory, the result is the normalized text and the new state, it lies at the target or inside the buffer, and
  nothing outside the target has changed. In the mode that ignores changes of white space, normalizing leaves a
  blank for white space at the end of the input, with or without an end of line.\<close>

theorem normalize_buffer_correct:
  assumes "buf + n \<le> length mem" and "tgt + n \<le> length mem" and "tgt = buf \<or> tgt + n \<le> buf \<or> buf + n \<le> tgt"
  shows "\<exists>mem' p len st'. svn_diff_normalize_in_place tgt n st buf opts mem = Some (mem', p, len, st')
    \<and> (take len (drop p mem'), st') =
       (if ignore_space opts = Ignore_space_none \<and> \<not> ignore_eol_style opts then (take n (drop buf mem), st)
        else normalized opts st (take n (drop buf mem)))
    \<and> svn_diff_normalize_buffer st (take n (drop buf mem)) opts = (take len (drop p mem'), st')
    \<and> (p = tgt \<and> len \<le> n \<or> buf \<le> p \<and> p + len \<le> buf + n) \<and> length mem' = length mem
    \<and> (\<forall>j<length mem. \<not> (tgt \<le> j \<and> j < tgt + n) \<longrightarrow> mem' ! j = mem ! j)"
proof -
  have "nm_places mem buf n tgt" using assms by (simp add: nm_places_def)
  from normalize_in_place_result[OF this, of st opts] show ?thesis
    by (metis normalize_buffer_result)
qed

theorem normalize_buffer_correct_witness:
  "\<exists>mem' p len. svn_diff_normalize_in_place 1 6 Normalize_normal 1 \<lparr>ignore_space = Ignore_space_change, ignore_eol_style = False\<rparr>
        ''xa  b  y'' = Some (mem', p, len, Normalize_whitespace)
    \<and> take len (drop p mem') = ''a b '' \<and> mem' ! 0 = CHR ''x'' \<and> mem' ! 7 = CHR ''y''"
proof -
  let ?opts = "\<lparr>ignore_space = Ignore_space_change, ignore_eol_style = False\<rparr>"
  have n: "normalized ?opts Normalize_normal ''a  b  '' = (''a b '', Normalize_whitespace)" by code_simp
  have t: "take 6 (drop 1 ''xa  b  y'') = ''a  b  ''" by simp
  show ?thesis
    using normalize_buffer_correct[of 1 6 "''xa  b  y''" 1 Normalize_normal ?opts] n unfolding t by fastforce
qed

end
