(* ===== verification/Diff_Merge.thy ===== *)
theory Diff_Merge
  imports Diff_Memory
begin

text \<open>
  Three-way differences (\<open>libsvn_diff/diff3.c\<close>, \<open>svn_diff_mem_string_diff3\<close>): the sync points of the two chains of
  chunks, the hunks between them, and the resolution of conflicts. The rings that \<open>svn_diff__resolve_conflict\<close> cuts
  out of the lists of positions are lists of their own, because the positions behind them are not read again. The
  locale \<open>whole_diff_source\<close> extends the contract of the callbacks: no lines are left out at begin and end.
\<close>

section \<open>svn\_diff\_\_resolve\_conflict\<close>

text \<open>A position of a ring is an index into it, as in \<open>Diff_Lcs\<close>. The first position at or after an offset.\<close>

partial_function (option) seek_position :: "diff_ring \<Rightarrow> int \<Rightarrow> nat \<Rightarrow> nat option" where
  "seek_position r start i = (if pos_offset (r ! i) < start then seek_position r start (next_position r i) else Some i)"

text \<open>The loop over the tokens that both sides begin with.\<close>

function match_start :: "diff_ring \<Rightarrow> diff_ring \<Rightarrow> int \<Rightarrow> nat \<Rightarrow> nat \<Rightarrow> int \<times> nat \<times> nat" where
  "match_start r1 r2 common i j =
    (if common > 0 \<and> token_index (r1 ! i) = token_index (r2 ! j)
     then match_start r1 r2 (common - 1) (next_position r1 i) (next_position r2 j) else (common, i, j))"
  by pat_completeness auto
termination by (relation "measure (\<lambda>(r1, r2, common, i, j). nat common)") auto

declare match_start.simps [simp del]

text \<open>The ring of the \<open>n\<close> positions from \<open>i\<close> on, and the position after them.\<close>

definition ring_part :: "diff_ring \<Rightarrow> nat \<Rightarrow> int \<Rightarrow> diff_ring \<times> nat" where
  "ring_part r i n =
    (if n = 0 then ([], i) else (map (\<lambda>k. r ! (next_position r ^^ k) i) [0..<nat n], (next_position r ^^ nat n) i))"

text \<open>The loop that produces the resolved diff.\<close>

fun resolve_hunks :: "svn_diff \<Rightarrow> diff_lcs list \<Rightarrow> int \<Rightarrow> int \<Rightarrow> svn_diff list option" where
  "resolve_hunks hunk [] mstart lstart = None"
| "resolve_hunks hunk (lcs # chain) mstart lstart =
    (let conflict = (if mstart < lcs_offset0 lcs \<or> lstart < lcs_offset1 lcs
                     then [Svn_diff Type_conflict (original_start hunk) (original_length hunk)
                             (mstart - 1) (lcs_offset0 lcs - mstart) (lstart - 1) (lcs_offset1 lcs - lstart) []]
                     else [])
     in if lcs_length lcs = 0 then Some conflict
        else map_option (\<lambda>rest. conflict @ Svn_diff Type_diff_common (original_start hunk) (original_length hunk)
                             (lcs_offset0 lcs - 1) (lcs_length lcs) (lcs_offset1 lcs - 1) (lcs_length lcs) [] # rest)
               (resolve_hunks hunk chain (lcs_offset0 lcs + lcs_length lcs) (lcs_offset1 lcs + lcs_length lcs)))"

text \<open>The correction of the end, when one of the sequences is empty: an offset of 1 in the first chunk.\<close>

definition fix_eof :: "int \<Rightarrow> int \<Rightarrow> diff_lcs list \<Rightarrow> diff_lcs list" where
  "fix_eof offset0 offset1 chain =
    (case chain of [] \<Rightarrow> []
     | lcs # rest \<Rightarrow>
        let lcs = (if lcs_offset0 lcs = 1 then lcs\<lparr>lcs_offset0 := offset0\<rparr> else lcs);
            lcs = (if lcs_offset1 lcs = 1 then lcs\<lparr>lcs_offset1 := offset1\<rparr> else lcs)
        in lcs # rest)"

text \<open>The result is the hunk, with its type and its resolved diff, and the positions behind it.\<close>

definition svn_diff_resolve_conflict :: "svn_diff \<Rightarrow> diff_ring \<Rightarrow> diff_ring \<Rightarrow> nat \<Rightarrow> nat \<Rightarrow> nat \<Rightarrow> (svn_diff \<times> nat \<times> nat) option" where
  "svn_diff_resolve_conflict hunk r1 r2 pos1 pos2 num_tokens =
    Option.bind (seek_position r1 (modified_start hunk + 1) pos1) (\<lambda>start0.
    Option.bind (seek_position r2 (latest_start hunk + 1) pos2) (\<lambda>start1.
      let shorter = min (modified_length hunk) (latest_length hunk);
          (left, i, j) = match_start r1 r2 shorter start0 start1
      in if left = 0 \<and> modified_length hunk = latest_length hunk then
           Some (Svn_diff Type_diff_common (original_start hunk) (original_length hunk) (modified_start hunk) (modified_length hunk)
                   (latest_start hunk) (latest_length hunk) [], i, j)
         else
           let common = shorter - left;
               leading = (if common > 0
                 then [\<lparr>lcs_offset0 = pos_offset (r1 ! start0), lcs_offset1 = pos_offset (r2 ! start1), lcs_length = common\<rparr>] else []);
               (ps1, pos1) = ring_part r1 i (modified_length hunk - common);
               (ps2, pos2) = ring_part r2 j (latest_length hunk - common)
           in Option.bind (svn_diff_lcs ps1 ps2 (svn_diff_get_token_counts ps1 num_tokens) (svn_diff_get_token_counts ps2 num_tokens)
                num_tokens 0 0) (\<lambda>chain.
              Option.bind (resolve_hunks hunk (leading @ fix_eof (pos_offset (r1 ! pos1)) (pos_offset (r2 ! pos2)) chain)
                (pos_offset (r1 ! start0)) (pos_offset (r2 ! start1))) (\<lambda>resolved.
                Some (Svn_diff Type_conflict (original_start hunk) (original_length hunk) (modified_start hunk) (modified_length hunk)
                        (latest_start hunk) (latest_length hunk) resolved, pos1, pos2)))))"

section \<open>svn\_diff\_diff3\_2\<close>

text \<open>To the first chunk that does not end before the sync point; past the end of the chain is \<open>None\<close>.\<close>

fun chunks_until :: "int \<Rightarrow> diff_lcs list \<Rightarrow> diff_lcs list option" where
  "chunks_until sync [] = None"
| "chunks_until sync (c # cs) = (if lcs_offset0 c + lcs_length c < sync then chunks_until sync cs else Some (c # cs))"

text \<open>If the sync point is the end of the files, a chunk that does not reach it in the other file is left out. A chain
  of one chunk is its end, which has no length.\<close>

definition skip_at_eof :: "diff_lcs \<Rightarrow> int \<Rightarrow> diff_lcs list \<Rightarrow> diff_lcs list option" where
  "skip_at_eof other sync chain =
    (case chain of
       c # cs \<Rightarrow>
        if lcs_length other = 0 \<and> lcs_length c > 0 \<and> lcs_offset0 c + lcs_length c = sync then
          (case cs of [] \<Rightarrow> None
           | c' # _ \<Rightarrow> if lcs_offset1 c + lcs_length c \<noteq> lcs_offset1 c' then Some cs else Some chain)
        else Some chain
     | [] \<Rightarrow> None)"

partial_function (option) find_sync :: "diff_lcs list \<Rightarrow> diff_lcs list \<Rightarrow> (int \<times> diff_lcs list \<times> diff_lcs list) option" where
  "find_sync om ol =
    (if om = [] \<or> ol = [] then None
     else if lcs_offset0 (hd om) > lcs_offset0 (hd ol) then
       (let sync = lcs_offset0 (hd om) in
        Option.bind (Option.bind (chunks_until sync ol) (skip_at_eof (hd om) sync)) (\<lambda>ol.
          if lcs_offset0 (hd ol) \<le> sync then Some (sync, om, ol) else find_sync om ol))
     else
       (let sync = lcs_offset0 (hd ol) in
        Option.bind (Option.bind (chunks_until sync om) (skip_at_eof (hd ol) sync)) (\<lambda>om.
          if lcs_offset0 (hd om) \<le> sync then Some (sync, om, ol) else find_sync om ol)))"

text \<open>Past the chunks that have been processed.\<close>

fun chunks_beyond :: "int \<Rightarrow> diff_lcs list \<Rightarrow> diff_lcs list option" where
  "chunks_beyond start [] = None"
| "chunks_beyond start (c # cs) =
    (if start \<ge> lcs_offset0 c + lcs_length c \<and> lcs_length c > 0 then chunks_beyond start cs else Some (c # cs))"

text \<open>The position of a ring that has an offset.\<close>

definition position_at :: "diff_ring \<Rightarrow> int \<Rightarrow> nat" where
  "position_at r off = nat (off - pos_offset (hd r))"

definition later_position :: "diff_ring \<Rightarrow> nat \<Rightarrow> diff_lcs \<Rightarrow> nat" where
  "later_position r pos c = (if pos_offset (r ! pos) < lcs_offset1 c then position_at r (lcs_offset1 c) else pos)"

text \<open>The hunk up to the sync point, if anything is modified.\<close>

definition changed_hunk :: "diff_ring \<Rightarrow> diff_ring \<Rightarrow> nat \<Rightarrow> diff_lcs \<Rightarrow> diff_lcs \<Rightarrow> int \<Rightarrow> int \<Rightarrow> int \<Rightarrow> int \<Rightarrow> nat \<Rightarrow> nat \<Rightarrow>
    (svn_diff list \<times> nat \<times> nat) option" where
  "changed_hunk r1 r2 num_tokens om ol sync ostart mstart lstart pos1 pos2 =
    (let modified_sync = lcs_offset1 om + (sync - lcs_offset0 om);
         latest_sync = lcs_offset1 ol + (sync - lcs_offset0 ol);
         is_modified = (lcs_offset0 om - ostart > 0 \<or> lcs_offset1 om - mstart > 0);
         is_latest = (lcs_offset0 ol - ostart > 0 \<or> lcs_offset1 ol - lstart > 0);
         hunk = (\<lambda>type. Svn_diff type (ostart - 1) (sync - ostart) (mstart - 1) (modified_sync - mstart) (lstart - 1) (latest_sync - lstart) [])
     in if is_modified \<and> is_latest then
          map_option (\<lambda>(h, pos1, pos2). ([h], pos1, pos2))
            (svn_diff_resolve_conflict (hunk Type_conflict) r1 r2 pos1 pos2 num_tokens)
        else if is_modified then Some ([hunk Type_diff_modified], pos1, pos2)
        else if is_latest then Some ([hunk Type_diff_latest], pos1, pos2)
        else Some ([], pos1, pos2))"

partial_function (option) diff3_loop :: "diff_ring \<Rightarrow> diff_ring \<Rightarrow> nat \<Rightarrow> diff_lcs list \<Rightarrow> diff_lcs list \<Rightarrow> int \<Rightarrow> int \<Rightarrow> int \<Rightarrow>
    nat \<Rightarrow> nat \<Rightarrow> svn_diff list option" where
  "diff3_loop r1 r2 num_tokens om ol ostart mstart lstart pos1 pos2 =
    Option.bind (find_sync om ol) (\<lambda>(sync, om, ol).
    Option.bind (changed_hunk r1 r2 num_tokens (hd om) (hd ol) sync ostart mstart lstart pos1 pos2) (\<lambda>(changed, pos1, pos2).
      if lcs_length (hd om) = 0 \<or> lcs_length (hd ol) = 0 then Some changed
      else
        (let modified_sync = lcs_offset1 (hd om) + (sync - lcs_offset0 (hd om));
             latest_sync = lcs_offset1 (hd ol) + (sync - lcs_offset0 (hd ol));
             common = min (lcs_length (hd om) - (sync - lcs_offset0 (hd om))) (lcs_length (hd ol) - (sync - lcs_offset0 (hd ol)))
         in Option.bind (chunks_beyond (sync + common) om) (\<lambda>om'.
            Option.bind (chunks_beyond (sync + common) ol) (\<lambda>ol'.
            Option.bind (diff3_loop r1 r2 num_tokens om' ol' (sync + common) (modified_sync + common) (latest_sync + common)
                (later_position r1 pos1 (hd om)) (later_position r2 pos2 (hd ol)))
              (\<lambda>rest. Some (changed @
                 Svn_diff Type_common (sync - 1) common (modified_sync - 1) common (latest_sync - 1) common [] # rest)))))))"

text \<open>The positions of a file with the sentinel after the last one; the index of its token is never used.\<close>

definition diff3_ring :: "diff_ring \<Rightarrow> int \<Rightarrow> diff_ring" where
  "diff3_ring ps prefix_lines =
    ps @ [\<lparr>token_index = - 1, pos_offset = (if ps \<noteq> [] then pos_offset (last ps) + 1 else prefix_lines + 1)\<rparr>]"

definition svn_diff_diff3_2 :: "('s, 'tok) diff_fns \<Rightarrow> 's \<Rightarrow> (svn_diff list \<times> 's) svn_result option" where
  "svn_diff_diff3_2 vtable s =
    (case datasources_open vtable s [Datasource_original, Datasource_modified, Datasource_latest] of
       Inl e \<Rightarrow> Some (Inl e)
     | Inr (prefix_lines, suffix_lines, s) \<Rightarrow>
    (case svn_diff_get_tokens vtable s svn_diff_tree_create Datasource_original prefix_lines of
       None \<Rightarrow> None
     | Some (Inl e) \<Rightarrow> Some (Inl e)
     | Some (Inr (ps0, tree, s)) \<Rightarrow>
    (case svn_diff_get_tokens vtable s tree Datasource_modified prefix_lines of
       None \<Rightarrow> None
     | Some (Inl e) \<Rightarrow> Some (Inl e)
     | Some (Inr (ps1, tree, s)) \<Rightarrow>
    (case svn_diff_get_tokens vtable s tree Datasource_latest prefix_lines of
       None \<Rightarrow> None
     | Some (Inl e) \<Rightarrow> Some (Inl e)
     | Some (Inr (ps2, tree, s)) \<Rightarrow>
        let num_tokens = svn_diff_get_node_count tree;
            s = (case token_discard_all vtable of None \<Rightarrow> s | Some discard_all \<Rightarrow> discard_all s);
            counts0 = svn_diff_get_token_counts ps0 num_tokens;
            counts1 = svn_diff_get_token_counts ps1 num_tokens;
            counts2 = svn_diff_get_token_counts ps2 num_tokens
        in Option.bind (svn_diff_lcs ps0 ps1 counts0 counts1 num_tokens prefix_lines suffix_lines) (\<lambda>om.
           Option.bind (svn_diff_lcs ps0 ps2 counts0 counts2 num_tokens prefix_lines suffix_lines) (\<lambda>ol.
             map_option (\<lambda>diff. Inr (diff, s))
               (diff3_loop (diff3_ring ps1 prefix_lines) (diff3_ring ps2 prefix_lines) num_tokens om ol 1 1 1 0 0)))))))"

section \<open>Rings of the merge\<close>

lemma ring_nth:
  assumes "positions_of (a @ [x]) base r"
  shows "length r = Suc (length a)" "i \<le> length a \<Longrightarrow> pos_offset (r ! i) = base + int i"
    "i < length a \<Longrightarrow> token_index (r ! i) = a ! i" "hd r = r ! 0"
  using assms by (auto simp: positions_of_def nth_append) (metis hd_conv_nth list.size(3) nat.distinct(1))

lemma ring_next: "positions_of (a @ [x]) base r \<Longrightarrow> i + k \<le> length a \<Longrightarrow> (next_position r ^^ k) i = i + k"
  by (induction k) (auto simp: next_position_def ring_nth(1))

lemma seek_position_result:
  assumes "positions_of (a @ [x]) base r"
  shows "i \<le> t \<Longrightarrow> t \<le> length a \<Longrightarrow> seek_position r (base + int t) i = Some t"
proof (induction "t - i" arbitrary: i)
  case 0
  then show ?case by (subst seek_position.simps) (simp add: ring_nth(2)[OF assms])
next
  case (Suc n)
  then have "i < t" "next_position r i = Suc i" by (auto simp: next_position_def ring_nth(1)[OF assms])
  with Suc show ?case by (subst seek_position.simps) (simp add: ring_nth(2)[OF assms])
qed

lemma match_start_result:
  assumes "positions_of (a @ [x]) base1 r1" "positions_of (b @ [y]) base2 r2"
  shows "i + n \<le> length a \<Longrightarrow> j + n \<le> length b \<Longrightarrow>
    \<exists>m \<le> n. match_start r1 r2 (int n) i j = (int (n - m), i + m, j + m) \<and> (\<forall>z < m. a ! (i + z) = b ! (j + z))"
proof (induction n arbitrary: i j)
  case 0
  then show ?case by (subst match_start.simps) simp
next
  case (Suc n)
  note tokens = ring_nth(3)[OF assms(1), of i] ring_nth(3)[OF assms(2), of j]
  have nx: "next_position r1 i = Suc i" "next_position r2 j = Suc j"
    using Suc.prems by (auto simp: next_position_def ring_nth(1)[OF assms(1)] ring_nth(1)[OF assms(2)])
  show ?case
  proof (cases "a ! i = b ! j")
    case True
    from Suc.IH[of "Suc i" "Suc j"] Suc.prems obtain m where m: "m \<le> n"
      "match_start r1 r2 (int n) (Suc i) (Suc j) = (int (n - m), Suc i + m, Suc j + m)" "\<forall>z < m. a ! (Suc i + z) = b ! (Suc j + z)" by auto
    have "\<forall>z < Suc m. a ! (i + z) = b ! (j + z)" using m(3) True by (auto simp: less_Suc_eq_0_disj)
    moreover have "match_start r1 r2 (int (Suc n)) i j = match_start r1 r2 (int n) (Suc i) (Suc j)"
      using True tokens Suc.prems nx by (subst match_start.simps) simp
    ultimately show ?thesis using m(1,2) by (intro exI[of _ "Suc m"]) auto
  next
    case False
    with tokens Suc.prems show ?thesis by (intro exI[of _ 0]) (subst match_start.simps, auto)
  qed
qed

lemma ring_part_result:
  assumes "positions_of (a @ [x]) base r" "i + n \<le> length a"
  shows "\<exists>ps. ring_part r i (int n) = (ps, i + n) \<and> positions_of (take n (drop i a)) (base + int i) ps"
proof (cases "n = 0")
  case False
  have "positions_of (take n (drop i a)) (base + int i) (map (\<lambda>k. r ! (next_position r ^^ k) i) [0..<n])"
    using assms(2) ring_nth(2,3)[OF assms(1)] ring_next[OF assms(1)] by (auto simp: positions_of_def)
  with False ring_next[OF assms] show ?thesis by (auto simp: ring_part_def)
qed (auto simp: ring_part_def positions_of_def)

lemma lcs_chain_parts:
  "chain_ok a b (int u + 1, int v + 1) i j cs \<Longrightarrow> i \<le> length a \<Longrightarrow> j \<le> length b \<Longrightarrow>
    \<forall>z < length a. F ! (u + z) = a ! z \<Longrightarrow> \<forall>z < length b. G ! (v + z) = b ! z \<Longrightarrow>
    u + length a \<le> length F \<Longrightarrow> v + length b \<le> length G \<Longrightarrow>
    lcs_chain F G (u + i) (v + j) rest \<Longrightarrow> lcs_chain F G u v (rev cs @ rest)"
proof (induction cs arbitrary: i j rest)
  case Nil
  then show ?case by (auto elim: lcs_chain_mono)
next
  case (Cons c cs)
  then obtain s t n where c: "0 < n" "s + n \<le> i" "t + n \<le> j"
    "c = \<lparr>lcs_offset0 = int u + 1 + int s, lcs_offset1 = int v + 1 + int t, lcs_length = int n\<rparr>"
    "\<forall>m < n. a ! (s + m) = b ! (t + m)" "chain_ok a b (int u + 1, int v + 1) s t cs" by auto
  have "F ! (u + s + m) = G ! (v + t + m)" if "m < n" for m
    using that c(2,3,5) Cons.prems(2-5) by (simp add: add.assoc)
  moreover have "lcs_chain F G (u + s + n) (v + t + n) rest"
    using Cons.prems(8) c(2,3) by (auto elim: lcs_chain_mono)
  ultimately have "lcs_chain F G (u + s) (v + t) (c # rest)"
    unfolding c(4) using c(1-3) Cons.prems(2,3,6,7)
    by (intro lcs_chain_ConsI[where i = "u + s" and j = "v + t" and n = n]) auto
  with Cons.IH[OF c(6) _ _ Cons.prems(4-7), of "c # rest"] c(2,3) Cons.prems(2,3) show ?case by simp
qed

section \<open>Resolved conflicts\<close>

text \<open>The hunks of a resolved conflict between two parts of the files: they follow each other, and a common hunk stands
  for equal lines.\<close>

fun resolved_ok :: "'a list \<Rightarrow> 'a list \<Rightarrow> nat \<Rightarrow> nat \<Rightarrow> svn_diff list \<Rightarrow> bool" where
  "resolved_ok F G j k [] \<longleftrightarrow> j = length F \<and> k = length G"
| "resolved_ok F G j k (h # hs) \<longleftrightarrow> (\<exists>n p. modified_start h = int j \<and> modified_length h = int n \<and>
    latest_start h = int k \<and> latest_length h = int p \<and> 0 < n + p \<and> j + n \<le> length F \<and> k + p \<le> length G \<and>
    (diff_type h = Type_diff_common \<and> take n (drop j F) = take p (drop k G) \<or> diff_type h = Type_conflict) \<and>
    resolved_ok F G (j + n) (k + p) hs)"

lemma resolved_ok_ConsI:
  assumes "resolved_ok F G (j + n) (k + p) hs" "modified_start h = int j" "modified_length h = int n"
    "latest_start h = int k" "latest_length h = int p" "0 < n + p" "j + n \<le> length F" "k + p \<le> length G"
    "diff_type h = Type_diff_common \<and> take n (drop j F) = take p (drop k G) \<or> diff_type h = Type_conflict"
  shows "resolved_ok F G j k (h # hs)"
  unfolding resolved_ok.simps by (rule exI[of _ n], rule exI[of _ p]) (use assms in auto)

lemma resolve_hunks_ok:
  "lcs_chain F G j k cs \<Longrightarrow> \<exists>hs. resolve_hunks hunk cs (int j + 1) (int k + 1) = Some hs \<and> resolved_ok F G j k hs"
proof (induction cs arbitrary: j k)
  case (Cons c cs)
  then obtain u v n where c: "j \<le> u" "k \<le> v" "u + n \<le> length F" "v + n \<le> length G"
    "c = \<lparr>lcs_offset0 = 1 + int u, lcs_offset1 = 1 + int v, lcs_length = int n\<rparr>" "\<forall>m < n. F ! (u + m) = G ! (v + m)"
    "if n = 0 then u = length F \<and> v = length G \<and> cs = [] else lcs_chain F G (u + n) (v + n) cs" by auto
  let ?gap = "if j < u \<or> k < v then [Svn_diff Type_conflict (original_start hunk) (original_length hunk) (int j) (int u - int j)
    (int k) (int v - int k) []] else []"
  have gap: "resolved_ok F G j k (?gap @ hs)" if "resolved_ok F G u v hs" for hs
  proof (cases "j < u \<or> k < v")
    case True
    with that c(1-4) show ?thesis
      by (auto simp: of_nat_diff simp del: resolved_ok.simps intro!: resolved_ok_ConsI[where n = "u - j" and p = "v - k"])
  qed (use that c(1,2) in auto)
  show ?case
  proof (cases "n = 0")
    case True
    with c gap[of "[]"] show ?thesis by auto
  next
    case False
    with c(7) Cons.IH[of "u + n" "v + n"] obtain hs where
      hs: "resolve_hunks hunk cs (int (u + n) + 1) (int (v + n) + 1) = Some hs" "resolved_ok F G (u + n) (v + n) hs" by auto
    let ?h = "Svn_diff Type_diff_common (original_start hunk) (original_length hunk) (int u) (int n) (int v) (int n) []"
    have "take n (drop u F) = take n (drop v G)" using c(3,4,6) by (auto intro!: nth_equalityI)
    with hs(2) c(3,4) False have "resolved_ok F G u v (?h # hs)" by (intro resolved_ok_ConsI[where n = n and p = n]) auto
    with gap have "resolved_ok F G j k (?gap @ ?h # hs)" by blast
    with hs(1) c(5) False show ?thesis by (auto simp: algebra_simps)
  qed
qed simp

lemma fix_eof_later: "chain_ok a b (base1, base2) i j cs \<Longrightarrow> 1 < base1 \<Longrightarrow> 1 < base2 \<Longrightarrow> cs \<noteq> [] \<Longrightarrow>
    fix_eof o1 o2 (rev cs @ rest) = rev cs @ rest"
proof -
  assume chain: "chain_ok a b (base1, base2) i j cs" and base: "1 < base1" "1 < base2" and "cs \<noteq> []"
  have "\<forall>c \<in> set cs. lcs_offset0 c \<noteq> 1 \<and> lcs_offset1 c \<noteq> 1"
    using chain by (induction cs arbitrary: i j) (use base in force)+
  moreover from \<open>cs \<noteq> []\<close> obtain c ds where "rev cs = c # ds" "c \<in> set cs" by (metis list.exhaust list.set_intros(1) rev_is_Nil_conv set_rev)
  ultimately show ?thesis by (simp add: fix_eof_def)
qed

lemma resolve_chain:
  assumes "chain_ok f1 f2 (int u + 1, int v + 1) (length f1) (length f2) cs" "0 < u" "0 < v"
    and F: "length F = u + length f1" "\<forall>z < length f1. F ! (u + z) = f1 ! z"
    and G: "length G = v + length f2" "\<forall>z < length f2. G ! (v + z) = f2 ! z"
  shows "lcs_chain F G u v (fix_eof (int (length F) + 1) (int (length G) + 1)
    (rev cs @ [\<lparr>lcs_offset0 = (if f1 = [] then 1 else int u + 1 + int (length f1)),
                lcs_offset1 = (if f2 = [] then 1 else int v + 1 + int (length f2)), lcs_length = 0\<rparr>]))"
proof (cases "cs = []")
  case True
  with assms show ?thesis by (auto simp: fix_eof_def intro!: lcs_chain_eofI)
next
  case False
  with assms(1) have "f1 \<noteq> []" "f2 \<noteq> []" by (cases cs; force)+
  moreover have "lcs_chain F G (u + length f1) (v + length f2) [\<lparr>lcs_offset0 = int u + 1 + int (length f1), lcs_offset1 = int v + 1 + int (length f2), lcs_length = 0\<rparr>]"
    using F(1) G(1) by (intro lcs_chain_eofI) auto
  ultimately show ?thesis
    using False assms fix_eof_later[OF assms(1)] by (auto intro!: lcs_chain_parts[OF assms(1)])
qed

text \<open>A conflict: both sides have the same lines, or the resolved diff describes them, unless a side begins the file.\<close>

definition conflict_ok :: "'a list \<Rightarrow> 'a list \<Rightarrow> nat \<Rightarrow> nat \<Rightarrow> nat \<Rightarrow> nat \<Rightarrow> svn_diff \<Rightarrow> bool" where
  "conflict_ok f1 f2 j n k p h \<longleftrightarrow>
    diff_type h = Type_diff_common \<and> take n (drop j f1) = take p (drop k f2) \<or>
    diff_type h = Type_conflict \<and> (0 < j \<longrightarrow> 0 < k \<longrightarrow> resolved_ok (take (j + n) f1) (take (k + p) f2) j k (resolved_diff h))"

lemma resolve_hunks_total: "\<exists>c \<in> set cs. lcs_length c = 0 \<Longrightarrow> \<exists>hs. resolve_hunks hunk cs mstart lstart = Some hs"
  by (induction cs arbitrary: mstart lstart) (auto simp: Let_def)

lemma fix_eof_length: "map lcs_length (fix_eof o1 o2 cs) = map lcs_length cs"
  by (cases cs) (auto simp: fix_eof_def Let_def)

lemma resolve_conflict_result:
  assumes r1: "positions_of (map h f1 @ [x]) 1 r1" and r2: "positions_of (map h f2 @ [y]) 1 r2"
    and h: "\<forall>z \<in> set f1 \<union> set f2. 0 \<le> h z \<and> h z < int num_tokens" "inj_on h (set f1 \<union> set f2)"
    and pos: "pos1 \<le> j" "j + n \<le> length f1" "pos2 \<le> k" "k + p \<le> length f2"
    and hunk: "modified_start hunk = int j" "modified_length hunk = int n" "latest_start hunk = int k" "latest_length hunk = int p"
  shows "\<exists>hunk'. svn_diff_resolve_conflict hunk r1 r2 pos1 pos2 num_tokens = Some (hunk', j + n, k + p) \<and>
    original_start hunk' = original_start hunk \<and> original_length hunk' = original_length hunk \<and>
    modified_start hunk' = int j \<and> modified_length hunk' = int n \<and> latest_start hunk' = int k \<and> latest_length hunk' = int p \<and>
    conflict_ok f1 f2 j n k p hunk'"
proof -
  have inj: "f1 ! s = f2 ! t" if "map h f1 ! s = map h f2 ! t" "s < length f1" "t < length f2" for s t
    using that inj_onD[OF h(2), of "f1 ! s" "f2 ! t"] by simp
  have seek: "seek_position r1 (modified_start hunk + 1) pos1 = Some j" "seek_position r2 (latest_start hunk + 1) pos2 = Some k"
    using seek_position_result[OF r1, of pos1 j] seek_position_result[OF r2, of pos2 k] pos hunk by (simp_all add: add.commute)
  have "j + min n p \<le> length (map h f1)" "k + min n p \<le> length (map h f2)" using pos by auto
  from match_start_result[OF r1 r2 this] obtain m where m: "m \<le> min n p"
    "match_start r1 r2 (int (min n p)) j k = (int (min n p - m), j + m, k + m)" "\<forall>z < m. map h f1 ! (j + z) = map h f2 ! (k + z)" by blast
  have same: "f1 ! (j + z) = f2 ! (k + z)" if "z < m" for z
    using m(1,3) that pos by (intro inj) auto
  have shorter: "min (modified_length hunk) (latest_length hunk) = int (min n p)" using hunk by simp
  show ?thesis
  proof (cases "m = min n p \<and> n = p")
    case True
    then have "take n (drop j f1) = take p (drop k f2)" using same pos by (auto intro!: nth_equalityI)
    with True m seek hunk shorter show ?thesis
      by (auto simp: svn_diff_resolve_conflict_def conflict_ok_def Let_def)
  next
    case False
    define a b where "a = take (n - m) (drop (j + m) f1)" and "b = take (p - m) (drop (k + m) f2)"
    have lens: "length a = n - m" "length b = p - m" using pos m(1) by (auto simp: a_def b_def)
    have part: "j + m + (n - m) \<le> length (map h f1)" "k + m + (p - m) \<le> length (map h f2)" using pos m(1) by auto
    from ring_part_result[OF r1 part(1)] obtain ps1 where ps1: "ring_part r1 (j + m) (int (n - m)) = (ps1, j + n)"
      "positions_of (map h a) (int (j + m) + 1) ps1" using m(1) by (auto simp: a_def take_map drop_map add.commute)
    from ring_part_result[OF r2 part(2)] obtain ps2 where ps2: "ring_part r2 (k + m) (int (p - m)) = (ps2, k + p)"
      "positions_of (map h b) (int (k + m) + 1) ps2" using m(1) by (auto simp: b_def take_map drop_map add.commute)
    have sub: "set a \<union> set b \<subseteq> set f1 \<union> set f2" by (auto simp: a_def b_def dest: in_set_takeD in_set_dropD)
    have hab: "\<forall>z \<in> set a \<union> set b. 0 \<le> h z \<and> h z < int num_tokens" using h(1) sub by blast
    let ?eof = "\<lparr>lcs_offset0 = (if a = [] then 1 else int (j + m) + 1 + int (length a)),
                 lcs_offset1 = (if b = [] then 1 else int (k + m) + 1 + int (length b)), lcs_length = 0\<rparr>"
    from svn_diff_lcs_parts[OF ps1(2) ps2(2) _ hab inj_on_subset[OF h(2) sub]] obtain cs where
      cs: "svn_diff_lcs ps1 ps2 (svn_diff_get_token_counts ps1 num_tokens) (svn_diff_get_token_counts ps2 num_tokens) num_tokens 0 0 =
        Some (rev cs @ [?eof])" "chain_ok a b (int (j + m) + 1, int (k + m) + 1) (length a) (length b) cs" by auto
    define leading where "leading = (if 0 < m then [\<lparr>lcs_offset0 = pos_offset (r1 ! j), lcs_offset1 = pos_offset (r2 ! k), lcs_length = int m\<rparr>] else [])"
    define fixed where "fixed = fix_eof (pos_offset (r1 ! (j + n))) (pos_offset (r2 ! (k + p))) (rev cs @ [?eof])"
    have offsets: "pos_offset (r1 ! j) = int j + 1" "pos_offset (r2 ! k) = int k + 1"
      "pos_offset (r1 ! (j + n)) = int (j + n) + 1" "pos_offset (r2 ! (k + p)) = int (k + p) + 1"
      using pos ring_nth(2)[OF r1] ring_nth(2)[OF r2] by auto
    have "\<exists>c \<in> set (leading @ fixed). lcs_length c = 0"
    proof -
      have "0 \<in> set (map lcs_length fixed)" unfolding fixed_def fix_eof_length by simp
      then show ?thesis by auto
    qed
    then obtain rs where rs: "resolve_hunks hunk (leading @ fixed) (int j + 1) (int k + 1) = Some rs"
      using resolve_hunks_total by blast
    let ?hunk = "Svn_diff Type_conflict (original_start hunk) (original_length hunk) (int j) (int n) (int k) (int p) rs"
    have left: "\<not> (int (min n p - m) = 0 \<and> modified_length hunk = latest_length hunk)" using False m(1) hunk by auto
    have common: "int (min n p) - int (min n p - m) = int m" "modified_length hunk - int m = int (n - m)" "latest_length hunk - int m = int (p - m)"
      using m(1) hunk by auto
    have "svn_diff_resolve_conflict hunk r1 r2 pos1 pos2 num_tokens = Some (?hunk, j + n, k + p)"
      unfolding svn_diff_resolve_conflict_def seek bind.bind_lunit shorter m(2) Let_def split_conv if_not_P[OF left] common ps1(1) ps2(1) cs(1)
      using rs offsets hunk by (simp add: leading_def fixed_def)
    moreover have "resolved_ok (take (j + n) f1) (take (k + p) f2) j k rs" if "0 < j" "0 < k"
    proof -
      let ?F = "take (j + n) f1" and ?G = "take (k + p) f2"
      have F: "length ?F = j + m + length a" "\<forall>z < length a. ?F ! (j + m + z) = a ! z"
        and G: "length ?G = k + m + length b" "\<forall>z < length b. ?G ! (k + m + z) = b ! z"
        using pos m(1) lens by (auto simp: a_def b_def)
      have "lcs_chain ?F ?G (j + m) (k + m) fixed"
        using resolve_chain[OF cs(2) _ _ F G] that pos unfolding fixed_def offsets by simp
      then have "lcs_chain ?F ?G j k (leading @ fixed)"
        using same offsets pos m(1) by (auto simp: leading_def intro!: lcs_chain_ConsI[where i = j and j = k and n = m])
      from resolve_hunks_ok[OF this, of hunk] rs show ?thesis by auto
    qed
    ultimately show ?thesis by (auto simp: conflict_ok_def)
  qed
qed

section \<open>Positions in a chain\<close>

text \<open>A chain of chunks for two files at the positions \<open>i\<close> and \<open>j\<close>: the first chunk is still ahead, or the positions are
  inside it, at the same distance from its begin.\<close>

definition inside_chunk :: "'a list \<Rightarrow> 'a list \<Rightarrow> nat \<Rightarrow> nat \<Rightarrow> diff_lcs list \<Rightarrow> bool" where
  "inside_chunk F G i j cs \<longleftrightarrow> (\<exists>u v n ds. cs = \<lparr>lcs_offset0 = 1 + int u, lcs_offset1 = 1 + int v, lcs_length = int n\<rparr> # ds \<and>
    u \<le> i \<and> i < u + n \<and> j + u = v + i \<and> lcs_chain F G u v cs)"

definition aligned :: "'a list \<Rightarrow> 'a list \<Rightarrow> nat \<Rightarrow> nat \<Rightarrow> diff_lcs list \<Rightarrow> bool" where
  "aligned F G i j cs \<longleftrightarrow> lcs_chain F G i j cs \<or> inside_chunk F G i j cs"

text \<open>The first chunk and what is known of it.\<close>

definition chunk_ok :: "'a list \<Rightarrow> 'a list \<Rightarrow> nat \<Rightarrow> nat \<Rightarrow> nat \<Rightarrow> diff_lcs list \<Rightarrow> bool" where
  "chunk_ok F G u v n ds \<longleftrightarrow> u + n \<le> length F \<and> v + n \<le> length G \<and> (\<forall>m < n. F ! (u + m) = G ! (v + m)) \<and>
    (if n = 0 then u = length F \<and> v = length G \<and> ds = [] else lcs_chain F G (u + n) (v + n) ds)"

lemma lcs_chain_cases:
  assumes "lcs_chain F G i j cs"
  obtains u v n ds where "cs = \<lparr>lcs_offset0 = 1 + int u, lcs_offset1 = 1 + int v, lcs_length = int n\<rparr> # ds" "i \<le> u" "j \<le> v" "chunk_ok F G u v n ds"
proof (cases cs)
  case (Cons c ds)
  from assms[unfolded Cons lcs_chain.simps] show thesis
  proof (elim exE conjE, goal_cases)
    case (1 u v n)
    then show thesis by (intro that[of u v n ds]) (simp_all add: Cons chunk_ok_def)
  qed
qed (use assms in simp)

lemma chunk_chain: "chunk_ok F G u v n ds \<Longrightarrow> i \<le> u \<Longrightarrow> j \<le> v \<Longrightarrow>
    lcs_chain F G i j (\<lparr>lcs_offset0 = 1 + int u, lcs_offset1 = 1 + int v, lcs_length = int n\<rparr> # ds)"
  unfolding lcs_chain.simps chunk_ok_def by (rule exI[of _ u], rule exI[of _ v], rule exI[of _ n]) auto

lemma aligned_cases:
  assumes "aligned F G i j cs"
  obtains u v n ds where "cs = \<lparr>lcs_offset0 = 1 + int u, lcs_offset1 = 1 + int v, lcs_length = int n\<rparr> # ds" "chunk_ok F G u v n ds"
    "i \<le> u \<and> j \<le> v \<or> u \<le> i \<and> i < u + n \<and> j + u = v + i"
  using assms unfolding aligned_def
proof
  assume "lcs_chain F G i j cs"
  then obtain u v n ds where "cs = \<lparr>lcs_offset0 = 1 + int u, lcs_offset1 = 1 + int v, lcs_length = int n\<rparr> # ds" "i \<le> u" "j \<le> v" "chunk_ok F G u v n ds"
    by (rule lcs_chain_cases)
  then show thesis by (intro that[of u v n ds]) simp_all
next
  assume "inside_chunk F G i j cs"
  then obtain u v n ds where c: "cs = \<lparr>lcs_offset0 = 1 + int u, lcs_offset1 = 1 + int v, lcs_length = int n\<rparr> # ds"
    "u \<le> i" "i < u + n" "j + u = v + i" "lcs_chain F G u v cs" unfolding inside_chunk_def by blast
  from c(5,1) obtain u' v' n' where "chunk_ok F G u' v' n' ds" "u = u'" "v = v'" "n = n'" by (elim lcs_chain_cases) auto
  with c that show thesis by blast
qed

lemma aligned_I:
  assumes "chunk_ok F G u v n ds" "i \<le> u \<and> j \<le> v \<or> u \<le> i \<and> i < u + n \<and> j + u = v + i"
  shows "aligned F G i j (\<lparr>lcs_offset0 = 1 + int u, lcs_offset1 = 1 + int v, lcs_length = int n\<rparr> # ds)"
  using assms(2)
proof
  assume "i \<le> u \<and> j \<le> v"
  then show ?thesis unfolding aligned_def by (intro disjI1 chunk_chain[OF assms(1)]) auto
next
  assume "u \<le> i \<and> i < u + n \<and> j + u = v + i"
  with chunk_chain[OF assms(1) order_refl order_refl] show ?thesis unfolding aligned_def inside_chunk_def by auto
qed

lemma chunk_rest:
  assumes "chunk_ok F G u v n ds" "0 < n" "i \<le> u + n" "j \<le> v + n"
  shows "lcs_chain F G i j ds"
  using assms by (auto simp: chunk_ok_def elim: lcs_chain_mono)

section \<open>Sync points\<close>

lemma chunks_until_chain:
  "lcs_chain F G i j cs \<Longrightarrow> s \<le> length F \<Longrightarrow> \<exists>cs'. chunks_until (1 + int s) cs = Some cs' \<and> lcs_chain F G i j cs' \<and>
    length cs' \<le> length cs \<and> (cs' = cs \<or> length cs' < length cs) \<and> 1 + int s \<le> lcs_offset0 (hd cs') + lcs_length (hd cs')"
proof (induction cs)
  case (Cons c cs)
  from Cons.prems(1) obtain u v n where c: "c = \<lparr>lcs_offset0 = 1 + int u, lcs_offset1 = 1 + int v, lcs_length = int n\<rparr>" "i \<le> u" "j \<le> v"
    "chunk_ok F G u v n cs" by (elim lcs_chain_cases) auto
  show ?case
  proof (cases "u + n < s")
    case True
    then have "0 < n" using c(4) Cons.prems(2) by (auto simp: chunk_ok_def split: if_splits)
    with c have "lcs_chain F G i j cs" by (intro chunk_rest[OF c(4)]) auto
    from Cons.IH[OF this Cons.prems(2)] True c(1) show ?thesis by auto
  next
    case False
    with Cons.prems(1) c(1) show ?thesis by auto
  qed
qed simp

lemma chunks_until_aligned:
  assumes "aligned F G i j cs" "s \<le> length F"
  shows "\<exists>cs'. chunks_until (1 + int s) cs = Some cs' \<and> aligned F G i j cs' \<and>
    (cs' = cs \<or> length cs' < length cs \<and> lcs_chain F G i j cs') \<and> 1 + int s \<le> lcs_offset0 (hd cs') + lcs_length (hd cs')"
  using assms(1)
proof (cases rule: aligned_cases)
  case (1 u v n ds)
  show ?thesis
  proof (cases "u + n < s")
    case True
    then have "0 < n" using 1(2) assms(2) by (auto simp: chunk_ok_def split: if_splits)
    with 1 have "lcs_chain F G i j ds \<or> (i \<le> u \<and> j \<le> v)" by (auto intro!: chunk_rest[OF 1(2)])
    then have "lcs_chain F G i j ds" using \<open>0 < n\<close> by (auto intro!: chunk_rest[OF 1(2)])
    from chunks_until_chain[OF this assms(2)] True 1(1) show ?thesis by (auto simp: aligned_def)
  next
    case False
    with assms(1) 1(1) show ?thesis by auto
  qed
qed

text \<open>One side of the search: to the chunk at the sync point.\<close>

lemma sync_chain:
  assumes "aligned F G i j cs" "s \<le> length F" "lcs_length other = 0 \<longrightarrow> s = length F"
  shows "\<exists>cs'. Option.bind (chunks_until (1 + int s) cs) (skip_at_eof other (1 + int s)) = Some cs' \<and> aligned F G i j cs' \<and>
    (cs' = cs \<or> length cs' < length cs \<and> lcs_chain F G i j cs') \<and> 1 + int s \<le> lcs_offset0 (hd cs') + lcs_length (hd cs') \<and>
    (lcs_length other = 0 \<longrightarrow> lcs_offset1 (hd cs') + (1 + int s - lcs_offset0 (hd cs')) = 1 + int (length G))"
proof -
  from chunks_until_aligned[OF assms(1,2)] obtain cs1 where
    cs1: "chunks_until (1 + int s) cs = Some cs1" "aligned F G i j cs1" "cs1 = cs \<or> length cs1 < length cs \<and> lcs_chain F G i j cs1"
      "1 + int s \<le> lcs_offset0 (hd cs1) + lcs_length (hd cs1)" by blast
  from cs1(2) show ?thesis
  proof (cases rule: aligned_cases)
    case (1 u v n ds)
    show ?thesis
    proof (cases "lcs_length other = 0 \<and> 0 < n \<and> u + n = s")
      case False
      have "lcs_length other = 0 \<Longrightarrow> n = 0 \<and> u = length F \<and> v = length G"
        using False 1(1,2) cs1(4) assms(2,3) by (auto simp: chunk_ok_def split: if_splits)
      with False 1(1) cs1 assms(3) show ?thesis by (auto simp: skip_at_eof_def)
    next
      case True
      then have s: "s = length F" using assms(3) by simp
      have "lcs_chain F G (u + n) (v + n) ds" using True 1(2) by (auto simp: chunk_ok_def)
      then obtain u2 v2 n2 ds2 where ds: "ds = \<lparr>lcs_offset0 = 1 + int u2, lcs_offset1 = 1 + int v2, lcs_length = int n2\<rparr> # ds2"
        "u + n \<le> u2" "v + n \<le> v2" "chunk_ok F G u2 v2 n2 ds2" by (elim lcs_chain_cases)
      then have eof: "u2 = length F" "n2 = 0" "v2 = length G" using True s by (auto simp: chunk_ok_def split: if_splits)
      show ?thesis
      proof (cases "v + n = v2")
        case same: True
        with True 1(1) ds(1) eof cs1 show ?thesis by (auto simp: skip_at_eof_def)
      next
        case skip: False
        have chain: "lcs_chain F G i j ds" using 1(3) True by (auto intro!: chunk_rest[OF 1(2)])
        have "skip_at_eof other (1 + int s) cs1 = Some ds" using True skip 1(1) ds(1) by (simp add: skip_at_eof_def)
        with cs1(1,3) chain ds(1) eof s 1(1) show ?thesis by (auto simp: aligned_def)
      qed
    qed
  qed
qed

text \<open>What \<open>find_sync\<close> returns: a sync point that both first chunks touch and one begins with. If a chain is at its
  end there, the sync point is the end of all files.\<close>

definition synced :: "'a list \<Rightarrow> 'a list \<Rightarrow> 'a list \<Rightarrow> nat \<Rightarrow> diff_lcs \<Rightarrow> diff_lcs \<Rightarrow> bool" where
  "synced f0 f1 f2 s om ol \<longleftrightarrow>
    lcs_offset0 om \<le> 1 + int s \<and> lcs_offset0 ol \<le> 1 + int s \<and>
    1 + int s \<le> lcs_offset0 om + lcs_length om \<and> 1 + int s \<le> lcs_offset0 ol + lcs_length ol \<and>
    (1 + int s = lcs_offset0 om \<or> 1 + int s = lcs_offset0 ol) \<and>
    (lcs_length om = 0 \<or> lcs_length ol = 0 \<longrightarrow> s = length f0 \<and>
      lcs_offset1 om + (1 + int s - lcs_offset0 om) = 1 + int (length f1) \<and>
      lcs_offset1 ol + (1 + int s - lcs_offset0 ol) = 1 + int (length f2))"

lemma aligned_head:
  assumes "aligned F G i j cs"
  shows "cs \<noteq> [] \<and> (\<exists>u \<le> length F. lcs_offset0 (hd cs) = 1 + int u) \<and>
    (lcs_length (hd cs) = 0 \<longleftrightarrow> lcs_offset0 (hd cs) = 1 + int (length F) ) \<and> lcs_offset0 (hd cs) + lcs_length (hd cs) \<le> 1 + int (length F) \<and>
    lcs_length (hd cs) \<ge> 0 \<and> (lcs_length (hd cs) = 0 \<longrightarrow> lcs_offset1 (hd cs) = 1 + int (length G))"
  using assms by (cases rule: aligned_cases) (auto simp: chunk_ok_def split: if_splits)

lemma find_sync_result:
  "aligned f0 f1 i j om \<Longrightarrow> aligned f0 f2 i k ol \<Longrightarrow>
    \<exists>s om' ol'. find_sync om ol = Some (1 + int s, om', ol') \<and> s \<le> length f0 \<and> aligned f0 f1 i j om' \<and> aligned f0 f2 i k ol' \<and>
      (om' = om \<or> lcs_chain f0 f1 i j om') \<and> (ol' = ol \<or> lcs_chain f0 f2 i k ol') \<and>
      length om' \<le> length om \<and> length ol' \<le> length ol \<and> synced f0 f1 f2 s (hd om') (hd ol')"
proof (induction "length om + length ol" arbitrary: om ol rule: less_induct)
  case less
  note om = aligned_head[OF less.prems(1)] and ol = aligned_head[OF less.prems(2)]
  show ?case
  proof (cases "lcs_offset0 (hd om) > lcs_offset0 (hd ol)")
    case True
    from om obtain s where s: "s \<le> length f0" "lcs_offset0 (hd om) = 1 + int s" by blast
    from sync_chain[OF less.prems(2) s(1), of "hd om"] om s obtain ol1 where
      ol1: "Option.bind (chunks_until (1 + int s) ol) (skip_at_eof (hd om) (1 + int s)) = Some ol1" "aligned f0 f2 i k ol1"
        "ol1 = ol \<or> length ol1 < length ol \<and> lcs_chain f0 f2 i k ol1" "1 + int s \<le> lcs_offset0 (hd ol1) + lcs_length (hd ol1)"
        "lcs_length (hd om) = 0 \<longrightarrow> lcs_offset1 (hd ol1) + (1 + int s - lcs_offset0 (hd ol1)) = 1 + int (length f2)" by auto
    have "(om = [] \<or> ol = []) = False" using om ol by simp
    then have step: "find_sync om ol = (if lcs_offset0 (hd ol1) \<le> 1 + int s then Some (1 + int s, om, ol1) else find_sync om ol1)"
      using True[unfolded s(2)] by (simp only: find_sync.simps[of om ol] if_True if_False s(2) Let_def ol1(1) bind.bind_lunit)
    show ?thesis
    proof (cases "lcs_offset0 (hd ol1) \<le> 1 + int s")
      case stop: True
      have "synced f0 f1 f2 s (hd om) (hd ol1)"
        using stop ol1(4,5) s om aligned_head[OF ol1(2)] by (auto simp: synced_def)
      with step s(1) stop ol1(2,3) less.prems show ?thesis by auto
    next
      case False
      with True s ol1(3) have shorter: "length ol1 < length ol" "lcs_chain f0 f2 i k ol1" by auto
      with less(1)[of om ol1] less.prems(1) ol1(2) obtain s' om' ol' where
        "find_sync om ol1 = Some (1 + int s', om', ol')" "s' \<le> length f0" "aligned f0 f1 i j om'" "aligned f0 f2 i k ol'"
        "om' = om \<or> lcs_chain f0 f1 i j om'" "ol' = ol1 \<or> lcs_chain f0 f2 i k ol'" "length om' \<le> length om" "length ol' \<le> length ol1"
        "synced f0 f1 f2 s' (hd om') (hd ol')" by auto
      with step False shorter show ?thesis by auto
    qed
  next
    case F: False
    from ol obtain s where s: "s \<le> length f0" "lcs_offset0 (hd ol) = 1 + int s" by blast
    from sync_chain[OF less.prems(1) s(1), of "hd ol"] ol s obtain om1 where
      om1: "Option.bind (chunks_until (1 + int s) om) (skip_at_eof (hd ol) (1 + int s)) = Some om1" "aligned f0 f1 i j om1"
        "om1 = om \<or> length om1 < length om \<and> lcs_chain f0 f1 i j om1" "1 + int s \<le> lcs_offset0 (hd om1) + lcs_length (hd om1)"
        "lcs_length (hd ol) = 0 \<longrightarrow> lcs_offset1 (hd om1) + (1 + int s - lcs_offset0 (hd om1)) = 1 + int (length f1)" by auto
    have "(om = [] \<or> ol = []) = False" using om ol by simp
    then have step: "find_sync om ol = (if lcs_offset0 (hd om1) \<le> 1 + int s then Some (1 + int s, om1, ol) else find_sync om1 ol)"
      using F[unfolded s(2)] by (simp only: find_sync.simps[of om ol] if_True if_False s(2) Let_def om1(1) bind.bind_lunit)
    show ?thesis
    proof (cases "lcs_offset0 (hd om1) \<le> 1 + int s")
      case stop: True
      have "synced f0 f1 f2 s (hd om1) (hd ol)"
        using stop om1(4,5) s ol aligned_head[OF om1(2)] by (auto simp: synced_def)
      with step s(1) stop om1(2,3) less.prems show ?thesis by auto
    next
      case False
      with F s om1(3) have shorter: "length om1 < length om" "lcs_chain f0 f1 i j om1" by auto
      with less(1)[of om1 ol] less.prems(2) om1(2) obtain s' om' ol' where
        "find_sync om1 ol = Some (1 + int s', om', ol')" "s' \<le> length f0" "aligned f0 f1 i j om'" "aligned f0 f2 i k ol'"
        "om' = om1 \<or> lcs_chain f0 f1 i j om'" "ol' = ol \<or> lcs_chain f0 f2 i k ol'" "length om' \<le> length om1" "length ol' \<le> length ol"
        "synced f0 f1 f2 s' (hd om') (hd ol')" by auto
      with step False shorter show ?thesis by auto
    qed
  qed
qed

section \<open>From one sync point to the next\<close>

text \<open>At a sync point \<open>s\<close> in its first chunk a chain is at \<open>v + (s - u)\<close> in the other file.\<close>

lemma sync_bounds:
  assumes "chunk_ok F G u v n ds" "u \<le> s" "s \<le> u + n" "i \<le> s" "i \<le> u \<and> j \<le> v \<or> u \<le> i \<and> i < u + n \<and> j + u = v + i"
  shows "j \<le> v + (s - u)" "v + (s - u) \<le> length G"
  using assms by (auto simp: chunk_ok_def)

lemma sync_unchanged:
  assumes "chunk_ok F G u v n ds" "u \<le> s" "s \<le> u + n" "i \<le> s" "i \<le> u \<and> j \<le> v \<or> u \<le> i \<and> i < u + n \<and> j + u = v + i"
    and "u \<le> i" "v \<le> j"
  shows "v + (s - u) - j = s - i" "take (s - i) (drop i F) = take (s - i) (drop j G)"
proof -
  from assms have j: "j = v + (i - u)" by auto
  with assms show "v + (s - u) - j = s - i" by auto
  have "F ! (i + m) = G ! (j + m)" if "m < s - i" for m
  proof -
    have "i - u + m < n" "i + m = u + (i - u + m)" "j + m = v + (i - u + m)" using that assms(2,3,6) j by auto
    with assms(1) show ?thesis unfolding chunk_ok_def by metis
  qed
  moreover have "s \<le> length F" "j + (s - i) \<le> length G" using assms j by (auto simp: chunk_ok_def)
  ultimately show "take (s - i) (drop i F) = take (s - i) (drop j G)" using assms(4) by (auto intro!: nth_equalityI)
qed

lemma sync_common:
  assumes "chunk_ok F G u v n ds" "u \<le> s" "s + c \<le> u + n"
  shows "take c (drop s F) = take c (drop (v + (s - u)) G)" "s + c \<le> length F" "v + (s - u) + c \<le> length G"
proof -
  have "F ! (s + m) = G ! (v + (s - u) + m)" if "m < c" for m
  proof -
    have "s - u + m < n" "s + m = u + (s - u + m)" using that assms(2,3) by auto
    with assms(1) show ?thesis unfolding chunk_ok_def by (metis add.assoc)
  qed
  moreover show "s + c \<le> length F" "v + (s - u) + c \<le> length G" using assms by (auto simp: chunk_ok_def)
  ultimately show "take c (drop s F) = take c (drop (v + (s - u)) G)" by (auto intro!: nth_equalityI)
qed

lemma chunks_beyond_chain: "lcs_chain F G i j cs \<Longrightarrow> chunks_beyond (1 + int i) cs = Some cs"
  by (elim lcs_chain_cases) auto

lemma chunks_beyond_result:
  assumes "chunk_ok F G u v n ds" "0 < n" "u \<le> s" "s + c \<le> u + n"
  defines "cs \<equiv> \<lparr>lcs_offset0 = 1 + int u, lcs_offset1 = 1 + int v, lcs_length = int n\<rparr> # ds"
  shows "\<exists>cs'. chunks_beyond (1 + int (s + c)) cs = Some cs' \<and> aligned F G (s + c) (v + (s - u) + c) cs' \<and> length cs' \<le> length cs \<and>
    (s + c = u + n \<longrightarrow> lcs_chain F G (s + c) (v + (s - u) + c) cs' \<and> length cs' < length cs)"
proof (cases "s + c = u + n")
  case True
  have "lcs_chain F G (s + c) (v + (s - u) + c) ds" using assms(3) True by (intro chunk_rest[OF assms(1,2)]) auto
  with True chunks_beyond_chain[OF this] assms(2) show ?thesis by (auto simp: cs_def aligned_def)
next
  case False
  have "aligned F G (s + c) (v + (s - u) + c) cs" unfolding cs_def using False assms(3,4) by (intro aligned_I[OF assms(1)]) auto
  with False assms show ?thesis by (auto simp: cs_def)
qed

section \<open>Three-way differences\<close>

text \<open>What a hunk says of three files, the lines \<open>m\<close>, \<open>n\<close> and \<open>p\<close> from positions \<open>i\<close>, \<open>j\<close> and \<open>k\<close> on.\<close>

definition hunk_ok :: "'a list \<Rightarrow> 'a list \<Rightarrow> 'a list \<Rightarrow> nat \<Rightarrow> nat \<Rightarrow> nat \<Rightarrow> nat \<Rightarrow> nat \<Rightarrow> nat \<Rightarrow> svn_diff \<Rightarrow> bool" where
  "hunk_ok f0 f1 f2 i j k m n p h \<longleftrightarrow>
    diff_type h = Type_common \<and> take m (drop i f0) = take n (drop j f1) \<and> take m (drop i f0) = take p (drop k f2) \<or>
    diff_type h = Type_diff_modified \<and> take m (drop i f0) = take p (drop k f2) \<or>
    diff_type h = Type_diff_latest \<and> take m (drop i f0) = take n (drop j f1) \<or>
    conflict_ok f1 f2 j n k p h"

fun three_way :: "'a list \<Rightarrow> 'a list \<Rightarrow> 'a list \<Rightarrow> nat \<Rightarrow> nat \<Rightarrow> nat \<Rightarrow> svn_diff list \<Rightarrow> bool" where
  "three_way f0 f1 f2 i j k [] \<longleftrightarrow> i = length f0 \<and> j = length f1 \<and> k = length f2"
| "three_way f0 f1 f2 i j k (h # hs) \<longleftrightarrow> (\<exists>m n p. original_start h = int i \<and> original_length h = int m \<and>
    modified_start h = int j \<and> modified_length h = int n \<and> latest_start h = int k \<and> latest_length h = int p \<and>
    i + m \<le> length f0 \<and> j + n \<le> length f1 \<and> k + p \<le> length f2 \<and> hunk_ok f0 f1 f2 i j k m n p h \<and>
    three_way f0 f1 f2 (i + m) (j + n) (k + p) hs)"

lemma three_way_ConsI:
  assumes "three_way f0 f1 f2 i' j' k' hs" "i' = i + m" "j' = j + n" "k' = k + p" "hunk_ok f0 f1 f2 i j k m n p h"
    "original_start h = int i" "original_length h = int m" "modified_start h = int j" "modified_length h = int n"
    "latest_start h = int k" "latest_length h = int p" "i + m \<le> length f0" "j + n \<le> length f1" "k + p \<le> length f2"
  shows "three_way f0 f1 f2 i j k (h # hs)"
  unfolding three_way.simps by (rule exI[of _ m], rule exI[of _ n], rule exI[of _ p]) (use assms in auto)

text \<open>The tokens that the merge reads: the positions of both changed files.\<close>

definition merge_rings :: "('a \<Rightarrow> int) \<Rightarrow> 'a list \<Rightarrow> 'a list \<Rightarrow> diff_ring \<Rightarrow> diff_ring \<Rightarrow> nat \<Rightarrow> bool" where
  "merge_rings h f1 f2 r1 r2 num_tokens \<longleftrightarrow>
    positions_of (map h f1 @ [- 1]) 1 r1 \<and> positions_of (map h f2 @ [- 1]) 1 r2 \<and>
    (\<forall>z \<in> set f1 \<union> set f2. 0 \<le> h z \<and> h z < int num_tokens) \<and> inj_on h (set f1 \<union> set f2)"

lemma changed_hunk_result:
  assumes rings: "merge_rings h f1 f2 r1 r2 num_tokens" and pos: "pos1 \<le> j" "pos2 \<le> k"
    and om: "chunk_ok f0 f1 u v n ds" "u \<le> s" "s \<le> u + n" "i \<le> u \<and> j \<le> v \<or> u \<le> i \<and> i < u + n \<and> j + u = v + i"
    and ol: "chunk_ok f0 f2 u' v' n' ds'" "u' \<le> s" "s \<le> u' + n'" "i \<le> u' \<and> k \<le> v' \<or> u' \<le> i \<and> i < u' + n' \<and> k + u' = v' + i"
    and s: "i \<le> s" "s = u \<or> s = u'" "i \<le> u \<and> j \<le> v \<or> i \<le> u' \<and> k \<le> v'"
  shows "\<exists>hs pos1' pos2'. changed_hunk r1 r2 num_tokens \<lparr>lcs_offset0 = 1 + int u, lcs_offset1 = 1 + int v, lcs_length = int n\<rparr>
      \<lparr>lcs_offset0 = 1 + int u', lcs_offset1 = 1 + int v', lcs_length = int n'\<rparr> (1 + int s) (1 + int i) (1 + int j) (1 + int k) pos1 pos2 =
      Some (hs, pos1', pos2') \<and> pos1' \<le> v + (s - u) \<and> pos2' \<le> v' + (s - u') \<and>
    (\<forall>rest. three_way f0 f1 f2 s (v + (s - u)) (v' + (s - u')) rest \<longrightarrow> three_way f0 f1 f2 i j k (hs @ rest))"
proof -
  note b1 = sync_bounds[OF om(1,2,3) s(1) om(4)] and b2 = sync_bounds[OF ol(1,2,3) s(1) ol(4)]
  have sF: "s \<le> length f0" using om(1,3) by (simp add: chunk_ok_def)
  let ?hunk = "\<lambda>type. Svn_diff type (int i) (int s - int i) (int j) (int v + (int s - int u) - int j) (int k) (int v' + (int s - int u') - int k) []"
  let ?m = "s - i" and ?n = "v + (s - u) - j" and ?p = "v' + (s - u') - k"
  have lens: "int s - int i = int ?m" "int v + (int s - int u) - int j = int ?n" "int v' + (int s - int u') - int k = int ?p"
    using s(1) b1 b2 om(2) ol(2) by auto
  have cons: "three_way f0 f1 f2 i j k (hd' # rest)"
    if "hunk_ok f0 f1 f2 i j k ?m ?n ?p hd'" "original_start hd' = int i" "original_length hd' = int ?m" "modified_start hd' = int j"
      "modified_length hd' = int ?n" "latest_start hd' = int k" "latest_length hd' = int ?p"
      "three_way f0 f1 f2 s (v + (s - u)) (v' + (s - u')) rest" for hd' rest
    using that s(1) b1 b2 sF by (intro three_way_ConsI[OF that(8), where m = ?m and n = ?n and p = ?p]) auto
  have changed: "changed_hunk r1 r2 num_tokens \<lparr>lcs_offset0 = 1 + int u, lcs_offset1 = 1 + int v, lcs_length = int n\<rparr>
      \<lparr>lcs_offset0 = 1 + int u', lcs_offset1 = 1 + int v', lcs_length = int n'\<rparr> (1 + int s) (1 + int i) (1 + int j) (1 + int k) pos1 pos2 =
    (if (u > i \<or> v > j) \<and> (u' > i \<or> v' > k)
     then map_option (\<lambda>(h, pos1, pos2). ([h], pos1, pos2)) (svn_diff_resolve_conflict (?hunk Type_conflict) r1 r2 pos1 pos2 num_tokens)
     else if u > i \<or> v > j then Some ([?hunk Type_diff_modified], pos1, pos2)
     else if u' > i \<or> v' > k then Some ([?hunk Type_diff_latest], pos1, pos2) else Some ([], pos1, pos2))"
    by (auto simp: changed_hunk_def Let_def algebra_simps)
  consider (both) "u > i \<or> v > j" "u' > i \<or> v' > k" | (modified) "u > i \<or> v > j" "u' \<le> i" "v' \<le> k"
    | (latest) "u \<le> i" "v \<le> j" "u' > i \<or> v' > k" | (none) "u \<le> i" "v \<le> j" "u' \<le> i" "v' \<le> k" by linarith
  then show ?thesis
  proof cases
    case both
    have R: "positions_of (map h f1 @ [- 1]) 1 r1" "positions_of (map h f2 @ [- 1]) 1 r2"
      "\<forall>z \<in> set f1 \<union> set f2. 0 \<le> h z \<and> h z < int num_tokens" "inj_on h (set f1 \<union> set f2)"
      using rings by (auto simp: merge_rings_def)
    have len: "j + ?n \<le> length f1" "k + ?p \<le> length f2" using b1 b2 by auto
    have "\<exists>hunk'. svn_diff_resolve_conflict (?hunk Type_conflict) r1 r2 pos1 pos2 num_tokens = Some (hunk', j + ?n, k + ?p) \<and>
      original_start hunk' = original_start (?hunk Type_conflict) \<and> original_length hunk' = original_length (?hunk Type_conflict) \<and>
      modified_start hunk' = int j \<and> modified_length hunk' = int ?n \<and> latest_start hunk' = int k \<and> latest_length hunk' = int ?p \<and>
      conflict_ok f1 f2 j ?n k ?p hunk'"
      by (rule resolve_conflict_result[OF R pos(1) len(1) pos(2) len(2)]) (simp_all only: svn_diff.sel lens)
    then obtain hunk' where r: "svn_diff_resolve_conflict (?hunk Type_conflict) r1 r2 pos1 pos2 num_tokens = Some (hunk', j + ?n, k + ?p)"
      "original_start hunk' = int i" "original_length hunk' = int ?m"
      "modified_start hunk' = int j" "modified_length hunk' = int ?n" "latest_start hunk' = int k" "latest_length hunk' = int ?p"
      "conflict_ok f1 f2 j ?n k ?p hunk'" unfolding svn_diff.sel lens by blast
    have "changed_hunk r1 r2 num_tokens \<lparr>lcs_offset0 = 1 + int u, lcs_offset1 = 1 + int v, lcs_length = int n\<rparr>
        \<lparr>lcs_offset0 = 1 + int u', lcs_offset1 = 1 + int v', lcs_length = int n'\<rparr> (1 + int s) (1 + int i) (1 + int j) (1 + int k) pos1 pos2 =
        Some ([hunk'], j + ?n, k + ?p)" unfolding changed r(1) using both by simp
    moreover have "three_way f0 f1 f2 i j k ([hunk'] @ rest)" if "three_way f0 f1 f2 s (v + (s - u)) (v' + (s - u')) rest" for rest
      using cons[OF _ r(2-7) that] r(8) by (simp add: hunk_ok_def)
    ultimately show ?thesis using b1 b2 by auto
  next
    case modified
    have "take ?m (drop i f0) = take ?p (drop k f2)"
      using sync_unchanged[OF ol(1,2,3) s(1) ol(4) modified(2,3)] by simp
    then have ok: "hunk_ok f0 f1 f2 i j k ?m ?n ?p (?hunk Type_diff_modified)" by (simp add: hunk_ok_def)
    have "three_way f0 f1 f2 i j k ([?hunk Type_diff_modified] @ rest)" if "three_way f0 f1 f2 s (v + (s - u)) (v' + (s - u')) rest" for rest
      unfolding append_Cons append_Nil by (rule cons[OF ok _ _ _ _ _ _ that]) (simp_all only: svn_diff.sel lens)
    moreover have "pos1 \<le> v + (s - u)" "pos2 \<le> v' + (s - u')" using pos b1 b2 by auto
    ultimately show ?thesis unfolding changed using modified by auto
  next
    case latest
    have "take ?m (drop i f0) = take ?n (drop j f1)"
      using sync_unchanged[OF om(1,2,3) s(1) om(4) latest(1,2)] by simp
    then have ok: "hunk_ok f0 f1 f2 i j k ?m ?n ?p (?hunk Type_diff_latest)" by (simp add: hunk_ok_def)
    have "three_way f0 f1 f2 i j k ([?hunk Type_diff_latest] @ rest)" if "three_way f0 f1 f2 s (v + (s - u)) (v' + (s - u')) rest" for rest
      unfolding append_Cons append_Nil by (rule cons[OF ok _ _ _ _ _ _ that]) (simp_all only: svn_diff.sel lens)
    moreover have "pos1 \<le> v + (s - u)" "pos2 \<le> v' + (s - u')" using pos b1 b2 by auto
    ultimately show ?thesis unfolding changed using latest by auto
  next
    case none
    have "s = i" using none s by auto
    moreover from this have "v + (s - u) = j" "v' + (s - u') = k"
      using sync_unchanged(1)[OF om(1,2,3) s(1) om(4) none(1,2)] sync_unchanged(1)[OF ol(1,2,3) s(1) ol(4) none(3,4)] b1 b2 by auto
    ultimately show ?thesis unfolding changed using none pos by auto
  qed
qed

lemma later_position_result:
  assumes "positions_of (a @ [x]) 1 r" "pos \<le> v + d" "v + d \<le> length a"
  shows "later_position r pos \<lparr>lcs_offset0 = o0, lcs_offset1 = 1 + int v, lcs_length = l\<rparr> \<le> v + d"
  using assms ring_nth[OF assms(1)] by (auto simp: later_position_def position_at_def)

section \<open>When two of the files are the same\<close>

text \<open>The chain of a file and itself, from position \<open>i\<close> on: one chunk, and the end.\<close>

definition whole_chain :: "int \<Rightarrow> int \<Rightarrow> diff_lcs list" where
  "whole_chain N i =
    (if i < N then [\<lparr>lcs_offset0 = 1, lcs_offset1 = 1, lcs_length = N\<rparr>, \<lparr>lcs_offset0 = N + 1, lcs_offset1 = N + 1, lcs_length = 0\<rparr>]
     else [\<lparr>lcs_offset0 = N + 1, lcs_offset1 = N + 1, lcs_length = 0\<rparr>])"

lemma positions_of_unique: "positions_of a base ps \<Longrightarrow> positions_of a base qs \<Longrightarrow> ps = qs"
  by (auto simp: positions_of_def intro!: nth_equalityI)

lemma svn_diff_lcs_same:
  assumes "positions_of a 1 ps" "\<forall>x \<in> set a. 0 \<le> x \<and> x < int num_tokens"
  shows "svn_diff_lcs ps ps (svn_diff_get_token_counts ps num_tokens) (svn_diff_get_token_counts ps num_tokens) num_tokens 0 0 =
    Some (whole_chain (int (length a)) 0)"
proof (cases "a = []")
  case True
  with assms(1) show ?thesis
    by (simp add: svn_diff_lcs_def positions_of_def whole_chain_def eof_offset_def prepend_suffix_def prepend_prefix_def)
next
  case False
  let ?c = "svn_diff_get_token_counts ps num_tokens" and ?r0 = "with_sentinel ps (- 1)" and ?r1 = "with_sentinel ps (- 2)"
  have ps: "ps \<noteq> []" "length ps = length a" using assms(1) False by (auto simp: positions_of_def)
  have rings: "lcs_rings a a (1, 1) ?r0 ?r1 ?c ?c" and len: "lcs_source_length ps ?c ?c num_tokens = int (length a)"
    using lcs_input[OF assms(1,1) False False, of num_tokens] assms(2) by (auto simp: shared_def)
  note lengths = ring_lengths[OF rings]
  from snake_match_result[OF rings, of 0 0] have "snake_match ?r0 ?r1 0 0 = Some (length a, length a)"
    by (metis add_0 le_neq_implies_less zero_le)
  then have run: "snake_run ?r0 ?r1 ?c ?c 0 0 0 0 [] =
      Some (length a, length a, [\<lparr>lcs_offset0 = 1, lcs_offset1 = 1, lcs_length = int (length a)\<rparr>])"
    using False ring_offsets[OF rings] occurs_shared[OF rings] by (subst snake_run.simps) (simp add: snake_chunk_def)
  have "next_position ?r1 (length a) = 0" using lengths by (simp add: next_position_def)
  with run lengths have "snake_at ?r0 ?r1 ?c ?c (initial_fp ?r1 (int (length a)) (int (length a))) 0 =
      Some ((initial_fp ?r1 (int (length a)) (int (length a)))(0 \<mapsto> \<lparr>fp_y = pos_offset (?r1 ! length a),
        fp_lcs = [\<lparr>lcs_offset0 = 1, lcs_offset1 = 1, lcs_length = int (length a)\<rparr>], fp_pos0 = Some (length a), fp_pos1 = Some (length a)\<rparr>))"
    by (simp add: snake_at_def initial_fp_def svn_diff_snake_def)
  then have "lcs_passes ?r0 ?r1 ?c ?c 0 0 (initial_fp ?r1 (int (length a)) (int (length a))) =
      Some \<lparr>fp_y = pos_offset (?r1 ! length a), fp_lcs = [\<lparr>lcs_offset0 = 1, lcs_offset1 = 1, lcs_length = int (length a)\<rparr>],
        fp_pos0 = Some (length a), fp_pos1 = Some (length a)\<rparr>"
    using lengths by (subst lcs_passes.simps) (simp add: snakes_up.simps snakes_down.simps)
  with False ps positions_ends(2)[OF assms(1) False] len show ?thesis
    by (simp add: svn_diff_lcs_def Let_def whole_chain_def eof_offset_def prepend_suffix_def prepend_prefix_def)
qed

lemma chunks_until_part: "chunks_until sync cs = Some ds \<Longrightarrow> set ds \<subseteq> set cs"
  by (induction cs) (auto split: if_splits)

lemma skip_at_eof_part: "skip_at_eof other sync cs = Some ds \<Longrightarrow> set ds \<subseteq> set cs"
  by (auto simp: skip_at_eof_def split: list.splits if_splits)

lemma chunks_beyond_part: "chunks_beyond start cs = Some ds \<Longrightarrow> set ds \<subseteq> set cs"
  by (induction cs) (auto split: if_splits)

definition chunks_within :: "int \<Rightarrow> diff_lcs list \<Rightarrow> bool" where
  "chunks_within N cs \<longleftrightarrow> (\<forall>c \<in> set cs. lcs_offset0 c \<le> N + 1)"

lemma chunks_within_part: "chunks_within N cs \<Longrightarrow> set ds \<subseteq> set cs \<Longrightarrow> chunks_within N ds"
  by (auto simp: chunks_within_def)

lemma whole_chain_simps: 
  "whole_chain N i \<noteq> []" "lcs_offset0 (hd (whole_chain N i)) = (if i < N then 1 else N + 1)"
  "lcs_offset1 (hd (whole_chain N i)) = (if i < N then 1 else N + 1)" "lcs_length (hd (whole_chain N i)) = (if i < N then N else 0)"
  by (auto simp: whole_chain_def)

lemma whole_chain_until: "sync \<le> N + 1 \<Longrightarrow> chunks_until sync (whole_chain N i) = Some (whole_chain N i)"
  by (simp add: whole_chain_def)

lemma whole_chain_skip: "skip_at_eof other sync (whole_chain N i) = Some (whole_chain N i)"
  by (simp add: whole_chain_def skip_at_eof_def)

lemma whole_chain_beyond: "0 < N \<Longrightarrow> i < N \<Longrightarrow> chunks_beyond start (whole_chain N i) = Some (whole_chain N (start - 1))"
  by (simp add: whole_chain_def)

lemma find_sync_whole_om:
  assumes "find_sync om ol = Some y" "om = whole_chain N i" "chunks_within N ol"
  shows "fst (snd y) = om \<and> set (snd (snd y)) \<subseteq> set ol"
proof -
  have "om = whole_chain N i \<longrightarrow> chunks_within N ol \<longrightarrow> fst (snd y) = om \<and> set (snd (snd y)) \<subseteq> set ol"
  proof (rule find_sync.raw_induct[where P = "\<lambda>om ol y. om = whole_chain N i \<longrightarrow> chunks_within N ol \<longrightarrow>
      fst (snd y) = om \<and> set (snd (snd y)) \<subseteq> set ol", OF _ assms(1)], goal_cases)
    case (1 self om ol y)
    show ?case
    proof (intro impI)
      assume om: "om = whole_chain N i" and ol: "chunks_within N ol"
      from 1(2) om have "ol \<noteq> []" by (auto split: if_splits)
      with ol have "lcs_offset0 (hd ol) \<le> N + 1" by (auto simp: chunks_within_def)
      with 1(2) om \<open>ol \<noteq> []\<close> consider (ahead) ol1 where "Option.bind (chunks_until (lcs_offset0 (hd om)) ol) (skip_at_eof (hd om) (lcs_offset0 (hd om))) = Some ol1"
          "y = (lcs_offset0 (hd om), om, ol1) \<or> self om ol1 = Some y"
        | (behind) "y = (lcs_offset0 (hd ol), om, ol)" | (again) "self om ol = Some y"
        by (auto simp: whole_chain_simps whole_chain_until whole_chain_skip Let_def bind_eq_Some_conv split: if_splits)
      then show "fst (snd y) = om \<and> set (snd (snd y)) \<subseteq> set ol"
      proof cases
        case ahead
        then have part: "set ol1 \<subseteq> set ol" by (auto simp: bind_eq_Some_conv dest!: chunks_until_part skip_at_eof_part)
        with ahead(2) 1(1)[of om ol1 y] om chunks_within_part[OF ol part] show ?thesis by auto
      next
        case again
        with 1(1)[of om ol y] om ol show ?thesis by blast
      qed simp
    qed
  qed
  with assms(2,3) show ?thesis by blast
qed

lemma find_sync_whole_ol:
  assumes "find_sync om ol = Some y" "ol = whole_chain N i" "chunks_within N om"
  shows "snd (snd y) = ol \<and> set (fst (snd y)) \<subseteq> set om"
proof -
  have "ol = whole_chain N i \<longrightarrow> chunks_within N om \<longrightarrow> snd (snd y) = ol \<and> set (fst (snd y)) \<subseteq> set om"
  proof (rule find_sync.raw_induct[where P = "\<lambda>om ol y. ol = whole_chain N i \<longrightarrow> chunks_within N om \<longrightarrow>
      snd (snd y) = ol \<and> set (fst (snd y)) \<subseteq> set om", OF _ assms(1)], goal_cases)
    case (1 self om ol y)
    show ?case
    proof (intro impI)
      assume ol: "ol = whole_chain N i" and om: "chunks_within N om"
      from 1(2) ol have "om \<noteq> []" by (auto split: if_splits)
      with om have "lcs_offset0 (hd om) \<le> N + 1" by (auto simp: chunks_within_def)
      with 1(2) ol \<open>om \<noteq> []\<close> consider (ahead) om1 where "Option.bind (chunks_until (lcs_offset0 (hd ol)) om) (skip_at_eof (hd ol) (lcs_offset0 (hd ol))) = Some om1"
          "y = (lcs_offset0 (hd ol), om1, ol) \<or> self om1 ol = Some y"
        | (behind) "y = (lcs_offset0 (hd om), om, ol)" | (again) "self om ol = Some y"
        by (auto simp: whole_chain_simps whole_chain_until whole_chain_skip Let_def bind_eq_Some_conv split: if_splits)
      then show "snd (snd y) = ol \<and> set (fst (snd y)) \<subseteq> set om"
      proof cases
        case ahead
        then have part: "set om1 \<subseteq> set om" by (auto simp: bind_eq_Some_conv dest!: chunks_until_part skip_at_eof_part)
        with ahead(2) 1(1)[of om1 ol y] ol chunks_within_part[OF om part] show ?thesis by auto
      next
        case again
        with 1(1)[of om ol y] om ol show ?thesis by blast
      qed simp
    qed
  qed
  with assms(2,3) show ?thesis by blast
qed

lemma changed_hunk_types:
  assumes "changed_hunk r1 r2 num_tokens om ol sync ostart mstart lstart pos1 pos2 = Some (hs, p1, p2)"
  shows "lcs_offset0 om \<le> ostart \<Longrightarrow> lcs_offset1 om \<le> mstart \<Longrightarrow> \<forall>h \<in> set hs. diff_type h = Type_diff_latest"
    "lcs_offset0 ol \<le> ostart \<Longrightarrow> lcs_offset1 ol \<le> lstart \<Longrightarrow> \<forall>h \<in> set hs. diff_type h = Type_diff_modified"
  using assms by (auto simp: changed_hunk_def Let_def split: if_splits)

lemma chain_within:
  "lcs_chain f0 f1 i j cs \<Longrightarrow> chunks_within (int (length f0)) cs"
proof (induction cs arbitrary: i j)
  case (Cons c cs)
  then obtain u v n where "u + n \<le> length f0" "c = \<lparr>lcs_offset0 = 1 + int u, lcs_offset1 = 1 + int v, lcs_length = int n\<rparr>"
    "if n = 0 then cs = [] else lcs_chain f0 f1 (u + n) (v + n) cs" by auto
  with Cons.IH show ?case by (cases "n = 0") (auto simp: chunks_within_def)
qed simp

lemma aligned_within: "aligned f0 f1 i j cs \<Longrightarrow> chunks_within (int (length f0)) cs"
  by (auto simp: aligned_def inside_chunk_def intro: chain_within)

text \<open>The hunks of a merge in which one side has changed nothing.\<close>

definition one_side :: "svn_diff_type \<Rightarrow> svn_diff list \<Rightarrow> bool" where
  "one_side t hs \<longleftrightarrow> (\<forall>h \<in> set hs. diff_type h = Type_common \<or> diff_type h = t)"

lemma one_side_simps: 
  "one_side t []" "one_side t (h # hs) \<longleftrightarrow> (diff_type h = Type_common \<or> diff_type h = t) \<and> one_side t hs"
  "one_side t (hs @ hs') \<longleftrightarrow> one_side t hs \<and> one_side t hs'"
  by (auto simp: one_side_def)

lemma changed_hunk_whole_om:
  assumes "changed_hunk r1 r2 num_tokens (hd (whole_chain N i)) c sync (1 + i) (1 + i) lstart pos1 pos2 = Some (hs, p1, p2)" "0 \<le> i" "i \<le> N"
  shows "one_side Type_diff_latest hs"
  using changed_hunk_types(1)[OF assms(1)] assms(2,3) by (simp add: one_side_def whole_chain_simps split: if_splits)

lemma changed_hunk_whole_ol:
  assumes "changed_hunk r1 r2 num_tokens c (hd (whole_chain N i)) sync (1 + i) mstart (1 + i) pos1 pos2 = Some (hs, p1, p2)" "0 \<le> i" "i \<le> N"
  shows "one_side Type_diff_modified hs"
  using changed_hunk_types(2)[OF assms(1)] assms(2,3) by (simp add: one_side_def whole_chain_simps split: if_splits)

text \<open>The loop: it ends, and its hunks describe the three files from the positions on.\<close>

lemma diff3_loop_result:
  assumes rings: "merge_rings h f1 f2 r1 r2 num_tokens"
  shows "aligned f0 f1 i j om \<Longrightarrow> aligned f0 f2 i k ol \<Longrightarrow> lcs_chain f0 f1 i j om \<or> lcs_chain f0 f2 i k ol \<Longrightarrow> pos1 \<le> j \<Longrightarrow> pos2 \<le> k \<Longrightarrow>
    \<exists>hs. diff3_loop r1 r2 num_tokens om ol (1 + int i) (1 + int j) (1 + int k) pos1 pos2 = Some hs \<and> three_way f0 f1 f2 i j k hs \<and>
      (om = whole_chain (int (length f0)) (int i) \<longrightarrow> i = j \<longrightarrow> one_side Type_diff_latest hs) \<and>
      (ol = whole_chain (int (length f0)) (int i) \<longrightarrow> i = k \<longrightarrow> one_side Type_diff_modified hs)"
proof (induction "length om + length ol" arbitrary: i j k om ol pos1 pos2 rule: less_induct)
  case less
  from find_sync_result[OF less.prems(1,2)] obtain s om1 ol1 where
    sync: "find_sync om ol = Some (1 + int s, om1, ol1)" "s \<le> length f0" "aligned f0 f1 i j om1" "aligned f0 f2 i k ol1"
      "om1 = om \<or> lcs_chain f0 f1 i j om1" "ol1 = ol \<or> lcs_chain f0 f2 i k ol1" "length om1 \<le> length om" "length ol1 \<le> length ol"
      "synced f0 f1 f2 s (hd om1) (hd ol1)" by blast
  from sync(3) obtain u v n ds where om1: "om1 = \<lparr>lcs_offset0 = 1 + int u, lcs_offset1 = 1 + int v, lcs_length = int n\<rparr> # ds"
    "chunk_ok f0 f1 u v n ds" "i \<le> u \<and> j \<le> v \<or> u \<le> i \<and> i < u + n \<and> j + u = v + i" by (rule aligned_cases)
  from sync(4) obtain u' v' n' ds' where ol1: "ol1 = \<lparr>lcs_offset0 = 1 + int u', lcs_offset1 = 1 + int v', lcs_length = int n'\<rparr> # ds'"
    "chunk_ok f0 f2 u' v' n' ds'" "i \<le> u' \<and> k \<le> v' \<or> u' \<le> i \<and> i < u' + n' \<and> k + u' = v' + i" by (rule aligned_cases)
  have s: "u \<le> s" "s \<le> u + n" "u' \<le> s" "s \<le> u' + n'" "s = u \<or> s = u'"
    and eof: "n = 0 \<or> n' = 0 \<longrightarrow> s = length f0 \<and> v + (s - u) = length f1 \<and> v' + (s - u') = length f2"
    using sync(9) om1(1) ol1(1) by (auto simp: synced_def)
  have "i \<le> u \<and> j \<le> v \<or> i \<le> u' \<and> k \<le> v'"
  proof -
    have "lcs_chain f0 f1 i j om1 \<or> lcs_chain f0 f2 i k ol1" using less.prems(3) sync(5,6) by auto
    then show ?thesis using om1(1) ol1(1) by (auto elim: lcs_chain_cases)
  qed
  then have ahead: "i \<le> s" "i \<le> u \<and> j \<le> v \<or> i \<le> u' \<and> k \<le> v'" using s by auto
  from changed_hunk_result[OF rings less.prems(4,5) om1(2) s(1,2) om1(3) ol1(2) s(3,4) ol1(3) ahead(1) s(5) ahead(2)]
  obtain hs1 p1 p2 where hunk: "changed_hunk r1 r2 num_tokens (hd om1) (hd ol1) (1 + int s) (1 + int i) (1 + int j) (1 + int k) pos1 pos2 = Some (hs1, p1, p2)"
    "p1 \<le> v + (s - u)" "p2 \<le> v' + (s - u')"
    "\<And>rest. three_way f0 f1 f2 s (v + (s - u)) (v' + (s - u')) rest \<Longrightarrow> three_way f0 f1 f2 i j k (hs1 @ rest)"
    unfolding om1(1) ol1(1) list.sel by blast
  note step = diff3_loop.simps[of r1 r2 num_tokens om ol "1 + int i" "1 + int j" "1 + int k" pos1 pos2,
      unfolded sync(1) bind.bind_lunit split_conv hunk(1)]
  have "i \<le> length f0" using ahead(1) sync(2) by simp
  have same_om: "om1 = om" "one_side Type_diff_latest hs1" if om: "om = whole_chain (int (length f0)) (int i)" "i = j"
  proof -
    show "om1 = om" using find_sync_whole_om[OF sync(1) om(1) aligned_within[OF less.prems(2)]] by simp
    with hunk(1) om \<open>i \<le> length f0\<close> show "one_side Type_diff_latest hs1" by (intro changed_hunk_whole_om) auto
  qed
  have same_ol: "ol1 = ol" "one_side Type_diff_modified hs1" if ol: "ol = whole_chain (int (length f0)) (int i)" "i = k"
  proof -
    show "ol1 = ol" using find_sync_whole_ol[OF sync(1) ol(1) aligned_within[OF less.prems(1)]] by simp
    with hunk(1) ol \<open>i \<le> length f0\<close> show "one_side Type_diff_modified hs1" by (intro changed_hunk_whole_ol) auto
  qed
  show ?case
  proof (cases "n = 0 \<or> n' = 0")
    case True
    with eof hunk(4)[of "[]"] step om1(1) ol1(1) same_om(2) same_ol(2) show ?thesis by auto
  next
    case False
    define c where "c = min (n - (s - u)) (n' - (s - u'))"
    define j2 where "j2 = v + (s - u)"
    define k2 where "k2 = v' + (s - u')"
    have c: "s + c \<le> u + n" "s + c \<le> u' + n'" "s + c = u + n \<or> s + c = u' + n'" using s by (auto simp: c_def)
    from chunks_beyond_result[OF om1(2) _ s(1) c(1)] False obtain om2 where om2: "chunks_beyond (1 + int (s + c)) om1 = Some om2"
      "aligned f0 f1 (s + c) (j2 + c) om2" "length om2 \<le> length om1" "s + c = u + n \<longrightarrow> lcs_chain f0 f1 (s + c) (j2 + c) om2 \<and> length om2 < length om1"
      unfolding om1(1) j2_def by auto
    from chunks_beyond_result[OF ol1(2) _ s(3) c(2)] False obtain ol2 where ol2: "chunks_beyond (1 + int (s + c)) ol1 = Some ol2"
      "aligned f0 f2 (s + c) (k2 + c) ol2" "length ol2 \<le> length ol1" "s + c = u' + n' \<longrightarrow> lcs_chain f0 f2 (s + c) (k2 + c) ol2 \<and> length ol2 < length ol1"
      unfolding ol1(1) k2_def by auto
    note m1 = sync_common[OF om1(2) s(1) c(1), folded j2_def] and m2 = sync_common[OF ol1(2) s(3) c(2), folded k2_def]
    have smaller: "length om2 + length ol2 < length om + length ol" and ahead2: "lcs_chain f0 f1 (s + c) (j2 + c) om2 \<or> lcs_chain f0 f2 (s + c) (k2 + c) ol2"
      using c(3) om2(3,4) ol2(3,4) sync(7,8) by auto
    have pos: "later_position r1 p1 (hd om1) \<le> j2 + c" "later_position r2 p2 (hd ol1) \<le> k2 + c"
    proof -
      have "positions_of (map h f1 @ [- 1]) 1 r1" "positions_of (map h f2 @ [- 1]) 1 r2" using rings by (auto simp: merge_rings_def)
      then have "later_position r1 p1 (hd om1) \<le> j2" "later_position r2 p2 (hd ol1) \<le> k2"
        using hunk(2,3) m1(3) m2(3) om1(1) ol1(1) by (auto simp: j2_def k2_def intro!: later_position_result)
      then show "later_position r1 p1 (hd om1) \<le> j2 + c" "later_position r2 p2 (hd ol1) \<le> k2 + c" by auto
    qed
    from less(1)[OF smaller om2(2) ol2(2) ahead2 pos] obtain hs2 where
      rest: "diff3_loop r1 r2 num_tokens om2 ol2 (1 + int (s + c)) (1 + int (j2 + c)) (1 + int (k2 + c))
        (later_position r1 p1 (hd om1)) (later_position r2 p2 (hd ol1)) = Some hs2"
      "three_way f0 f1 f2 (s + c) (j2 + c) (k2 + c) hs2"
      "om2 = whole_chain (int (length f0)) (int (s + c)) \<longrightarrow> s + c = j2 + c \<longrightarrow> one_side Type_diff_latest hs2"
      "ol2 = whole_chain (int (length f0)) (int (s + c)) \<longrightarrow> s + c = k2 + c \<longrightarrow> one_side Type_diff_modified hs2" by blast
    let ?common = "Svn_diff Type_common (int s) (int c) (int j2) (int c) (int k2) (int c) []"
    have "three_way f0 f1 f2 s j2 k2 (?common # hs2)"
      using m1 m2 by (intro three_way_ConsI[OF rest(2), where m = c and n = c and p = c]) (auto simp: hunk_ok_def)
    then have hs: "three_way f0 f1 f2 i j k (hs1 @ ?common # hs2)" using hunk(4) by (simp add: j2_def k2_def)
    have lens: "1 + int v + (1 + int s - (1 + int u)) = 1 + int j2" "1 + int v' + (1 + int s - (1 + int u')) = 1 + int k2"
      "min (int n - (1 + int s - (1 + int u))) (int n' - (1 + int s - (1 + int u'))) = int c"
      "1 + int s + int c = 1 + int (s + c)" "1 + int j2 + int c = 1 + int (j2 + c)" "1 + int k2 + int c = 1 + int (k2 + c)"
      using s by (auto simp: j2_def k2_def c_def)
    have zero: "(lcs_length (hd om1) = 0 \<or> lcs_length (hd ol1) = 0) = False" using False om1(1) ol1(1) by simp
    have heads: "lcs_offset0 (hd om1) = 1 + int u" "lcs_offset1 (hd om1) = 1 + int v" "lcs_length (hd om1) = int n"
      "lcs_offset0 (hd ol1) = 1 + int u'" "lcs_offset1 (hd ol1) = 1 + int v'" "lcs_length (hd ol1) = int n'"
      using om1(1) ol1(1) by auto
    have "diff3_loop r1 r2 num_tokens om ol (1 + int i) (1 + int j) (1 + int k) pos1 pos2 = Some (hs1 @ ?common # hs2)"
      using False unfolding step zero if_False Let_def heads lens om2(1) ol2(1) bind.bind_lunit rest(1) by simp
    moreover have "one_side Type_diff_latest (hs1 @ ?common # hs2)" if om: "om = whole_chain (int (length f0)) (int i)" "i = j"
    proof -
      have "i < length f0" "0 < length f0" "u = v" using om1(1) same_om(1)[OF om] om(1) False by (auto simp: whole_chain_def split: if_splits)
      with om2(1) om(1) same_om(1)[OF om] have "om2 = whole_chain (int (length f0)) (int (s + c))" "s = j2"
        using s(1) by (simp_all add: whole_chain_beyond j2_def)
      with rest(3) same_om(2)[OF om] show ?thesis by (simp add: one_side_simps)
    qed
    moreover have "one_side Type_diff_modified (hs1 @ ?common # hs2)" if ol: "ol = whole_chain (int (length f0)) (int i)" "i = k"
    proof -
      have "i < length f0" "0 < length f0" "u' = v'" using ol1(1) same_ol(1)[OF ol] ol(1) False by (auto simp: whole_chain_def split: if_splits)
      with ol2(1) ol(1) same_ol(1)[OF ol] have "ol2 = whole_chain (int (length f0)) (int (s + c))" "s = k2"
        using s(3) by (simp_all add: whole_chain_beyond k2_def)
      with rest(4) same_ol(2)[OF ol] show ?thesis by (simp add: one_side_simps)
    qed
    ultimately show ?thesis using hs by blast
  qed
qed

text \<open>Two changed files that are the same.\<close>

lemma match_start_same: "0 \<le> n \<Longrightarrow> \<exists>i'. match_start r r n i i = (0, i', i')"
proof (induction "nat n" arbitrary: n i)
  case 0
  then show ?case by (subst match_start.simps) simp
next
  case (Suc m)
  then have "m = nat (n - 1)" "0 \<le> n - 1" "0 < n" by auto
  from Suc(1)[OF this(1,2), of "next_position r i"] \<open>0 < n\<close> show ?case by (subst match_start.simps) simp
qed

lemma resolve_same:
  assumes "svn_diff_resolve_conflict hunk r r pos pos num_tokens = Some (hunk', p1, p2)" "modified_start hunk = latest_start hunk"
    "modified_length hunk = latest_length hunk" "0 \<le> latest_length hunk"
  shows "diff_type hunk' = Type_diff_common \<and> p1 = p2"
proof -
  from assms(1,2) obtain s where s: "seek_position r (latest_start hunk + 1) pos = Some s"
    by (auto simp: svn_diff_resolve_conflict_def bind_eq_Some_conv)
  from match_start_same[OF assms(4)] obtain s' where "match_start r r (latest_length hunk) s s = (0, s', s')" by blast
  with assms(1-3) s show ?thesis by (auto simp: svn_diff_resolve_conflict_def Let_def)
qed

lemma changed_hunk_same:
  assumes "changed_hunk r r num_tokens c c (lcs_offset0 c) ostart mstart mstart pos pos = Some (hs, p1, p2)" "mstart \<le> lcs_offset1 c"
  shows "one_side Type_diff_common hs \<and> p1 = p2"
  using assms resolve_same by (auto simp: changed_hunk_def Let_def one_side_def split: if_splits)

lemma find_sync_same: "0 \<le> lcs_length c \<Longrightarrow> find_sync (c # cs) (c # cs) = Some (lcs_offset0 c, c # cs, c # cs)"
  by (subst find_sync.simps) (simp add: skip_at_eof_def split: list.split)

lemma diff3_loop_same:
  "lcs_chain f0 f1 i j om \<Longrightarrow> diff3_loop r r num_tokens om om (1 + int i) (1 + int j) (1 + int j) pos pos = Some hs \<Longrightarrow>
    one_side Type_diff_common hs"
proof (induction om arbitrary: i j pos hs)
  case (Cons c om)
  from Cons.prems(1) obtain u v n where c: "i \<le> u" "j \<le> v" "c = \<lparr>lcs_offset0 = 1 + int u, lcs_offset1 = 1 + int v, lcs_length = int n\<rparr>"
    "if n = 0 then om = [] else lcs_chain f0 f1 (u + n) (v + n) om" by auto
  note step = Cons.prems(2)[unfolded diff3_loop.simps[of r r num_tokens "c # om" "c # om"] find_sync_same[of c om, unfolded c(3), simplified, folded c(3)]]
  obtain changed p where hunk: "changed_hunk r r num_tokens c c (lcs_offset0 c) (1 + int i) (1 + int j) (1 + int j) pos pos = Some (changed, p, p)"
    "one_side Type_diff_common changed"
  proof -
    from step obtain changed p1 p2 where "changed_hunk r r num_tokens c c (lcs_offset0 c) (1 + int i) (1 + int j) (1 + int j) pos pos = Some (changed, p1, p2)"
      using c(3) by (auto simp: bind_eq_Some_conv)
    with changed_hunk_same[OF this] c(2,3) that show thesis by auto
  qed
  show ?case
  proof (cases "n = 0")
    case True
    with step hunk c(3) show ?thesis by simp
  next
    case False
    from False c(4) have chain: "lcs_chain f0 f1 (u + n) (v + n) om" by simp
    then have "chunks_beyond (1 + int u + int n) (c # om) = Some om" using False c(3) by (cases om) auto
    with step hunk(1) c(3) False obtain rest where
      "diff3_loop r r num_tokens om om (1 + int (u + n)) (1 + int (v + n)) (1 + int (v + n)) (later_position r p c) (later_position r p c) = Some rest"
      "hs = changed @ Svn_diff Type_common (int u) (int n) (int v) (int n) (int v) (int n) [] # rest"
      by (auto simp: bind_eq_Some_conv Let_def algebra_simps)
    with Cons.IH[OF chain] hunk(2) show ?thesis by (simp add: one_side_simps)
  qed
qed simp

section \<open>svn\_diff\_diff3\_2 on a data source\<close>

lemma diff3_ring_positions:
  assumes "positions_of a 1 ps"
  shows "positions_of (a @ [- 1]) 1 (diff3_ring ps 0)"
proof -
  have "ps \<noteq> [] \<Longrightarrow> pos_offset (last ps) = int (length a)"
    using assms by (cases a rule: rev_cases) (auto simp: positions_of_def last_conv_nth)
  with assms show ?thesis by (auto simp: positions_of_def diff3_ring_def nth_append less_Suc_eq)
qed

lemma svn_diff_lcs_whole:
  assumes "positions_of (map h f0) 1 ps0" "positions_of (map h f1) 1 ps1"
    and "\<forall>x \<in> set f0 \<union> set f1. 0 \<le> h x \<and> h x < int num_tokens" "inj_on h (set f0 \<union> set f1)"
  shows "\<exists>cs. svn_diff_lcs ps0 ps1 (svn_diff_get_token_counts ps0 num_tokens) (svn_diff_get_token_counts ps1 num_tokens)
      num_tokens 0 0 = Some cs \<and> lcs_chain f0 f1 0 0 cs"
  using svn_diff_lcs_result[of h f0 "[]" ps0 f1 ps1 num_tokens "[]"] assms by auto

text \<open>The contract of the callbacks, for sources that leave out no lines at begin and end.\<close>

locale whole_diff_source = diff_source +
  assumes open_whole: "ready s \<Longrightarrow> \<exists>s'. datasources_open vtable s sources = Inr (0, 0, s')"
begin

lemma open_all:
  assumes "ready s"
  shows "\<exists>s'. datasources_open vtable s sources = Inr (0, 0, s') \<and> inv s' \<and> (\<forall>d \<in> set sources. content s d = map (key s') (rest s' d))"
  using open_sources[OF assms, of sources] open_whole[OF assms, of sources] by auto

lemma svn_diff_diff3_2_result:
  assumes "ready s"
  shows "\<exists>hs s'. svn_diff_diff3_2 vtable s = Some (Inr (hs, s')) \<and>
    three_way (content s Datasource_original) (content s Datasource_modified) (content s Datasource_latest) 0 0 0 hs \<and>
    (content s Datasource_original = content s Datasource_modified \<longrightarrow> one_side Type_diff_latest hs) \<and>
    (content s Datasource_original = content s Datasource_latest \<longrightarrow> one_side Type_diff_modified hs) \<and>
    (content s Datasource_modified = content s Datasource_latest \<longrightarrow> one_side Type_diff_common hs)"
proof -
  from open_all[OF assms, of "[Datasource_original, Datasource_modified, Datasource_latest]"] obtain s0 where
    s0: "datasources_open vtable s [Datasource_original, Datasource_modified, Datasource_latest] = Inr (0, 0, s0)" "inv s0"
      "content s Datasource_original = map (key s0) (rest s0 Datasource_original)"
      "content s Datasource_modified = map (key s0) (rest s0 Datasource_modified)"
      "content s Datasource_latest = map (key s0) (rest s0 Datasource_latest)" by auto
  from svn_diff_get_tokens_result[OF s0(2) tree_create_ok(1), of Datasource_original 0] obtain ps0 tree1 s1 where
    s1: "svn_diff_get_tokens vtable s0 svn_diff_tree_create Datasource_original 0 = Some (Inr (ps0, tree1, s1))"
      "inv s1" "rest s1 = (rest s0)(Datasource_original := [])" "key s1 = key s0" "tree_ok s0 tree1"
      "dom (find_token s0 tree1) = set (map (key s0) (rest s0 Datasource_original))"
      "positions_of (map (\<lambda>t. int (the (find_token s0 tree1 (key s0 t)))) (rest s0 Datasource_original)) 1 ps0"
    unfolding tree_create_ok(2) by auto
  have "tree_ok s1 tree1" using s1(5) by (simp add: tree_ok_key[OF s1(4)])
  from svn_diff_get_tokens_result[OF s1(2) this, of Datasource_modified 0] obtain ps1 tree2 s2 where
    s2: "svn_diff_get_tokens vtable s1 tree1 Datasource_modified 0 = Some (Inr (ps1, tree2, s2))"
      "inv s2" "rest s2 = (rest s1)(Datasource_modified := [])" "key s2 = key s0" "tree_ok s0 tree2"
      "find_token s0 tree1 \<subseteq>\<^sub>m find_token s0 tree2"
      "dom (find_token s0 tree2) = set (map (key s0) (rest s0 Datasource_modified)) \<union> dom (find_token s0 tree1)"
      "positions_of (map (\<lambda>t. int (the (find_token s0 tree2 (key s0 t)))) (rest s0 Datasource_modified)) 1 ps1"
    unfolding tree_ok_key[OF s1(4)] s1(3,4) by auto
  have "tree_ok s2 tree2" using s2(5) by (simp add: tree_ok_key[OF s2(4)])
  from svn_diff_get_tokens_result[OF s2(2) this, of Datasource_latest 0] obtain ps2 tree3 s3 where
    s3: "svn_diff_get_tokens vtable s2 tree2 Datasource_latest 0 = Some (Inr (ps2, tree3, s3))"
      "tree_ok s0 tree3" "find_token s0 tree2 \<subseteq>\<^sub>m find_token s0 tree3"
      "dom (find_token s0 tree3) = set (map (key s0) (rest s0 Datasource_latest)) \<union> dom (find_token s0 tree2)"
      "positions_of (map (\<lambda>t. int (the (find_token s0 tree3 (key s0 t)))) (rest s0 Datasource_latest)) 1 ps2"
    unfolding tree_ok_key[OF s2(4)] s1(3) s2(3,4) by auto
  let ?h = "\<lambda>k. int (the (find_token s0 tree3 k))" and ?f0 = "map (key s0) (rest s0 Datasource_original)"
    and ?f1 = "map (key s0) (rest s0 Datasource_modified)" and ?f2 = "map (key s0) (rest s0 Datasource_latest)"
  have pos: "positions_of (map ?h ?f0) 1 ps0" "positions_of (map ?h ?f1) 1 ps1" "positions_of (map ?h ?f2) 1 ps2"
    using positions_of_later[OF s1(7) map_le_trans[OF s2(6) s3(3)]] positions_of_later[OF s2(8) s3(3)] s1(6) s2(7) s3(5)
    by (simp_all add: comp_def)
  have K: "set ?f0 \<union> set ?f1 \<union> set ?f2 \<subseteq> dom (find_token s0 tree3)" using s1(6) s2(7) s3(4) by auto
  note indexes = token_indexes[OF s3(2) K]
  have sub: "set ?f0 \<union> set ?f1 \<subseteq> set ?f0 \<union> set ?f1 \<union> set ?f2" "set ?f0 \<union> set ?f2 \<subseteq> set ?f0 \<union> set ?f1 \<union> set ?f2"
    "set ?f1 \<union> set ?f2 \<subseteq> set ?f0 \<union> set ?f1 \<union> set ?f2" by blast+
  note inj = inj_on_subset[OF indexes(2) sub(1)] inj_on_subset[OF indexes(2) sub(2)] inj_on_subset[OF indexes(2) sub(3)]
  have bound: "\<forall>k \<in> K. 0 \<le> ?h k \<and> ?h k < int (node_count tree3)" if "K \<subseteq> set ?f0 \<union> set ?f1 \<union> set ?f2" for K
    using indexes(1) that by (meson subsetD)
  from svn_diff_lcs_whole[OF pos(1,2) bound[OF sub(1)] inj(1)]
  obtain om ol where
    om: "svn_diff_lcs ps0 ps1 (svn_diff_get_token_counts ps0 (node_count tree3)) (svn_diff_get_token_counts ps1 (node_count tree3))
      (node_count tree3) 0 0 = Some om" "lcs_chain ?f0 ?f1 0 0 om" and
    ol: "svn_diff_lcs ps0 ps2 (svn_diff_get_token_counts ps0 (node_count tree3)) (svn_diff_get_token_counts ps2 (node_count tree3))
      (node_count tree3) 0 0 = Some ol" "lcs_chain ?f0 ?f2 0 0 ol"
    using svn_diff_lcs_whole[OF pos(1,3) bound[OF sub(2)] inj(2)] by (elim exE conjE)
  have "merge_rings ?h ?f1 ?f2 (diff3_ring ps1 0) (diff3_ring ps2 0) (node_count tree3)"
    unfolding merge_rings_def by (intro conjI pos(2,3)[THEN diff3_ring_positions] bound[OF sub(3)] inj(3))
  from diff3_loop_result[OF this, of ?f0 0 0 om 0 ol 0 0] om(2) ol(2) obtain hs where
    hs: "diff3_loop (diff3_ring ps1 0) (diff3_ring ps2 0) (node_count tree3) om ol 1 1 1 0 0 = Some hs" "three_way ?f0 ?f1 ?f2 0 0 0 hs"
      "om = whole_chain (int (length ?f0)) 0 \<longrightarrow> one_side Type_diff_latest hs"
      "ol = whole_chain (int (length ?f0)) 0 \<longrightarrow> one_side Type_diff_modified hs"
    by (auto simp: aligned_def)
  have indexes: "\<forall>x \<in> set (map ?h ?f0). 0 \<le> x \<and> x < int (node_count tree3)"
    using bound[of "set ?f0"] by auto
  have "one_side Type_diff_latest hs" if "?f0 = ?f1"
  proof -
    have "ps1 = ps0" using pos(1,2) that by (simp add: positions_of_unique)
    with om(1) svn_diff_lcs_same[OF pos(1) indexes] hs(3) show ?thesis by simp
  qed
  moreover have "one_side Type_diff_modified hs" if "?f0 = ?f2"
  proof -
    have "ps2 = ps0" using pos(1,3) that by (simp add: positions_of_unique)
    with ol(1) svn_diff_lcs_same[OF pos(1) indexes] hs(4) show ?thesis by simp
  qed
  moreover have "one_side Type_diff_common hs" if "?f1 = ?f2"
  proof -
    have "ps2 = ps1" using pos(2,3) that by (simp add: positions_of_unique)
    with om ol(1) hs(1) diff3_loop_same[of ?f0 ?f1 0 0 om "diff3_ring ps1 0" "node_count tree3" 0 hs] show ?thesis by simp
  qed
  ultimately show ?thesis using s0 s1(1) s2(1) s3(1) om(1) ol(1) hs(1,2)
    unfolding s0(3-5) by (simp add: svn_diff_diff3_2_def svn_diff_get_node_count_def Let_def)
qed

end

section \<open>The three files in the hunks\<close>

text \<open>Each file put together from the hunks: where a side has not changed anything, its lines
  are those of the original.\<close>

definition original_side :: "'a list \<Rightarrow> svn_diff list \<Rightarrow> 'a list" where
  "original_side f0 hs = concat (map (\<lambda>h. hunk_lines f0 (original_start h) (original_length h)) hs)"

definition modified_side :: "'a list \<Rightarrow> 'a list \<Rightarrow> svn_diff list \<Rightarrow> 'a list" where
  "modified_side f0 f1 hs =
    concat (map (\<lambda>h. if diff_type h = Type_common \<or> diff_type h = Type_diff_latest
                     then hunk_lines f0 (original_start h) (original_length h)
                     else hunk_lines f1 (modified_start h) (modified_length h)) hs)"

definition latest_side :: "'a list \<Rightarrow> 'a list \<Rightarrow> svn_diff list \<Rightarrow> 'a list" where
  "latest_side f0 f2 hs =
    concat (map (\<lambda>h. if diff_type h = Type_common \<or> diff_type h = Type_diff_modified
                     then hunk_lines f0 (original_start h) (original_length h)
                     else hunk_lines f2 (latest_start h) (latest_length h)) hs)"

lemma take_drop_later: "i + m \<le> length f \<Longrightarrow> take m (drop i f) @ drop (i + m) f = drop i f"
  by (metis append_take_drop_id drop_drop add.commute)

lemma three_way_sides:
  "three_way f0 f1 f2 i j k hs \<Longrightarrow>
    original_side f0 hs = drop i f0 \<and> modified_side f0 f1 hs = drop j f1 \<and> latest_side f0 f2 hs = drop k f2"
proof (induction hs arbitrary: i j k)
  case (Cons h hs)
  from Cons.prems[unfolded three_way.simps] obtain m n p where h: "original_start h = int i" "original_length h = int m"
    "modified_start h = int j" "modified_length h = int n" "latest_start h = int k" "latest_length h = int p"
    "i + m \<le> length f0" "j + n \<le> length f1" "k + p \<le> length f2" "hunk_ok f0 f1 f2 i j k m n p h"
    "three_way f0 f1 f2 (i + m) (j + n) (k + p) hs" by blast
  have lines: "diff_type h = Type_common \<or> diff_type h = Type_diff_latest \<Longrightarrow> take m (drop i f0) = take n (drop j f1)"
    "diff_type h = Type_common \<or> diff_type h = Type_diff_modified \<Longrightarrow> take m (drop i f0) = take p (drop k f2)"
    using h(10) by (auto simp: hunk_ok_def conflict_ok_def)
  note later = take_drop_later[OF h(7)] take_drop_later[OF h(8)] take_drop_later[OF h(9)]
  from Cons.IH[OF h(11)] lines later h(1-6) show ?case
    by (simp add: original_side_def modified_side_def latest_side_def hunk_lines_def)
qed (auto simp: original_side_def modified_side_def latest_side_def)

section \<open>Three texts in memory\<close>

definition svn_diff_mem_string_diff3 :: "(32 word \<Rightarrow> cstring \<Rightarrow> 32 word) \<Rightarrow> cstring \<Rightarrow> cstring \<Rightarrow> cstring \<Rightarrow> diff_file_options \<Rightarrow>
    svn_diff list svn_result option" where
  "svn_diff_mem_string_diff3 zlib_adler32 original modified latest opts =
    map_option (\<lambda>result. svn_try result (\<lambda>(diff, baton). Inr diff))
      (svn_diff_diff3_2 (svn_diff_mem_vtable zlib_adler32)
        \<lparr>mem_sources = [fill_source_tokens original, fill_source_tokens modified, fill_source_tokens latest, unused_source],
         mem_options = opts\<rparr>)"

interpretation whole_mem: whole_diff_source "svn_diff_mem_vtable zlib_adler32" mem_ok "\<lambda>s d. map (normalized_token s) (mem_rest s d)"
  mem_ok mem_rest normalized_token "svn_adler32 zlib_adler32 0" compare_texts
  for zlib_adler32
  by unfold_locales (auto simp: svn_diff_mem_vtable_def mem_datasources_open_def)

lemma mem_content_latest:
  "map (normalized_token \<lparr>mem_sources = [a, b, fill_source_tokens c, d], mem_options = opts\<rparr>)
      (mem_rest \<lparr>mem_sources = [a, b, fill_source_tokens c, d], mem_options = opts\<rparr> Datasource_latest) = compared_lines opts c"
  by (auto simp: mem_rest_def compared_lines_def text_lines_def normalized_token_def normalize_buffer_text fill_source_tokens_def split: prod.split)

lemma mem_string_diff3_result:
  "\<exists>hs. svn_diff_mem_string_diff3 zlib_adler32 original modified latest opts = Some (Inr hs) \<and>
    three_way (compared_lines opts original) (compared_lines opts modified) (compared_lines opts latest) 0 0 0 hs \<and>
    (compared_lines opts original = compared_lines opts modified \<longrightarrow> one_side Type_diff_latest hs) \<and>
    (compared_lines opts original = compared_lines opts latest \<longrightarrow> one_side Type_diff_modified hs) \<and>
    (compared_lines opts modified = compared_lines opts latest \<longrightarrow> one_side Type_diff_common hs)"
proof -
  let ?baton = "\<lparr>mem_sources = [fill_source_tokens original, fill_source_tokens modified, fill_source_tokens latest, unused_source], mem_options = opts\<rparr>"
  have "mem_ok ?baton" by (simp add: mem_ok_def)
  from whole_mem.svn_diff_diff3_2_result[OF this, of zlib_adler32] show ?thesis
    unfolding mem_content mem_content_latest by (auto simp: svn_diff_mem_string_diff3_def)
qed

text \<open>C3. \<open>svn_diff_mem_string_diff3\<close> returns for every three texts and all options, without an error. Its hunks follow
  each other from begin to end of the three texts; a hunk that is common, or changed by one side only, stands for lines
  that are equal in the files that did not change them; a conflict that both sides resolve the same way has equal lines,
  and the resolved diff of another one describes both sides, unless a side begins its file. Each of the three texts can
  be put together from the hunks.\<close>

theorem mem_string_diff3_correct:
  "\<exists>hs. svn_diff_mem_string_diff3 zlib_adler32 original modified latest opts = Some (Inr hs) \<and>
    three_way (compared_lines opts original) (compared_lines opts modified) (compared_lines opts latest) 0 0 0 hs \<and>
    original_side (compared_lines opts original) hs = compared_lines opts original \<and>
    modified_side (compared_lines opts original) (compared_lines opts modified) hs = compared_lines opts modified \<and>
    latest_side (compared_lines opts original) (compared_lines opts latest) hs = compared_lines opts latest"
  using mem_string_diff3_result[of zlib_adler32 original modified latest opts] three_way_sides by fastforce

section \<open>Conflicts at the first line\<close>

declare snake_run.simps [code] snake_match.simps [code] lcs_passes.simps [code]
  seek_position.simps [code] match_start.simps [code] find_sync.simps [code] diff3_loop.simps [code]

text \<open>Three files of the lines \<open>x\<close>, of \<open>a, b\<close> and of \<open>c, a\<close>. The correction of the end takes the chunk of the line
  \<open>a\<close>, which has the offset 1 in the modified file, for the end of the chain, and moves it behind the last line: the
  common hunk of the resolved diff is the line 2 of a file with the lines 0 and 1. This is why \<open>conflict_ok\<close> says
  nothing of a resolved diff that begins a file.\<close>

lemma resolved_diff_at_file_start:
  "diff3_loop
      (diff3_ring [\<lparr>token_index = 1, pos_offset = 1\<rparr>, \<lparr>token_index = 2, pos_offset = 2\<rparr>] 0)
      (diff3_ring [\<lparr>token_index = 3, pos_offset = 1\<rparr>, \<lparr>token_index = 1, pos_offset = 2\<rparr>] 0) 4
      [\<lparr>lcs_offset0 = 2, lcs_offset1 = 3, lcs_length = 0\<rparr>] [\<lparr>lcs_offset0 = 2, lcs_offset1 = 3, lcs_length = 0\<rparr>] 1 1 1 0 0 =
    Some [Svn_diff Type_conflict 0 1 0 2 0 2
      [Svn_diff Type_conflict 0 1 0 2 0 1 [], Svn_diff Type_diff_common 0 1 2 1 1 1 []]]"
  by code_simp

end
