(* ===== verification/Diff_Output.thy ===== *)
theory Diff_Output
  imports Diff_Merge
begin

text \<open>
  Output of differences (\<open>libsvn_diff/diff_memory.c\<close>, \<open>util.c\<close>): the walk over the hunks with a table of callbacks, and
  the merge of texts with conflict markers. The stream is the text written to it.
\<close>

section \<open>svn\_diff\_output\<close>

text \<open>\<open>svn_diff_contains_conflicts\<close> and \<open>svn_diff_contains_diffs\<close>.\<close>

fun svn_diff_contains_conflicts :: "svn_diff list \<Rightarrow> bool" where
  "svn_diff_contains_conflicts [] = False"
| "svn_diff_contains_conflicts (diff # rest) = (if diff_type diff = Type_conflict then True else svn_diff_contains_conflicts rest)"

fun svn_diff_contains_diffs :: "svn_diff list \<Rightarrow> bool" where
  "svn_diff_contains_diffs [] = False"
| "svn_diff_contains_diffs (diff # rest) = (if diff_type diff \<noteq> Type_common then True else svn_diff_contains_diffs rest)"

text \<open>\<open>svn_diff_output_fns_t\<close>: the callbacks that are given get a hunk, of which only the one for conflicts reads the
  resolved diff.\<close>

record 'b diff_output_fns =
  output_common :: "('b \<Rightarrow> svn_diff \<Rightarrow> 'b svn_result) option"
  output_diff_modified :: "('b \<Rightarrow> svn_diff \<Rightarrow> 'b svn_result) option"
  output_diff_latest :: "('b \<Rightarrow> svn_diff \<Rightarrow> 'b svn_result) option"
  output_diff_common :: "('b \<Rightarrow> svn_diff \<Rightarrow> 'b svn_result) option"
  output_conflict :: "('b \<Rightarrow> svn_diff \<Rightarrow> 'b svn_result) option"

fun output_fn :: "'b diff_output_fns \<Rightarrow> svn_diff_type \<Rightarrow> ('b \<Rightarrow> svn_diff \<Rightarrow> 'b svn_result) option" where
  "output_fn vtable Type_common = output_common vtable"
| "output_fn vtable Type_diff_common = output_diff_common vtable"
| "output_fn vtable Type_diff_modified = output_diff_modified vtable"
| "output_fn vtable Type_diff_latest = output_diff_latest vtable"
| "output_fn vtable Type_conflict = output_conflict vtable"

fun svn_diff_output :: "svn_diff list \<Rightarrow> 'b \<Rightarrow> 'b diff_output_fns \<Rightarrow> 'b svn_result" where
  "svn_diff_output [] baton vtable = Inr baton"
| "svn_diff_output (diff # rest) baton vtable =
    svn_try (case output_fn vtable (diff_type diff) of None \<Rightarrow> Inr baton | Some fn \<Rightarrow> fn baton diff)
      (\<lambda>baton. svn_diff_output rest baton vtable)"

section \<open>The output of merges\<close>

datatype conflict_display_style =
    Display_modified_latest
  | Display_resolved_modified_latest
  | Display_modified_original_latest
  | Display_modified
  | Display_latest
  | Display_only_conflicts

definition SVN_DIFF_UNIFIED_CONTEXT_SIZE :: nat where
  "SVN_DIFF_UNIFIED_CONTEXT_SIZE = 3"

text \<open>\<open>APR_EOL_STR\<close> of the platform.\<close>

definition APR_EOL_STR :: cstring where "APR_EOL_STR = [newline]"

text \<open>A \<open>context_saver_t\<close> keeps the last pieces that were written to it.\<close>

record context_saver =
  saved :: "cstring option list"
  next_slot :: nat
  total_written :: nat

text \<open>What \<open>output_stream\<close> is: the actual stream, whose bytes are \<open>written\<close>; the stream of the context saver; or a
  \<open>trailing_context_printer\<close> with the lines it still prints.\<close>

datatype merge_stream =
    Real_stream
  | Saver_stream context_saver
  | Trailing_stream nat

record merge_output_baton =
  output_stream :: merge_stream
  written :: cstring
  merge_sources :: "source_tokens list"
  markers :: "cstring list"
  marker_eol :: cstring
  conflict_style :: conflict_display_style

definition context_saver_stream_write :: "context_saver \<Rightarrow> cstring \<Rightarrow> context_saver" where
  "context_saver_stream_write cs data =
    cs\<lparr>saved := (saved cs)[next_slot cs := Some data],
       next_slot := (next_slot cs + 1) mod SVN_DIFF_UNIFIED_CONTEXT_SIZE,
       total_written := total_written cs + 1\<rparr>"

definition flush_context_saver :: "context_saver \<Rightarrow> cstring \<Rightarrow> cstring" where
  "flush_context_saver cs out =
    foldl (\<lambda>out i. case saved cs ! ((i + next_slot cs) mod SVN_DIFF_UNIFIED_CONTEXT_SIZE) of None \<Rightarrow> out | Some data \<Rightarrow> out @ data)
      out [0..<SVN_DIFF_UNIFIED_CONTEXT_SIZE]"

definition make_context_saver :: "merge_output_baton \<Rightarrow> merge_output_baton" where
  "make_context_saver mob =
    mob\<lparr>output_stream := Saver_stream \<lparr>saved = replicate SVN_DIFF_UNIFIED_CONTEXT_SIZE None, next_slot = 0, total_written = 0\<rparr>\<rparr>"

definition trailing_context_printer_write :: "merge_output_baton \<Rightarrow> nat \<Rightarrow> cstring \<Rightarrow> merge_output_baton svn_result" where
  "trailing_context_printer_write mob lines_to_print data =
    svn_try (svn_assert (lines_to_print > 0)) (\<lambda>_.
      let mob = mob\<lparr>written := written mob @ data, output_stream := Trailing_stream (lines_to_print - 1)\<rparr>
      in Inr (if lines_to_print - 1 = 0 then make_context_saver mob else mob))"

definition make_trailing_context_printer :: "merge_output_baton \<Rightarrow> merge_output_baton" where
  "make_trailing_context_printer btn = btn\<lparr>output_stream := Trailing_stream SVN_DIFF_UNIFIED_CONTEXT_SIZE\<rparr>"

text \<open>\<open>svn_stream_write\<close> on the output stream of the baton.\<close>

definition stream_write :: "merge_output_baton \<Rightarrow> cstring \<Rightarrow> merge_output_baton svn_result" where
  "stream_write btn data =
    (case output_stream btn of
       Real_stream \<Rightarrow> Inr (btn\<lparr>written := written btn @ data\<rparr>)
     | Saver_stream cs \<Rightarrow> Inr (btn\<lparr>output_stream := Saver_stream (context_saver_stream_write cs data)\<rparr>)
     | Trailing_stream n \<Rightarrow> trailing_context_printer_write btn n data)"

text \<open>The loop goes down the length and up the tokens.\<close>

function output_merge_token_range :: "merge_output_baton \<Rightarrow> nat \<Rightarrow> int \<Rightarrow> int \<Rightarrow> merge_output_baton svn_result" where
  "output_merge_token_range btn idx first len =
    (let tokens = src_tokens (merge_sources btn ! idx)
     in if len > 0 \<and> first < int (length tokens) then
          svn_try (stream_write btn (tokens ! nat first)) (\<lambda>btn. output_merge_token_range btn idx (first + 1) (len - 1))
        else Inr btn)"
  by pat_completeness auto
termination by (relation "measure (\<lambda>(btn, idx, first, len). nat len)") auto

declare output_merge_token_range.simps [simp del]

definition output_marker_eol :: "merge_output_baton \<Rightarrow> merge_output_baton svn_result" where
  "output_marker_eol btn = stream_write btn (marker_eol btn)"

definition output_merge_marker :: "merge_output_baton \<Rightarrow> nat \<Rightarrow> merge_output_baton svn_result" where
  "output_merge_marker btn idx = svn_try (stream_write btn (markers btn ! idx)) output_marker_eol"

definition output_common_modified :: "merge_output_baton \<Rightarrow> svn_diff \<Rightarrow> merge_output_baton svn_result" where
  "output_common_modified btn diff = output_merge_token_range btn 1 (modified_start diff) (modified_length diff)"

definition output_latest :: "merge_output_baton \<Rightarrow> svn_diff \<Rightarrow> merge_output_baton svn_result" where
  "output_latest btn diff = output_merge_token_range btn 2 (latest_start diff) (latest_length diff)"

text \<open>\<open>output_conflict\<close> calls \<open>svn_diff_output\<close> with the table it is an entry of; here the call is an argument. A style
  that it does not know is a malfunction.\<close>

definition merge_output_conflict :: "(svn_diff list \<Rightarrow> merge_output_baton \<Rightarrow> merge_output_baton svn_result) \<Rightarrow>
    merge_output_baton \<Rightarrow> svn_diff \<Rightarrow> merge_output_baton svn_result" where
  "merge_output_conflict output btn diff =
    (if conflict_style btn = Display_resolved_modified_latest \<and> resolved_diff diff \<noteq> [] then output (resolved_diff diff) btn
     else
       let style = (if conflict_style btn = Display_resolved_modified_latest then Display_modified_latest else conflict_style btn)
       in if style = Display_modified_latest \<or> style = Display_modified_original_latest then
            svn_try (output_merge_marker btn 1) (\<lambda>btn.
            svn_try (output_merge_token_range btn 1 (modified_start diff) (modified_length diff)) (\<lambda>btn.
            svn_try (if style = Display_modified_original_latest
                     then svn_try (output_merge_marker btn 0) (\<lambda>btn.
                            output_merge_token_range btn 0 (original_start diff) (original_length diff))
                     else Inr btn) (\<lambda>btn.
            svn_try (output_merge_marker btn 2) (\<lambda>btn.
            svn_try (output_merge_token_range btn 2 (latest_start diff) (latest_length diff)) (\<lambda>btn.
            output_merge_marker btn 3)))))
          else if style = Display_modified then output_merge_token_range btn 1 (modified_start diff) (modified_length diff)
          else if style = Display_latest then output_merge_token_range btn 2 (latest_start diff) (latest_length diff)
          else Inl Assertion_fail)"

definition merge_output_vtable :: "(svn_diff list \<Rightarrow> merge_output_baton \<Rightarrow> merge_output_baton svn_result) \<Rightarrow> merge_output_baton diff_output_fns" where
  "merge_output_vtable output =
    \<lparr>output_common = Some output_common_modified, output_diff_modified = Some output_common_modified,
     output_diff_latest = Some output_latest, output_diff_common = Some output_common_modified,
     output_conflict = Some (merge_output_conflict output)\<rparr>"

text \<open>The output of hunks whose resolved diffs are nested at most \<open>n\<close> deep, and how deep they are.\<close>

primrec nesting :: "svn_diff \<Rightarrow> nat" where
  "nesting (Svn_diff type os ol ms ml ls ll resolved) = Suc (foldr max (map nesting resolved) 0)"

fun merge_output :: "nat \<Rightarrow> svn_diff list \<Rightarrow> merge_output_baton \<Rightarrow> merge_output_baton svn_result" where
  "merge_output 0 diff btn = Inr btn"
| "merge_output (Suc n) diff btn = svn_diff_output diff btn (merge_output_vtable (merge_output n))"

definition merge_output_all :: "svn_diff list \<Rightarrow> merge_output_baton \<Rightarrow> merge_output_baton svn_result" where
  "merge_output_all diff btn = merge_output (Suc (foldr max (map nesting diff) 0)) diff btn"

text \<open>A marker with the lines of its range.\<close>

definition range_marker :: "cstring \<Rightarrow> int \<Rightarrow> int \<Rightarrow> cstring" where
  "range_marker marker start len =
    (if len = 1 then marker @ '' ('' @ printf_ld (start + 1) @ '')''
     else marker @ '' ('' @ printf_ld (start + 1) @ '','' @ printf_ld len @ '')'')"

definition output_conflict_with_context :: "merge_output_baton \<Rightarrow> svn_diff \<Rightarrow> merge_output_baton svn_result" where
  "output_conflict_with_context btn diff =
    (let btn = (case output_stream btn of
         Saver_stream cs \<Rightarrow>
           btn\<lparr>written := flush_context_saver cs
             (written btn @ (if total_written cs > SVN_DIFF_UNIFIED_CONTEXT_SIZE then ''@@'' @ [newline] else []))\<rparr>
       | _ \<Rightarrow> btn)\<lparr>output_stream := Real_stream\<rparr>
     in svn_try (stream_write btn (range_marker (markers btn ! 1) (modified_start diff) (modified_length diff))) (\<lambda>btn.
        svn_try (output_marker_eol btn) (\<lambda>btn.
        svn_try (output_merge_token_range btn 1 (modified_start diff) (modified_length diff)) (\<lambda>btn.
        svn_try (stream_write btn (range_marker (markers btn ! 0) (original_start diff) (original_length diff))) (\<lambda>btn.
        svn_try (output_marker_eol btn) (\<lambda>btn.
        svn_try (output_merge_token_range btn 0 (original_start diff) (original_length diff)) (\<lambda>btn.
        svn_try (output_merge_marker btn 2) (\<lambda>btn.
        svn_try (output_merge_token_range btn 2 (latest_start diff) (latest_length diff)) (\<lambda>btn.
        svn_try (stream_write btn (range_marker (markers btn ! 3) (latest_start diff) (latest_length diff))) (\<lambda>btn.
        svn_try (output_marker_eol btn) (\<lambda>btn. Inr (make_trailing_context_printer btn))))))))))))"

definition merge_only_conflicts_output_vtable :: "merge_output_baton diff_output_fns" where
  "merge_only_conflicts_output_vtable =
    \<lparr>output_common = Some output_common_modified, output_diff_modified = Some output_common_modified,
     output_diff_latest = Some output_latest, output_diff_common = Some output_common_modified,
     output_conflict = Some output_conflict_with_context\<rparr>"

text \<open>\<open>None\<close> for a line without an ending.\<close>

definition detect_eol :: "cstring \<Rightarrow> cstring option" where
  "detect_eol token =
    (if token = [] then None
     else if last token = carriage_return then Some [carriage_return]
     else if last token \<noteq> newline then None
     else if length token = 1 \<or> token ! (length token - 2) \<noteq> carriage_return then Some [newline]
     else Some [carriage_return, newline])"

text \<open>The conversion of the markers from UTF-8 is an argument. The result is what is written to the stream.\<close>

definition svn_diff_mem_string_output_merge2 :: "(cstring \<Rightarrow> cstring svn_result) \<Rightarrow> svn_diff list \<Rightarrow> cstring \<Rightarrow> cstring \<Rightarrow> cstring \<Rightarrow>
    cstring option \<Rightarrow> cstring option \<Rightarrow> cstring option \<Rightarrow> cstring option \<Rightarrow> conflict_display_style \<Rightarrow> cstring svn_result" where
  "svn_diff_mem_string_output_merge2 from_utf8 diff original modified latest
      conflict_original conflict_modified conflict_latest conflict_separator style =
    (let sources = [fill_source_tokens original, fill_source_tokens modified, fill_source_tokens latest];
         eol = (case src_tokens (sources ! 1) of
                  [] \<Rightarrow> APR_EOL_STR
                | token # _ \<Rightarrow> (case detect_eol token of None \<Rightarrow> APR_EOL_STR | Some eol \<Rightarrow> eol))
     in svn_try (from_utf8 (case conflict_modified of None \<Rightarrow> ''<<<<<<< (modified)'' | Some m \<Rightarrow> m)) (\<lambda>marker1.
        svn_try (from_utf8 (case conflict_original of None \<Rightarrow> ''||||||| (original)'' | Some m \<Rightarrow> m)) (\<lambda>marker0.
        svn_try (from_utf8 (case conflict_separator of None \<Rightarrow> ''======='' | Some m \<Rightarrow> m)) (\<lambda>marker2.
        svn_try (from_utf8 (case conflict_latest of None \<Rightarrow> ''>>>>>>> (latest)'' | Some m \<Rightarrow> m)) (\<lambda>marker3.
          let btn = \<lparr>output_stream = Real_stream, written = [], merge_sources = sources,
                markers = [marker0, marker1, marker2, marker3], marker_eol = eol, conflict_style = style\<rparr>
          in map_sum id written
               (if style = Display_only_conflicts
                then svn_diff_output diff (make_context_saver btn) merge_only_conflicts_output_vtable
                else merge_output_all diff btn))))))"

definition svn_diff_mem_string_output_merge :: "(cstring \<Rightarrow> cstring svn_result) \<Rightarrow> svn_diff list \<Rightarrow> cstring \<Rightarrow> cstring \<Rightarrow> cstring \<Rightarrow>
    cstring option \<Rightarrow> cstring option \<Rightarrow> cstring option \<Rightarrow> cstring option \<Rightarrow> bool \<Rightarrow> bool \<Rightarrow> cstring svn_result" where
  "svn_diff_mem_string_output_merge from_utf8 diff original modified latest
      conflict_original conflict_modified conflict_latest conflict_separator display_original_in_conflict display_resolved_conflicts =
    (let style = Display_modified_latest;
         style = (if display_resolved_conflicts then Display_resolved_modified_latest else style);
         style = (if display_original_in_conflict then Display_modified_original_latest else style)
     in svn_diff_mem_string_output_merge2 from_utf8 diff original modified latest
          conflict_original conflict_modified conflict_latest conflict_separator style)"

section \<open>What a merge writes\<close>

lemma token_range_cases:
  assumes "0 \<le> first"
  obtains "len \<le> 0 \<or> int (length tokens) \<le> first" "hunk_lines tokens first len = []"
  | "0 < len" "first < int (length tokens)" "hunk_lines tokens first len = tokens ! nat first # hunk_lines tokens (first + 1) (len - 1)"
proof (cases "0 < len \<and> first < int (length tokens)")
  case True
  then have "nat len = Suc (nat (len - 1))" "drop (nat first) tokens = tokens ! nat first # drop (Suc (nat first)) tokens"
    "nat (first + 1) = Suc (nat first)" using assms by (auto simp: Cons_nth_drop_Suc)
  with True that(2) show thesis by (simp add: hunk_lines_def)
next
  case False
  then have none: "len \<le> 0 \<or> int (length tokens) \<le> first" by auto
  moreover have "hunk_lines tokens first len = []" using none assms by (auto simp: hunk_lines_def)
  ultimately show thesis by (rule that(1))
qed

lemma token_range_real:
  "output_stream btn = Real_stream \<Longrightarrow> 0 \<le> first \<Longrightarrow> output_merge_token_range btn idx first len =
    Inr (btn\<lparr>written := written btn @ concat (hunk_lines (src_tokens (merge_sources btn ! idx)) first len)\<rparr>)"
proof (induction btn idx first len rule: output_merge_token_range.induct)
  case (1 btn idx first len)
  from 1(3) show ?case
  proof (cases rule: token_range_cases[where len = len and tokens = "src_tokens (merge_sources btn ! idx)"])
    case 1
    then show ?thesis by (subst output_merge_token_range.simps) (auto simp: Let_def)
  next
    case 2
    let ?btn = "btn\<lparr>written := written btn @ src_tokens (merge_sources btn ! idx) ! nat first\<rparr>"
    have "output_merge_token_range ?btn idx (first + 1) (len - 1) =
        Inr (?btn\<lparr>written := written ?btn @ concat (hunk_lines (src_tokens (merge_sources ?btn ! idx)) (first + 1) (len - 1))\<rparr>)"
      using 2 1(2,3) by (intro 1(1)[OF refl]) (auto simp: stream_write_def)
    with 2 1(2) show ?thesis by (subst output_merge_token_range.simps) (simp add: Let_def stream_write_def)
  qed
qed

lemma token_range_saver:
  "output_stream btn = Saver_stream cs \<Longrightarrow> \<exists>cs'. output_merge_token_range btn idx first len = Inr (btn\<lparr>output_stream := Saver_stream cs'\<rparr>)"
proof (induction btn idx first len arbitrary: cs rule: output_merge_token_range.induct)
  case (1 btn idx first len)
  show ?case
  proof (cases "0 < len \<and> first < int (length (src_tokens (merge_sources btn ! idx)))")
    case True
    let ?data = "src_tokens (merge_sources btn ! idx) ! nat first"
    let ?btn = "btn\<lparr>output_stream := Saver_stream (context_saver_stream_write cs ?data)\<rparr>"
    have "\<exists>cs'. output_merge_token_range ?btn idx (first + 1) (len - 1) = Inr (?btn\<lparr>output_stream := Saver_stream cs'\<rparr>)"
      using True 1(2) by (intro 1(1)[OF refl]) (auto simp: stream_write_def)
    with True 1(2) show ?thesis by (subst output_merge_token_range.simps) (auto simp: Let_def stream_write_def)
  next
    case False
    with 1(2) show ?thesis by (subst output_merge_token_range.simps) (auto simp: Let_def intro!: exI[of _ cs])
  qed
qed

text \<open>The lines of a merge without conflicts.\<close>

definition merged_lines :: "'a list \<Rightarrow> 'a list \<Rightarrow> svn_diff list \<Rightarrow> 'a list" where
  "merged_lines m l hs =
    concat (map (\<lambda>h. if diff_type h = Type_diff_latest then hunk_lines l (latest_start h) (latest_length h)
                     else hunk_lines m (modified_start h) (modified_length h)) hs)"

definition hunk_starts :: "svn_diff list \<Rightarrow> bool" where
  "hunk_starts hs \<longleftrightarrow> (\<forall>h \<in> set hs. 0 \<le> modified_start h \<and> 0 \<le> latest_start h)"

lemma output_merge_real:
  assumes "\<forall>h \<in> set hs. diff_type h \<noteq> Type_conflict" "hunk_starts hs" "output_stream btn = Real_stream"
  shows "svn_diff_output hs btn (merge_output_vtable output) = Inr (btn\<lparr>written := written btn @
    concat (merged_lines (src_tokens (merge_sources btn ! 1)) (src_tokens (merge_sources btn ! 2)) hs)\<rparr>)"
  using assms
proof (induction hs arbitrary: btn)
  case (Cons h hs)
  let ?lines = "if diff_type h = Type_diff_latest then hunk_lines (src_tokens (merge_sources btn ! 2)) (latest_start h) (latest_length h)
    else hunk_lines (src_tokens (merge_sources btn ! 1)) (modified_start h) (modified_length h)"
  have "0 \<le> modified_start h" "0 \<le> latest_start h" using Cons.prems(2) by (auto simp: hunk_starts_def)
  with Cons.prems(1,3) have "(case output_fn (merge_output_vtable output) (diff_type h) of None \<Rightarrow> Inr btn | Some fn \<Rightarrow> fn btn h) =
      Inr (btn\<lparr>written := written btn @ concat ?lines\<rparr>)"
    by (cases "diff_type h") (auto simp: merge_output_vtable_def output_common_modified_def output_latest_def token_range_real)
  moreover have "svn_diff_output hs (btn\<lparr>written := written btn @ concat ?lines\<rparr>) (merge_output_vtable output) =
      Inr (btn\<lparr>written := (written btn @ concat ?lines) @ concat (merged_lines (src_tokens (merge_sources btn ! 1)) (src_tokens (merge_sources btn ! 2)) hs)\<rparr>)"
    using Cons.prems Cons.IH[of "btn\<lparr>written := written btn @ concat ?lines\<rparr>"] by (auto simp: hunk_starts_def)
  ultimately show ?case by (simp add: merged_lines_def)
qed (simp add: merged_lines_def)

lemma output_merge_saver:
  assumes "\<forall>h \<in> set hs. diff_type h \<noteq> Type_conflict" "output_stream btn = Saver_stream cs"
  shows "\<exists>cs'. svn_diff_output hs btn merge_only_conflicts_output_vtable = Inr (btn\<lparr>output_stream := Saver_stream cs'\<rparr>)"
  using assms
proof (induction hs arbitrary: btn cs)
  case (Cons h hs)
  have "\<exists>cs'. (case output_fn merge_only_conflicts_output_vtable (diff_type h) of None \<Rightarrow> Inr btn | Some fn \<Rightarrow> fn btn h) =
      Inr (btn\<lparr>output_stream := Saver_stream cs'\<rparr>)"
    using Cons.prems token_range_saver[OF Cons.prems(2)]
    by (cases "diff_type h") (auto simp: merge_only_conflicts_output_vtable_def output_common_modified_def output_latest_def)
  then obtain cs' where cs': "(case output_fn merge_only_conflicts_output_vtable (diff_type h) of None \<Rightarrow> Inr btn | Some fn \<Rightarrow> fn btn h) =
      Inr (btn\<lparr>output_stream := Saver_stream cs'\<rparr>)" by blast
  from Cons.IH[of "btn\<lparr>output_stream := Saver_stream cs'\<rparr>" cs'] Cons.prems(1) cs' show ?case by auto
next
  case Nil
  then have "btn = btn\<lparr>output_stream := Saver_stream cs\<rparr>" by (cases btn) simp
  then show ?case by auto
qed

lemma output_merge_saver_written:
  assumes "\<forall>h \<in> set hs. diff_type h \<noteq> Type_conflict"
  shows "map_sum id written (svn_diff_output hs (make_context_saver btn) merge_only_conflicts_output_vtable) = Inr (written btn)"
  using output_merge_saver[OF assms, of "make_context_saver btn"] by (auto simp: make_context_saver_def)

text \<open>A merge without conflicts, for markers that can be converted.\<close>

lemma merge2_result:
  assumes "\<forall>h \<in> set hs. diff_type h \<noteq> Type_conflict" "hunk_starts hs"
  shows "svn_diff_mem_string_output_merge2 (\<lambda>s. Inr (utf8 s)) hs original modified latest co cm cl csep style =
    Inr (if style = Display_only_conflicts then [] else concat (merged_lines (text_lines modified) (text_lines latest) hs))"
proof (cases "style = Display_only_conflicts")
  case True
  then show ?thesis
    by (simp add: svn_diff_mem_string_output_merge2_def output_merge_saver_written[OF assms(1)] Let_def)
next
  case False
  with output_merge_real[OF assms] show ?thesis
    by (simp add: svn_diff_mem_string_output_merge2_def merge_output_all_def Let_def text_lines_def)
qed

text \<open>The depth is enough: the output is the one of a table whose conflict callback calls it again.\<close>

lemma nesting_member: "h \<in> set hs \<Longrightarrow> nesting h \<le> foldr max (map nesting hs) 0"
  by (induction hs) auto

lemma svn_diff_output_cong:
  assumes "\<And>h b. h \<in> set hs \<Longrightarrow> merge_output_conflict f b h = merge_output_conflict g b h"
  shows "svn_diff_output hs btn (merge_output_vtable f) = svn_diff_output hs btn (merge_output_vtable g)"
  using assms
proof (induction hs arbitrary: btn)
  case (Cons h hs)
  have "(case output_fn (merge_output_vtable f) (diff_type h) of None \<Rightarrow> Inr btn | Some fn \<Rightarrow> fn btn h) =
      (case output_fn (merge_output_vtable g) (diff_type h) of None \<Rightarrow> Inr btn | Some fn \<Rightarrow> fn btn h)"
    using Cons.prems[of h] by (cases "diff_type h") (auto simp: merge_output_vtable_def)
  moreover have "svn_diff_output hs b (merge_output_vtable f) = svn_diff_output hs b (merge_output_vtable g)" for b
    using Cons by simp
  ultimately show ?case by simp
qed simp

lemma merge_output_depth:
  "foldr max (map nesting hs) 0 < n \<Longrightarrow> foldr max (map nesting hs) 0 < m \<Longrightarrow> merge_output n hs btn = merge_output m hs btn"
proof (induction n arbitrary: m hs btn)
  case (Suc n)
  then obtain m' where m: "m = Suc m'" by (cases m) auto
  have "merge_output_conflict (merge_output n) b h = merge_output_conflict (merge_output m') b h" if "h \<in> set hs" for b h
  proof -
    have "nesting h \<le> n" "nesting h \<le> m'" using nesting_member[OF that] Suc.prems m by auto
    then have "foldr max (map nesting (resolved_diff h)) 0 < n" "foldr max (map nesting (resolved_diff h)) 0 < m'"
      by (cases h; simp)+
    then have "merge_output n (resolved_diff h) b = merge_output m' (resolved_diff h) b" for b by (rule Suc.IH)
    then show ?thesis by (simp add: merge_output_conflict_def)
  qed
  then show ?case unfolding m merge_output.simps by (rule svn_diff_output_cong)
qed simp

lemma merge_output_all_unfold: "merge_output_all hs btn = svn_diff_output hs btn (merge_output_vtable merge_output_all)"
proof -
  have "merge_output_conflict (merge_output (foldr max (map nesting hs) 0)) b h = merge_output_conflict merge_output_all b h"
    if "h \<in> set hs" for b h
  proof -
    have "foldr max (map nesting (resolved_diff h)) 0 < foldr max (map nesting hs) 0"
      using nesting_member[OF that] by (cases h) simp
    then have "merge_output (foldr max (map nesting hs) 0) (resolved_diff h) b = merge_output_all (resolved_diff h) b" for b
      unfolding merge_output_all_def by (intro merge_output_depth) auto
    then show ?thesis by (simp add: merge_output_conflict_def)
  qed
  then have "svn_diff_output hs btn (merge_output_vtable (merge_output (foldr max (map nesting hs) 0))) =
      svn_diff_output hs btn (merge_output_vtable merge_output_all)" by (rule svn_diff_output_cong)
  then show ?thesis by (simp add: merge_output_all_def)
qed

section \<open>The output never fails\<close>

text \<open>A printer of trailing context still has lines to print. The writes keep that, the sources and the style.\<close>

definition printer_ok :: "merge_output_baton \<Rightarrow> bool" where
  "printer_ok btn \<longleftrightarrow> output_stream btn \<noteq> Trailing_stream 0"

definition writes :: "merge_output_baton \<Rightarrow> merge_output_baton svn_result \<Rightarrow> bool" where
  "writes btn r \<longleftrightarrow> (\<exists>btn'. r = Inr btn' \<and> printer_ok btn' \<and> conflict_style btn' = conflict_style btn)"

lemma writes_Inr [simp]: "writes btn (Inr btn') \<longleftrightarrow> printer_ok btn' \<and> conflict_style btn' = conflict_style btn"
  by (auto simp: writes_def)

lemma writes_try: "writes btn r \<Longrightarrow> (\<And>btn'. r = Inr btn' \<Longrightarrow> printer_ok btn' \<Longrightarrow> conflict_style btn' = conflict_style btn \<Longrightarrow> writes btn' (f btn')) \<Longrightarrow>
    writes btn (svn_try r f)"
  by (fastforce simp: writes_def)

lemma writes_let: "printer_ok x \<Longrightarrow> conflict_style x = conflict_style btn \<Longrightarrow> (\<And>b. printer_ok b \<Longrightarrow> writes b (f b)) \<Longrightarrow>
    writes btn (let b = x in f b)"
  by (fastforce simp: writes_def)

lemma stream_write_writes: "printer_ok btn \<Longrightarrow> writes btn (stream_write btn data)"
  by (auto simp: writes_def printer_ok_def stream_write_def trailing_context_printer_write_def make_context_saver_def Let_def
    split: merge_stream.splits)

lemma token_range_writes: "printer_ok btn \<Longrightarrow> writes btn (output_merge_token_range btn idx first len)"
proof (induction btn idx first len rule: output_merge_token_range.induct)
  case (1 btn idx first len)
  then show ?case
    by (subst output_merge_token_range.simps) (auto simp: Let_def intro!: writes_try[OF stream_write_writes] split: if_splits)
qed

lemmas merge_writes = writes_try stream_write_writes token_range_writes

lemma marker_writes: "printer_ok btn \<Longrightarrow> writes btn (output_marker_eol btn)" "printer_ok btn \<Longrightarrow> writes btn (output_merge_marker btn idx)"
  by (auto simp: output_marker_eol_def output_merge_marker_def intro!: merge_writes)

lemma output_writes:
  assumes "\<And>h btn fn. h \<in> set hs \<Longrightarrow> printer_ok btn \<Longrightarrow> P (conflict_style btn) \<Longrightarrow> output_fn vtable (diff_type h) = Some fn \<Longrightarrow> writes btn (fn btn h)"
  shows "printer_ok btn \<Longrightarrow> P (conflict_style btn) \<Longrightarrow> writes btn (svn_diff_output hs btn vtable)"
  using assms
proof (induction hs arbitrary: btn)
  case (Cons h hs)
  have "writes btn (case output_fn vtable (diff_type h) of None \<Rightarrow> Inr btn | Some fn \<Rightarrow> fn btn h)"
    using Cons.prems(1,2,3) by (auto split: option.split)
  then show ?case unfolding svn_diff_output.simps using Cons.prems(2,3) by (intro writes_try Cons.IH) auto
qed simp

lemma merge_output_writes: "printer_ok btn \<Longrightarrow> conflict_style btn \<noteq> Display_only_conflicts \<Longrightarrow> writes btn (merge_output n hs btn)"
proof (induction n arbitrary: hs btn)
  case (Suc n)
  have conflict: "writes btn (merge_output_conflict (merge_output n) btn h)" if "printer_ok btn" "conflict_style btn \<noteq> Display_only_conflicts" for btn h
    using that Suc.IH unfolding merge_output_conflict_def Let_def
    by (cases "conflict_style btn") (auto intro!: marker_writes merge_writes)
  show ?case unfolding merge_output.simps
  proof (rule output_writes[where P = "\<lambda>style. style \<noteq> Display_only_conflicts"])
    fix h btn fn assume "printer_ok btn" "conflict_style btn \<noteq> Display_only_conflicts"
      "output_fn (merge_output_vtable (merge_output n)) (diff_type h) = Some fn"
    with conflict show "writes btn (fn btn h)"
      by (cases "diff_type h") (auto simp: merge_output_vtable_def output_common_modified_def output_latest_def intro: token_range_writes)
  qed (use Suc.prems in auto)
qed simp

lemma conflict_with_context_writes: "printer_ok btn \<Longrightarrow> writes btn (output_conflict_with_context btn h)"
  unfolding output_conflict_with_context_def
proof (rule writes_let, goal_cases)
  case (3 b)
  then show ?case
    by (auto intro!: marker_writes merge_writes)
      (simp_all add: printer_ok_def make_trailing_context_printer_def SVN_DIFF_UNIFIED_CONTEXT_SIZE_def)
qed (auto simp: printer_ok_def split: merge_stream.split)

lemma merge2_never_fails:
  "\<exists>out. svn_diff_mem_string_output_merge2 (\<lambda>s. Inr (utf8 s)) hs original modified latest co cm cl csep style = Inr out"
proof -
  have all: "printer_ok btn \<Longrightarrow> conflict_style btn \<noteq> Display_only_conflicts \<Longrightarrow> \<exists>btn'. merge_output_all hs btn = Inr btn'" for btn
    using merge_output_writes unfolding merge_output_all_def writes_def by blast
  have only: "\<exists>btn'. svn_diff_output hs btn merge_only_conflicts_output_vtable = Inr btn'" if "printer_ok btn" for btn
  proof -
    have "writes btn (svn_diff_output hs btn merge_only_conflicts_output_vtable)"
    proof (rule output_writes[where P = "\<lambda>_. True"])
      fix h b fn assume "printer_ok b" "output_fn merge_only_conflicts_output_vtable (diff_type h) = Some fn"
      then show "writes b (fn b h)"
        by (cases "diff_type h") (auto simp: merge_only_conflicts_output_vtable_def output_common_modified_def output_latest_def
            intro: token_range_writes conflict_with_context_writes)
    qed (use that in auto)
    then show ?thesis by (auto simp: writes_def)
  qed
  show ?thesis
  proof (cases "style = Display_only_conflicts")
    case True
    have "printer_ok (make_context_saver btn)" for btn by (simp add: printer_ok_def make_context_saver_def)
    from only[OF this] have "\<exists>out. map_sum id written (svn_diff_output hs (make_context_saver btn) merge_only_conflicts_output_vtable) = Inr out"
      for btn by (metis map_sum.simps(2))
    with True show ?thesis by (simp add: svn_diff_mem_string_output_merge2_def Let_def)
  next
    case False
    from all have "\<exists>out. map_sum id written (merge_output_all hs btn) = Inr out"
      if "output_stream btn = Real_stream" "conflict_style btn = style" for btn
      using that False by (metis map_sum.simps(2) merge_stream.distinct(3) printer_ok_def)
    with False show ?thesis by (simp add: svn_diff_mem_string_output_merge2_def Let_def)
  qed
qed

section \<open>The laws of merging\<close>

lemma three_way_starts: "three_way f0 f1 f2 i j k hs \<Longrightarrow> hunk_starts hs"
proof (induction hs arbitrary: i j k)
  case (Cons h hs)
  then obtain i' j' k' where "three_way f0 f1 f2 i' j' k' hs" "0 \<le> modified_start h" "0 \<le> latest_start h" by auto
  with Cons.IH show ?case by (auto simp: hunk_starts_def)
qed (simp add: hunk_starts_def)

lemma merged_latest:
  "three_way f0 f1 f2 i j k hs \<Longrightarrow> one_side Type_diff_latest hs \<Longrightarrow> merged_lines f1 f2 hs = drop k f2"
proof (induction hs arbitrary: i j k)
  case (Cons h hs)
  from Cons.prems(1)[unfolded three_way.simps] obtain m n p where h: "modified_start h = int j" "modified_length h = int n"
    "latest_start h = int k" "latest_length h = int p" "k + p \<le> length f2" "hunk_ok f0 f1 f2 i j k m n p h"
    "three_way f0 f1 f2 (i + m) (j + n) (k + p) hs" by blast
  have "(if diff_type h = Type_diff_latest then hunk_lines f2 (latest_start h) (latest_length h)
      else hunk_lines f1 (modified_start h) (modified_length h)) = take p (drop k f2)"
    using Cons.prems(2) h(1-4,6) by (auto simp: one_side_simps hunk_ok_def conflict_ok_def hunk_lines_def)
  with Cons.IH[OF h(7)] Cons.prems(2) take_drop_later[OF h(5)] show ?case by (simp add: merged_lines_def one_side_simps)
qed (simp add: merged_lines_def)

lemma merged_modified:
  "three_way f0 f1 f2 i j k hs \<Longrightarrow> one_side t hs \<Longrightarrow> t \<noteq> Type_diff_latest \<Longrightarrow> length m = length f1 \<Longrightarrow> merged_lines m l hs = drop j m"
proof (induction hs arbitrary: i j k)
  case (Cons h hs)
  from Cons.prems(1)[unfolded three_way.simps] obtain u n p where h: "modified_start h = int j" "modified_length h = int n"
    "j + n \<le> length f1" "three_way f0 f1 f2 (i + u) (j + n) (k + p) hs" by blast
  then have "j + n \<le> length m" using Cons.prems(4) by simp
  from Cons.IH[OF h(4)] Cons.prems(2-4) h(1,2) take_drop_later[OF this] show ?case
    by (auto simp: merged_lines_def one_side_simps hunk_lines_def)
qed (simp add: merged_lines_def)

definition nothing_ignored :: diff_file_options where
  "nothing_ignored = \<lparr>ignore_space = Ignore_space_none, ignore_eol_style = False\<rparr>"

text \<open>The merged text, as far as it is displayed.\<close>

definition displayed :: "conflict_display_style \<Rightarrow> cstring \<Rightarrow> cstring" where
  "displayed style merged = (if style = Display_only_conflicts then [] else merged)"

lemma one_side_no_conflict: "one_side t hs \<Longrightarrow> t \<noteq> Type_conflict \<Longrightarrow> \<forall>h \<in> set hs. diff_type h \<noteq> Type_conflict"
  by (auto simp: one_side_def)

lemma merge_to_latest:
  assumes "three_way (text_lines original) (text_lines modified) (text_lines latest) 0 0 0 hs" "one_side Type_diff_latest hs"
  shows "svn_diff_mem_string_output_merge2 (\<lambda>s. Inr (utf8 s)) hs original modified latest co cm cl csep style =
    Inr (displayed style latest)"
  using merge2_result[OF one_side_no_conflict[OF assms(2)] three_way_starts[OF assms(1)]] merged_latest[OF assms] text_lines_concat
  by (simp add: displayed_def)

lemma merge_to_modified:
  assumes "three_way f0 (compared_lines opts modified) f2 0 0 0 hs" "one_side t hs" "t \<noteq> Type_diff_latest" "t \<noteq> Type_conflict"
  shows "svn_diff_mem_string_output_merge2 (\<lambda>s. Inr (utf8 s)) hs original modified latest co cm cl csep style =
    Inr (displayed style modified)"
  using merge2_result[OF one_side_no_conflict[OF assms(2,4)] three_way_starts[OF assms(1)]]
    merged_modified[OF assms(1-3), of "text_lines modified"] text_lines_concat
  by (simp add: compared_lines_def displayed_def)

text \<open>C40. Differences of three texts, and their merge. If the modified text is the original, byte for byte, the merge is
  the latest text; if the latest text is the original, or both have been changed to the same text, the merge is the
  modified text, whatever is ignored in comparisons. This holds for every way to display conflicts, except that where
  only conflicts are displayed nothing is written.\<close>

theorem merge_laws:
  "(\<exists>hs. svn_diff_mem_string_diff3 zlib_adler32 original original latest nothing_ignored = Some (Inr hs) \<and>
      svn_diff_mem_string_output_merge2 (\<lambda>s. Inr (utf8 s)) hs original original latest co cm cl csep style = Inr (displayed style latest)) \<and>
    (\<exists>hs. svn_diff_mem_string_diff3 zlib_adler32 original modified original opts = Some (Inr hs) \<and>
      svn_diff_mem_string_output_merge2 (\<lambda>s. Inr (utf8 s)) hs original modified original co cm cl csep style = Inr (displayed style modified)) \<and>
    (\<exists>hs. svn_diff_mem_string_diff3 zlib_adler32 original modified modified opts = Some (Inr hs) \<and>
      svn_diff_mem_string_output_merge2 (\<lambda>s. Inr (utf8 s)) hs original modified modified co cm cl csep style = Inr (displayed style modified))"
proof -
  have none: "compared_lines nothing_ignored s = text_lines s" for s
    by (simp add: nothing_ignored_def compared_lines_def normalized_nothing)
  show ?thesis
    using mem_string_diff3_result[of zlib_adler32 original original latest nothing_ignored]
      mem_string_diff3_result[of zlib_adler32 original modified original opts]
      mem_string_diff3_result[of zlib_adler32 original modified modified opts]
    by (auto simp: none intro: merge_to_latest merge_to_modified)
qed

text \<open>The output of a merge never fails and never stops, for whatever hunks and texts, and every way to display
  conflicts: the printer of trailing context is never asked for more lines than it has, and no style is unknown where a
  conflict is written.\<close>

theorem merge_output_never_fails:
  "\<exists>out. svn_diff_mem_string_output_merge2 (\<lambda>s. Inr (utf8 s)) hs original modified latest co cm cl csep style = Inr out"
  by (rule merge2_never_fails)

end
