(* ===== verification/Diff_Unified.thy ===== *)
theory Diff_Unified
  imports Diff_Output
begin

text \<open>
  Unified diffs (\<open>libsvn_diff/diff_memory.c\<close>, \<open>util.c\<close>): the callback that collects hunks with their context, and the
  writing of hunks. What is written is the text of a patch, and the patch takes the one text to the other.
\<close>

section \<open>Unified diffs\<close>

datatype unified_output = Output_context | Output_delete | Output_insert | Output_skip

text \<open>\<open>output_baton_t\<close>. The arrays of two have the original first; the stream is the bytes written to it.\<close>

record unified_baton =
  unified_written :: cstring
  unified_sources :: "source_tokens list"
  current_token :: "int list"
  prefix_str :: "cstring list"
  hunk_text :: cstring
  hunk_length :: "int list"
  hunk_start :: "int list"
  hunk_delimiter :: "cstring option"
  no_newline_string :: cstring

definition NO_NEWLINE_AT_END_OF_FILE :: cstring where
  "NO_NEWLINE_AT_END_OF_FILE = [CHR 0x5C] @ '' No newline at end of file''"

definition NO_NEWLINE_AT_END_OF_PROPERTY :: cstring where
  "NO_NEWLINE_AT_END_OF_PROPERTY = [CHR 0x5C] @ '' No newline at end of property''"

fun output_prefix :: "unified_baton \<Rightarrow> unified_output \<Rightarrow> cstring" where
  "output_prefix btn Output_context = prefix_str btn ! 0"
| "output_prefix btn Output_delete = prefix_str btn ! 1"
| "output_prefix btn Output_insert = prefix_str btn ! 2"
| "output_prefix btn Output_skip = []"

fun count_line :: "unified_output \<Rightarrow> int list \<Rightarrow> int list" where
  "count_line Output_context lens = lens[0 := lens ! 0 + 1, 1 := lens ! 1 + 1]"
| "count_line Output_delete lens = lens[0 := lens ! 0 + 1]"
| "count_line Output_insert lens = lens[1 := lens ! 1 + 1]"
| "count_line Output_skip lens = lens"

text \<open>One token of \<open>output_unified_token_range\<close>.\<close>

definition output_unified_token :: "nat \<Rightarrow> unified_output \<Rightarrow> unified_baton \<Rightarrow> unified_baton" where
  "output_unified_token tokens type btn =
    (let token = src_tokens (unified_sources btn ! tokens) ! nat (current_token btn ! tokens)
     in btn\<lparr>hunk_text := (if type \<noteq> Output_skip then hunk_text btn @ output_prefix btn type @ token else hunk_text btn),
            hunk_length := count_line type (hunk_length btn),
            current_token := (current_token btn)[tokens := current_token btn ! tokens + 1]\<rparr>)"

text \<open>The loop ends when the current token, which is below \<open>until\<close>, has reached it.\<close>

definition output_unified_token_range :: "(cstring \<Rightarrow> cstring svn_result) \<Rightarrow> unified_baton \<Rightarrow> nat \<Rightarrow> unified_output \<Rightarrow> int \<Rightarrow>
    unified_baton svn_result" where
  "output_unified_token_range from_utf8 btn tokens type until =
    (let source = unified_sources btn ! tokens;
         until = min until (int (length (src_tokens source)))
     in if until \<le> current_token btn ! tokens then Inr btn
        else
          let btn = (output_unified_token tokens type ^^ nat (until - current_token btn ! tokens)) btn
          in if current_token btn ! tokens = int (length (src_tokens source)) \<and> src_ends_without_eol source
             then svn_try (from_utf8 (no_newline_string btn)) (\<lambda>out_str. Inr (btn\<lparr>hunk_text := hunk_text btn @ out_str\<rparr>))
             else Inr btn)"

definition svn_stream_printf_from_utf8 :: "(cstring \<Rightarrow> cstring svn_result) \<Rightarrow> cstring \<Rightarrow> cstring \<Rightarrow> cstring svn_result" where
  "svn_stream_printf_from_utf8 from_utf8 stream message = svn_try (from_utf8 message) (\<lambda>converted. Inr (stream @ converted))"

text \<open>\<open>svn_diff__unified_write_hunk_header\<close> and \<open>svn_diff__unidiff_write_header\<close>.\<close>

definition unified_write_hunk_header :: "(cstring \<Rightarrow> cstring svn_result) \<Rightarrow> cstring \<Rightarrow> cstring \<Rightarrow> int \<Rightarrow> int \<Rightarrow> int \<Rightarrow> int \<Rightarrow>
    cstring option \<Rightarrow> cstring svn_result" where
  "unified_write_hunk_header from_utf8 stream delimiter old_start old_length new_start new_length extra_context =
    svn_try (svn_stream_printf_from_utf8 from_utf8 stream (delimiter @ '' -'' @ printf_ld old_start)) (\<lambda>stream.
    svn_try (if old_length \<noteq> 1 then svn_stream_printf_from_utf8 from_utf8 stream ('','' @ printf_ld old_length) else Inr stream) (\<lambda>stream.
    svn_try (svn_stream_printf_from_utf8 from_utf8 stream ('' +'' @ printf_ld new_start)) (\<lambda>stream.
    svn_try (if new_length \<noteq> 1 then svn_stream_printf_from_utf8 from_utf8 stream ('','' @ printf_ld new_length) else Inr stream) (\<lambda>stream.
      let extra_context = (case extra_context of None \<Rightarrow> [] | Some s \<Rightarrow> s)
      in svn_stream_printf_from_utf8 from_utf8 stream
           ('' '' @ delimiter @ (if extra_context \<noteq> [] then '' '' else []) @ extra_context @ APR_EOL_STR)))))"

definition unidiff_write_header :: "(cstring \<Rightarrow> cstring svn_result) \<Rightarrow> cstring \<Rightarrow> cstring \<Rightarrow> cstring \<Rightarrow> cstring svn_result" where
  "unidiff_write_header from_utf8 stream old_header new_header =
    svn_stream_printf_from_utf8 from_utf8 stream (''--- '' @ old_header @ APR_EOL_STR @ ''+++ '' @ new_header @ APR_EOL_STR)"

definition output_unified_flush_hunk :: "(cstring \<Rightarrow> cstring svn_result) \<Rightarrow> unified_baton \<Rightarrow> cstring option \<Rightarrow> unified_baton svn_result" where
  "output_unified_flush_hunk from_utf8 btn delimiter =
    (if hunk_text btn = [] then Inr btn
     else svn_try (output_unified_token_range from_utf8 btn 0 Output_context
            (hunk_start btn ! 0 + hunk_length btn ! 0 + int SVN_DIFF_UNIFIED_CONTEXT_SIZE)) (\<lambda>btn.
       let delimiter = (case delimiter of None \<Rightarrow> ''@@'' | Some d \<Rightarrow> d);
           old_start = (if hunk_length btn ! 0 \<noteq> 0 then hunk_start btn ! 0 + 1 else hunk_start btn ! 0);
           new_start = (if hunk_length btn ! 1 \<noteq> 0 then hunk_start btn ! 1 + 1 else hunk_start btn ! 1)
       in svn_try (unified_write_hunk_header from_utf8 (unified_written btn) delimiter old_start (hunk_length btn ! 0)
            new_start (hunk_length btn ! 1) None) (\<lambda>stream.
            Inr (btn\<lparr>unified_written := stream @ hunk_text btn, hunk_length := [0, 0], hunk_start := [0, 0], hunk_text := []\<rparr>))))"

definition output_unified_diff_modified :: "(cstring \<Rightarrow> cstring svn_result) \<Rightarrow> unified_baton \<Rightarrow> svn_diff \<Rightarrow> unified_baton svn_result" where
  "output_unified_diff_modified from_utf8 btn diff =
    (let ostart = original_start diff;
         context_prefix_length = (if ostart > int SVN_DIFF_UNIFIED_CONTEXT_SIZE then int SVN_DIFF_UNIFIED_CONTEXT_SIZE else ostart);
         pending = (hunk_length btn ! 0 > 0 \<or> hunk_length btn ! 1 > 0);
         prev_context_end = (if pending then hunk_start btn ! 0 + hunk_length btn ! 0 + int SVN_DIFF_UNIFIED_CONTEXT_SIZE else - 1);
         init_hunk = (\<not> pending \<and> hunk_start btn ! 0 = 0 \<and> (original_length diff > 0 \<or> modified_length diff > 0));
         new_hunk_start = ostart - context_prefix_length
     in svn_try (if current_token btn ! 0 < new_hunk_start \<and> prev_context_end \<le> new_hunk_start then
                   svn_try (output_unified_flush_hunk from_utf8 btn (hunk_delimiter btn)) (\<lambda>btn. Inr (btn, True))
                 else if pending then
                   svn_try (output_unified_token_range from_utf8 btn 0 Output_context ostart) (\<lambda>btn. Inr (btn, init_hunk))
                 else Inr (btn, init_hunk)) (\<lambda>(btn, init_hunk).
        svn_try (output_unified_token_range from_utf8 btn 0 Output_skip new_hunk_start) (\<lambda>btn.
        svn_try (if init_hunk then
                   svn_try (svn_assert (hunk_length btn ! 0 = 0 \<and> hunk_length btn ! 1 = 0)) (\<lambda>_.
                     Inr (btn\<lparr>hunk_start := [new_hunk_start, modified_start diff - context_prefix_length]\<rparr>))
                 else Inr btn) (\<lambda>btn.
        svn_try (output_unified_token_range from_utf8 btn 1 Output_skip (modified_start diff)) (\<lambda>btn.
        svn_try (output_unified_token_range from_utf8 btn 0 Output_context ostart) (\<lambda>btn.
        svn_try (output_unified_token_range from_utf8 btn 0 Output_delete (ostart + original_length diff)) (\<lambda>btn.
          output_unified_token_range from_utf8 btn 1 Output_insert (modified_start diff + modified_length diff))))))))"

definition mem_output_unified_vtable :: "(cstring \<Rightarrow> cstring svn_result) \<Rightarrow> unified_baton diff_output_fns" where
  "mem_output_unified_vtable from_utf8 =
    \<lparr>output_common = None, output_diff_modified = Some (output_unified_diff_modified from_utf8),
     output_diff_latest = None, output_diff_common = None, output_conflict = None\<rparr>"

text \<open>The conversion to the encoding of the headers is an argument; the result is what is written to the stream.\<close>

definition svn_diff_mem_string_output_unified2 :: "(cstring \<Rightarrow> cstring svn_result) \<Rightarrow> svn_diff list \<Rightarrow> bool \<Rightarrow> cstring option \<Rightarrow>
    cstring \<Rightarrow> cstring \<Rightarrow> cstring \<Rightarrow> cstring \<Rightarrow> cstring svn_result" where
  "svn_diff_mem_string_output_unified2 from_utf8 diff with_diff_header delimiter original_header modified_header original modified =
    (if svn_diff_contains_diffs diff then
       let no_newline = (if delimiter \<noteq> Some ''##''
             then APR_EOL_STR @ NO_NEWLINE_AT_END_OF_FILE @ APR_EOL_STR
             else APR_EOL_STR @ NO_NEWLINE_AT_END_OF_PROPERTY @ APR_EOL_STR)
       in svn_try (from_utf8 '' '') (\<lambda>context.
          svn_try (from_utf8 ''-'') (\<lambda>delete.
          svn_try (from_utf8 ''+'') (\<lambda>insert.
          svn_try (if with_diff_header then unidiff_write_header from_utf8 [] original_header modified_header else Inr []) (\<lambda>stream.
            let btn = \<lparr>unified_written = stream, unified_sources = [fill_source_tokens original, fill_source_tokens modified],
                  current_token = [0, 0], prefix_str = [context, delete, insert], hunk_text = [], hunk_length = [0, 0],
                  hunk_start = [0, 0], hunk_delimiter = delimiter, no_newline_string = no_newline\<rparr>
            in svn_try (svn_diff_output diff btn (mem_output_unified_vtable from_utf8)) (\<lambda>btn.
               svn_try (output_unified_flush_hunk from_utf8 btn delimiter) (\<lambda>btn. Inr (unified_written btn)))))))
     else Inr [])"

definition svn_diff_mem_string_output_unified :: "(cstring \<Rightarrow> cstring svn_result) \<Rightarrow> svn_diff list \<Rightarrow> cstring \<Rightarrow> cstring \<Rightarrow> cstring \<Rightarrow> cstring \<Rightarrow>
    cstring svn_result" where
  "svn_diff_mem_string_output_unified from_utf8 diff original_header modified_header original modified =
    svn_diff_mem_string_output_unified2 from_utf8 diff True None original_header modified_header original modified"

section \<open>Patches\<close>

text \<open>What a unified diff is read as: hunks of lines that are kept, removed and added, with their positions in the old and
  the new file, counted from 0. A patch is applied to the lines that follow position \<open>i\<close> of the old file, of which the
  new file has \<open>j\<close> already; it fails if a line is not the one it names or the positions do not agree.\<close>

datatype 'a patch_line = Keep 'a | Remove 'a | Add 'a

record 'a patch_hunk =
  old_position :: nat
  new_position :: nat
  patch_lines :: "'a patch_line list"

fun old_lines :: "'a patch_line list \<Rightarrow> 'a list" where
  "old_lines [] = []"
| "old_lines (Keep l # ls) = l # old_lines ls"
| "old_lines (Remove l # ls) = l # old_lines ls"
| "old_lines (Add l # ls) = old_lines ls"

fun new_lines :: "'a patch_line list \<Rightarrow> 'a list" where
  "new_lines [] = []"
| "new_lines (Keep l # ls) = l # new_lines ls"
| "new_lines (Remove l # ls) = new_lines ls"
| "new_lines (Add l # ls) = l # new_lines ls"

fun apply_patch :: "'a patch_hunk list \<Rightarrow> nat \<Rightarrow> nat \<Rightarrow> 'a list \<Rightarrow> 'a list option" where
  "apply_patch [] i j lines = Some lines"
| "apply_patch (h # hs) i j lines =
    (let skipped = old_position h - i; old = old_lines (patch_lines h); new = new_lines (patch_lines h)
     in if i \<le> old_position h \<and> new_position h = j + skipped \<and> take (length old) (drop skipped lines) = old
        then map_option (\<lambda>rest. take skipped lines @ new @ rest)
               (apply_patch hs (old_position h + length old) (new_position h + length new) (drop (skipped + length old) lines))
        else None)"

lemma old_lines_append [simp]: "old_lines (ls @ ls') = old_lines ls @ old_lines ls'"
  by (induction ls rule: old_lines.induct) auto

lemma new_lines_append [simp]: "new_lines (ls @ ls') = new_lines ls @ new_lines ls'"
  by (induction ls rule: new_lines.induct) auto

lemma old_lines_map [simp]: "old_lines (map Keep ls) = ls" "old_lines (map Remove ls) = ls" "old_lines (map Add ls) = []"
  by (induction ls) auto

lemma new_lines_map [simp]: "new_lines (map Keep ls) = ls" "new_lines (map Remove ls) = []" "new_lines (map Add ls) = ls"
  by (induction ls) auto

text \<open>Lines in common from \<open>(i, j)\<close> to \<open>(a, b)\<close>; the lines of a hunk; a list of hunks from one position to another.\<close>

definition common_gap :: "'a list \<Rightarrow> 'a list \<Rightarrow> nat \<Rightarrow> nat \<Rightarrow> nat \<Rightarrow> nat \<Rightarrow> bool" where
  "common_gap F G i j a b \<longleftrightarrow> i \<le> a \<and> j \<le> b \<and> a + j = b + i \<and> a \<le> length F \<and> b \<le> length G \<and>
    (\<forall>d < a - i. F ! (i + d) = G ! (j + d))"

definition body_ok :: "'a list \<Rightarrow> 'a list \<Rightarrow> nat \<Rightarrow> nat \<Rightarrow> 'a patch_line list \<Rightarrow> nat \<Rightarrow> nat \<Rightarrow> bool" where
  "body_ok F G a b body e f \<longleftrightarrow> a \<le> e \<and> b \<le> f \<and> e \<le> length F \<and> f \<le> length G \<and>
    old_lines body = take (e - a) (drop a F) \<and> new_lines body = take (f - b) (drop b G)"

fun patch_ok :: "'a list \<Rightarrow> 'a list \<Rightarrow> nat \<Rightarrow> nat \<Rightarrow> 'a patch_hunk list \<Rightarrow> nat \<Rightarrow> nat \<Rightarrow> bool" where
  "patch_ok F G i j [] e f \<longleftrightarrow> e = i \<and> f = j"
| "patch_ok F G i j (h # hs) e f \<longleftrightarrow> common_gap F G i j (old_position h) (new_position h) \<and>
    (\<exists>e' f'. body_ok F G (old_position h) (new_position h) (patch_lines h) e' f' \<and> patch_ok F G e' f' hs e f)"

lemma patch_ok_append: "patch_ok F G i j (hs @ hs') e f \<longleftrightarrow> (\<exists>e' f'. patch_ok F G i j hs e' f' \<and> patch_ok F G e' f' hs' e f)"
  by (induction hs arbitrary: i j) auto

lemma common_gap_refl: "i \<le> length F \<Longrightarrow> j \<le> length G \<Longrightarrow> common_gap F G i j i j"
  by (auto simp: common_gap_def)

lemma common_gap_trans: "common_gap F G i j a b \<Longrightarrow> common_gap F G a b a' b' \<Longrightarrow> common_gap F G i j a' b'"
  unfolding common_gap_def
proof (elim conjE, intro conjI allI impI, goal_cases)
  case (6 d)
  show ?case
  proof (cases "d < a - i")
    case False
    have all: "\<forall>d < a' - a. F ! (a + d) = G ! (b + d)" and "d - (a - i) < a' - a" using False 6 by auto
    then have "F ! (a + (d - (a - i))) = G ! (b + (d - (a - i)))" by blast
    moreover have "a + (d - (a - i)) = i + d" "b + (d - (a - i)) = j + d" using False 6 by auto
    ultimately show ?thesis by metis
  qed (use 6 in simp)
qed auto

lemma common_gap_part: "common_gap F G i j a b \<Longrightarrow> i \<le> i' \<Longrightarrow> i' \<le> a' \<Longrightarrow> a' \<le> a \<Longrightarrow> common_gap F G i' (j + (i' - i)) a' (j + (a' - i))"
  unfolding common_gap_def
proof (elim conjE, intro conjI allI impI, goal_cases)
  case (6 d)
  then have all: "\<forall>d < a - i. F ! (i + d) = G ! (j + d)" and "i' - i + d < a - i" by auto
  then have "F ! (i + (i' - i + d)) = G ! (j + (i' - i + d))" by blast
  moreover have "i + (i' - i + d) = i' + d" "j + (i' - i + d) = j + (i' - i) + d" using 6 by auto
  ultimately show ?case by metis
qed auto

lemma common_gap_lines: "common_gap F G i j a b \<Longrightarrow> take (a - i) (drop i F) = take (b - j) (drop j G)"
  unfolding common_gap_def by (intro nth_equalityI) auto

lemma take_drop_join: "a \<le> b \<Longrightarrow> b \<le> c \<Longrightarrow> take (b - a) (drop a F) @ take (c - b) (drop b F) = take (c - a) (drop a F)"
  by (metis (no_types, lifting) Nat.add_diff_assoc2 add_diff_cancel_left' drop_drop le_Suc_ex le_add_diff_inverse2 take_add)

lemma body_ok_keep: "body_ok F G a b body e f \<Longrightarrow> common_gap F G e f e' f' \<Longrightarrow>
    body_ok F G a b (body @ map Keep (take (e' - e) (drop e F))) e' f'"
  using common_gap_lines[of F G e f e' f'] take_drop_join[of a e e' F] take_drop_join[of b f f' G]
  by (auto simp: body_ok_def common_gap_def)

lemma body_ok_change: "body_ok F G a b body e f \<Longrightarrow> e \<le> e' \<Longrightarrow> e' \<le> length F \<Longrightarrow> f \<le> f' \<Longrightarrow> f' \<le> length G \<Longrightarrow>
    body_ok F G a b (body @ map Remove (take (e' - e) (drop e F)) @ map Add (take (f' - f) (drop f G))) e' f'"
  using take_drop_join[of a e e' F] take_drop_join[of b f f' G] by (auto simp: body_ok_def)

lemma patch_ok_apply:
  "patch_ok F G i j us e f \<Longrightarrow> common_gap F G e f (length F) (length G) \<Longrightarrow> i \<le> length F \<Longrightarrow> j \<le> length G \<Longrightarrow>
    apply_patch us i j (drop i F) = Some (drop j G)"
proof (induction us arbitrary: i j)
  case Nil
  then show ?case using common_gap_lines[of F G i j "length F" "length G"] by simp
next
  case (Cons u us)
  from Cons.prems(1) obtain e' f' where u: "common_gap F G i j (old_position u) (new_position u)"
    "body_ok F G (old_position u) (new_position u) (patch_lines u) e' f'" "patch_ok F G e' f' us e f" by auto
  let ?a = "old_position u" and ?b = "new_position u"
  have gap: "i \<le> ?a" "?b = j + (?a - i)" "take (?a - i) (drop i F) = take (?b - j) (drop j G)" "j \<le> ?b"
    using u(1) common_gap_lines[OF u(1)] by (auto simp: common_gap_def)
  have body: "old_lines (patch_lines u) = take (e' - ?a) (drop ?a F)" "new_lines (patch_lines u) = take (f' - ?b) (drop ?b G)"
    "length (old_lines (patch_lines u)) = e' - ?a" "length (new_lines (patch_lines u)) = f' - ?b" "?a \<le> e'" "?b \<le> f'" "e' \<le> length F" "f' \<le> length G"
    using u(2) by (auto simp: body_ok_def)
  have "drop (?a - i + (e' - ?a)) (drop i F) = drop e' F" using gap(1) body(5) by (simp add: add.commute)
  moreover have "take (?b - j) (drop j G) @ take (f' - ?b) (drop ?b G) @ drop f' G = drop j G"
    using gap(4) body(6,8) by (metis append_assoc append_take_drop_id drop_drop le_add_diff_inverse2 take_drop_join le_trans)
  moreover have "apply_patch us e' f' (drop e' F) = Some (drop f' G)" using u(3) Cons.prems(2) body(7,8) by (intro Cons.IH)
  ultimately show ?case using gap body by (simp add: Let_def)
qed

section \<open>Ends of lines\<close>

definition has_eol :: "cstring \<Rightarrow> bool" where
  "has_eol l \<longleftrightarrow> l \<noteq> [] \<and> (last l = carriage_return \<or> last l = newline)"

text \<open>Every line ends with a line end, except that the last one may not; \<open>ends_without_eol\<close> tells.\<close>

definition lines_ended :: "cstring list \<Rightarrow> bool \<Rightarrow> bool" where
  "lines_ended ts without_eol \<longleftrightarrow> (\<forall>i. Suc i < length ts \<longrightarrow> has_eol (ts ! i)) \<and>
    (if without_eol then ts \<noteq> [] \<and> \<not> has_eol (last ts) else \<forall>l \<in> set ts. has_eol l)"

lemma fill_tokens_ended:
  "\<forall>l \<in> set tokens. has_eol l \<Longrightarrow> carriage_return \<notin> set line \<Longrightarrow> newline \<notin> set line \<Longrightarrow>
    lines_ended (fst (fill_tokens inp line tokens)) (snd (fill_tokens inp line tokens))"
proof (induction inp line tokens rule: fill_tokens.induct)
  case (1 line tokens)
  then have "\<not> has_eol line" by (metis has_eol_def last_in_set)
  with 1 show ?case by (auto simp: lines_ended_def nth_append)
next
  case (2 c inp line tokens)
  have ended: "has_eol (line @ [c, newline])" "c = carriage_return \<or> c = newline \<Longrightarrow> has_eol (line @ [c])" by (auto simp: has_eol_def)
  consider (crlf) "c = carriage_return \<and> inp \<noteq> [] \<and> hd inp = newline" | (eol) "\<not> (c = carriage_return \<and> inp \<noteq> [] \<and> hd inp = newline)" "c = carriage_return \<or> c = newline"
    | (other) "c \<noteq> carriage_return" "c \<noteq> newline" by blast
  then show ?case
  proof cases
    case crlf
    with ended 2(4) show ?thesis unfolding fill_tokens.simps if_P[OF crlf] by (intro 2(1)) auto
  next
    case eol
    with ended 2(4) show ?thesis unfolding fill_tokens.simps if_not_P[OF eol(1)] if_P[OF eol(2)] by (intro 2(2)) auto
  next
    case other
    with 2(4-6) show ?thesis unfolding fill_tokens.simps by (simp add: 2(3))
  qed
qed

lemma source_lines: "src_tokens (fill_source_tokens s) = text_lines s"
  by (simp add: text_lines_def)

lemma text_lines_ended: "lines_ended (text_lines s) (src_ends_without_eol (fill_source_tokens s))"
  using fill_tokens_ended[of "[]" "[]" s] by (auto simp: text_lines_def fill_source_tokens_def split: prod.splits)

lemma text_lines_nonempty: "[] \<notin> set (text_lines s)"
  using fill_tokens_nonempty[of "[]" s "[]"] by (auto simp: text_lines_def fill_source_tokens_def split: prod.splits)

lemma ended_range:
  assumes "lines_ended T w" "0 < n" "c + n \<le> length T"
  shows "concat (map (\<lambda>l. p @ l) (take n (drop c T))) @ (if c + n = length T \<and> w then u else []) =
    concat (map (\<lambda>l. p @ l @ (if has_eol l then [] else u)) (take n (drop c T)))"
proof -
  from assms(2) obtain m where n: "n = Suc m" by (cases n) auto
  have lines: "take n (drop c T) = take m (drop c T) @ [T ! (c + m)]" using assms(3) n by (simp add: take_Suc_conv_app_nth)
  have "has_eol l" if "l \<in> set (take m (drop c T))" for l
  proof -
    from that obtain i where "i < m" "l = T ! (c + i)" using assms(3) n by (auto simp: in_set_conv_nth)
    then show ?thesis using assms(1,3) n by (auto simp: lines_ended_def)
  qed
  then have "concat (map (\<lambda>l. p @ l) (take m (drop c T))) = concat (map (\<lambda>l. p @ l @ (if has_eol l then [] else u)) (take m (drop c T)))"
    by (auto intro!: arg_cong[where f = concat])
  moreover have "has_eol (T ! (c + m)) \<longleftrightarrow> \<not> (c + n = length T \<and> w)"
  proof (cases "c + n = length T")
    case True
    then have "T \<noteq> []" "length T - 1 = c + m" using n by auto
    then have "T ! (c + m) = last T" "T \<noteq> []" by (simp_all add: last_conv_nth)
    with assms(1) True show ?thesis by (auto simp: lines_ended_def)
  next
    case False
    with assms n show ?thesis by (auto simp: lines_ended_def)
  qed
  ultimately show ?thesis by (simp add: lines)
qed

section \<open>Ranges of tokens\<close>

lemma output_prefix_update: "output_prefix (btn\<lparr>hunk_text := x, hunk_length := y, current_token := z\<rparr>) type = output_prefix btn type"
  by (cases type) auto

lemma count_lines:
  "(count_line Output_context ^^ n) [x, y] = [x + int n, y + int n]" "(count_line Output_delete ^^ n) [x, y] = [x + int n, y]"
  "(count_line Output_insert ^^ n) [x, y] = [x, y + int n]" "(count_line Output_skip ^^ n) [x, y] = [x, y]"
  by (induction n) auto

lemma unified_tokens:
  assumes "current_token btn ! t = int c" "t < length (current_token btn)"
  shows "c + n \<le> length (src_tokens (unified_sources btn ! t)) \<Longrightarrow> (output_unified_token t type ^^ n) btn =
    btn\<lparr>hunk_text := hunk_text btn @ (if type = Output_skip then []
          else concat (map (\<lambda>l. output_prefix btn type @ l) (take n (drop c (src_tokens (unified_sources btn ! t)))))),
        hunk_length := (count_line type ^^ n) (hunk_length btn), current_token := (current_token btn)[t := int (c + n)]\<rparr>"
proof (induction n)
  case 0
  have "(current_token btn)[t := int c] = current_token btn" using assms by (metis list_update_id)
  then show ?case by simp
next
  case (Suc n)
  let ?T = "src_tokens (unified_sources btn ! t)"
  have lines: "take (Suc n) (drop c ?T) = take n (drop c ?T) @ [?T ! (c + n)]" using Suc.prems by (simp add: take_Suc_conv_app_nth)
  have IH: "(output_unified_token t type ^^ Suc n) btn = output_unified_token t type (btn\<lparr>hunk_text := hunk_text btn @ (if type = Output_skip then []
          else concat (map (\<lambda>l. output_prefix btn type @ l) (take n (drop c ?T)))),
        hunk_length := (count_line type ^^ n) (hunk_length btn), current_token := (current_token btn)[t := int (c + n)]\<rparr>)"
    using Suc by simp
  show ?case using assms unfolding IH lines by (simp add: output_unified_token_def Let_def output_prefix_update nat_int_add algebra_simps)
qed

lemma token_range_output:
  assumes "current_token btn ! t = int c" "t < length (current_token btn)" "unified_sources btn ! t = fill_source_tokens s" "c \<le> length (text_lines s)"
    and "type = Output_skip \<Longrightarrow> c < u \<Longrightarrow> length (text_lines s) \<le> u \<Longrightarrow> \<not> src_ends_without_eol (fill_source_tokens s)"
  defines "n \<equiv> min u (length (text_lines s)) - c"
  shows "output_unified_token_range (\<lambda>s. Inr (utf8 s)) btn t type (int u) = Inr (btn
    \<lparr>hunk_text := hunk_text btn @ (if type = Output_skip then []
          else concat (map (\<lambda>l. output_prefix btn type @ l @ (if has_eol l then [] else utf8 (no_newline_string btn))) (take n (drop c (text_lines s))))),
     hunk_length := (count_line type ^^ n) (hunk_length btn), current_token := (current_token btn)[t := int (c + n)]\<rparr>)"
proof (cases "n = 0")
  case True
  have "(current_token btn)[t := int c] = current_token btn" using assms by (metis list_update_id)
  with True assms show ?thesis by (auto simp: output_unified_token_range_def Let_def source_lines)
next
  case False
  have n: "min (int u) (int (length (text_lines s))) = int (c + n)" "c + n \<le> length (text_lines s)" "0 < n" using False by (auto simp: n_def)
  note ended_range[OF text_lines_ended n(3,2), of "output_prefix btn type" "utf8 (no_newline_string btn)"]
  moreover have "type = Output_skip \<Longrightarrow> \<not> (c + n = length (text_lines s) \<and> src_ends_without_eol (fill_source_tokens s))"
    using assms(5) n(3) by (auto simp: n_def)
  ultimately show ?thesis
    using n(2,3) assms(1-3) unified_tokens[OF assms(1,2), of n type]
    by (auto simp: output_unified_token_range_def Let_def source_lines n(1))
qed

section \<open>The text of a patch\<close>

fun render_line :: "(cstring \<Rightarrow> cstring) \<Rightarrow> cstring \<Rightarrow> cstring patch_line \<Rightarrow> cstring" where
  "render_line utf8 no_newline (Keep l) = utf8 '' '' @ l @ (if has_eol l then [] else utf8 no_newline)"
| "render_line utf8 no_newline (Remove l) = utf8 ''-'' @ l @ (if has_eol l then [] else utf8 no_newline)"
| "render_line utf8 no_newline (Add l) = utf8 ''+'' @ l @ (if has_eol l then [] else utf8 no_newline)"

definition render_header :: "(cstring \<Rightarrow> cstring) \<Rightarrow> cstring option \<Rightarrow> nat \<Rightarrow> nat \<Rightarrow> nat \<Rightarrow> nat \<Rightarrow> cstring" where
  "render_header utf8 delimiter old_start old_length new_start new_length =
    (let delimiter = (case delimiter of None \<Rightarrow> ''@@'' | Some d \<Rightarrow> d)
     in utf8 (delimiter @ '' -'' @ printf_ld (int old_start)) @ (if old_length \<noteq> 1 then utf8 ('','' @ printf_ld (int old_length)) else []) @
        utf8 ('' +'' @ printf_ld (int new_start)) @ (if new_length \<noteq> 1 then utf8 ('','' @ printf_ld (int new_length)) else []) @
        utf8 ('' '' @ delimiter @ APR_EOL_STR))"

text \<open>Positions count from 1 in the header, except in an empty file.\<close>

definition render_hunk :: "(cstring \<Rightarrow> cstring) \<Rightarrow> cstring option \<Rightarrow> cstring \<Rightarrow> cstring patch_hunk \<Rightarrow> cstring" where
  "render_hunk utf8 delimiter no_newline h =
    (let old_length = length (old_lines (patch_lines h)); new_length = length (new_lines (patch_lines h))
     in render_header utf8 delimiter (if old_length \<noteq> 0 then old_position h + 1 else old_position h) old_length
          (if new_length \<noteq> 0 then new_position h + 1 else new_position h) new_length @
        concat (map (render_line utf8 no_newline) (patch_lines h)))"

text \<open>The state between two callbacks: the current tokens are \<open>c0\<close> and \<open>c1\<close>, the hunk in progress has the lines \<open>body\<close>
  and begins at \<open>a\<close> and \<open>b\<close>.\<close>

definition unified_state :: "(cstring \<Rightarrow> cstring) \<Rightarrow> cstring option \<Rightarrow> cstring \<Rightarrow> cstring \<Rightarrow> cstring \<Rightarrow> cstring \<Rightarrow> nat \<Rightarrow> nat \<Rightarrow>
    cstring patch_line list \<Rightarrow> nat \<Rightarrow> nat \<Rightarrow> unified_baton" where
  "unified_state utf8 delimiter no_newline old new out c0 c1 body a b =
    \<lparr>unified_written = out, unified_sources = [fill_source_tokens old, fill_source_tokens new], current_token = [int c0, int c1],
     prefix_str = [utf8 '' '', utf8 ''-'', utf8 ''+''], hunk_text = concat (map (render_line utf8 no_newline) body),
     hunk_length = [int (length (old_lines body)), int (length (new_lines body))], hunk_start = [int a, int b],
     hunk_delimiter = delimiter, no_newline_string = no_newline\<rparr>"

lemma unified_state_sel:
  "unified_written (unified_state utf8 dl nl old new out c0 c1 body a b) = out"
  "unified_sources (unified_state utf8 dl nl old new out c0 c1 body a b) = [fill_source_tokens old, fill_source_tokens new]"
  "current_token (unified_state utf8 dl nl old new out c0 c1 body a b) = [int c0, int c1]"
  "prefix_str (unified_state utf8 dl nl old new out c0 c1 body a b) = [utf8 '' '', utf8 ''-'', utf8 ''+'']"
  "hunk_text (unified_state utf8 dl nl old new out c0 c1 body a b) = concat (map (render_line utf8 nl) body)"
  "hunk_length (unified_state utf8 dl nl old new out c0 c1 body a b) = [int (length (old_lines body)), int (length (new_lines body))]"
  "hunk_start (unified_state utf8 dl nl old new out c0 c1 body a b) = [int a, int b]"
  "hunk_delimiter (unified_state utf8 dl nl old new out c0 c1 body a b) = dl"
  "no_newline_string (unified_state utf8 dl nl old new out c0 c1 body a b) = nl"
  by (simp_all add: unified_state_def)

lemma unified_keep:
  assumes "c0 \<le> length (text_lines old)"
    and k: "k = min u (length (text_lines old)) - c0"
  shows "output_unified_token_range (\<lambda>s. Inr (utf8 s)) (unified_state utf8 dl nl old new out c0 c1 body a b) 0 Output_context (int u) =
    Inr (unified_state utf8 dl nl old new out (c0 + k) c1 (body @ map Keep (take k (drop c0 (text_lines old)))) a b)"
proof -
  have "k \<le> length (text_lines old) - c0" by (simp add: k)
  then show ?thesis
    using token_range_output[of "unified_state utf8 dl nl old new out c0 c1 body a b" 0 c0 old Output_context u utf8] assms(1)
    by (simp add: unified_state_sel count_lines min_absorb1 comp_def k[symmetric]) (simp add: unified_state_def comp_def min_absorb1 cong: if_cong)
qed

lemma unified_remove:
  assumes "c0 \<le> length (text_lines old)"
    and k: "k = min u (length (text_lines old)) - c0"
  shows "output_unified_token_range (\<lambda>s. Inr (utf8 s)) (unified_state utf8 dl nl old new out c0 c1 body a b) 0 Output_delete (int u) =
    Inr (unified_state utf8 dl nl old new out (c0 + k) c1 (body @ map Remove (take k (drop c0 (text_lines old)))) a b)"
proof -
  have "k \<le> length (text_lines old) - c0" by (simp add: k)
  then show ?thesis
    using token_range_output[of "unified_state utf8 dl nl old new out c0 c1 body a b" 0 c0 old Output_delete u utf8] assms(1)
    by (simp add: unified_state_sel count_lines min_absorb1 comp_def k[symmetric]) (simp add: unified_state_def comp_def min_absorb1 cong: if_cong)
qed

lemma unified_add:
  assumes "c1 \<le> length (text_lines new)"
    and k: "k = min u (length (text_lines new)) - c1"
  shows "output_unified_token_range (\<lambda>s. Inr (utf8 s)) (unified_state utf8 dl nl old new out c0 c1 body a b) 1 Output_insert (int u) =
    Inr (unified_state utf8 dl nl old new out c0 (c1 + k) (body @ map Add (take k (drop c1 (text_lines new)))) a b)"
proof -
  have "k \<le> length (text_lines new) - c1" by (simp add: k)
  then show ?thesis
    using token_range_output[of "unified_state utf8 dl nl old new out c0 c1 body a b" 1 c1 new Output_insert u utf8] assms(1)
    by (simp add: unified_state_sel count_lines min_absorb1 comp_def k[symmetric]) (simp add: unified_state_def comp_def min_absorb1 cong: if_cong)
qed

lemma unified_skip_old:
  assumes "c0 \<le> u" "c0 < u \<Longrightarrow> u < length (text_lines old)" "u \<le> length (text_lines old)"
  shows "output_unified_token_range (\<lambda>s. Inr (utf8 s)) (unified_state utf8 dl nl old new out c0 c1 body a b) 0 Output_skip (int u) =
    Inr (unified_state utf8 dl nl old new out u c1 body a b)"
  using token_range_output[of "unified_state utf8 dl nl old new out c0 c1 body a b" 0 c0 old Output_skip u utf8] assms
  by (simp add: unified_state_sel count_lines min_absorb1) (auto simp: unified_state_def)

lemma unified_skip_new:
  assumes "c1 \<le> u" "c1 < u \<Longrightarrow> u < length (text_lines new) \<or> \<not> src_ends_without_eol (fill_source_tokens new)" "u \<le> length (text_lines new)"
  shows "output_unified_token_range (\<lambda>s. Inr (utf8 s)) (unified_state utf8 dl nl old new out c0 c1 body a b) 1 Output_skip (int u) =
    Inr (unified_state utf8 dl nl old new out c0 u body a b)"
  using token_range_output[of "unified_state utf8 dl nl old new out c0 c1 body a b" 1 c1 new Output_skip u utf8] assms
  by (simp add: unified_state_sel count_lines min_absorb1) (auto simp: unified_state_def)

lemma unified_write_hunk_header:
  "unified_write_hunk_header (\<lambda>s. Inr (utf8 s)) stream (case delimiter of None \<Rightarrow> ''@@'' | Some d \<Rightarrow> d) (int os) (int ol) (int ns) (int nl) None =
    Inr (stream @ render_header utf8 delimiter os ol ns nl)"
  by (simp add: unified_write_hunk_header_def svn_stream_printf_from_utf8_def render_header_def Let_def)

lemma render_nonempty:
  assumes "body_ok F G a b body e f" "[] \<notin> set F" "[] \<notin> set G"
  shows "concat (map (render_line utf8 nl) body) = [] \<longleftrightarrow> body = []"
proof (cases body)
  case (Cons x ls)
  have "set (old_lines body) \<subseteq> set F" "set (new_lines body) \<subseteq> set G"
    using assms(1) by (auto simp: body_ok_def dest!: in_set_takeD in_set_dropD)
  with assms(2,3) Cons show ?thesis by (cases x) auto
qed simp

lemma unified_flush:
  assumes "body \<noteq> []" "concat (map (render_line utf8 nl) body) \<noteq> []" "a + length (old_lines body) = c0" "c0 \<le> length (text_lines old)"
    and k: "k = min (c0 + 3) (length (text_lines old)) - c0"
  shows "output_unified_flush_hunk (\<lambda>s. Inr (utf8 s)) (unified_state utf8 dl nl old new out c0 c1 body a b) dl =
    Inr (unified_state utf8 dl nl old new (out @ render_hunk utf8 dl nl
      \<lparr>old_position = a, new_position = b, patch_lines = body @ map Keep (take k (drop c0 (text_lines old)))\<rparr>) (c0 + k) c1 [] 0 0)"
proof -
  let ?body = "body @ map Keep (take k (drop c0 (text_lines old)))"
  have target: "int a + int (length (old_lines body)) + int SVN_DIFF_UNIFIED_CONTEXT_SIZE = int (c0 + 3)"
    using assms(3) by (simp add: SVN_DIFF_UNIFIED_CONTEXT_SIZE_def)
  note keep = unified_keep[OF assms(4) k, of utf8 dl nl new out c1 body a b]
  have starts: "(if int l \<noteq> 0 then int p + 1 else int p) = int (if l \<noteq> 0 then p + 1 else p)" for l p by simp
  show ?thesis
    unfolding output_unified_flush_hunk_def unified_state_sel nth_Cons_0 if_not_P[OF assms(2)] target keep svn_try.simps Let_def
      One_nat_def nth_Cons_Suc starts unified_write_hunk_header
    by (auto simp: unified_state_def render_hunk_def Let_def)
qed

lemma unified_flush_nothing:
  "output_unified_flush_hunk (\<lambda>s. Inr (utf8 s)) (unified_state utf8 dl nl old new out c0 c1 [] a b) dl =
    Inr (unified_state utf8 dl nl old new out c0 c1 [] a b)"
  by (simp add: output_unified_flush_hunk_def unified_state_sel)

text \<open>The end of a callback: the context before the changed range, and the range.\<close>

definition changed_lines :: "cstring list \<Rightarrow> cstring list \<Rightarrow> nat \<Rightarrow> nat \<Rightarrow> nat \<Rightarrow> nat \<Rightarrow> nat \<Rightarrow> cstring patch_line list" where
  "changed_lines F G s i j m n = map Keep (take (i - s) (drop s F)) @ map Remove (take m (drop i F)) @ map Add (take n (drop j G))"

lemma unified_change:
  assumes "s \<le> i" "c1 \<le> j" "i + m \<le> length (text_lines old)" "j + n \<le> length (text_lines new)"
    and "c1 < j \<Longrightarrow> j < length (text_lines new) \<or> \<not> src_ends_without_eol (fill_source_tokens new)"
  shows "svn_try (output_unified_token_range (\<lambda>s. Inr (utf8 s)) (unified_state utf8 dl nl old new out s c1 body a b) 1 Output_skip (int j)) (\<lambda>btn.
      svn_try (output_unified_token_range (\<lambda>s. Inr (utf8 s)) btn 0 Output_context (int i)) (\<lambda>btn.
      svn_try (output_unified_token_range (\<lambda>s. Inr (utf8 s)) btn 0 Output_delete (int i + int m)) (\<lambda>btn.
        output_unified_token_range (\<lambda>s. Inr (utf8 s)) btn 1 Output_insert (int j + int n)))) =
    Inr (unified_state utf8 dl nl old new out (i + m) (j + n) (body @ changed_lines (text_lines old) (text_lines new) s i j m n) a b)"
proof -
  have skip: "output_unified_token_range (\<lambda>s. Inr (utf8 s)) (unified_state utf8 dl nl old new out s c1 body a b) 1 Output_skip (int j) =
      Inr (unified_state utf8 dl nl old new out s j body a b)"
    using assms by (intro unified_skip_new) auto
  have keep: "output_unified_token_range (\<lambda>s. Inr (utf8 s)) (unified_state utf8 dl nl old new out s j body a b) 0 Output_context (int i) =
      Inr (unified_state utf8 dl nl old new out i j (body @ map Keep (take (i - s) (drop s (text_lines old)))) a b)"
    using unified_keep[of s old "i - s" i utf8 dl nl new out j body a b] assms by simp
  have remove: "output_unified_token_range (\<lambda>s. Inr (utf8 s)) (unified_state utf8 dl nl old new out i j body a b) 0 Output_delete (int i + int m) =
      Inr (unified_state utf8 dl nl old new out (i + m) j (body @ map Remove (take m (drop i (text_lines old)))) a b)" for body
    using unified_remove[of i old m "i + m" utf8 dl nl new out j body a b] assms by simp
  have add: "output_unified_token_range (\<lambda>s. Inr (utf8 s)) (unified_state utf8 dl nl old new out c0 j body a b) 1 Output_insert (int j + int n) =
      Inr (unified_state utf8 dl nl old new out c0 (j + n) (body @ map Add (take n (drop j (text_lines new)))) a b)" for c0 body
    using unified_add[of j new n "j + n" utf8 dl nl old out c0 body a b] assms by simp
  show ?thesis unfolding skip svn_try.simps keep remove add by (simp add: changed_lines_def)
qed

text \<open>The callback: it extends the hunk in progress, or writes it and begins another one, or begins the first one.\<close>

definition modified_hunk :: "nat \<Rightarrow> nat \<Rightarrow> nat \<Rightarrow> nat \<Rightarrow> svn_diff \<Rightarrow> bool" where
  "modified_hunk i j m n d \<longleftrightarrow> original_start d = int i \<and> original_length d = int m \<and> modified_start d = int j \<and> modified_length d = int n"

lemma context_prefix: "(if int i > int SVN_DIFF_UNIFIED_CONTEXT_SIZE then int SVN_DIFF_UNIFIED_CONTEXT_SIZE else int i) = int (min i 3)"
  by (simp add: SVN_DIFF_UNIFIED_CONTEXT_SIZE_def min_def)

lemma unified_extend:
  assumes "modified_hunk i j m n d" "0 < length (old_lines body) \<or> 0 < length (new_lines body)" "a + length (old_lines body) = e" "e \<le> i"
    and "i - min i 3 < e + 3" "f \<le> j" "i + m \<le> length (text_lines old)" "j + n \<le> length (text_lines new)"
    and "f < j \<Longrightarrow> j < length (text_lines new) \<or> \<not> src_ends_without_eol (fill_source_tokens new)"
  shows "output_unified_diff_modified (\<lambda>s. Inr (utf8 s)) (unified_state utf8 dl nl old new out e f body a b) d =
    Inr (unified_state utf8 dl nl old new out (i + m) (j + n) (body @ changed_lines (text_lines old) (text_lines new) e i j m n) a b)"
proof -
  have keep: "output_unified_token_range (\<lambda>s. Inr (utf8 s)) (unified_state utf8 dl nl old new out e f body a b) 0 Output_context (int i) =
      Inr (unified_state utf8 dl nl old new out i f (body @ map Keep (take (i - e) (drop e (text_lines old)))) a b)"
    using unified_keep[of e old "i - e" i utf8 dl nl new out f body a b] assms by simp
  have start: "int i - int (min i 3) = int (i - min i 3)" by simp
  have skip: "output_unified_token_range (\<lambda>s. Inr (utf8 s)) (unified_state utf8 dl nl old new out i f body' a b) 0 Output_skip (int (i - min i 3)) =
      Inr (unified_state utf8 dl nl old new out i f body' a b)" for body'
    by (simp add: output_unified_token_range_def unified_state_sel Let_def)
  have far: "\<not> (int e < int (i - min i 3) \<and> int a + int (length (old_lines body)) + int SVN_DIFF_UNIFIED_CONTEXT_SIZE \<le> int (i - min i 3))"
    using assms(3,5) by (auto simp: SVN_DIFF_UNIFIED_CONTEXT_SIZE_def min_def split: if_splits)
  have change: "svn_try (output_unified_token_range (\<lambda>s. Inr (utf8 s)) (unified_state utf8 dl nl old new out i f body' a b) 1 Output_skip (int j)) (\<lambda>btn.
      svn_try (output_unified_token_range (\<lambda>s. Inr (utf8 s)) btn 0 Output_context (int i)) (\<lambda>btn.
      svn_try (output_unified_token_range (\<lambda>s. Inr (utf8 s)) btn 0 Output_delete (int i + int m)) (\<lambda>btn.
        output_unified_token_range (\<lambda>s. Inr (utf8 s)) btn 1 Output_insert (int j + int n)))) =
    Inr (unified_state utf8 dl nl old new out (i + m) (j + n) (body' @ changed_lines (text_lines old) (text_lines new) i i j m n) a b)" for body'
    using assms by (intro unified_change) auto
  from assms(2) have pending: "(0 < int (length (old_lines body)) \<or> 0 < int (length (new_lines body))) = True" by simp
  show ?thesis
    using assms(1) unfolding output_unified_diff_modified_def modified_hunk_def
    by (simp only: unified_state_sel nth_Cons_0 nth_Cons_Suc One_nat_def Let_def context_prefix start pending if_True if_False simp_thms
        if_not_P[OF far] keep skip change[unfolded One_nat_def] svn_try.simps split_conv)
      (simp add: changed_lines_def)
qed

text \<open>A new hunk, after the one in progress has been written, if there was one.\<close>

lemma unified_begin:
  assumes "modified_hunk i j m n d" "s = i - min i 3" "c0 \<le> s" "c1 \<le> j" "min i 3 \<le> j" "i + m \<le> length (text_lines old)"
    "j + n \<le> length (text_lines new)" "c0 < s \<Longrightarrow> s < length (text_lines old)"
    and "c1 < j \<Longrightarrow> j < length (text_lines new) \<or> \<not> src_ends_without_eol (fill_source_tokens new)"
  shows "svn_try (output_unified_token_range (\<lambda>s. Inr (utf8 s)) (unified_state utf8 dl nl old new out c0 c1 [] a b) 0 Output_skip (int s)) (\<lambda>btn.
      svn_try (svn_try (svn_assert (hunk_length btn ! 0 = 0 \<and> hunk_length btn ! Suc 0 = 0)) (\<lambda>_.
        Inr (btn\<lparr>hunk_start := [int s, int j - int (min i 3)]\<rparr>))) (\<lambda>btn.
      svn_try (output_unified_token_range (\<lambda>s. Inr (utf8 s)) btn (Suc 0) Output_skip (int j)) (\<lambda>btn.
      svn_try (output_unified_token_range (\<lambda>s. Inr (utf8 s)) btn 0 Output_context (int i)) (\<lambda>btn.
      svn_try (output_unified_token_range (\<lambda>s. Inr (utf8 s)) btn 0 Output_delete (int i + int m)) (\<lambda>btn.
        output_unified_token_range (\<lambda>s. Inr (utf8 s)) btn (Suc 0) Output_insert (int j + int n)))))) =
    Inr (unified_state utf8 dl nl old new out (i + m) (j + n) (changed_lines (text_lines old) (text_lines new) s i j m n) s (j - min i 3))"
proof -
  have skip: "output_unified_token_range (\<lambda>s. Inr (utf8 s)) (unified_state utf8 dl nl old new out c0 c1 [] a b) 0 Output_skip (int s) =
      Inr (unified_state utf8 dl nl old new out s c1 [] a b)"
    using assms by (intro unified_skip_old) auto
  have start: "(unified_state utf8 dl nl old new out s c1 [] a b)\<lparr>hunk_start := [int s, int j - int (min i 3)]\<rparr> =
      unified_state utf8 dl nl old new out s c1 [] s (j - min i 3)"
    using assms(5) by (simp add: unified_state_def of_nat_diff)
  have ok: "svn_assert (hunk_length (unified_state utf8 dl nl old new out s c1 [] a b) ! 0 = 0
      \<and> hunk_length (unified_state utf8 dl nl old new out s c1 [] a b) ! Suc 0 = 0) = Inr ()"
    by (simp add: unified_state_sel)
  have "s \<le> i" using assms(2) by simp
  note change = unified_change[OF this assms(4,6,7,9), of utf8 dl nl out "[]" s "j - min i 3", unfolded One_nat_def append_Nil]
  show ?thesis unfolding skip svn_try.simps ok start by (rule change)
qed

lemma unified_first:
  assumes "modified_hunk i j m n d" "0 < m + n" "s = i - min i 3" "min i 3 \<le> j" "i + m \<le> length (text_lines old)"
    "j + n \<le> length (text_lines new)" "0 < s \<Longrightarrow> s < length (text_lines old)"
    and "0 < j \<Longrightarrow> j < length (text_lines new) \<or> \<not> src_ends_without_eol (fill_source_tokens new)"
  shows "output_unified_diff_modified (\<lambda>s. Inr (utf8 s)) (unified_state utf8 dl nl old new out 0 0 [] 0 0) d =
    Inr (unified_state utf8 dl nl old new out (i + m) (j + n) (changed_lines (text_lines old) (text_lines new) s i j m n) s (j - min i 3))"
proof -
  have fresh: "svn_try (output_unified_token_range (\<lambda>s. Inr (utf8 s)) (unified_state utf8 dl nl old new out 0 0 [] 0 0) 0 Output_skip (int s)) (\<lambda>btn.
      svn_try (svn_try (svn_assert (hunk_length btn ! 0 = 0 \<and> hunk_length btn ! Suc 0 = 0)) (\<lambda>_.
        Inr (btn\<lparr>hunk_start := [int s, int j - int (min i 3)]\<rparr>))) (\<lambda>btn.
      svn_try (output_unified_token_range (\<lambda>s. Inr (utf8 s)) btn (Suc 0) Output_skip (int j)) (\<lambda>btn.
      svn_try (output_unified_token_range (\<lambda>s. Inr (utf8 s)) btn 0 Output_context (int i)) (\<lambda>btn.
      svn_try (output_unified_token_range (\<lambda>s. Inr (utf8 s)) btn 0 Output_delete (int i + int m)) (\<lambda>btn.
        output_unified_token_range (\<lambda>s. Inr (utf8 s)) btn (Suc 0) Output_insert (int j + int n)))))) =
    Inr (unified_state utf8 dl nl old new out (i + m) (j + n) (changed_lines (text_lines old) (text_lines new) s i j m n) s (j - min i 3))"
    by (rule unified_begin[OF assms(1,3)]) (use assms in auto)
  have start: "int i - int (min i 3) = int s" using assms(3) by simp
  have d: "original_start d = int i" "original_length d = int m" "modified_start d = int j" "modified_length d = int n"
    using assms(1) by (auto simp: modified_hunk_def)
  have pos: "(0 < int m \<or> 0 < int n) = True" using assms(2) by auto
  have pending: "(0 < int (length (old_lines ([] :: cstring patch_line list))) \<or> 0 < int (length (new_lines ([] :: cstring patch_line list)))) = False"
    by simp
  have zero: "(int 0 = 0) = True" by simp
  have lt: "(- 1 \<le> int s) = True" by simp
  show ?thesis
  proof (cases "int 0 < int s")
    case True
    then have t: "(int 0 < int s) = True" by simp
    show ?thesis
      unfolding output_unified_diff_modified_def d
      by (simp only: unified_state_sel nth_Cons_0 nth_Cons_Suc One_nat_def Let_def context_prefix start pending if_True if_False simp_thms
          t lt pos zero unified_flush_nothing svn_try.simps split_conv fresh)
  next
    case False
    then have t: "(int 0 < int s) = False" by simp
    show ?thesis
      unfolding output_unified_diff_modified_def d
      by (simp only: unified_state_sel nth_Cons_0 nth_Cons_Suc One_nat_def Let_def context_prefix start pending if_True if_False simp_thms
          t lt pos zero unified_flush_nothing svn_try.simps split_conv fresh)
  qed
qed

lemma unified_next:
  assumes "modified_hunk i j m n d" "0 < m + n" "s = i - min i 3" "3 \<le> j" "i + m \<le> length (text_lines old)"
    "j + n \<le> length (text_lines new)" "s < length (text_lines old)"
    and "f < j \<Longrightarrow> j < length (text_lines new) \<or> \<not> src_ends_without_eol (fill_source_tokens new)"
    and "body \<noteq> []" "concat (map (render_line utf8 nl) body) \<noteq> []" "a + length (old_lines body) = e" "e + 3 \<le> s" "f \<le> j"
    and "0 < length (old_lines body) \<or> 0 < length (new_lines body)"
  shows "output_unified_diff_modified (\<lambda>s. Inr (utf8 s)) (unified_state utf8 dl nl old new out e f body a b) d =
    Inr (unified_state utf8 dl nl old new (out @ render_hunk utf8 dl nl
      \<lparr>old_position = a, new_position = b, patch_lines = body @ map Keep (take 3 (drop e (text_lines old)))\<rparr>)
      (i + m) (j + n) (changed_lines (text_lines old) (text_lines new) s i j m n) s (j - min i 3))"
proof -
  let ?out = "out @ render_hunk utf8 dl nl
      \<lparr>old_position = a, new_position = b, patch_lines = body @ map Keep (take 3 (drop e (text_lines old)))\<rparr>"
  have "e \<le> length (text_lines old)" "3 = min (e + 3) (length (text_lines old)) - e" using assms(7,12) by auto
  note flush = unified_flush[OF assms(9-11) this, of dl new out f b]
  have fresh: "svn_try (output_unified_token_range (\<lambda>s. Inr (utf8 s)) (unified_state utf8 dl nl old new ?out (e + 3) f [] 0 0) 0 Output_skip (int s)) (\<lambda>btn.
      svn_try (svn_try (svn_assert (hunk_length btn ! 0 = 0 \<and> hunk_length btn ! Suc 0 = 0)) (\<lambda>_.
        Inr (btn\<lparr>hunk_start := [int s, int j - int (min i 3)]\<rparr>))) (\<lambda>btn.
      svn_try (output_unified_token_range (\<lambda>s. Inr (utf8 s)) btn (Suc 0) Output_skip (int j)) (\<lambda>btn.
      svn_try (output_unified_token_range (\<lambda>s. Inr (utf8 s)) btn 0 Output_context (int i)) (\<lambda>btn.
      svn_try (output_unified_token_range (\<lambda>s. Inr (utf8 s)) btn 0 Output_delete (int i + int m)) (\<lambda>btn.
        output_unified_token_range (\<lambda>s. Inr (utf8 s)) btn (Suc 0) Output_insert (int j + int n)))))) =
    Inr (unified_state utf8 dl nl old new ?out (i + m) (j + n) (changed_lines (text_lines old) (text_lines new) s i j m n) s (j - min i 3))"
    by (rule unified_begin[OF assms(1,3)]) (use assms in auto)
  have start: "int i - int (min i 3) = int s" using assms(3) by simp
  have d: "original_start d = int i" "original_length d = int m" "modified_start d = int j" "modified_length d = int n"
    using assms(1) by (auto simp: modified_hunk_def)
  from assms(14) have pending: "(0 < int (length (old_lines body)) \<or> 0 < int (length (new_lines body))) = True" by simp
  have far: "(int e < int s \<and> int a + int (length (old_lines body)) + int SVN_DIFF_UNIFIED_CONTEXT_SIZE \<le> int s) = True"
    using assms(11,12) by (auto simp: SVN_DIFF_UNIFIED_CONTEXT_SIZE_def)
  show ?thesis
    unfolding output_unified_diff_modified_def d
    by (simp only: unified_state_sel nth_Cons_0 nth_Cons_Suc One_nat_def Let_def context_prefix start pending if_True if_False simp_thms
        far[unfolded conj_assoc] flush svn_try.simps split_conv fresh)
qed

section \<open>The hunks written are a patch\<close>

lemma body_nonempty: "body \<noteq> [] \<longleftrightarrow> 0 < length (old_lines body) \<or> 0 < length (new_lines body)"
proof (cases body)
  case (Cons x ls)
  then show ?thesis by (cases x) auto
qed simp

lemma body_ok_lengths: "body_ok F G a b body e f \<Longrightarrow> a + length (old_lines body) = e \<and> b + length (new_lines body) = f"
  by (auto simp: body_ok_def)

text \<open>
  Between two callbacks, at position \<open>(x, y)\<close> of the hunks: nothing has been written, or the hunks \<open>us\<close> have been
  written and the lines \<open>body\<close> of another one, from \<open>(a, b)\<close> to \<open>(c0, c1)\<close>, are in progress.
\<close>

definition unified_progress :: "cstring list \<Rightarrow> cstring list \<Rightarrow> cstring patch_hunk list \<Rightarrow> nat \<Rightarrow> nat \<Rightarrow> cstring patch_line list \<Rightarrow>
    nat \<Rightarrow> nat \<Rightarrow> nat \<Rightarrow> nat \<Rightarrow> bool" where
  "unified_progress F G us c0 c1 body a b x y \<longleftrightarrow>
    (if body = [] then us = [] \<and> c0 = 0 \<and> c1 = 0 \<and> a = 0 \<and> b = 0 \<and> common_gap F G 0 0 x y
     else (\<exists>p q. patch_ok F G 0 0 us p q \<and> common_gap F G p q a b) \<and> body_ok F G a b body c0 c1 \<and> common_gap F G c0 c1 x y)"

lemma progress_common:
  "unified_progress F G us c0 c1 body a b x y \<Longrightarrow> common_gap F G x y x' y' \<Longrightarrow> unified_progress F G us c0 c1 body a b x' y'"
  unfolding unified_progress_def using common_gap_trans by (metis (no_types, lifting))

text \<open>The new file is not skipped beyond its last line, if that has no end.\<close>

lemma skip_inside:
  assumes "common_gap (text_lines old) (text_lines new) c0 c1 i j" "0 < m + n" "i + m \<le> length (text_lines old)"
    "j + n \<le> length (text_lines new)" "c1 < j"
  shows "j < length (text_lines new) \<or> \<not> src_ends_without_eol (fill_source_tokens new)"
proof (rule ccontr)
  let ?F = "text_lines old" and ?G = "text_lines new"
  assume "\<not> ?thesis"
  then have j: "j = length ?G" "src_ends_without_eol (fill_source_tokens new)" using assms(4) by auto
  then have "n = 0" "0 < m" using assms(2,4) by auto
  then have i: "i < length ?F" using assms(3) by simp
  note g = assms(1)[unfolded common_gap_def]
  have "\<not> has_eol (last ?G)" using text_lines_ended[of new] j(2) by (simp add: lines_ended_def)
  moreover have "last ?G = ?G ! (j - 1)" using j(1) assms(5) by (subst last_conv_nth) auto
  moreover have "i - 1 - c0 < i - c0" using g assms(5) by auto
  then have "?F ! (c0 + (i - 1 - c0)) = ?G ! (c1 + (i - 1 - c0))" using g by blast
  moreover have "c0 + (i - 1 - c0) = i - 1" "c1 + (i - 1 - c0) = j - 1" "0 < i" using g assms(5) by auto
  ultimately have "\<not> has_eol (?F ! (i - 1))" by metis
  moreover have "has_eol (?F ! (i - 1))" using text_lines_ended[of old] i \<open>0 < i\<close> by (auto simp: lines_ended_def)
  ultimately show False by simp
qed

lemma changed_body:
  assumes "common_gap F G s t i j" "i + m \<le> length F" "j + n \<le> length G"
  shows "body_ok F G s t (changed_lines F G s i j m n) (i + m) (j + n)"
proof -
  have "body_ok F G s t [] s t" using assms(1) by (auto simp: body_ok_def common_gap_def)
  from body_ok_change[OF body_ok_keep[OF this assms(1)], of "i + m" "j + n"] assms(2,3) show ?thesis
    by (simp add: changed_lines_def)
qed

lemma changed_more:
  assumes "body_ok F G a b body e f" "common_gap F G e f i j" "i + m \<le> length F" "j + n \<le> length G"
  shows "body_ok F G a b (body @ changed_lines F G e i j m n) (i + m) (j + n)"
  using body_ok_change[OF body_ok_keep[OF assms(1,2)], of "i + m" "j + n"] assms(3,4) by (simp add: changed_lines_def)

lemma changed_nonempty:
  assumes "0 < m + n" "i + m \<le> length F" "j + n \<le> length G"
  shows "changed_lines F G s i j m n \<noteq> []"
  using assms by (auto simp: changed_lines_def)

lemma context_gap:
  assumes "common_gap F G c d i j" "c \<le> i - k" "k \<le> i"
  shows "common_gap F G c d (i - k) (j - k) \<and> common_gap F G (i - k) (j - k) i j \<and> k \<le> j"
proof -
  have "d + (i - k - c) = j - k" "d + (i - c) = j" "k \<le> j" using assms by (auto simp: common_gap_def)
  then show ?thesis using common_gap_part[OF assms(1), of c "i - k"] common_gap_part[OF assms(1), of "i - k" i] assms(2,3) by auto
qed

lemma gap_after:
  assumes "i + m \<le> length F" "j + n \<le> length G"
  shows "common_gap F G (i + m) (j + n) (i + m) (j + n)"
  using assms by (rule common_gap_refl)

lemma unified_step:
  assumes pr: "unified_progress (text_lines old) (text_lines new) us c0 c1 body a b i j" and d: "modified_hunk i j m n d" "0 < m + n"
    and le: "i + m \<le> length (text_lines old)" "j + n \<le> length (text_lines new)"
  shows "\<exists>us' body' a' b'. output_unified_diff_modified (\<lambda>s. Inr (utf8 s))
      (unified_state utf8 dl nl old new (out @ concat (map (render_hunk utf8 dl nl) us)) c0 c1 body a b) d =
      Inr (unified_state utf8 dl nl old new (out @ concat (map (render_hunk utf8 dl nl) us')) (i + m) (j + n) body' a' b')
    \<and> body' \<noteq> [] \<and> unified_progress (text_lines old) (text_lines new) us' (i + m) (j + n) body' a' b' (i + m) (j + n)"
proof -
  let ?F = "text_lines old" and ?G = "text_lines new"
  define s where "s = i - min i 3"
  note after = gap_after[OF le] and new = changed_nonempty[OF d(2) le]
  show ?thesis
  proof (cases "body = []")
    case True
    then have p: "us = []" "c0 = 0" "c1 = 0" "a = 0" "b = 0" and g: "common_gap ?F ?G 0 0 i j"
      using pr by (simp_all add: unified_progress_def)
    have c: "common_gap ?F ?G 0 0 s (j - min i 3) \<and> common_gap ?F ?G s (j - min i 3) i j \<and> min i 3 \<le> j"
      unfolding s_def by (rule context_gap[OF g]) simp_all
    have "output_unified_diff_modified (\<lambda>s. Inr (utf8 s)) (unified_state utf8 dl nl old new (out @ concat (map (render_hunk utf8 dl nl) us)) 0 0 [] 0 0) d =
      Inr (unified_state utf8 dl nl old new (out @ concat (map (render_hunk utf8 dl nl) us)) (i + m) (j + n) (changed_lines ?F ?G s i j m n) s (j - min i 3))"
      by (rule unified_first[OF d s_def]) (use c le skip_inside[OF g d(2) le] in \<open>auto simp: s_def\<close>)
    moreover have "unified_progress ?F ?G us (i + m) (j + n) (changed_lines ?F ?G s i j m n) s (j - min i 3) (i + m) (j + n)"
      using c changed_body[OF _ le, of s "j - min i 3"] after new p(1) by (auto simp: unified_progress_def)
    ultimately show ?thesis using p True new by blast
  next
    case False
    then obtain p q where us: "patch_ok ?F ?G 0 0 us p q" "common_gap ?F ?G p q a b" and body: "body_ok ?F ?G a b body c0 c1"
      and g: "common_gap ?F ?G c0 c1 i j" using pr by (auto simp: unified_progress_def)
    note len = body_ok_lengths[OF body] and ne = False[unfolded body_nonempty]
    have gi: "c0 \<le> i" "c1 \<le> j" using g by (auto simp: common_gap_def)
    show ?thesis
    proof (cases "c0 + 3 \<le> s")
      case True
      then have s3: "s = i - 3" "3 \<le> i" "c0 + 3 \<le> i - 3" by (auto simp: s_def)
      have c: "common_gap ?F ?G c0 c1 s (j - min i 3) \<and> common_gap ?F ?G s (j - min i 3) i j \<and> min i 3 \<le> j"
        unfolding s_def by (rule context_gap[OF g]) (use s3 in auto)
      have c3: "common_gap ?F ?G c0 c1 (c0 + 3) (c1 + 3)" "common_gap ?F ?G (c0 + 3) (c1 + 3) s (j - min i 3)"
        using common_gap_part[OF conjunct1[OF c], of c0 "c0 + 3"] common_gap_part[OF conjunct1[OF c], of "c0 + 3" s] True c
        by (auto simp: common_gap_def)
      let ?u = "\<lparr>old_position = a, new_position = b, patch_lines = body @ map Keep (take 3 (drop c0 ?F))\<rparr>"
      have rn: "concat (map (render_line utf8 nl) body) \<noteq> []"
        using render_nonempty[OF body text_lines_nonempty text_lines_nonempty] False by blast
      have "output_unified_diff_modified (\<lambda>s. Inr (utf8 s)) (unified_state utf8 dl nl old new (out @ concat (map (render_hunk utf8 dl nl) us)) c0 c1 body a b) d =
        Inr (unified_state utf8 dl nl old new ((out @ concat (map (render_hunk utf8 dl nl) us)) @ render_hunk utf8 dl nl ?u)
          (i + m) (j + n) (changed_lines ?F ?G s i j m n) s (j - min i 3))"
        by (rule unified_next[OF d s_def _ le _ _ False rn _ True _ ne]) (use len gi s3 c le skip_inside[OF g d(2) le] in auto)
      moreover have "body_ok ?F ?G a b (patch_lines ?u) (c0 + 3) (c1 + 3)" using body_ok_keep[OF body c3(1)] by simp
      then have "patch_ok ?F ?G 0 0 (us @ [?u]) (c0 + 3) (c1 + 3)" using us by (auto simp: patch_ok_append)
      then have "unified_progress ?F ?G (us @ [?u]) (i + m) (j + n) (changed_lines ?F ?G s i j m n) s (j - min i 3) (i + m) (j + n)"
        using c c3(2) changed_body[OF _ le, of s "j - min i 3"] after new by (auto simp: unified_progress_def)
      ultimately show ?thesis using new
        by (intro exI[of _ "us @ [?u]"] exI[of _ "changed_lines ?F ?G s i j m n"] exI[of _ s] exI[of _ "j - min i 3"]) simp
    next
      case near: False
      have "output_unified_diff_modified (\<lambda>s. Inr (utf8 s)) (unified_state utf8 dl nl old new (out @ concat (map (render_hunk utf8 dl nl) us)) c0 c1 body a b) d =
        Inr (unified_state utf8 dl nl old new (out @ concat (map (render_hunk utf8 dl nl) us)) (i + m) (j + n) (body @ changed_lines ?F ?G c0 i j m n) a b)"
        by (rule unified_extend[OF d(1) ne]) (use len gi near le skip_inside[OF g d(2) le] in \<open>auto simp: s_def\<close>)
      moreover have "unified_progress ?F ?G us (i + m) (j + n) (body @ changed_lines ?F ?G c0 i j m n) a b (i + m) (j + n)"
        using us changed_more[OF body g le] after False by (auto simp: unified_progress_def)
      ultimately show ?thesis using False by blast
    qed
  qed
qed

lemma unified_hunks:
  assumes "two_way (text_lines old) (text_lines new) i j hs" "unified_progress (text_lines old) (text_lines new) us c0 c1 body a b i j"
  shows "\<exists>us' c0' c1' body' a' b'. svn_diff_output hs
      (unified_state utf8 dl nl old new (out @ concat (map (render_hunk utf8 dl nl) us)) c0 c1 body a b) (mem_output_unified_vtable (\<lambda>s. Inr (utf8 s))) =
      Inr (unified_state utf8 dl nl old new (out @ concat (map (render_hunk utf8 dl nl) us')) c0' c1' body' a' b')
    \<and> unified_progress (text_lines old) (text_lines new) us' c0' c1' body' a' b' (length (text_lines old)) (length (text_lines new))
    \<and> (body' \<noteq> [] \<longleftrightarrow> body \<noteq> [] \<or> svn_diff_contains_diffs hs)"
  using assms
proof (induction hs arbitrary: i j us c0 c1 body a b)
  case Nil
  then show ?case by (intro exI[of _ us] exI[of _ c0] exI[of _ c1] exI[of _ body] exI[of _ a] exI[of _ b]) simp
next
  case (Cons h hs)
  let ?F = "text_lines old" and ?G = "text_lines new"
  obtain m n where h: "modified_hunk i j m n h" "0 < m + n" "i + m \<le> length ?F" "j + n \<le> length ?G"
    "diff_type h = Type_common \<and> take m (drop i ?F) = take n (drop j ?G) \<or> diff_type h = Type_diff_modified"
    "two_way ?F ?G (i + m) (j + n) hs"
    using Cons.prems(1) by (auto simp: modified_hunk_def)
  show ?case
  proof (cases "diff_type h = Type_common")
    case True
    then have eq: "take m (drop i ?F) = take n (drop j ?G)" using h(5) by simp
    have "length (take m (drop i ?F)) = m" "length (take n (drop j ?G)) = n" using h(3,4) by simp_all
    then have mn: "m = n" using eq by simp
    have "common_gap ?F ?G i j (i + m) (j + n)"
      unfolding common_gap_def
    proof (intro conjI allI impI)
      fix d assume "d < i + m - i"
      then have "take m (drop i ?F) ! d = take n (drop j ?G) ! d" using eq by simp
      then show "?F ! (i + d) = ?G ! (j + d)" using \<open>d < i + m - i\<close> h(3,4) mn by simp
    qed (use h(3,4) mn in simp_all)
    from Cons.IH[OF h(6) progress_common[OF Cons.prems(2) this]] True show ?thesis
      by (simp add: mem_output_unified_vtable_def)
  next
    case False
    then have t: "diff_type h = Type_diff_modified" using h(5) by simp
    obtain us' body' a' b' where st: "output_unified_diff_modified (\<lambda>s. Inr (utf8 s))
        (unified_state utf8 dl nl old new (out @ concat (map (render_hunk utf8 dl nl) us)) c0 c1 body a b) h =
        Inr (unified_state utf8 dl nl old new (out @ concat (map (render_hunk utf8 dl nl) us')) (i + m) (j + n) body' a' b')"
      "body' \<noteq> []" "unified_progress ?F ?G us' (i + m) (j + n) body' a' b' (i + m) (j + n)"
      using unified_step[OF Cons.prems(2) h(1-4), of utf8 dl nl out] by blast
    from Cons.IH[OF h(6) st(3)] st(1,2) t show ?thesis by (simp add: mem_output_unified_vtable_def)
  qed
qed

text \<open>The whole output, for a conversion of the headers that does not fail.\<close>

definition render_patch :: "(cstring \<Rightarrow> cstring) \<Rightarrow> bool \<Rightarrow> cstring option \<Rightarrow> cstring \<Rightarrow> cstring \<Rightarrow> cstring patch_hunk list \<Rightarrow> cstring" where
  "render_patch utf8 with_header delimiter old_header new_header us =
    (if with_header then utf8 (''--- '' @ old_header @ APR_EOL_STR @ ''+++ '' @ new_header @ APR_EOL_STR) else []) @
     concat (map (render_hunk utf8 delimiter (APR_EOL_STR @
       (if delimiter \<noteq> Some ''##'' then NO_NEWLINE_AT_END_OF_FILE else NO_NEWLINE_AT_END_OF_PROPERTY) @ APR_EOL_STR)) us)"

lemma unified_output_result:
  assumes tw: "two_way (text_lines old) (text_lines new) 0 0 hs"
  shows "\<exists>us. svn_diff_mem_string_output_unified2 (\<lambda>s. Inr (utf8 s)) hs with_header dl oh nh old new =
      Inr (if svn_diff_contains_diffs hs then render_patch utf8 with_header dl oh nh us else [])
    \<and> apply_patch us 0 0 (text_lines old) = Some (text_lines new)"
proof -
  let ?F = "text_lines old" and ?G = "text_lines new"
  let ?nl = "APR_EOL_STR @ (if dl \<noteq> Some ''##'' then NO_NEWLINE_AT_END_OF_FILE else NO_NEWLINE_AT_END_OF_PROPERTY) @ APR_EOL_STR"
  let ?head = "if with_header then utf8 (''--- '' @ oh @ APR_EOL_STR @ ''+++ '' @ nh @ APR_EOL_STR) else []"
  have "common_gap ?F ?G 0 0 0 0" by (rule common_gap_refl) simp_all
  then have "unified_progress ?F ?G [] 0 0 [] 0 0 0 0" by (simp add: unified_progress_def)
  from unified_hunks[OF tw this, of utf8 dl ?nl ?head, unfolded list.map concat.simps append_Nil2]
  obtain us c0 c1 body a b where
    st: "svn_diff_output hs (unified_state utf8 dl ?nl old new ?head 0 0 [] 0 0) (mem_output_unified_vtable (\<lambda>s. Inr (utf8 s))) =
      Inr (unified_state utf8 dl ?nl old new (?head @ concat (map (render_hunk utf8 dl ?nl) us)) c0 c1 body a b) \<and>
      unified_progress ?F ?G us c0 c1 body a b (length ?F) (length ?G) \<and>
      (body \<noteq> [] \<longleftrightarrow> [] \<noteq> ([] :: cstring patch_line list) \<or> svn_diff_contains_diffs hs)"
    by blast
  note run = st[THEN conjunct1] and pr = st[THEN conjunct2, THEN conjunct1]
  have diffs: "body \<noteq> [] \<longleftrightarrow> svn_diff_contains_diffs hs" using st by simp
  show ?thesis
  proof (cases "body = []")
    case True
    then have "us = []" "common_gap ?F ?G 0 0 (length ?F) (length ?G)" using pr by (simp_all add: unified_progress_def)
    then have "apply_patch [] 0 0 ?F = Some ?G" using patch_ok_apply[of ?F ?G 0 0 "[]" 0 0] by simp
    then show ?thesis using True diffs by (intro exI[of _ "[]"]) (simp add: svn_diff_mem_string_output_unified2_def)
  next
    case False
    then obtain p q where us: "patch_ok ?F ?G 0 0 us p q" "common_gap ?F ?G p q a b" and body: "body_ok ?F ?G a b body c0 c1"
      and g: "common_gap ?F ?G c0 c1 (length ?F) (length ?G)" using pr by (auto simp: unified_progress_def)
    define k where "k = min (c0 + 3) (length ?F) - c0"
    have c0: "c0 \<le> length ?F" using g by (simp add: common_gap_def)
    let ?u = "\<lparr>old_position = a, new_position = b, patch_lines = body @ map Keep (take k (drop c0 ?F))\<rparr>"
    have rn: "concat (map (render_line utf8 ?nl) body) \<noteq> []"
      using render_nonempty[OF body text_lines_nonempty text_lines_nonempty] False by blast
    note flush = unified_flush[OF False rn conjunct1[OF body_ok_lengths[OF body]] c0 k_def, of dl new "?head @ concat (map (render_hunk utf8 dl ?nl) us)" c1 b]
    have gk: "common_gap ?F ?G c0 c1 (c0 + k) (c1 + k)" "common_gap ?F ?G (c0 + k) (c1 + k) (length ?F) (length ?G)"
    proof -
      have "c0 + k \<le> length ?F" "c1 + (length ?F - c0) = length ?G" using g c0 by (auto simp: k_def common_gap_def)
      then show "common_gap ?F ?G c0 c1 (c0 + k) (c1 + k)" "common_gap ?F ?G (c0 + k) (c1 + k) (length ?F) (length ?G)"
        using common_gap_part[OF g, of c0 "c0 + k"] common_gap_part[OF g, of "c0 + k" "length ?F"] by auto
    qed
    have "body_ok ?F ?G a b (patch_lines ?u) (c0 + k) (c1 + k)" using body_ok_keep[OF body gk(1)] by simp
    then have "patch_ok ?F ?G 0 0 (us @ [?u]) (c0 + k) (c1 + k)" using us by (auto simp: patch_ok_append)
    from patch_ok_apply[OF this gk(2)] have ap: "apply_patch (us @ [?u]) 0 0 ?F = Some ?G" by simp
    have start: "\<lparr>unified_written = ?head, unified_sources = [fill_source_tokens old, fill_source_tokens new],
                  current_token = [0, 0], prefix_str = [utf8 '' '', utf8 ''-'', utf8 ''+''], hunk_text = [], hunk_length = [0, 0],
                  hunk_start = [0, 0], hunk_delimiter = dl, no_newline_string = ?nl\<rparr> = unified_state utf8 dl ?nl old new ?head 0 0 [] 0 0"
      by (simp add: unified_state_def)
    have head: "(if with_header then unidiff_write_header (\<lambda>s. Inr (utf8 s)) [] oh nh else Inr []) = Inr ?head"
      by (simp add: unidiff_write_header_def svn_stream_printf_from_utf8_def)
    have nl: "(if dl \<noteq> Some ''##'' then APR_EOL_STR @ NO_NEWLINE_AT_END_OF_FILE @ APR_EOL_STR
             else APR_EOL_STR @ NO_NEWLINE_AT_END_OF_PROPERTY @ APR_EOL_STR) = ?nl" by simp
    have "svn_diff_mem_string_output_unified2 (\<lambda>s. Inr (utf8 s)) hs with_header dl oh nh old new =
        Inr (render_patch utf8 with_header dl oh nh (us @ [?u]))"
      using False diffs unfolding svn_diff_mem_string_output_unified2_def Let_def nl svn_try.simps head start run flush
      by (simp add: unified_state_sel render_patch_def)
    then show ?thesis using ap False diffs by (intro exI[of _ "us @ [?u]"]) simp
  qed
qed

lemma no_diffs_same:
  assumes "two_way F G i j hs" "\<not> svn_diff_contains_diffs hs"
  shows "drop i F = drop j G"
  using assms
proof (induction hs arbitrary: i j)
  case (Cons h hs)
  then obtain m n where h: "take m (drop i F) = take n (drop j G)" "two_way F G (i + m) (j + n) hs"
    by (auto split: if_splits)
  then have "drop m (drop i F) = drop n (drop j G)" using Cons by (auto split: if_splits simp: add.commute)
  then show ?case using h(1) by (metis append_take_drop_id)
qed simp

lemma common_lines_bound:
  "two_way F G i j hs \<Longrightarrow> 2 * common_lines hs + (if svn_diff_contains_diffs hs then 1 else 0) \<le> (length F - i) + (length G - j)"
proof (induction hs arbitrary: i j)
  case (Cons h hs)
  then obtain m n where h: "original_length h = int m" "0 < m + n" "i + m \<le> length F" "j + n \<le> length G"
    "diff_type h = Type_common \<and> take m (drop i F) = take n (drop j G) \<or> diff_type h = Type_diff_modified"
    "two_way F G (i + m) (j + n) hs" by auto
  note IH = Cons.IH[OF h(6)]
  show ?case
  proof (cases "diff_type h = Type_common")
    case True
    then have "length (take m (drop i F)) = length (take n (drop j G))" using h(5) by simp
    then have "m = n" using h(3,4) by simp
    then show ?thesis using IH True h(1,3,4) by (simp add: common_lines_def)
  next
    case False
    then have "common_lines (h # hs) = common_lines hs" "svn_diff_contains_diffs (h # hs)" by (simp_all add: common_lines_def)
    then show ?thesis using IH h(2-4) by (auto split: if_splits)
  qed
qed (simp add: common_lines_def)

lemma same_no_diffs:
  assumes "two_way F F 0 0 hs" "longest_common_length F F (common_lines hs)"
  shows "\<not> svn_diff_contains_diffs hs"
proof -
  have "length F \<le> common_lines hs" using assms(2) unfolding longest_common_length_def by blast
  with common_lines_bound[OF assms(1)] show ?thesis by (auto split: if_splits)
qed

lemma text_lines_inj: "text_lines s = text_lines t \<Longrightarrow> s = t"
  using text_lines_concat by metis

text \<open>C37. The unified diff of two texts, compared as they are: nothing is written for equal texts. Otherwise it is
  the header, if asked for, and the hunks of a patch, each with its positions and lengths, its lines marked as kept,
  removed or added and a note behind a line that has no end; and the patch, applied to the lines of the original text
  at the positions it names, gives the lines of the modified text. This holds for every delimiter and every
  conversion of the headers that does not fail.\<close>

theorem unified_diff_correct:
  "\<exists>hs out. svn_diff_mem_string_diff zlib_adler32 original modified nothing_ignored = Some (Inr hs) \<and>
    svn_diff_mem_string_output_unified2 (\<lambda>s. Inr (utf8 s)) hs with_header delimiter old_header new_header original modified = Inr out \<and>
    (if original = modified then out = []
     else \<exists>us. apply_patch us 0 0 (text_lines original) = Some (text_lines modified) \<and>
       out = render_patch utf8 with_header delimiter old_header new_header us)"
proof -
  have none: "compared_lines nothing_ignored s = text_lines s" for s
    by (simp add: nothing_ignored_def compared_lines_def normalized_nothing)
  obtain hs where hs: "svn_diff_mem_string_diff zlib_adler32 original modified nothing_ignored = Some (Inr hs)"
    "two_way (text_lines original) (text_lines modified) 0 0 hs"
    "longest_common_length (text_lines original) (text_lines modified) (common_lines hs)"
    using mem_string_diff_result[of zlib_adler32 original modified nothing_ignored] by (auto simp: none)
  have diffs: "svn_diff_contains_diffs hs \<longleftrightarrow> original \<noteq> modified"
    using no_diffs_same[OF hs(2)] text_lines_inj[of original modified] same_no_diffs[of "text_lines original" hs] hs(2,3) by fastforce
  obtain us where us: "svn_diff_mem_string_output_unified2 (\<lambda>s. Inr (utf8 s)) hs with_header delimiter old_header new_header original modified =
      Inr (if original \<noteq> modified then render_patch utf8 with_header delimiter old_header new_header us else [])"
    "apply_patch us 0 0 (text_lines original) = Some (text_lines modified)"
    using unified_output_result[OF hs(2), of utf8 with_header delimiter old_header new_header] unfolding diffs by blast
  show ?thesis
  proof (cases "original = modified")
    case True
    with hs(1) us(1) show ?thesis by (intro exI[of _ hs] exI[of _ "[]"]) simp
  next
    case False
    with us have "\<exists>us. apply_patch us 0 0 (text_lines original) = Some (text_lines modified) \<and>
       render_patch utf8 with_header delimiter old_header new_header us' = render_patch utf8 with_header delimiter old_header new_header us" if "us' = us" for us'
      using that by blast
    with False hs(1) us(1) show ?thesis by (intro exI[of _ hs] exI[of _ "render_patch utf8 with_header delimiter old_header new_header us"]) simp
  qed
qed

end
