(* ===== verification/Spec2Isabelle.thy ===== *)
theory Spec2Isabelle
  imports Mergeinfo_Text Delta_Apply Compose_Delta Catalog_Prefix Path_Driver Diff_Unified
begin

text \<open>
  A verification development for the Subversion core bundled with Touch Code 2, under
  \<open>src/depe/subversion/subversion/\<close>. Touch Code 2 is a code editor for iOS; its version control
  is the Subversion C library, which the native layer of the application drives. The part of
  the library modelled here is the part that computes: the merge history of a working copy
  (\<open>libsvn_subr/mergeinfo.c\<close> and what it rests on) and the binary deltas in which file contents
  are stored and sent (\<open>libsvn_delta/text_delta.c\<close>, \<open>xdelta.c\<close>, \<open>svndiff.c\<close>).

  Conventions (\<open>Svn_Prelude\<close>). A function that returns \<open>svn_error_t *\<close> returns
  \<open>svn_err + 'a\<close>: \<open>Inl\<close> is an error with its code, \<open>Inr\<close> holds the output parameters. An access
  outside a buffer, or a failed \<open>assert\<close>, is \<open>None\<close> where the model checks buffers. An APR array
  is a list, an \<open>apr_hash_t\<close> the association list of its entries with distinct keys, a C string
  the list of its characters before the NUL. Pools are not modelled; a copy into a pool is the
  identity on values. Names are those of the code, with \<open>__\<close> written \<open>_\<close>; a name with a suffix
  (\<open>_loop\<close>, \<open>_step\<close>) is a loop of the function it is named after.

  Merge history.
  \<^item> \<open>Svn_Sorts\<close> (\<open>sorts.c\<close>): comparison functions, insertion, deletion and reversal in arrays,
    binary search, \<open>svn_sort__hash\<close>. The locale \<open>comparator\<close> is what \<open>qsort\<close> and \<open>bsearch\<close> ask
    of a comparison function; it is interpreted on merge ranges, paths and hash items.
  \<^item> \<open>Rangelist\<close>: merge ranges and rangelists, their combination, normalization, intersection,
    removal and difference. A rangelist denotes a set of revisions (\<open>rl_revs\<close>); the locale
    \<open>rangelist_op\<close> is the contract of an operation that computes a set operation, and removal and
    intersection are its two instances.
  \<^item> \<open>Rangelist_Merge\<close>: \<open>svn_rangelist_merge2\<close> with \<open>adjust_remaining_ranges\<close>, as a state machine
    on the array, its cursors and the last range handled. The loops are total functions, their
    measures are proved to decrease.
  \<^item> \<open>Svn_Paths\<close> (\<open>path.c\<close>, \<open>dirent_uri.c\<close>): the path order, canonicalization of URIs, dirents,
    relpaths and fspaths, the operations on relpaths and fspaths. A canonical path denotes its
    list of segments.
  \<^item> \<open>Svn_Uris\<close>, \<open>Svn_Dirents\<close> (\<open>path.c\<close>, \<open>dirent_uri.c\<close>): URLs, escapes and the canonical form of URIs; file
    system paths. Escaping and file URLs round-trip, the match of a host name is the documented one,
    \<open>svn_dirent_join_many\<close> with its array of lengths is iterated joining, and condensing of targets returns an
    antichain that covers them; the locale \<open>ancestor_function\<close> is what it asks of common ancestors.
  \<^item> \<open>Rangelist_Text\<close>, \<open>Mergeinfo_Text\<close>: printing and parsing of revisions, rangelists and mergeinfo.
  \<^item> \<open>Svn_Hash\<close> (\<open>hash.c\<close>): \<open>svn_hash_diff\<close> as the fold of its callback.
  \<^item> \<open>Mergeinfo\<close>, \<open>Mergeinfo_Merge\<close>: mergeinfos and catalogs, and every operation on them that
    \<open>mergeinfo.c\<close> has (\<open>Catalog_Prefix\<close> holds the one that joins dirents). The lemmas lift what is proved of rangelists to each path.

  Deltas.
  \<^item> \<open>Delta_Window\<close> (\<open>svn_delta.h\<close>, \<open>text_delta.c\<close>): windows, the operation builder and the
    instruction interpreter. \<open>window_target\<close> is what a window denotes; the interpreter, with its
    word-wise copy loops and every access checked, computes it.
  \<^item> \<open>Delta_Build\<close>: what the builder builds, the invariant \<open>baton_ok\<close> of its state.
  \<^item> \<open>Xdelta\<close> (\<open>xdelta.c\<close>): rolling checksum on \<open>32 word\<close>, the open-addressing block table, match
    search and the delta loop, every read checked. The probe loops, and the loop over the source
    with its 32-bit counter, are partial functions; they are proved to end, the former since the
    table keeps a free slot, the latter for sources on which the counter does not wrap around. The
    delta denotes the target whatever the checksums collide on.
  \<^item> \<open>Svndiff\<close> (\<open>svndiff.c\<close>): encoder and decoder. \<open>Svndiff_Codec\<close> proves them inverse; the locales
    \<open>incremental\<close> (a parser on a growing buffer) and \<open>codec\<close> (a parser and its printer) are
    interpreted on sizes, offsets, window headers and instructions. The decoder is shown not to
    depend on how its input is cut, and to deliver only windows the interpreter can run.
  \<^item> \<open>Delta_Stream\<close>: \<open>svn_txdelta_run\<close> and the target-push stream, which compute the same windows.
  \<^item> \<open>Delta_Apply\<close>: \<open>apply_window\<close> with its source and target buffers, the routines that send
    data, and the composition: a delta computed, encoded, cut into pieces, decoded and applied
    gives the target back.
  \<^item> \<open>Range_Index\<close>, \<open>Compose_Delta\<close> (\<open>compose_delta.c\<close>): two windows combined into one. The range
    index is a splay tree threaded by a list of its nodes; its invariant says that the two agree
    and that the target offsets of the list go up. The copies of target data recurse with the
    length copied as measure. The composed window denotes what the two windows denote in turn.
  \<^item> \<open>Path_Driver\<close> (\<open>path_driver.c\<close>): the drive of an editor over a list of paths. The editor and the
    callback are functions on the state of their receiver that may fail (locale \<open>edit_receiver\<close>,
    interpreted on the receiver that logs its calls); \<open>edit_step\<close> is the protocol of a drive, and
    every drive is proved to be a run of it.

  Differences (\<open>libsvn_diff\<close>).
  \<^item> \<open>Diff_Graph\<close>, \<open>Diff_Lcs\<close> (\<open>lcs.c\<close>): the search for a longest common subsequence. \<open>Diff_Graph\<close> is the
    abstract side, paths in the edit graph, their cost and what is furthest on a diagonal; \<open>Diff_Lcs\<close> has
    the code and proves that a pass takes the array of diagonals from one cost to the next, that the
    loop ends at the least cost, that the array is never left, and that the result is longest.
  \<^item> \<open>Diff_Tokens\<close> (\<open>token.c\<close>, \<open>diff.c\<close>): hunks, the tree of tokens and \<open>svn_diff_diff_2\<close>, proved for every
    data source that keeps the contract \<open>diff_source\<close>. The tree is a map from what tokens are compared by
    to their indexes, although its order, signed differences of hashes, is not transitive.
  \<^item> \<open>Diff_Memory\<close> (\<open>diff_memory.c\<close>, \<open>util.c\<close>): the data source on texts, which keeps the contract, and
    normalization, which is proved equal to its description by characters; a second model of it
    over one memory has the target on top of the buffer, and a simulation between the two shows
    that writing never overtakes reading.
  \<^item> \<open>Diff_Merge\<close> (\<open>diff3.c\<close>): three-way differences. \<open>three_way\<close> is what a list of hunks says of three files;
    the search for sync points is proved to end and the hunks to satisfy it, for every data source that
    leaves out no lines (\<open>whole_diff_source\<close>, interpreted on the texts in memory).
  \<^item> \<open>Diff_Output\<close>, \<open>Diff_Unified\<close> (\<open>diff_memory.c\<close>, \<open>util.c\<close>): the walk over hunks with a table of callbacks,
    merges with conflict markers and unified diffs. A conflict callback that walks over the resolved
    hunks goes down their nesting, which is its fuel (\<open>merge_output_all_unfold\<close>). \<open>merge_laws\<close> is what a
    merge gives where only one side, or both alike, were changed. A unified diff is the rendering of
    a patch (\<open>patch_hunk\<close>, \<open>apply_patch\<close>), and the patch takes one text to the other;
    \<open>unified_progress\<close> is the invariant of the callback between two hunks.

  Bounds and integers. Revision numbers are \<open>int\<close>: the code adds and compares them and never comes
  near the limits of \<open>long\<close> except in \<open>strtol\<close>, whose saturation is modelled. Sizes in the codec are
  \<open>64 word\<close> as on the wire, and the additions the decoder guards are modulo \<open>2 ^ 64\<close>; checksums and
  slot positions are \<open>32 word\<close>; other sizes are bounded by buffers and are \<open>nat\<close>. Loops are
  structural, have a measure, or are partial functions with a proof that they return; only the loop
  of \<open>tpush_write_handler\<close> has fuel, the number of bytes to take, each turn taking at least one, and
  \<open>merge_output\<close> the depth to which resolved differences are nested.

  Parameters. Third-party code, also where its sources are bundled (zlib and APR under
  \<open>src/depe/subversion/\<close>), is an argument of the definitions that call it: \<open>compress2\<close> and \<open>uncompress\<close>
  of zlib, with the documented law that the second undoes the first; \<open>adler32\<close> of zlib, without any
  law; \<open>apr_filepath_merge\<close>, \<open>apr_filepath_encoding\<close> and the conversions through \<open>iconv\<close> (the record
  \<open>platform\<close> of \<open>Svn_Dirents\<close>, and an argument of the definitions that write markers and headers).
  So are the consumers of windows and of written bytes, and the callbacks of editors and data sources;
  a source stream is the list of the bytes it still has, an output stream of \<open>libsvn_diff\<close> the text
  written to it. Checksums that are only computed and handed on are what was fed to them.

  What does not hold. Where the code does not do what it or its documentation says, the property is
  stated for the inputs it holds for, and a theorem shows the concrete input where it fails:
  \<open>merge2_noninheritable_corrupts\<close>, \<open>merge2_not_compacted\<close>, \<open>remove_ci_keeps_erased_range\<close>,
  \<open>inheritable2_bounded_removes_inheritable\<close>, \<open>adjust_drops_positive_revisions\<close>,
  \<open>parse_range_across_lines\<close>, \<open>empty_view_out_of_bounds\<close>, \<open>view_gap_not_skipped\<close>,
  \<open>send_string_too_long\<close>, \<open>remove_copy_keeps_src_ops\<close>, \<open>dirent_join_many_defects\<close>,
  \<open>canonicalize_port_zeros\<close>, \<open>file_url_escaped_nul\<close>, \<open>path_driver_fspaths\<close>,
  \<open>resolved_diff_at_file_start\<close>, \<open>init_blocks_table_wraps\<close>, \<open>trailing_space_kept\<close>,
  \<open>condense_drops_common_target\<close>.

  Not modelled: working copy, client, repository access, repository and file system libraries
  (\<open>libsvn_wc\<close>, \<open>libsvn_client\<close>, \<open>libsvn_ra*\<close>, \<open>libsvn_repos\<close>, \<open>libsvn_fs*\<close>), which are input and output,
  SQL and protocol around this core; the editors of \<open>libsvn_delta\<close>, tables of
  callbacks that call those of another editor; the four-way differences and the
  differences of files of \<open>libsvn_diff\<close>, its parser of patches and its display of property differences; the rest of \<open>libsvn_subr\<close>; language bindings, which are generated; the other bundled libraries (APR, serf, git,
  zlib), which are third-party; the application's native bridge and user interface.
\<close>

end
